(* ===== verification/Prelude.thy ===== *)
theory Prelude
  imports Main "HOL-Library.Char_ord" "HOL-Library.List_Lexorder" "HOL-Library.AList"
begin

text \<open>
  What the components share.

  A Rust \<open>str\<close> or \<open>String\<close> is its UTF-8 byte list, a HOL \<open>string\<close> (\<open>char\<close> has 256
  values), so \<open>length\<close> is \<open>len()\<close> and the library's lexicographic order on lists is
  Rust's byte order on strings. The string methods of the standard library the code
  calls (\<open>split\<close>, \<open>split_once\<close>, \<open>strip_prefix\<close>, \<open>trim\<close>, \<open>lines\<close>, ...) are defined
  here once, with the laws the component proofs use. A \<open>HashMap\<close> is an association
  list with distinct keys whose order stands for the arbitrary iteration order; a
  \<open>BTreeMap\<close> is an association list sorted by key. Both provide the interface
  \<open>keyed_map\<close>. An \<open>Instant\<close> and a \<open>Duration\<close> are a \<open>nat\<close> count of nanoseconds;
  \<open>nat\<close> subtraction is the saturating \<open>duration_since\<close>.
\<close>

named_theorems str_laws "laws of the string methods"

section \<open>Splitting and joining\<close>

fun split_on :: "'a \<Rightarrow> 'a list \<Rightarrow> 'a list list" where
  "split_on d [] = [[]]"
| "split_on d (c # cs) =
     (if c = d then [] # split_on d cs
      else (case split_on d cs of [] \<Rightarrow> [[c]] | p # ps \<Rightarrow> (c # p) # ps))"

fun join_with :: "'a list \<Rightarrow> 'a list list \<Rightarrow> 'a list" where
  "join_with sep [] = []"
| "join_with sep [p] = p"
| "join_with sep (p # q # ps) = p @ sep @ join_with sep (q # ps)"

lemma split_on_not_Nil [simp]: "split_on d s \<noteq> []"
  by (cases s) (auto split: list.splits)

lemma join_with_Cons: "ps \<noteq> [] \<Longrightarrow> join_with sep (p # ps) = p @ sep @ join_with sep ps"
  by (cases ps) auto

lemma join_split [str_laws, simp]: "join_with [d] (split_on d s) = s"
proof (induction s)
  case Nil
  show ?case by simp
next
  case (Cons c cs)
  show ?case
  proof (cases "split_on d cs")
    case Nil
    then show ?thesis by simp
  next
    case (Cons p ps)
    with Cons.IH show ?thesis by (cases ps) auto
  qed
qed

lemma split_on_Cons_cases:
  "p \<in> set (split_on d (c # cs)) \<Longrightarrow>
     p \<in> set (split_on d cs) \<or> p = [] \<or> (c \<noteq> d \<and> (\<exists>q \<in> set (split_on d cs). p = c # q))"
  by (cases "split_on d cs") (auto split: if_splits)

lemma split_on_no_sep [str_laws]: "p \<in> set (split_on d s) \<Longrightarrow> d \<notin> set p"
proof (induction s arbitrary: p)
  case (Cons c cs)
  from Cons.prems Cons.IH show ?case by (auto dest!: split_on_Cons_cases simp del: split_on.simps)
qed simp

lemma split_on_chars: "p \<in> set (split_on d s) \<Longrightarrow> set p \<subseteq> set s"
proof (induction s arbitrary: p)
  case (Cons c cs)
  from split_on_Cons_cases [OF Cons.prems] Cons.IH show ?case by fastforce
qed simp

lemma split_on_single [simp]: "d \<notin> set s \<Longrightarrow> split_on d s = [s]"
  by (induction s) auto

lemma split_on_append:
  "d \<notin> set p \<Longrightarrow> split_on d (p @ d # s) = p # split_on d s"
  by (induction p) auto

lemma split_join [str_laws]:
  "ps \<noteq> [] \<Longrightarrow> \<forall>p\<in>set ps. d \<notin> set p \<Longrightarrow> split_on d (join_with [d] ps) = ps"
proof (induction ps)
  case (Cons p ps)
  then show ?case by (cases ps) (auto simp: split_on_append)
qed simp

lemma set_join_with: "set (join_with sep ps) \<subseteq> set sep \<union> \<Union> (set ` set ps)"
  by (induction sep ps rule: join_with.induct) auto

text \<open>\<open>split_once\<close> cuts at the first separator, \<open>rsplit_once\<close> at the last one.\<close>

fun split_once :: "'a \<Rightarrow> 'a list \<Rightarrow> ('a list \<times> 'a list) option" where
  "split_once d [] = None"
| "split_once d (c # cs) =
     (if c = d then Some ([], cs)
      else map_option (\<lambda>(a, b). (c # a, b)) (split_once d cs))"

definition rsplit_once :: "'a \<Rightarrow> 'a list \<Rightarrow> ('a list \<times> 'a list) option" where
  "rsplit_once d s = map_option (\<lambda>(a, b). (rev b, rev a)) (split_once d (rev s))"

lemma split_once_None [simp]: "split_once d s = None \<longleftrightarrow> d \<notin> set s"
  by (induction s) auto

lemma split_once_notin [simp]: "d \<notin> set s \<Longrightarrow> split_once d s = None"
  by simp

lemma split_once_Some [str_laws]:
  "split_once d s = Some (a, b) \<longleftrightarrow> s = a @ d # b \<and> d \<notin> set a"
proof (induction s arbitrary: a)
  case (Cons c cs)
  then show ?case by (cases a) auto
qed simp

lemma rsplit_once_None [simp]: "rsplit_once d s = None \<longleftrightarrow> d \<notin> set s"
  by (simp add: rsplit_once_def)

lemma rsplit_once_Some [str_laws]:
  "rsplit_once d s = Some (a, b) \<longleftrightarrow> s = a @ d # b \<and> d \<notin> set b"
proof -
  have "rsplit_once d s = Some (a, b) \<longleftrightarrow> split_once d (rev s) = Some (rev b, rev a)"
    by (auto simp: rsplit_once_def)
  also have "\<dots> \<longleftrightarrow> rev s = rev b @ d # rev a \<and> d \<notin> set b"
    by (simp add: split_once_Some)
  also have "rev s = rev b @ d # rev a \<longleftrightarrow> s = a @ d # b"
    by (metis append.assoc append_Cons append_Nil rev.simps(2) rev_append rev_rev_ident)
  finally show ?thesis .
qed

text \<open>\<open>split_inclusive\<close> keeps the separator at the end of each piece.\<close>

fun split_inclusive :: "'a \<Rightarrow> 'a list \<Rightarrow> 'a list list" where
  "split_inclusive d [] = []"
| "split_inclusive d (c # cs) =
     (if c = d then [c] # split_inclusive d cs
      else (case split_inclusive d cs of [] \<Rightarrow> [[c]] | p # ps \<Rightarrow> (c # p) # ps))"

lemma concat_split_inclusive [str_laws, simp]: "concat (split_inclusive d s) = s"
  by (induction s) (auto split: list.splits)

section \<open>Prefixes, suffixes and trimming\<close>

definition starts_with :: "'a list \<Rightarrow> 'a list \<Rightarrow> bool" where
  "starts_with p s \<longleftrightarrow> take (length p) s = p"

definition ends_with :: "'a list \<Rightarrow> 'a list \<Rightarrow> bool" where
  "ends_with q s \<longleftrightarrow> starts_with (rev q) (rev s)"

definition strip_prefix :: "'a list \<Rightarrow> 'a list \<Rightarrow> 'a list option" where
  "strip_prefix p s = (if starts_with p s then Some (drop (length p) s) else None)"

definition strip_suffix :: "'a list \<Rightarrow> 'a list \<Rightarrow> 'a list option" where
  "strip_suffix q s =
     (if ends_with q s then Some (take (length s - length q) s) else None)"

fun contains_str :: "'a list \<Rightarrow> 'a list \<Rightarrow> bool" where
  "contains_str p [] = (p = [])"
| "contains_str p (c # cs) = (starts_with p (c # cs) \<or> contains_str p cs)"

lemma starts_with_iff [str_laws]: "starts_with p s \<longleftrightarrow> (\<exists>r. s = p @ r)"
  unfolding starts_with_def by (metis append_eq_conv_conj append_take_drop_id)

lemma starts_with_append [simp]: "starts_with p (p @ r)"
  by (auto simp: starts_with_iff)

lemma starts_with_Nil [simp]: "starts_with [] s"
  by (simp add: starts_with_def)

lemma starts_with_Cons [simp]:
  "starts_with (x # p) (y # s) \<longleftrightarrow> x = y \<and> starts_with p s"
  "\<not> starts_with (x # p) []"
  by (auto simp: starts_with_def)

lemma ends_with_iff [str_laws]: "ends_with q s \<longleftrightarrow> (\<exists>r. s = r @ q)"
proof
  assume "ends_with q s"
  then obtain r where "rev s = rev q @ r" by (auto simp: ends_with_def starts_with_iff)
  then have "s = rev r @ q" by (metis rev_append rev_rev_ident)
  then show "\<exists>r. s = r @ q" ..
qed (auto simp: ends_with_def)

lemma strip_prefix_Some [str_laws]: "strip_prefix p s = Some r \<longleftrightarrow> s = p @ r"
  by (auto simp: strip_prefix_def starts_with_iff)

lemma strip_prefix_append [simp]: "strip_prefix p (p @ r) = Some r"
  by (simp add: strip_prefix_Some)

lemma strip_prefix_None: "strip_prefix p s = None \<longleftrightarrow> \<not> starts_with p s"
  by (simp add: strip_prefix_def)

lemma strip_suffix_Some [str_laws]: "strip_suffix q s = Some r \<longleftrightarrow> s = r @ q"
  by (auto simp: strip_suffix_def ends_with_iff)

lemma strip_suffix_None: "strip_suffix q s = None \<longleftrightarrow> \<not> ends_with q s"
  by (simp add: strip_suffix_def)

text \<open>
  \<open>trim_start_matches\<close> and \<open>trim_end_matches\<close> for one character, and \<open>trim\<close> for the
  Unicode White\_Space characters, read off their UTF-8 bytes.
\<close>

definition trim_start_char :: "'a \<Rightarrow> 'a list \<Rightarrow> 'a list" where
  "trim_start_char d s = dropWhile (\<lambda>c. c = d) s"

definition trim_end_char :: "'a \<Rightarrow> 'a list \<Rightarrow> 'a list" where
  "trim_end_char d s = rev (dropWhile (\<lambda>c. c = d) (rev s))"

definition trim_char :: "'a \<Rightarrow> 'a list \<Rightarrow> 'a list" where
  "trim_char d s = trim_end_char d (trim_start_char d s)"

definition trim_end_matches :: "char set \<Rightarrow> string \<Rightarrow> string" where
  "trim_end_matches cs s = rev (dropWhile (\<lambda>c. c \<in> cs) (rev s))"

lemma trim_end_matches_prefix: "\<exists>r. s = trim_end_matches cs s @ r \<and> set r \<subseteq> cs"
proof (intro exI conjI)
  show "s = trim_end_matches cs s @ rev (takeWhile (\<lambda>c. c \<in> cs) (rev s))"
    unfolding trim_end_matches_def
    by (metis rev_append rev_rev_ident takeWhile_dropWhile_id)
qed (auto dest: set_takeWhileD)

definition ws_bytes :: "nat list list" where
  "ws_bytes =
     [[9], [10], [11], [12], [13], [32], [194, 133], [194, 160], [225, 154, 128]]
     @ map (\<lambda>b. [226, 128, b]) ([128..<139] @ [168, 169, 175])
     @ [[226, 129, 159], [227, 128, 128]]"

definition ws_chars :: "string list" where
  "ws_chars = map (map char_of) ws_bytes"

text \<open>The same list with the characters written out, for evaluation.\<close>

lemma ws_chars_code [code]:
  "ws_chars =
     [[CHR 0x09], [CHR 0x0A], [CHR 0x0B], [CHR 0x0C], [CHR 0x0D], [CHR 0x20], [CHR 0xC2, CHR 0x85],
      [CHR 0xC2, CHR 0xA0], [CHR 0xE1, CHR 0x9A, CHR 0x80], [CHR 0xE2, CHR 0x80, CHR 0x80],
      [CHR 0xE2, CHR 0x80, CHR 0x81], [CHR 0xE2, CHR 0x80, CHR 0x82],
      [CHR 0xE2, CHR 0x80, CHR 0x83], [CHR 0xE2, CHR 0x80, CHR 0x84],
      [CHR 0xE2, CHR 0x80, CHR 0x85], [CHR 0xE2, CHR 0x80, CHR 0x86],
      [CHR 0xE2, CHR 0x80, CHR 0x87], [CHR 0xE2, CHR 0x80, CHR 0x88],
      [CHR 0xE2, CHR 0x80, CHR 0x89], [CHR 0xE2, CHR 0x80, CHR 0x8A],
      [CHR 0xE2, CHR 0x80, CHR 0xA8], [CHR 0xE2, CHR 0x80, CHR 0xA9],
      [CHR 0xE2, CHR 0x80, CHR 0xAF], [CHR 0xE2, CHR 0x81, CHR 0x9F],
      [CHR 0xE3, CHR 0x80, CHR 0x80]]"
  by code_simp

definition str_lines :: "string \<Rightarrow> string list" where
  "str_lines s =
     map (\<lambda>line.
        case strip_suffix [CHR 0x0A] line of
          None \<Rightarrow> line
        | Some l \<Rightarrow> (case strip_suffix [CHR 0x0D] l of Some l' \<Rightarrow> l' | None \<Rightarrow> l))
       (split_inclusive CHR 0x0A s)"

definition ws_prefix :: "string list \<Rightarrow> string \<Rightarrow> nat" where
  "ws_prefix ws s = (case find (\<lambda>w. starts_with w s) ws of None \<Rightarrow> 0 | Some w \<Rightarrow> length w)"

function trim_ws :: "string list \<Rightarrow> string \<Rightarrow> string" where
  "trim_ws ws s =
     (let n = ws_prefix ws s in if n = 0 \<or> s = [] then s else trim_ws ws (drop n s))"
  by pat_completeness auto
termination
  by (relation "measure (\<lambda>(ws, s). length s)") auto

declare trim_ws.simps [simp del]

definition trim_start :: "string \<Rightarrow> string" where
  "trim_start s = trim_ws ws_chars s"

definition trim_end :: "string \<Rightarrow> string" where
  "trim_end s = rev (trim_ws (map rev ws_chars) (rev s))"

definition trim :: "string \<Rightarrow> string" where
  "trim s = trim_end (trim_start s)"

text \<open>Trimming only ever removes bytes of whitespace characters.\<close>

lemma trim_ws_keeps: "set s \<subseteq> set (trim_ws ws s) \<union> \<Union> (set ` set ws)"
proof (induction ws s rule: trim_ws.induct)
  case (1 ws s)
  show ?case
  proof (cases "ws_prefix ws s = 0 \<or> s = []")
    case False
    then obtain w where w: "find (\<lambda>w. starts_with w s) ws = Some w" and n: "ws_prefix ws s = length w"
      by (auto simp: ws_prefix_def split: option.splits)
    then have "w \<in> set ws" "starts_with w s" by (auto simp: find_Some_iff)
    then have "set (take (length w) s) \<subseteq> \<Union> (set ` set ws)" by (auto simp: starts_with_def)
    moreover have "set s = set (take (length w) s) \<union> set (drop (length w) s)"
      by (metis append_take_drop_id set_append)
    moreover have "trim_ws ws s = trim_ws ws (drop (length w) s)"
      using False n by (subst trim_ws.simps) (simp add: Let_def)
    ultimately show ?thesis using "1.IH" [OF refl False] n by auto
  qed (subst trim_ws.simps, auto)
qed

definition ws_byte :: "char \<Rightarrow> bool" where
  "ws_byte c \<longleftrightarrow> c \<in> \<Union> (set ` set ws_chars)"

lemma trim_keeps: "c \<in> set s \<Longrightarrow> \<not> ws_byte c \<Longrightarrow> c \<in> set (trim s)"
proof -
  assume c: "c \<in> set s" "\<not> ws_byte c"
  then have "c \<in> set (trim_start s)"
    using trim_ws_keeps [of s ws_chars] by (auto simp: trim_start_def ws_byte_def)
  then show ?thesis
    using trim_ws_keeps [of "rev (trim_start s)" "map rev ws_chars"] c(2)
    by (auto simp: trim_def trim_end_def ws_byte_def)
qed

lemma ws_byte_code: "ws_byte c \<longleftrightarrow> (of_char c :: nat) \<in> \<Union> (set ` set ws_bytes)"
proof -
  have "\<Union> (set ` set ws_bytes) \<subseteq> {..<256}" by (simp add: ws_bytes_def upt_rec)
  then have "take_bit 8 n = n" if "n \<in> \<Union> (set ` set ws_bytes)" for n
    using that by (auto simp: take_bit_eq_mod)
  then have eq: "(c = char_of n) = (of_char c = n)" if "n \<in> \<Union> (set ` set ws_bytes)" for n
    using that by (metis char_of_eq_iff)
  have "ws_byte c \<longleftrightarrow> (\<exists>n \<in> \<Union> (set ` set ws_bytes). c = char_of n)"
    by (auto simp: ws_byte_def ws_chars_def)
  also have "\<dots> \<longleftrightarrow> (\<exists>n \<in> \<Union> (set ` set ws_bytes). of_char c = n)"
    by (rule bex_cong [OF refl]) (rule eq)
  finally show ?thesis by simp
qed

section \<open>ASCII and UTF-8\<close>

definition is_ascii_digit :: "char \<Rightarrow> bool" where
  "is_ascii_digit c \<longleftrightarrow> CHR ''0'' \<le> c \<and> c \<le> CHR ''9''"

definition is_ascii_lower :: "char \<Rightarrow> bool" where
  "is_ascii_lower c \<longleftrightarrow> CHR ''a'' \<le> c \<and> c \<le> CHR ''z''"

definition is_ascii_upper :: "char \<Rightarrow> bool" where
  "is_ascii_upper c \<longleftrightarrow> CHR ''A'' \<le> c \<and> c \<le> CHR ''Z''"

definition to_ascii_lower :: "char \<Rightarrow> char" where
  "to_ascii_lower c = (if is_ascii_upper c then char_of ((of_char c :: nat) + 32) else c)"

definition ascii_lowercase :: "string \<Rightarrow> string" where
  "ascii_lowercase s = map to_ascii_lower s"

definition eq_ignore_ascii_case :: "string \<Rightarrow> string \<Rightarrow> bool" where
  "eq_ignore_ascii_case a b \<longleftrightarrow> ascii_lowercase a = ascii_lowercase b"

text \<open>\<open>chars()\<close>: a lead byte with the continuation bytes that follow it.\<close>

definition is_continuation :: "char \<Rightarrow> bool" where
  "is_continuation c \<longleftrightarrow> 128 \<le> (of_char c :: nat) \<and> (of_char c :: nat) < 192"

function chars :: "string \<Rightarrow> string list" where
  "chars [] = []"
| "chars (c # cs) =
     (c # takeWhile is_continuation cs) # chars (dropWhile is_continuation cs)"
  by pat_completeness auto
termination
  by (relation "measure length") (auto simp: length_dropWhile_le le_imp_less_Suc)

lemma concat_chars [str_laws, simp]: "concat (chars s) = s"
  by (induction s rule: chars.induct) auto

text \<open>A well-formed \<open>str\<close> never begins inside a character.\<close>

definition utf8_char :: "string \<Rightarrow> bool" where
  "utf8_char c \<longleftrightarrow> c \<noteq> [] \<and> \<not> is_continuation (hd c) \<and> list_all is_continuation (tl c)"

definition str_ok :: "string \<Rightarrow> bool" where
  "str_ok s \<longleftrightarrow> s = [] \<or> \<not> is_continuation (hd s)"

lemma utf8_chars: "str_ok s \<Longrightarrow> c \<in> set (chars s) \<Longrightarrow> utf8_char c"
proof (induction s arbitrary: c rule: chars.induct)
  case (2 x xs)
  have d: "str_ok (dropWhile is_continuation xs)"
    unfolding str_ok_def using hd_dropWhile by blast
  have "utf8_char (x # takeWhile is_continuation xs)"
    using 2(2) by (auto simp: utf8_char_def str_ok_def list_all_iff dest: set_takeWhileD)
  with 2(1) [OF d] 2(3) show ?case by auto
qed simp

lemma chars_Cons_utf8:
  "utf8_char c \<Longrightarrow> str_ok s \<Longrightarrow> chars (c @ s) = c # chars s"
proof -
  assume c: "utf8_char c" and s: "str_ok s"
  obtain h t where ht: "c = h # t" using c by (cases c) (auto simp: utf8_char_def)
  have t: "\<forall>x\<in>set t. is_continuation x" using c ht by (auto simp: utf8_char_def list_all_iff)
  have "takeWhile is_continuation s = []" "dropWhile is_continuation s = s"
    using s by (cases s; simp add: str_ok_def)+
  then have "takeWhile is_continuation (t @ s) = t" "dropWhile is_continuation (t @ s) = s"
    using t by (simp_all add: takeWhile_append dropWhile_append)
  then show ?thesis using ht by simp
qed

lemma str_ok_utf8_char: "utf8_char c \<Longrightarrow> str_ok (c @ s)"
  by (cases c) (auto simp: utf8_char_def str_ok_def)

lemma str_ok_concat: "\<forall>c\<in>set cs. utf8_char c \<Longrightarrow> str_ok (concat cs)"
proof (cases cs)
  case (Cons c cs')
  then show "\<forall>c\<in>set cs. utf8_char c \<Longrightarrow> ?thesis" by (simp add: str_ok_utf8_char)
qed (simp add: str_ok_def)

lemma chars_concat: "\<forall>c\<in>set cs. utf8_char c \<Longrightarrow> chars (concat cs) = cs"
  by (induction cs) (auto simp: chars_Cons_utf8 str_ok_concat)

lemma utf8_ascii: "utf8_char [c] \<longleftrightarrow> \<not> is_continuation c"
  by (simp add: utf8_char_def)

lemma chars_append: "str_ok s \<Longrightarrow> str_ok t \<Longrightarrow> chars (s @ t) = chars s @ chars t"
proof (induction s rule: chars.induct)
  case (2 c cs)
  let ?w = "takeWhile is_continuation cs" and ?d = "dropWhile is_continuation cs"
  have u: "utf8_char (c # ?w)"
    using 2(2) by (auto simp: utf8_char_def str_ok_def list_all_iff dest: set_takeWhileD)
  have d: "str_ok ?d" unfolding str_ok_def using hd_dropWhile by blast
  have dt: "str_ok (?d @ t)" using d 2(3) by (simp only: str_ok_def hd_append append_is_Nil_conv split: if_split) blast
  have "chars ((c # ?w) @ (?d @ t)) = (c # ?w) # chars (?d @ t)"
    by (rule chars_Cons_utf8 [OF u dt])
  then show ?case using 2(1) [OF d 2(3)] by (simp flip: append_assoc)
qed simp

lemma chars_ascii: "\<forall>c\<in>set s. \<not> is_continuation c \<Longrightarrow> chars s = map (\<lambda>c. [c]) s"
  by (induction s) (auto simp: dropWhile_eq_self_iff takeWhile_eq_Nil_iff)

lemma chars_take: "str_ok s \<Longrightarrow> chars (concat (take n (chars s))) = take n (chars s)"
  by (rule chars_concat) (auto dest: in_set_takeD utf8_chars)

text \<open>What UTF-8 gives a scan: a character that starts with an ASCII byte is that byte.\<close>

definition ascii_alone :: "string \<Rightarrow> bool" where
  "ascii_alone c \<longleftrightarrow> utf8_char c \<and> ((of_char (hd c) :: nat) < 128 \<longrightarrow> tl c = [])"

definition str_utf8 :: "string \<Rightarrow> bool" where
  "str_utf8 s \<longleftrightarrow> list_all ascii_alone (chars s)"

section \<open>Decimal numerals\<close>

definition digit :: "nat \<Rightarrow> char" where
  "digit n = char_of (48 + n)"

definition digit_val :: "char \<Rightarrow> nat" where
  "digit_val c = of_char c - 48"

fun nat_str :: "nat \<Rightarrow> string" where
  "nat_str n = (if n < 10 then [digit n] else nat_str (n div 10) @ [digit (n mod 10)])"

declare nat_str.simps [simp del]

definition str_nat :: "string \<Rightarrow> nat" where
  "str_nat s = foldl (\<lambda>a c. a * 10 + digit_val c) 0 s"

lemma of_char_digit: "n < 10 \<Longrightarrow> of_char (digit n) = 48 + n"
  by (simp add: digit_def take_bit_eq_mod)

lemma digit_val_digit: "n < 10 \<Longrightarrow> digit_val (digit n) = n"
  by (simp add: digit_val_def of_char_digit)

lemma str_nat_nat_str [simp]: "str_nat (nat_str n) = n"
proof (induction n rule: nat_str.induct)
  case (1 n)
  then show ?case
    by (subst nat_str.simps) (auto simp: str_nat_def digit_val_digit)
qed

lemma nat_str_inj [simp]: "nat_str m = nat_str n \<longleftrightarrow> m = n"
  by (metis str_nat_nat_str)

lemma is_ascii_digit_code: "is_ascii_digit c \<longleftrightarrow> of_char c \<in> {48..57::nat}"
  by (simp add: is_ascii_digit_def less_eq_char_def)

lemma nat_str_digits: "c \<in> set (nat_str n) \<Longrightarrow> is_ascii_digit c"
proof (induction n rule: nat_str.induct)
  case (1 n)
  have d: "m < 10 \<Longrightarrow> is_ascii_digit (digit m)" for m
    by (simp add: is_ascii_digit_code of_char_digit)
  show ?case
  proof (cases "n < 10")
    case True
    then show ?thesis using 1(2) d by (simp add: nat_str.simps)
  next
    case False
    then have "nat_str n = nat_str (n div 10) @ [digit (n mod 10)]" by (subst nat_str.simps) simp
    then show ?thesis using 1 False d [of "n mod 10"] by auto
  qed
qed

lemma nat_str_not_Nil [simp]: "nat_str n \<noteq> []"
  by (subst nat_str.simps) simp

lemma length_nat_str: "n < 10 ^ k \<Longrightarrow> 0 < k \<Longrightarrow> length (nat_str n) \<le> k"
proof (induction n arbitrary: k rule: nat_str.induct)
  case (1 n)
  show ?case
  proof (cases "n < 10")
    case True
    then show ?thesis using 1(3) by (subst nat_str.simps) simp
  next
    case False
    then obtain j where k: "k = Suc j" "0 < j" using 1(2,3)
      by (cases k) (auto, metis gr0I less_one linorder_not_less mult.right_neutral power_0)
    then have "n div 10 < 10 ^ j" using 1(2) by (simp add: less_mult_imp_div_less mult.commute)
    then have "length (nat_str (n div 10)) \<le> j" using 1(1) False k(2) by blast
    then show ?thesis using False k by (subst nat_str.simps) simp
  qed
qed

lemma digit_not_continuation: "is_ascii_digit c \<Longrightarrow> \<not> is_continuation c"
  by (simp add: is_ascii_digit_code is_continuation_def)

section \<open>Checked and saturating arithmetic\<close>

text \<open>
  \<open>u32\<close>, \<open>u64\<close> and \<open>usize\<close> values are \<open>nat\<close>s with the bound written out where the
  code checks or saturates; a \<open>Duration\<close> holds at most \<open>u64::MAX\<close> seconds and
  999999999 nanoseconds.
\<close>

definition u32_max :: nat where "u32_max = 2 ^ 32 - 1"

definition nanos :: nat where "nanos = 1000000000"

definition secs :: "nat \<Rightarrow> nat" where "secs n = n * nanos"

definition as_secs :: "nat \<Rightarrow> nat" where "as_secs d = d div nanos"

definition checked_sub :: "nat \<Rightarrow> nat \<Rightarrow> nat option" where
  "checked_sub a b = (if b \<le> a then Some (a - b) else None)"

definition checked_shl_u32 :: "nat \<Rightarrow> nat \<Rightarrow> nat option" where
  "checked_shl_u32 a n = (if n < 32 then Some ((a * 2 ^ n) mod 2 ^ 32) else None)"

definition checked_mul_duration :: "nat \<Rightarrow> nat \<Rightarrow> nat option" where
  "checked_mul_duration d f = (if d * f < 2 ^ 64 * nanos then Some (d * f) else None)"

definition saturating_add_u32 :: "nat \<Rightarrow> nat \<Rightarrow> nat" where
  "saturating_add_u32 a b = min (a + b) u32_max"

end
