(* ===== verification/Maps.thy ===== *)
theory Maps
  imports Prelude
begin

text \<open>
  The two map types of the standard library the code uses. A \<open>HashMap\<close> is an
  association list with distinct keys; its list order stands for the unspecified
  iteration order, so a lemma that holds for every such list holds for every iteration
  order. A \<open>BTreeMap\<close> is an association list strictly sorted by key, which is its
  iteration order. \<open>keyed_map\<close> is the interface both provide: the laws of \<open>get\<close>,
  \<open>insert\<close>, \<open>remove\<close> and \<open>len\<close>.
\<close>

locale keyed_map =
  fixes lookup :: "'m \<Rightarrow> 'k \<Rightarrow> 'v option"
    and insert :: "'k \<Rightarrow> 'v \<Rightarrow> 'm \<Rightarrow> 'm"
    and remove :: "'k \<Rightarrow> 'm \<Rightarrow> 'm"
    and count :: "'m \<Rightarrow> nat"
    and ok :: "'m \<Rightarrow> bool"
  assumes ok_insert: "ok m \<Longrightarrow> ok (insert k v m)"
    and ok_remove: "ok m \<Longrightarrow> ok (remove k m)"
    and lookup_insert: "ok m \<Longrightarrow> lookup (insert k v m) k' = (if k' = k then Some v else lookup m k')"
    and lookup_remove: "ok m \<Longrightarrow> lookup (remove k m) k' = (if k' = k then None else lookup m k')"
    and count_card: "ok m \<Longrightarrow> count m = card (dom (lookup m))"
    and finite_keys: "ok m \<Longrightarrow> finite (dom (lookup m))"
begin

lemma ok_insert_all: "ok m \<Longrightarrow> ok (fold (\<lambda>(k, v). insert k v) kvs m)"
  by (induction kvs arbitrary: m) (auto simp: ok_insert)

lemma lookup_insert_all:
  "ok m \<Longrightarrow> lookup (fold (\<lambda>(k, v). insert k v) kvs m) k =
     (case map_of (rev kvs) k of None \<Rightarrow> lookup m k | Some v \<Rightarrow> Some v)"
  by (induction kvs arbitrary: m)
     (auto simp: ok_insert lookup_insert map_add_def split: option.splits)

lemma dom_insert: "ok m \<Longrightarrow> dom (lookup (insert k v m)) = Set.insert k (dom (lookup m))"
  by (auto simp: lookup_insert split: if_splits)

lemma dom_remove: "ok m \<Longrightarrow> dom (lookup (remove k m)) = dom (lookup m) - {k}"
  by (auto simp: lookup_remove split: if_splits)

lemma count_insert: "ok m \<Longrightarrow> count (insert k v m) = (if lookup m k = None then Suc (count m) else count m)"
  by (auto simp: count_card ok_insert dom_insert card_insert_if finite_keys domIff)

lemma count_remove: "ok m \<Longrightarrow> count (remove k m) = (if lookup m k = None then count m else count m - 1)"
  by (auto simp: count_card ok_remove dom_remove card_Diff_singleton_if finite_keys domIff)

lemma count_remove_le: "ok m \<Longrightarrow> count (remove k m) \<le> count m"
  by (simp add: count_remove)

end

lemma map_leD: "m \<subseteq>\<^sub>m m' \<Longrightarrow> m k = Some v \<Longrightarrow> m' k = Some v"
  by (metis domI map_le_def)

section \<open>HashMap\<close>

definition hm_ok :: "('k \<times> 'v) list \<Rightarrow> bool" where
  "hm_ok m \<longleftrightarrow> distinct (map fst m)"

lemma card_keys_distinct: "distinct (map fst m) \<Longrightarrow> card (dom (map_of m)) = length m"
  by (metis distinct_card dom_map_of_conv_image_fst image_set length_map)

interpretation hm: keyed_map map_of AList.update AList.delete length hm_ok
proof unfold_locales
  fix m :: "('k \<times> 'v) list" and k k' :: 'k and v :: 'v
  assume m: "hm_ok m"
  show "hm_ok (AList.update k v m)"
    using m by (simp add: hm_ok_def distinct_update)
  show "hm_ok (AList.delete k m)"
    using m by (simp add: hm_ok_def distinct_delete)
  show "map_of (AList.update k v m) k' = (if k' = k then Some v else map_of m k')"
    by (simp add: update_conv')
  show "map_of (AList.delete k m) k' = (if k' = k then None else map_of m k')"
    by (simp add: delete_conv')
  show "length m = card (dom (map_of m))"
    using m by (simp add: hm_ok_def card_keys_distinct)
  show "finite (dom (map_of m))" by (rule finite_dom_map_of)
qed

lemma hm_ok_filter: "hm_ok m \<Longrightarrow> hm_ok (filter P m)"
  by (simp add: hm_ok_def distinct_map_filter)

lemma map_of_filter_key:
  "hm_ok m \<Longrightarrow> map_of (filter (\<lambda>(k, v). P k v) m) k =
     (case map_of m k of None \<Rightarrow> None | Some v \<Rightarrow> if P k v then Some v else None)"
proof (induction m)
  case (Cons kv m)
  then have notin: "map_of m (fst kv) = None"
    by (auto simp: hm_ok_def map_of_eq_None_iff)
  have "hm_ok m" using Cons.prems by (simp add: hm_ok_def)
  from Cons.IH [OF this] notin show ?case
    by (cases kv) (auto split: option.splits)
qed simp

section \<open>BTreeMap\<close>

definition bt_ok :: "('k::linorder \<times> 'v) list \<Rightarrow> bool" where
  "bt_ok m \<longleftrightarrow> sorted_wrt (<) (map fst m)"

fun bt_insert :: "'k::linorder \<Rightarrow> 'v \<Rightarrow> ('k \<times> 'v) list \<Rightarrow> ('k \<times> 'v) list" where
  "bt_insert k v [] = [(k, v)]"
| "bt_insert k v ((k', v') # m) =
     (if k < k' then (k, v) # (k', v') # m
      else if k = k' then (k, v) # m
      else (k', v') # bt_insert k v m)"

definition bt_remove :: "'k::linorder \<Rightarrow> ('k \<times> 'v) list \<Rightarrow> ('k \<times> 'v) list" where
  "bt_remove k m = filter (\<lambda>(k', _). k' \<noteq> k) m"

lemma keys_bt_insert: "fst ` set (bt_insert k v m) = insert k (fst ` set m)"
  by (induction k v m rule: bt_insert.induct) auto

lemma bt_ok_insert: "bt_ok m \<Longrightarrow> bt_ok (bt_insert k v m)"
proof (induction k v m rule: bt_insert.induct)
  case (2 k v k' v' m)
  then have "bt_ok m" by (simp add: bt_ok_def)
  with 2 keys_bt_insert [of k v m] show ?case by (force simp: bt_ok_def)
qed (simp add: bt_ok_def)

lemma map_of_bt_insert: "map_of (bt_insert k v m) = (map_of m)(k \<mapsto> v)"
  by (induction k v m rule: bt_insert.induct) auto

lemma map_of_bt_remove: "map_of (bt_remove k m) = (map_of m)(k := None)"
  by (induction m) (auto simp: bt_remove_def)

lemma bt_ok_hm_ok: "bt_ok m \<Longrightarrow> hm_ok m"
  unfolding bt_ok_def hm_ok_def using strict_sorted_iff by blast

lemma bt_ok_filter: "bt_ok m \<Longrightarrow> bt_ok (filter P m)"
  by (induction m) (auto simp: bt_ok_def)

interpretation bt: keyed_map map_of "bt_insert :: 'k::linorder \<Rightarrow> _" bt_remove length bt_ok
proof unfold_locales
  fix m :: "('k::linorder \<times> 'v) list" and k k' :: 'k and v :: 'v
  assume m: "bt_ok m"
  show "bt_ok (bt_insert k v m)" using m by (rule bt_ok_insert)
  show "bt_ok (bt_remove k m)" using m by (simp add: bt_remove_def bt_ok_filter)
  show "map_of (bt_insert k v m) k' = (if k' = k then Some v else map_of m k')"
    by (simp add: map_of_bt_insert)
  show "map_of (bt_remove k m) k' = (if k' = k then None else map_of m k')"
    by (simp add: map_of_bt_remove)
  show "length m = card (dom (map_of m))" using bt_ok_hm_ok [OF m] by (rule hm.count_card)
  show "finite (dom (map_of m))" by (rule finite_dom_map_of)
qed

text \<open>Two sorted maps with the same lookups are the same list.\<close>

lemma bt_ext: "bt_ok m \<Longrightarrow> bt_ok m' \<Longrightarrow> map_of m = map_of m' \<Longrightarrow> m = m'"
proof -
  assume ok: "bt_ok m" "bt_ok m'" and eq: "map_of m = map_of m'"
  have d: "distinct (map fst m)" "distinct (map fst m')"
    using ok [THEN bt_ok_hm_ok] by (auto simp: hm_ok_def)
  have sets: "set m = set m'"
    using eq d by (metis map_of_inject_set)
  then have "map fst m = map fst m'"
    using ok strict_sorted_equal [of "map fst m" "map fst m'"] by (simp add: bt_ok_def)
  moreover have "map snd m = map snd m'"
  proof -
    have "map snd m = map (the \<circ> map_of m \<circ> fst) m" "map snd m' = map (the \<circ> map_of m' \<circ> fst) m'"
      using d by auto
    then show ?thesis using eq \<open>map fst m = map fst m'\<close> by (metis list.map_comp comp_assoc)
  qed
  ultimately show ?thesis by (metis zip_map_fst_snd)
qed

end
