(* ===== verification/LoginThrottle.thy ===== *)
theory LoginThrottle
  imports Maps
begin

text \<open>
  \<open>crates/rest/src/login_throttle.rs\<close>: the table of consecutive login failures per
  submitted name, the escalating delay, the forgetting window, the eviction at the
  table's cap and the permits of napping requests. Instants and durations are
  nanoseconds; the mutex makes every operation atomic, so the table's life is a
  sequence of operations (\<open>throttle_op\<close>).
\<close>

definition FORGET_AFTER :: nat where "FORGET_AFTER = secs (15 * 60)"
definition MAX_TRACKED :: nat where "MAX_TRACKED = 100000"
definition MAX_SLEEPERS :: nat where "MAX_SLEEPERS = 64"
definition BASE_DELAY :: nat where "BASE_DELAY = secs 1"

datatype verdict = Delay nat | Refuse nat

record failures =
  fl_count :: nat
  fl_last :: nat

record login_throttle =
  lt_names :: "(string \<times> failures) list"
  lt_sleepers :: nat
  lt_free_attempts :: nat
  lt_max_delay :: nat

definition new_throttle :: "nat \<Rightarrow> nat \<Rightarrow> login_throttle" where
  "new_throttle free_attempts max_delay =
     \<lparr>lt_names = [], lt_sleepers = MAX_SLEEPERS,
      lt_free_attempts = free_attempts, lt_max_delay = max_delay\<rparr>"

definition delay_for :: "login_throttle \<Rightarrow> nat \<Rightarrow> nat option" where
  "delay_for t cnt =
     (if cnt < lt_free_attempts t then Some 0
      else case checked_sub cnt (lt_free_attempts t) of None \<Rightarrow> None | Some steps \<Rightarrow>
        (case checked_shl_u32 1 steps of None \<Rightarrow> None | Some factor \<Rightarrow>
          (case checked_mul_duration BASE_DELAY factor of None \<Rightarrow> None | Some delay \<Rightarrow>
             if delay \<le> lt_max_delay t then Some delay else None)))"

definition check :: "login_throttle \<Rightarrow> string \<Rightarrow> nat \<Rightarrow> verdict \<times> login_throttle" where
  "check t key now =
     (if lt_max_delay t = 0 then (Delay 0, t)
      else
        let (seen, t') =
          (case map_of (lt_names t) key of
             Some s \<Rightarrow>
               if FORGET_AFTER \<le> now - fl_last s
               then (None, t\<lparr>lt_names := AList.delete key (lt_names t)\<rparr>)
               else (Some s, t)
           | None \<Rightarrow> (None, t));
          cnt = (case seen of Some s \<Rightarrow> fl_count s | None \<Rightarrow> 0)
        in (case delay_for t cnt of
              Some delay \<Rightarrow> (Delay delay, t')
            | None \<Rightarrow>
                let left = (case seen of Some s \<Rightarrow> FORGET_AFTER - (now - fl_last s)
                                       | None \<Rightarrow> FORGET_AFTER)
                in (Refuse (max (as_secs left) 1), t')))"

text \<open>\<open>min_by_key\<close> answers the first entry with the least key, in iteration order.\<close>

fun min_by_last :: "(string \<times> failures) list \<Rightarrow> (string \<times> failures) option" where
  "min_by_last [] = None"
| "min_by_last (e # es) =
     (case min_by_last es of None \<Rightarrow> Some e
      | Some e' \<Rightarrow> if fl_last (snd e) \<le> fl_last (snd e') then Some e else Some e')"

definition make_room :: "(string \<times> failures) list \<Rightarrow> nat \<Rightarrow> (string \<times> failures) list" where
  "make_room names now =
     (if MAX_TRACKED \<le> length names then
        let kept = filter (\<lambda>(_, s). now - fl_last s < FORGET_AFTER) names
        in if MAX_TRACKED \<le> length kept then
             (case min_by_last kept of None \<Rightarrow> kept
              | Some (oldest, _) \<Rightarrow> AList.delete oldest kept)
           else kept
      else names)"

definition record_failure :: "login_throttle \<Rightarrow> string \<Rightarrow> nat \<Rightarrow> login_throttle" where
  "record_failure t key now =
     (let names = make_room (lt_names t) now;
          seen = (case map_of names key of Some s \<Rightarrow> s
                  | None \<Rightarrow> \<lparr>fl_count = 0, fl_last = now\<rparr>);
          seen = (if FORGET_AFTER \<le> now - fl_last seen then seen\<lparr>fl_count := 0\<rparr> else seen);
          seen = seen\<lparr>fl_count := saturating_add_u32 (fl_count seen) 1, fl_last := now\<rparr>
      in t\<lparr>lt_names := AList.update key seen names\<rparr>)"

definition record_success :: "login_throttle \<Rightarrow> string \<Rightarrow> login_throttle" where
  "record_success t key = t\<lparr>lt_names := AList.delete key (lt_names t)\<rparr>"

definition try_take_sleeper :: "login_throttle \<Rightarrow> login_throttle option" where
  "try_take_sleeper t =
     (if 0 < lt_sleepers t then Some (t\<lparr>lt_sleepers := lt_sleepers t - 1\<rparr>) else None)"

definition failures_of :: "login_throttle \<Rightarrow> string \<Rightarrow> nat" where
  "failures_of t key = (case map_of (lt_names t) key of Some s \<Rightarrow> fl_count s | None \<Rightarrow> 0)"

definition tracked :: "login_throttle \<Rightarrow> nat" where
  "tracked t = length (lt_names t)"

section \<open>The table's invariant\<close>

definition throttle_ok :: "login_throttle \<Rightarrow> bool" where
  "throttle_ok t \<longleftrightarrow>
     hm_ok (lt_names t) \<and> tracked t \<le> MAX_TRACKED \<and> lt_sleepers t \<le> MAX_SLEEPERS
     \<and> (\<forall>s \<in> snd ` set (lt_names t). 1 \<le> fl_count s \<and> fl_count s \<le> u32_max)"

inductive throttle_op :: "login_throttle \<Rightarrow> login_throttle \<Rightarrow> bool" where
  op_check: "check t key now = (v, t') \<Longrightarrow> throttle_op t t'"
| op_failure: "throttle_op t (record_failure t key now)"
| op_success: "throttle_op t (record_success t key)"
| op_sleep: "try_take_sleeper t = Some t' \<Longrightarrow> throttle_op t t'"
| op_wake: "lt_sleepers t < MAX_SLEEPERS \<Longrightarrow>
    throttle_op t (t\<lparr>lt_sleepers := Suc (lt_sleepers t)\<rparr>)"

inductive throttle_reach :: "nat \<Rightarrow> nat \<Rightarrow> login_throttle \<Rightarrow> bool" for free ceiling where
  start: "throttle_reach free ceiling (new_throttle free ceiling)"
| step: "throttle_reach free ceiling t \<Longrightarrow> throttle_op t t' \<Longrightarrow> throttle_reach free ceiling t'"

lemmas throttle_defs = check_def record_failure_def record_success_def try_take_sleeper_def

lemma min_by_last_in: "min_by_last es = Some e \<Longrightarrow> e \<in> set es"
  by (induction es arbitrary: e) (auto split: option.splits if_splits)

lemma min_by_last_None: "min_by_last es = None \<longleftrightarrow> es = []"
  by (cases es) (auto split: option.splits)

lemma min_by_last_least: "min_by_last es = Some e \<Longrightarrow> x \<in> set es \<Longrightarrow> fl_last (snd e) \<le> fl_last (snd x)"
  by (induction es arbitrary: e) (fastforce simp: min_by_last_None split: option.splits if_splits)+

lemma set_make_room: "set (make_room names now) \<subseteq> set names"
  by (auto simp: make_room_def Let_def AList.delete_eq split: option.splits)

lemma hm_ok_make_room: "hm_ok names \<Longrightarrow> hm_ok (make_room names now)"
  by (auto simp: make_room_def Let_def hm_ok_filter hm.ok_remove split: option.splits)

lemma length_make_room:
  assumes "hm_ok names" "length names \<le> MAX_TRACKED"
  shows "length (make_room names now) < MAX_TRACKED"
proof (cases "MAX_TRACKED \<le> length names")
  case True
  define kept where "kept = filter (\<lambda>(_, s). now - fl_last s < FORGET_AFTER) names"
  have ok: "hm_ok kept" and le: "length kept \<le> length names"
    using assms by (auto simp: kept_def hm_ok_filter)
  show ?thesis
  proof (cases "MAX_TRACKED \<le> length kept")
    case True
    then obtain k s where m: "min_by_last kept = Some (k, s)"
      by (cases "min_by_last kept") (auto simp: min_by_last_None MAX_TRACKED_def)
    from min_by_last_in [OF m] ok have "map_of kept k = Some s" by (simp add: hm_ok_def)
    with hm.count_remove [OF ok, of k] True le assms m \<open>MAX_TRACKED \<le> length names\<close>
    show ?thesis by (simp add: make_room_def Let_def MAX_TRACKED_def flip: kept_def)
  next
    case False
    then show ?thesis using \<open>MAX_TRACKED \<le> length names\<close>
      by (simp add: make_room_def Let_def flip: kept_def)
  qed
qed (simp add: make_room_def)

lemma snd_update: "snd ` set (AList.update k v m) \<subseteq> insert v (snd ` set m)"
  by (induction m) auto

lemma snd_delete: "snd ` set (AList.delete k m) \<subseteq> snd ` set m"
  by (auto simp: AList.delete_eq)

lemma record_failure_ok: "throttle_ok t \<Longrightarrow> throttle_ok (record_failure t key now)"
proof -
  assume t: "throttle_ok t"
  let ?names = "make_room (lt_names t) now"
  have ok: "hm_ok ?names" and len: "length ?names < MAX_TRACKED"
    using t by (auto simp: throttle_ok_def tracked_def hm_ok_make_room length_make_room)
  define s where "s = (case map_of ?names key of Some s \<Rightarrow> s
                  | None \<Rightarrow> \<lparr>fl_count = 0, fl_last = now\<rparr>)"
  define s' where "s' = (if FORGET_AFTER \<le> now - fl_last s then s\<lparr>fl_count := 0\<rparr> else s)
      \<lparr>fl_count := saturating_add_u32
          (fl_count (if FORGET_AFTER \<le> now - fl_last s then s\<lparr>fl_count := 0\<rparr> else s)) 1,
       fl_last := now\<rparr>"
  have eq: "record_failure t key now = t\<lparr>lt_names := AList.update key s' ?names\<rparr>"
    by (simp add: record_failure_def Let_def s'_def s_def)
  have "1 \<le> fl_count s' \<and> fl_count s' \<le> u32_max"
    by (simp add: s'_def saturating_add_u32_def u32_max_def)
  moreover have "snd ` set (AList.update key s' ?names) \<subseteq> insert s' (snd ` set (lt_names t))"
    using snd_update [of key s' ?names] set_make_room [of "lt_names t" now] by blast
  ultimately have "\<forall>s \<in> snd ` set (AList.update key s' ?names). 1 \<le> fl_count s \<and> fl_count s \<le> u32_max"
    using t unfolding throttle_ok_def by blast
  then show ?thesis
    using t ok len hm.count_insert [OF ok, of key s']
    by (simp add: eq throttle_ok_def tracked_def hm.ok_insert split: if_splits)
qed

lemma delete_ok: "throttle_ok t \<Longrightarrow> throttle_ok (t\<lparr>lt_names := AList.delete key (lt_names t)\<rparr>)"
  using snd_delete [of key "lt_names t"] hm.count_remove_le [of "lt_names t" key]
  by (fastforce simp: throttle_ok_def tracked_def hm.ok_remove)

lemma check_state:
  "check t key now = (v, t') \<Longrightarrow> t' = t \<or> t' = t\<lparr>lt_names := AList.delete key (lt_names t)\<rparr>"
  by (auto simp: check_def Let_def split: if_splits option.splits)

lemma throttle_op_ok: "throttle_op t t' \<Longrightarrow> throttle_ok t \<Longrightarrow> throttle_ok t'"
proof (induction rule: throttle_op.induct)
  case (op_check t key now v t')
  then show ?case using check_state delete_ok by blast
next
  case op_failure
  then show ?case by (rule record_failure_ok)
next
  case op_success
  then show ?case by (simp add: record_success_def delete_ok)
qed (auto simp: throttle_ok_def tracked_def try_take_sleeper_def split: if_splits)

lemma throttle_op_config:
  "throttle_op t t' \<Longrightarrow>
     lt_free_attempts t' = lt_free_attempts t \<and> lt_max_delay t' = lt_max_delay t"
  by (induction rule: throttle_op.induct)
     (auto simp: record_failure_def record_success_def try_take_sleeper_def Let_def
           dest!: check_state split: if_splits)

section \<open>Properties\<close>

text \<open>
  Whatever names are submitted and in whatever order failures, successes, checks and
  naps arrive, the table holds at most \<open>MAX_TRACKED\<close> names, each once and with a count
  between 1 and \<open>u32::MAX\<close>, and no more permits than \<open>MAX_SLEEPERS\<close>; the
  configuration never changes.
\<close>

theorem throttle_bounded:
  "throttle_reach free ceiling t \<Longrightarrow>
     throttle_ok t \<and> lt_free_attempts t = free \<and> lt_max_delay t = ceiling"
proof (induction rule: throttle_reach.induct)
  case start
  show ?case by (simp add: throttle_ok_def tracked_def new_throttle_def hm_ok_def)
next
  case (step t t')
  then show ?case using throttle_op_ok throttle_op_config by auto
qed

theorem throttle_bounded_witness:
  "throttle_ok (record_failure (new_throttle 3 (secs 30)) ''ada'' 7)"
proof -
  have "throttle_reach 3 (secs 30) (record_failure (new_throttle 3 (secs 30)) ''ada'' 7)"
    by (rule throttle_reach.step [OF throttle_reach.start op_failure])
  then show ?thesis using throttle_bounded by blast
qed

text \<open>The schedule in closed form, on the count a check finds.\<close>

definition live_count :: "login_throttle \<Rightarrow> string \<Rightarrow> nat \<Rightarrow> nat" where
  "live_count t key now =
     (case map_of (lt_names t) key of
        Some s \<Rightarrow> if now - fl_last s < FORGET_AFTER then fl_count s else 0
      | None \<Rightarrow> 0)"

lemma delay_for_eq:
  "delay_for t cnt =
     (if cnt < lt_free_attempts t then Some 0
      else if cnt - lt_free_attempts t < 32
              \<and> secs (2 ^ (cnt - lt_free_attempts t)) \<le> lt_max_delay t
           then Some (secs (2 ^ (cnt - lt_free_attempts t)))
      else None)"
proof -
  have "(2::nat) ^ n < 2 ^ 32" if "n < 32" for n
    using that by (intro power_strict_increasing) auto
  moreover have "secs (2 ^ n) < 2 ^ 64 * nanos" if "n < 32" for n
    using that power_strict_increasing [of n 64 "2::nat"] by (simp add: secs_def nanos_def)
  ultimately show ?thesis
    by (auto simp: delay_for_def checked_sub_def checked_shl_u32_def checked_mul_duration_def
          BASE_DELAY_def secs_def mult.commute split: option.splits)
qed

lemma delay_for_mono:
  "delay_for t b = Some d' \<Longrightarrow> a \<le> b \<Longrightarrow> \<exists>d. delay_for t a = Some d \<and> d \<le> d'"
proof -
  assume b: "delay_for t b = Some d'" and "a \<le> b"
  let ?f = "lt_free_attempts t"
  show ?thesis
  proof (cases "a < ?f")
    case False
    with \<open>a \<le> b\<close> have "secs (2 ^ (a - ?f)) \<le> secs (2 ^ (b - ?f))"
      by (simp add: secs_def power_increasing diff_le_mono)
    with b False \<open>a \<le> b\<close> show ?thesis by (auto simp: delay_for_eq split: if_splits)
  qed (simp add: delay_for_eq)
qed

text \<open>
  What an attempt costs is decided by the run of live failures alone: free attempts
  cost nothing, the next ones one second doubled per failure as long as that stays under
  the ceiling, and past it the attempt is refused for 1 to 900 seconds. A zero ceiling
  turns the throttle off.
\<close>

theorem check_schedule:
  "fst (check t key now) =
     (let c = live_count t key now; k = c - lt_free_attempts t in
      if lt_max_delay t = 0 \<or> c < lt_free_attempts t then Delay 0
      else if k < 32 \<and> secs (2 ^ k) \<le> lt_max_delay t then Delay (secs (2 ^ k))
      else Refuse (max 1 (as_secs
             (case map_of (lt_names t) key of
                Some s \<Rightarrow> if now - fl_last s < FORGET_AFTER
                          then FORGET_AFTER - (now - fl_last s) else FORGET_AFTER
              | None \<Rightarrow> FORGET_AFTER))))
   \<and> (\<forall>r. fst (check t key now) = Refuse r \<longrightarrow> 1 \<le> r \<and> r \<le> 900)"
proof -
  have bound: "as_secs (FORGET_AFTER - x) \<le> 900" for x
  proof -
    have "(FORGET_AFTER - x) div nanos \<le> FORGET_AFTER div nanos" by (rule div_le_mono) simp
    then show ?thesis by (simp add: as_secs_def FORGET_AFTER_def secs_def nanos_def)
  qed
  from bound [of 0] bound show ?thesis
    by (auto simp: check_def live_count_def delay_for_eq Let_def max.commute
          split: option.splits if_splits)
qed

theorem check_schedule_witness:
  "fst (check \<lparr>lt_names = [(''ada'', \<lparr>fl_count = 5, fl_last = 0\<rparr>)], lt_sleepers = 1,
               lt_free_attempts = 3, lt_max_delay = secs 30\<rparr> ''ada'' 8) = Delay (secs 4)"
  using check_schedule [of "\<lparr>lt_names = [(''ada'', \<lparr>fl_count = 5, fl_last = 0\<rparr>)], lt_sleepers = 1,
               lt_free_attempts = 3, lt_max_delay = secs 30\<rparr>" "''ada''" 8]
  by (simp add: live_count_def FORGET_AFTER_def secs_def nanos_def)

text \<open>Failures of one name, each within the window of the last.\<close>

fun fail_run :: "login_throttle \<Rightarrow> string \<Rightarrow> nat list \<Rightarrow> login_throttle" where
  "fail_run t key [] = t"
| "fail_run t key (now # ns) = fail_run (record_failure t key now) key ns"

fun within_window :: "nat \<Rightarrow> nat list \<Rightarrow> bool" where
  "within_window prev [] = True"
| "within_window prev (now # ns) = (now - prev < FORGET_AFTER \<and> within_window now ns)"

lemma make_room_below: "length names < MAX_TRACKED \<Longrightarrow> make_room names now = names"
  by (simp add: make_room_def)

lemma live_run_step:
  assumes "tracked t < MAX_TRACKED" "hm_ok (lt_names t)"
    and "map_of (lt_names t) key = Some s" "now - fl_last s < FORGET_AFTER"
  shows "map_of (lt_names (record_failure t key now)) key =
           Some \<lparr>fl_count = saturating_add_u32 (fl_count s) 1, fl_last = now\<rparr>"
    and "tracked (record_failure t key now) = tracked t"
    and "hm_ok (lt_names (record_failure t key now))"
  using assms hm.count_insert [OF assms(2), of key]
  by (auto simp: record_failure_def Let_def tracked_def make_room_below hm.lookup_insert hm.ok_insert)

lemma fail_run_count:
  "tracked t < MAX_TRACKED \<Longrightarrow> hm_ok (lt_names t) \<Longrightarrow> map_of (lt_names t) key = Some s \<Longrightarrow>
   within_window (fl_last s) ns \<Longrightarrow> fl_count s \<le> u32_max \<Longrightarrow>
   failures_of (fail_run t key ns) key = min (fl_count s + length ns) u32_max"
proof (induction ns arbitrary: t s)
  case Nil
  then show ?case by (simp add: failures_of_def)
next
  case (Cons now ns)
  then have w: "now - fl_last s < FORGET_AFTER" by simp
  note step = live_run_step [OF Cons.prems(1-3) w]
  have "failures_of (fail_run (record_failure t key now) key ns) key
      = min (saturating_add_u32 (fl_count s) 1 + length ns) u32_max"
    using Cons.IH [OF _ step(3) step(1)] Cons.prems step(2)
    by (simp add: saturating_add_u32_def)
  then show ?case using Cons.prems(5) by (simp add: saturating_add_u32_def min_def)
qed

text \<open>
  Below the cap, \<open>n\<close> failures for a name that is not tracked yet, each within the
  forgetting window of the one before, leave a count of exactly \<open>n\<close> (saturating at
  \<open>u32::MAX\<close>), whether or not an account of that name exists, and one success
  forgets them all.
\<close>

theorem failures_counted:
  assumes "throttle_ok t" "tracked t + 1 < MAX_TRACKED" "map_of (lt_names t) key = None"
    and "within_window first ns"
  shows "failures_of (fail_run t key (first # ns)) key = min (Suc (length ns)) u32_max
    \<and> failures_of (record_success (fail_run t key (first # ns)) key) key = 0"
proof -
  have ok: "hm_ok (lt_names t)" using assms(1) by (simp add: throttle_ok_def)
  let ?t = "record_failure t key first"
  have m: "map_of (lt_names ?t) key = Some \<lparr>fl_count = 1, fl_last = first\<rparr>"
    and len: "tracked ?t = Suc (tracked t)" and ok': "hm_ok (lt_names ?t)"
    using assms(2,3) ok hm.count_insert [OF ok, of key]
    by (auto simp: record_failure_def Let_def tracked_def make_room_below hm.lookup_insert
          hm.ok_insert FORGET_AFTER_def secs_def nanos_def saturating_add_u32_def u32_max_def)
  have "failures_of (fail_run t key (first # ns)) key = min (Suc (length ns)) u32_max"
    using fail_run_count [OF _ ok' m] assms(2,4) len by (simp add: u32_max_def)
  moreover have "failures_of (record_success (fail_run t key (first # ns)) key) key = 0"
    by (simp add: record_success_def failures_of_def delete_conv')
  ultimately show ?thesis ..
qed

theorem failures_counted_witness:
  "failures_of (fail_run (new_throttle 3 (secs 30)) ''ada'' [10, 20, 30]) ''ada'' = 3"
proof -
  have "throttle_ok (new_throttle 3 (secs 30))"
    by (simp add: throttle_ok_def tracked_def new_throttle_def hm_ok_def)
  moreover have "within_window 10 [20, 30]"
    by (simp add: FORGET_AFTER_def secs_def nanos_def)
  ultimately show ?thesis
    using failures_counted [of "new_throttle 3 (secs 30)" "''ada''" 10 "[20, 30]"]
    by (simp add: new_throttle_def tracked_def MAX_TRACKED_def u32_max_def del: fail_run.simps)
qed

end
