(* ===== verification/PendingStore.thy ===== *)
theory PendingStore
  imports Maps
begin

text \<open>
  \<open>crates/engine/src/pending.rs\<close>: the store of browser round trips in flight (single
  sign-on states, GitHub links). Records by state, and the chronological order that
  expiry and eviction walk from the front. The trait \<open>PendingRecord\<close> is its one method
  \<open>started\<close>, a parameter. A refused insert still purges, compacts and evicts, so
  \<open>insert_at\<close> answers its result and the store it leaves.
\<close>

definition PENDING_TTL :: nat where "PENDING_TTL = secs (10 * 60)"
definition MAX_PENDING :: nat where "MAX_PENDING = 10000"
definition MIN_EVICT_AGE :: nat where "MIN_EVICT_AGE = secs 30"
definition COMPACT_SLACK :: nat where "COMPACT_SLACK = 16"

datatype pending_full = PendingFull
datatype state_miss = Unknown | Expired

record 'a pending_store =
  ps_records :: "(string \<times> 'a) list"
  ps_order :: "(nat \<times> string) list"
  ps_ttl :: nat

definition with_ttl :: "nat \<Rightarrow> 'a pending_store" where
  "with_ttl ttl = \<lparr>ps_records = [], ps_order = [], ps_ttl = ttl\<rparr>"

definition default_store :: "'a pending_store" where
  "default_store = with_ttl PENDING_TTL"

definition has_key :: "(string \<times> 'a) list \<Rightarrow> string \<Rightarrow> bool" where
  "has_key m k \<longleftrightarrow> map_of m k \<noteq> None"

fun purge_walk ::
  "nat \<Rightarrow> nat \<Rightarrow> (string \<times> 'a) list \<Rightarrow> (nat \<times> string) list
     \<Rightarrow> (string \<times> 'a) list \<times> (nat \<times> string) list" where
  "purge_walk ttl now recs [] = (recs, [])"
| "purge_walk ttl now recs ((started, key) # rest) =
     (if has_key recs key \<and> now - started < ttl then (recs, (started, key) # rest)
      else purge_walk ttl now (AList.delete key recs) rest)"

definition purge_expired :: "'a pending_store \<Rightarrow> nat \<Rightarrow> 'a pending_store" where
  "purge_expired s now =
     (let (recs, ord) = purge_walk (ps_ttl s) now (ps_records s) (ps_order s)
      in s\<lparr>ps_records := recs, ps_order := ord\<rparr>)"

fun retain_walk ::
  "nat \<Rightarrow> nat \<Rightarrow> (string \<times> 'a) list \<Rightarrow> (nat \<times> string) list
     \<Rightarrow> (string \<times> 'a) list \<times> (nat \<times> string) list" where
  "retain_walk ttl now recs [] = (recs, [])"
| "retain_walk ttl now recs ((started, key) # rest) =
     (if ttl \<le> now - started then retain_walk ttl now (AList.delete key recs) rest
      else let (recs', ord) = retain_walk ttl now recs rest
           in (recs', if has_key recs key then (started, key) # ord else ord))"

definition compact_if_slack :: "'a pending_store \<Rightarrow> nat \<Rightarrow> 'a pending_store" where
  "compact_if_slack s now =
     (if length (ps_order s) \<le> length (ps_records s) * 2 + COMPACT_SLACK then s
      else let (recs, ord) = retain_walk (ps_ttl s) now (ps_records s) (ps_order s)
           in s\<lparr>ps_records := recs, ps_order := ord\<rparr>)"

text \<open>The eviction loop: whether it gave up on a young record, and what it left.\<close>

fun evict_walk ::
  "nat \<Rightarrow> (string \<times> 'a) list \<Rightarrow> (nat \<times> string) list
     \<Rightarrow> bool \<times> (string \<times> 'a) list \<times> (nat \<times> string) list" where
  "evict_walk now recs [] = (False, recs, [])"
| "evict_walk now recs ((started, key) # rest) =
     (if length recs < MAX_PENDING then (False, recs, (started, key) # rest)
      else if has_key recs key \<and> now - started < MIN_EVICT_AGE
      then (True, recs, (started, key) # rest)
      else evict_walk now (AList.delete key recs) rest)"

definition insert_at ::
  "('a \<Rightarrow> nat) \<Rightarrow> 'a pending_store \<Rightarrow> string \<Rightarrow> 'a \<Rightarrow> nat
     \<Rightarrow> (pending_full + unit) \<times> 'a pending_store" where
  "insert_at started s state pending now =
     (let s = compact_if_slack (purge_expired s now) now;
          (full, recs, ord) = evict_walk now (ps_records s) (ps_order s)
      in if full then (Inl PendingFull, s\<lparr>ps_records := recs, ps_order := ord\<rparr>)
         else (Inr (), s\<lparr>ps_records := AList.update state pending recs,
                         ps_order := ord @ [(started pending, state)]\<rparr>))"

definition take_at ::
  "('a \<Rightarrow> nat) \<Rightarrow> 'a pending_store \<Rightarrow> string \<Rightarrow> nat
     \<Rightarrow> (state_miss + 'a) \<times> 'a pending_store" where
  "take_at started s state now =
     (let taken = map_of (ps_records s) state;
          s' = purge_expired (s\<lparr>ps_records := AList.delete state (ps_records s)\<rparr>) now
      in (case taken of
            Some pending \<Rightarrow>
              if now - started pending < ps_ttl s then (Inr pending, s') else (Inl Expired, s')
          | None \<Rightarrow> (Inl Unknown, s')))"

section \<open>The walks\<close>

text \<open>
  What the three walks share: they drop records and order entries only, a record goes
  only with an entry that is old enough, and every kept record keeps its entry.
\<close>

definition indexed :: "('a \<Rightarrow> nat) \<Rightarrow> (string \<times> 'a) list \<Rightarrow> (nat \<times> string) list \<Rightarrow> bool" where
  "indexed started recs ord \<longleftrightarrow>
     hm_ok recs \<and> distinct (map snd ord)
     \<and> (\<forall>k r. map_of recs k = Some r \<longrightarrow> (started r, k) \<in> set ord)"

lemma indexed_skip:
  "indexed started recs ((t, k) # rest) \<Longrightarrow> indexed started (AList.delete k recs) rest"
  by (auto simp: indexed_def hm.ok_remove hm.lookup_remove split: if_splits)

lemma indexed_entry:
  "indexed started recs ord \<Longrightarrow> (t, k) \<in> set ord \<Longrightarrow> map_of recs k = Some r \<Longrightarrow> t = started r"
proof -
  assume i: "indexed started recs ord" and e: "(t, k) \<in> set ord" and m: "map_of recs k = Some r"
  then have "inj_on snd (set ord)" "(started r, k) \<in> set ord" by (auto simp: indexed_def distinct_map)
  from inj_onD [OF this(1), of "(t, k)" "(started r, k)"] this(2) e show ?thesis by simp
qed

lemma indexed_length: "indexed started recs ord \<Longrightarrow> length recs \<le> length ord"
proof -
  assume i: "indexed started recs ord"
  then have "dom (map_of recs) \<subseteq> snd ` set ord" by (force simp: indexed_def dom_def)
  then have "card (dom (map_of recs)) \<le> card (snd ` set ord)" by (rule card_mono [rotated]) simp
  also have "\<dots> \<le> length ord" by (metis card_length length_map list.set_map)
  finally show ?thesis using i by (simp add: indexed_def hm.count_card)
qed

lemma length_delete_le: "length (AList.delete k m) \<le> length m"
  by (simp add: AList.delete_eq)

text \<open>\<open>shrinks lim\<close>: nothing new, and every record younger than \<open>lim\<close> is kept.\<close>

definition shrinks ::
  "('a \<Rightarrow> nat) \<Rightarrow> nat \<Rightarrow> nat \<Rightarrow> (string \<times> 'a) list \<Rightarrow> (nat \<times> string) list
     \<Rightarrow> (string \<times> 'a) list \<Rightarrow> (nat \<times> string) list \<Rightarrow> bool" where
  "shrinks started lim now recs ord recs' ord' \<longleftrightarrow>
     indexed started recs' ord' \<and> length recs' \<le> length recs \<and> length ord' \<le> length ord
     \<and> set ord' \<subseteq> set ord \<and> map_of recs' \<subseteq>\<^sub>m map_of recs
     \<and> (\<forall>k r. map_of recs k = Some r \<and> now - started r < lim \<longrightarrow> map_of recs' k = Some r)"

lemma shrinks_refl: "indexed started recs ord \<Longrightarrow> shrinks started lim now recs ord recs ord"
  by (simp add: shrinks_def)

lemma shrinks_trans:
  assumes "shrinks started lim now recs ord recs' ord'" "shrinks started lim' now recs' ord' recs'' ord''"
  shows "shrinks started (min lim lim') now recs ord recs'' ord''"
  using assms unfolding shrinks_def by (auto intro: map_le_trans)

lemma shrinks_skip:
  assumes i: "indexed started recs ((t, k) # rest)"
    and old: "has_key recs k \<Longrightarrow> lim \<le> now - t"
  shows "shrinks started lim now recs ((t, k) # rest) (AList.delete k recs) rest"
proof -
  have "k' \<noteq> k" if "map_of recs k' = Some r" "now - started r < lim" for k' r
    using old that indexed_entry [OF i, of t k] by (auto simp: has_key_def)
  then show ?thesis
    using indexed_skip [OF i] length_delete_le [of k recs]
    by (auto simp: shrinks_def delete_conv' map_le_def split: if_splits)
qed

lemma shrinks_same:
  "shrinks started lim now recs ord recs' ord' \<Longrightarrow> shrinks started lim now recs' ord' recs'' ord''
     \<Longrightarrow> shrinks started lim now recs ord recs'' ord''"
  using shrinks_trans [of started lim now recs ord recs' ord' lim] by simp

lemma purge_walk_shrinks:
  "indexed started recs ord \<Longrightarrow> purge_walk ttl now recs ord = (recs', ord') \<Longrightarrow>
     shrinks started ttl now recs ord recs' ord'"
proof (induction ttl now recs ord rule: purge_walk.induct)
  case (2 ttl now recs t key rest)
  show ?case
  proof (cases "has_key recs key \<and> now - t < ttl")
    case False
    with 2 indexed_skip [OF 2(2)] shrinks_skip [OF 2(2), of ttl now] shrinks_same
    show ?thesis by (fastforce split: if_splits)
  next
    case True
    with 2(2,3) show ?thesis by (simp add: shrinks_refl)
  qed
qed (simp add: shrinks_refl)

lemma evict_walk_shrinks:
  "indexed started recs ord \<Longrightarrow> evict_walk now recs ord = (full, recs', ord') \<Longrightarrow>
     shrinks started MIN_EVICT_AGE now recs ord recs' ord'
     \<and> (\<not> full \<longrightarrow> length recs' < MAX_PENDING)"
proof (induction now recs ord rule: evict_walk.induct)
  case (1 now recs)
  then show ?case
    using indexed_length [of started recs "[]"] by (simp add: shrinks_refl MAX_PENDING_def)
next
  case (2 now recs t key rest)
  show ?case
  proof (cases "length recs < MAX_PENDING \<or> has_key recs key \<and> now - t < MIN_EVICT_AGE")
    case False
    with 2 indexed_skip [OF 2(2)] shrinks_skip [OF 2(2), of MIN_EVICT_AGE now] shrinks_same
    show ?thesis by (fastforce split: if_splits)
  next
    case True
    with 2(2,3) show ?thesis by (auto simp: shrinks_refl split: if_splits)
  qed
qed

lemma retain_walk_eq:
  "distinct (map snd ord) \<Longrightarrow> retain_walk ttl now recs ord =
     (filter (\<lambda>(k, _). \<not> (\<exists>t. (t, k) \<in> set ord \<and> ttl \<le> now - t)) recs,
      filter (\<lambda>(t, k). now - t < ttl \<and> has_key recs k) ord)"
proof (induction ttl now recs ord rule: retain_walk.induct)
  case (2 ttl now recs t key rest)
  have del: "has_key (AList.delete key recs) k = has_key recs k" if "(t', k) \<in> set rest" for t' k
    using 2(3) that by (force simp: has_key_def delete_conv')
  have "filter (\<lambda>(t, k). now - t < ttl \<and> has_key (AList.delete key recs) k) rest
      = filter (\<lambda>(t, k). now - t < ttl \<and> has_key recs k) rest"
    using del by (intro filter_cong) auto
  then show ?case
    using 2 by (auto simp: AList.delete_eq intro!: filter_cong split: prod.splits)
qed simp

lemma retain_walk_shrinks:
  assumes i: "indexed started recs ord" and eq: "retain_walk ttl now recs ord = (recs', ord')"
  shows "shrinks started ttl now recs ord recs' ord' \<and> length ord' \<le> length recs"
proof -
  have d: "distinct (map snd ord)" and ok: "hm_ok recs" using i by (auto simp: indexed_def)
  let ?dead = "\<lambda>k. \<exists>t. (t, k) \<in> set ord \<and> ttl \<le> now - t"
  have recs': "recs' = filter (\<lambda>(k, _). \<not> ?dead k) recs"
    and ord': "ord' = filter (\<lambda>(t, k). now - t < ttl \<and> has_key recs k) ord"
    using eq by (simp_all add: retain_walk_eq [OF d])
  have m: "map_of recs' k = (if ?dead k then None else map_of recs k)" for k
    using map_of_filter_key [OF ok, of "\<lambda>k _. \<not> ?dead k" k] by (auto simp: recs' split: option.splits)
  have alive: "\<not> ?dead k \<longleftrightarrow> now - started r < ttl" if "map_of recs k = Some r" for k r
    using that i indexed_entry [OF i] by (fastforce simp: indexed_def)
  have "hm_ok recs'" "distinct (map snd ord')"
    using ok d by (simp_all add: recs' ord' hm_ok_filter distinct_map_filter)
  moreover have "(started r, k) \<in> set ord'" if "map_of recs' k = Some r" for k r
    using that i alive [of k r] by (auto simp: m ord' has_key_def indexed_def split: if_splits)
  ultimately have "indexed started recs' ord'" by (simp add: indexed_def)
  moreover have "length ord' \<le> length recs"
  proof -
    have "snd ` set ord' \<subseteq> dom (map_of recs)" by (auto simp: ord' has_key_def)
    then have "card (snd ` set ord') \<le> card (dom (map_of recs))"
      by (rule card_mono [rotated]) (rule finite_dom_map_of)
    moreover have "card (snd ` set ord') = length ord'"
      using distinct_map_filter [OF d] by (metis distinct_card length_map list.set_map ord')
    ultimately show ?thesis using ok by (simp add: hm.count_card)
  qed
  moreover have "length recs' \<le> length recs" "length ord' \<le> length ord" "set ord' \<subseteq> set ord"
    by (simp_all add: recs' ord')
  moreover have "map_of recs' \<subseteq>\<^sub>m map_of recs" by (simp add: map_le_def m dom_def)
  moreover have "map_of recs' k = Some r" if "map_of recs k = Some r" "now - started r < ttl" for k r
    using that alive [of k r] by (auto simp: m)
  ultimately show ?thesis unfolding shrinks_def by blast
qed

section \<open>The operations\<close>

definition store_ok :: "('a \<Rightarrow> nat) \<Rightarrow> 'a pending_store \<Rightarrow> bool" where
  "store_ok started s \<longleftrightarrow>
     indexed started (ps_records s) (ps_order s)
     \<and> length (ps_records s) \<le> MAX_PENDING
     \<and> length (ps_order s) \<le> 2 * MAX_PENDING + COMPACT_SLACK"

abbreviation (input) store_shrinks where
  "store_shrinks started lim now s s' \<equiv>
     shrinks started lim now (ps_records s) (ps_order s) (ps_records s') (ps_order s')
     \<and> ps_ttl s' = ps_ttl s"

lemma purge_expired_shrinks:
  "indexed started (ps_records s) (ps_order s) \<Longrightarrow>
     store_shrinks started (ps_ttl s) now s (purge_expired s now)"
  by (auto simp: purge_expired_def purge_walk_shrinks split: prod.splits)

lemma compact_shrinks:
  "indexed started (ps_records s) (ps_order s) \<Longrightarrow>
     store_shrinks started (ps_ttl s) now s (compact_if_slack s now)"
  by (auto simp: compact_if_slack_def shrinks_refl retain_walk_shrinks split: prod.splits)

lemma compact_bound:
  assumes "indexed started (ps_records s) (ps_order s)" "length (ps_records s) \<le> MAX_PENDING"
    and "compact_if_slack s now = s'"
  shows "length (ps_order s') + (if length (ps_records s') < MAX_PENDING then 1 else 0)
           \<le> 2 * MAX_PENDING + COMPACT_SLACK"
proof (cases "length (ps_order s) \<le> length (ps_records s) * 2 + COMPACT_SLACK")
  case True
  with assms show ?thesis by (auto simp: compact_if_slack_def)
next
  case False
  obtain recs' ord' where w: "retain_walk (ps_ttl s) now (ps_records s) (ps_order s) = (recs', ord')"
    by force
  with False assms(3) retain_walk_shrinks [OF assms(1) w] assms(2) show ?thesis
    by (auto simp: compact_if_slack_def COMPACT_SLACK_def MAX_PENDING_def)
qed

lemma evict_walk_length: "evict_walk now recs ord = (full, recs', ord') \<Longrightarrow> length ord' \<le> length ord"
  by (induction now recs ord rule: evict_walk.induct) (auto split: if_splits)

lemma evict_walk_strict:
  "evict_walk now recs ord = (False, recs', ord') \<Longrightarrow> MAX_PENDING \<le> length recs \<Longrightarrow> ord \<noteq> [] \<Longrightarrow>
     length ord' < length ord"
  using evict_walk_length [of now "AList.delete (snd (hd ord)) recs" "tl ord" False recs' ord']
  by (cases ord) (auto split: if_splits)

text \<open>What the three walks leave for the new record.\<close>

lemma room_spec:
  assumes ok: "store_ok started s" and s2: "s2 = compact_if_slack (purge_expired s now) now"
    and e: "evict_walk now (ps_records s2) (ps_order s2) = (full, recs, ord)"
  shows "shrinks started (min (ps_ttl s) MIN_EVICT_AGE) now (ps_records s) (ps_order s) recs ord"
    and "length ord + (if full then 0 else 1) \<le> 2 * MAX_PENDING + COMPACT_SLACK"
    and "\<not> full \<Longrightarrow> length recs < MAX_PENDING"
    and "ps_ttl s2 = ps_ttl s"
proof -
  let ?s1 = "purge_expired s now"
  have i: "indexed started (ps_records s) (ps_order s)" using ok by (simp add: store_ok_def)
  note p = purge_expired_shrinks [OF i, of now]
  then have i1: "indexed started (ps_records ?s1) (ps_order ?s1)" by (simp add: shrinks_def)
  note c = compact_shrinks [OF i1, of now, folded s2]
  then have i2: "indexed started (ps_records s2) (ps_order s2)" by (simp add: shrinks_def)
  have len1: "length (ps_records ?s1) \<le> MAX_PENDING" using p ok by (simp add: shrinks_def store_ok_def)
  note b = compact_bound [OF i1 len1 s2 [symmetric]]
  note ev = evict_walk_shrinks [OF i2 e]
  show "shrinks started (min (ps_ttl s) MIN_EVICT_AGE) now (ps_records s) (ps_order s) recs ord"
    using shrinks_trans [OF shrinks_trans [OF conjunct1 [OF p] conjunct1 [OF c]] conjunct1 [OF ev]] p
    by simp
  show "length ord + (if full then 0 else 1) \<le> 2 * MAX_PENDING + COMPACT_SLACK"
  proof (cases "full \<or> length (ps_records s2) < MAX_PENDING")
    case True
    with b evict_walk_length [OF e] show ?thesis by (auto split: if_splits)
  next
    case False
    then have "ps_order s2 \<noteq> []" using indexed_length [OF i2] by (auto simp: MAX_PENDING_def)
    with evict_walk_strict [of now "ps_records s2" "ps_order s2" recs ord] e False b
    show ?thesis by simp
  qed
  show "\<not> full \<Longrightarrow> length recs < MAX_PENDING" using ev by simp
  show "ps_ttl s2 = ps_ttl s" using p c by simp
qed

text \<open>
  One statement about \<open>insert_at\<close>: the invariant, no younger record lost, and after a
  success the record is there.
\<close>

lemma insert_at_spec:
  assumes ok: "store_ok started s" and fresh: "state \<notin> snd ` set (ps_order s)"
    and eq: "insert_at started s state pending now = (res, s')"
  shows "store_ok started s'"
    and "res = Inr () \<Longrightarrow> map_of (ps_records s') state = Some pending"
    and "map_of (ps_records s) k = Some r \<Longrightarrow> now - started r < min (ps_ttl s) MIN_EVICT_AGE \<Longrightarrow>
           map_of (ps_records s') k = Some r"
    and "map_of (ps_records s') k = Some r \<Longrightarrow>
           map_of (ps_records s) k = Some r \<or> (k = state \<and> r = pending)"
    and "ps_ttl s' = ps_ttl s"
proof -
  define s2 where "s2 = compact_if_slack (purge_expired s now) now"
  obtain full recs ord where e: "evict_walk now (ps_records s2) (ps_order s2) = (full, recs, ord)"
    by (cases "evict_walk now (ps_records s2) (ps_order s2)") auto
  note sh = room_spec(1) [OF ok s2_def e] and bound = room_spec(2) [OF ok s2_def e]
    and lt = room_spec(3) [OF ok s2_def e] and ttl = room_spec(4) [OF ok s2_def e]
  have s': "s' = (if full then s2\<lparr>ps_records := recs, ps_order := ord\<rparr>
      else s2\<lparr>ps_records := AList.update state pending recs,
              ps_order := ord @ [(started pending, state)]\<rparr>)"
    and res: "res = Inr () \<longleftrightarrow> \<not> full"
    using eq e by (auto simp: insert_at_def Let_def s2_def [symmetric] split: if_splits)
  have notin: "state \<notin> snd ` set ord" and irec: "indexed started recs ord"
    and le: "length recs \<le> length (ps_records s)"
    and old: "map_of recs k = Some r \<Longrightarrow> map_of (ps_records s) k = Some r"
    and keep: "map_of (ps_records s) k = Some r \<Longrightarrow> now - started r < min (ps_ttl s) MIN_EVICT_AGE
                 \<Longrightarrow> map_of recs k = Some r" for k r
    using fresh sh by (auto simp: shrinks_def dest: map_leD)
  have ok_recs: "hm_ok recs" using irec by (simp add: indexed_def)
  have new: "map_of recs state = None"
    using irec notin by (cases "map_of recs state") (force simp: indexed_def)+
  have ins: "indexed started (AList.update state pending recs) (ord @ [(started pending, state)])"
    using irec notin ok_recs
    by (auto simp: indexed_def hm.ok_insert hm.lookup_insert split: if_splits)
  show "store_ok started s'"
    using bound ins irec lt le ok hm.count_insert [OF ok_recs, of state pending] new
    by (cases full) (auto simp: store_ok_def s')
  show "res = Inr () \<Longrightarrow> map_of (ps_records s') state = Some pending"
    using res by (simp add: s' update_conv')
  show "map_of (ps_records s') k = Some r"
    if "map_of (ps_records s) k = Some r" "now - started r < min (ps_ttl s) MIN_EVICT_AGE"
    using keep [OF that] new by (auto simp: s' update_conv')
  show "map_of (ps_records s) k = Some r \<or> (k = state \<and> r = pending)"
    if "map_of (ps_records s') k = Some r"
    using that old by (auto simp: s' update_conv' split: if_splits)
  show "ps_ttl s' = ps_ttl s" using ttl by (simp add: s')
qed

lemma take_at_spec:
  assumes ok: "store_ok started s" and eq: "take_at started s state now = (res, s')"
  shows "store_ok started s'"
    and "map_of (ps_records s') k = Some r \<Longrightarrow> k \<noteq> state \<and> map_of (ps_records s) k = Some r"
    and "map_of (ps_records s) k = Some r \<Longrightarrow> k \<noteq> state \<Longrightarrow> now - started r < ps_ttl s \<Longrightarrow>
           map_of (ps_records s') k = Some r"
    and "set (ps_order s') \<subseteq> set (ps_order s)"
    and "ps_ttl s' = ps_ttl s"
    and "res = (case map_of (ps_records s) state of None \<Rightarrow> Inl Unknown
                | Some r \<Rightarrow> if now - started r < ps_ttl s then Inr r else Inl Expired)"
proof -
  let ?d = "s\<lparr>ps_records := AList.delete state (ps_records s)\<rparr>"
  have i: "indexed started (ps_records ?d) (ps_order ?d)"
    using ok by (auto simp: store_ok_def indexed_def hm.ok_remove hm.lookup_remove)
  have s': "s' = purge_expired ?d now"
    using eq by (auto simp: take_at_def Let_def split: option.splits if_splits)
  note p = purge_expired_shrinks [OF i, of now, folded s']
  show "store_ok started s'"
    using p ok length_delete_le [of state "ps_records s"] by (auto simp: store_ok_def shrinks_def)
  show "k \<noteq> state \<and> map_of (ps_records s) k = Some r" if "map_of (ps_records s') k = Some r"
    using p map_leD [of "map_of (ps_records s')" "map_of (ps_records ?d)", OF _ that]
    by (auto simp: shrinks_def delete_conv' split: if_splits)
  show "map_of (ps_records s') k = Some r"
    if "map_of (ps_records s) k = Some r" "k \<noteq> state" "now - started r < ps_ttl s"
    using p that by (auto simp: shrinks_def delete_conv')
  show "set (ps_order s') \<subseteq> set (ps_order s)" "ps_ttl s' = ps_ttl s"
    using p by (auto simp: shrinks_def)
  show "res = (case map_of (ps_records s) state of None \<Rightarrow> Inl Unknown
                | Some r \<Rightarrow> if now - started r < ps_ttl s then Inr r else Inl Expired)"
    using eq by (auto simp: take_at_def Let_def split: option.splits if_splits)
qed

section \<open>Properties\<close>

text \<open>
  A store's life: inserts under fresh states, as the callers generate them, and takes of
  any state, at any times.
\<close>

inductive store_step :: "('a \<Rightarrow> nat) \<Rightarrow> 'a pending_store \<Rightarrow> 'a pending_store \<Rightarrow> bool"
  for started where
  do_insert: "state \<notin> snd ` set (ps_order s) \<Longrightarrow>
    insert_at started s state pending now = (res, s') \<Longrightarrow> store_step started s s'"
| do_take: "take_at started s state now = (res', s') \<Longrightarrow> store_step started s s'"

lemma store_step_ok: "store_step started s s' \<Longrightarrow> store_ok started s \<Longrightarrow> store_ok started s'"
  by (induction rule: store_step.induct) (auto dest: insert_at_spec(1) take_at_spec(1))

text \<open>
  However many sign-ins strangers start and whichever come back, the map never holds
  more than \<open>MAX_PENDING\<close> records, the chronological order never more than twice that plus
  the slack, and every record has exactly one entry in it, made at its start.
\<close>

theorem pending_bounded:
  assumes "(store_step started)\<^sup>*\<^sup>* (with_ttl ttl) s"
  shows "length (ps_records s) \<le> MAX_PENDING
    \<and> length (ps_order s) \<le> 2 * MAX_PENDING + COMPACT_SLACK
    \<and> hm_ok (ps_records s) \<and> distinct (map snd (ps_order s))
    \<and> (\<forall>k r. map_of (ps_records s) k = Some r \<longrightarrow> (started r, k) \<in> set (ps_order s))"
proof -
  from assms have "store_ok started s"
  proof (induction rule: rtranclp_induct)
    case base
    show ?case by (simp add: store_ok_def indexed_def with_ttl_def hm_ok_def)
  next
    case (step y z)
    then show ?case using store_step_ok by blast
  qed
  then show ?thesis by (simp add: store_ok_def indexed_def)
qed

theorem pending_bounded_witness:
  "\<exists>s. (store_step id)\<^sup>*\<^sup>* (with_ttl PENDING_TTL) s \<and> map_of (ps_records s) ''s1'' = Some 5
     \<and> (5, ''s1'') \<in> set (ps_order s)"
proof -
  let ?s = "snd (insert_at id (with_ttl PENDING_TTL) ''s1'' 5 7)"
  have e: "insert_at id (with_ttl PENDING_TTL) ''s1'' 5 7 = (fst (insert_at id (with_ttl PENDING_TTL) ''s1'' 5 7), ?s)"
    by simp
  have "store_step id (with_ttl PENDING_TTL) ?s"
    by (rule do_insert [OF _ e]) (simp add: with_ttl_def)
  then have r: "(store_step id)\<^sup>*\<^sup>* (with_ttl PENDING_TTL) ?s" by blast
  have m: "map_of (ps_records ?s) ''s1'' = Some 5"
    by (simp add: insert_at_def with_ttl_def purge_expired_def compact_if_slack_def Let_def)
  from pending_bounded [OF r] m have "(5, ''s1'') \<in> set (ps_order ?s)" by auto
  with r m show ?thesis by blast
qed

text \<open>Steps that never insert under \<open>state\<close>: takes of any state, inserts of the others.\<close>

inductive step_elsewhere ::
  "('a \<Rightarrow> nat) \<Rightarrow> string \<Rightarrow> 'a pending_store \<Rightarrow> 'a pending_store \<Rightarrow> bool"
  for started state where
  else_insert: "k \<noteq> state \<Longrightarrow> k \<notin> snd ` set (ps_order s) \<Longrightarrow>
    insert_at started s k pending now = (res, s') \<Longrightarrow> step_elsewhere started state s s'"
| else_take: "take_at started s k now = (res', s') \<Longrightarrow> step_elsewhere started state s s'"

lemma step_elsewhere_gone:
  "step_elsewhere started state s s' \<Longrightarrow> store_ok started s \<Longrightarrow> map_of (ps_records s) state = None \<Longrightarrow>
     store_ok started s' \<and> map_of (ps_records s') state = None"
proof (induction rule: step_elsewhere.induct)
  case (else_insert k s pending now res s')
  from insert_at_spec(1,4) [OF else_insert(4,2,3)] else_insert(1,5) show ?case
    by (metis not_None_eq)
next
  case (else_take s k now res' s')
  from take_at_spec(1,2) [OF else_take(2,1)] else_take(3) show ?case by (metis not_None_eq)
qed

text \<open>
  A state authorizes exactly one use. Taking it answers the record stored under it
  exactly when it is younger than the store's lifetime (expired and unknown states are
  told apart), and any later take of the same state, whatever happened to other states
  in between, finds nothing.
\<close>

theorem take_once:
  assumes "store_ok started s" "take_at started s state now = (res, s1)"
    and "(step_elsewhere started state)\<^sup>*\<^sup>* s1 s2"
  shows "res = (case map_of (ps_records s) state of None \<Rightarrow> Inl Unknown
                | Some r \<Rightarrow> if now - started r < ps_ttl s then Inr r else Inl Expired)
         \<and> fst (take_at started s2 state later) = Inl Unknown"
proof -
  from assms(3) have "store_ok started s2 \<and> map_of (ps_records s2) state = None"
  proof (induction rule: rtranclp_induct)
    case base
    show ?case using take_at_spec(1,2) [OF assms(1,2)] by (metis not_None_eq)
  next
    case (step y z)
    then show ?case using step_elsewhere_gone by blast
  qed
  then have "fst (take_at started s2 state later) = Inl Unknown"
    by (simp add: take_at_def Let_def)
  then show ?thesis using take_at_spec(6) [OF assms(1,2)] by simp
qed

theorem take_once_witness:
  "fst (take_at id (snd (take_at id \<lparr>ps_records = [(''s1'', 5)], ps_order = [(5, ''s1'')], ps_ttl = 100\<rparr> ''s1'' 9))
     ''s1'' 10) = Inl Unknown
   \<and> fst (take_at id \<lparr>ps_records = [(''s1'', 5)], ps_order = [(5, ''s1'')], ps_ttl = 100\<rparr> ''s1'' 9) = Inr 5"
proof -
  let ?s = "\<lparr>ps_records = [(''s1'', 5)], ps_order = [(5, ''s1'')], ps_ttl = 100\<rparr>"
  have ok: "store_ok id ?s"
    by (simp add: store_ok_def indexed_def hm_ok_def MAX_PENDING_def)
  have e: "take_at id ?s ''s1'' 9 = (fst (take_at id ?s ''s1'' 9), snd (take_at id ?s ''s1'' 9))" by simp
  from take_once [OF ok e rtranclp.rtrancl_refl, of 10] show ?thesis
    by (simp add: take_at_def Let_def)
qed

text \<open>
  A store whose records come in with fresh starts, as the source says of its callers: the
  order is chronological, and the walks from its front find the oldest records first.
\<close>

inductive timely_step :: "('a \<Rightarrow> nat) \<Rightarrow> 'a pending_store \<Rightarrow> 'a pending_store \<Rightarrow> bool"
  for started where
  timely_insert: "state \<notin> snd ` set (ps_order s) \<Longrightarrow> \<forall>t\<in>fst ` set (ps_order s). t \<le> started pending \<Longrightarrow>
    insert_at started s state pending now = (res, s') \<Longrightarrow> timely_step started s s'"
| timely_take: "take_at started s state now = (res', s') \<Longrightarrow> timely_step started s s'"

definition chronological :: "'a pending_store \<Rightarrow> bool" where
  "chronological s \<longleftrightarrow> sorted (map fst (ps_order s))"

lemma purge_walk_sorted:
  "sorted (map fst ord) \<Longrightarrow> indexed started recs ord \<Longrightarrow> purge_walk ttl now recs ord = (recs', ord') \<Longrightarrow>
     sorted (map fst ord') \<and> (\<forall>k r. map_of recs' k = Some r \<longrightarrow> now - started r < ttl)"
proof (induction ttl now recs ord rule: purge_walk.induct)
  case (2 ttl now recs t key rest)
  show ?case
  proof (cases "has_key recs key \<and> now - t < ttl")
    case False
    then show ?thesis using 2 indexed_skip [OF 2(3)] by (auto split: if_splits)
  next
    case True
    then have e: "recs' = recs" "ord' = (t, key) # rest" using 2(4) by auto
    have "now - started r < ttl" if "map_of recs k = Some r" for k r
    proof -
      have "(started r, k) \<in> set ((t, key) # rest)" using 2(3) that by (simp add: indexed_def)
      then have "t \<le> started r" using 2(2) by force
      then show ?thesis using True by (meson diff_le_mono2 le_less_trans)
    qed
    then show ?thesis using 2(2) e by simp
  qed
qed (auto simp: indexed_def)

lemma evict_walk_sorted:
  "sorted (map fst ord) \<Longrightarrow> evict_walk now recs ord = (full, recs', ord') \<Longrightarrow> sorted (map fst ord')"
  by (induction now recs ord rule: evict_walk.induct) (auto split: if_splits)

lemma evict_walk_full:
  "sorted (map fst ord) \<Longrightarrow> indexed started recs ord \<Longrightarrow> evict_walk now recs ord = (True, recs', ord') \<Longrightarrow>
     MAX_PENDING \<le> length recs' \<and> (\<forall>k r. map_of recs' k = Some r \<longrightarrow> now - started r < MIN_EVICT_AGE)"
proof (induction now recs ord rule: evict_walk.induct)
  case (2 now recs t key rest)
  show ?case
  proof (cases "\<not> length recs < MAX_PENDING \<and> has_key recs key \<and> now - t < MIN_EVICT_AGE")
    case False
    then show ?thesis using 2 indexed_skip [OF 2(3)] by (auto split: if_splits)
  next
    case True
    then have e: "recs' = recs" using 2(4) by auto
    have "now - started r < MIN_EVICT_AGE" if "map_of recs k = Some r" for k r
    proof -
      have "(started r, k) \<in> set ((t, key) # rest)" using 2(3) that by (simp add: indexed_def)
      then have "t \<le> started r" using 2(2) by force
      then show ?thesis using True by (meson diff_le_mono2 le_less_trans)
    qed
    then show ?thesis using True e by simp
  qed
qed simp

lemma purge_chronological:
  assumes "chronological s" "indexed started (ps_records s) (ps_order s)"
  shows "chronological (purge_expired s now)"
    and "map_of (ps_records (purge_expired s now)) k = Some r \<Longrightarrow> now - started r < ps_ttl s"
proof -
  obtain recs ord where w: "purge_walk (ps_ttl s) now (ps_records s) (ps_order s) = (recs, ord)" by fastforce
  from purge_walk_sorted [OF _ assms(2) w] assms(1)
  show "chronological (purge_expired s now)"
    "map_of (ps_records (purge_expired s now)) k = Some r \<Longrightarrow> now - started r < ps_ttl s"
    by (simp_all add: chronological_def purge_expired_def w)
qed

lemma compact_chronological:
  assumes "chronological s" "indexed started (ps_records s) (ps_order s)"
  shows "chronological (compact_if_slack s now)"
proof -
  have "distinct (map snd (ps_order s))" using assms(2) by (simp add: indexed_def)
  then show ?thesis
    using assms(1) by (auto simp: chronological_def compact_if_slack_def retain_walk_eq sorted_filter)
qed

text \<open>The records an insert at \<open>now\<close> may not displace.\<close>

definition young_states :: "('a \<Rightarrow> nat) \<Rightarrow> 'a pending_store \<Rightarrow> nat \<Rightarrow> string set" where
  "young_states started s now =
     {k. \<exists>r. map_of (ps_records s) k = Some r \<and> now - started r < min (ps_ttl s) MIN_EVICT_AGE}"

lemma insert_at_chronological:
  assumes ok: "store_ok started s" and ch: "chronological s"
    and eq: "insert_at started s state pending now = (res, s')"
  shows "res = Inl PendingFull \<longleftrightarrow> MAX_PENDING \<le> card (young_states started s now)"
    and "res = Inl PendingFull \<Longrightarrow> map_of (ps_records s') \<subseteq>\<^sub>m map_of (ps_records s)"
    and "\<forall>t\<in>fst ` set (ps_order s). t \<le> started pending \<Longrightarrow> chronological s'"
proof -
  define s1 where "s1 = purge_expired s now"
  define s2 where "s2 = compact_if_slack s1 now"
  have i: "indexed started (ps_records s) (ps_order s)" using ok by (simp add: store_ok_def)
  note p = purge_expired_shrinks [OF i, of now, folded s1_def]
  then have i1: "indexed started (ps_records s1) (ps_order s1)" by (simp add: shrinks_def)
  note pc = purge_chronological [OF ch i, of now, folded s1_def]
  note c = compact_shrinks [OF i1, of now, folded s2_def]
  then have i2: "indexed started (ps_records s2) (ps_order s2)" by (simp add: shrinks_def)
  have c2: "chronological s2" using compact_chronological [OF pc(1) i1] by (simp add: s2_def)
  obtain full recs ord where e: "evict_walk now (ps_records s2) (ps_order s2) = (full, recs, ord)"
    by (cases "evict_walk now (ps_records s2) (ps_order s2)") auto
  have s2: "s2 = compact_if_slack (purge_expired s now) now" by (simp add: s1_def s2_def)
  have sh: "shrinks started (min (ps_ttl s) MIN_EVICT_AGE) now (ps_records s) (ps_order s) recs ord"
    "\<not> full \<Longrightarrow> length recs < MAX_PENDING" by (rule room_spec [OF ok s2 e])+
  note ev = conjunct1 [OF evict_walk_shrinks [OF i2 e]]
  have res: "res = Inl PendingFull \<longleftrightarrow> full"
    and s': "s' = (if full then s2\<lparr>ps_records := recs, ps_order := ord\<rparr>
      else s2\<lparr>ps_records := AList.update state pending recs, ps_order := ord @ [(started pending, state)]\<rparr>)"
    using eq e by (auto simp: insert_at_def Let_def s2 [symmetric] split: if_splits)
  have len: "card (dom (map_of recs)) = length recs"
    using sh(1) by (simp add: shrinks_def indexed_def hm.count_card)
  have fin: "finite (young_states started s now)"
    by (rule finite_subset [of _ "dom (map_of (ps_records s))"]) (auto simp: young_states_def finite_dom_map_of)
  show "res = Inl PendingFull \<longleftrightarrow> MAX_PENDING \<le> card (young_states started s now)"
  proof
    assume "res = Inl PendingFull"
    then have full: "evict_walk now (ps_records s2) (ps_order s2) = (True, recs, ord)" using res e by simp
    note fu = evict_walk_full [OF _ i2 full]
    have "k \<in> young_states started s now" if "map_of recs k = Some r" for k r
    proof -
      have le: "map_of recs \<subseteq>\<^sub>m map_of (ps_records s2)" "map_of (ps_records s2) \<subseteq>\<^sub>m map_of (ps_records s1)"
        "map_of (ps_records s1) \<subseteq>\<^sub>m map_of (ps_records s)"
        using ev c p by (simp_all add: shrinks_def)
      have s1: "map_of (ps_records s1) k = Some r" using map_leD [OF map_le_trans [OF le(1,2)] that] .
      have "now - started r < ps_ttl s" "map_of (ps_records s) k = Some r"
        using pc(2) [OF s1] map_leD [OF le(3) s1] by blast+
      moreover have "now - started r < MIN_EVICT_AGE" using fu c2 that by (simp add: chronological_def)
      ultimately show ?thesis by (simp add: young_states_def)
    qed
    then have "dom (map_of recs) \<subseteq> young_states started s now" by blast
    then have "length recs \<le> card (young_states started s now)"
      using card_mono [OF fin] len by metis
    then show "MAX_PENDING \<le> card (young_states started s now)"
      using fu c2 by (simp add: chronological_def)
  next
    assume m: "MAX_PENDING \<le> card (young_states started s now)"
    have "young_states started s now \<subseteq> dom (map_of recs)" using sh(1) by (auto simp: young_states_def shrinks_def)
    then have "card (young_states started s now) \<le> length recs"
      using card_mono [OF finite_dom_map_of] len by metis
    then show "res = Inl PendingFull" using m sh(2) res by (cases full) auto
  qed
  show "res = Inl PendingFull \<Longrightarrow> map_of (ps_records s') \<subseteq>\<^sub>m map_of (ps_records s)"
    using sh(1) res by (simp add: s' shrinks_def)
  assume st: "\<forall>t\<in>fst ` set (ps_order s). t \<le> started pending"
  have "sorted (map fst ord)" using evict_walk_sorted [OF _ e] c2 by (simp add: chronological_def)
  then show "chronological s'" using st sh(1) by (auto simp: s' chronological_def sorted_append shrinks_def)
qed

lemma timely_ok:
  assumes "(timely_step started)\<^sup>*\<^sup>* (with_ttl ttl) s"
  shows "store_ok started s \<and> chronological s \<and> ps_ttl s = ttl"
  using assms
proof (induction rule: rtranclp_induct)
  case base
  show ?case by (simp add: store_ok_def indexed_def with_ttl_def hm_ok_def chronological_def)
next
  case (step y z)
  from step.hyps(2) step.IH show ?case
  proof cases
    case (timely_insert state pending now res)
    with step.IH insert_at_spec(1,5) [OF _ timely_insert(1,3)] insert_at_chronological(3) [OF _ _ timely_insert(3)]
    show ?thesis by blast
  next
    case (timely_take state now res')
    let ?d = "y\<lparr>ps_records := AList.delete state (ps_records y)\<rparr>"
    have "indexed started (ps_records ?d) (ps_order ?d)" "chronological ?d"
      using step.IH by (auto simp: store_ok_def indexed_def hm.ok_remove hm.lookup_remove chronological_def)
    then have "chronological (purge_expired ?d now)" by (rule purge_chronological(1) [rotated])
    moreover have "z = purge_expired ?d now"
      using timely_take by (auto simp: take_at_def Let_def split: option.splits if_splits)
    ultimately show ?thesis using step.IH take_at_spec(1,5) [OF _ timely_take] by blast
  qed
qed

text \<open>
  C24: a flood cannot push a real sign-in out. Take any store its callers lead to, with fresh
  states and starts in the order of the inserts, as the source says of them. An insert
  under a fresh state is refused exactly when the map holds \<open>MAX_PENDING\<close> records that have
  not expired and are younger than \<open>MIN_EVICT_AGE\<close>; it never displaces such a record, refused
  or not; it never leaves more than \<open>MAX_PENDING\<close> records; a refused one adds nothing, and
  one that is accepted adds its record and nothing else, which a take of that state right
  after it answers at any time before it expires.
\<close>

theorem no_young_eviction:
  assumes "(timely_step started)\<^sup>*\<^sup>* (with_ttl ttl) s" "state \<notin> snd ` set (ps_order s)"
    and "insert_at started s state pending now = (res, s')"
  shows "(res = Inl PendingFull \<longleftrightarrow> MAX_PENDING \<le> card (young_states started s now))
    \<and> (\<forall>k\<in>young_states started s now. map_of (ps_records s') k = map_of (ps_records s) k)
    \<and> length (ps_records s') \<le> MAX_PENDING
    \<and> (res = Inl PendingFull \<longrightarrow> map_of (ps_records s') \<subseteq>\<^sub>m map_of (ps_records s))
    \<and> (res = Inr () \<longrightarrow> map_of (ps_records s') state = Some pending
         \<and> (map_of (ps_records s'))(state := None) \<subseteq>\<^sub>m map_of (ps_records s)
         \<and> (\<forall>later. later - started pending < ttl \<longrightarrow> fst (take_at started s' state later) = Inr pending))"
proof -
  have s: "store_ok started s" "chronological s" "ps_ttl s = ttl" using timely_ok [OF assms(1)] by blast+
  note sp = insert_at_spec [OF s(1) assms(2,3)] and ch = insert_at_chronological [OF s(1,2) assms(3)]
  have "map_of (ps_records s') k = map_of (ps_records s) k" if "k \<in> young_states started s now" for k
    using that sp(3) by (auto simp: young_states_def)
  moreover have "length (ps_records s') \<le> MAX_PENDING" using sp(1) by (simp add: store_ok_def)
  moreover have "fst (take_at started s' state later) = Inr pending"
    if "res = Inr ()" "later - started pending < ttl" for later
    using sp(2) [OF that(1)] sp(5) that(2) s(3) by (simp add: take_at_def Let_def)
  moreover have "(map_of (ps_records s'))(state := None) \<subseteq>\<^sub>m map_of (ps_records s)"
    unfolding map_le_def
  proof
    fix k assume "k \<in> dom ((map_of (ps_records s'))(state := None))"
    then obtain r where r: "k \<noteq> state" "map_of (ps_records s') k = Some r" by (auto split: if_splits)
    with sp(4) [OF r(2)] show "((map_of (ps_records s'))(state := None)) k = map_of (ps_records s) k" by simp
  qed
  ultimately show ?thesis using ch(1,2) sp(2) by blast
qed

text \<open>A second sign-in: accepted, and the first, nine seconds old, stays.\<close>

theorem no_young_eviction_witness:
  "let s = snd (insert_at id (with_ttl PENDING_TTL) ''s1'' 5 7); r = insert_at id s ''s2'' (secs 9) (secs 9)
   in fst r = Inr () \<and> map_of (ps_records (snd r)) ''s1'' = Some 5 \<and> fst (take_at id (snd r) ''s2'' (secs 60)) = Inr (secs 9)"
proof -
  let ?start = "with_ttl PENDING_TTL :: nat pending_store"
  let ?s = "snd (insert_at id ?start ''s1'' 5 7)"
  let ?r = "insert_at id ?s ''s2'' (secs 9) (secs 9)"
  have e: "insert_at id ?start ''s1'' 5 7 = (fst (insert_at id ?start ''s1'' 5 7), ?s)" by simp
  have "timely_step id ?start ?s" by (rule timely_insert [OF _ _ e]) (simp_all add: with_ttl_def)
  then have r: "(timely_step id)\<^sup>*\<^sup>* ?start ?s" by blast
  have s: "?s = \<lparr>ps_records = [(''s1'', 5)], ps_order = [(5, ''s1'')], ps_ttl = PENDING_TTL\<rparr>"
    by (simp add: insert_at_def with_ttl_def purge_expired_def compact_if_slack_def Let_def)
  have f: "''s2'' \<notin> snd ` set (ps_order ?s)" by (simp add: s)
  have e2: "?r = (fst ?r, snd ?r)" by simp
  note th = no_young_eviction [OF r f e2]
  have y: "young_states id ?s (secs 9) = {''s1''}"
    unfolding s by (auto simp: young_states_def PENDING_TTL_def MIN_EVICT_AGE_def secs_def nanos_def split: if_splits)
  then have "fst ?r \<noteq> Inl PendingFull" using th [THEN conjunct1] by (simp add: MAX_PENDING_def)
  then have acc: "fst ?r = Inr ()" by (cases "fst ?r") (auto, metis (full_types) pending_full.exhaust)
  moreover have "map_of (ps_records (snd ?r)) ''s1'' = Some 5"
    using th y by (simp add: s)
  moreover have "fst (take_at id (snd ?r) ''s2'' (secs 60)) = Inr (secs 9)"
    using th acc by (simp add: PENDING_TTL_def secs_def nanos_def)
  ultimately show ?thesis by (simp add: Let_def)
qed

end
