(* ===== verification/Address.thy ===== *)
theory Address
  imports Maps
begin

text \<open>
  \<open>crates/core/src/address.rs\<close>: permalinks (\<open>slugify\<close>, \<open>validate_permalink\<close>), the
  \<open>crystalline://\<close> address scheme (\<open>CrystallineUrl\<close>) and link resolution over the
  trait \<open>LinkResolver\<close>, whose laws are the locale \<open>link_resolver\<close> and whose in-memory
  provider is \<open>LookupTable\<close>. The Unicode table behind \<open>str::to_lowercase\<close> is the
  parameter \<open>lower\<close>; a property that needs to know something of it says so
  (\<open>lower_ascii\<close>: it leaves slug characters alone).
\<close>

definition SCHEME :: string where "SCHEME = ''crystalline://''"
definition ASSETS_PREFIX :: string where "ASSETS_PREFIX = ''assets/''"

section \<open>Permalinks\<close>

definition slug_keep :: "char \<Rightarrow> bool" where
  "slug_keep c \<longleftrightarrow> is_ascii_lower c \<or> is_ascii_digit c \<or> c = CHR ''/'' \<or> c = CHR ''-''"

text \<open>
  The collapsing loop. Every byte of a character outside ASCII is dropped like the
  character itself, so the loop over bytes is the loop over characters.
\<close>

fun collapse :: "bool \<Rightarrow> string \<Rightarrow> string" where
  "collapse pending_hyphen [] = []"
| "collapse pending_hyphen (c # cs) =
     (if slug_keep c
      then (if pending_hyphen then [CHR ''-''] else []) @ c # collapse False cs
      else collapse True cs)"

definition slugify :: "(string \<Rightarrow> string) \<Rightarrow> string \<Rightarrow> string" where
  "slugify lower path =
     (let path = (case strip_suffix ''.md'' path of Some p \<Rightarrow> p
                  | None \<Rightarrow> (case strip_suffix ''.MD'' path of Some p \<Rightarrow> p | None \<Rightarrow> path));
          lowered = lower path;
          collapsed = collapse False lowered
      in join_with ''/''
           (filter (\<lambda>seg. seg \<noteq> []) (map (trim_char CHR ''-'') (split_on CHR ''/'' collapsed))))"

definition path_permalink :: "(string \<Rightarrow> string) \<Rightarrow> string \<Rightarrow> string" where
  "path_permalink lower rel_path = slugify lower rel_path"

definition permalink_folder :: "string \<Rightarrow> string" where
  "permalink_folder permalink =
     (case rsplit_once CHR ''/'' permalink of Some (folder, _) \<Rightarrow> folder | None \<Rightarrow> [])"

datatype permalink_problem =
    PermalinkEmpty
  | PermalinkAbsolute
  | PermalinkDomainPrefix
  | PermalinkNoSlug
  | PermalinkNotSlug string
  | PermalinkUnderAssets

definition validate_permalink :: "(string \<Rightarrow> string) \<Rightarrow> string \<Rightarrow> permalink_problem + unit" where
  "validate_permalink lower permalink =
     (if trim permalink = [] then Inl PermalinkEmpty
      else if starts_with SCHEME permalink then Inl PermalinkAbsolute
      else if CHR '':'' \<in> set permalink then Inl PermalinkDomainPrefix
      else let slug = slugify lower permalink in
        if slug \<noteq> permalink then
          Inl (if slug = [] then PermalinkNoSlug else PermalinkNotSlug slug)
        else if starts_with ASSETS_PREFIX permalink then Inl PermalinkUnderAssets
        else Inr ())"

text \<open>The shape a permalink has, stated without the algorithm.\<close>

definition slug_segment :: "string \<Rightarrow> bool" where
  "slug_segment seg \<longleftrightarrow>
     seg \<noteq> [] \<and> hd seg \<noteq> CHR ''-'' \<and> last seg \<noteq> CHR ''-''
     \<and> (\<forall>c \<in> set seg. is_ascii_lower c \<or> is_ascii_digit c \<or> c = CHR ''-'')"

definition slug_form :: "string \<Rightarrow> bool" where
  "slug_form s \<longleftrightarrow> s = [] \<or> (\<forall>seg \<in> set (split_on CHR ''/'' s). slug_segment seg)"

definition lower_ascii :: "(string \<Rightarrow> string) \<Rightarrow> bool" where
  "lower_ascii lower \<longleftrightarrow> (\<forall>s. list_all slug_keep s \<longrightarrow> lower s = s)"

lemma slug_keep_slash: "\<not> is_ascii_lower CHR ''/''" "\<not> is_ascii_digit CHR ''/''"
  by (simp_all add: is_ascii_lower_def is_ascii_digit_def less_eq_char_def)

lemma slug_keep_other:
  "\<not> slug_keep CHR ''.''" "\<not> slug_keep CHR '':''" "\<not> slug_keep CHR ''D''" "slug_keep CHR ''d''"
  by (simp_all add: slug_keep_def is_ascii_lower_def is_ascii_digit_def less_eq_char_def)

lemma collapse_keeps: "set (collapse b s) \<subseteq> Collect slug_keep"
  by (induction b s rule: collapse.induct) (auto simp: slug_keep_def)

lemma collapse_id: "list_all slug_keep s \<Longrightarrow> collapse False s = s"
  by (induction s) auto

lemma trim_char_hd: "trim_char d s \<noteq> [] \<Longrightarrow> hd (trim_char d s) \<noteq> d"
proof -
  assume ne: "trim_char d s \<noteq> []"
  define t where "t = dropWhile (\<lambda>c. c = d) s"
  obtain u where u: "t = trim_char d s @ u"
    unfolding trim_char_def trim_end_char_def trim_start_char_def t_def
    by (metis rev_append rev_rev_ident takeWhile_dropWhile_id)
  with ne have "hd (trim_char d s) = hd t" "t \<noteq> []" by (auto simp: hd_append)
  then show ?thesis using hd_dropWhile [of "\<lambda>c. c = d" s] by (simp add: t_def)
qed

lemma trim_char_last: "trim_char d s \<noteq> [] \<Longrightarrow> last (trim_char d s) \<noteq> d"
  using hd_dropWhile [of "\<lambda>c. c = d" "rev (trim_start_char d s)"]
  by (simp add: trim_char_def trim_end_char_def last_rev)

lemma set_trim_char: "set (trim_char d s) \<subseteq> set s"
  by (auto simp: trim_char_def trim_end_char_def trim_start_char_def dest!: set_dropWhileD)

lemma trim_char_id: "s = [] \<or> (hd s \<noteq> d \<and> last s \<noteq> d) \<Longrightarrow> trim_char d s = s"
proof (cases s)
  case (Cons x xs)
  moreover assume "s = [] \<or> (hd s \<noteq> d \<and> last s \<noteq> d)"
  moreover have "rev s = last s # rev (butlast s)" if "s \<noteq> []"
    using that by (metis append_butlast_last_id rev_eq_Cons_iff rev_rev_ident)
  ultimately show ?thesis by (simp add: trim_char_def trim_end_char_def trim_start_char_def)
qed (simp add: trim_char_def trim_end_char_def trim_start_char_def)

lemma slug_form_join:
  "\<forall>seg \<in> set segs. slug_segment seg \<Longrightarrow> slug_form (join_with ''/'' segs)"
proof (cases "segs = []")
  case False
  assume segs: "\<forall>seg \<in> set segs. slug_segment seg"
  then have "\<forall>seg \<in> set segs. CHR ''/'' \<notin> set seg"
    by (auto simp: slug_segment_def dest!: bspec) (use slug_keep_slash in auto)
  with split_join [OF False] segs show ?thesis by (simp add: slug_form_def)
qed (simp add: slug_form_def)

lemma slugify_form: "slug_form (slugify lower path)"
  unfolding slugify_def Let_def
proof (rule slug_form_join, rule ballI)
  fix seg
  let ?c = "collapse False (lower (case strip_suffix ''.md'' path of Some p \<Rightarrow> p
      | None \<Rightarrow> (case strip_suffix ''.MD'' path of Some p \<Rightarrow> p | None \<Rightarrow> path)))"
  assume "seg \<in> set (filter (\<lambda>seg. seg \<noteq> []) (map (trim_char CHR ''-'') (split_on CHR ''/'' ?c)))"
  then obtain p where p: "p \<in> set (split_on CHR ''/'' ?c)" "seg = trim_char CHR ''-'' p" "seg \<noteq> []"
    by auto
  have "set seg \<subseteq> Collect slug_keep - {CHR ''/''}"
    using split_on_chars [OF p(1)] split_on_no_sep [OF p(1)] collapse_keeps [of False] set_trim_char [of "CHR ''-''" p]
    unfolding p(2) by blast
  then show "slug_segment seg"
    using trim_char_hd [of "CHR ''-''" p] trim_char_last [of "CHR ''-''" p] p(2,3)
    by (auto simp: slug_segment_def slug_keep_def)
qed

lemma slug_form_keep: "slug_form s \<Longrightarrow> list_all slug_keep s"
proof -
  assume f: "slug_form s"
  have "set s \<subseteq> {CHR ''/''} \<union> \<Union> (set ` set (split_on CHR ''/'' s))"
    using set_join_with [of "[CHR ''/'']" "split_on CHR ''/'' s"] by simp
  with f show ?thesis
    by (auto simp: slug_form_def slug_segment_def list_all_iff slug_keep_def)
qed

lemma slug_form_fixed: "lower_ascii lower \<Longrightarrow> slug_form s \<Longrightarrow> slugify lower s = s"
proof -
  assume l: "lower_ascii lower" and f: "slug_form s"
  note keep = slug_form_keep [OF f]
  have nodot: "CHR ''.'' \<notin> set s" using keep slug_keep_other by (auto simp: list_all_iff)
  have "strip_suffix ''.md'' s = None" "strip_suffix ''.MD'' s = None"
    using nodot by (auto simp: strip_suffix_None ends_with_iff)
  moreover have "lower s = s" using l keep by (simp add: lower_ascii_def)
  moreover have "filter (\<lambda>seg. seg \<noteq> []) (map (trim_char CHR ''-'') (split_on CHR ''/'' s))
      = (if s = [] then [] else split_on CHR ''/'' s)"
  proof (cases "s = []")
    case False
    with f have segs: "\<forall>seg \<in> set (split_on CHR ''/'' s). slug_segment seg" by (simp add: slug_form_def)
    then have "map (trim_char CHR ''-'') (split_on CHR ''/'' s) = split_on CHR ''/'' s"
      by (intro map_idI trim_char_id) (auto simp: slug_segment_def)
    moreover have "filter (\<lambda>seg. seg \<noteq> []) (split_on CHR ''/'' s) = split_on CHR ''/'' s"
      using segs by (intro filter_True) (auto simp: slug_segment_def)
    ultimately show ?thesis using False by simp
  qed (simp add: trim_char_def trim_end_char_def trim_start_char_def)
  ultimately show ?thesis by (simp add: slugify_def collapse_id [OF keep])
qed

lemma slug_keep_not_upper: "slug_keep c \<Longrightarrow> \<not> is_ascii_upper c"
  by (auto simp: slug_keep_def is_ascii_upper_def is_ascii_lower_def is_ascii_digit_def less_eq_char_def)

lemma slug_keep_not_ws: "slug_keep c \<Longrightarrow> \<not> ws_byte c"
  by (auto simp: slug_keep_def is_ascii_lower_def is_ascii_digit_def less_eq_char_def ws_byte_code
        ws_bytes_def upt_rec)

lemma lower_ascii_ascii: "lower_ascii ascii_lowercase"
  by (auto simp: lower_ascii_def ascii_lowercase_def to_ascii_lower_def list_all_iff
        slug_keep_not_upper intro!: map_idI)

text \<open>
  Whatever path it is given, \<open>slugify\<close> answers a permalink: slash-separated
  non-empty segments of lowercase letters, digits and inner hyphens (or nothing at all),
  and slugifying a permalink changes nothing, so the path-derived permalink is stable.
\<close>

theorem slugify_stable:
  assumes "lower_ascii lower"
  shows "slug_form (slugify lower path)
    \<and> slugify lower (slugify lower path) = slugify lower path
    \<and> path_permalink lower (path_permalink lower path) = path_permalink lower path"
  using slug_form_fixed [OF assms slugify_form] by (simp add: slugify_form path_permalink_def)

theorem slugify_stable_witness:
  "slug_form (slugify ascii_lowercase ''Ops & Notes/ Q3--Report .md'')
   \<and> slugify ascii_lowercase ''Ops & Notes/ Q3--Report .md'' = ''ops-notes/q3--report''"
proof -
  have "slugify ascii_lowercase ''Ops & Notes/ Q3--Report .md'' = ''ops-notes/q3--report''" by code_simp
  with slugify_stable [OF lower_ascii_ascii, of "''Ops & Notes/ Q3--Report .md''"] show ?thesis by blast
qed

text \<open>
  The permalinks a caller may ask for are exactly the non-empty strings of permalink
  shape outside the reserved \<open>assets/\<close> folder: nothing else is accepted and nothing of
  that shape is refused.
\<close>

theorem validate_permalink_iff:
  assumes "lower_ascii lower"
  shows "validate_permalink lower p = Inr ()
    \<longleftrightarrow> p \<noteq> [] \<and> slug_form p \<and> \<not> starts_with ASSETS_PREFIX p"
proof
  assume v: "validate_permalink lower p = Inr ()"
  then have "slugify lower p = p" "\<not> starts_with ASSETS_PREFIX p" "trim p \<noteq> []"
    by (auto simp: validate_permalink_def Let_def split: if_splits)
  moreover from this have "p \<noteq> []" by (auto simp: trim_def trim_start_def trim_end_def trim_ws.simps)
  ultimately show "p \<noteq> [] \<and> slug_form p \<and> \<not> starts_with ASSETS_PREFIX p"
    using slugify_form [of lower p] by simp
next
  assume p: "p \<noteq> [] \<and> slug_form p \<and> \<not> starts_with ASSETS_PREFIX p"
  then have keep: "list_all slug_keep p" using slug_form_keep by blast
  then have "hd p \<in> set (trim p)" using p by (intro trim_keeps slug_keep_not_ws) (auto simp: list_all_iff)
  then have "trim p \<noteq> []" by auto
  moreover have colon: "CHR '':'' \<notin> set p" using keep slug_keep_other by (auto simp: list_all_iff)
  moreover have "\<not> starts_with SCHEME p" using colon by (auto simp: starts_with_iff SCHEME_def)
  ultimately show "validate_permalink lower p = Inr ()"
    using p slug_form_fixed [OF assms] by (simp add: validate_permalink_def)
qed

theorem validate_permalink_iff_witness:
  "validate_permalink ascii_lowercase ''ops/q3-report'' = Inr ()"
proof -
  have "slug_form ''ops/q3-report''"
    by (simp add: slug_form_def slug_segment_def is_ascii_lower_def is_ascii_digit_def less_eq_char_def)
  then show ?thesis using validate_permalink_iff [OF lower_ascii_ascii, of "''ops/q3-report''"]
    by (simp add: ASSETS_PREFIX_def)
qed

section \<open>Addresses\<close>

record crystalline_url =
  cu_domain :: string
  cu_permalink :: string
  cu_glob :: bool

definition url_parse :: "string \<Rightarrow> crystalline_url option" where
  "url_parse input =
     (case strip_prefix SCHEME input of None \<Rightarrow> None | Some rest \<Rightarrow>
       let (domain, tl) = (case split_once CHR ''/'' rest of Some (d, t) \<Rightarrow> (d, t) | None \<Rightarrow> (rest, []))
       in if domain = [] then None
          else let (permalink, glob) =
              (if tl = ''*'' then ([], True)
               else case strip_suffix ''/*'' tl of Some prefix \<Rightarrow> (prefix @ ''/'', True)
                    | None \<Rightarrow> (tl, False))
            in Some \<lparr>cu_domain = domain, cu_permalink = permalink, cu_glob = glob\<rparr>)"

definition to_url :: "crystalline_url \<Rightarrow> string" where
  "to_url u =
     (if cu_glob u then
        if cu_permalink u = [] then SCHEME @ cu_domain u @ ''/*''
        else SCHEME @ cu_domain u @ ''/'' @ cu_permalink u @ ''*''
      else if cu_permalink u = [] then SCHEME @ cu_domain u
      else SCHEME @ cu_domain u @ ''/'' @ cu_permalink u)"

definition asset_path :: "crystalline_url \<Rightarrow> string option" where
  "asset_path u =
     (if cu_glob u then None
      else if starts_with ASSETS_PREFIX (cu_permalink u) then Some (cu_permalink u) else None)"

definition url_matches :: "crystalline_url \<Rightarrow> string \<Rightarrow> string \<Rightarrow> bool" where
  "url_matches u domain permalink =
     (if cu_domain u \<noteq> domain then False
      else if cu_glob u then starts_with (cu_permalink u) permalink
      else cu_permalink u = permalink)"

text \<open>The addresses parsing answers: what the fields of a parsed address satisfy.\<close>

definition url_wf :: "crystalline_url \<Rightarrow> bool" where
  "url_wf u \<longleftrightarrow>
     cu_domain u \<noteq> [] \<and> CHR ''/'' \<notin> set (cu_domain u)
     \<and> (if cu_glob u then cu_permalink u = [] \<or> ends_with ''/'' (cu_permalink u)
        else cu_permalink u \<noteq> ''*'' \<and> \<not> ends_with ''/*'' (cu_permalink u))"

lemma url_parse_wf: "url_parse s = Some u \<Longrightarrow> url_wf u"
  by (auto simp: url_parse_def url_wf_def Let_def split_once_Some ends_with_iff strip_suffix_None
        split: option.splits if_splits prod.splits)

lemma split_once_domain: "CHR ''/'' \<notin> set d \<Longrightarrow> split_once CHR ''/'' (d @ ''/'' @ t) = Some (d, t)"
  by (simp add: split_once_Some)

lemma url_parse_tail:
  "d \<noteq> [] \<Longrightarrow> CHR ''/'' \<notin> set d \<Longrightarrow> url_parse (SCHEME @ d @ ''/'' @ t) =
     Some (if t = ''*'' then \<lparr>cu_domain = d, cu_permalink = [], cu_glob = True\<rparr>
           else case strip_suffix ''/*'' t of
               Some p \<Rightarrow> \<lparr>cu_domain = d, cu_permalink = p @ ''/'', cu_glob = True\<rparr>
             | None \<Rightarrow> \<lparr>cu_domain = d, cu_permalink = t, cu_glob = False\<rparr>)"
  using split_once_domain [of d t] by (simp add: url_parse_def split: option.splits)

text \<open>
  C32: an address survives the round trip through its text. Every well-formed address
  parses back to itself, parsing answers well-formed addresses only, and printing a
  parsed address and parsing it again is the parsed address.
\<close>

theorem url_roundtrip:
  "(url_wf u \<longrightarrow> url_parse (to_url u) = Some u)
   \<and> (url_parse s = Some v \<longrightarrow> url_wf v \<and> url_parse (to_url v) = Some v)"
proof -
  have rt: "url_parse (to_url u) = Some u" if wf: "url_wf u" for u
  proof (cases "cu_glob u")
    case True
    show ?thesis
    proof (cases "cu_permalink u = []")
      case True
      with \<open>cu_glob u\<close> wf url_parse_tail [of "cu_domain u" "''*''"] show ?thesis
        by (simp add: to_url_def url_wf_def)
    next
      case False
      with \<open>cu_glob u\<close> wf obtain r where r: "cu_permalink u = r @ ''/''"
        by (auto simp: url_wf_def ends_with_iff)
      have "strip_suffix ''/*'' (r @ ''/*'') = Some r" by (simp add: strip_suffix_Some)
      with \<open>cu_glob u\<close> wf r url_parse_tail [of "cu_domain u" "r @ ''/*''"] show ?thesis
        by (simp add: to_url_def url_wf_def)
    qed
  next
    case False
    show ?thesis
    proof (cases "cu_permalink u = []")
      case True
      have "strip_suffix ''/*'' [] = (None :: string option)"
        by (simp add: strip_suffix_None ends_with_iff)
      then show ?thesis using False True wf
        by (simp add: to_url_def url_parse_def url_wf_def)
    next
      case ne: False
      with False wf have "strip_suffix ''/*'' (cu_permalink u) = None"
        by (simp add: url_wf_def strip_suffix_None)
      with ne False wf url_parse_tail [of "cu_domain u" "cu_permalink u"] show ?thesis
        by (simp add: to_url_def url_wf_def)
    qed
  qed
  then show ?thesis using url_parse_wf by blast
qed

theorem url_roundtrip_witness:
  "url_parse (to_url \<lparr>cu_domain = ''ops'', cu_permalink = ''runbooks/'', cu_glob = True\<rparr>)
     = Some \<lparr>cu_domain = ''ops'', cu_permalink = ''runbooks/'', cu_glob = True\<rparr>"
proof -
  have "url_wf \<lparr>cu_domain = ''ops'', cu_permalink = ''runbooks/'', cu_glob = True\<rparr>" by code_simp
  with url_roundtrip show ?thesis by blast
qed

end
