(* ===== verification/Registration.thy ===== *)
theory Registration
  imports Address
begin

text \<open>
  Registered domains: the entry type of \<open>crates/core/src/config.rs\<close> (\<open>DomainEntry\<close>,
  \<open>OriginConfig\<close>) and the naming rules of \<open>crates/core/src/config/registration.rs\<close>:
  which names may name a domain, what registering a name means, and how a name is
  derived, stepped past the taken ones and chosen. A path is its text with \<open>/\<close> as the
  separator. The Unicode table behind \<open>char::is_alphanumeric\<close> is the parameter
  \<open>alnum\<close> (over the bytes of one character), the home directory's expansion and the
  operating system's \<open>canonicalize\<close> are the parameters \<open>expand\<close> and \<open>canonicalize\<close>.
\<close>

section \<open>The registration entry\<close>

datatype domain_kind = FileKind | VirtualKind

definition from_stored :: "string \<Rightarrow> domain_kind" where
  "from_stored s = (if s = ''virtual'' then VirtualKind else FileKind)"

datatype name_origin = Explicit | Derived

datatype review_mode = OverlayMode

datatype rename_answer = Keep | Finished

record rename_question =
  rq_from :: string
  rq_to :: string
  rq_seen_at :: string
  rq_answered :: "rename_answer option"

record origin_config =
  oc_repo :: string
  oc_path :: "string option"
  oc_branch :: "string option"
  oc_poll_secs :: "nat option"

definition branch :: "origin_config \<Rightarrow> string" where
  "branch oc = (case oc_branch oc of Some b \<Rightarrow> b | None \<Rightarrow> ''main'')"

record domain_entry =
  de_kind :: domain_kind
  de_path :: "string option"
  de_origin :: "origin_config option"
  de_provision :: "bool option"
  de_review :: "review_mode option"
  de_name_origin :: "name_origin option"
  de_aliases :: "string list"
  de_canonical_seen :: "string option"
  de_rename_question :: "rename_question option"

definition file_entry :: "string \<Rightarrow> domain_entry" where
  "file_entry path = \<lparr>de_kind = FileKind, de_path = Some path, de_origin = None,
     de_provision = None, de_review = None, de_name_origin = None, de_aliases = [],
     de_canonical_seen = None, de_rename_question = None\<rparr>"

definition virtual_entry :: domain_entry where
  "virtual_entry = \<lparr>de_kind = VirtualKind, de_path = None, de_origin = None,
     de_provision = None, de_review = None, de_name_origin = None, de_aliases = [],
     de_canonical_seen = None, de_rename_question = None\<rparr>"

definition is_virtual :: "domain_entry \<Rightarrow> bool" where
  "is_virtual e \<longleftrightarrow> de_kind e = VirtualKind"

definition is_overlay :: "domain_entry \<Rightarrow> bool" where
  "is_overlay e \<longleftrightarrow> de_review e = Some OverlayMode"

definition file_path :: "(string \<Rightarrow> string) \<Rightarrow> domain_entry \<Rightarrow> string option" where
  "file_path expand e = map_option expand (de_path e)"

definition canonical_root ::
  "(string \<Rightarrow> string) \<Rightarrow> (string \<Rightarrow> string option) \<Rightarrow> domain_entry \<Rightarrow> string option" where
  "canonical_root expand canonicalize e =
     (case file_path expand e of None \<Rightarrow> None
      | Some path \<Rightarrow> Some (case canonicalize path of Some p \<Rightarrow> p | None \<Rightarrow> path))"

text \<open>\<open>Path::file_name\<close>: the last component, unless it is \<open>..\<close>.\<close>

definition path_file_name :: "string \<Rightarrow> string option" where
  "path_file_name p =
     (let comps = filter (\<lambda>c. c \<noteq> [] \<and> c \<noteq> ''.'') (split_on CHR ''/'' p)
      in if comps = [] \<or> last comps = ''..'' then None else Some (last comps))"

section \<open>Valid names\<close>

definition MAX_DOMAIN_NAME_CHARS :: nat where "MAX_DOMAIN_NAME_CHARS = 64"

definition to_ascii_upper :: "char \<Rightarrow> char" where
  "to_ascii_upper c = (if is_ascii_lower c then char_of ((of_char c :: nat) - 32) else c)"

definition is_windows_device_name :: "string \<Rightarrow> bool" where
  "is_windows_device_name stem =
     (let cs = chars stem;
          head = concat (map (map to_ascii_upper) (take 3 cs));
          rest = drop 3 cs
      in (head \<in> {''CON'', ''PRN'', ''AUX'', ''NUL''} \<and> rest = [])
         \<or> (head \<in> {''COM'', ''LPT''} \<and>
             (case rest of
                [c] \<Rightarrow> (c \<noteq> ''0'' \<and> length c = 1 \<and> is_ascii_digit (hd c))
                       \<or> c \<in> {[CHR 0xC2, CHR 0xB9], [CHR 0xC2, CHR 0xB2], [CHR 0xC2, CHR 0xB3]}
              | _ \<Rightarrow> False)))"

definition name_char :: "(string \<Rightarrow> bool) \<Rightarrow> string \<Rightarrow> bool" where
  "name_char alnum c \<longleftrightarrow> alnum c \<or> c = ''-'' \<or> c = ''_'' \<or> c = ''.''"

datatype name_problem = NameEmpty | NameRefused string

definition validate_domain_name :: "(string \<Rightarrow> bool) \<Rightarrow> string \<Rightarrow> name_problem + unit" where
  "validate_domain_name alnum name =
     (if trim name = [] then Inl NameEmpty
      else let stem = hd (split_on CHR ''.'' name);
               allowed = length (chars name) \<le> MAX_DOMAIN_NAME_CHARS
                 \<and> \<not> starts_with ''.'' name \<and> \<not> ends_with ''.'' name
                 \<and> list_all (name_char alnum) (chars name)
                 \<and> \<not> is_windows_device_name stem
           in if allowed then Inr () else Inl (NameRefused name))"

definition valid_name :: "(string \<Rightarrow> bool) \<Rightarrow> string \<Rightarrow> bool" where
  "valid_name alnum name \<longleftrightarrow> validate_domain_name alnum name = Inr ()"

section \<open>What registering a name means\<close>

datatype registration_request = RequestFile string | RequestVirtual

datatype conflict_reason =
    IsFileDomain
  | IsVirtualDomain
  | OtherFolder string
  | OtherFolderUnknown

datatype registration = Adopt | Register | Conflict string conflict_reason

definition decide_registration ::
  "(string \<Rightarrow> string) \<Rightarrow> (string \<Rightarrow> string option) \<Rightarrow> string \<Rightarrow> domain_entry option
     \<Rightarrow> registration_request \<Rightarrow> registration" where
  "decide_registration expand canonicalize name existing request =
     (case existing of
        None \<Rightarrow> Register
      | Some entry \<Rightarrow>
          (case (request, is_virtual entry) of
             (RequestVirtual, True) \<Rightarrow> Adopt
           | (RequestVirtual, False) \<Rightarrow> Conflict name IsFileDomain
           | (RequestFile root, True) \<Rightarrow> Conflict name IsVirtualDomain
           | (RequestFile root, False) \<Rightarrow>
               (case canonical_root expand canonicalize entry of
                  Some held \<Rightarrow> if held = root then Adopt else Conflict name (OtherFolder held)
                | None \<Rightarrow> Conflict name OtherFolderUnknown)))"

definition fold_domain_name :: "(string \<Rightarrow> string) \<Rightarrow> string \<Rightarrow> string" where
  "fold_domain_name lower name = lower name"

definition case_twin ::
  "(string \<Rightarrow> string) \<Rightarrow> string \<Rightarrow> string option \<Rightarrow> (string \<times> domain_entry) list \<Rightarrow> string option" where
  "case_twin lower name own domains =
     (let folded = fold_domain_name lower name
      in find (\<lambda>other. Some other \<noteq> own \<and> other \<noteq> name \<and> fold_domain_name lower other = folded)
           (map fst domains))"

section \<open>Deriving, stepping and choosing a name\<close>

definition step_candidate :: "string \<Rightarrow> nat \<Rightarrow> string" where
  "step_candidate name n =
     (let suffix = CHR ''-'' # nat_str n;
          stem = concat (take (MAX_DOMAIN_NAME_CHARS - length (chars suffix)) (chars name))
      in trim_end_matches {CHR ''-'', CHR ''.''} stem @ suffix)"

text \<open>The stepping loop may run forever; not returning is \<open>None\<close>.\<close>

partial_function (option) step_loop :: "(string \<Rightarrow> bool) \<Rightarrow> string \<Rightarrow> nat \<Rightarrow> string option" where
  [code]: "step_loop usable name n =
     (let candidate = step_candidate name n
      in if usable candidate then Some candidate else step_loop usable name (Suc n))"

definition step_domain_name ::
  "(string \<Rightarrow> bool) \<Rightarrow> string \<Rightarrow> (string \<Rightarrow> bool) \<Rightarrow> string option" where
  "step_domain_name alnum name taken =
     (let usable = (\<lambda>candidate. valid_name alnum candidate \<and> \<not> taken candidate)
      in if usable name then Some name else step_loop usable name 2)"

definition derive_domain_name ::
  "(string \<Rightarrow> bool) \<Rightarrow> (string \<Rightarrow> string) \<Rightarrow> string \<Rightarrow> (string \<Rightarrow> bool) \<Rightarrow> string option" where
  "derive_domain_name alnum lower raw taken =
     (let slug = map (\<lambda>c. if c = CHR ''/'' then CHR ''-'' else c) (slugify lower raw);
          slug = (if slug = [] then ''domain'' else slug);
          base = concat (take (MAX_DOMAIN_NAME_CHARS - 4) (chars slug))
      in step_domain_name alnum (trim_end_char CHR ''-'' base) taken)"

definition default_repo_domain_name ::
  "(string \<Rightarrow> bool) \<Rightarrow> (string \<Rightarrow> string) \<Rightarrow> string \<Rightarrow> string option" where
  "default_repo_domain_name alnum lower repo =
     derive_domain_name alnum lower (last (split_on CHR ''/'' repo)) (\<lambda>_. False)"

definition default_folder_domain_name ::
  "(string \<Rightarrow> bool) \<Rightarrow> (string \<Rightarrow> string) \<Rightarrow> string \<Rightarrow> string option" where
  "default_folder_domain_name alnum lower root =
     derive_domain_name alnum lower
       (case path_file_name root of Some s \<Rightarrow> s | None \<Rightarrow> []) (\<lambda>_. False)"

definition infer_name_origin ::
  "(string \<Rightarrow> bool) \<Rightarrow> (string \<Rightarrow> string) \<Rightarrow> (string \<Rightarrow> string) \<Rightarrow> string \<Rightarrow> domain_entry
     \<Rightarrow> bool \<Rightarrow> name_origin" where
  "infer_name_origin alnum lower expand name entry env_defined =
     (if env_defined \<or> is_virtual entry then Explicit
      else if (case de_origin entry of
                 Some oc \<Rightarrow> default_repo_domain_name alnum lower (oc_repo oc) = Some name
               | None \<Rightarrow> False) then Derived
      else (case file_path expand entry of
              Some root \<Rightarrow>
                (let raw = (case path_file_name root of Some s \<Rightarrow> s | None \<Rightarrow> [])
                 in if name = raw \<or> default_folder_domain_name alnum lower root = Some name
                    then Derived else Explicit)
            | None \<Rightarrow> Explicit))"

record name_choice =
  nc_name :: string
  nc_origin :: name_origin
  nc_shadowed_canonical :: "string option"

definition choose_domain_name ::
  "(string \<Rightarrow> bool) \<Rightarrow> string option \<Rightarrow> string option \<Rightarrow> string \<Rightarrow> (string \<Rightarrow> bool)
     \<Rightarrow> name_choice option" where
  "choose_domain_name alnum explicit manifest_name default_name taken =
     (case explicit of
        Some name \<Rightarrow>
          Some \<lparr>nc_name = name, nc_origin = Explicit, nc_shadowed_canonical = None\<rparr>
      | None \<Rightarrow>
          (case (case manifest_name of Some n \<Rightarrow> if valid_name alnum n then Some n else None
                 | None \<Rightarrow> None) of
             Some declared \<Rightarrow>
               (case step_domain_name alnum declared taken of
                  Some name \<Rightarrow>
                    Some \<lparr>nc_name = name, nc_origin = Derived,
                      nc_shadowed_canonical = (if name \<noteq> declared then Some declared else None)\<rparr>
                | None \<Rightarrow> None)
           | None \<Rightarrow>
               Some \<lparr>nc_name = default_name, nc_origin = Derived, nc_shadowed_canonical = None\<rparr>))"

definition needs_manifest_write_back :: "domain_entry \<Rightarrow> bool \<Rightarrow> bool" where
  "needs_manifest_write_back entry manifest_declares \<longleftrightarrow>
     \<not> manifest_declares \<and> de_origin entry = None"

section \<open>Lemmas\<close>

text \<open>What the code relies on of Unicode: ASCII digits and lowercase letters are alphanumeric.\<close>

definition alnum_ascii :: "(string \<Rightarrow> bool) \<Rightarrow> bool" where
  "alnum_ascii alnum \<longleftrightarrow> (\<forall>c. is_ascii_digit c \<or> is_ascii_lower c \<longrightarrow> alnum [c])"

lemma hd_split_on: "hd (split_on d s) = takeWhile (\<lambda>c. c \<noteq> d) s"
  by (induction s) (auto split: list.splits)

lemma str_ok_append: "str_ok (s @ t) \<Longrightarrow> str_ok s"
  by (auto simp: str_ok_def hd_append)

lemma ascii_punct: "\<not> is_continuation CHR ''-''" "\<not> is_continuation CHR ''.''"
  "\<not> ws_byte CHR ''-''" "\<not> is_ascii_digit CHR ''-''" "\<not> is_ascii_digit CHR ''.''"
  "to_ascii_upper CHR ''-'' = CHR ''-''"
  by (auto simp: is_continuation_def ws_byte_code ws_bytes_def upt_rec is_ascii_digit_code
        to_ascii_upper_def is_ascii_lower_def less_eq_char_def)

lemma chars_suffix: "chars (CHR ''-'' # nat_str n) = map (\<lambda>c. [c]) (CHR ''-'' # nat_str n)"
  by (rule chars_ascii) (auto simp: ascii_punct dest: nat_str_digits digit_not_continuation)

text \<open>A device name holds no hyphen, so no stepped candidate without a dot is one.\<close>

lemma device_no_hyphen: "is_windows_device_name s \<Longrightarrow> CHR ''-'' \<notin> set s"
proof
  assume d: "is_windows_device_name s" and h: "CHR ''-'' \<in> set s"
  have s: "s = concat (take 3 (chars s)) @ concat (drop 3 (chars s))"
    by (metis append_take_drop_id concat_append concat_chars)
  have "CHR ''-'' \<notin> set (concat (take 3 (chars s)))"
  proof
    assume "CHR ''-'' \<in> set (concat (take 3 (chars s)))"
    then have "CHR ''-'' \<in> set (map to_ascii_upper (concat (take 3 (chars s))))"
      by (metis ascii_punct(6) image_eqI list.set_map)
    moreover have "map to_ascii_upper (concat (take 3 (chars s)))
        \<in> {''CON'', ''PRN'', ''AUX'', ''NUL'', ''COM'', ''LPT''}"
      using d by (auto simp: is_windows_device_name_def Let_def map_concat)
    ultimately show False by (auto simp del: set_concat)
  qed
  moreover have "CHR ''-'' \<notin> set (concat (drop 3 (chars s)))"
    using d by (auto simp: is_windows_device_name_def Let_def ascii_punct length_Suc_conv
        split: list.splits)
  ultimately show False using s h by (metis Un_iff set_append)
qed

text \<open>
  What a name must satisfy for every stepped candidate to be valid. Every valid name
  does, and so does a name refused for its length or for being a device name.
\<close>

definition steppable :: "(string \<Rightarrow> bool) \<Rightarrow> string \<Rightarrow> bool" where
  "steppable alnum name \<longleftrightarrow>
     str_ok name \<and> \<not> starts_with ''.'' name \<and> list_all (name_char alnum) (chars name)
     \<and> (CHR ''.'' \<in> set name \<longrightarrow> \<not> is_windows_device_name (hd (split_on CHR ''.'' name)))"

lemma valid_steppable: "str_ok name \<Longrightarrow> valid_name alnum name \<Longrightarrow> steppable alnum name"
  by (auto simp: valid_name_def validate_domain_name_def steppable_def Let_def split: if_splits)

lemma candidate_valid:
  assumes name: "steppable alnum name" and alnum: "alnum_ascii alnum" and n: "n < 10 ^ 63"
  shows "valid_name alnum (step_candidate name n)"
proof -
  let ?suf = "CHR ''-'' # nat_str n"
  let ?k = "MAX_DOMAIN_NAME_CHARS - length (chars ?suf)"
  define stem where "stem = concat (take ?k (chars name))"
  define tr where "tr = trim_end_matches {CHR ''-'', CHR ''.''} stem"
  have cand: "step_candidate name n = tr @ ?suf"
    by (simp add: step_candidate_def tr_def stem_def Let_def)
  have ok: "str_ok name" using name by (simp add: steppable_def)
  obtain r where r: "stem = tr @ r" "set r \<subseteq> {CHR ''-'', CHR ''.''}"
    using trim_end_matches_prefix tr_def by blast
  have "name = stem @ concat (drop ?k (chars name))"
    unfolding stem_def by (metis append_take_drop_id concat_append concat_chars)
  with r have pre: "name = tr @ r @ concat (drop ?k (chars name))" by simp
  have oktr: "str_ok tr" using ok pre str_ok_append by metis
  have okr: "str_ok r" using r(2) ascii_punct by (cases r) (auto simp: str_ok_def)
  have "chars stem = take ?k (chars name)" unfolding stem_def using ok by (rule chars_take)
  then have ct: "chars tr @ chars r = take ?k (chars name)"
    using chars_append [OF oktr okr] r(1) by simp
  have oksuf: "str_ok ?suf" by (simp add: str_ok_def ascii_punct)
  have cc: "chars (tr @ ?suf) = chars tr @ map (\<lambda>c. [c]) ?suf"
    using chars_append [OF oktr oksuf] chars_suffix by metis
  have lens: "length (chars ?suf) = Suc (length (nat_str n))" by (simp only: chars_suffix length_map list.size)
  have "length (nat_str n) \<le> 63" using n by (intro length_nat_str) simp_all
  moreover have "length (chars tr) \<le> ?k"
    using arg_cong [OF ct, of length] by (simp del: chars.simps)
  ultimately have l: "length (chars (tr @ ?suf)) \<le> MAX_DOMAIN_NAME_CHARS"
    unfolding cc using lens by (simp add: MAX_DOMAIN_NAME_CHARS_def del: chars.simps)
  have nodot_start: "\<not> starts_with ''.'' (tr @ ?suf)"
  proof (cases tr)
    case (Cons c t)
    have "\<not> starts_with ''.'' name" using name by (simp add: steppable_def)
    then have "c \<noteq> CHR ''.''" by (subst (asm) pre) (simp add: Cons)
    then show ?thesis by (simp add: Cons)
  qed simp
  have "last (tr @ ?suf) \<noteq> CHR ''.''"
    using nat_str_digits [of "last (nat_str n)" n] ascii_punct by (auto simp del: chars.simps)
  then have nodot_end: "\<not> ends_with ''.'' (tr @ ?suf)" by (metis ends_with_iff last_snoc)
  have "set (chars tr) \<subseteq> set (chars name)"
    using ct by (metis set_append set_take_subset subset_trans Un_upper1)
  then have all: "list_all (name_char alnum) (chars (tr @ ?suf))"
    unfolding cc using name alnum
    by (auto simp: steppable_def list_all_iff name_char_def alnum_ascii_def dest: nat_str_digits)
  have dev: "\<not> is_windows_device_name (hd (split_on CHR ''.'' (tr @ ?suf)))"
  proof (cases "CHR ''.'' \<in> set tr")
    case True
    then have "takeWhile (\<lambda>c. c \<noteq> CHR ''.'') (tr @ ?suf) = takeWhile (\<lambda>c. c \<noteq> CHR ''.'') name"
      by (subst pre) (simp add: takeWhile_append1)
    then show ?thesis using name True pre by (metis Un_iff hd_split_on set_append steppable_def)
  next
    case False
    moreover have "CHR ''.'' \<notin> set ?suf" using ascii_punct by (auto dest: nat_str_digits)
    ultimately have "takeWhile (\<lambda>c. c \<noteq> CHR ''.'') (tr @ ?suf) = tr @ ?suf"
      by (intro takeWhile_eq_all_conv [THEN iffD2]) auto
    then show ?thesis using device_no_hyphen by (fastforce simp: hd_split_on)
  qed
  have "trim (tr @ ?suf) \<noteq> []" using trim_keeps [of "CHR ''-''" "tr @ ?suf"] ascii_punct by auto
  with l nodot_start nodot_end all dev show ?thesis
    unfolding cand valid_name_def validate_domain_name_def Let_def by (simp del: chars.simps)
qed

lemma candidate_inj: "step_candidate name m = step_candidate name n \<Longrightarrow> m = n"
proof -
  have h: "rsplit_once CHR ''-'' (step_candidate name i) \<noteq> None
      \<and> snd (the (rsplit_once CHR ''-'' (step_candidate name i))) = nat_str i" for i
  proof -
    obtain t where "step_candidate name i = t @ CHR ''-'' # nat_str i"
      by (auto simp: step_candidate_def Let_def)
    moreover have "CHR ''-'' \<notin> set (nat_str i)" using ascii_punct by (auto dest: nat_str_digits)
    ultimately have "rsplit_once CHR ''-'' (step_candidate name i) = Some (t, nat_str i)"
      by (simp add: rsplit_once_Some)
    then show ?thesis by simp
  qed
  assume "step_candidate name m = step_candidate name n"
  then have "nat_str m = nat_str n" using h by metis
  then show ?thesis by simp
qed

lemma step_loop_finds:
  "m \<le> n \<Longrightarrow> usable (step_candidate name n)
     \<Longrightarrow> \<forall>i. m \<le> i \<and> i < n \<longrightarrow> \<not> usable (step_candidate name i)
     \<Longrightarrow> step_loop usable name m = Some (step_candidate name n)"
proof (induction m rule: inc_induct)
  case base
  then show ?case by (subst step_loop.simps) (simp add: Let_def)
next
  case (step m)
  then show ?case by (subst step_loop.simps) (simp add: Let_def)
qed

text \<open>Among the first \<open>card taken + 1\<close> candidates one is free.\<close>

lemma free_candidate:
  assumes "finite (Collect taken)"
  obtains n where "2 \<le> n" "n \<le> card (Collect taken) + 2" "\<not> taken (step_candidate name n)"
    "\<forall>i. 2 \<le> i \<and> i < n \<longrightarrow> taken (step_candidate name i)"
proof -
  let ?N = "{2..card (Collect taken) + 2}"
  have some: "\<exists>n \<in> ?N. \<not> taken (step_candidate name n)"
  proof (rule ccontr)
    assume "\<not> ?thesis"
    then have "step_candidate name ` ?N \<subseteq> Collect taken" by auto
    then have "card (step_candidate name ` ?N) \<le> card (Collect taken)" using assms by (rule card_mono [rotated])
    moreover have "inj_on (step_candidate name) ?N" using candidate_inj by (auto simp: inj_on_def)
    then have "card (step_candidate name ` ?N) = card (Collect taken) + 1" by (simp add: card_image)
    ultimately show False by simp
  qed
  then have ex: "\<exists>n. 2 \<le> n \<and> \<not> taken (step_candidate name n)" by auto
  define n where "n = (LEAST n. 2 \<le> n \<and> \<not> taken (step_candidate name n))"
  have "2 \<le> n \<and> \<not> taken (step_candidate name n)" unfolding n_def by (rule LeastI_ex [OF ex])
  moreover have "n \<le> card (Collect taken) + 2"
  proof -
    from some obtain k where "k \<in> ?N" "\<not> taken (step_candidate name k)" by blast
    then have "n \<le> k" unfolding n_def by (intro Least_le) simp
    with \<open>k \<in> ?N\<close> show ?thesis by simp
  qed
  moreover have "taken (step_candidate name i)" if "2 \<le> i" "i < n" for i
    using not_less_Least that unfolding n_def by blast
  ultimately show thesis using that by blast
qed

lemma step_finds:
  assumes name: "steppable alnum name" and alnum: "alnum_ascii alnum"
    and fin: "finite (Collect taken)" and few: "card (Collect taken) + 2 < 2 ^ 31"
  obtains r where "step_domain_name alnum name taken = Some r" "valid_name alnum r" "\<not> taken r"
    "r = name \<or> (\<exists>n \<in> {2..card (Collect taken) + 2}. r = step_candidate name n)"
proof (cases "valid_name alnum name \<and> \<not> taken name")
  case True
  then show ?thesis using that by (simp add: step_domain_name_def)
next
  case False
  obtain n where n: "2 \<le> n" "n \<le> card (Collect taken) + 2" "\<not> taken (step_candidate name n)"
    "\<forall>i. 2 \<le> i \<and> i < n \<longrightarrow> taken (step_candidate name i)"
    using free_candidate [OF fin, of name] .
  have "(2::nat) ^ 31 < 10 ^ 63" by simp
  then have v: "valid_name alnum (step_candidate name n)"
    using candidate_valid [OF name alnum] n(2) few by simp
  let ?u = "\<lambda>c. valid_name alnum c \<and> \<not> taken c"
  have "step_loop ?u name 2 = Some (step_candidate name n)"
    using n v by (intro step_loop_finds) auto
  with False have "step_domain_name alnum name taken = Some (step_candidate name n)"
    unfolding step_domain_name_def Let_def by (simp only: if_False)
  then show ?thesis using v n by (intro that [of "step_candidate name n"]) auto
qed

lemma slug_steppable:
  assumes alnum: "alnum_ascii alnum" and b: "set b \<subseteq> {c. is_ascii_lower c \<or> is_ascii_digit c \<or> c = CHR ''-''}"
  shows "steppable alnum b" "chars b = map (\<lambda>c. [c]) b"
proof -
  have cont: "c \<in> set b \<Longrightarrow> \<not> is_continuation c" for c
    using b by (auto simp: is_ascii_lower_def is_ascii_digit_def less_eq_char_def is_continuation_def)
  then show c: "chars b = map (\<lambda>c. [c]) b" by (intro chars_ascii) auto
  have nodot: "CHR ''.'' \<notin> set b"
    using b by (auto simp: is_ascii_lower_def is_ascii_digit_def less_eq_char_def)
  then have "\<not> starts_with ''.'' b" by (cases b) auto
  moreover have "str_ok b" using cont by (cases b) (auto simp: str_ok_def)
  moreover have "list_all (name_char alnum) (chars b)"
    unfolding c using b alnum by (auto simp: list_all_iff name_char_def alnum_ascii_def)
  ultimately show "steppable alnum b" using nodot by (simp add: steppable_def)
qed

text \<open>The base \<open>derive_domain_name\<close> steps from is a short run of slug characters.\<close>

lemma derive_base:
  fixes lower :: "string \<Rightarrow> string" and raw :: string
  assumes alnum: "alnum_ascii alnum"
  defines "slug \<equiv> (let s = map (\<lambda>c. if c = CHR ''/'' then CHR ''-'' else c) (slugify lower raw)
                     in if s = [] then ''domain'' else s)"
  shows "steppable alnum (trim_end_char CHR ''-'' (concat (take (MAX_DOMAIN_NAME_CHARS - 4) (chars slug))))"
proof -
  let ?S = "{c. is_ascii_lower c \<or> is_ascii_digit c \<or> c = CHR ''-''}"
  have "set (slugify lower raw) \<subseteq> Collect slug_keep"
    using slug_form_keep [OF slugify_form] by (auto simp: list_all_iff)
  moreover have "set ''domain'' \<subseteq> ?S" by (simp add: is_ascii_lower_def less_eq_char_def)
  ultimately have s: "set slug \<subseteq> ?S" unfolding slug_def Let_def by (auto simp: slug_keep_def)
  have "set (trim_end_char CHR ''-'' (concat (take (MAX_DOMAIN_NAME_CHARS - 4) (chars slug)))) \<subseteq> set slug"
    unfolding slug_steppable(2) [OF alnum s]
    by (auto simp: trim_end_char_def dest!: set_dropWhileD in_set_takeD)
  with s show ?thesis by (intro slug_steppable(1) [OF alnum]) blast
qed

section \<open>Properties\<close>

text \<open>
  C30: stepping a valid name past the taken ones ends, whatever is taken: it answers a
  valid name that is free, the name itself exactly when that is free, after at most one
  candidate more than there are taken names, so the \<open>i32\<close> counter never overflows.
\<close>

theorem step_domain_name_total:
  assumes "str_ok name" "valid_name alnum name" "alnum_ascii alnum"
    and "finite (Collect taken)" "card (Collect taken) + 2 < 2 ^ 31"
  shows "\<exists>r. step_domain_name alnum name taken = Some r \<and> valid_name alnum r \<and> \<not> taken r
    \<and> (r = name \<longleftrightarrow> \<not> taken name)
    \<and> (taken name \<longrightarrow> (\<exists>n \<in> {2..card (Collect taken) + 2}. r = step_candidate name n))"
proof -
  obtain r where r: "step_domain_name alnum name taken = Some r" "valid_name alnum r" "\<not> taken r"
    "r = name \<or> (\<exists>n \<in> {2..card (Collect taken) + 2}. r = step_candidate name n)"
    using step_finds [OF valid_steppable [OF assms(1,2)] assms(3-5)] .
  moreover have "\<not> taken name \<Longrightarrow> r = name"
    using r(1) assms(2) by (simp add: step_domain_name_def Let_def)
  ultimately show ?thesis by auto
qed

theorem step_domain_name_total_witness:
  "\<exists>r. step_domain_name (\<lambda>c. length c = 1 \<and> (is_ascii_lower (hd c) \<or> is_ascii_digit (hd c))) ''ops''
         (\<lambda>c. c \<in> {''ops'', ''ops-2''}) = Some r \<and> r \<notin> {''ops'', ''ops-2''}"
proof -
  let ?al = "\<lambda>c. length c = 1 \<and> (is_ascii_lower (hd c) \<or> is_ascii_digit (hd c))"
  have v: "valid_name ?al ''ops''" by code_simp
  have "str_ok ''ops''" by code_simp
  moreover have "alnum_ascii ?al" by (simp add: alnum_ascii_def)
  moreover have "Collect (\<lambda>c. c \<in> {''ops'', ''ops-2''}) = {''ops'', ''ops-2''}" by (rule Collect_mem_eq)
  ultimately show ?thesis
    using step_domain_name_total [of "''ops''" ?al "\<lambda>c. c \<in> {''ops'', ''ops-2''}"] v by auto
qed

text \<open>
  \<open>derive_domain_name\<close> always passes \<open>validate_domain_name\<close>: whatever text it is
  given (an empty folder name, a repository called \<open>CON\<close>, one far too long) and
  whatever names are taken, it returns a valid name that is free, and so do the two
  defaults built on it.
\<close>

theorem derive_domain_name_valid:
  assumes "alnum_ascii alnum"
    and "finite (Collect taken)" "card (Collect taken) + 2 < 2 ^ 31"
  shows "(\<exists>r. derive_domain_name alnum lower raw taken = Some r \<and> valid_name alnum r \<and> \<not> taken r)
    \<and> (\<exists>r. default_repo_domain_name alnum lower raw = Some r \<and> valid_name alnum r)
    \<and> (\<exists>r. default_folder_domain_name alnum lower raw = Some r \<and> valid_name alnum r)"
proof -
  have d: "\<exists>r. derive_domain_name alnum lower raw taken = Some r \<and> valid_name alnum r \<and> \<not> taken r"
    if t: "finite (Collect taken)" "card (Collect taken) + 2 < 2 ^ 31" for raw taken
    unfolding derive_domain_name_def Let_def
    by (rule step_finds [OF derive_base [OF assms(1), of lower raw, unfolded Let_def] assms(1) t]) blast
  show ?thesis
    using d [OF assms(2,3), of raw] d [of "\<lambda>_. False"]
    unfolding default_repo_domain_name_def default_folder_domain_name_def by simp
qed

theorem derive_domain_name_valid_witness:
  "\<exists>r. derive_domain_name (\<lambda>c. length c = 1 \<and> (is_ascii_lower (hd c) \<or> is_ascii_digit (hd c)))
         ascii_lowercase ''CON'' (\<lambda>c. c = ''con-2'') = Some r \<and> r \<noteq> ''con-2''"
proof -
  let ?al = "\<lambda>c. length c = 1 \<and> (is_ascii_lower (hd c) \<or> is_ascii_digit (hd c))"
  have "alnum_ascii ?al" by (simp add: alnum_ascii_def)
  moreover have c: "Collect (\<lambda>c. c = ''con-2'') = {''con-2''}" by (rule singleton_conv)
  moreover have "finite (Collect (\<lambda>c. c = ''con-2''))" unfolding c by simp
  moreover have "card (Collect (\<lambda>c. c = ''con-2'')) + 2 < 2 ^ 31" unfolding c by simp
  ultimately have "\<exists>r. derive_domain_name ?al ascii_lowercase ''CON'' (\<lambda>c. c = ''con-2'') = Some r
      \<and> valid_name ?al r \<and> \<not> r = ''con-2''"
    by (intro derive_domain_name_valid [THEN conjunct1])
  then show ?thesis by blast
qed

end
