(* ===== verification/Names.thy ===== *)
theory Names
  imports Registration "HOL-Library.Product_Lexorder" "HOL-Library.Multiset"
begin

text \<open>
  \<open>crates/core/src/names.rs\<close>: the table from every spelling of a domain to its local
  name. \<open>build\<close> is the code's construction, three passes over the inputs sorted by
  local name; \<open>owner_spec\<close> states the precedence (local names, then uncontested
  canonical names, then unshared aliases) without the passes. Reading a MANIFEST from
  disk is the parameter \<open>domain_name_at\<close>.
\<close>

record name_input =
  ni_local :: string
  ni_canonical :: "string option"
  ni_aliases :: "string list"

definition config_name_inputs ::
  "(string \<Rightarrow> string) \<Rightarrow> (string \<Rightarrow> string option) \<Rightarrow> (string \<times> domain_entry) list
     \<Rightarrow> (string \<times> string) list \<Rightarrow> name_input list" where
  "config_name_inputs expand domain_name_at domains virtual_names =
     map (\<lambda>(local, entry).
       \<lparr>ni_local = local,
        ni_canonical =
          (if is_virtual entry then map_of virtual_names local
           else (case file_path expand entry of Some root \<Rightarrow> domain_name_at root | None \<Rightarrow> None)),
        ni_aliases = de_aliases entry\<rparr>) domains"

record name_conflict =
  cf_name :: string
  cf_claimants :: "string list"

record dropped_alias =
  da_domain :: string
  da_alias :: string
  da_held_by :: "string option"

record name_table =
  nt_spellings :: "(string \<times> string) list"
  nt_canonical_of :: "(string \<times> string) list"
  nt_shadowed :: "string list"
  nt_effective_aliases :: "(string \<times> string list) list"
  nt_conflicts :: "name_conflict list"
  nt_dropped_aliases :: "dropped_alias list"

section \<open>Building the table\<close>

fun dedup_local :: "name_input list \<Rightarrow> name_input list" where
  "dedup_local [] = []"
| "dedup_local [i] = [i]"
| "dedup_local (i # j # is) =
     (if ni_local i = ni_local j then dedup_local (i # is) else i # dedup_local (j # is))"

definition sorted_inputs :: "name_input list \<Rightarrow> name_input list" where
  "sorted_inputs inputs = dedup_local (sort_key ni_local inputs)"

definition declared :: "(string \<Rightarrow> bool) \<Rightarrow> name_input \<Rightarrow> string" where
  "declared alnum i =
     (case ni_canonical i of
        Some c \<Rightarrow> if valid_name alnum c then c else ni_local i
      | None \<Rightarrow> ni_local i)"

text \<open>Pass 1: local names.\<close>

definition local_pass ::
  "(string \<Rightarrow> bool) \<Rightarrow> name_input list \<Rightarrow> (string \<times> string) list \<times> (string \<times> string) list" where
  "local_pass alnum is =
     fold (\<lambda>i (spellings, canonical_of).
        (bt_insert (ni_local i) (ni_local i) spellings,
         AList.update (ni_local i) (declared alnum i) canonical_of)) is ([], [])"

text \<open>Pass 2: canonical names that differ from the local name.\<close>

definition collect_claims ::
  "(string \<times> string) list \<Rightarrow> name_input list \<Rightarrow> (string \<times> string list) list" where
  "collect_claims canonical_of is =
     fold (\<lambda>i claims.
        (let canonical = the (map_of canonical_of (ni_local i))
         in if canonical \<noteq> ni_local i
            then bt_insert canonical
                   ((case map_of claims canonical of Some ls \<Rightarrow> ls | None \<Rightarrow> []) @ [ni_local i]) claims
            else claims)) is []"

record claim_state =
  cs_shadowed :: "string list"
  cs_contested :: "string list"
  cs_conflicts :: "name_conflict list"
  cs_granted :: "(string \<times> string) list"

definition settle_claim ::
  "(string \<times> string) list \<Rightarrow> string \<times> string list \<Rightarrow> claim_state \<Rightarrow> claim_state" where
  "settle_claim spellings claim s =
     (let name = fst claim; claimants = snd claim
      in if map_of spellings name \<noteq> None
         then s\<lparr>cs_shadowed := cs_shadowed s @ claimants\<rparr>
         else if 1 < length claimants
         then s\<lparr>cs_contested := List.insert name (cs_contested s),
                cs_conflicts := cs_conflicts s @ [\<lparr>cf_name = name, cf_claimants = claimants\<rparr>]\<rparr>
         else s\<lparr>cs_granted := cs_granted s @ [(name, hd claimants)]\<rparr>)"

definition settle_claims ::
  "(string \<times> string) list \<Rightarrow> (string \<times> string list) list \<Rightarrow> claim_state" where
  "settle_claims spellings claims =
     fold (settle_claim spellings) claims
       \<lparr>cs_shadowed = [], cs_contested = [], cs_conflicts = [], cs_granted = []\<rparr>"

definition extend_map :: "(string \<times> string) list \<Rightarrow> (string \<times> string) list \<Rightarrow> (string \<times> string) list" where
  "extend_map granted spellings = fold (\<lambda>(k, v). bt_insert k v) granted spellings"

text \<open>Pass 3: aliases.\<close>

fun own_aliases ::
  "string \<Rightarrow> string \<Rightarrow> string list \<Rightarrow> string list \<Rightarrow> (string \<times> nat) list
     \<Rightarrow> string list \<times> (string \<times> nat) list" where
  "own_aliases local canonical [] own claims = (own, claims)"
| "own_aliases local canonical (alias # rest) own claims =
     (if alias = local \<or> alias = canonical \<or> alias \<in> set own
      then own_aliases local canonical rest own claims
      else own_aliases local canonical rest (own @ [alias])
             (AList.update alias
               ((case map_of claims alias of Some n \<Rightarrow> n | None \<Rightarrow> 0) + 1) claims))"

fun list_aliases ::
  "(string \<times> string) list \<Rightarrow> name_input list \<Rightarrow> (string \<times> string list) list \<Rightarrow> (string \<times> nat) list
     \<Rightarrow> (string \<times> string list) list \<times> (string \<times> nat) list" where
  "list_aliases canonical_of [] listed claims = (listed, claims)"
| "list_aliases canonical_of (i # is) listed claims =
     (let canonical = the (map_of canonical_of (ni_local i));
          (own, claims) = own_aliases (ni_local i) canonical (ni_aliases i) [] claims
      in list_aliases canonical_of is (listed @ [(ni_local i, own)]) claims)"

definition held_by ::
  "(string \<times> string) list \<Rightarrow> string list \<Rightarrow> (string \<times> nat) list \<Rightarrow> string \<Rightarrow> string option option" where
  "held_by spellings contested claims alias =
     (case map_of spellings alias of
        Some owner \<Rightarrow> Some (Some owner)
      | None \<Rightarrow>
          if alias \<in> set contested \<or> 1 < the (map_of claims alias) then Some None else None)"

record alias_state =
  as_granted :: "(string \<times> string) list"
  as_effective :: "(string \<times> string list) list"
  as_dropped :: "dropped_alias list"

definition settle_aliases ::
  "(string \<Rightarrow> string option option) \<Rightarrow> string \<times> string list \<Rightarrow> alias_state \<Rightarrow> alias_state" where
  "settle_aliases held entry s =
     (let local = fst entry; aliases = snd entry;
          effective = filter (\<lambda>a. held a = None) aliases
      in \<lparr>as_granted = as_granted s @ map (\<lambda>a. (a, local)) effective,
          as_effective = AList.update local effective (as_effective s),
          as_dropped = as_dropped s
            @ map (\<lambda>a. \<lparr>da_domain = local, da_alias = a, da_held_by = the (held a)\<rparr>)
                (filter (\<lambda>a. held a \<noteq> None) aliases)\<rparr>)"

definition build_sorted :: "(string \<Rightarrow> bool) \<Rightarrow> name_input list \<Rightarrow> name_table" where
  "build_sorted alnum is =
     (let (locals, canonical_of) = local_pass alnum is;
          claims = settle_claims locals (collect_claims canonical_of is);
          spellings = extend_map (cs_granted claims) locals;
          (listed, alias_claims) = list_aliases canonical_of is [] [];
          s = fold (settle_aliases (held_by spellings (cs_contested claims) alias_claims)) listed
                \<lparr>as_granted = [], as_effective = [], as_dropped = []\<rparr>
      in \<lparr>nt_spellings = extend_map (as_granted s) spellings,
          nt_canonical_of = canonical_of,
          nt_shadowed = cs_shadowed claims,
          nt_effective_aliases = as_effective s,
          nt_conflicts = cs_conflicts claims,
          nt_dropped_aliases = sort_key (\<lambda>d. (da_domain d, da_alias d)) (as_dropped s)\<rparr>)"

definition build :: "(string \<Rightarrow> bool) \<Rightarrow> name_input list \<Rightarrow> name_table" where
  "build alnum inputs = build_sorted alnum (sorted_inputs inputs)"

definition from_config ::
  "(string \<Rightarrow> bool) \<Rightarrow> (string \<Rightarrow> string) \<Rightarrow> (string \<Rightarrow> string option) \<Rightarrow> (string \<times> domain_entry) list
     \<Rightarrow> (string \<times> string) list \<Rightarrow> name_table" where
  "from_config alnum expand domain_name_at domains virtual_names =
     build alnum (config_name_inputs expand domain_name_at domains virtual_names)"

section \<open>Reading the table\<close>

definition nt_resolve :: "name_table \<Rightarrow> string \<Rightarrow> string option" where
  "nt_resolve t spelling = map_of (nt_spellings t) spelling"

definition nt_canonical :: "name_table \<Rightarrow> string \<Rightarrow> string option" where
  "nt_canonical t local = map_of (nt_canonical_of t) local"

definition is_shadowed :: "name_table \<Rightarrow> string \<Rightarrow> bool" where
  "is_shadowed t local \<longleftrightarrow> local \<in> set (nt_shadowed t)"

definition effective_aliases :: "name_table \<Rightarrow> string \<Rightarrow> string list" where
  "effective_aliases t local =
     (case map_of (nt_effective_aliases t) local of Some as \<Rightarrow> as | None \<Rightarrow> [])"

definition normalize :: "name_table \<Rightarrow> string \<Rightarrow> string option" where
  "normalize t spelling =
     (case nt_resolve t spelling of
        None \<Rightarrow> None
      | Some local \<Rightarrow>
          (case nt_canonical t local of
             None \<Rightarrow> None
           | Some canonical \<Rightarrow>
               if canonical \<noteq> spelling \<and> nt_resolve t canonical = Some local
               then Some canonical else None))"

section \<open>The inputs that count\<close>

definition entries :: "name_input list \<Rightarrow> name_input set" where
  "entries inputs = {i. find (\<lambda>j. ni_local j = ni_local i) inputs = Some i}"

lemma dedup_local_sorted:
  "sorted (map ni_local is) \<Longrightarrow>
     sorted_wrt (<) (map ni_local (dedup_local is)) \<and> ni_local ` set (dedup_local is) = ni_local ` set is
     \<and> (\<forall>k. find (\<lambda>j. ni_local j = k) (dedup_local is) = find (\<lambda>j. ni_local j = k) is)"
proof (induction "is" rule: dedup_local.induct)
  case (3 i j "is")
  show ?case
  proof (cases "ni_local i = ni_local j")
    case True
    then show ?thesis using 3 by auto
  next
    case False
    have ih: "sorted_wrt (<) (map ni_local (dedup_local (j # is)))"
      "ni_local ` set (dedup_local (j # is)) = ni_local ` set (j # is)"
      "\<forall>k. find (\<lambda>j. ni_local j = k) (dedup_local (j # is)) = find (\<lambda>j. ni_local j = k) (j # is)"
      using 3(2) [OF False] "3.prems" by auto
    have "\<forall>k \<in> set (j # is). ni_local i < ni_local k"
      using "3.prems" False by fastforce
    then have "\<forall>k \<in> ni_local ` set (dedup_local (j # is)). ni_local i < k" unfolding ih(2) by blast
    then have "sorted_wrt (<) (map ni_local (i # dedup_local (j # is)))" using ih(1) by simp
    moreover have "dedup_local (i # j # is) = i # dedup_local (j # is)" using False by simp
    ultimately show ?thesis using ih(2,3) by auto
  qed
qed auto

lemma find_filter: "find P xs = (case filter P xs of [] \<Rightarrow> None | x # _ \<Rightarrow> Some x)"
  by (induction xs) auto

lemma sorted_inputs_facts:
  "sorted_wrt (<) (map ni_local (sorted_inputs inputs))"
  "ni_local ` set (sorted_inputs inputs) = ni_local ` set inputs"
  "find (\<lambda>j. ni_local j = k) (sorted_inputs inputs) = find (\<lambda>j. ni_local j = k) inputs"
proof -
  note d = dedup_local_sorted [of "sort_key ni_local inputs"]
  show "sorted_wrt (<) (map ni_local (sorted_inputs inputs))"
    "ni_local ` set (sorted_inputs inputs) = ni_local ` set inputs"
    using d by (simp_all add: sorted_inputs_def)
  have "filter (\<lambda>j. ni_local j = k) (sort_key ni_local inputs) = filter (\<lambda>j. ni_local j = k) inputs"
    by (rule sort_key_stable)
  then show "find (\<lambda>j. ni_local j = k) (sorted_inputs inputs) = find (\<lambda>j. ni_local j = k) inputs"
    using d by (simp add: sorted_inputs_def find_filter)
qed

lemma distinct_sorted_inputs: "distinct (map ni_local (sorted_inputs inputs))"
  using sorted_inputs_facts(1) strict_sorted_iff by blast

lemma find_distinct: "distinct (map ni_local is) \<Longrightarrow> i \<in> set is \<Longrightarrow> find (\<lambda>j. ni_local j = ni_local i) is = Some i"
  by (induction "is") auto

lemma set_sorted_inputs: "set (sorted_inputs inputs) = entries inputs"
proof -
  have "i \<in> set (sorted_inputs inputs) \<longleftrightarrow> find (\<lambda>j. ni_local j = ni_local i) (sorted_inputs inputs) = Some i" for i
    using find_distinct [OF distinct_sorted_inputs] by (auto simp: find_Some_iff)
  then show ?thesis by (auto simp: entries_def sorted_inputs_facts(3))
qed

lemma locals_entries: "ni_local ` entries inputs = ni_local ` set inputs"
  using sorted_inputs_facts(2) set_sorted_inputs by simp

lemma sorted_inputs_cong:
  assumes "entries a = entries b"
  shows "sorted_inputs a = sorted_inputs b"
proof -
  have d: "distinct (sorted_inputs c)" "inj_on ni_local (set (sorted_inputs c))" for c
    using distinct_sorted_inputs [of c] by (simp_all add: distinct_map)
  have sorted: "sorted (map ni_local (sorted_inputs c))" for c
    using sorted_inputs_facts(1) strict_sorted_iff by blast
  have "mset (sorted_inputs a) = mset (sorted_inputs b)"
    using d(1) assms set_sorted_inputs by (metis set_eq_iff_mset_eq_distinct)
  then have "sort_key ni_local (sorted_inputs a) = sorted_inputs b"
    using d(2) sorted by (intro sort_key_inj_key_eq)
  moreover have "sort_key ni_local (sorted_inputs a) = sorted_inputs a"
    using d(2) sorted by (intro sort_key_inj_key_eq) auto
  ultimately show ?thesis by simp
qed

section \<open>What the passes compute\<close>

lemma map_of_rev_keyed:
  "distinct (map f is) \<Longrightarrow>
     map_of (rev (map (\<lambda>i. (f i, g i)) is)) k = map_option g (find (\<lambda>i. f i = k) is)"
proof (induction "is")
  case (Cons i "is")
  then have "find (\<lambda>j. f j = f i) is = None" by (auto simp: find_None_iff) (metis imageI)
  with Cons show ?case by (auto simp: map_add_def split: option.splits)
qed simp

lemma fold_pair: "fold (\<lambda>i (a, b). (f i a, g i b)) is (a, b) = (fold f is a, fold g is b)"
  by (induction "is" arbitrary: a b) auto

lemma local_pass_fst:
  assumes "distinct (map ni_local is)"
  shows "bt_ok (fst (local_pass alnum is))"
    "map_of (fst (local_pass alnum is)) s = (if s \<in> ni_local ` set is then Some s else None)"
proof -
  have eq: "fst (local_pass alnum is) = fold (\<lambda>(k, v). bt_insert k v) (map (\<lambda>i. (ni_local i, ni_local i)) is) []"
    by (simp add: local_pass_def fold_pair fold_map comp_def)
  have ok: "bt_ok ([] :: (string \<times> string) list)" by (simp add: bt_ok_def)
  show "bt_ok (fst (local_pass alnum is))" unfolding eq by (rule bt.ok_insert_all [OF ok])
  show "map_of (fst (local_pass alnum is)) s = (if s \<in> ni_local ` set is then Some s else None)"
    unfolding eq bt.lookup_insert_all [OF ok] map_of_rev_keyed [OF assms]
    by (auto simp: find_None_iff find_Some_iff split: option.splits)
qed

lemma local_pass_snd:
  assumes "distinct (map ni_local is)" "i \<in> set is"
  shows "map_of (snd (local_pass alnum is)) (ni_local i) = Some (declared alnum i)"
proof -
  have eq: "snd (local_pass alnum is)
      = fold (\<lambda>(k, v). AList.update k v) (map (\<lambda>i. (ni_local i, declared alnum i)) is) []"
    by (simp add: local_pass_def fold_pair fold_map comp_def)
  have ok: "hm_ok ([] :: (string \<times> string) list)" by (simp add: hm_ok_def)
  show ?thesis
    unfolding eq hm.lookup_insert_all [OF ok] map_of_rev_keyed [OF assms(1)]
      find_distinct [OF assms] by simp
qed

lemma local_pass_snd_dom:
  assumes "distinct (map ni_local is)"
  shows "map_of (snd (local_pass alnum is)) s \<noteq> None \<longleftrightarrow> s \<in> ni_local ` set is"
proof -
  have eq: "snd (local_pass alnum is)
      = fold (\<lambda>(k, v). AList.update k v) (map (\<lambda>i. (ni_local i, declared alnum i)) is) []"
    by (simp add: local_pass_def fold_pair fold_map comp_def)
  have ok: "hm_ok ([] :: (string \<times> string) list)" by (simp add: hm_ok_def)
  show ?thesis
    unfolding eq hm.lookup_insert_all [OF ok] map_of_rev_keyed [OF assms]
    by (auto simp: find_None_iff find_Some_iff split: option.splits)
qed

definition claimers :: "(string \<Rightarrow> bool) \<Rightarrow> name_input list \<Rightarrow> string \<Rightarrow> string list" where
  "claimers alnum is c =
     map ni_local (filter (\<lambda>i. declared alnum i = c \<and> c \<noteq> ni_local i) is)"

lemma collect_claims_eq:
  assumes "\<forall>i \<in> set is. map_of canonical_of (ni_local i) = Some (declared alnum i)"
  shows "bt_ok (collect_claims canonical_of is)
    \<and> map_of (collect_claims canonical_of is) c =
        (if claimers alnum is c = [] then None else Some (claimers alnum is c))"
  using assms
proof (induction "is" arbitrary: c rule: rev_induct)
  case Nil
  then show ?case by (simp add: collect_claims_def bt_ok_def claimers_def)
next
  case (snoc i "is")
  let ?cl = "collect_claims canonical_of is" and ?d = "declared alnum i"
  have ih: "bt_ok ?cl"
    "\<And>c. map_of ?cl c = (if claimers alnum is c = [] then None else Some (claimers alnum is c))"
    using snoc by auto
  have step: "collect_claims canonical_of (is @ [i]) =
      (if ?d \<noteq> ni_local i
       then bt_insert ?d ((case map_of ?cl ?d of Some ls \<Rightarrow> ls | None \<Rightarrow> []) @ [ni_local i]) ?cl
       else ?cl)"
    using snoc.prems by (simp add: collect_claims_def Let_def)
  show ?case
    unfolding step using ih by (auto simp: claimers_def bt_ok_insert map_of_bt_insert)
qed

lemma settle_claims_eq:
  defines "free sp claims \<equiv> filter (\<lambda>c. map_of sp (fst c) = None) claims"
  shows "cs_shadowed (settle_claims sp claims)
           = concat (map snd (filter (\<lambda>c. map_of sp (fst c) \<noteq> None) claims))"
    and "set (cs_contested (settle_claims sp claims))
           = fst ` set (filter (\<lambda>c. 1 < length (snd c)) (free sp claims))"
    and "cs_conflicts (settle_claims sp claims) =
           map (\<lambda>c. \<lparr>cf_name = fst c, cf_claimants = snd c\<rparr>)
             (filter (\<lambda>c. 1 < length (snd c)) (free sp claims))"
    and "cs_granted (settle_claims sp claims) =
           map (\<lambda>c. (fst c, hd (snd c))) (filter (\<lambda>c. \<not> 1 < length (snd c)) (free sp claims))"
proof -
  have step: "settle_claims sp (claims @ [c]) = settle_claim sp c (settle_claims sp claims)" for c claims
    by (simp add: settle_claims_def)
  have nil: "settle_claims sp [] = \<lparr>cs_shadowed = [], cs_contested = [], cs_conflicts = [], cs_granted = []\<rparr>"
    by (simp add: settle_claims_def)
  note rules = step nil settle_claim_def Let_def free_def
  show "cs_shadowed (settle_claims sp claims)
           = concat (map snd (filter (\<lambda>c. map_of sp (fst c) \<noteq> None) claims))"
    by (induction claims rule: rev_induct) (simp_all add: rules)
  show "set (cs_contested (settle_claims sp claims))
           = fst ` set (filter (\<lambda>c. 1 < length (snd c)) (free sp claims))"
    by (induction claims rule: rev_induct) (auto simp add: rules)
  show "cs_conflicts (settle_claims sp claims) =
           map (\<lambda>c. \<lparr>cf_name = fst c, cf_claimants = snd c\<rparr>)
             (filter (\<lambda>c. 1 < length (snd c)) (free sp claims))"
    by (induction claims rule: rev_induct) (simp_all add: rules)
  show "cs_granted (settle_claims sp claims) =
           map (\<lambda>c. (fst c, hd (snd c))) (filter (\<lambda>c. \<not> 1 < length (snd c)) (free sp claims))"
    by (induction claims rule: rev_induct) (simp_all add: rules)
qed

definition own_list :: "(string \<Rightarrow> bool) \<Rightarrow> name_input \<Rightarrow> string list" where
  "own_list alnum i = fst (own_aliases (ni_local i) (declared alnum i) (ni_aliases i) [] [])"

lemma own_aliases_foldl:
  "fst (own_aliases l c as own cl) =
     foldl (\<lambda>own a. if a = l \<or> a = c \<or> a \<in> set own then own else own @ [a]) own as"
  by (induction l c as own cl rule: own_aliases.induct) simp_all

lemma own_aliases_fst: "fst (own_aliases l c as own cl) = own_list' \<Longrightarrow> fst (own_aliases l c as own []) = own_list'"
  by (simp add: own_aliases_foldl)

lemma own_aliases_facts:
  "distinct own \<Longrightarrow>
     distinct (fst (own_aliases l c as own cl))
     \<and> set (fst (own_aliases l c as own cl)) = set own \<union> {a \<in> set as. a \<noteq> l \<and> a \<noteq> c}
     \<and> map_of (snd (own_aliases l c as own cl)) a =
         (if a \<in> set as \<and> a \<noteq> l \<and> a \<noteq> c \<and> a \<notin> set own
          then Some ((case map_of cl a of Some n \<Rightarrow> n | None \<Rightarrow> 0) + 1) else map_of cl a)"
  by (induction l c as own cl rule: own_aliases.induct) (auto simp: update_conv')

lemma own_list_facts:
  "distinct (own_list alnum i)"
  "set (own_list alnum i) = {a \<in> set (ni_aliases i). a \<noteq> ni_local i \<and> a \<noteq> declared alnum i}"
  using own_aliases_facts [of "[]"] by (simp_all add: own_list_def)

definition aliasers :: "(string \<Rightarrow> bool) \<Rightarrow> name_input list \<Rightarrow> string \<Rightarrow> string list" where
  "aliasers alnum is a = map ni_local (filter (\<lambda>i. a \<in> set (own_list alnum i)) is)"

lemma list_aliases_eq:
  assumes "\<forall>i \<in> set is. map_of canonical_of (ni_local i) = Some (declared alnum i)"
  shows "fst (list_aliases canonical_of is listed cl) = listed @ map (\<lambda>i. (ni_local i, own_list alnum i)) is
    \<and> (case map_of (snd (list_aliases canonical_of is listed cl)) a of Some n \<Rightarrow> n | None \<Rightarrow> 0)
        = length (aliasers alnum is a) + (case map_of cl a of Some n \<Rightarrow> n | None \<Rightarrow> 0)"
  using assms
proof (induction "is" arbitrary: listed cl)
  case Nil
  then show ?case by (simp add: aliasers_def)
next
  case (Cons i "is")
  let ?o = "own_aliases (ni_local i) (declared alnum i) (ni_aliases i) [] cl"
  have step: "list_aliases canonical_of (i # is) listed cl
      = list_aliases canonical_of is (listed @ [(ni_local i, own_list alnum i)]) (snd ?o)"
    using Cons.prems own_aliases_fst [OF refl, of "ni_local i" "declared alnum i" "ni_aliases i" "[]" cl]
    by (simp add: own_list_def split_beta Let_def)
  have cnt: "(case map_of (snd ?o) a of Some n \<Rightarrow> n | None \<Rightarrow> 0)
      = (if a \<in> set (own_list alnum i) then 1 else 0) + (case map_of cl a of Some n \<Rightarrow> n | None \<Rightarrow> 0)"
    using own_aliases_facts [of "[]"] by (auto simp: own_list_facts)
  have prem: "\<forall>i \<in> set is. map_of canonical_of (ni_local i) = Some (declared alnum i)"
    using Cons.prems by simp
  show ?case
    unfolding step using Cons.IH [OF prem] cnt by (simp add: aliasers_def)
qed

lemma settle_aliases_eq:
  fixes held :: "string \<Rightarrow> string option option"
  assumes "distinct (map fst listed)"
  defines "s \<equiv> fold (settle_aliases held) listed \<lparr>as_granted = [], as_effective = [], as_dropped = []\<rparr>"
  shows "as_granted s = concat (map (\<lambda>e. map (\<lambda>a. (a, fst e)) (filter (\<lambda>a. held a = None) (snd e))) listed)"
    and "map_of (as_effective s) l = map_option (filter (\<lambda>a. held a = None)) (map_of listed l)"
    and "as_dropped s = concat (map (\<lambda>e. map (\<lambda>a. \<lparr>da_domain = fst e, da_alias = a, da_held_by = the (held a)\<rparr>)
           (filter (\<lambda>a. held a \<noteq> None) (snd e))) listed)"
proof -
  show "as_granted s = concat (map (\<lambda>e. map (\<lambda>a. (a, fst e)) (filter (\<lambda>a. held a = None) (snd e))) listed)"
    unfolding s_def by (induction listed rule: rev_induct) (simp_all add: settle_aliases_def Let_def)
  show "as_dropped s = concat (map (\<lambda>e. map (\<lambda>a. \<lparr>da_domain = fst e, da_alias = a, da_held_by = the (held a)\<rparr>)
           (filter (\<lambda>a. held a \<noteq> None) (snd e))) listed)"
    unfolding s_def by (induction listed rule: rev_induct) (simp_all add: settle_aliases_def Let_def)
  show "map_of (as_effective s) l = map_option (filter (\<lambda>a. held a = None)) (map_of listed l)"
    using assms(1) unfolding s_def
  proof (induction listed rule: rev_induct)
    case (snoc e es)
    then have "map_of es (fst e) = None" by (auto simp: map_of_eq_None_iff)
    with snoc show ?case
      by (cases e) (auto simp: settle_aliases_def Let_def update_conv' map_add_def split: option.splits)
  qed simp
qed

section \<open>The precedence, without the passes\<close>

definition claim_set :: "(string \<Rightarrow> bool) \<Rightarrow> name_input set \<Rightarrow> string \<Rightarrow> string set" where
  "claim_set alnum E s = ni_local ` {i \<in> E. declared alnum i = s \<and> s \<noteq> ni_local i}"

definition alias_set :: "(string \<Rightarrow> bool) \<Rightarrow> name_input set \<Rightarrow> string \<Rightarrow> string set" where
  "alias_set alnum E s =
     ni_local ` {i \<in> E. s \<in> set (ni_aliases i) \<and> s \<noteq> ni_local i \<and> s \<noteq> declared alnum i}"

definition owns :: "(string \<Rightarrow> bool) \<Rightarrow> name_input set \<Rightarrow> string \<Rightarrow> string \<Rightarrow> bool" where
  "owns alnum E s l \<longleftrightarrow>
     (if s \<in> ni_local ` E then l = s
      else if claim_set alnum E s = {} then alias_set alnum E s = {l}
      else claim_set alnum E s = {l})"

lemma owns_functional: "owns alnum E s l \<Longrightarrow> owns alnum E s l' \<Longrightarrow> l = l'"
  by (auto simp: owns_def split: if_splits)

lemma extend_map_lookup:
  assumes "bt_ok sp" and fn: "\<And>k v v'. (k, v) \<in> set g \<Longrightarrow> (k, v') \<in> set g \<Longrightarrow> v = v'"
  shows "map_of (extend_map g sp) k = Some v \<longleftrightarrow>
      (k, v) \<in> set g \<or> (k \<notin> fst ` set g \<and> map_of sp k = Some v)"
proof (cases "map_of (rev g) k")
  case None
  then have "k \<notin> fst ` set g" by (simp add: map_of_eq_None_iff)
  moreover from this have "(k, v) \<notin> set g" by force
  ultimately show ?thesis
    using None by (simp add: extend_map_def bt.lookup_insert_all [OF assms(1)])
next
  case (Some w)
  then have w: "(k, w) \<in> set g" using map_of_SomeD by fastforce
  then have "(k, v) \<in> set g \<longleftrightarrow> v = w" "k \<in> fst ` set g" using fn by (blast, force)
  then show ?thesis
    using Some by (auto simp: extend_map_def bt.lookup_insert_all [OF assms(1)])
qed

lemma bt_ok_extend: "bt_ok sp \<Longrightarrow> bt_ok (extend_map g sp)"
  unfolding extend_map_def by (rule bt.ok_insert_all)

lemma distinct_claimers: "distinct (map ni_local is) \<Longrightarrow> distinct (claimers alnum is c)"
  by (simp add: claimers_def distinct_map_filter)

lemma set_claimers: "set (claimers alnum is c) = claim_set alnum (set is) c"
  by (auto simp: claimers_def claim_set_def)

lemma distinct_aliasers: "distinct (map ni_local is) \<Longrightarrow> distinct (aliasers alnum is c)"
  by (simp add: aliasers_def distinct_map_filter)

lemma set_aliasers: "set (aliasers alnum is c) = alias_set alnum (set is) c"
  by (auto simp: aliasers_def alias_set_def own_list_facts)

lemma single_list: "distinct xs \<Longrightarrow> xs \<noteq> [] \<Longrightarrow> \<not> 1 < length xs \<longleftrightarrow> set xs = {hd xs}"
  by (cases xs; cases "tl xs") auto

lemma distinct_singleton: "distinct xs \<Longrightarrow> set xs = {x} \<longleftrightarrow> xs = [x]"
  by (cases xs; cases "tl xs") auto

text \<open>The table's intermediate values, over one sorted input list.\<close>

definition t_locals where "t_locals alnum is = fst (local_pass alnum is)"
definition t_canon where "t_canon alnum is = snd (local_pass alnum is)"
definition t_claims where
  "t_claims alnum is = settle_claims (t_locals alnum is) (collect_claims (t_canon alnum is) is)"
definition t_spellings where
  "t_spellings alnum is = extend_map (cs_granted (t_claims alnum is)) (t_locals alnum is)"
definition t_listed where "t_listed alnum is = list_aliases (t_canon alnum is) is [] []"
definition t_held where
  "t_held alnum is = held_by (t_spellings alnum is) (cs_contested (t_claims alnum is)) (snd (t_listed alnum is))"
definition t_state where
  "t_state alnum is = fold (settle_aliases (t_held alnum is)) (fst (t_listed alnum is))
     \<lparr>as_granted = [], as_effective = [], as_dropped = []\<rparr>"

lemmas t_defs = t_locals_def t_canon_def t_claims_def t_spellings_def t_listed_def t_held_def t_state_def

lemma build_sorted_eq:
  "build_sorted alnum is =
     \<lparr>nt_spellings = extend_map (as_granted (t_state alnum is)) (t_spellings alnum is),
      nt_canonical_of = t_canon alnum is,
      nt_shadowed = cs_shadowed (t_claims alnum is),
      nt_effective_aliases = as_effective (t_state alnum is),
      nt_conflicts = cs_conflicts (t_claims alnum is),
      nt_dropped_aliases = sort_key (\<lambda>d. (da_domain d, da_alias d)) (as_dropped (t_state alnum is))\<rparr>"
  unfolding build_sorted_def t_defs Let_def split_beta by simp

lemma t_canon_declared:
  assumes "distinct (map ni_local is)"
  shows "\<forall>i \<in> set is. map_of (t_canon alnum is) (ni_local i) = Some (declared alnum i)"
  using local_pass_snd [OF assms] by (simp add: t_canon_def)

lemma claims_entry:
  assumes d: "distinct (map ni_local is)"
  shows "(c, ls) \<in> set (collect_claims (t_canon alnum is) is)
      \<longleftrightarrow> ls = claimers alnum is c \<and> claimers alnum is c \<noteq> []"
proof -
  note c = collect_claims_eq [OF t_canon_declared [OF d]]
  have "(c, ls) \<in> set (collect_claims (t_canon alnum is) is)
      \<longleftrightarrow> map_of (collect_claims (t_canon alnum is) is) c = Some ls"
    using c bt_ok_hm_ok by (metis hm_ok_def map_of_eq_Some_iff)
  also have "\<dots> \<longleftrightarrow> ls = claimers alnum is c \<and> claimers alnum is c \<noteq> []"
    using c by auto
  finally show ?thesis .
qed

lemma t_locals_lookup:
  assumes "distinct (map ni_local is)"
  shows "map_of (t_locals alnum is) s = (if s \<in> ni_local ` set is then Some s else None)"
    "bt_ok (t_locals alnum is)"
  using local_pass_fst [OF assms] by (simp_all add: t_locals_def)

lemma t_granted:
  assumes d: "distinct (map ni_local is)"
  shows "(k, v) \<in> set (cs_granted (t_claims alnum is)) \<longleftrightarrow>
      k \<notin> ni_local ` set is \<and> claim_set alnum (set is) k = {v}"
proof -
  let ?C = "collect_claims (t_canon alnum is) is"
  have "(k, v) \<in> set (cs_granted (t_claims alnum is)) \<longleftrightarrow>
      (\<exists>ls. (k, ls) \<in> set ?C \<and> map_of (t_locals alnum is) k = None \<and> \<not> 1 < length ls \<and> v = hd ls)"
    unfolding t_claims_def settle_claims_eq by force
  also have "\<dots> \<longleftrightarrow> k \<notin> ni_local ` set is \<and> set (claimers alnum is k) = {v}"
    using distinct_singleton [OF distinct_claimers [OF d], of alnum k v]
    by (cases "claimers alnum is k"; cases "tl (claimers alnum is k)")
       (auto simp: claims_entry [OF d] t_locals_lookup [OF d] split: if_splits)
  finally show ?thesis by (simp add: set_claimers)
qed

lemma t_contested:
  assumes d: "distinct (map ni_local is)"
  shows "k \<in> set (cs_contested (t_claims alnum is)) \<longleftrightarrow>
      k \<notin> ni_local ` set is \<and> claim_set alnum (set is) k \<noteq> {} \<and> (\<nexists>v. claim_set alnum (set is) k = {v})"
proof -
  let ?C = "collect_claims (t_canon alnum is) is"
  have "k \<in> set (cs_contested (t_claims alnum is)) \<longleftrightarrow>
      (\<exists>ls. (k, ls) \<in> set ?C \<and> map_of (t_locals alnum is) k = None \<and> 1 < length ls)"
    unfolding t_claims_def settle_claims_eq by force
  also have "\<dots> \<longleftrightarrow> k \<notin> ni_local ` set is \<and> claimers alnum is k \<noteq> [] \<and> 1 < length (claimers alnum is k)"
    by (auto simp: claims_entry [OF d] t_locals_lookup [OF d] split: if_splits)
  also have "\<dots> \<longleftrightarrow> k \<notin> ni_local ` set is \<and> set (claimers alnum is k) \<noteq> {} \<and> (\<nexists>v. set (claimers alnum is k) = {v})"
    using distinct_singleton [OF distinct_claimers [OF d], of alnum k]
    by (cases "claimers alnum is k"; cases "tl (claimers alnum is k)") auto
  finally show ?thesis by (simp add: set_claimers)
qed

lemma t_spellings_lookup:
  assumes d: "distinct (map ni_local is)"
  shows "map_of (t_spellings alnum is) s = Some l \<longleftrightarrow>
      (if s \<in> ni_local ` set is then l = s else claim_set alnum (set is) s = {l})"
  unfolding t_spellings_def
  by (subst extend_map_lookup [OF t_locals_lookup(2) [OF d]])
     (auto simp: t_granted [OF d] t_locals_lookup(1) [OF d] image_iff split: if_splits)

lemma t_held_None:
  assumes d: "distinct (map ni_local is)" and a: "alias_set alnum (set is) a \<noteq> {}"
  shows "t_held alnum is a = None \<longleftrightarrow>
      a \<notin> ni_local ` set is \<and> claim_set alnum (set is) a = {} \<and> (\<exists>l. alias_set alnum (set is) a = {l})"
proof -
  let ?n = "length (aliasers alnum is a)"
  have ne: "aliasers alnum is a \<noteq> []" using a set_aliasers [of alnum "is" a] by auto
  have "(case map_of (snd (t_listed alnum is)) a of Some n \<Rightarrow> n | None \<Rightarrow> 0) = ?n"
    using list_aliases_eq [OF t_canon_declared [OF d], of alnum "[]" "[]" a] by (simp add: t_listed_def)
  then have n: "the (map_of (snd (t_listed alnum is)) a) = ?n"
    using ne by (auto split: option.splits)
  have one: "\<not> 1 < ?n \<longleftrightarrow> (\<exists>l. alias_set alnum (set is) a = {l})"
    using single_list [OF distinct_aliasers [OF d] ne] distinct_singleton [OF distinct_aliasers [OF d], of alnum a]
    by (auto simp: set_aliasers)
  have sp: "map_of (t_spellings alnum is) a = None \<longleftrightarrow>
      a \<notin> ni_local ` set is \<and> (\<nexists>l. claim_set alnum (set is) a = {l})"
    using t_spellings_lookup [OF d, of alnum a]
    by (cases "a \<in> ni_local ` set is"; cases "map_of (t_spellings alnum is) a") (simp_all, blast+)
  show ?thesis
    using sp one unfolding t_held_def held_by_def n
    by (auto simp: t_contested [OF d] split: option.splits)
qed

lemma t_listed_eq:
  assumes d: "distinct (map ni_local is)"
  shows "fst (t_listed alnum is) = map (\<lambda>i. (ni_local i, own_list alnum i)) is"
    "distinct (map fst (fst (t_listed alnum is)))"
proof -
  show "fst (t_listed alnum is) = map (\<lambda>i. (ni_local i, own_list alnum i)) is"
    using list_aliases_eq [OF t_canon_declared [OF d], of alnum "[]" "[]"] by (simp add: t_listed_def)
  then show "distinct (map fst (fst (t_listed alnum is)))" using d by (simp add: comp_def)
qed

lemma t_alias_granted:
  assumes d: "distinct (map ni_local is)"
  shows "(a, l) \<in> set (as_granted (t_state alnum is)) \<longleftrightarrow>
      a \<notin> ni_local ` set is \<and> claim_set alnum (set is) a = {} \<and> alias_set alnum (set is) a = {l}"
proof -
  have "(a, l) \<in> set (as_granted (t_state alnum is)) \<longleftrightarrow>
      (\<exists>i \<in> set is. l = ni_local i \<and> a \<in> set (own_list alnum i) \<and> t_held alnum is a = None)"
    unfolding t_state_def settle_aliases_eq(1) [OF t_listed_eq(2) [OF d]]
    by (auto simp: t_listed_eq(1) [OF d])
  also have "\<dots> \<longleftrightarrow> l \<in> alias_set alnum (set is) a \<and> t_held alnum is a = None"
    by (auto simp: alias_set_def own_list_facts)
  finally show ?thesis using t_held_None [OF d, of alnum a] by (cases "alias_set alnum (set is) a = {}") auto
qed

lemma build_sorted_resolve:
  assumes d: "distinct (map ni_local is)"
  shows "nt_resolve (build_sorted alnum is) s = Some l \<longleftrightarrow> owns alnum (set is) s l"
proof -
  have ok: "bt_ok (t_spellings alnum is)"
    unfolding t_spellings_def by (rule bt_ok_extend) (rule t_locals_lookup(2) [OF d])
  have fn: "v = v'" if "(k, v) \<in> set (as_granted (t_state alnum is))" "(k, v') \<in> set (as_granted (t_state alnum is))" for k v v'
    using that by (auto simp: t_alias_granted [OF d])
  have "nt_resolve (build_sorted alnum is) s = Some l \<longleftrightarrow>
      (s, l) \<in> set (as_granted (t_state alnum is))
      \<or> (s \<notin> fst ` set (as_granted (t_state alnum is)) \<and> map_of (t_spellings alnum is) s = Some l)"
    unfolding nt_resolve_def build_sorted_eq by (simp add: extend_map_lookup [OF ok fn])
  also have "\<dots> \<longleftrightarrow> owns alnum (set is) s l"
    by (auto simp: t_alias_granted [OF d] t_spellings_lookup [OF d] owns_def image_iff split: if_splits)
  finally show ?thesis .
qed

lemma build_resolve: "nt_resolve (build alnum inputs) s = Some l \<longleftrightarrow> owns alnum (entries inputs) s l"
  using build_sorted_resolve [OF distinct_sorted_inputs] by (simp add: build_def set_sorted_inputs)

lemma build_canonical:
  "i \<in> entries inputs \<Longrightarrow> nt_canonical (build alnum inputs) (ni_local i) = Some (declared alnum i)"
  "nt_canonical (build alnum inputs) l = Some c \<Longrightarrow>
     \<exists>i \<in> entries inputs. ni_local i = l \<and> c = declared alnum i"
proof -
  let ?is = "sorted_inputs inputs"
  note d = distinct_sorted_inputs [of inputs]
  show 1: "nt_canonical (build alnum inputs) (ni_local i) = Some (declared alnum i)" if "i \<in> entries inputs" for i
    using t_canon_declared [OF d] that by (simp add: nt_canonical_def build_def build_sorted_eq set_sorted_inputs)
  assume c: "nt_canonical (build alnum inputs) l = Some c"
  then have "l \<in> ni_local ` set ?is"
    using local_pass_snd_dom [OF d] by (auto simp: nt_canonical_def build_def build_sorted_eq t_canon_def)
  then obtain i where "i \<in> entries inputs" "l = ni_local i" by (auto simp: set_sorted_inputs)
  with 1 c show "\<exists>i \<in> entries inputs. ni_local i = l \<and> c = declared alnum i" by auto
qed

lemma build_effective:
  assumes "i \<in> entries inputs"
  shows "a \<in> set (effective_aliases (build alnum inputs) (ni_local i)) \<longleftrightarrow>
      a \<in> set (own_list alnum i) \<and> t_held alnum (sorted_inputs inputs) a = None"
proof -
  let ?is = "sorted_inputs inputs"
  note d = distinct_sorted_inputs [of inputs]
  have "i \<in> set ?is" using assms by (simp add: set_sorted_inputs)
  then have "map_of (map (\<lambda>i. (ni_local i, own_list alnum i)) ?is) (ni_local i) = Some (own_list alnum i)"
    using d by (intro map_of_is_SomeI) (auto simp: comp_def)
  then have "map_of (as_effective (t_state alnum ?is)) (ni_local i)
      = Some (filter (\<lambda>a. t_held alnum ?is a = None) (own_list alnum i))"
    unfolding t_state_def settle_aliases_eq(2) [OF t_listed_eq(2) [OF d]]
    by (simp add: t_listed_eq(1) [OF d])
  then show ?thesis by (auto simp: effective_aliases_def build_def build_sorted_eq)
qed

lemma build_dropped:
  "x \<in> set (nt_dropped_aliases (build alnum inputs)) \<longleftrightarrow>
     (\<exists>i \<in> entries inputs. \<exists>a \<in> set (own_list alnum i). \<exists>h. t_held alnum (sorted_inputs inputs) a = Some h
        \<and> x = \<lparr>da_domain = ni_local i, da_alias = a, da_held_by = h\<rparr>)"
proof -
  let ?is = "sorted_inputs inputs"
  note d = distinct_sorted_inputs [of inputs]
  have "set (nt_dropped_aliases (build alnum inputs)) = set (as_dropped (t_state alnum ?is))"
    by (simp add: build_def build_sorted_eq)
  then show ?thesis
    unfolding t_state_def settle_aliases_eq(3) [OF t_listed_eq(2) [OF d]]
    by (auto simp: t_listed_eq(1) [OF d] set_sorted_inputs image_iff)
qed

text \<open>An alias that is held is held by whoever its spelling resolves to.\<close>

lemma held_is_resolution:
  assumes "t_held alnum (sorted_inputs inputs) a = Some h"
    and i: "i \<in> entries inputs" "a \<in> set (own_list alnum i)"
  shows "h = nt_resolve (build alnum inputs) a" "h \<noteq> Some (ni_local i)"
proof -
  let ?is = "sorted_inputs inputs"
  note d = distinct_sorted_inputs [of inputs]
  have ne: "ni_local i \<in> alias_set alnum (set ?is) a"
    using i by (auto simp: alias_set_def own_list_facts set_sorted_inputs)
  have h: "h = map_of (t_spellings alnum ?is) a"
    using assms(1) by (auto simp: t_held_def held_by_def split: option.splits if_splits)
  have nn: "\<not> (a \<notin> ni_local ` set ?is \<and> claim_set alnum (set ?is) a = {} \<and> (\<exists>l. alias_set alnum (set ?is) a = {l}))"
    using t_held_None [OF d, of alnum a] ne assms(1) by auto
  have "nt_resolve (build alnum inputs) a = Some l \<longleftrightarrow> map_of (t_spellings alnum ?is) a = Some l" for l
    using nn unfolding build_resolve t_spellings_lookup [OF d] by (auto simp: owns_def set_sorted_inputs)
  then show eq: "h = nt_resolve (build alnum inputs) a" unfolding h by (metis not_None_eq)
  show "h \<noteq> Some (ni_local i)"
  proof
    assume "h = Some (ni_local i)"
    then have "if a \<in> ni_local ` set ?is then ni_local i = a else claim_set alnum (set ?is) a = {ni_local i}"
      unfolding h t_spellings_lookup [OF d] .
    then have "ni_local i \<in> claim_set alnum (entries inputs) a"
      using i by (auto simp: own_list_facts set_sorted_inputs split: if_splits)
    then obtain j where j: "j \<in> entries inputs" "ni_local j = ni_local i" "declared alnum j = a"
      by (auto simp: claim_set_def)
    moreover have "j = i" using d j(1,2) i(1) by (auto simp: distinct_map set_sorted_inputs dest: inj_onD)
    ultimately show False using i by (simp add: own_list_facts)
  qed
qed

section \<open>Properties\<close>

text \<open>
  C23: the three passes implement the stated precedence. A spelling resolves to a domain
  exactly when it is that domain's local name; or no local name, and that domain alone
  declares it as its canonical name; or neither, and that domain alone lists it as an
  alias. A canonical name two domains claim resolves nowhere.
\<close>

theorem resolve_by_precedence:
  "nt_resolve (build alnum inputs) s = Some l \<longleftrightarrow>
     (let E = entries inputs in
      if s \<in> ni_local ` E then l = s
      else if claim_set alnum E s = {} then alias_set alnum E s = {l}
      else claim_set alnum E s = {l})"
  unfolding build_resolve owns_def Let_def ..

text \<open>
  C29: the table does not depend on the order of the inputs. Two input lists whose first
  entry for each local name is the same build the same table, whatever else they hold
  and in whatever order.
\<close>

theorem build_order_independent:
  assumes "\<And>k. find (\<lambda>i. ni_local i = k) inputs = find (\<lambda>i. ni_local i = k) inputs'"
  shows "build alnum inputs = build alnum inputs'"
proof -
  have "entries inputs = entries inputs'" by (simp add: entries_def assms)
  then have "sorted_inputs inputs = sorted_inputs inputs'" by (rule sorted_inputs_cong)
  then show ?thesis by (simp add: build_def)
qed

theorem build_order_independent_witness:
  "build (\<lambda>c. True)
     [\<lparr>ni_local = ''eng'', ni_canonical = Some ''ops'', ni_aliases = [''x'']\<rparr>,
      \<lparr>ni_local = ''ops'', ni_canonical = None, ni_aliases = []\<rparr>]
   = build (\<lambda>c. True)
     [\<lparr>ni_local = ''ops'', ni_canonical = None, ni_aliases = []\<rparr>,
      \<lparr>ni_local = ''eng'', ni_canonical = Some ''ops'', ni_aliases = [''x'']\<rparr>,
      \<lparr>ni_local = ''ops'', ni_canonical = None, ni_aliases = [''y'']\<rparr>]"
  by (rule build_order_independent) auto

text \<open>
  Every alias is accounted for. An alias a registered domain lists (other than its
  own names) either resolves to that domain and is among its effective aliases, or is
  reported dropped with the domain its spelling resolves to (or with none when it
  resolves nowhere), and never both.
\<close>

theorem alias_accounted:
  assumes "i \<in> entries inputs" "a \<in> set (ni_aliases i)" "a \<noteq> ni_local i" "a \<noteq> declared alnum i"
  defines "t \<equiv> build alnum inputs"
  shows "(a \<in> set (effective_aliases t (ni_local i)) \<longleftrightarrow> nt_resolve t a = Some (ni_local i))
    \<and> (a \<notin> set (effective_aliases t (ni_local i)) \<longleftrightarrow>
         (\<exists>x \<in> set (nt_dropped_aliases t). da_domain x = ni_local i \<and> da_alias x = a))
    \<and> (\<forall>x \<in> set (nt_dropped_aliases t). da_alias x = a \<longrightarrow> da_held_by x = nt_resolve t a)"
proof -
  let ?is = "sorted_inputs inputs" and ?h = "t_held alnum (sorted_inputs inputs) a"
  note d = distinct_sorted_inputs [of inputs]
  have own: "a \<in> set (own_list alnum i)" using assms(2-4) by (simp add: own_list_facts)
  then have ne: "ni_local i \<in> alias_set alnum (set ?is) a"
    using assms(1) by (auto simp: alias_set_def own_list_facts set_sorted_inputs)
  have eff: "a \<in> set (effective_aliases t (ni_local i)) \<longleftrightarrow> ?h = None"
    using build_effective [OF assms(1)] own by (simp add: t_def)
  have res: "nt_resolve t a = Some (ni_local i)" if n: "?h = None"
  proof -
    obtain l where "a \<notin> ni_local ` set ?is" "claim_set alnum (set ?is) a = {}" "alias_set alnum (set ?is) a = {l}"
      using n t_held_None [OF d, of alnum a] ne by blast
    with ne show ?thesis by (auto simp: t_def build_resolve owns_def set_sorted_inputs)
  qed
  have nres: "nt_resolve t a \<noteq> Some (ni_local i)" if "?h = Some h" for h
    using held_is_resolution [OF that assms(1) own] by (simp add: t_def)
  have c1: "a \<in> set (effective_aliases t (ni_local i)) \<longleftrightarrow> nt_resolve t a = Some (ni_local i)"
    using eff res nres by (cases ?h) auto
  have c2: "a \<notin> set (effective_aliases t (ni_local i)) \<longleftrightarrow>
      (\<exists>x \<in> set (nt_dropped_aliases t). da_domain x = ni_local i \<and> da_alias x = a)"
  proof (cases ?h)
    case None
    then show ?thesis using eff by (auto simp: t_def build_dropped)
  next
    case (Some h)
    then have "\<lparr>da_domain = ni_local i, da_alias = a, da_held_by = h\<rparr> \<in> set (nt_dropped_aliases t)"
      unfolding t_def build_dropped using own assms(1) by blast
    then have "\<exists>x \<in> set (nt_dropped_aliases t). da_domain x = ni_local i \<and> da_alias x = a"
      by (rule bexI [rotated]) simp
    with eff Some show ?thesis by simp
  qed
  have c3: "\<forall>x \<in> set (nt_dropped_aliases t). da_alias x = a \<longrightarrow> da_held_by x = nt_resolve t a"
    using held_is_resolution(1) by (fastforce simp: t_def build_dropped)
  from c1 c2 c3 show ?thesis by blast
qed

theorem alias_accounted_witness:
  "''x'' \<in> set (effective_aliases
       (build (\<lambda>c. True) [\<lparr>ni_local = ''eng'', ni_canonical = None, ni_aliases = [''x'', ''ops'']\<rparr>,
                          \<lparr>ni_local = ''ops'', ni_canonical = None, ni_aliases = []\<rparr>]) ''eng'')
   \<longleftrightarrow> nt_resolve
       (build (\<lambda>c. True) [\<lparr>ni_local = ''eng'', ni_canonical = None, ni_aliases = [''x'', ''ops'']\<rparr>,
                          \<lparr>ni_local = ''ops'', ni_canonical = None, ni_aliases = []\<rparr>]) ''x'' = Some ''eng''"
proof -
  let ?e = "\<lparr>ni_local = ''eng'', ni_canonical = None, ni_aliases = [''x'', ''ops'']\<rparr>"
  let ?is = "[?e, \<lparr>ni_local = ''ops'', ni_canonical = None, ni_aliases = []\<rparr>]"
  have "?e \<in> entries ?is" by (simp add: entries_def)
  then show ?thesis using alias_accounted [of ?e ?is "''x''" "\<lambda>c. True"] by (simp add: declared_def)
qed

text \<open>
  Content never gets a spelling that points elsewhere. What \<open>normalize\<close> writes in
  place of a spelling is another spelling, the declared name of the domain the spelling
  resolves to, resolves to that same domain, and is left alone by \<open>normalize\<close> itself.
\<close>

theorem normalize_sound:
  assumes "normalize (build alnum inputs) s = Some c"
  shows "c \<noteq> s \<and> nt_resolve (build alnum inputs) c = nt_resolve (build alnum inputs) s
    \<and> (\<exists>i \<in> entries inputs. nt_resolve (build alnum inputs) s = Some (ni_local i) \<and> c = declared alnum i)
    \<and> normalize (build alnum inputs) c = None"
proof -
  let ?t = "build alnum inputs"
  obtain l where l: "nt_resolve ?t s = Some l" "nt_canonical ?t l = Some c" "c \<noteq> s" "nt_resolve ?t c = Some l"
    using assms by (auto simp: normalize_def split: option.splits if_splits)
  moreover have "normalize ?t c = None" using l by (simp add: normalize_def)
  ultimately show ?thesis using build_canonical(2) [OF l(2)] by auto
qed

theorem normalize_sound_witness:
  "nt_resolve (build (\<lambda>c. True) [\<lparr>ni_local = ''eng'', ni_canonical = Some ''ops'', ni_aliases = [''x'']\<rparr>]) ''ops''
     = nt_resolve (build (\<lambda>c. True) [\<lparr>ni_local = ''eng'', ni_canonical = Some ''ops'', ni_aliases = [''x'']\<rparr>]) ''x''"
proof -
  have "normalize (build (\<lambda>c. True) [\<lparr>ni_local = ''eng'', ni_canonical = Some ''ops'', ni_aliases = [''x'']\<rparr>]) ''x''
      = Some ''ops''" by code_simp
  from normalize_sound [OF this] show ?thesis by simp
qed

end
