(* ===== verification/RegisterDomains.thy ===== *)
theory RegisterDomains
  imports Names
begin

text \<open>
  \<open>crates/engine/src/registration.rs\<close>: what \<open>crystalline domain add\<close> does to the config,
  by name or by folder, for a file domain and for a virtual one. The config file is its
  domains, in file order; loading it, the environment overlay and the effective config come
  as \<open>loaded_config\<close>. What the machine answers is the record \<open>machine\<close>: the folders, the
  MANIFESTs, whether a save succeeds, and the two best-effort writes, of which the code keeps
  a note only. A registration that does not return is \<open>None\<close>: the search of a free name is a
  loop.
\<close>

section \<open>The machine and the loaded config\<close>

record machine =
  mc_alnum :: "string \<Rightarrow> bool"
  mc_lower :: "string \<Rightarrow> string"
  mc_expand :: "string \<Rightarrow> string"
  mc_canonicalize :: "string \<Rightarrow> string option"
  mc_has_manifest :: "string \<Rightarrow> bool"
  mc_name_at :: "string \<Rightarrow> string option"
  mc_read_only :: "string \<Rightarrow> bool"
  mc_write_back :: "string \<Rightarrow> string \<Rightarrow> string option"
  mc_kept_left :: "string \<Rightarrow> bool"
  mc_set_aside :: "string \<Rightarrow> string option"
  mc_saves :: "(string \<times> domain_entry) list \<Rightarrow> bool"
  mc_manifest_template :: "string \<Rightarrow> string"

record loaded_config =
  lc_file :: "(string \<times> domain_entry) list"
  lc_effective :: "(string \<times> domain_entry) list"
  lc_env :: "(string \<times> string) list"
  lc_domains_root :: string

datatype registering_note = SetAsideFailed string string | NameNotWritten string | WriteBackFailed string string

record registered =
  rg_name :: string
  rg_root :: "string option"
  rg_adopted :: bool
  rg_shadowed :: "string option"
  rg_manifest :: "string option"
  rg_notes :: "registering_note list"

datatype registering_error =
    EnvDefined string string
  | BadName name_problem
  | NoManifest string
  | NameHeld string conflict_reason
  | CaseTwin string string
  | SaveFailed
  | NameOrPathNeeded

section \<open>The two registrations\<close>

definition with_name_origin :: "name_origin \<Rightarrow> domain_entry \<Rightarrow> domain_entry" where
  "with_name_origin origin e = e\<lparr>de_name_origin := Some origin\<rparr>"

definition domain_root_with_manifest :: "machine \<Rightarrow> string \<Rightarrow> registering_error + string" where
  "domain_root_with_manifest M root =
     (if \<not> mc_has_manifest M root then Inl (NoManifest root)
      else Inr (case mc_canonicalize M root of Some p \<Rightarrow> p | None \<Rightarrow> root))"

definition set_aside_orphan :: "machine \<Rightarrow> string \<Rightarrow> string list \<Rightarrow> registering_note list" where
  "set_aside_orphan M name registered =
     (if \<not> mc_kept_left M name then []
      else let folded = fold_domain_name (mc_lower M) name
           in if list_ex (\<lambda>n. fold_domain_name (mc_lower M) n = folded) registered then []
              else (case mc_set_aside M name of Some err \<Rightarrow> [SetAsideFailed name err] | None \<Rightarrow> []))"

definition write_back_manifest_name_if_needed ::
    "machine \<Rightarrow> domain_entry \<Rightarrow> string \<Rightarrow> string \<Rightarrow> registering_note list" where
  "write_back_manifest_name_if_needed M entry root name =
     (if \<not> needs_manifest_write_back entry (mc_name_at M root \<noteq> None) then []
      else if mc_read_only M root then [NameNotWritten name]
      else (case mc_write_back M root name of Some err \<Rightarrow> [WriteBackFailed name err] | None \<Rightarrow> []))"

definition existing_file_domain_at :: "machine \<Rightarrow> string \<Rightarrow> (string \<times> domain_entry) list \<Rightarrow> string option" where
  "existing_file_domain_at M canonical domains =
     map_option fst (find (\<lambda>(name, entry). canonical_root (mc_expand M) (mc_canonicalize M) entry = Some canonical) domains)"

definition build_name_table :: "machine \<Rightarrow> loaded_config \<Rightarrow> name_table" where
  "build_name_table M L =
     build (mc_alnum M)
       (config_name_inputs (mc_expand M) (mc_name_at M) (lc_file L) []
        @ config_name_inputs (mc_expand M) (mc_name_at M) (lc_effective L) [])"

text \<open>A new entry, saved: the registry after it, and the answer.\<close>

definition save_entry ::
    "machine \<Rightarrow> (string \<times> domain_entry) list \<Rightarrow> registered \<Rightarrow> domain_entry
      \<Rightarrow> registering_error + registered \<times> (string \<times> domain_entry) list" where
  "save_entry M domains answer entry =
     (let domains = AList.update (rg_name answer) entry domains
      in if mc_saves M domains then Inr (answer, domains) else Inl SaveFailed)"

definition register_named_file ::
    "machine \<Rightarrow> string \<Rightarrow> string option \<Rightarrow> loaded_config
      \<Rightarrow> registering_error + registered \<times> (string \<times> domain_entry) list" where
  "register_named_file M name path L =
     (case map_of (lc_env L) name of
        Some var \<Rightarrow> Inl (EnvDefined name var)
      | None \<Rightarrow>
          (let existing = map_of (lc_file L) name
           in case (if existing = None then validate_domain_name (mc_alnum M) name else Inr ()) of
                Inl problem \<Rightarrow> Inl (BadName problem)
              | Inr _ \<Rightarrow>
                  (case domain_root_with_manifest M
                          (case path of Some p \<Rightarrow> p | None \<Rightarrow> lc_domains_root L @ ''/'' @ name) of
                     Inl e \<Rightarrow> Inl e
                   | Inr root \<Rightarrow>
                       (case decide_registration (mc_expand M) (mc_canonicalize M) name existing (RequestFile root) of
                          Adopt \<Rightarrow>
                            Inr (\<lparr>rg_name = name, rg_root = Some root, rg_adopted = True, rg_shadowed = None,
                                  rg_manifest = None, rg_notes = []\<rparr>, lc_file L)
                        | Conflict n reason \<Rightarrow> Inl (NameHeld n reason)
                        | Register \<Rightarrow>
                            (case case_twin (mc_lower M) name None (lc_file L) of
                               Some twin \<Rightarrow> Inl (CaseTwin name twin)
                             | None \<Rightarrow>
                                 (let entry = with_name_origin Explicit (file_entry root)
                                  in save_entry M (lc_file L)
                                       \<lparr>rg_name = name, rg_root = Some root, rg_adopted = False, rg_shadowed = None,
                                        rg_manifest = None,
                                        rg_notes = set_aside_orphan M name (map fst (lc_file L))
                                          @ write_back_manifest_name_if_needed M entry root name\<rparr> entry))))))"

text \<open>The name of a registration by folder; \<open>default_name\<close> is only asked when no MANIFEST names the domain.\<close>

definition taken_name :: "machine \<Rightarrow> loaded_config \<Rightarrow> string \<Rightarrow> bool" where
  "taken_name M L c \<longleftrightarrow>
     nt_resolve (build_name_table M L) c \<noteq> None \<or> case_twin (mc_lower M) c None (lc_file L) \<noteq> None"

definition folder_name_choice :: "machine \<Rightarrow> string \<Rightarrow> loaded_config \<Rightarrow> name_choice option" where
  "folder_name_choice M root L =
     (let basename = (case path_file_name root of Some b \<Rightarrow> b | None \<Rightarrow> root);
          manifest_name = mc_name_at M root;
          default_name =
            (if (case manifest_name of Some n \<Rightarrow> valid_name (mc_alnum M) n | None \<Rightarrow> False) then Some []
             else derive_domain_name (mc_alnum M) (mc_lower M) basename (taken_name M L))
      in case default_name of
           None \<Rightarrow> None
         | Some name \<Rightarrow> choose_domain_name (mc_alnum M) None manifest_name name (taken_name M L))"

definition register_folder ::
    "machine \<Rightarrow> string option \<Rightarrow> loaded_config
      \<Rightarrow> (registering_error + registered \<times> (string \<times> domain_entry) list) option" where
  "register_folder M path L =
     (case path of
        None \<Rightarrow> Some (Inl NameOrPathNeeded)
      | Some path \<Rightarrow>
          (case domain_root_with_manifest M path of
             Inl e \<Rightarrow> Some (Inl e)
           | Inr root \<Rightarrow>
               (case existing_file_domain_at M root (lc_file L) of
                  Some name \<Rightarrow>
                    Some (Inr (\<lparr>rg_name = name, rg_root = Some root, rg_adopted = True, rg_shadowed = None,
                                rg_manifest = None, rg_notes = []\<rparr>, lc_file L))
                | None \<Rightarrow>
                    map_option
                      (\<lambda>choice. let entry = with_name_origin (nc_origin choice) (file_entry root)
                        in save_entry M (lc_file L)
                             \<lparr>rg_name = nc_name choice, rg_root = Some root, rg_adopted = False,
                              rg_shadowed = nc_shadowed_canonical choice, rg_manifest = None,
                              rg_notes = set_aside_orphan M (nc_name choice) (map fst (lc_file L))
                                @ write_back_manifest_name_if_needed M entry root (nc_name choice)\<rparr> entry)
                      (folder_name_choice M root L))))"

definition register_file_domain ::
    "machine \<Rightarrow> string option \<Rightarrow> string option \<Rightarrow> loaded_config
      \<Rightarrow> (registering_error + registered \<times> (string \<times> domain_entry) list) option" where
  "register_file_domain M name path L =
     (case name of Some name \<Rightarrow> Some (register_named_file M name path L) | None \<Rightarrow> register_folder M path L)"

definition register_virtual_domain ::
    "machine \<Rightarrow> string \<Rightarrow> loaded_config \<Rightarrow> registering_error + registered \<times> (string \<times> domain_entry) list" where
  "register_virtual_domain M name L =
     (case map_of (lc_env L) name of
        Some var \<Rightarrow> Inl (EnvDefined name var)
      | None \<Rightarrow>
          (let answer = \<lambda>adopted notes. \<lparr>rg_name = name, rg_root = None, rg_adopted = adopted, rg_shadowed = None,
                 rg_manifest = Some (mc_manifest_template M name), rg_notes = notes\<rparr>
           in case decide_registration (mc_expand M) (mc_canonicalize M) name (map_of (lc_file L) name) RequestVirtual of
                Adopt \<Rightarrow> Inr (answer True [], lc_file L)
              | Conflict n reason \<Rightarrow> Inl (NameHeld n reason)
              | Register \<Rightarrow>
                  (case validate_domain_name (mc_alnum M) name of
                     Inl problem \<Rightarrow> Inl (BadName problem)
                   | Inr _ \<Rightarrow>
                       (case case_twin (mc_lower M) name None (lc_file L) of
                          Some twin \<Rightarrow> Inl (CaseTwin name twin)
                        | None \<Rightarrow>
                            save_entry M (lc_file L)
                              (answer False (set_aside_orphan M name (map fst (lc_file L))))
                              (with_name_origin Explicit virtual_entry)))))"

section \<open>What a registration leaves\<close>

text \<open>Two names that fold alike would share one state folder.\<close>

definition no_twins :: "(string \<Rightarrow> string) \<Rightarrow> (string \<times> domain_entry) list \<Rightarrow> bool" where
  "no_twins lower domains \<longleftrightarrow> inj_on lower (fst ` set domains)"

text \<open>
  What a registration that succeeds does: it adopts an entry and leaves the registry as it is,
  or it adds one entry under a name that is valid, free and no case twin of another.
\<close>

definition adopts :: "(string \<times> domain_entry) list \<Rightarrow> registered \<Rightarrow> (string \<times> domain_entry) list \<Rightarrow> bool" where
  "adopts domains answer domains' \<longleftrightarrow>
     rg_adopted answer \<and> domains' = domains \<and> map_of domains (rg_name answer) \<noteq> None"

definition adds ::
    "machine \<Rightarrow> (string \<times> domain_entry) list \<Rightarrow> registered \<Rightarrow> domain_entry \<Rightarrow> (string \<times> domain_entry) list \<Rightarrow> bool" where
  "adds M domains answer e domains' \<longleftrightarrow>
     \<not> rg_adopted answer \<and> map_of domains (rg_name answer) = None \<and> domains' = domains @ [(rg_name answer, e)]
     \<and> valid_name (mc_alnum M) (rg_name answer)
     \<and> (\<forall>n\<in>fst ` set domains. mc_lower M n \<noteq> mc_lower M (rg_name answer))"

lemma update_new: "map_of m k = None \<Longrightarrow> AList.update k v m = m @ [(k, v)]"
  by (induction m) (auto split: if_splits)

lemma case_twin_None:
  "map_of domains name = None \<Longrightarrow> case_twin lower name None domains = None \<Longrightarrow> n \<in> fst ` set domains \<Longrightarrow>
     lower n \<noteq> lower name"
  by (auto simp: case_twin_def Let_def find_None_iff fold_domain_name_def map_of_eq_None_iff)

lemma save_entry_adds:
  assumes "save_entry M domains answer e = Inr (answer', domains')" "map_of domains (rg_name answer) = None"
    "\<not> rg_adopted answer" "valid_name (mc_alnum M) (rg_name answer)" "case_twin (mc_lower M) (rg_name answer) None domains = None"
  shows "answer' = answer \<and> adds M domains answer e domains'"
  using assms case_twin_None [OF assms(2,5)] by (auto simp: save_entry_def adds_def update_new Let_def split: if_splits)

text \<open>A domain the file config holds is in the table the name of a folder is checked against.\<close>

lemma table_holds_names:
  assumes "name \<in> fst ` set (lc_file L)"
  shows "nt_resolve (build_name_table M L) name \<noteq> None"
proof -
  let ?in = "config_name_inputs (mc_expand M) (mc_name_at M) (lc_file L) []
      @ config_name_inputs (mc_expand M) (mc_name_at M) (lc_effective L) []"
  have "name \<in> ni_local ` set ?in"
    using assms by (force simp: config_name_inputs_def)
  then have "name \<in> ni_local ` entries ?in" by (simp add: locals_entries)
  then have "owns (mc_alnum M) (entries ?in) name name" by (simp add: owns_def)
  then show ?thesis using build_resolve [of "mc_alnum M" ?in name name] by (simp add: build_name_table_def)
qed


text \<open>What the search of a free name answers is free, when it answers.\<close>

lemma step_loop_sound: "step_loop usable name n = Some r \<Longrightarrow> usable r"
  by (rule step_loop.raw_induct [of "\<lambda>usable name n r. usable r"]) (auto simp: Let_def split: if_splits)

lemma step_sound: "step_domain_name alnum name taken = Some r \<Longrightarrow> valid_name alnum r \<and> \<not> taken r"
  by (auto simp: step_domain_name_def Let_def dest!: step_loop_sound split: if_splits)

lemma folder_choice_sound:
  assumes "folder_name_choice M root L = Some choice"
  shows "valid_name (mc_alnum M) (nc_name choice)" "\<not> taken_name M L (nc_name choice)"
  using assms
  by (auto simp: folder_name_choice_def choose_domain_name_def derive_domain_name_def Let_def
      dest!: step_sound split: option.splits if_splits)

lemma not_taken:
  "\<not> taken_name M L c \<Longrightarrow> map_of (lc_file L) c = None \<and> case_twin (mc_lower M) c None (lc_file L) = None"
  using table_holds_names [of c L M] by (auto simp: taken_name_def map_of_eq_None_iff)

lemma existing_domain_root:
  assumes "existing_file_domain_at M root domains = Some name" "distinct (map fst domains)"
  shows "\<exists>e. map_of domains name = Some e \<and> canonical_root (mc_expand M) (mc_canonicalize M) e = Some root"
proof -
  obtain e where f: "find (\<lambda>(name, entry). canonical_root (mc_expand M) (mc_canonicalize M) entry = Some root) domains = Some (name, e)"
    using assms(1) by (auto simp: existing_file_domain_at_def)
  then have "(name, e) \<in> set domains" "canonical_root (mc_expand M) (mc_canonicalize M) e = Some root"
    by (auto simp: find_Some_iff in_set_conv_nth)
  then show ?thesis using assms(2) by (auto simp: map_of_eq_Some_iff)
qed


section \<open>One registration\<close>

text \<open>A registration by name or by folder that succeeds.\<close>

lemma named_file_answer:
  assumes "register_named_file M name path L = Inr (a, ds')"
  shows "rg_name a = name \<and> (\<exists>root. rg_root a = Some root
    \<and> domain_root_with_manifest M (case path of Some p \<Rightarrow> p | None \<Rightarrow> lc_domains_root L @ ''/'' @ name) = Inr root
    \<and> (adopts (lc_file L) a ds'
         \<and> (\<exists>e. map_of (lc_file L) name = Some e \<and> \<not> is_virtual e
               \<and> canonical_root (mc_expand M) (mc_canonicalize M) e = Some root)
       \<or> adds M (lc_file L) a (with_name_origin Explicit (file_entry root)) ds'))"
proof -
  have v: "map_of (lc_file L) name = None \<Longrightarrow> valid_name (mc_alnum M) name"
    using assms by (auto simp: register_named_file_def valid_name_def Let_def split: option.splits sum.splits)
  show ?thesis
  proof (cases "map_of (lc_file L) name")
    case None
    then show ?thesis
      using assms v by (auto simp: register_named_file_def Let_def decide_registration_def split: option.splits sum.splits
          dest!: save_entry_adds)
  next
    case (Some e)
    then show ?thesis
      using assms by (auto simp: register_named_file_def Let_def decide_registration_def adopts_def
          split: option.splits sum.splits bool.splits if_splits)
  qed
qed

lemma folder_answer:
  assumes "register_folder M path L = Some (Inr (a, ds'))" "distinct (map fst (lc_file L))"
  shows "\<exists>p root. path = Some p \<and> rg_root a = Some root \<and> domain_root_with_manifest M p = Inr root
    \<and> (adopts (lc_file L) a ds'
         \<and> (\<exists>e. map_of (lc_file L) (rg_name a) = Some e
               \<and> canonical_root (mc_expand M) (mc_canonicalize M) e = Some root)
       \<or> (\<exists>origin. adds M (lc_file L) a (with_name_origin origin (file_entry root)) ds'))"
proof -
  obtain p root where p: "path = Some p" "domain_root_with_manifest M p = Inr root"
    using assms(1) by (auto simp: register_folder_def split: option.splits sum.splits)
  show ?thesis
  proof (cases "existing_file_domain_at M root (lc_file L)")
    case (Some name)
    then show ?thesis
      using existing_domain_root [OF Some assms(2)] assms(1) p by (auto simp: register_folder_def adopts_def)
  next
    case None
    then obtain choice where c: "folder_name_choice M root L = Some choice"
      and s: "save_entry M (lc_file L)
          \<lparr>rg_name = nc_name choice, rg_root = Some root, rg_adopted = False, rg_shadowed = nc_shadowed_canonical choice,
           rg_manifest = None,
           rg_notes = set_aside_orphan M (nc_name choice) (map fst (lc_file L))
             @ write_back_manifest_name_if_needed M (with_name_origin (nc_origin choice) (file_entry root)) root (nc_name choice)\<rparr>
          (with_name_origin (nc_origin choice) (file_entry root)) = Inr (a, ds')"
      using assms(1) p by (auto simp: register_folder_def Let_def)
    note free = not_taken [OF folder_choice_sound(2) [OF c]]
    from save_entry_adds [OF s] free folder_choice_sound(1) [OF c] p show ?thesis by auto
  qed
qed

lemma virtual_answer:
  assumes "register_virtual_domain M name L = Inr (a, ds')"
  shows "rg_name a = name \<and> rg_root a = None
    \<and> (adopts (lc_file L) a ds' \<and> (\<exists>e. map_of (lc_file L) name = Some e \<and> is_virtual e)
       \<or> adds M (lc_file L) a (with_name_origin Explicit virtual_entry) ds')"
proof (cases "map_of (lc_file L) name")
  case None
  then show ?thesis
    using assms by (auto simp: register_virtual_domain_def Let_def decide_registration_def valid_name_def
        split: option.splits sum.splits dest!: save_entry_adds)
next
  case (Some e)
  then show ?thesis
    using assms by (auto simp: register_virtual_domain_def Let_def decide_registration_def adopts_def
        split: option.splits sum.splits bool.splits)
qed


text \<open>A registration always answers, as long as fewer names are taken than the counter of the search counts.\<close>

lemma registration_returns:
  assumes "alnum_ascii (mc_alnum M)" "finite (Collect (taken_name M L))" "card (Collect (taken_name M L)) + 2 < 2 ^ 31"
    and "\<And>p n. mc_name_at M p = Some n \<Longrightarrow> str_ok n"
  shows "register_file_domain M name path L \<noteq> None"
proof -
  have d: "derive_domain_name (mc_alnum M) (mc_lower M) raw (taken_name M L) \<noteq> None" for raw
    unfolding derive_domain_name_def Let_def
    by (rule step_finds [OF derive_base [OF assms(1), of "mc_lower M" raw, unfolded Let_def] assms(1-3)]) simp
  have s: "step_domain_name (mc_alnum M) n (taken_name M L) \<noteq> None" if "str_ok n" "valid_name (mc_alnum M) n" for n
    by (rule step_finds [OF valid_steppable [OF that] assms(1-3)]) simp
  have "folder_name_choice M root L \<noteq> None" for root
  proof (cases "mc_name_at M root")
    case None
    then show ?thesis
      using d [of "case path_file_name root of Some b \<Rightarrow> b | None \<Rightarrow> root"]
      by (auto simp: folder_name_choice_def choose_domain_name_def Let_def)
  next
    case (Some n)
    show ?thesis
    proof (cases "valid_name (mc_alnum M) n")
      case True
      then show ?thesis
        using Some s [of n] assms(4) by (auto simp: folder_name_choice_def choose_domain_name_def Let_def split: option.splits)
    next
      case False
      then show ?thesis
        using Some d [of "case path_file_name root of Some b \<Rightarrow> b | None \<Rightarrow> root"]
        by (auto simp: folder_name_choice_def choose_domain_name_def Let_def)
    qed
  qed
  then show ?thesis
    by (auto simp: register_file_domain_def register_folder_def split: option.splits sum.splits)
qed

section \<open>Any number of registrations\<close>

text \<open>
  One registration that succeeds, on any machine whose letters are those of \<open>alnum\<close> and
  \<open>lower\<close>, from a config loaded with the domains as they are.
\<close>

inductive registering ::
    "(string \<Rightarrow> bool) \<Rightarrow> (string \<Rightarrow> string) \<Rightarrow> (string \<times> domain_entry) list \<Rightarrow> (string \<times> domain_entry) list \<Rightarrow> bool"
    for alnum lower where
  register_file: "mc_alnum M = alnum \<Longrightarrow> mc_lower M = lower \<Longrightarrow> lc_file L = ds \<Longrightarrow>
    register_file_domain M name path L = Some (Inr (a, ds')) \<Longrightarrow> registering alnum lower ds ds'"
| register_virtual: "mc_alnum M = alnum \<Longrightarrow> mc_lower M = lower \<Longrightarrow> lc_file L = ds \<Longrightarrow>
    register_virtual_domain M name' L = Inr (a, ds') \<Longrightarrow> registering alnum lower ds ds'"

definition registry_ok :: "(string \<Rightarrow> string) \<Rightarrow> (string \<times> domain_entry) list \<Rightarrow> bool" where
  "registry_ok lower ds \<longleftrightarrow> distinct (map fst ds) \<and> no_twins lower ds"

lemma adds_keeps:
  assumes "adds M ds a e ds'" "registry_ok (mc_lower M) ds"
  shows "registry_ok (mc_lower M) ds' \<and> ds' = ds @ [(rg_name a, e)] \<and> valid_name (mc_alnum M) (rg_name a)"
  using assms by (auto simp: adds_def registry_ok_def no_twins_def map_of_eq_None_iff inj_on_insert)

lemma registering_step:
  assumes "registering alnum lower ds ds'" "registry_ok lower ds"
  shows "registry_ok lower ds' \<and> (\<exists>new. ds' = ds @ new \<and> (\<forall>n\<in>fst ` set new. valid_name alnum n))"
  using assms(1)
proof (cases rule: registering.cases)
  case (register_file M L name path a)
  have d: "distinct (map fst (lc_file L))" using assms(2) register_file(3) by (simp add: registry_ok_def)
  consider "adopts ds a ds'" | e where "adds M ds a e ds'"
    using register_file(3,4) named_file_answer [of M _ path L a ds'] folder_answer [OF _ d, of M path a ds']
    by (cases name) (auto simp: register_file_domain_def)
  then show ?thesis
    by cases (use assms(2) adds_keeps register_file(1,2) in \<open>fastforce simp: adopts_def\<close>)+
next
  case (register_virtual M L name a)
  then consider "adopts ds a ds'" | e where "adds M ds a e ds'"
    using virtual_answer [of M name L a ds'] by auto
  then show ?thesis
    by cases (use assms(2) adds_keeps register_virtual(1,2) in \<open>fastforce simp: adopts_def\<close>)+
qed

lemma registering_steps:
  "(registering alnum lower)\<^sup>*\<^sup>* ds ds' \<Longrightarrow> registry_ok lower ds \<Longrightarrow>
     registry_ok lower ds' \<and> (\<exists>new. ds' = ds @ new \<and> (\<forall>n\<in>fst ` set new. valid_name alnum n))"
proof (induction rule: rtranclp_induct)
  case (step x y)
  then show ?case using registering_step [OF step.hyps(2)] by fastforce
qed simp

lemma registration_facts:
  assumes "(registering alnum lower)\<^sup>*\<^sup>* before ds" "registry_ok lower before"
    and "mc_alnum M = alnum" "mc_lower M = lower" "lc_file L = ds"
  shows "\<exists>new. ds = before @ new \<and> (\<forall>n\<in>fst ` set new. valid_name alnum n)"
    and "distinct (map fst ds) \<and> inj_on lower (fst ` set ds)"
    and "register_file_domain M name path L = Some (Inr (a, ds')) \<Longrightarrow>
      (name = None \<or> name = Some (rg_name a))
      \<and> (\<exists>root. rg_root a = Some root
        \<and> domain_root_with_manifest M (case path of Some p \<Rightarrow> p | None \<Rightarrow> lc_domains_root L @ ''/'' @ rg_name a) = Inr root
        \<and> (case map_of ds (rg_name a) of
             Some e \<Rightarrow> rg_adopted a \<and> ds' = ds \<and> canonical_root (mc_expand M) (mc_canonicalize M) e = Some root
               \<and> (name \<noteq> None \<longrightarrow> \<not> is_virtual e)
           | None \<Rightarrow> \<not> rg_adopted a \<and> (\<exists>e. ds' = ds @ [(rg_name a, e)] \<and> \<not> is_virtual e \<and> de_path e = Some root)))"
    and "register_virtual_domain M vname L = Inr (va, vds) \<Longrightarrow>
      rg_name va = vname
      \<and> (case map_of ds vname of
           Some e \<Rightarrow> rg_adopted va \<and> vds = ds \<and> is_virtual e
         | None \<Rightarrow> \<not> rg_adopted va \<and> (\<exists>e. vds = ds @ [(vname, e)] \<and> is_virtual e))"
proof -
  note r = registering_steps [OF assms(1,2)]
  then show "\<exists>new. ds = before @ new \<and> (\<forall>n\<in>fst ` set new. valid_name alnum n)"
    and d: "distinct (map fst ds) \<and> inj_on lower (fst ` set ds)"
    by (simp_all add: registry_ok_def no_twins_def)
  have k: "is_virtual (with_name_origin i virtual_entry)" "\<not> is_virtual (with_name_origin i (file_entry p))"
    "de_path (with_name_origin i (file_entry p)) = Some p" for i p
    by (simp_all add: with_name_origin_def is_virtual_def virtual_entry_def file_entry_def)
  show "(name = None \<or> name = Some (rg_name a))
      \<and> (\<exists>root. rg_root a = Some root
        \<and> domain_root_with_manifest M (case path of Some p \<Rightarrow> p | None \<Rightarrow> lc_domains_root L @ ''/'' @ rg_name a) = Inr root
        \<and> (case map_of ds (rg_name a) of
             Some e \<Rightarrow> rg_adopted a \<and> ds' = ds \<and> canonical_root (mc_expand M) (mc_canonicalize M) e = Some root
               \<and> (name \<noteq> None \<longrightarrow> \<not> is_virtual e)
           | None \<Rightarrow> \<not> rg_adopted a \<and> (\<exists>e. ds' = ds @ [(rg_name a, e)] \<and> \<not> is_virtual e \<and> de_path e = Some root)))"
    if "register_file_domain M name path L = Some (Inr (a, ds'))"
  proof (cases name)
    case None
    then show ?thesis
      using that folder_answer [of M path L a ds'] d assms(5) k
      by (fastforce simp: register_file_domain_def adopts_def adds_def)
  next
    case (Some n)
    then show ?thesis
      using that named_file_answer [of M n path L a ds'] assms(5) k
      by (fastforce simp: register_file_domain_def adopts_def adds_def)
  qed
  show "rg_name va = vname
      \<and> (case map_of ds vname of
           Some e \<Rightarrow> rg_adopted va \<and> vds = ds \<and> is_virtual e
         | None \<Rightarrow> \<not> rg_adopted va \<and> (\<exists>e. vds = ds @ [(vname, e)] \<and> is_virtual e))"
    if "register_virtual_domain M vname L = Inr (va, vds)"
    using virtual_answer [OF that] assms(5) k by (fastforce simp: adopts_def adds_def)
qed

text \<open>
  C31: registering never repoints a name. After any number of registrations that succeeded, by
  name, by folder or of a virtual domain, whatever the file system, the environment and the
  MANIFESTs said at each, every domain that was registered is registered as it was, nothing
  about its entry changed; every name that came new is valid; and no two names fold to one
  spelling, so no two domains come to share a state folder, if none did before. A registration
  of such a registry that succeeds answers a name it holds: one it adopted untouched, a file
  domain already at the very folder that was asked for (and no virtual one, where the name was
  given), or a virtual one where a virtual one was asked for; or a new one, at that folder. So
  a given name held by anything else is refused.
\<close>

theorem registration_never_repoints:
  assumes "(registering alnum lower)\<^sup>*\<^sup>* before ds" "registry_ok lower before"
    and "mc_alnum M = alnum" "mc_lower M = lower" "lc_file L = ds"
  shows "(\<exists>new. ds = before @ new \<and> (\<forall>n\<in>fst ` set new. valid_name alnum n))
    \<and> (distinct (map fst ds) \<and> inj_on lower (fst ` set ds))
    \<and> (register_file_domain M name path L = Some (Inr (a, ds')) \<longrightarrow>
      (name = None \<or> name = Some (rg_name a))
      \<and> (\<exists>root. rg_root a = Some root
        \<and> domain_root_with_manifest M (case path of Some p \<Rightarrow> p | None \<Rightarrow> lc_domains_root L @ ''/'' @ rg_name a) = Inr root
        \<and> (case map_of ds (rg_name a) of
             Some e \<Rightarrow> rg_adopted a \<and> ds' = ds \<and> canonical_root (mc_expand M) (mc_canonicalize M) e = Some root
               \<and> (name \<noteq> None \<longrightarrow> \<not> is_virtual e)
           | None \<Rightarrow> \<not> rg_adopted a \<and> (\<exists>e. ds' = ds @ [(rg_name a, e)] \<and> \<not> is_virtual e \<and> de_path e = Some root))))
    \<and> (register_virtual_domain M vname L = Inr (va, vds) \<longrightarrow>
      rg_name va = vname
      \<and> (case map_of ds vname of
           Some e \<Rightarrow> rg_adopted va \<and> vds = ds \<and> is_virtual e
         | None \<Rightarrow> \<not> rg_adopted va \<and> (\<exists>e. vds = ds @ [(vname, e)] \<and> is_virtual e)))"
proof -
  note f = registration_facts [OF assms]
  show ?thesis by (rule conjI [OF f(1) conjI [OF f(2) conjI [OF impI [OF f(3)] impI [OF f(4)]]]])
qed

text \<open>A machine where every folder holds a MANIFEST without a name, and a config with one domain.\<close>

definition demo_machine :: machine where
  "demo_machine =
     \<lparr>mc_alnum = (\<lambda>c. length c = 1 \<and> (is_ascii_lower (hd c) \<or> is_ascii_digit (hd c))), mc_lower = ascii_lowercase,
      mc_expand = id, mc_canonicalize = Some, mc_has_manifest = (\<lambda>_. True), mc_name_at = (\<lambda>_. None),
      mc_read_only = (\<lambda>_. False), mc_write_back = (\<lambda>_ _. None), mc_kept_left = (\<lambda>_. False), mc_set_aside = (\<lambda>_. None),
      mc_saves = (\<lambda>_. True), mc_manifest_template = id\<rparr>"

definition demo_loaded :: "(string \<times> domain_entry) list \<Rightarrow> loaded_config" where
  "demo_loaded ds = \<lparr>lc_file = ds, lc_effective = ds, lc_env = [], lc_domains_root = ''/d''\<rparr>"

definition demo_registry :: "(string \<times> domain_entry) list" where
  "demo_registry = [(''ops'', with_name_origin Explicit (file_entry ''/k/ops''))]"

text \<open>\<open>ops\<close> registered, and then asked for at another folder.\<close>

theorem registration_never_repoints_witness:
  "register_file_domain demo_machine (Some ''ops'') (Some ''/k/ops'') (demo_loaded [])
     = Some (Inr (\<lparr>rg_name = ''ops'', rg_root = Some ''/k/ops'', rg_adopted = False, rg_shadowed = None, rg_manifest = None,
         rg_notes = []\<rparr>, demo_registry))
   \<and> register_file_domain demo_machine (Some ''ops'') (Some ''/k/other'') (demo_loaded demo_registry)
       = Some (Inl (NameHeld ''ops'' (OtherFolder ''/k/ops'')))
   \<and> inj_on (mc_lower demo_machine) (fst ` set demo_registry)"
proof (intro conjI)
  let ?a = "\<lparr>rg_name = ''ops'', rg_root = Some ''/k/ops'', rg_adopted = False, rg_shadowed = None, rg_manifest = None, rg_notes = []\<rparr>"
  show r: "register_file_domain demo_machine (Some ''ops'') (Some ''/k/ops'') (demo_loaded []) = Some (Inr (?a, demo_registry))"
    by code_simp
  show "register_file_domain demo_machine (Some ''ops'') (Some ''/k/other'') (demo_loaded demo_registry)
      = Some (Inl (NameHeld ''ops'' (OtherFolder ''/k/ops'')))" by code_simp
  have "registering (mc_alnum demo_machine) (mc_lower demo_machine) [] demo_registry"
    by (rule register_file [OF refl refl _ r]) (simp add: demo_loaded_def)
  then have s: "(registering (mc_alnum demo_machine) (mc_lower demo_machine))\<^sup>*\<^sup>* [] demo_registry" by blast
  have ok: "registry_ok (mc_lower demo_machine) []" by (simp add: registry_ok_def no_twins_def)
  have l: "lc_file (demo_loaded demo_registry) = demo_registry" by (simp add: demo_loaded_def)
  from registration_never_repoints [OF s ok refl refl l] show "inj_on (mc_lower demo_machine) (fst ` set demo_registry)"
    by blast
qed

end
