(* ===== verification/AuthTables.thy ===== *)
theory AuthTables
  imports Prelude "HOL-Library.List_Lexorder"
begin

text \<open>
  The accounts database of \<open>identity/src/auth_store.rs\<close>: its tables as lists of rows, the
  text codecs of its enum columns, the folding of names, and the SQL statements the store
  issues as list operations. A statement selects the rows of a table that satisfy its
  \<open>WHERE\<close>, deletes, updates or counts them; an insert that would repeat a primary key or a
  unique column fails. A transaction that fails rolls back: an operation answers \<open>Inl\<close> and the
  caller keeps the old database. The clock, the random tokens, the digest, the password
  hash and Unicode lower casing are parameters.
\<close>

section \<open>Roles and levels\<close>

datatype role = RoleNone | RoleViewer | RoleEditor | RoleAdmin

definition role_as_str :: "role \<Rightarrow> string" where
  "role_as_str r =
     (case r of RoleNone \<Rightarrow> ''none'' | RoleViewer \<Rightarrow> ''viewer'' | RoleEditor \<Rightarrow> ''editor'' | RoleAdmin \<Rightarrow> ''admin'')"

definition role_from_str :: "string \<Rightarrow> role option" where
  "role_from_str s =
     (let t = ascii_lowercase (trim s)
      in if t = ''none'' then Some RoleNone
         else if t = ''viewer'' then Some RoleViewer
         else if t = ''editor'' then Some RoleEditor
         else if t = ''admin'' then Some RoleAdmin
         else None)"

definition role_from_db :: "string \<Rightarrow> role" where
  "role_from_db s = (case role_from_str s of Some r \<Rightarrow> r | None \<Rightarrow> RoleViewer)"

datatype member_level = LevelNone | LevelViewer | LevelEditor | LevelManager

definition member_level_as_str :: "member_level \<Rightarrow> string" where
  "member_level_as_str l =
     (case l of LevelNone \<Rightarrow> ''none'' | LevelViewer \<Rightarrow> ''viewer'' | LevelEditor \<Rightarrow> ''editor''
      | LevelManager \<Rightarrow> ''manager'')"

definition member_level_from_str :: "string \<Rightarrow> member_level option" where
  "member_level_from_str s =
     (let t = ascii_lowercase (trim s)
      in if t = ''none'' then Some LevelNone
         else if t = ''viewer'' then Some LevelViewer
         else if t = ''editor'' then Some LevelEditor
         else if t = ''manager'' then Some LevelManager
         else None)"

definition member_level_from_db :: "string \<Rightarrow> member_level" where
  "member_level_from_db s = (case member_level_from_str s of Some l \<Rightarrow> l | None \<Rightarrow> LevelViewer)"

datatype reflection_level = DefaultLevel | Reader | Contributor

definition reflection_level_as_str :: "reflection_level \<Rightarrow> string" where
  "reflection_level_as_str l =
     (case l of DefaultLevel \<Rightarrow> ''default'' | Reader \<Rightarrow> ''reader'' | Contributor \<Rightarrow> ''contributor'')"

definition reflection_to_db :: "reflection_level \<Rightarrow> string option" where
  "reflection_to_db l = (case l of DefaultLevel \<Rightarrow> None | other \<Rightarrow> Some (reflection_level_as_str other))"

definition reflection_level_from_str :: "string \<Rightarrow> reflection_level option" where
  "reflection_level_from_str s =
     (let t = ascii_lowercase (trim s)
      in if t = ''default'' then Some DefaultLevel
         else if t = ''reader'' then Some Reader
         else if t = ''contributor'' then Some Contributor
         else None)"

definition reflection_level_from_db :: "string option \<Rightarrow> reflection_level" where
  "reflection_level_from_db cell =
     (case Option.bind cell reflection_level_from_str of Some l \<Rightarrow> l | None \<Rightarrow> DefaultLevel)"

text \<open>The derived order \<open>Default < Reader < Contributor\<close>.\<close>

fun reflection_rank :: "reflection_level \<Rightarrow> nat" where
  "reflection_rank DefaultLevel = 0"
| "reflection_rank Reader = 1"
| "reflection_rank Contributor = 2"

instantiation reflection_level :: linorder
begin

definition less_eq_reflection_level :: "reflection_level \<Rightarrow> reflection_level \<Rightarrow> bool" where
  "less_eq_reflection_level a b \<longleftrightarrow> reflection_rank a \<le> reflection_rank b"

definition less_reflection_level :: "reflection_level \<Rightarrow> reflection_level \<Rightarrow> bool" where
  "less_reflection_level a b \<longleftrightarrow> reflection_rank a < reflection_rank b"

instance
proof
  fix a b :: reflection_level
  assume "a \<le> b" "b \<le> a"
  then show "a = b"
    by (cases a; cases b) (simp_all add: less_eq_reflection_level_def)
qed (auto simp: less_eq_reflection_level_def less_reflection_level_def)

end

named_theorems db_codec "decoding what the store encodes"

lemma role_roundtrip [db_codec, simp]: "role_from_db (role_as_str r) = r"
  by (induct r) code_simp+

lemma member_level_roundtrip [db_codec, simp]: "member_level_from_db (member_level_as_str l) = l"
  by (induct l) code_simp+

lemma reflection_roundtrip [db_codec, simp]: "reflection_level_from_db (reflection_to_db l) = l"
  by (induct l) code_simp+

lemma role_as_str_inj [simp]: "role_as_str a = role_as_str b \<longleftrightarrow> a = b"
  by (metis role_roundtrip)

section \<open>Names\<close>

datatype refusal_kind =
    NotPrivate | OwnerIsNotAMember | EmptyMembership | NoSuchAccount | IdentityAlreadyLinked
  | IssuerAlreadyHeld | LastCredential | NoSuchToken | CapReached | InvalidName | GithubIdTaken

datatype store_error =
    Refused refusal_kind
  | NoSuchUser string
  | LastAdmin string
  | EmptyDomainName
  | EmptyIdentity
  | EmptyGithubHost
  | NoActor
  | EmptyWriteList
  | Constraint
  | NoFreeName string
  | IdOutOfRange
  | NoSuchClient
  | NoRedirectUri
  | NoResource

definition OWNER_IDENTITY_NAME :: string where "OWNER_IDENTITY_NAME = ''owner''"

definition has_whitespace :: "string \<Rightarrow> bool" where
  "has_whitespace s = list_ex (\<lambda>c. c \<in> set ws_chars) (chars s)"

definition normalize_account_name :: "(string \<Rightarrow> string) \<Rightarrow> string \<Rightarrow> store_error + string" where
  "normalize_account_name lower name =
     (let trimmed = trim name
      in if trimmed = [] then Inl (Refused InvalidName)
         else if has_whitespace trimmed then Inl (Refused InvalidName)
         else Inr (lower trimmed))"

definition normalize_new_account_name :: "(string \<Rightarrow> string) \<Rightarrow> string \<Rightarrow> store_error + string" where
  "normalize_new_account_name lower name =
     (case normalize_account_name lower name of
        Inl e \<Rightarrow> Inl e
      | Inr folded \<Rightarrow> if folded = OWNER_IDENTITY_NAME then Inl (Refused InvalidName) else Inr folded)"

definition identity_value :: "string \<Rightarrow> store_error + string" where
  "identity_value value =
     (let trimmed = trim value in if trimmed = [] then Inl EmptyIdentity else Inr trimmed)"

definition normalize_domain :: "string \<Rightarrow> store_error + string" where
  "normalize_domain domain =
     (let trimmed = trim domain in if trimmed = [] then Inl EmptyDomainName else Inr trimmed)"

definition normalize_github_host :: "string \<Rightarrow> store_error + string" where
  "normalize_github_host host =
     (let host = ascii_lowercase (trim host) in if host = [] then Inl EmptyGithubHost else Inr host)"

definition normalize_resource :: "string \<Rightarrow> string" where
  "normalize_resource resource =
     (let trimmed = trim resource
      in case strip_suffix ''/'' trimmed of Some r \<Rightarrow> r | None \<Rightarrow> trimmed)"

section \<open>Rows\<close>

record user_row =
  ur_name :: string
  ur_display :: string
  ur_email :: "string option"
  ur_role :: string
  ur_reflection :: "string option"
  ur_pass :: "string option"
  ur_disabled :: bool
  ur_last_seen :: "string option"
  ur_created :: string

record session_row =
  sr_hash :: string
  sr_user :: string
  sr_csrf :: string
  sr_expires :: int

record token_row =
  tr_id :: int
  tr_user :: string
  tr_hash :: string
  tr_label :: string
  tr_created :: string
  tr_last_used :: "string option"

record acl_row =
  al_domain :: string
  al_visibility :: string
  al_owner :: string
  al_updated :: string

record member_row =
  mb_domain :: string
  mb_kind :: string
  mb_principal :: string
  mb_level :: string
  mb_reflection :: "string option"
  mb_added_by :: string
  mb_added_at :: string

record link_row =
  il_issuer :: string
  il_subject :: string
  il_user :: string
  il_linked_at :: string
  il_linked_by :: string

record github_row =
  gh_account :: string
  gh_host :: string
  gh_id :: int
  gh_login :: string
  gh_linked_at :: string
  gh_live :: bool

record client_row =
  oc_id :: string
  oc_name :: string
  oc_uri :: "string option"
  oc_redirects :: "string list"
  oc_created :: string
  oc_last_used :: "string option"

record oauth_row =
  og_id :: int
  og_user :: string
  og_client :: string
  og_resource :: string
  og_access :: string
  og_access_until :: int
  og_refresh :: string
  og_previous :: "string option"
  og_refresh_until :: int
  og_created :: string
  og_last_used :: "string option"

record overlay_row =
  ov_id :: int
  ov_domain :: string
  ov_path :: string
  ov_owner :: string
  ov_grantee :: "string option"
  ov_hash :: string
  ov_created :: string
  ov_expires :: "string option"
  ov_revoked :: "string option"

record write_row =
  wr_account :: string
  wr_pattern :: string

record reflection_row =
  rg_domain :: string
  rg_account :: string
  rg_level :: string
  rg_added_by :: string
  rg_added_at :: string

record auth_db =
  db_users :: "user_row list"
  db_sessions :: "session_row list"
  db_tokens :: "token_row list"
  db_acl :: "acl_row list"
  db_members :: "member_row list"
  db_links :: "link_row list"
  db_github :: "github_row list"
  db_clients :: "client_row list"
  db_oauth :: "oauth_row list"
  db_overlay :: "overlay_row list"
  db_writes :: "write_row list"
  db_reflection :: "reflection_row list"
  db_deliveries :: "(string \<times> int) list"
  db_token_seq :: int
  db_oauth_seq :: int
  db_overlay_seq :: int

definition empty_db :: auth_db where
  "empty_db =
     \<lparr>db_users = [], db_sessions = [], db_tokens = [], db_acl = [], db_members = [], db_links = [],
      db_github = [], db_clients = [], db_oauth = [], db_overlay = [], db_writes = [],
      db_reflection = [], db_deliveries = [], db_token_seq = 0, db_oauth_seq = 0, db_overlay_seq = 0\<rparr>"

text \<open>What a read hands out: an account without password material.\<close>

record user =
  u_name :: string
  u_display :: string
  u_email :: "string option"
  u_role :: role
  u_disabled :: bool
  u_last_seen :: "string option"
  u_reflection :: reflection_level

definition user_from_row :: "user_row \<Rightarrow> user" where
  "user_from_row r =
     \<lparr>u_name = ur_name r, u_display = ur_display r, u_email = ur_email r, u_role = role_from_db (ur_role r),
      u_disabled = ur_disabled r, u_last_seen = ur_last_seen r,
      u_reflection = reflection_level_from_db (ur_reflection r)\<rparr>"

section \<open>Statements\<close>

definition delete_where :: "('r \<Rightarrow> bool) \<Rightarrow> 'r list \<Rightarrow> 'r list" where
  "delete_where P rows = filter (\<lambda>r. \<not> P r) rows"

definition update_where :: "('r \<Rightarrow> bool) \<Rightarrow> ('r \<Rightarrow> 'r) \<Rightarrow> 'r list \<Rightarrow> 'r list" where
  "update_where P f rows = map (\<lambda>r. if P r then f r else r) rows"

definition changed :: "('r \<Rightarrow> bool) \<Rightarrow> 'r list \<Rightarrow> nat" where
  "changed P rows = length (filter P rows)"

text \<open>The environment of the store: what it takes from the machine and from libraries.\<close>

record auth_env =
  ae_lower :: "string \<Rightarrow> string"
  ae_hash :: "string \<Rightarrow> string"
  ae_verify :: "string \<Rightarrow> string \<Rightarrow> bool"
  ae_after :: "string \<Rightarrow> string \<Rightarrow> bool option"

definition sat_i64 :: "int \<Rightarrow> int" where
  "sat_i64 i = max (- (2 ^ 63)) (min (2 ^ 63 - 1) i)"

lemma in_delete_where [simp]: "r \<in> set (delete_where P rows) \<longleftrightarrow> r \<in> set rows \<and> \<not> P r"
  by (auto simp: delete_where_def)

lemma update_where_keys [simp]:
  "(\<And>r. k (f r) = k r) \<Longrightarrow> map k (update_where P f rows) = map k rows"
  by (auto simp: update_where_def)

lemma in_update_where:
  "r \<in> set (update_where P f rows) \<longleftrightarrow> (\<exists>s\<in>set rows. r = (if P s then f s else s))"
  by (auto simp: update_where_def)

lemma changed_0 [simp]: "changed P rows = 0 \<longleftrightarrow> (\<forall>r\<in>set rows. \<not> P r)"
  by (auto simp: changed_def filter_empty_conv)

lemma changed_gt_0 [simp]: "0 < changed P rows \<longleftrightarrow> (\<exists>r\<in>set rows. P r)"
  by (auto simp: changed_def filter_empty_conv)

lemma delete_where_idem [simp]: "delete_where P (delete_where P rows) = delete_where P rows"
  by (auto simp: delete_where_def)

lemma distinct_delete_where: "distinct (map k rows) \<Longrightarrow> distinct (map k (delete_where P rows))"
  by (auto simp: delete_where_def distinct_map intro: inj_on_subset)

lemma find_None_iff_all: "find P rows = None \<longleftrightarrow> (\<forall>r\<in>set rows. \<not> P r)"
  by (auto simp: find_None_iff)

lemma find_SomeD: "find P rows = Some r \<Longrightarrow> r \<in> set rows \<and> P r"
  by (auto simp: find_Some_iff)

lemma find_key:
  assumes "distinct (map k rows)" "r \<in> set rows"
  shows "find (\<lambda>s. k s = k r) rows = Some r"
proof (cases "find (\<lambda>s. k s = k r) rows")
  case None
  with assms(2) show ?thesis by (auto simp: find_None_iff_all)
next
  case (Some s)
  then have "s \<in> set rows" "k s = k r" by (auto dest: find_SomeD)
  with assms have "s = r" by (auto simp: distinct_map dest: inj_onD)
  with Some show ?thesis by simp
qed

end
