(* ===== verification/Identities.thy ===== *)
theory Identities
  imports Accounts
begin

text \<open>
  External identities of \<open>identity/src/auth_store.rs\<close>: single sign-on links, the accounts a
  first sign-on provisions, GitHub links and remembered webhook deliveries.
\<close>

section \<open>Sign-on links\<close>

definition LINKED_BY_JIT :: string where "LINKED_BY_JIT = ''jit''"
definition MAX_NAME_ATTEMPTS :: nat where "MAX_NAME_ATTEMPTS = 1000"
definition DELIVERY_KEPT_SECS :: int where "DELIVERY_KEPT_SECS = 86400"

definition linked_user ::
  "auth_db \<Rightarrow> string \<Rightarrow> string \<Rightarrow> store_error + auth_db \<times> user option" where
  "linked_user db issuer subject =
     (case identity_value issuer of
        Inl e \<Rightarrow> Inl e
      | Inr issuer \<Rightarrow>
          (case identity_value subject of
             Inl e \<Rightarrow> Inl e
           | Inr subject \<Rightarrow>
               (let db1 = db\<lparr>db_links := delete_where (\<lambda>l. \<not> has_user db (il_user l)) (db_links db)\<rparr>
                in Inr (db1,
                     map_option (user_from_row \<circ> snd)
                       (joined il_user (\<lambda>l. il_issuer l = issuer \<and> il_subject l = subject)
                          (db_links db1) db1)))))"

definition insert_link ::
  "auth_db \<Rightarrow> string \<Rightarrow> string \<Rightarrow> string \<Rightarrow> string \<Rightarrow> string \<Rightarrow> store_error + auth_db" where
  "insert_link db issuer subject user linked_by stamp =
     (if list_ex (\<lambda>l. il_issuer l = issuer \<and> il_subject l = subject) (db_links db)
      then Inl (Refused IdentityAlreadyLinked)
      else if list_ex (\<lambda>l. il_issuer l = issuer \<and> il_user l = user) (db_links db)
      then Inl (Refused IssuerAlreadyHeld)
      else Inr (db\<lparr>db_links := db_links db @
             [\<lparr>il_issuer = issuer, il_subject = subject, il_user = user, il_linked_at = stamp,
               il_linked_by = linked_by\<rparr>]\<rparr>))"

definition link_identity ::
  "auth_env \<Rightarrow> auth_db \<Rightarrow> string \<Rightarrow> string \<Rightarrow> string \<Rightarrow> string \<Rightarrow> string \<Rightarrow> store_error + auth_db" where
  "link_identity E db issuer subject user linked_by stamp =
     (case identity_value issuer of
        Inl e \<Rightarrow> Inl e
      | Inr issuer \<Rightarrow>
          (case identity_value subject of
             Inl e \<Rightarrow> Inl e
           | Inr subject \<Rightarrow>
               (case normalize_account_name (ae_lower E) user of
                  Inl e \<Rightarrow> Inl e
                | Inr user \<Rightarrow>
                    (case require_live_user db user of
                       Inl e \<Rightarrow> Inl e
                     | Inr _ \<Rightarrow> insert_link db issuer subject user linked_by stamp))))"

definition link_at :: "auth_db \<Rightarrow> string \<Rightarrow> string \<Rightarrow> bool" where
  "link_at db issuer user = list_ex (\<lambda>l. il_issuer l = issuer \<and> il_user l = user) (db_links db)"

definition link_count :: "auth_db \<Rightarrow> string \<Rightarrow> nat" where
  "link_count db user = changed (\<lambda>l. il_user l = user) (db_links db)"

definition unlink :: "auth_env \<Rightarrow> auth_db \<Rightarrow> string \<Rightarrow> string \<Rightarrow> bool \<Rightarrow> store_error + auth_db \<times> bool" where
  "unlink E db issuer user force =
     (case identity_value issuer of
        Inl e \<Rightarrow> Inl e
      | Inr issuer \<Rightarrow>
          (case normalize_account_name (ae_lower E) user of
             Inl e \<Rightarrow> Inl e
           | Inr user \<Rightarrow>
               if \<not> force \<and> link_at db issuer user \<and> link_count db user \<le> 1 \<and> \<not> password_present db user
               then Inl (Refused LastCredential)
               else
                 (let hit = (\<lambda>l. il_issuer l = issuer \<and> il_user l = user)
                  in Inr (db\<lparr>db_links := delete_where hit (db_links db)\<rparr>, changed hit (db_links db) > 0))))"

definition unlink_identity :: "auth_env \<Rightarrow> auth_db \<Rightarrow> string \<Rightarrow> string \<Rightarrow> store_error + auth_db \<times> bool" where
  "unlink_identity E db issuer user = unlink E db issuer user False"

definition unlink_identity_force :: "auth_env \<Rightarrow> auth_db \<Rightarrow> string \<Rightarrow> string \<Rightarrow> store_error + auth_db \<times> bool" where
  "unlink_identity_force E db issuer user = unlink E db issuer user True"

definition identity_links :: "auth_env \<Rightarrow> auth_db \<Rightarrow> string \<Rightarrow> store_error + link_row list" where
  "identity_links E db user =
     (case normalize_account_name (ae_lower E) user of
        Inl e \<Rightarrow> Inl e
      | Inr user \<Rightarrow> Inr (sort_key il_issuer (filter (\<lambda>l. il_user l = user) (db_links db))))"

section \<open>Provisioning\<close>

definition account_candidate :: "string \<Rightarrow> nat \<Rightarrow> string" where
  "account_candidate base attempt = (if attempt = 1 then base else base @ ''-'' @ nat_str attempt)"

definition free_account_name :: "auth_db \<Rightarrow> string \<Rightarrow> store_error + string" where
  "free_account_name db base =
     (case find (\<lambda>attempt. \<not> has_user db (account_candidate base attempt)) [1..<Suc MAX_NAME_ATTEMPTS] of
        Some attempt \<Rightarrow> Inr (account_candidate base attempt)
      | None \<Rightarrow> Inl (NoFreeName base))"

definition free_name_from :: "auth_env \<Rightarrow> auth_db \<Rightarrow> string \<Rightarrow> store_error + string" where
  "free_name_from E db desired =
     (case normalize_new_account_name (ae_lower E) desired of
        Inl e \<Rightarrow> Inl e
      | Inr base \<Rightarrow> free_account_name db base)"

definition given_text :: "string option \<Rightarrow> string option" where
  "given_text v = (case v of Some s \<Rightarrow> if trim s = [] then None else Some (trim s) | None \<Rightarrow> None)"

definition provision_linked_user ::
  "auth_env \<Rightarrow> auth_db \<Rightarrow> string \<Rightarrow> string \<Rightarrow> string \<Rightarrow> string option \<Rightarrow> string option \<Rightarrow> role \<Rightarrow> nat \<Rightarrow> string
     \<Rightarrow> store_error + auth_db \<times> user" where
  "provision_linked_user E db issuer subject desired_name display email role cap stamp =
     (case identity_value issuer of
        Inl e \<Rightarrow> Inl e
      | Inr issuer \<Rightarrow>
     (case identity_value subject of
        Inl e \<Rightarrow> Inl e
      | Inr subject \<Rightarrow>
     (case normalize_new_account_name (ae_lower E) desired_name of
        Inl e \<Rightarrow> Inl e
      | Inr base \<Rightarrow>
          if length (db_users db) \<ge> cap then Inl (Refused CapReached)
          else
            (case free_account_name db base of
               Inl e \<Rightarrow> Inl e
             | Inr name \<Rightarrow>
                 (case insert_user
                         \<lparr>ur_name = name,
                          ur_display = (case given_text display of Some d \<Rightarrow> d | None \<Rightarrow> name),
                          ur_email = given_text email, ur_role = role_as_str role, ur_reflection = None,
                          ur_pass = None, ur_disabled = False, ur_last_seen = None, ur_created = stamp\<rparr> db of
                    Inl e \<Rightarrow> Inl e
                  | Inr db1 \<Rightarrow>
                      (case insert_link db1 issuer subject name LINKED_BY_JIT stamp of
                         Inl e \<Rightarrow> Inl e
                       | Inr db2 \<Rightarrow>
                           (case user_row_of db2 name of
                              Some row \<Rightarrow> Inr (db2, user_from_row row)
                            | None \<Rightarrow> Inl (NoSuchUser name))))))))"

section \<open>GitHub links\<close>

definition link_github_inner ::
  "auth_env \<Rightarrow> auth_db \<Rightarrow> string \<Rightarrow> string option \<Rightarrow> string \<Rightarrow> int \<Rightarrow> string \<Rightarrow> string
     \<Rightarrow> store_error + auth_db \<times> github_row" where
  "link_github_inner E db account born host github_id login stamp =
     (case normalize_account_name (ae_lower E) account of
        Inl e \<Rightarrow> Inl e
      | Inr account \<Rightarrow>
     (case normalize_github_host host of
        Inl e \<Rightarrow> Inl e
      | Inr host \<Rightarrow>
          if github_id \<ge> 2 ^ 63 then Inl IdOutOfRange
          else
            (let found = map_option ur_created (user_row_of db account);
                 same = (case (found, born) of
                           (None, _) \<Rightarrow> False
                         | (Some _, None) \<Rightarrow> True
                         | (Some found, Some born) \<Rightarrow> found = born)
             in if \<not> same then Inl (Refused NoSuchAccount)
                else if list_ex (\<lambda>g. gh_host g = host \<and> gh_id g = github_id \<and> gh_account g \<noteq> account)
                          (db_github db)
                then Inl (Refused GithubIdTaken)
                else
                  (let row = \<lparr>gh_account = account, gh_host = host, gh_id = github_id, gh_login = login,
                              gh_linked_at = stamp, gh_live = True\<rparr>
                   in Inr (db\<lparr>db_github := delete_where (\<lambda>g. gh_account g = account) (db_github db) @ [row]\<rparr>,
                           row)))))"

definition link_github ::
  "auth_env \<Rightarrow> auth_db \<Rightarrow> string \<Rightarrow> string \<Rightarrow> int \<Rightarrow> string \<Rightarrow> string \<Rightarrow> store_error + auth_db \<times> github_row" where
  "link_github E db account host github_id login stamp =
     link_github_inner E db account None host github_id login stamp"

definition link_github_if_born ::
  "auth_env \<Rightarrow> auth_db \<Rightarrow> string \<Rightarrow> string \<Rightarrow> string \<Rightarrow> int \<Rightarrow> string \<Rightarrow> string
     \<Rightarrow> store_error + auth_db \<times> github_row" where
  "link_github_if_born E db account born host github_id login stamp =
     link_github_inner E db account (Some born) host github_id login stamp"

definition github_link_of :: "auth_env \<Rightarrow> auth_db \<Rightarrow> string \<Rightarrow> store_error + github_row option" where
  "github_link_of E db account =
     (case normalize_account_name (ae_lower E) account of
        Inl e \<Rightarrow> Inl e
      | Inr account \<Rightarrow> Inr (find (\<lambda>g. gh_account g = account) (db_github db)))"

definition account_for_github :: "auth_db \<Rightarrow> string \<Rightarrow> int \<Rightarrow> store_error + string option" where
  "account_for_github db host github_id =
     (case normalize_github_host host of
        Inl e \<Rightarrow> Inl e
      | Inr host \<Rightarrow>
          if github_id \<ge> 2 ^ 63 then Inr None
          else Inr (map_option gh_account
                 (find (\<lambda>g. gh_host g = host \<and> gh_id g = github_id) (db_github db))))"

definition github_links :: "auth_db \<Rightarrow> github_row list" where
  "github_links db = sort_key gh_account (db_github db)"

definition set_github_login :: "auth_env \<Rightarrow> auth_db \<Rightarrow> string \<Rightarrow> string \<Rightarrow> store_error + auth_db \<times> bool" where
  "set_github_login E db account login =
     (case normalize_account_name (ae_lower E) account of
        Inl e \<Rightarrow> Inl e
      | Inr account \<Rightarrow>
          Inr (db\<lparr>db_github := update_where (\<lambda>g. gh_account g = account) (\<lambda>g. g\<lparr>gh_login := login\<rparr>) (db_github db)\<rparr>,
               changed (\<lambda>g. gh_account g = account) (db_github db) > 0))"

definition mark_github_token_gone :: "auth_env \<Rightarrow> auth_db \<Rightarrow> string \<Rightarrow> store_error + auth_db \<times> bool" where
  "mark_github_token_gone E db account =
     (case normalize_account_name (ae_lower E) account of
        Inl e \<Rightarrow> Inl e
      | Inr account \<Rightarrow>
          Inr (db\<lparr>db_github := update_where (\<lambda>g. gh_account g = account) (\<lambda>g. g\<lparr>gh_live := False\<rparr>) (db_github db)\<rparr>,
               changed (\<lambda>g. gh_account g = account) (db_github db) > 0))"

definition unlink_github :: "auth_env \<Rightarrow> auth_db \<Rightarrow> string \<Rightarrow> store_error + auth_db \<times> bool" where
  "unlink_github E db account =
     (case normalize_account_name (ae_lower E) account of
        Inl e \<Rightarrow> Inl e
      | Inr account \<Rightarrow>
          Inr (delete_github_link_of account db, changed (\<lambda>g. gh_account g = account) (db_github db) > 0))"

section \<open>Webhook deliveries\<close>

definition remember_delivery_at :: "auth_db \<Rightarrow> string \<Rightarrow> int \<Rightarrow> auth_db \<times> bool" where
  "remember_delivery_at db delivery now =
     (let kept = delete_where (\<lambda>(_, at). at < sat_i64 (now - DELIVERY_KEPT_SECS)) (db_deliveries db)
      in if list_ex (\<lambda>(d, _). d = delivery) kept then (db\<lparr>db_deliveries := kept\<rparr>, False)
         else (db\<lparr>db_deliveries := kept @ [(delivery, now)]\<rparr>, True))"

definition forget_delivery :: "auth_db \<Rightarrow> string \<Rightarrow> auth_db" where
  "forget_delivery db delivery =
     db\<lparr>db_deliveries := delete_where (\<lambda>(d, _). d = delivery) (db_deliveries db)\<rparr>"

end
