(* ===== verification/OauthGrants.thy ===== *)
theory OauthGrants
  imports Accounts
begin

text \<open>
  The OAuth grants and the draft share-links of \<open>identity/src/auth_store.rs\<close>. A grant is
  one row with an access and a refresh token; presenting the refresh token rotates both,
  and presenting it again revokes the grant. A share-link is bound to the first account
  that presents it. \<open>ae_after\<close> of the environment reads an RFC 3339 time and says whether it
  lies after another; \<open>None\<close> when it does not parse.
\<close>

section \<open>Clients\<close>

definition OAUTH_ACCESS_PREFIX :: string where "OAUTH_ACCESS_PREFIX = ''coa_''"
definition OAUTH_REFRESH_PREFIX :: string where "OAUTH_REFRESH_PREFIX = ''cor_''"
definition OAUTH_CLIENT_PREFIX :: string where "OAUTH_CLIENT_PREFIX = ''coc_''"
definition DRAFT_LINK_PREFIX :: string where "DRAFT_LINK_PREFIX = ''dl_''"
definition OAUTH_ACCESS_TTL_SECS :: int where "OAUTH_ACCESS_TTL_SECS = 3600"
definition OAUTH_REFRESH_TTL_SECS :: int where "OAUTH_REFRESH_TTL_SECS = 30 * 24 * 3600"

definition register_oauth_client ::
  "auth_db \<Rightarrow> string \<Rightarrow> string option \<Rightarrow> string list \<Rightarrow> string \<Rightarrow> string \<Rightarrow> store_error + auth_db \<times> client_row" where
  "register_oauth_client db name client_uri redirect_uris random stamp =
     (if redirect_uris = [] then Inl NoRedirectUri
      else
        (let client = \<lparr>oc_id = OAUTH_CLIENT_PREFIX @ random, oc_name = name, oc_uri = client_uri,
                       oc_redirects = redirect_uris, oc_created = stamp, oc_last_used = None\<rparr>
         in if list_ex (\<lambda>c. oc_id c = oc_id client) (db_clients db) then Inl Constraint
            else Inr (db\<lparr>db_clients := db_clients db @ [client]\<rparr>, client)))"

definition oauth_client :: "auth_db \<Rightarrow> string \<Rightarrow> client_row option" where
  "oauth_client db client_id = find (\<lambda>c. oc_id c = client_id) (db_clients db)"

definition touch_oauth_client :: "auth_db \<Rightarrow> string \<Rightarrow> string \<Rightarrow> auth_db" where
  "touch_oauth_client db client_id stamp =
     db\<lparr>db_clients := update_where (\<lambda>c. oc_id c = client_id) (\<lambda>c. c\<lparr>oc_last_used := Some stamp\<rparr>) (db_clients db)\<rparr>"

definition prune_oauth_grants :: "auth_db \<Rightarrow> int \<Rightarrow> auth_db \<times> nat" where
  "prune_oauth_grants db now =
     (db\<lparr>db_oauth := delete_where (\<lambda>g. og_refresh_until g \<le> now) (db_oauth db)\<rparr>,
      changed (\<lambda>g. og_refresh_until g \<le> now) (db_oauth db))"

definition prune_oauth_clients :: "auth_db \<Rightarrow> string \<Rightarrow> string \<Rightarrow> auth_db \<times> nat" where
  "prune_oauth_clients db idle_cutoff unauthorized_cutoff =
     (let gone = (\<lambda>c. \<not> list_ex (\<lambda>g. og_client g = oc_id c) (db_oauth db)
                  \<and> (case oc_last_used c of
                       None \<Rightarrow> oc_created c < unauthorized_cutoff
                     | Some used \<Rightarrow> used < idle_cutoff))
      in (db\<lparr>db_clients := delete_where gone (db_clients db)\<rparr>, changed gone (db_clients db)))"

definition count_oauth_clients :: "auth_db \<Rightarrow> nat" where
  "count_oauth_clients db = length (db_clients db)"

section \<open>Grants\<close>

record issued_oauth_grant =
  ig_id :: int
  ig_access :: string
  ig_refresh :: string
  ig_expires_in :: nat

datatype refresh_outcome = Rotated issued_oauth_grant | Unknown | Replayed int | WrongTarget

definition insert_oauth_row :: "oauth_row \<Rightarrow> auth_db \<Rightarrow> store_error + auth_db" where
  "insert_oauth_row row db =
     (if list_ex (\<lambda>g. og_access g = og_access row \<or> og_refresh g = og_refresh row) (db_oauth db)
      then Inl Constraint
      else Inr (db\<lparr>db_oauth_seq := og_id row, db_oauth := db_oauth db @ [row]\<rparr>))"

definition issue_oauth_grant ::
  "auth_env \<Rightarrow> auth_db \<Rightarrow> string \<Rightarrow> string \<Rightarrow> string \<Rightarrow> string \<Rightarrow> string \<Rightarrow> int \<Rightarrow> string
     \<Rightarrow> store_error + auth_db \<times> issued_oauth_grant" where
  "issue_oauth_grant E db user client_id resource rand1 rand2 issued_at stamp =
     (case normalize_account_name (ae_lower E) user of
        Inl e \<Rightarrow> Inl e
      | Inr user \<Rightarrow>
          (let resource = normalize_resource resource;
               access_token = OAUTH_ACCESS_PREFIX @ rand1;
               refresh_token = OAUTH_REFRESH_PREFIX @ rand2
           in if resource = [] then Inl NoResource
              else (case require_live_user db user of
                 Inl e \<Rightarrow> Inl e
               | Inr _ \<Rightarrow>
                   if oauth_client db client_id = None then Inl NoSuchClient
                   else
                     (case insert_oauth_row
                             \<lparr>og_id = db_oauth_seq db + 1, og_user = user, og_client = client_id, og_resource = resource,
                              og_access = ae_hash E access_token, og_access_until = issued_at + OAUTH_ACCESS_TTL_SECS,
                              og_refresh = ae_hash E refresh_token, og_previous = None,
                              og_refresh_until = issued_at + OAUTH_REFRESH_TTL_SECS, og_created = stamp,
                              og_last_used = None\<rparr> db of
                        Inl e \<Rightarrow> Inl e
                      | Inr db1 \<Rightarrow>
                          Inr (db1, \<lparr>ig_id = db_oauth_seq db1, ig_access = access_token, ig_refresh = refresh_token,
                                     ig_expires_in = nat \<bar>OAUTH_ACCESS_TTL_SECS\<bar>\<rparr>)))))"

text \<open>\<open>oauth_grants g JOIN users u\<close> restricted to the rows a refresh may rotate.\<close>

definition live_refresh :: "auth_db \<Rightarrow> string \<Rightarrow> string \<Rightarrow> int \<Rightarrow> oauth_row \<Rightarrow> bool" where
  "live_refresh db presented client_id now g \<longleftrightarrow>
     og_refresh g = presented \<and> og_client g = client_id \<and> og_refresh_until g > now
     \<and> list_ex (\<lambda>u. ur_name u = og_user g \<and> \<not> ur_disabled u) (db_users db)"

definition rotated_row :: "auth_env \<Rightarrow> string \<Rightarrow> string \<Rightarrow> int \<Rightarrow> oauth_row \<Rightarrow> oauth_row" where
  "rotated_row E access_token next_refresh now g =
     g\<lparr>og_access := ae_hash E access_token, og_access_until := now + OAUTH_ACCESS_TTL_SECS,
       og_previous := Some (og_refresh g), og_refresh := ae_hash E next_refresh,
       og_refresh_until := now + OAUTH_REFRESH_TTL_SECS\<rparr>"

definition refresh_oauth_grant ::
  "auth_env \<Rightarrow> auth_db \<Rightarrow> string \<Rightarrow> string \<Rightarrow> string option \<Rightarrow> string \<Rightarrow> string \<Rightarrow> int
     \<Rightarrow> store_error + auth_db \<times> refresh_outcome" where
  "refresh_oauth_grant E db refresh_token client_id resource rand1 rand2 now =
     (let presented = ae_hash E refresh_token;
          access_token = OAUTH_ACCESS_PREFIX @ rand1;
          next_refresh = OAUTH_REFRESH_PREFIX @ rand2
      in case find (live_refresh db presented client_id now) (db_oauth db) of
           Some row \<Rightarrow>
             (let wrong_target = (case resource of
                    Some asked \<Rightarrow> normalize_resource asked \<noteq> normalize_resource (og_resource row)
                  | None \<Rightarrow> False);
                  clash = list_ex (\<lambda>g. og_id g \<noteq> og_id row
                    \<and> (og_access g = ae_hash E access_token \<or> og_refresh g = ae_hash E next_refresh)) (db_oauth db)
              in if wrong_target then Inr (db, WrongTarget)
                 else if clash then Inl Constraint
                 else Inr (db\<lparr>db_oauth := update_where (\<lambda>g. og_id g = og_id row)
                              (rotated_row E access_token next_refresh now) (db_oauth db)\<rparr>,
                      Rotated \<lparr>ig_id = og_id row, ig_access = access_token, ig_refresh = next_refresh,
                               ig_expires_in = nat \<bar>OAUTH_ACCESS_TTL_SECS\<bar>\<rparr>))
         | None \<Rightarrow>
             (case find (\<lambda>g. og_previous g = Some presented) (db_oauth db) of
                Some row \<Rightarrow>
                  Inr (db\<lparr>db_oauth := delete_where (\<lambda>g. og_id g = og_id row) (db_oauth db)\<rparr>, Replayed (og_id row))
              | None \<Rightarrow> Inr (db, Unknown)))"

definition oauth_access_user ::
  "auth_env \<Rightarrow> auth_db \<Rightarrow> string \<Rightarrow> string \<Rightarrow> int \<Rightarrow> string \<Rightarrow> auth_db \<times> user option" where
  "oauth_access_user E db token resource now stamp =
     (let resource = normalize_resource resource
      in if resource = [] then (db, None)
         else
           (let db1 = db\<lparr>db_oauth := delete_where (\<lambda>g. \<not> has_user db (og_user g)) (db_oauth db)\<rparr>
            in case joined og_user
                      (\<lambda>g. og_access g = ae_hash E token \<and> og_access_until g > now \<and> og_resource g = resource)
                      (db_oauth db1) db1 of
                 None \<Rightarrow> (db1, None)
               | Some (g, u) \<Rightarrow>
                   (let user = user_from_row u
                    in if u_disabled user then (db1, None)
                       else (db1\<lparr>db_oauth :=
                                   update_where (\<lambda>r. og_id r = og_id g) (\<lambda>r. r\<lparr>og_last_used := Some stamp\<rparr>)
                                     (db_oauth db1)\<rparr>, Some user))))"

record oauth_grant_info =
  gi_id :: int
  gi_client :: string
  gi_name :: string
  gi_host :: string
  gi_created :: string
  gi_last_used :: "string option"
  gi_refresh_until :: string

definition GONE_OAUTH_CLIENT :: string where
  "GONE_OAUTH_CLIENT = ''a client that is no longer registered''"

definition list_oauth_grants ::
  "auth_env \<Rightarrow> (string \<Rightarrow> string) \<Rightarrow> (int \<Rightarrow> string) \<Rightarrow> auth_db \<Rightarrow> string \<Rightarrow> int
     \<Rightarrow> store_error + oauth_grant_info list" where
  "list_oauth_grants E redirect_host rfc3339 db user now =
     (case normalize_account_name (ae_lower E) user of
        Inl e \<Rightarrow> Inl e
      | Inr user \<Rightarrow>
          Inr (map (\<lambda>g.
                 (let client = oauth_client db (og_client g);
                      redirects = (case client of Some c \<Rightarrow> oc_redirects c | None \<Rightarrow> [])
                  in \<lparr>gi_id = og_id g, gi_client = og_client g,
                      gi_name = (case client of Some c \<Rightarrow> oc_name c | None \<Rightarrow> GONE_OAUTH_CLIENT),
                      gi_host = (case redirects of [] \<Rightarrow> [] | uri # _ \<Rightarrow> redirect_host uri),
                      gi_created = og_created g, gi_last_used = og_last_used g,
                      gi_refresh_until = rfc3339 (og_refresh_until g)\<rparr>))
               (rev (sort_key og_created (sort_key og_id
                  (filter (\<lambda>g. og_user g = user \<and> og_refresh_until g > now) (db_oauth db)))))))"

definition revoke_oauth_grant :: "auth_env \<Rightarrow> auth_db \<Rightarrow> string \<Rightarrow> int \<Rightarrow> store_error + auth_db \<times> bool" where
  "revoke_oauth_grant E db user gid =
     (case normalize_account_name (ae_lower E) user of
        Inl e \<Rightarrow> Inl e
      | Inr user \<Rightarrow>
          (let hit = (\<lambda>g. og_id g = gid \<and> og_user g = user)
           in Inr (db\<lparr>db_oauth := delete_where hit (db_oauth db)\<rparr>, changed hit (db_oauth db) > 0)))"

definition revoke_oauth_grant_by_token :: "auth_env \<Rightarrow> auth_db \<Rightarrow> string \<Rightarrow> string \<Rightarrow> auth_db \<times> bool" where
  "revoke_oauth_grant_by_token E db token client_id =
     (let hit = (\<lambda>g. (og_access g = ae_hash E token \<or> og_refresh g = ae_hash E token) \<and> og_client g = client_id)
      in (db\<lparr>db_oauth := delete_where hit (db_oauth db)\<rparr>, changed hit (db_oauth db) > 0))"

section \<open>Draft share-links\<close>

definition overlay_live :: "auth_env \<Rightarrow> string \<Rightarrow> overlay_row \<Rightarrow> bool" where
  "overlay_live E now g =
     (if ov_revoked g \<noteq> None then False
      else (case ov_expires g of
              None \<Rightarrow> True
            | Some at \<Rightarrow> ae_after E at now = Some True))"

definition mint_overlay_grant ::
  "auth_env \<Rightarrow> auth_db \<Rightarrow> string \<Rightarrow> string \<Rightarrow> string \<Rightarrow> string option \<Rightarrow> string \<Rightarrow> string
     \<Rightarrow> store_error + auth_db \<times> int \<times> string" where
  "mint_overlay_grant E db domain path owner expires_at random stamp =
     (case normalize_account_name (ae_lower E) owner of
        Inl e \<Rightarrow> Inl e
      | Inr owner \<Rightarrow>
          (let token = DRAFT_LINK_PREFIX @ random
           in if list_ex (\<lambda>g. ov_hash g = ae_hash E token) (db_overlay db) then Inl Constraint
              else Inr (db\<lparr>db_overlay_seq := db_overlay_seq db + 1,
                           db_overlay := db_overlay db @
                             [\<lparr>ov_id = db_overlay_seq db + 1, ov_domain = domain, ov_path = path, ov_owner = owner,
                               ov_grantee = None, ov_hash = ae_hash E token, ov_created = stamp,
                               ov_expires = expires_at, ov_revoked = None\<rparr>]\<rparr>,
                        db_overlay_seq db + 1, token)))"

definition redeem_overlay_grant ::
  "auth_env \<Rightarrow> auth_db \<Rightarrow> string \<Rightarrow> string \<Rightarrow> string \<Rightarrow> store_error + auth_db \<times> overlay_row option" where
  "redeem_overlay_grant E db token account now =
     (case normalize_account_name (ae_lower E) account of
        Inl e \<Rightarrow> Inl e
      | Inr account \<Rightarrow>
          (case find (\<lambda>g. ov_hash g = ae_hash E token) (db_overlay db) of
             None \<Rightarrow> Inr (db, None)
           | Some grant \<Rightarrow>
               if \<not> overlay_live E now grant then Inr (db, None)
               else (case ov_grantee grant of
                       Some held \<Rightarrow> Inr (db, if held = account then Some grant else None)
                     | None \<Rightarrow>
                         Inr (db\<lparr>db_overlay :=
                                   update_where (\<lambda>g. ov_id g = ov_id grant \<and> ov_grantee g = None)
                                     (\<lambda>g. g\<lparr>ov_grantee := Some account\<rparr>) (db_overlay db)\<rparr>,
                              Some (grant\<lparr>ov_grantee := Some account\<rparr>)))))"

definition overlay_grants_of ::
  "auth_env \<Rightarrow> auth_db \<Rightarrow> string \<Rightarrow> string \<Rightarrow> string \<Rightarrow> string \<Rightarrow> store_error + overlay_row list" where
  "overlay_grants_of E db owner domain path now =
     (case normalize_account_name (ae_lower E) owner of
        Inl e \<Rightarrow> Inl e
      | Inr owner \<Rightarrow>
          Inr (filter (overlay_live E now) (rev (sort_key ov_id
                 (filter (\<lambda>g. ov_owner g = owner \<and> ov_domain g = domain \<and> ov_path g = path \<and> ov_revoked g = None)
                    (db_overlay db))))))"

definition revoke_overlay_grant ::
  "auth_env \<Rightarrow> auth_db \<Rightarrow> string \<Rightarrow> int \<Rightarrow> bool \<Rightarrow> string \<Rightarrow> store_error + auth_db \<times> overlay_row option" where
  "revoke_overlay_grant E db owner gid as_admin stamp =
     (case normalize_account_name (ae_lower E) owner of
        Inl e \<Rightarrow> Inl e
      | Inr owner \<Rightarrow>
          (let hit = (\<lambda>g. ov_id g = gid \<and> (as_admin \<or> ov_owner g = owner) \<and> ov_revoked g = None)
           in case find hit (db_overlay db) of
                None \<Rightarrow> Inr (db, None)
              | Some grant \<Rightarrow>
                  Inr (db\<lparr>db_overlay := update_where hit (\<lambda>g. g\<lparr>ov_revoked := Some stamp\<rparr>) (db_overlay db)\<rparr>,
                       Some (grant\<lparr>ov_revoked := Some stamp\<rparr>))))"

definition overlay_grants_held ::
  "auth_env \<Rightarrow> auth_db \<Rightarrow> string \<Rightarrow> string \<Rightarrow> string \<Rightarrow> store_error + overlay_row list" where
  "overlay_grants_held E db account domain now =
     (case normalize_account_name (ae_lower E) account of
        Inl e \<Rightarrow> Inl e
      | Inr account \<Rightarrow>
          Inr (filter (overlay_live E now) (rev (sort_key ov_id
                 (filter (\<lambda>g. ov_grantee g = Some account \<and> ov_domain g = domain \<and> ov_revoked g = None)
                    (db_overlay db))))))"

definition overlay_grant_for ::
  "auth_env \<Rightarrow> auth_db \<Rightarrow> string \<Rightarrow> string \<Rightarrow> string \<Rightarrow> string \<Rightarrow> store_error + string option" where
  "overlay_grant_for E db account domain path now =
     (case normalize_account_name (ae_lower E) account of
        Inl e \<Rightarrow> Inl e
      | Inr account \<Rightarrow>
          Inr (map_option ov_owner (find (overlay_live E now) (rev (sort_key ov_id
                 (filter (\<lambda>g. ov_grantee g = Some account \<and> ov_domain g = domain \<and> ov_path g = path
                     \<and> ov_revoked g = None) (db_overlay db)))))))"

definition overlay_grant_domain :: "auth_env \<Rightarrow> auth_db \<Rightarrow> string \<Rightarrow> string \<Rightarrow> string option" where
  "overlay_grant_domain E db token now =
     (case find (\<lambda>g. ov_hash g = ae_hash E token) (db_overlay db) of
        None \<Rightarrow> None
      | Some grant \<Rightarrow> if overlay_live E now grant then Some (ov_domain grant) else None)"

definition end_overlay_grants ::
  "auth_env \<Rightarrow> auth_db \<Rightarrow> string \<Rightarrow> string \<Rightarrow> string \<Rightarrow> string \<Rightarrow> store_error + auth_db \<times> nat" where
  "end_overlay_grants E db domain owner path stamp =
     (case normalize_account_name (ae_lower E) owner of
        Inl e \<Rightarrow> Inl e
      | Inr owner \<Rightarrow>
          (let hit = (\<lambda>g. ov_domain g = domain \<and> ov_owner g = owner \<and> ov_path g = path \<and> ov_revoked g = None)
           in Inr (db\<lparr>db_overlay := update_where hit (\<lambda>g. g\<lparr>ov_revoked := Some stamp\<rparr>) (db_overlay db)\<rparr>,
                   changed hit (db_overlay db))))"

definition end_overlay_grants_of_owner ::
  "auth_env \<Rightarrow> auth_db \<Rightarrow> string \<Rightarrow> string \<Rightarrow> store_error + auth_db \<times> nat" where
  "end_overlay_grants_of_owner E db owner stamp =
     (case normalize_account_name (ae_lower E) owner of
        Inl e \<Rightarrow> Inl e
      | Inr owner \<Rightarrow>
          (let hit = (\<lambda>g. ov_owner g = owner \<and> ov_revoked g = None)
           in Inr (db\<lparr>db_overlay := update_where hit (\<lambda>g. g\<lparr>ov_revoked := Some stamp\<rparr>) (db_overlay db)\<rparr>,
                   changed hit (db_overlay db))))"

definition end_domain_overlay_grants :: "auth_db \<Rightarrow> string \<Rightarrow> string \<Rightarrow> auth_db \<times> nat" where
  "end_domain_overlay_grants db domain stamp =
     (let hit = (\<lambda>g. ov_domain g = domain \<and> ov_revoked g = None)
      in (db\<lparr>db_overlay := update_where hit (\<lambda>g. g\<lparr>ov_revoked := Some stamp\<rparr>) (db_overlay db)\<rparr>,
          changed hit (db_overlay db)))"

end
