(* ===== verification/Membership.thy ===== *)
theory Membership
  imports Identities OauthGrants
begin

text \<open>
  Visibility, membership, Reflection grants and write lists of \<open>identity/src/auth_store.rs\<close>:
  who owns a private domain, who is invited to it, and where an account may write.
\<close>

definition VISIBILITY_PRIVATE :: string where "VISIBILITY_PRIVATE = ''private''"
definition PRINCIPAL_USER :: string where "PRINCIPAL_USER = ''user''"

section \<open>Visibility\<close>

record domain_acl =
  acl_domain :: string
  acl_owner :: string

definition acl_of :: "auth_db \<Rightarrow> string \<Rightarrow> domain_acl option" where
  "acl_of db domain =
     map_option (\<lambda>a. \<lparr>acl_domain = domain, acl_owner = al_owner a\<rparr>)
       (find (\<lambda>a. al_domain a = domain) (db_acl db))"

definition domain_visibility :: "auth_db \<Rightarrow> string \<Rightarrow> store_error + domain_acl option" where
  "domain_visibility db domain =
     (case normalize_domain domain of Inl e \<Rightarrow> Inl e | Inr domain \<Rightarrow> Inr (acl_of db domain))"

definition private_domains :: "auth_db \<Rightarrow> domain_acl list" where
  "private_domains db =
     map (\<lambda>a. \<lparr>acl_domain = al_domain a, acl_owner = al_owner a\<rparr>) (sort_key al_domain (db_acl db))"

datatype visibility_write = Written | AlreadyPrivate string

definition delete_members_of_domain :: "string \<Rightarrow> auth_db \<Rightarrow> auth_db" where
  "delete_members_of_domain domain db =
     db\<lparr>db_members := delete_where (\<lambda>m. mb_domain m = domain) (db_members db)\<rparr>"

definition delete_acl_of_domain :: "string \<Rightarrow> auth_db \<Rightarrow> auth_db" where
  "delete_acl_of_domain domain db = db\<lparr>db_acl := delete_where (\<lambda>a. al_domain a = domain) (db_acl db)\<rparr>"

definition is_member_row :: "string \<Rightarrow> string \<Rightarrow> member_row \<Rightarrow> bool" where
  "is_member_row domain who m \<longleftrightarrow>
     mb_domain m = domain \<and> mb_kind m = PRINCIPAL_USER \<and> mb_principal m = who"

definition delete_member_row :: "string \<Rightarrow> string \<Rightarrow> auth_db \<Rightarrow> auth_db" where
  "delete_member_row domain who db =
     db\<lparr>db_members := delete_where (is_member_row domain who) (db_members db)\<rparr>"

definition write_visibility ::
  "auth_env \<Rightarrow> auth_db \<Rightarrow> string \<Rightarrow> bool \<Rightarrow> string \<Rightarrow> bool \<Rightarrow> string \<Rightarrow> store_error + auth_db \<times> visibility_write" where
  "write_visibility E db domain private owner check_owner stamp =
     (case normalize_domain domain of
        Inl e \<Rightarrow> Inl e
      | Inr domain \<Rightarrow>
     (case normalize_account_name (ae_lower E) owner of
        Inl e \<Rightarrow> Inl e
      | Inr owner \<Rightarrow>
          if \<not> private then
            Inr (delete_acl_of_domain domain (delete_members_of_domain domain db), Written)
          else
            (case acl_of db domain of
               Some acl \<Rightarrow> Inr (db, AlreadyPrivate (acl_owner acl))
             | None \<Rightarrow>
                 (case (if check_owner then require_live_user db owner else Inr ()) of
                    Inl e \<Rightarrow> Inl e
                  | Inr _ \<Rightarrow>
                      (let db1 = delete_acl_of_domain domain db;
                           db2 = delete_member_row domain owner db1
                       in Inr (db2\<lparr>db_acl := db_acl db2 @
                                 [\<lparr>al_domain = domain, al_visibility = VISIBILITY_PRIVATE, al_owner = owner,
                                   al_updated = stamp\<rparr>]\<rparr>, Written))))))"

definition set_domain_visibility ::
  "auth_env \<Rightarrow> auth_db \<Rightarrow> string \<Rightarrow> bool \<Rightarrow> string \<Rightarrow> string \<Rightarrow> store_error + auth_db \<times> visibility_write" where
  "set_domain_visibility E db domain private owner stamp =
     write_visibility E db domain private owner True stamp"

definition set_governed_private ::
  "auth_env \<Rightarrow> auth_db \<Rightarrow> string \<Rightarrow> string \<Rightarrow> string \<Rightarrow> store_error + auth_db \<times> visibility_write" where
  "set_governed_private E db domain set_by stamp =
     (case normalize_account_name (ae_lower E) set_by of
        Inl e \<Rightarrow> Inl e
      | Inr folded \<Rightarrow> write_visibility E db domain True set_by (folded \<noteq> OWNER_IDENTITY_NAME) stamp)"

definition take_back_governed_private :: "auth_db \<Rightarrow> string \<Rightarrow> store_error + auth_db \<times> bool" where
  "take_back_governed_private db domain =
     (case normalize_domain domain of
        Inl e \<Rightarrow> Inl e
      | Inr domain \<Rightarrow> Inr (delete_acl_of_domain domain db, acl_of db domain \<noteq> None))"

definition forget_domain :: "auth_db \<Rightarrow> string \<Rightarrow> store_error + auth_db \<times> bool" where
  "forget_domain db domain =
     (case normalize_domain domain of
        Inl e \<Rightarrow> Inl e
      | Inr domain \<Rightarrow>
          (let db1 = delete_members_of_domain domain db;
               db2 = db1\<lparr>db_reflection := delete_where (\<lambda>g. rg_domain g = domain) (db_reflection db1)\<rparr>
           in Inr (delete_acl_of_domain domain db2, acl_of db domain \<noteq> None)))"

text \<open>Renaming a domain: the write lists first, then every record under the old name.\<close>

fun rename_holders :: "string \<Rightarrow> string \<Rightarrow> string list \<Rightarrow> write_row list \<Rightarrow> write_row list" where
  "rename_holders old new [] rows = rows"
| "rename_holders old new (account # accounts) rows =
     (let both = list_ex (\<lambda>w. wr_account w = account \<and> wr_pattern w = new) rows;
          hit = (\<lambda>w. wr_account w = account \<and> wr_pattern w = old)
      in rename_holders old new accounts
           (if both then delete_where hit rows else update_where hit (\<lambda>w. w\<lparr>wr_pattern := new\<rparr>) rows))"

definition has_records :: "auth_db \<Rightarrow> string \<Rightarrow> bool" where
  "has_records db domain \<longleftrightarrow>
     list_ex (\<lambda>a. al_domain a = domain) (db_acl db)
     \<or> list_ex (\<lambda>m. mb_domain m = domain) (db_members db)
     \<or> list_ex (\<lambda>g. ov_domain g = domain) (db_overlay db)
     \<or> list_ex (\<lambda>g. rg_domain g = domain) (db_reflection db)"

definition move_records :: "string \<Rightarrow> string \<Rightarrow> auth_db \<Rightarrow> auth_db" where
  "move_records old new db =
     db\<lparr>db_acl := update_where (\<lambda>a. al_domain a = old) (\<lambda>a. a\<lparr>al_domain := new\<rparr>)
          (delete_where (\<lambda>a. al_domain a = new) (db_acl db)),
        db_members := update_where (\<lambda>m. mb_domain m = old) (\<lambda>m. m\<lparr>mb_domain := new\<rparr>)
          (delete_where (\<lambda>m. mb_domain m = new) (db_members db)),
        db_overlay := update_where (\<lambda>g. ov_domain g = old) (\<lambda>g. g\<lparr>ov_domain := new\<rparr>)
          (delete_where (\<lambda>g. ov_domain g = new) (db_overlay db)),
        db_reflection := update_where (\<lambda>g. rg_domain g = old) (\<lambda>g. g\<lparr>rg_domain := new\<rparr>)
          (delete_where (\<lambda>g. rg_domain g = new) (db_reflection db))\<rparr>"

definition rename_domain :: "auth_db \<Rightarrow> string \<Rightarrow> string \<Rightarrow> store_error + auth_db" where
  "rename_domain db old new =
     (case normalize_domain old of
        Inl e \<Rightarrow> Inl e
      | Inr old \<Rightarrow>
     (case normalize_domain new of
        Inl e \<Rightarrow> Inl e
      | Inr new \<Rightarrow>
          if old = new then Inr db
          else
            (let holders = map wr_account (filter (\<lambda>w. wr_pattern w = old) (db_writes db));
                 db1 = db\<lparr>db_writes := rename_holders old new holders (db_writes db)\<rparr>
             in Inr (if has_records db1 old then move_records old new db1 else db1))))"

definition transfer_domain ::
  "auth_env \<Rightarrow> auth_db \<Rightarrow> string \<Rightarrow> string \<Rightarrow> string \<Rightarrow> store_error + auth_db" where
  "transfer_domain E db domain new_owner stamp =
     (case normalize_domain domain of
        Inl e \<Rightarrow> Inl e
      | Inr domain \<Rightarrow>
     (case normalize_account_name (ae_lower E) new_owner of
        Inl e \<Rightarrow> Inl e
      | Inr new_owner \<Rightarrow>
          if acl_of db domain = None then Inl (Refused NotPrivate)
          else (case require_live_user db new_owner of
                  Inl e \<Rightarrow> Inl e
                | Inr _ \<Rightarrow>
                    Inr (delete_member_row domain new_owner
                      (db\<lparr>db_acl := update_where (\<lambda>a. al_domain a = domain)
                            (\<lambda>a. a\<lparr>al_owner := new_owner, al_updated := stamp\<rparr>) (db_acl db)\<rparr>)))))"

section \<open>Members\<close>

record domain_member =
  dm_principal :: string
  dm_level :: member_level
  dm_reflection :: reflection_level
  dm_added_by :: string
  dm_added_at :: string

definition member_from_row :: "member_row \<Rightarrow> domain_member" where
  "member_from_row m =
     \<lparr>dm_principal = mb_principal m, dm_level = member_level_from_db (mb_level m),
      dm_reflection = reflection_level_from_db (mb_reflection m), dm_added_by = mb_added_by m,
      dm_added_at = mb_added_at m\<rparr>"

definition domain_members :: "auth_db \<Rightarrow> string \<Rightarrow> store_error + domain_member list" where
  "domain_members db domain =
     (case normalize_domain domain of
        Inl e \<Rightarrow> Inl e
      | Inr domain \<Rightarrow>
          Inr (map member_from_row (sort_key mb_principal
                 (filter (\<lambda>m. mb_domain m = domain \<and> mb_kind m = PRINCIPAL_USER) (db_members db)))))"

definition member_reflection_in_tx :: "auth_db \<Rightarrow> string \<Rightarrow> string \<Rightarrow> reflection_level" where
  "member_reflection_in_tx db domain who =
     reflection_level_from_db
       (Option.bind (find (is_member_row domain who) (db_members db)) mb_reflection)"

definition member_reflection :: "auth_env \<Rightarrow> auth_db \<Rightarrow> string \<Rightarrow> string \<Rightarrow> store_error + reflection_level" where
  "member_reflection E db domain who =
     (case normalize_domain domain of
        Inl e \<Rightarrow> Inl e
      | Inr domain \<Rightarrow>
     (case normalize_account_name (ae_lower E) who of
        Inl e \<Rightarrow> Inl e
      | Inr who \<Rightarrow> Inr (member_reflection_in_tx db domain who)))"

definition upsert_domain_member ::
  "auth_env \<Rightarrow> auth_db \<Rightarrow> string \<Rightarrow> string \<Rightarrow> member_level \<Rightarrow> reflection_level option \<Rightarrow> string \<Rightarrow> string
     \<Rightarrow> store_error + auth_db" where
  "upsert_domain_member E db domain who level reflection added_by stamp =
     (case normalize_domain domain of
        Inl e \<Rightarrow> Inl e
      | Inr domain \<Rightarrow>
     (case normalize_account_name (ae_lower E) who of
        Inl e \<Rightarrow> Inl e
      | Inr who \<Rightarrow>
          (let added_by = trim added_by
           in if added_by = [] then Inl NoActor
              else (case acl_of db domain of
                 None \<Rightarrow> Inl (Refused NotPrivate)
               | Some acl \<Rightarrow>
                   if acl_owner acl = who then Inl (Refused OwnerIsNotAMember)
                   else (case require_live_user db who of
                           Inl e \<Rightarrow> Inl e
                         | Inr _ \<Rightarrow>
                             (let reflection = (case reflection of
                                                  Some r \<Rightarrow> r
                                                | None \<Rightarrow> member_reflection_in_tx db domain who)
                              in if level = LevelNone \<and> reflection = DefaultLevel
                                 then Inl (Refused EmptyMembership)
                                 else
                                   (let db1 = delete_member_row domain who db
                                    in Inr (db1\<lparr>db_members := db_members db1 @
                                          [\<lparr>mb_domain = domain, mb_kind = PRINCIPAL_USER, mb_principal = who,
                                            mb_level = member_level_as_str level,
                                            mb_reflection = reflection_to_db reflection,
                                            mb_added_by = added_by, mb_added_at = stamp\<rparr>]\<rparr>))))))))"

definition remove_domain_member ::
  "auth_env \<Rightarrow> auth_db \<Rightarrow> string \<Rightarrow> string \<Rightarrow> store_error + auth_db \<times> bool" where
  "remove_domain_member E db domain who =
     (case normalize_domain domain of
        Inl e \<Rightarrow> Inl e
      | Inr domain \<Rightarrow>
     (case normalize_account_name (ae_lower E) who of
        Inl e \<Rightarrow> Inl e
      | Inr who \<Rightarrow>
          Inr (delete_member_row domain who db,
               changed (is_member_row domain who) (db_members db) > 0)))"

definition memberships_of :: "auth_env \<Rightarrow> auth_db \<Rightarrow> string \<Rightarrow> store_error + (string \<times> member_level) list" where
  "memberships_of E db user =
     (case normalize_account_name (ae_lower E) user of
        Inl e \<Rightarrow> Inl e
      | Inr user \<Rightarrow>
          Inr (map (\<lambda>m. (mb_domain m, member_level_from_db (mb_level m)))
                 (sort_key mb_domain
                    (filter (\<lambda>m. mb_kind m = PRINCIPAL_USER \<and> mb_principal m = user) (db_members db)))))"

section \<open>Reflection collaborators\<close>

record reflection_grant_info =
  rc_account :: string
  rc_level :: reflection_level
  rc_added_by :: string
  rc_added_at :: string

definition set_reflection_grant ::
  "auth_env \<Rightarrow> auth_db \<Rightarrow> string \<Rightarrow> string \<Rightarrow> reflection_level \<Rightarrow> string \<Rightarrow> string \<Rightarrow> store_error + auth_db" where
  "set_reflection_grant E db domain account level added_by stamp =
     (case normalize_domain domain of
        Inl e \<Rightarrow> Inl e
      | Inr domain \<Rightarrow>
     (case normalize_account_name (ae_lower E) account of
        Inl e \<Rightarrow> Inl e
      | Inr account \<Rightarrow>
          (let added_by = trim added_by
           in if added_by = [] then Inl NoActor
              else if level = DefaultLevel then Inl (Refused EmptyMembership)
              else if account = OWNER_IDENTITY_NAME then Inl (Refused NoSuchAccount)
              else (case require_live_user db account of
                      Inl e \<Rightarrow> Inl e
                    | Inr _ \<Rightarrow>
                        Inr (db\<lparr>db_reflection :=
                               delete_where (\<lambda>g. rg_domain g = domain \<and> rg_account g = account) (db_reflection db) @
                               [\<lparr>rg_domain = domain, rg_account = account, rg_level = reflection_level_as_str level,
                                 rg_added_by = added_by, rg_added_at = stamp\<rparr>]\<rparr>)))))"

definition remove_reflection_grant ::
  "auth_env \<Rightarrow> auth_db \<Rightarrow> string \<Rightarrow> string \<Rightarrow> store_error + auth_db \<times> bool" where
  "remove_reflection_grant E db domain account =
     (case normalize_domain domain of
        Inl e \<Rightarrow> Inl e
      | Inr domain \<Rightarrow>
     (case normalize_account_name (ae_lower E) account of
        Inl e \<Rightarrow> Inl e
      | Inr account \<Rightarrow>
          (let hit = (\<lambda>g. rg_domain g = domain \<and> rg_account g = account)
           in Inr (db\<lparr>db_reflection := delete_where hit (db_reflection db)\<rparr>,
                   changed hit (db_reflection db) > 0))))"

definition reflection_grants :: "auth_db \<Rightarrow> string \<Rightarrow> store_error + reflection_grant_info list" where
  "reflection_grants db domain =
     (case normalize_domain domain of
        Inl e \<Rightarrow> Inl e
      | Inr domain \<Rightarrow>
          Inr (filter (\<lambda>g. rc_level g \<noteq> DefaultLevel)
                (map (\<lambda>g. \<lparr>rc_account = rg_account g, rc_level = reflection_level_from_db (Some (rg_level g)),
                           rc_added_by = rg_added_by g, rc_added_at = rg_added_at g\<rparr>)
                   (sort_key rg_account (filter (\<lambda>g. rg_domain g = domain) (db_reflection db))))))"

definition reflection_grant ::
  "auth_env \<Rightarrow> auth_db \<Rightarrow> string \<Rightarrow> string \<Rightarrow> store_error + reflection_level option" where
  "reflection_grant E db domain account =
     (case normalize_domain domain of
        Inl e \<Rightarrow> Inl e
      | Inr domain \<Rightarrow>
     (case normalize_account_name (ae_lower E) account of
        Inl e \<Rightarrow> Inl e
      | Inr account \<Rightarrow>
          Inr (case reflection_level_from_db (map_option rg_level
                      (find (\<lambda>g. rg_domain g = domain \<and> rg_account g = account) (db_reflection db))) of
                 DefaultLevel \<Rightarrow> None
               | level \<Rightarrow> Some level)))"

section \<open>Write lists\<close>

definition write_list_of :: "auth_db \<Rightarrow> string \<Rightarrow> string list option" where
  "write_list_of db account =
     (let out = sort (map wr_pattern (filter (\<lambda>w. wr_account w = account) (db_writes db)))
      in if out = [] then None else Some out)"

definition write_list :: "auth_env \<Rightarrow> auth_db \<Rightarrow> string \<Rightarrow> store_error + string list option" where
  "write_list E db account =
     (case normalize_account_name (ae_lower E) account of
        Inl e \<Rightarrow> Inl e
      | Inr account \<Rightarrow> Inr (write_list_of db account))"

fun write_entries :: "string list \<Rightarrow> string list \<Rightarrow> string list" where
  "write_entries [] entries = entries"
| "write_entries (pattern # patterns) entries =
     (let pattern = trim pattern
      in write_entries patterns
           (if pattern \<noteq> [] \<and> pattern \<notin> set entries then entries @ [pattern] else entries))"

definition set_write_list :: "auth_env \<Rightarrow> auth_db \<Rightarrow> string \<Rightarrow> string list \<Rightarrow> store_error + auth_db" where
  "set_write_list E db account patterns =
     (case normalize_account_name (ae_lower E) account of
        Inl e \<Rightarrow> Inl e
      | Inr account \<Rightarrow>
          (let entries = write_entries patterns []
           in if entries = [] then Inl EmptyWriteList
              else (case require_user_row db account of
                      Inl e \<Rightarrow> Inl e
                    | Inr _ \<Rightarrow>
                        (let db1 = delete_write_list_of account db
                         in Inr (db1\<lparr>db_writes := db_writes db1 @
                                  map (\<lambda>p. \<lparr>wr_account = account, wr_pattern = p\<rparr>) entries\<rparr>)))))"

definition clear_write_list :: "auth_env \<Rightarrow> auth_db \<Rightarrow> string \<Rightarrow> store_error + auth_db" where
  "clear_write_list E db account =
     (case normalize_account_name (ae_lower E) account of
        Inl e \<Rightarrow> Inl e
      | Inr account \<Rightarrow>
          (case require_user_row db account of
             Inl e \<Rightarrow> Inl e
           | Inr _ \<Rightarrow> Inr (delete_write_list_of account db)))"

end
