(* ===== verification/Trimming.thy ===== *)
theory Trimming
  imports Prelude
begin

text \<open>
  Trimmed text: what \<open>trim\<close> cuts off, and which text it leaves alone.
\<close>

definition no_lead :: "string \<Rightarrow> bool" where
  "no_lead s \<longleftrightarrow> (\<forall>w\<in>set ws_chars. \<not> starts_with w s)"

definition no_trail :: "string \<Rightarrow> bool" where
  "no_trail s \<longleftrightarrow> (\<forall>w\<in>set ws_chars. \<not> ends_with w s)"

lemma ws_chars_not_Nil: "w \<in> set ws_chars \<Longrightarrow> w \<noteq> []"
  by (auto simp: ws_chars_def ws_bytes_def)

lemma no_lead_Nil [simp]: "no_lead []"
  by (auto simp: no_lead_def starts_with_def dest: ws_chars_not_Nil)

lemma no_trail_Nil [simp]: "no_trail []"
  by (auto simp: no_trail_def ends_with_def starts_with_def dest: ws_chars_not_Nil)

lemma trim_ws_decomp:
  assumes "\<forall>w\<in>set ws. w \<noteq> []"
  shows "\<exists>x. s = x @ trim_ws ws s"
    and "\<forall>w\<in>set ws. \<not> starts_with w (trim_ws ws s)"
    and "\<forall>w\<in>set ws. \<not> starts_with w s \<Longrightarrow> trim_ws ws s = s"
proof -
  have "(\<exists>x. s = x @ trim_ws ws s) \<and> (\<forall>w\<in>set ws. \<not> starts_with w (trim_ws ws s))"
    using assms
  proof (induction ws s rule: trim_ws.induct)
    case (1 ws s)
    show ?case
    proof (cases "ws_prefix ws s = 0 \<or> s = []")
      case True
      then have t: "trim_ws ws s = s" by (subst trim_ws.simps) (simp add: Let_def)
      have "\<not> starts_with w s" if w: "w \<in> set ws" for w
      proof
        assume st: "starts_with w s"
        then have "s \<noteq> []" using w 1(2) by (auto simp: starts_with_def)
        then have "ws_prefix ws s = 0" using True by simp
        moreover from st w obtain v where f: "find (\<lambda>w. starts_with w s) ws = Some v"
          by (cases "find (\<lambda>w. starts_with w s) ws") (auto simp: find_None_iff)
        ultimately have "v = []" by (simp add: ws_prefix_def)
        with f have "[] \<in> set ws" by (metis find_Some_iff nth_mem)
        with 1(2) show False by blast
      qed
      with t show ?thesis by simp
    next
      case False
      then have t: "trim_ws ws s = trim_ws ws (drop (ws_prefix ws s) s)"
        by (subst trim_ws.simps) (simp add: Let_def)
      from 1(1) [OF refl False 1(2)] obtain x where
        x: "drop (ws_prefix ws s) s = x @ trim_ws ws (drop (ws_prefix ws s) s)" by blast
      then have "s = (take (ws_prefix ws s) s @ x) @ trim_ws ws s"
        using t by (metis append.assoc append_take_drop_id)
      with 1(1) [OF refl False 1(2)] t show ?thesis by metis
    qed
  qed
  then show "\<exists>x. s = x @ trim_ws ws s" "\<forall>w\<in>set ws. \<not> starts_with w (trim_ws ws s)" by blast+
  assume "\<forall>w\<in>set ws. \<not> starts_with w s"
  then have "find (\<lambda>w. starts_with w s) ws = None" by (simp add: find_None_iff)
  then show "trim_ws ws s = s" by (subst trim_ws.simps) (simp add: ws_prefix_def)
qed

lemma ws_nonempty: "\<forall>w\<in>set ws_chars. w \<noteq> []" "\<forall>w\<in>set (map rev ws_chars). w \<noteq> []"
  using ws_chars_not_Nil by auto

lemma starts_with_prefix: "starts_with w s \<Longrightarrow> starts_with w (s @ t)"
  by (auto simp: starts_with_iff)

lemma ends_with_suffix: "ends_with w s \<Longrightarrow> ends_with w (t @ s)"
  by (auto simp: ends_with_iff)

lemma trim_start_form: "\<exists>x. s = x @ trim_start s" "no_lead (trim_start s)" "no_lead s \<Longrightarrow> trim_start s = s"
  unfolding trim_start_def no_lead_def using trim_ws_decomp [OF ws_nonempty(1)] by blast+

lemma trim_end_form: "\<exists>y. s = trim_end s @ y" "no_trail (trim_end s)" "no_trail s \<Longrightarrow> trim_end s = s"
proof -
  obtain x where "rev s = x @ trim_ws (map rev ws_chars) (rev s)"
    using trim_ws_decomp(1) [OF ws_nonempty(2)] by blast
  then have "s = trim_end s @ rev x"
    unfolding trim_end_def by (metis rev_append rev_rev_ident)
  then show "\<exists>y. s = trim_end s @ y" ..
  show "no_trail (trim_end s)"
    using trim_ws_decomp(2) [OF ws_nonempty(2), of "rev s"]
    by (simp add: no_trail_def ends_with_def trim_end_def)
  assume "no_trail s"
  then have "\<forall>w\<in>set (map rev ws_chars). \<not> starts_with w (rev s)"
    by (simp add: no_trail_def ends_with_def)
  from trim_ws_decomp(3) [OF ws_nonempty(2) this] show "trim_end s = s"
    by (simp add: trim_end_def)
qed

lemma trim_form: "\<exists>x y. s = x @ trim s @ y" "no_lead (trim s)" "no_trail (trim s)"
proof -
  obtain x where x: "s = x @ trim_start s" using trim_start_form(1) by blast
  obtain y where y: "trim_start s = trim s @ y" unfolding trim_def using trim_end_form(1) by blast
  show "\<exists>x y. s = x @ trim s @ y" using x y by metis
  show "no_trail (trim s)" unfolding trim_def by (rule trim_end_form)
  show "no_lead (trim s)"
    using trim_start_form(2) [of s] starts_with_prefix [of _ "trim s" y] unfolding y no_lead_def by blast
qed

lemma trim_fixed: "no_lead s \<Longrightarrow> no_trail s \<Longrightarrow> trim s = s"
  by (simp add: trim_def trim_start_form trim_end_form)

lemma trim_idem [simp]: "trim (trim s) = trim s"
  by (rule trim_fixed) (rule trim_form)+

lemma trim_Nil [simp]: "trim [] = []"
  by (rule trim_fixed) simp_all

lemma trim_prefix: "no_lead s \<Longrightarrow> \<exists>y. s = trim s @ y"
  unfolding trim_def using trim_end_form(1) [of s] by (simp add: trim_start_form)

lemma set_trim: "set (trim s) \<subseteq> set s"
proof -
  obtain x y where "s = x @ trim s @ y" using trim_form(1) by blast
  then have "set s = set x \<union> set (trim s) \<union> set y" by (metis set_append sup_assoc)
  then show ?thesis by blast
qed

lemma no_lead_join:
  assumes "no_lead a" "\<not> ws_byte x" shows "no_lead (a @ x # b)"
  unfolding no_lead_def
proof
  fix w assume w: "w \<in> set ws_chars"
  show "\<not> starts_with w (a @ x # b)"
  proof
    assume "starts_with w (a @ x # b)"
    then obtain r where r: "a @ x # b = w @ r" by (auto simp: starts_with_iff)
    then consider u where "w @ u = a" | u where "w = a @ x # u"
      by (auto simp: append_eq_append_conv2 append_eq_Cons_conv Cons_eq_append_conv)
    then show False
    proof cases
      case 1
      then show ?thesis using assms(1) w by (auto simp: no_lead_def)
    next
      case 2
      then have "x \<in> set w" by simp
      then show ?thesis using assms(2) w by (auto simp: ws_byte_def)
    qed
  qed
qed

lemma no_trail_join:
  assumes "no_trail b" "\<not> ws_byte x" shows "no_trail (a @ x # b)"
  unfolding no_trail_def
proof
  fix w assume w: "w \<in> set ws_chars"
  show "\<not> ends_with w (a @ x # b)"
  proof
    assume "ends_with w (a @ x # b)"
    then obtain r where r: "a @ x # b = r @ w" by (auto simp: ends_with_iff)
    then consider u where "b = u @ w" | u where "w = u @ x # b"
      by (auto simp: append_eq_append_conv2 append_eq_Cons_conv Cons_eq_append_conv)
    then show False
    proof cases
      case 1
      then show ?thesis using assms(1) w by (auto simp: no_trail_def ends_with_iff)
    next
      case 2
      then have "x \<in> set w" by simp
      then show ?thesis using assms(2) w by (auto simp: ws_byte_def)
    qed
  qed
qed

lemma trim_ws_all:
  assumes "\<forall>w\<in>set ws. w \<noteq> []" "trim_ws ws s = []" "s \<noteq> []"
  shows "\<exists>w\<in>set ws. ends_with w s"
  using assms
proof (induction ws s rule: trim_ws.induct)
  case (1 ws s)
  have n: "ws_prefix ws s \<noteq> 0"
  proof
    assume "ws_prefix ws s = 0"
    then have "trim_ws ws s = s" by (subst trim_ws.simps) (simp add: Let_def)
    with 1(3,4) show False by simp
  qed
  then obtain w where w: "find (\<lambda>w. starts_with w s) ws = Some w" "ws_prefix ws s = length w"
    by (auto simp: ws_prefix_def split: option.splits)
  then have ws: "w \<in> set ws" "s = w @ drop (length w) s"
    by (auto simp: find_Some_iff starts_with_iff)
  have t: "trim_ws ws (drop (ws_prefix ws s) s) = []"
    using 1(3,4) n by (subst (asm) trim_ws.simps) (simp add: Let_def)
  show ?case
  proof (cases "drop (length w) s = []")
    case True
    then have "ends_with w s" using ws(2) by (metis append_Nil append_Nil2 ends_with_iff)
    then show ?thesis using ws(1) by blast
  next
    case False
    then obtain v where "v \<in> set ws" "ends_with v (drop (length w) s)"
      using 1(1) [OF refl _ 1(2) t] n 1(4) w(2) by auto
    then show ?thesis using ws(2) ends_with_suffix by metis
  qed
qed

lemma trim_blank: "trim a = [] \<Longrightarrow> no_lead (a @ b) \<Longrightarrow> a = []"
proof (rule ccontr)
  assume t: "trim a = []" and n: "no_lead (a @ b)" and a: "a \<noteq> []"
  from n have l: "no_lead a" using starts_with_prefix [of _ a b] by (auto simp: no_lead_def)
  then have "trim_ws (map rev ws_chars) (rev a) = []"
    using t by (simp add: trim_def trim_start_form trim_end_def)
  from trim_ws_all [OF ws_nonempty(2) this] a obtain w where w: "w \<in> set ws_chars" "ends_with (rev w) (rev a)"
    by auto
  then have "starts_with w a" by (simp add: ends_with_def)
  then show False using l w(1) by (simp add: no_lead_def)
qed

lemma trim_end_char_decomp: "\<exists>k. s = trim_end_char d s @ replicate k d"
proof -
  have "takeWhile (\<lambda>c. c = d) (rev s) = replicate (length (takeWhile (\<lambda>c. c = d) (rev s))) d"
    by (rule replicate_eqI [symmetric, THEN sym]) (auto dest: set_takeWhileD)
  then have "rev s = replicate (length (takeWhile (\<lambda>c. c = d) (rev s))) d @ dropWhile (\<lambda>c. c = d) (rev s)"
    by (metis takeWhile_dropWhile_id)
  then have "s = trim_end_char d s @ replicate (length (takeWhile (\<lambda>c. c = d) (rev s))) d"
    unfolding trim_end_char_def by (metis rev_append rev_replicate rev_rev_ident)
  then show ?thesis ..
qed

lemma ws_chars_set: "w \<in> set ws_chars \<Longrightarrow> w \<noteq> [] \<and> (\<forall>c\<in>set w. ws_byte c)"
  by (auto simp: ws_byte_def) (simp add: ws_chars_code)

definition is_trimmed :: "string \<Rightarrow> bool" where
  "is_trimmed s \<longleftrightarrow> no_lead s \<and> no_trail s"

lemma trimmed_trim: "is_trimmed s \<Longrightarrow> trim s = s"
  by (simp add: is_trimmed_def trim_fixed)

lemma trim_trimmed: "is_trimmed (trim s)"
  by (simp add: is_trimmed_def trim_form)

text \<open>Text without white space is trimmed.\<close>

lemma no_ws_trim: "\<forall>c\<in>set s. \<not> ws_byte c \<Longrightarrow> trim s = s"
proof (rule trim_fixed)
  assume s: "\<forall>c\<in>set s. \<not> ws_byte c"
  have w: "w \<noteq> [] \<and> (\<forall>c\<in>set w. ws_byte c)" if "w \<in> set ws_chars" for w using that by (rule ws_chars_set)
  show "no_lead s" using w s unfolding no_lead_def by (fastforce simp: starts_with_iff neq_Nil_conv)
  show "no_trail s" using w s unfolding no_trail_def by (fastforce simp: ends_with_iff neq_Nil_conv)
qed

end
