(* ===== verification/Folding.thy ===== *)
theory Folding
  imports AuthTables Trimming
begin

text \<open>
  What the store relies on of lower casing: folding a folded name, or the numbered name
  built on one, changes nothing. The hypothesis is \<open>fold_ok\<close>; ASCII lower casing
  satisfies it (\<open>ascii_fold_ok\<close>).
\<close>

definition fold_ok :: "auth_env \<Rightarrow> bool" where
  "fold_ok E \<longleftrightarrow>
     (\<forall>s n. normalize_account_name (ae_lower E) s = Inr n \<longrightarrow>
        n \<noteq> [] \<and> normalize_account_name (ae_lower E) n = Inr n
        \<and> (\<forall>k. normalize_account_name (ae_lower E) (n @ ''-'' @ nat_str k) = Inr (n @ ''-'' @ nat_str k)))"

lemma fold_okD:
  assumes "fold_ok E" "normalize_account_name (ae_lower E) s = Inr n"
  shows "n \<noteq> []" "normalize_account_name (ae_lower E) n = Inr n"
    "normalize_account_name (ae_lower E) (n @ ''-'' @ nat_str k) = Inr (n @ ''-'' @ nat_str k)"
  using assms by (simp_all add: fold_ok_def)

section \<open>ASCII lower casing\<close>

lemma lower_ws [simp]:
  assumes "ws_byte b"
  shows "to_ascii_lower c = b \<longleftrightarrow> c = b"
proof -
  have b: "(of_char b :: nat) \<in> \<Union> (set ` set ws_bytes)" using assms by (simp add: ws_byte_code)
  then have nb: "\<not> (65 \<le> (of_char b :: nat) \<and> (of_char b :: nat) \<le> 122)"
    by (auto simp: ws_bytes_def upt_rec)
  show ?thesis
  proof (cases "is_ascii_upper c")
    case True
    then have c: "65 \<le> (of_char c :: nat)" "(of_char c :: nat) \<le> 90"
      by (simp_all add: is_ascii_upper_def less_eq_char_def)
    then have "(of_char (to_ascii_lower c) :: nat) = of_char c + 32"
      using True by (simp add: to_ascii_lower_def take_bit_eq_mod)
    then show ?thesis using c nb by auto
  qed (simp add: to_ascii_lower_def)
qed

lemma lower_starts: "\<forall>b\<in>set w. ws_byte b \<Longrightarrow> starts_with w (map to_ascii_lower s) = starts_with w s"
proof (induction w arbitrary: s)
  case (Cons b w)
  then show ?case by (cases s) (auto simp: eq_commute [of b])
qed simp

lemma lower_eq_ws: "\<forall>b\<in>set w. ws_byte b \<Longrightarrow> map to_ascii_lower s = w \<longleftrightarrow> s = w"
proof (induction w arbitrary: s)
  case (Cons b w)
  then show ?case by (cases s) auto
qed simp

lemma lower_trimmed [simp]: "is_trimmed (ascii_lowercase s) = is_trimmed s"
  using ws_chars_set
  by (auto simp: is_trimmed_def no_lead_def no_trail_def ends_with_def ascii_lowercase_def rev_map lower_starts)

lemma lower_continuation [simp]: "is_continuation (to_ascii_lower c) = is_continuation c"
proof (cases "is_ascii_upper c")
  case True
  then have c: "65 \<le> (of_char c :: nat)" "(of_char c :: nat) \<le> 90"
    by (simp_all add: is_ascii_upper_def less_eq_char_def)
  then have "(of_char (to_ascii_lower c) :: nat) = of_char c + 32"
    using True by (simp add: to_ascii_lower_def take_bit_eq_mod)
  then show ?thesis using c by (simp add: is_continuation_def)
qed (simp add: to_ascii_lower_def)

lemma chars_lower: "chars (map to_ascii_lower s) = map (map to_ascii_lower) (chars s)"
  by (induction s rule: chars.induct) (auto simp: takeWhile_map dropWhile_map comp_def)

lemma lower_whitespace [simp]: "has_whitespace (ascii_lowercase s) = has_whitespace s"
proof -
  have "map to_ascii_lower c \<in> set ws_chars \<longleftrightarrow> c \<in> set ws_chars" for c
    using lower_eq_ws ws_chars_set by metis
  then show ?thesis
    by (simp add: has_whitespace_def ascii_lowercase_def chars_lower list_ex_iff)
qed

lemma to_lower_idem [simp]: "to_ascii_lower (to_ascii_lower c) = to_ascii_lower c"
proof (cases "is_ascii_upper c")
  case True
  then have c: "65 \<le> (of_char c :: nat)" "(of_char c :: nat) \<le> 90"
    by (simp_all add: is_ascii_upper_def less_eq_char_def)
  then have "(of_char (to_ascii_lower c) :: nat) = of_char c + 32"
    using True by (simp add: to_ascii_lower_def take_bit_eq_mod)
  then have "\<not> is_ascii_upper (to_ascii_lower c)"
    using c by (simp add: is_ascii_upper_def less_eq_char_def)
  then show ?thesis by (simp add: to_ascii_lower_def)
qed (simp add: to_ascii_lower_def)

lemma lower_idem [simp]: "ascii_lowercase (ascii_lowercase s) = ascii_lowercase s"
  by (simp add: ascii_lowercase_def comp_def)

lemma digit_lower: "is_ascii_digit c \<Longrightarrow> to_ascii_lower c = c"
  by (simp add: to_ascii_lower_def is_ascii_upper_def is_ascii_digit_code less_eq_char_def)

lemma ascii_normalized:
  "normalize_account_name ascii_lowercase n = Inr n \<longleftrightarrow>
     n \<noteq> [] \<and> is_trimmed n \<and> \<not> has_whitespace n \<and> ascii_lowercase n = n"
proof
  assume "normalize_account_name ascii_lowercase n = Inr n"
  then have n: "ascii_lowercase (trim n) = n" "trim n \<noteq> []" "\<not> has_whitespace (trim n)"
    by (auto simp: normalize_account_name_def Let_def split: if_splits)
  then have "is_trimmed n" by (metis lower_trimmed trim_trimmed)
  with n show "n \<noteq> [] \<and> is_trimmed n \<and> \<not> has_whitespace n \<and> ascii_lowercase n = n"
    by (simp add: trimmed_trim)
qed (simp add: normalize_account_name_def Let_def trimmed_trim)

section \<open>Numbered names\<close>

definition plain :: "char \<Rightarrow> bool" where
  "plain c \<longleftrightarrow> \<not> ws_byte c \<and> \<not> is_continuation c"

lemma digit_plain: "is_ascii_digit c \<Longrightarrow> plain c"
  by (auto simp: plain_def ws_byte_code is_ascii_digit_code is_continuation_def ws_bytes_def upt_rec)

lemma dash_plain: "plain CHR ''-''"
  by (simp add: plain_def ws_byte_code is_continuation_def ws_bytes_def upt_rec)

lemma starts_plain:
  "\<forall>b\<in>set w. ws_byte b \<Longrightarrow> \<forall>c\<in>set t. plain c \<Longrightarrow> starts_with w (s @ t) \<Longrightarrow> starts_with w s"
proof (induction w arbitrary: s)
  case (Cons b w)
  show ?case
  proof (cases s)
    case Nil
    then show ?thesis using Cons.prems by (cases t) (simp_all add: plain_def)
  next
    case (Cons x xs)
    with Cons.prems Cons.IH [of xs] show ?thesis by simp
  qed
qed simp

lemma trimmed_plain:
  assumes "is_trimmed s" "t \<noteq> []" "\<forall>c\<in>set t. plain c"
  shows "is_trimmed (s @ t)"
proof -
  have "\<not> ends_with w (s @ t)" if "w \<in> set ws_chars" for w
  proof -
    have "w \<noteq> []" "\<forall>c\<in>set w. ws_byte c" using ws_chars_set that by blast+
    then obtain b v where w': "rev w = b # v" "ws_byte b" by (cases "rev w") (auto simp: rev_eq_Cons_iff)
    obtain u c where "t = u @ [c]" using assms(2) by (cases t rule: rev_cases) simp
    then show ?thesis using w' assms(3) by (auto simp: plain_def ends_with_def)
  qed
  moreover have "\<not> starts_with w (s @ t)" if "w \<in> set ws_chars" for w
    using starts_plain [of w t s] that assms(1,3) ws_chars_set
    by (auto simp: is_trimmed_def no_lead_def)
  ultimately show ?thesis by (simp add: is_trimmed_def no_lead_def no_trail_def)
qed

lemma chars_plain: "\<forall>c\<in>set t. plain c \<Longrightarrow> chars (s @ t) = chars s @ map (\<lambda>c. [c]) t"
proof (induction s rule: chars.induct)
  case 1
  then show ?case by (simp add: chars_ascii plain_def)
next
  case (2 c cs)
  have t: "takeWhile is_continuation t = []" "dropWhile is_continuation t = t"
    using 2(2) by (cases t; simp add: plain_def)+
  have "takeWhile is_continuation (cs @ t) = takeWhile is_continuation cs"
    "dropWhile is_continuation (cs @ t) = dropWhile is_continuation cs @ t"
    using t by (induction cs) auto
  then show ?case using 2 by simp
qed

lemma has_whitespace_plain: "\<forall>c\<in>set t. plain c \<Longrightarrow> has_whitespace (s @ t) = has_whitespace s"
proof -
  assume t: "\<forall>c\<in>set t. plain c"
  have "[c] \<notin> set ws_chars" if "c \<in> set t" for c
    using t that ws_chars_set [of "[c]"] by (auto simp: plain_def)
  then show ?thesis using t by (auto simp: has_whitespace_def chars_plain list_ex_iff)
qed

theorem ascii_fold_ok: "ae_lower E = ascii_lowercase \<Longrightarrow> fold_ok E"
proof -
  assume E: "ae_lower E = ascii_lowercase"
  have d: "\<forall>c\<in>set (''-'' @ nat_str k). plain c \<and> to_ascii_lower c = c" for k
    using nat_str_digits [of _ k] digit_plain dash_plain digit_lower
    by (auto simp: to_ascii_lower_def is_ascii_upper_def less_eq_char_def)
  have "n \<noteq> [] \<and> normalize_account_name ascii_lowercase n = Inr n
      \<and> normalize_account_name ascii_lowercase (n @ ''-'' @ nat_str k) = Inr (n @ ''-'' @ nat_str k)"
    if n: "normalize_account_name ascii_lowercase s = Inr n" for s n k
  proof -
    have n': "n = ascii_lowercase (trim s)" "trim s \<noteq> []" "\<not> has_whitespace (trim s)"
      using n by (auto simp: normalize_account_name_def Let_def split: if_splits)
    then have ok: "n \<noteq> []" "is_trimmed n" "\<not> has_whitespace n" "ascii_lowercase n = n"
      by (simp_all add: trim_trimmed) (simp add: ascii_lowercase_def)
    moreover have "ascii_lowercase (n @ ''-'' @ nat_str k) = n @ ''-'' @ nat_str k"
      using ok(4) d [of k] by (simp add: ascii_lowercase_def map_idI)
    moreover have "is_trimmed (n @ ''-'' @ nat_str k)" "\<not> has_whitespace (n @ ''-'' @ nat_str k)"
      using trimmed_plain [OF ok(2), of "''-'' @ nat_str k"] d [of k] ok(3)
        has_whitespace_plain [of "''-'' @ nat_str k" n] by auto
    ultimately show ?thesis by (simp add: ascii_normalized)
  qed
  then show ?thesis by (simp add: fold_ok_def E)
qed

end
