(* ===== verification/AuthWf.thy ===== *)
theory AuthWf
  imports Membership Folding
begin

text \<open>
  The invariant of the accounts database. \<open>auth_wf\<close> says of every table what its primary key
  and its unique columns promise, that account names are folded and domain names trimmed,
  and that a domain's owner holds no membership of it; \<open>auth_step\<close> is one call of any
  operation of the store, and every operation keeps the invariant.
\<close>

section \<open>Keys of a table\<close>

definition keyed :: "('r \<Rightarrow> 'k) \<Rightarrow> 'r list \<Rightarrow> bool" where
  "keyed k rows \<longleftrightarrow> distinct (map k rows)"

named_theorems tables "what statements do to keys"

lemma keyed_Nil [tables]: "keyed k []"
  by (simp add: keyed_def)

lemma keyed_append:
  "keyed k (xs @ ys) \<longleftrightarrow> keyed k xs \<and> keyed k ys \<and> k ` set xs \<inter> k ` set ys = {}"
  by (simp add: keyed_def)

lemma keyed_snoc [tables]: "keyed k (rows @ [r]) \<longleftrightarrow> keyed k rows \<and> (\<forall>s\<in>set rows. k s \<noteq> k r)"
  by (auto simp: keyed_def image_iff eq_commute [of "k r"])

lemma keyed_delete [tables]: "keyed k rows \<Longrightarrow> keyed k (delete_where P rows)"
  by (simp add: keyed_def distinct_delete_where)

lemma keyed_update [tables]: "(\<And>r. k (f r) = k r) \<Longrightarrow> keyed k (update_where P f rows) = keyed k rows"
  by (simp add: keyed_def)

lemma keyed_eq: "keyed k rows \<Longrightarrow> r \<in> set rows \<Longrightarrow> s \<in> set rows \<Longrightarrow> k r = k s \<Longrightarrow> r = s"
  by (auto simp: keyed_def distinct_map dest: inj_onD)

lemma keyed_iff: "keyed k rows \<longleftrightarrow> distinct rows \<and> inj_on k (set rows)"
  by (auto simp: keyed_def distinct_map)

lemma keyed_update_inj:
  assumes "keyed k rows" "inj_on (\<lambda>r. k (if P r then f r else r)) (set rows)"
  shows "keyed k (update_where P f rows)"
proof -
  have "distinct rows" using assms(1) by (simp add: keyed_iff)
  moreover have "map k (update_where P f rows) = map (\<lambda>r. k (if P r then f r else r)) rows"
    by (simp add: update_where_def)
  ultimately show ?thesis using assms(2) by (simp add: keyed_def distinct_map)
qed

text \<open>Rewriting the row with one key, when the new value of \<open>k\<close> is nobody else's.\<close>

lemma keyed_update_one:
  assumes "keyed i rows" "keyed k rows" "\<forall>s\<in>set rows. i s \<noteq> x \<longrightarrow> k s \<noteq> y"
    "\<And>r. k (f r) = y"
  shows "keyed k (update_where (\<lambda>r. i r = x) f rows)"
  using assms by (intro keyed_update_inj) (auto simp: keyed_iff inj_on_def)

section \<open>The invariant\<close>

definition users_ok :: "auth_env \<Rightarrow> user_row list \<Rightarrow> bool" where
  "users_ok E us \<longleftrightarrow> keyed ur_name us
     \<and> (\<forall>u\<in>set us. normalize_account_name (ae_lower E) (ur_name u) = Inr (ur_name u)
          \<and> ur_name u \<noteq> OWNER_IDENTITY_NAME)"

definition tokens_ok :: "int \<Rightarrow> token_row list \<Rightarrow> bool" where
  "tokens_ok n ts \<longleftrightarrow> keyed tr_id ts \<and> keyed tr_hash ts \<and> (\<forall>t\<in>set ts. tr_id t \<le> n)"

definition acl_ok :: "acl_row list \<Rightarrow> bool" where
  "acl_ok rows \<longleftrightarrow> keyed al_domain rows
     \<and> (\<forall>a\<in>set rows. normalize_domain (al_domain a) = Inr (al_domain a))"

definition member_key :: "member_row \<Rightarrow> string \<times> string \<times> string" where
  "member_key m = (mb_domain m, mb_kind m, mb_principal m)"

definition members_ok :: "acl_row list \<Rightarrow> member_row list \<Rightarrow> bool" where
  "members_ok acls ms \<longleftrightarrow> keyed member_key ms
     \<and> (\<forall>m\<in>set ms. mb_kind m = PRINCIPAL_USER \<and> mb_principal m \<noteq> []
          \<and> (\<forall>a\<in>set acls. al_domain a = mb_domain m \<longrightarrow> al_owner a \<noteq> mb_principal m))"

definition links_ok :: "link_row list \<Rightarrow> bool" where
  "links_ok ls \<longleftrightarrow> keyed (\<lambda>l. (il_issuer l, il_subject l)) ls \<and> keyed (\<lambda>l. (il_issuer l, il_user l)) ls"

definition github_ok :: "github_row list \<Rightarrow> bool" where
  "github_ok gs \<longleftrightarrow> keyed gh_account gs \<and> keyed (\<lambda>g. (gh_host g, gh_id g)) gs"

definition oauth_ok :: "int \<Rightarrow> oauth_row list \<Rightarrow> bool" where
  "oauth_ok n gs \<longleftrightarrow> keyed og_id gs \<and> keyed og_access gs \<and> keyed og_refresh gs \<and> (\<forall>g\<in>set gs. og_id g \<le> n)"

definition overlay_ok :: "int \<Rightarrow> overlay_row list \<Rightarrow> bool" where
  "overlay_ok n gs \<longleftrightarrow> keyed ov_id gs \<and> keyed ov_hash gs \<and> (\<forall>g\<in>set gs. ov_id g \<le> n)"

definition write_key :: "write_row \<Rightarrow> string \<times> string" where
  "write_key w = (wr_account w, wr_pattern w)"

definition reflection_key :: "reflection_row \<Rightarrow> string \<times> string" where
  "reflection_key g = (rg_domain g, rg_account g)"

definition auth_wf :: "auth_env \<Rightarrow> auth_db \<Rightarrow> bool" where
  "auth_wf E db \<longleftrightarrow>
     users_ok E (db_users db) \<and> keyed sr_hash (db_sessions db) \<and> tokens_ok (db_token_seq db) (db_tokens db)
     \<and> acl_ok (db_acl db) \<and> members_ok (db_acl db) (db_members db) \<and> links_ok (db_links db)
     \<and> github_ok (db_github db) \<and> keyed oc_id (db_clients db) \<and> oauth_ok (db_oauth_seq db) (db_oauth db)
     \<and> overlay_ok (db_overlay_seq db) (db_overlay db) \<and> keyed write_key (db_writes db)
     \<and> keyed reflection_key (db_reflection db) \<and> keyed fst (db_deliveries db)"

lemma empty_wf: "auth_wf E empty_db"
  by (simp add: auth_wf_def empty_db_def users_ok_def tokens_ok_def acl_ok_def members_ok_def links_ok_def
      github_ok_def oauth_ok_def overlay_ok_def tables)

section \<open>Statements keep the tables well formed\<close>

lemma users_delete [tables]: "users_ok E us \<Longrightarrow> users_ok E (delete_where P us)"
  by (simp add: users_ok_def tables)

lemma users_update [tables]:
  "(\<And>u. ur_name (f u) = ur_name u) \<Longrightarrow> users_ok E us \<Longrightarrow> users_ok E (update_where P f us)"
  by (auto simp: users_ok_def tables in_update_where split: if_splits)

lemma users_append [tables]:
  "users_ok E (us @ [u]) \<longleftrightarrow> users_ok E us \<and> (\<forall>v\<in>set us. ur_name v \<noteq> ur_name u)
     \<and> normalize_account_name (ae_lower E) (ur_name u) = Inr (ur_name u) \<and> ur_name u \<noteq> OWNER_IDENTITY_NAME"
  by (auto simp: users_ok_def tables)

lemma tokens_delete [tables]: "tokens_ok n ts \<Longrightarrow> tokens_ok n (delete_where P ts)"
  by (simp add: tokens_ok_def tables)

lemma tokens_update [tables]:
  "(\<And>t. tr_id (f t) = tr_id t) \<Longrightarrow> (\<And>t. tr_hash (f t) = tr_hash t) \<Longrightarrow> tokens_ok n ts
     \<Longrightarrow> tokens_ok n (update_where P f ts)"
  by (auto simp: tokens_ok_def tables in_update_where)

lemma tokens_append [tables]:
  "tokens_ok n ts \<Longrightarrow> tr_id t = n + 1 \<Longrightarrow> \<forall>s\<in>set ts. tr_hash s \<noteq> tr_hash t \<Longrightarrow> tokens_ok (n + 1) (ts @ [t])"
  by (force simp: tokens_ok_def tables)

lemma acl_delete [tables]: "acl_ok as \<Longrightarrow> acl_ok (delete_where P as)"
  by (simp add: acl_ok_def tables)

lemma acl_update [tables]:
  "(\<And>a. al_domain (f a) = al_domain a) \<Longrightarrow> acl_ok as \<Longrightarrow> acl_ok (update_where P f as)"
  by (auto simp: acl_ok_def tables in_update_where)

lemma members_delete [tables]: "members_ok as ms \<Longrightarrow> members_ok as (delete_where P ms)"
  by (simp add: members_ok_def tables)

lemma members_acl_delete [tables]: "members_ok as ms \<Longrightarrow> members_ok (delete_where P as) ms"
  by (auto simp: members_ok_def)

lemma members_append_acl [tables]:
  "members_ok as ms \<Longrightarrow> \<forall>m\<in>set ms. mb_domain m = al_domain a \<longrightarrow> mb_principal m \<noteq> al_owner a
     \<Longrightarrow> members_ok (as @ [a]) ms"
  by (fastforce simp: members_ok_def)

lemma links_delete [tables]: "links_ok ls \<Longrightarrow> links_ok (delete_where P ls)"
  by (simp add: links_ok_def tables)

lemma links_append [tables]:
  "links_ok ls \<Longrightarrow> \<forall>k\<in>set ls. il_issuer k = il_issuer l \<longrightarrow> il_subject k \<noteq> il_subject l \<and> il_user k \<noteq> il_user l
     \<Longrightarrow> links_ok (ls @ [l])"
  by (auto simp: links_ok_def tables)

lemma github_delete [tables]: "github_ok gs \<Longrightarrow> github_ok (delete_where P gs)"
  by (simp add: github_ok_def tables)

lemma github_update [tables]:
  "(\<And>g. gh_account (f g) = gh_account g) \<Longrightarrow> (\<And>g. gh_host (f g) = gh_host g) \<Longrightarrow> (\<And>g. gh_id (f g) = gh_id g)
     \<Longrightarrow> github_ok gs \<Longrightarrow> github_ok (update_where P f gs)"
  by (simp add: github_ok_def tables)

lemma oauth_delete [tables]: "oauth_ok n gs \<Longrightarrow> oauth_ok n (delete_where P gs)"
  by (simp add: oauth_ok_def tables)

lemma oauth_update [tables]:
  "(\<And>g. og_id (f g) = og_id g) \<Longrightarrow> (\<And>g. og_access (f g) = og_access g) \<Longrightarrow> (\<And>g. og_refresh (f g) = og_refresh g)
     \<Longrightarrow> oauth_ok n gs \<Longrightarrow> oauth_ok n (update_where P f gs)"
  by (auto simp: oauth_ok_def tables in_update_where)

lemma oauth_append [tables]:
  "oauth_ok n gs \<Longrightarrow> og_id g = n + 1 \<Longrightarrow> \<forall>h\<in>set gs. og_access h \<noteq> og_access g \<and> og_refresh h \<noteq> og_refresh g
     \<Longrightarrow> oauth_ok (n + 1) (gs @ [g])"
  by (force simp: oauth_ok_def tables)

lemma overlay_delete [tables]: "overlay_ok n gs \<Longrightarrow> overlay_ok n (delete_where P gs)"
  by (simp add: overlay_ok_def tables)

lemma overlay_update [tables]:
  "(\<And>g. ov_id (f g) = ov_id g) \<Longrightarrow> (\<And>g. ov_hash (f g) = ov_hash g)
     \<Longrightarrow> overlay_ok n gs \<Longrightarrow> overlay_ok n (update_where P f gs)"
  by (auto simp: overlay_ok_def tables in_update_where)

lemma overlay_append [tables]:
  "overlay_ok n gs \<Longrightarrow> ov_id g = n + 1 \<Longrightarrow> \<forall>h\<in>set gs. ov_hash h \<noteq> ov_hash g \<Longrightarrow> overlay_ok (n + 1) (gs @ [g])"
  by (force simp: overlay_ok_def tables)

section \<open>Accounts, sessions and tokens\<close>

lemmas sweeps = delete_sessions_of_def delete_mcp_tokens_of_def delete_memberships_of_def
  delete_reflection_grants_of_def delete_identity_links_of_def delete_github_link_of_def
  delete_oauth_grants_of_def delete_write_list_of_def delete_overlay_grants_held_by_def disown_domains_of_def

lemmas outcome_splits = sum.splits option.splits if_splits prod.splits

lemma has_user_iff: "has_user db n \<longleftrightarrow> n \<in> ur_name ` set (db_users db)"
  by (auto simp: has_user_def list_ex_iff)

lemma auth_wf_users [tables]: "users_ok E us \<Longrightarrow> auth_wf E db \<Longrightarrow> auth_wf E (db\<lparr>db_users := us\<rparr>)"
  by (simp add: auth_wf_def)

lemma auth_wf_sessions [tables]: "keyed sr_hash ss \<Longrightarrow> auth_wf E db \<Longrightarrow> auth_wf E (db\<lparr>db_sessions := ss\<rparr>)"
  by (simp add: auth_wf_def)

lemma auth_wf_parts:
  assumes "auth_wf E db"
  shows "users_ok E (db_users db)" "keyed sr_hash (db_sessions db)" "tokens_ok (db_token_seq db) (db_tokens db)"
    "acl_ok (db_acl db)" "members_ok (db_acl db) (db_members db)" "links_ok (db_links db)"
    "github_ok (db_github db)" "keyed oc_id (db_clients db)" "oauth_ok (db_oauth_seq db) (db_oauth db)"
    "overlay_ok (db_overlay_seq db) (db_overlay db)" "keyed write_key (db_writes db)"
    "keyed reflection_key (db_reflection db)" "keyed fst (db_deliveries db)"
  using assms by (simp_all add: auth_wf_def)

lemma new_nameD:
  assumes "fold_ok E" "normalize_new_account_name (ae_lower E) s = Inr n"
  shows "normalize_account_name (ae_lower E) n = Inr n" "n \<noteq> OWNER_IDENTITY_NAME" "n \<noteq> []"
  using assms by (auto simp: normalize_new_account_name_def dest: fold_okD split: sum.splits if_splits)

lemma new_name:
  "fold_ok E \<Longrightarrow> normalize_new_account_name (ae_lower E) s = Inr n \<Longrightarrow>
     normalize_account_name (ae_lower E) n = Inr n \<and> n \<noteq> OWNER_IDENTITY_NAME \<and> n \<noteq> []"
  by (simp add: new_nameD)

lemma members_disown [tables]:
  "members_ok as ms \<Longrightarrow> members_ok (update_where P (\<lambda>a. a\<lparr>al_owner := []\<rparr>) as) ms"
  by (auto simp: members_ok_def in_update_where eq_commute [of "[]"] split: if_splits)

lemma sweep_wf: "auth_wf E db \<Longrightarrow> auth_wf E (sweep_user n db)"
  by (simp add: auth_wf_def sweep_user_def sweeps tables)

lemma insert_user_wf:
  "insert_user u db = Inr db' \<Longrightarrow> auth_wf E db \<Longrightarrow> normalize_account_name (ae_lower E) (ur_name u) = Inr (ur_name u)
     \<Longrightarrow> ur_name u \<noteq> OWNER_IDENTITY_NAME \<Longrightarrow> auth_wf E db'"
  by (auto simp: insert_user_def has_user_def list_ex_iff auth_wf_def tables split: if_splits)

lemma insert_token_wf:
  "insert_mcp_token_row db user hash label stamp = Inr db' \<Longrightarrow> auth_wf E db \<Longrightarrow> auth_wf E db'"
  by (auto simp: insert_mcp_token_row_def auth_wf_def list_ex_iff tables split: if_splits)

lemma insert_session_wf: "insert_session row db = Inr db' \<Longrightarrow> auth_wf E db \<Longrightarrow> auth_wf E db'"
  by (auto simp: insert_session_def auth_wf_def list_ex_iff tables split: if_splits)

lemma making_accounts_wf:
  assumes "fold_ok E" "auth_wf E db"
  shows "add_user_with_reflection E db name display email role rlevel pass stamp = Inr db' \<Longrightarrow> auth_wf E db'"
    and "add_first_admin E db name display pass stamp = Inr (db', made) \<Longrightarrow> auth_wf E db'"
    and "ensure_user_created E db name role cap stamp = Inr (db', user, made) \<Longrightarrow> auth_wf E db'"
    and "add_token_only_user_with E db name display email role rlevel label token stamp = Inr (db', issued)
           \<Longrightarrow> auth_wf E db'"
proof -
  show "add_user_with_reflection E db name display email role rlevel pass stamp = Inr db' \<Longrightarrow> auth_wf E db'"
    using assms(2)
    by (auto simp: add_user_with_reflection_def dest!: new_name [OF assms(1)] intro: insert_user_wf
        split: sum.splits)
  show "add_first_admin E db name display pass stamp = Inr (db', made) \<Longrightarrow> auth_wf E db'"
    using assms by (auto simp: add_first_admin_def auth_wf_def users_ok_def keyed_def dest: new_nameD
        split: sum.splits if_splits)
  show "ensure_user_created E db name role cap stamp = Inr (db', user, made) \<Longrightarrow> auth_wf E db'"
    using assms(2)
    by (auto simp: ensure_user_created_def Let_def has_user_def list_ex_iff auth_wf_parts tables dest!: new_name [OF assms(1)]
        split: outcome_splits)
  assume a: "add_token_only_user_with E db name display email role rlevel label token stamp = Inr (db', issued)"
  then obtain n u db1 where n: "normalize_new_account_name (ae_lower E) name = Inr n"
    and u: "insert_user u db = Inr db1" "ur_name u = n"
    and t: "insert_mcp_token_row db1 n (ae_hash E token) label stamp = Inr db'"
    by (fastforce simp: add_token_only_user_with_def split: sum.splits)
  have "auth_wf E db1"
    using insert_user_wf [OF u(1) assms(2)] new_name [OF assms(1) n] u(2) by simp
  with t show "auth_wf E db'" by (rule insert_token_wf)
qed

lemma changing_accounts_wf:
  assumes "auth_wf E db"
  shows "remove_user E db name = Inr db' \<Longrightarrow> auth_wf E db'"
    and "remove_user_force E db name = Inr db' \<Longrightarrow> auth_wf E db'"
    and "set_password E db name pass = Inr db' \<Longrightarrow> auth_wf E db'"
    and "set_role E db name role = Inr db' \<Longrightarrow> auth_wf E db'"
    and "set_role_force E db name role = Inr db' \<Longrightarrow> auth_wf E db'"
    and "set_display E db name display = Inr db' \<Longrightarrow> auth_wf E db'"
    and "set_reflection_level E db name level = Inr db' \<Longrightarrow> auth_wf E db'"
    and "set_disabled E db name disabled = Inr db' \<Longrightarrow> auth_wf E db'"
    and "refresh_presentation E db name shown email = Inr (db', user) \<Longrightarrow> auth_wf E db'"
  using assms
  by (auto simp: remove_user_def remove_user_force_def set_password_def set_role_def set_role_force_def
      set_display_def set_reflection_level_def set_disabled_def refresh_presentation_def Let_def
      delete_sessions_of_def sweep_wf auth_wf_parts tables split: outcome_splits)

lemma sessions_wf:
  assumes "auth_wf E db"
  shows "create_session E db name ttl token csrf now = Inr (db', s) \<Longrightarrow> auth_wf E db'"
    and "ensure_session E db name ttl token csrf now = Inr (db', m) \<Longrightarrow> auth_wf E db'"
    and "session_user E db token now stamp = (db', found) \<Longrightarrow> auth_wf E db'"
    and "auth_wf E (mark_seen db name stamp)"
    and "auth_wf E (delete_session E db token)"
  using assms
  by (auto simp: create_session_def ensure_session_def session_user_def mark_seen_def delete_session_def Let_def
      auth_wf_parts tables split: outcome_splits intro: insert_session_wf)

lemma tokens_wf:
  assumes "auth_wf E db"
  shows "issue_mcp_token E db user label random stamp = Inr (db', issued) \<Longrightarrow> auth_wf E db'"
    and "mcp_token_user E db token stamp = (db', found) \<Longrightarrow> auth_wf E db'"
    and "revoke_mcp_token E db user tid = Inr (db', hit) \<Longrightarrow> auth_wf E db'"
    and "rotate_mcp_token E db user tid random stamp = Inr (db', issued) \<Longrightarrow> auth_wf E db'"
proof -
  have d: "auth_wf E (db\<lparr>db_tokens := delete_where P (db_tokens db)\<rparr>)" for P
    using assms by (simp add: auth_wf_def tables)
  show "issue_mcp_token E db user label random stamp = Inr (db', issued) \<Longrightarrow> auth_wf E db'"
    using assms by (auto simp: issue_mcp_token_def Let_def intro: insert_token_wf split: outcome_splits)
  show "mcp_token_user E db token stamp = (db', found) \<Longrightarrow> auth_wf E db'"
    using assms by (auto simp: mcp_token_user_def Let_def auth_wf_def tables split: outcome_splits)
  show "revoke_mcp_token E db user tid = Inr (db', hit) \<Longrightarrow> auth_wf E db'"
    using d by (auto simp: revoke_mcp_token_def Let_def split: outcome_splits)
  show "rotate_mcp_token E db user tid random stamp = Inr (db', issued) \<Longrightarrow> auth_wf E db'"
    using d by (auto simp: rotate_mcp_token_def Let_def intro: insert_token_wf split: outcome_splits)
qed

section \<open>Identities and grants\<close>

lemma auth_wf_links [tables]: "links_ok ls \<Longrightarrow> auth_wf E db \<Longrightarrow> auth_wf E (db\<lparr>db_links := ls\<rparr>)"
  by (simp add: auth_wf_def)

lemma auth_wf_github [tables]: "github_ok gs \<Longrightarrow> auth_wf E db \<Longrightarrow> auth_wf E (db\<lparr>db_github := gs\<rparr>)"
  by (simp add: auth_wf_def)

lemma auth_wf_clients [tables]: "keyed oc_id cs \<Longrightarrow> auth_wf E db \<Longrightarrow> auth_wf E (db\<lparr>db_clients := cs\<rparr>)"
  by (simp add: auth_wf_def)

lemma auth_wf_oauth [tables]:
  "oauth_ok (db_oauth_seq db) gs \<Longrightarrow> auth_wf E db \<Longrightarrow> auth_wf E (db\<lparr>db_oauth := gs\<rparr>)"
  by (simp add: auth_wf_def)

lemma auth_wf_overlay [tables]:
  "overlay_ok (db_overlay_seq db) gs \<Longrightarrow> auth_wf E db \<Longrightarrow> auth_wf E (db\<lparr>db_overlay := gs\<rparr>)"
  by (simp add: auth_wf_def)

lemma insert_link_wf: "insert_link db issuer subject user linked_by stamp = Inr db' \<Longrightarrow> auth_wf E db \<Longrightarrow> auth_wf E db'"
  by (auto simp: insert_link_def list_ex_iff auth_wf_parts tables split: if_splits)

lemma free_account_name_ok:
  assumes "fold_ok E" "normalize_new_account_name (ae_lower E) s = Inr base" "free_account_name db base = Inr n"
  shows "normalize_account_name (ae_lower E) n = Inr n" "n \<noteq> OWNER_IDENTITY_NAME" "\<not> has_user db n"
proof -
  obtain attempt where n: "n = account_candidate base attempt" "\<not> has_user db n"
    using assms(3) by (auto simp: free_account_name_def find_Some_iff split: option.splits)
  show "\<not> has_user db n" by (rule n(2))
  have b: "normalize_account_name (ae_lower E) base = Inr base" "base \<noteq> OWNER_IDENTITY_NAME"
    using new_nameD [OF assms(1,2)] by simp_all
  show "normalize_account_name (ae_lower E) n = Inr n"
    using n b fold_okD(3) [OF assms(1) b(1)] by (auto simp: account_candidate_def)
  have "CHR ''-'' \<notin> set OWNER_IDENTITY_NAME" by (simp add: OWNER_IDENTITY_NAME_def)
  then have "base @ CHR ''-'' # t \<noteq> OWNER_IDENTITY_NAME" for t by (metis in_set_conv_decomp)
  then show "n \<noteq> OWNER_IDENTITY_NAME"
    using n b(2) by (simp add: account_candidate_def split: if_splits)
qed

lemma identities_wf:
  assumes "auth_wf E db"
  shows "linked_user db issuer subject = Inr (db', found) \<Longrightarrow> auth_wf E db'"
    and "link_identity E db issuer subject user linked_by stamp = Inr db' \<Longrightarrow> auth_wf E db'"
    and "unlink E db issuer user force = Inr (db', hit) \<Longrightarrow> auth_wf E db'"
  using assms
  by (auto simp: linked_user_def link_identity_def unlink_def Let_def auth_wf_parts tables
      intro: insert_link_wf split: outcome_splits)

lemma provision_wf:
  assumes "fold_ok E" "auth_wf E db"
    and p: "provision_linked_user E db issuer subject desired display email role cap stamp = Inr (db', user)"
  shows "auth_wf E db'"
proof -
  obtain base n u db1 iss sub where n: "normalize_new_account_name (ae_lower E) desired = Inr base"
      "free_account_name db base = Inr n"
    and u: "insert_user u db = Inr db1" "ur_name u = n"
    and l: "insert_link db1 iss sub n LINKED_BY_JIT stamp = Inr db'"
    using p by (fastforce simp: provision_linked_user_def split: outcome_splits)
  have "auth_wf E db1"
    using insert_user_wf [OF u(1) assms(2)] free_account_name_ok [OF assms(1) n] u(2) by simp
  with l show ?thesis by (rule insert_link_wf)
qed

lemma github_replace [tables]:
  "gh_account row = a \<Longrightarrow> github_ok gs
     \<Longrightarrow> \<forall>g\<in>set gs. gh_id g = gh_id row \<longrightarrow> gh_host g = gh_host row \<longrightarrow> gh_account g = a
     \<Longrightarrow> github_ok (delete_where (\<lambda>g. gh_account g = a) gs @ [row])"
  by (auto simp: github_ok_def tables)

lemma github_links_wf:
  assumes "auth_wf E db"
  shows "link_github_inner E db account born host gid login stamp = Inr (db', row) \<Longrightarrow> auth_wf E db'"
    and "set_github_login E db account login = Inr (db', hit) \<Longrightarrow> auth_wf E db'"
    and "mark_github_token_gone E db account = Inr (db', hit) \<Longrightarrow> auth_wf E db'"
    and "unlink_github E db account = Inr (db', hit) \<Longrightarrow> auth_wf E db'"
proof -
  show "link_github_inner E db account born host gid login stamp = Inr (db', row) \<Longrightarrow> auth_wf E db'"
    using assms
    by (auto simp: link_github_inner_def Let_def list_ex_iff auth_wf_parts tables split: outcome_splits)
qed (use assms in \<open>auto simp: set_github_login_def mark_github_token_gone_def unlink_github_def
      delete_github_link_of_def auth_wf_parts tables split: outcome_splits\<close>)

lemma deliveries_wf:
  assumes "auth_wf E db"
  shows "remember_delivery_at db delivery now = (db', fresh) \<Longrightarrow> auth_wf E db'"
    and "auth_wf E (forget_delivery db delivery)"
proof -
  have d: "keyed fst ds \<Longrightarrow> auth_wf E (db\<lparr>db_deliveries := ds\<rparr>)" for ds
    using assms by (simp add: auth_wf_def)
  show "remember_delivery_at db delivery now = (db', fresh) \<Longrightarrow> auth_wf E db'"
    by (auto simp: remember_delivery_at_def Let_def list_ex_iff auth_wf_parts [OF assms] tables
        intro!: d split: if_splits) fastforce
  show "auth_wf E (forget_delivery db delivery)"
    by (simp add: forget_delivery_def d auth_wf_parts [OF assms] tables)
qed

lemma insert_oauth_wf:
  "insert_oauth_row row db = Inr db' \<Longrightarrow> og_id row = db_oauth_seq db + 1 \<Longrightarrow> auth_wf E db \<Longrightarrow> auth_wf E db'"
  by (auto simp: insert_oauth_row_def list_ex_iff auth_wf_def intro: oauth_append split: if_splits)

lemma oauth_rotate:
  assumes "oauth_ok n gs" "\<forall>g\<in>set gs. og_id g \<noteq> i \<longrightarrow> og_access g \<noteq> ae_hash E a \<and> og_refresh g \<noteq> ae_hash E r"
  shows "oauth_ok n (update_where (\<lambda>g. og_id g = i) (rotated_row E a r now) gs)"
proof -
  have id: "og_id (rotated_row E a r now g) = og_id g" for g by (simp add: rotated_row_def)
  have "keyed og_access (update_where (\<lambda>g. og_id g = i) (rotated_row E a r now) gs)"
    by (rule keyed_update_one [where y = "ae_hash E a"]) (use assms in \<open>auto simp: oauth_ok_def rotated_row_def\<close>)
  moreover have "keyed og_refresh (update_where (\<lambda>g. og_id g = i) (rotated_row E a r now) gs)"
    by (rule keyed_update_one [where y = "ae_hash E r"]) (use assms in \<open>auto simp: oauth_ok_def rotated_row_def\<close>)
  ultimately show ?thesis
    using assms(1) id by (auto simp: oauth_ok_def tables in_update_where)
qed

lemma oauth_wf:
  assumes "auth_wf E db"
  shows "register_oauth_client db name uri redirects random stamp = Inr (db', client) \<Longrightarrow> auth_wf E db'"
    and "auth_wf E (touch_oauth_client db cid stamp)"
    and "prune_oauth_grants db now = (db', n) \<Longrightarrow> auth_wf E db'"
    and "prune_oauth_clients db idle unauthorized = (db', n) \<Longrightarrow> auth_wf E db'"
    and "issue_oauth_grant E db user cid resource r1 r2 now stamp = Inr (db', issued) \<Longrightarrow> auth_wf E db'"
    and "oauth_access_user E db token resource now stamp = (db', found) \<Longrightarrow> auth_wf E db'"
    and "revoke_oauth_grant E db user gid = Inr (db', hit) \<Longrightarrow> auth_wf E db'"
    and "revoke_oauth_grant_by_token E db token cid = (db', hit) \<Longrightarrow> auth_wf E db'"
  using assms
  by (auto simp: register_oauth_client_def touch_oauth_client_def prune_oauth_grants_def prune_oauth_clients_def
      issue_oauth_grant_def oauth_access_user_def revoke_oauth_grant_def revoke_oauth_grant_by_token_def Let_def
      list_ex_iff auth_wf_parts tables intro: insert_oauth_wf split: outcome_splits)

lemma refresh_wf:
  assumes "auth_wf E db"
  shows "refresh_oauth_grant E db token cid resource r1 r2 now = Inr (db', out) \<Longrightarrow> auth_wf E db'"
  using assms auth_wf_parts(9) [OF assms]
  by (auto simp: refresh_oauth_grant_def Let_def list_ex_iff auth_wf_parts tables intro!: auth_wf_oauth oauth_rotate
      split: outcome_splits)

lemma share_links_wf:
  assumes "auth_wf E db"
  shows "mint_overlay_grant E db domain path owner expires random stamp = Inr (db', gid, token) \<Longrightarrow> auth_wf E db'"
    and "redeem_overlay_grant E db token account now = Inr (db', found) \<Longrightarrow> auth_wf E db'"
    and "revoke_overlay_grant E db owner gid as_admin stamp = Inr (db', found) \<Longrightarrow> auth_wf E db'"
    and "end_overlay_grants E db domain owner path stamp = Inr (db', n) \<Longrightarrow> auth_wf E db'"
    and "end_overlay_grants_of_owner E db owner stamp = Inr (db', n) \<Longrightarrow> auth_wf E db'"
    and "end_domain_overlay_grants db domain stamp = (db', n) \<Longrightarrow> auth_wf E db'"
proof -
  show "mint_overlay_grant E db domain path owner expires random stamp = Inr (db', gid, token) \<Longrightarrow> auth_wf E db'"
    using assms
    by (auto simp: mint_overlay_grant_def Let_def list_ex_iff auth_wf_def tables split: outcome_splits)
qed (use assms in \<open>auto simp: redeem_overlay_grant_def revoke_overlay_grant_def end_overlay_grants_def
      end_overlay_grants_of_owner_def end_domain_overlay_grants_def Let_def auth_wf_parts tables
      split: outcome_splits\<close>)

section \<open>Domains\<close>

text \<open>Moving every row of one domain to another, whose rows are deleted first.\<close>

lemma keyed_move:
  assumes k: "keyed k rows" and key: "\<And>r s. k r = k s \<longleftrightarrow> d r = d s \<and> rest r = rest s"
    and f: "\<And>r. d (f r) = new" "\<And>r. rest (f r) = rest r"
  shows "keyed k (update_where (\<lambda>r. d r = old) f (delete_where (\<lambda>r. d r = new) rows))"
proof (rule keyed_update_inj [OF keyed_delete [OF k]])
  show "inj_on (\<lambda>r. k (if d r = old then f r else r)) (set (delete_where (\<lambda>r. d r = new) rows))"
  proof (rule inj_onI)
    fix r s
    assume r: "r \<in> set (delete_where (\<lambda>r. d r = new) rows)" and s: "s \<in> set (delete_where (\<lambda>r. d r = new) rows)"
      and eq: "k (if d r = old then f r else r) = k (if d s = old then f s else s)"
    have "d r \<noteq> new" "d s \<noteq> new" using r s by auto
    then have "k r = k s" using eq f by (auto simp: key split: if_splits)
    then show "r = s" using keyed_eq [OF k] r s by auto
  qed
qed

lemma normalize_domain_idem: "normalize_domain s = Inr d \<Longrightarrow> normalize_domain d = Inr d"
  by (auto simp: normalize_domain_def Let_def split: if_splits)

lemma acl_move:
  assumes "acl_ok as" "normalize_domain new = Inr new"
  shows "acl_ok (update_where (\<lambda>a. al_domain a = old) (\<lambda>a. a\<lparr>al_domain := new\<rparr>)
           (delete_where (\<lambda>a. al_domain a = new) as))"
proof -
  have "keyed al_domain (update_where (\<lambda>a. al_domain a = old) (\<lambda>a. a\<lparr>al_domain := new\<rparr>)
      (delete_where (\<lambda>a. al_domain a = new) as))"
    by (rule keyed_move [where rest = "\<lambda>_. ()"]) (use assms in \<open>simp_all add: acl_ok_def\<close>)
  then show ?thesis using assms by (auto simp: acl_ok_def in_update_where split: if_splits)
qed

lemma members_move:
  assumes "members_ok as ms"
  shows "members_ok
    (update_where (\<lambda>a. al_domain a = old) (\<lambda>a. a\<lparr>al_domain := new\<rparr>) (delete_where (\<lambda>a. al_domain a = new) as))
    (update_where (\<lambda>m. mb_domain m = old) (\<lambda>m. m\<lparr>mb_domain := new\<rparr>) (delete_where (\<lambda>m. mb_domain m = new) ms))"
proof -
  have "keyed member_key (update_where (\<lambda>m. mb_domain m = old) (\<lambda>m. m\<lparr>mb_domain := new\<rparr>)
      (delete_where (\<lambda>m. mb_domain m = new) ms))"
    by (rule keyed_move [where rest = "\<lambda>m. (mb_kind m, mb_principal m)"])
       (use assms in \<open>auto simp: members_ok_def member_key_def\<close>)
  then show ?thesis using assms by (auto simp: members_ok_def in_update_where split: if_splits)
qed

lemma reflection_move:
  "keyed reflection_key gs \<Longrightarrow> keyed reflection_key
    (update_where (\<lambda>g. rg_domain g = old) (\<lambda>g. g\<lparr>rg_domain := new\<rparr>) (delete_where (\<lambda>g. rg_domain g = new) gs))"
  by (rule keyed_move [where rest = rg_account]) (auto simp: reflection_key_def)

lemma rename_holders_keyed: "keyed write_key rows \<Longrightarrow> keyed write_key (rename_holders old new accounts rows)"
proof (induction old new accounts rows rule: rename_holders.induct)
  case (2 old new account accounts rows)
  let ?hit = "\<lambda>w. wr_account w = account \<and> wr_pattern w = old"
  let ?both = "list_ex (\<lambda>w. wr_account w = account \<and> wr_pattern w = new) rows"
  have "keyed write_key (update_where ?hit (\<lambda>w. w\<lparr>wr_pattern := new\<rparr>) rows)" if "\<not> ?both"
    by (rule keyed_update_inj [OF 2(2)])
       (use that keyed_eq [OF 2(2)] in \<open>auto simp: inj_on_def write_key_def list_ex_iff\<close>)
  then show ?case using 2 by (simp add: Let_def tables)
qed simp

lemma rename_wf:
  assumes "auth_wf E db" "rename_domain db old new = Inr db'"
  shows "auth_wf E db'"
proof -
  have w: "auth_wf E (db\<lparr>db_writes := rename_holders old new accounts (db_writes db)\<rparr>)" for old new accounts
    using assms(1) by (simp add: auth_wf_def rename_holders_keyed)
  have m: "auth_wf E (move_records old new db1)" if "auth_wf E db1" "normalize_domain new = Inr new" for old new db1
    using that by (auto simp: auth_wf_def move_records_def acl_move members_move reflection_move tables)
  show ?thesis
    using assms by (auto simp: rename_domain_def Let_def w normalize_domain_idem intro!: m split: outcome_splits)
qed

lemma auth_wf_members [tables]:
  "members_ok (db_acl db) ms \<Longrightarrow> auth_wf E db \<Longrightarrow> auth_wf E (db\<lparr>db_members := ms\<rparr>)"
  by (simp add: auth_wf_def)

lemma auth_wf_reflection [tables]:
  "keyed reflection_key gs \<Longrightarrow> auth_wf E db \<Longrightarrow> auth_wf E (db\<lparr>db_reflection := gs\<rparr>)"
  by (simp add: auth_wf_def)

lemma delete_members_wf: "auth_wf E db \<Longrightarrow> auth_wf E (delete_members_of_domain d db)"
  by (simp add: delete_members_of_domain_def auth_wf_parts tables)

lemma delete_member_row_wf: "auth_wf E db \<Longrightarrow> auth_wf E (delete_member_row d who db)"
  by (simp add: delete_member_row_def auth_wf_parts tables)

lemma delete_acl_wf: "auth_wf E db \<Longrightarrow> auth_wf E (delete_acl_of_domain d db)"
  by (simp add: auth_wf_def delete_acl_of_domain_def tables)

lemma acl_of_None: "acl_of db d = None \<longleftrightarrow> d \<notin> al_domain ` set (db_acl db)"
  by (auto simp: acl_of_def find_None_iff_all)

lemma acl_of_Some:
  assumes "acl_ok (db_acl db)" "acl_of db d = Some acl" "a \<in> set (db_acl db)" "al_domain a = d"
  shows "al_owner a = acl_owner acl"
proof -
  obtain b where "find (\<lambda>a. al_domain a = d) (db_acl db) = Some b" "acl_owner acl = al_owner b"
    using assms(2) by (auto simp: acl_of_def)
  moreover from this have "b \<in> set (db_acl db)" "al_domain b = d" by (auto dest: find_SomeD)
  ultimately show ?thesis using assms keyed_eq by (metis acl_ok_def)
qed

text \<open>A new owner: the row is added or rewritten after the owner's membership is gone.\<close>

lemma new_acl_wf:
  assumes "auth_wf E db" "normalize_domain d = Inr d" "acl_of db d = None"
  shows "auth_wf E ((delete_member_row d owner (delete_acl_of_domain d db))
    \<lparr>db_acl := delete_where (\<lambda>a. al_domain a = d) (db_acl db) @ [\<lparr>al_domain = d, al_visibility = v, al_owner = owner, al_updated = stamp\<rparr>]\<rparr>)"
proof -
  let ?as = "delete_where (\<lambda>a. al_domain a = d) (db_acl db)"
  let ?row = "\<lparr>al_domain = d, al_visibility = v, al_owner = owner, al_updated = stamp\<rparr>"
  let ?ms = "delete_where (is_member_row d owner) (db_members db)"
  have "acl_ok (?as @ [?row])"
    using auth_wf_parts(4) [OF assms(1)] assms(2) by (auto simp: acl_ok_def tables)
  moreover have "members_ok (?as @ [?row]) ?ms"
    using auth_wf_parts(5) [OF assms(1)]
    by (intro members_append_acl members_acl_delete members_delete)
       (auto simp: members_ok_def is_member_row_def)
  ultimately show ?thesis
    using assms(1) by (simp add: auth_wf_def delete_member_row_def delete_acl_of_domain_def)
qed

lemma write_visibility_wf:
  assumes "auth_wf E db" "write_visibility E db domain private owner check stamp = Inr (db', out)"
  shows "auth_wf E db'"
proof -
  obtain d o' where d: "normalize_domain domain = Inr d" "normalize_account_name (ae_lower E) owner = Inr o'"
    using assms(2) by (auto simp: write_visibility_def split: sum.splits)
  show ?thesis
    using assms d new_acl_wf [OF assms(1) normalize_domain_idem [OF d(1)]]
    by (auto simp: write_visibility_def Let_def delete_acl_wf delete_members_wf split: outcome_splits)
       (simp_all add: delete_member_row_def delete_acl_of_domain_def)
qed

lemma transfer_wf:
  assumes "auth_wf E db" "transfer_domain E db domain new_owner stamp = Inr db'"
  shows "auth_wf E db'"
proof -
  obtain d who where db': "db' = delete_member_row d who
      (db\<lparr>db_acl := update_where (\<lambda>a. al_domain a = d) (\<lambda>a. a\<lparr>al_owner := who, al_updated := stamp\<rparr>) (db_acl db)\<rparr>)"
    using assms(2) by (auto simp: transfer_domain_def split: outcome_splits)
  let ?as = "update_where (\<lambda>a. al_domain a = d) (\<lambda>a. a\<lparr>al_owner := who, al_updated := stamp\<rparr>) (db_acl db)"
  have "members_ok ?as (delete_where (is_member_row d who) (db_members db))"
    using auth_wf_parts(5) [OF assms(1)]
    by (auto simp: members_ok_def is_member_row_def in_update_where keyed_delete split: if_splits)
  then show ?thesis
    using assms(1) by (simp add: auth_wf_def db' delete_member_row_def tables)
qed

lemma upsert_wf:
  assumes "fold_ok E" "auth_wf E db" "upsert_domain_member E db domain who level refl' added_by stamp = Inr db'"
  shows "auth_wf E db'"
proof -
  obtain d p acl l r a where who: "normalize_account_name (ae_lower E) who = Inr p"
    and acl: "acl_of db d = Some acl" "acl_owner acl \<noteq> p"
    and db': "db' = (delete_member_row d p db)\<lparr>db_members := db_members (delete_member_row d p db) @
      [\<lparr>mb_domain = d, mb_kind = PRINCIPAL_USER, mb_principal = p, mb_level = l, mb_reflection = r,
        mb_added_by = a, mb_added_at = stamp\<rparr>]\<rparr>"
    using assms(3) by (auto simp: upsert_domain_member_def Let_def split: outcome_splits)
  let ?m = "\<lparr>mb_domain = d, mb_kind = PRINCIPAL_USER, mb_principal = p, mb_level = l, mb_reflection = r,
    mb_added_by = a, mb_added_at = stamp\<rparr>"
  have "members_ok (db_acl db) (delete_where (is_member_row d p) (db_members db) @ [?m])"
    using auth_wf_parts(5) [OF assms(2)] fold_okD(1) [OF assms(1) who]
      acl_of_Some [OF auth_wf_parts(4) [OF assms(2)] acl(1)] acl(2)
    by (auto simp: members_ok_def is_member_row_def member_key_def tables)
  then show ?thesis
    using assms(2) by (simp add: auth_wf_def db' delete_member_row_def)
qed

lemma membership_wf:
  assumes "auth_wf E db"
  shows "take_back_governed_private db domain = Inr (db', hit) \<Longrightarrow> auth_wf E db'"
    and "forget_domain db domain = Inr (db', hit) \<Longrightarrow> auth_wf E db'"
    and "remove_domain_member E db domain who = Inr (db', hit) \<Longrightarrow> auth_wf E db'"
    and "remove_reflection_grant E db domain account = Inr (db', hit) \<Longrightarrow> auth_wf E db'"
    and "set_reflection_grant E db domain account level added_by stamp = Inr db' \<Longrightarrow> auth_wf E db'"
  using assms
  by (auto simp: take_back_governed_private_def forget_domain_def remove_domain_member_def
      remove_reflection_grant_def set_reflection_grant_def Let_def delete_acl_wf delete_members_of_domain_def
      delete_member_row_wf auth_wf_parts reflection_key_def tables split: outcome_splits
      intro!: delete_acl_wf auth_wf_reflection)

lemma write_entries_distinct: "distinct entries \<Longrightarrow> distinct (write_entries patterns entries)"
  by (induction patterns entries rule: write_entries.induct) (auto simp: Let_def)

lemma write_lists_wf:
  assumes "auth_wf E db"
  shows "set_write_list E db account patterns = Inr db' \<Longrightarrow> auth_wf E db'"
    and "clear_write_list E db account = Inr db' \<Longrightarrow> auth_wf E db'"
proof -
  have k: "keyed write_key (map (\<lambda>p. \<lparr>wr_account = a, wr_pattern = p\<rparr>) (write_entries ps []))" for a ps
    using write_entries_distinct [of "[]" ps]
    by (simp add: keyed_def write_key_def comp_def distinct_map inj_on_def)
  show "set_write_list E db account patterns = Inr db' \<Longrightarrow> auth_wf E db'"
    using assms k
    by (auto simp: set_write_list_def Let_def delete_write_list_of_def auth_wf_def keyed_append keyed_delete
        write_key_def split: outcome_splits)
  show "clear_write_list E db account = Inr db' \<Longrightarrow> auth_wf E db'"
    using assms
    by (auto simp: clear_write_list_def delete_write_list_of_def auth_wf_def tables split: outcome_splits)
qed

end
