(* ===== verification/AuthSteps.thy ===== *)
theory AuthSteps
  imports AuthWf
begin

text \<open>
  The store as a transition system. \<open>auth_step\<close> is one committed call of a guarded
  operation, \<open>forced_step\<close> one of the two the operator forces from the host; a call that
  fails rolls back and is no step. Reachable databases are well formed, and an enabled admin
  outlives every guarded step.
\<close>

section \<open>Steps\<close>

inductive auth_step :: "auth_env \<Rightarrow> auth_db \<Rightarrow> auth_db \<Rightarrow> bool" for E where
  add_user: "add_user_with_reflection E db name display email role level pass stamp = Inr db' \<Longrightarrow> auth_step E db db'"
| first_admin: "add_first_admin E db name display pass stamp = Inr (db', made) \<Longrightarrow> auth_step E db db'"
| ensure_user: "ensure_user_created E db name role cap stamp = Inr (db', user, made) \<Longrightarrow> auth_step E db db'"
| token_only_user: "add_token_only_user_with E db name display email role level label token stamp = Inr (db', issued)
    \<Longrightarrow> auth_step E db db'"
| provision: "provision_linked_user E db issuer subject desired shown email role cap stamp = Inr (db', user)
    \<Longrightarrow> auth_step E db db'"
| remove_user: "remove_user E db name = Inr db' \<Longrightarrow> auth_step E db db'"
| set_password: "set_password E db name pass = Inr db' \<Longrightarrow> auth_step E db db'"
| set_role: "set_role E db name role = Inr db' \<Longrightarrow> auth_step E db db'"
| set_display: "set_display E db name shown = Inr db' \<Longrightarrow> auth_step E db db'"
| set_reflection_level: "set_reflection_level E db name level = Inr db' \<Longrightarrow> auth_step E db db'"
| set_disabled: "set_disabled E db name disabled = Inr db' \<Longrightarrow> auth_step E db db'"
| refresh_presentation: "refresh_presentation E db name shown email = Inr (db', user) \<Longrightarrow> auth_step E db db'"
| create_session: "create_session E db name ttl token csrf now = Inr (db', s) \<Longrightarrow> auth_step E db db'"
| ensure_session: "ensure_session E db name ttl token csrf now = Inr (db', m) \<Longrightarrow> auth_step E db db'"
| session_user: "session_user E db token now stamp = (db', found) \<Longrightarrow> auth_step E db db'"
| mark_seen: "mark_seen db name stamp = db' \<Longrightarrow> auth_step E db db'"
| delete_session: "delete_session E db token = db' \<Longrightarrow> auth_step E db db'"
| issue_token: "issue_mcp_token E db name label random stamp = Inr (db', issued) \<Longrightarrow> auth_step E db db'"
| token_user: "mcp_token_user E db token stamp = (db', found2) \<Longrightarrow> auth_step E db db'"
| revoke_token: "revoke_mcp_token E db name tid = Inr (db', hit) \<Longrightarrow> auth_step E db db'"
| rotate_token: "rotate_mcp_token E db name tid random stamp = Inr (db', issued) \<Longrightarrow> auth_step E db db'"
| linked: "linked_user db issuer subject = Inr (db', found2) \<Longrightarrow> auth_step E db db'"
| link: "link_identity E db issuer subject name linked_by stamp = Inr db' \<Longrightarrow> auth_step E db db'"
| unlink: "unlink E db issuer name force = Inr (db', hit) \<Longrightarrow> auth_step E db db'"
| github_link: "link_github_inner E db name born host gid login stamp = Inr (db', row) \<Longrightarrow> auth_step E db db'"
| github_login: "set_github_login E db name login = Inr (db', hit) \<Longrightarrow> auth_step E db db'"
| github_gone: "mark_github_token_gone E db name = Inr (db', hit) \<Longrightarrow> auth_step E db db'"
| github_unlink: "unlink_github E db name = Inr (db', hit) \<Longrightarrow> auth_step E db db'"
| delivery: "remember_delivery_at db delivery now = (db', fresh) \<Longrightarrow> auth_step E db db'"
| forget: "forget_delivery db delivery = db' \<Longrightarrow> auth_step E db db'"
| client: "register_oauth_client db label uri redirects random stamp = Inr (db', c) \<Longrightarrow> auth_step E db db'"
| touch: "touch_oauth_client db cid stamp = db' \<Longrightarrow> auth_step E db db'"
| prune_grants: "prune_oauth_grants db now = (db', n) \<Longrightarrow> auth_step E db db'"
| prune_clients: "prune_oauth_clients db idle unauthorized = (db', n) \<Longrightarrow> auth_step E db db'"
| grant: "issue_oauth_grant E db name cid resource r1 r2 now stamp = Inr (db', og) \<Longrightarrow> auth_step E db db'"
| refresh: "refresh_oauth_grant E db token cid asked r1 r2 now = Inr (db', out) \<Longrightarrow> auth_step E db db'"
| access: "oauth_access_user E db token resource now stamp = (db', found2) \<Longrightarrow> auth_step E db db'"
| revoke_grant: "revoke_oauth_grant E db name gid = Inr (db', hit) \<Longrightarrow> auth_step E db db'"
| revoke_by_token: "revoke_oauth_grant_by_token E db token cid = (db', hit) \<Longrightarrow> auth_step E db db'"
| mint: "mint_overlay_grant E db domain path name expires random stamp = Inr (db', gid, token) \<Longrightarrow> auth_step E db db'"
| redeem: "redeem_overlay_grant E db token name at = Inr (db', ov) \<Longrightarrow> auth_step E db db'"
| revoke_link: "revoke_overlay_grant E db name gid as_admin stamp = Inr (db', ov) \<Longrightarrow> auth_step E db db'"
| end_links: "end_overlay_grants E db domain name path stamp = Inr (db', n) \<Longrightarrow> auth_step E db db'"
| end_owner_links: "end_overlay_grants_of_owner E db name stamp = Inr (db', n) \<Longrightarrow> auth_step E db db'"
| end_domain_links: "end_domain_overlay_grants db domain stamp = (db', n) \<Longrightarrow> auth_step E db db'"
| visibility: "write_visibility E db domain private name check stamp = Inr (db', v) \<Longrightarrow> auth_step E db db'"
| take_back: "take_back_governed_private db domain = Inr (db', hit) \<Longrightarrow> auth_step E db db'"
| forget_domain: "forget_domain db domain = Inr (db', hit) \<Longrightarrow> auth_step E db db'"
| rename: "rename_domain db old new = Inr db' \<Longrightarrow> auth_step E db db'"
| transfer: "transfer_domain E db domain name stamp = Inr db' \<Longrightarrow> auth_step E db db'"
| member: "upsert_domain_member E db domain name mlevel rlevel added_by stamp = Inr db' \<Longrightarrow> auth_step E db db'"
| remove_member: "remove_domain_member E db domain name = Inr (db', hit) \<Longrightarrow> auth_step E db db'"
| reflection: "set_reflection_grant E db domain name level added_by stamp = Inr db' \<Longrightarrow> auth_step E db db'"
| remove_reflection: "remove_reflection_grant E db domain name = Inr (db', hit) \<Longrightarrow> auth_step E db db'"
| write_list: "set_write_list E db name patterns = Inr db' \<Longrightarrow> auth_step E db db'"
| clear_write_list: "clear_write_list E db name = Inr db' \<Longrightarrow> auth_step E db db'"

inductive forced_step :: "auth_env \<Rightarrow> auth_db \<Rightarrow> auth_db \<Rightarrow> bool" for E where
  remove_forced: "remove_user_force E db name = Inr db' \<Longrightarrow> forced_step E db db'"
| role_forced: "set_role_force E db name role = Inr db' \<Longrightarrow> forced_step E db db'"

definition store_step :: "auth_env \<Rightarrow> auth_db \<Rightarrow> auth_db \<Rightarrow> bool" where
  "store_step E db db' \<longleftrightarrow> auth_step E db db' \<or> forced_step E db db'"

definition store_reachable :: "auth_env \<Rightarrow> auth_db \<Rightarrow> bool" where
  "store_reachable E db \<longleftrightarrow> (store_step E)\<^sup>*\<^sup>* empty_db db"

section \<open>Reachable databases are well formed\<close>

lemma auth_step_wf: "auth_step E db db' \<Longrightarrow> fold_ok E \<Longrightarrow> auth_wf E db \<Longrightarrow> auth_wf E db'"
  by (induction rule: auth_step.induct)
     (blast dest: making_accounts_wf changing_accounts_wf sessions_wf tokens_wf identities_wf provision_wf
       github_links_wf deliveries_wf oauth_wf refresh_wf share_links_wf write_visibility_wf membership_wf
       rename_wf transfer_wf upsert_wf write_lists_wf)+

lemma forced_step_wf: "forced_step E db db' \<Longrightarrow> auth_wf E db \<Longrightarrow> auth_wf E db'"
  by (induction rule: forced_step.induct) (blast dest: changing_accounts_wf)+

lemma store_steps_wf: "(store_step E)\<^sup>*\<^sup>* db db' \<Longrightarrow> fold_ok E \<Longrightarrow> auth_wf E db \<Longrightarrow> auth_wf E db'"
  by (induction rule: rtranclp_induct) (auto simp: store_step_def dest: auth_step_wf forced_step_wf)

section \<open>An enabled admin stays\<close>

definition enabled_admin :: "user_row \<Rightarrow> bool" where
  "enabled_admin u \<longleftrightarrow> ur_role u = ''admin'' \<and> \<not> ur_disabled u"

definition admin_in :: "user_row list \<Rightarrow> bool" where
  "admin_in us \<longleftrightarrow> list_ex enabled_admin us"

definition has_admin :: "auth_db \<Rightarrow> bool" where
  "has_admin db \<longleftrightarrow> admin_in (db_users db)"

named_theorems admins "what statements do to the admins of the users table"

lemma admin_in_iff: "admin_in us \<longleftrightarrow> (\<exists>u\<in>set us. enabled_admin u)"
  by (auto simp: admin_in_def list_ex_iff)

lemma admin_in_append [admins]: "admin_in (us @ vs) \<longleftrightarrow> admin_in us \<or> admin_in vs"
  by (simp add: admin_in_def)

lemma admin_in_Nil [admins]: "\<not> admin_in []"
  by (simp add: admin_in_def)

lemma admin_in_update [admins]:
  assumes "\<And>u. ur_role (f u) = ur_role u" "\<And>u. ur_disabled (f u) = ur_disabled u"
  shows "admin_in (update_where P f us) = admin_in us"
proof -
  have "enabled_admin (if P u then f u else u) = enabled_admin u" for u
    using assms by (simp add: enabled_admin_def)
  then show ?thesis by (induct us) (simp_all add: admin_in_def update_where_def)
qed

lemma admin_in_promote:
  assumes "admin_in us" "\<And>u. ur_role (f u) = ''admin''" "\<And>u. ur_disabled (f u) = ur_disabled u"
  shows "admin_in (update_where P f us)"
proof -
  obtain u where "u \<in> set us" "enabled_admin u" using assms(1) by (auto simp: admin_in_iff)
  then have "(if P u then f u else u) \<in> set (update_where P f us)" "enabled_admin (if P u then f u else u)"
    using assms(2,3) by (auto simp: in_update_where enabled_admin_def)
  then show ?thesis by (auto simp: admin_in_iff)
qed

text \<open>The guard of the store: it leaves another enabled admin whenever it lets one go.\<close>

lemma admin_guarded:
  assumes "admin_in us" and hit: "\<And>u. P u \<Longrightarrow> ur_name u = n \<and> not_last_admin us n u"
  shows "\<exists>u\<in>set us. enabled_admin u \<and> \<not> P u"
proof -
  obtain u where u: "u \<in> set us" "enabled_admin u" using assms(1) by (auto simp: admin_in_iff)
  show ?thesis
  proof (cases "P u")
    case True
    then obtain v where "v \<in> set us" "ur_name v \<noteq> n" "enabled_admin v"
      using hit [OF True] u(2) by (auto simp: not_last_admin_def enabled_admin_def list_ex_iff)
    then show ?thesis using hit by blast
  qed (use u in blast)
qed

lemma admin_in_delete:
  "admin_in us \<Longrightarrow> (\<And>u. P u \<Longrightarrow> ur_name u = n \<and> not_last_admin us n u) \<Longrightarrow> admin_in (delete_where P us)"
  using admin_guarded [of us P n] by (auto simp: admin_in_iff)

lemma admin_in_change:
  "admin_in us \<Longrightarrow> (\<And>u. P u \<Longrightarrow> ur_name u = n \<and> not_last_admin us n u) \<Longrightarrow> admin_in (update_where P f us)"
  using admin_guarded [of us P n] by (fastforce simp: admin_in_iff in_update_where)

lemma admin_making:
  assumes "has_admin db"
  shows "add_user_with_reflection E db name display email role rlevel pass stamp = Inr db' \<Longrightarrow> has_admin db'"
    and "add_first_admin E db name display pass stamp = Inr (db', made) \<Longrightarrow> has_admin db'"
    and "ensure_user_created E db name role cap stamp = Inr (db', user, made) \<Longrightarrow> has_admin db'"
    and "add_token_only_user_with E db name display email role rlevel label token stamp = Inr (db', issued)
           \<Longrightarrow> has_admin db'"
    and "provision_linked_user E db issuer subject desired shown email role cap stamp = Inr (db', user) \<Longrightarrow> has_admin db'"
  using assms
  by (auto simp: add_user_with_reflection_def add_first_admin_def ensure_user_created_def add_token_only_user_with_def
      provision_linked_user_def insert_user_def insert_mcp_token_row_def insert_link_def has_admin_def Let_def admins
      split: outcome_splits)

lemma sweep_users [simp]: "db_users (sweep_user n db) = db_users db"
  by (simp add: sweep_user_def sweeps)

lemma admin_changing:
  assumes "has_admin db"
  shows "remove_user E db name = Inr db' \<Longrightarrow> has_admin db'"
    and "set_role E db name role = Inr db' \<Longrightarrow> has_admin db'"
    and "set_disabled E db name disabled = Inr db' \<Longrightarrow> has_admin db'"
proof -
  have a: "admin_in (db_users db)" using assms by (simp add: has_admin_def)
  show "remove_user E db name = Inr db' \<Longrightarrow> has_admin db'"
    by (auto simp: remove_user_def Let_def has_admin_def intro!: admin_in_delete [OF a] split: outcome_splits)
  show "set_role E db name role = Inr db' \<Longrightarrow> has_admin db'"
  proof (cases "role_as_str role = ''admin''")
    case True
    then show "set_role E db name role = Inr db' \<Longrightarrow> has_admin db'"
      by (auto simp: set_role_def Let_def has_admin_def intro!: admin_in_promote [OF a] split: outcome_splits)
  next
    case False
    then show "set_role E db name role = Inr db' \<Longrightarrow> has_admin db'"
      by (auto simp: set_role_def Let_def has_admin_def intro!: admin_in_change [OF a] split: outcome_splits)
  qed
  have enable: "admin_in (update_where P (\<lambda>u. u\<lparr>ur_disabled := False\<rparr>) (db_users db))" for P
  proof -
    obtain u where "u \<in> set (db_users db)" "enabled_admin u" using a by (auto simp: admin_in_iff)
    then have "(if P u then u\<lparr>ur_disabled := False\<rparr> else u) \<in>
        set (update_where P (\<lambda>u. u\<lparr>ur_disabled := False\<rparr>) (db_users db))"
      "enabled_admin (if P u then u\<lparr>ur_disabled := False\<rparr> else u)"
      by (auto simp: in_update_where enabled_admin_def)
    then show ?thesis by (auto simp: admin_in_iff)
  qed
  show "set_disabled E db name disabled = Inr db' \<Longrightarrow> has_admin db'"
  proof (cases disabled)
    case True
    then show "set_disabled E db name disabled = Inr db' \<Longrightarrow> has_admin db'"
      by (auto simp: set_disabled_def Let_def delete_sessions_of_def has_admin_def intro!: admin_in_change [OF a]
          split: outcome_splits)
  next
    case False
    then show "set_disabled E db name disabled = Inr db' \<Longrightarrow> has_admin db'"
      using enable by (auto simp: set_disabled_def Let_def has_admin_def split: outcome_splits)
  qed
qed

lemma admin_presentation:
  assumes "has_admin db"
  shows "set_password E db name pass = Inr db' \<Longrightarrow> has_admin db'"
    and "set_display E db name display = Inr db' \<Longrightarrow> has_admin db'"
    and "set_reflection_level E db name level = Inr db' \<Longrightarrow> has_admin db'"
    and "refresh_presentation E db name shown email = Inr (db', user) \<Longrightarrow> has_admin db'"
    and "session_user E db token now stamp = (db', found) \<Longrightarrow> has_admin db'"
    and "mark_seen db name stamp = db' \<Longrightarrow> has_admin db'"
  using assms
  by (auto simp: set_password_def set_display_def set_reflection_level_def refresh_presentation_def
      session_user_def mark_seen_def delete_sessions_of_def Let_def has_admin_def admins split: outcome_splits)


text \<open>The operations that leave the users table alone.\<close>

lemma sessions_users:
  "create_session E db name ttl token csrf now = Inr (db', s) \<Longrightarrow> db_users db' = db_users db"
  "ensure_session E db name ttl token csrf now = Inr (db', m) \<Longrightarrow> db_users db' = db_users db"
  "delete_session E db token = db' \<Longrightarrow> db_users db' = db_users db"
  "issue_mcp_token E db name label random stamp = Inr (db', issued) \<Longrightarrow> db_users db' = db_users db"
  "mcp_token_user E db token stamp = (db', found) \<Longrightarrow> db_users db' = db_users db"
  "revoke_mcp_token E db name tid = Inr (db', hit) \<Longrightarrow> db_users db' = db_users db"
  "rotate_mcp_token E db name tid random stamp = Inr (db', issued) \<Longrightarrow> db_users db' = db_users db"
  by (auto simp: create_session_def ensure_session_def insert_session_def delete_session_def issue_mcp_token_def
      mcp_token_user_def revoke_mcp_token_def rotate_mcp_token_def insert_mcp_token_row_def Let_def
      split: outcome_splits)

lemma identities_users:
  "linked_user db issuer subject = Inr (db', found) \<Longrightarrow> db_users db' = db_users db"
  "link_identity E db issuer subject name linked_by stamp = Inr db' \<Longrightarrow> db_users db' = db_users db"
  "unlink E db issuer name force = Inr (db', hit) \<Longrightarrow> db_users db' = db_users db"
  "link_github_inner E db name born host gid login stamp = Inr (db', row) \<Longrightarrow> db_users db' = db_users db"
  "set_github_login E db name login = Inr (db', hit) \<Longrightarrow> db_users db' = db_users db"
  "mark_github_token_gone E db name = Inr (db', hit) \<Longrightarrow> db_users db' = db_users db"
  "unlink_github E db name = Inr (db', hit) \<Longrightarrow> db_users db' = db_users db"
  "remember_delivery_at db delivery at = (db', fresh) \<Longrightarrow> db_users db' = db_users db"
  "forget_delivery db delivery = db' \<Longrightarrow> db_users db' = db_users db"
  by (auto simp: linked_user_def link_identity_def insert_link_def unlink_def link_github_inner_def
      set_github_login_def mark_github_token_gone_def unlink_github_def delete_github_link_of_def
      remember_delivery_at_def forget_delivery_def Let_def split: outcome_splits)

lemma oauth_users:
  "register_oauth_client db label uri redirects random stamp = Inr (db', c) \<Longrightarrow> db_users db' = db_users db"
  "touch_oauth_client db cid stamp = db' \<Longrightarrow> db_users db' = db_users db"
  "prune_oauth_grants db now = (db', n) \<Longrightarrow> db_users db' = db_users db"
  "prune_oauth_clients db idle unauthorized = (db', n) \<Longrightarrow> db_users db' = db_users db"
  "issue_oauth_grant E db name cid resource r1 r2 now stamp = Inr (db', og) \<Longrightarrow> db_users db' = db_users db"
  "refresh_oauth_grant E db token cid asked r1 r2 now = Inr (db', out) \<Longrightarrow> db_users db' = db_users db"
  "oauth_access_user E db token resource now stamp = (db', found) \<Longrightarrow> db_users db' = db_users db"
  "revoke_oauth_grant E db name gid = Inr (db', hit) \<Longrightarrow> db_users db' = db_users db"
  "revoke_oauth_grant_by_token E db token cid = (db', hit) \<Longrightarrow> db_users db' = db_users db"
  by (auto simp: register_oauth_client_def touch_oauth_client_def prune_oauth_grants_def prune_oauth_clients_def
      issue_oauth_grant_def insert_oauth_row_def refresh_oauth_grant_def oauth_access_user_def
      revoke_oauth_grant_def revoke_oauth_grant_by_token_def Let_def split: outcome_splits)

lemma share_links_users:
  "mint_overlay_grant E db domain path name expires random stamp = Inr (db', gid, token) \<Longrightarrow> db_users db' = db_users db"
  "redeem_overlay_grant E db token name at = Inr (db', ov) \<Longrightarrow> db_users db' = db_users db"
  "revoke_overlay_grant E db name gid as_admin stamp = Inr (db', ov) \<Longrightarrow> db_users db' = db_users db"
  "end_overlay_grants E db domain name path stamp = Inr (db', n) \<Longrightarrow> db_users db' = db_users db"
  "end_overlay_grants_of_owner E db name stamp = Inr (db', n) \<Longrightarrow> db_users db' = db_users db"
  "end_domain_overlay_grants db domain stamp = (db', n) \<Longrightarrow> db_users db' = db_users db"
  by (auto simp: mint_overlay_grant_def redeem_overlay_grant_def revoke_overlay_grant_def end_overlay_grants_def
      end_overlay_grants_of_owner_def end_domain_overlay_grants_def Let_def split: outcome_splits)

lemma domains_users:
  "write_visibility E db domain private name check stamp = Inr (db', v) \<Longrightarrow> db_users db' = db_users db"
  "take_back_governed_private db domain = Inr (db', hit) \<Longrightarrow> db_users db' = db_users db"
  "forget_domain db domain = Inr (db', hit) \<Longrightarrow> db_users db' = db_users db"
  "rename_domain db old new = Inr db' \<Longrightarrow> db_users db' = db_users db"
  "transfer_domain E db domain name stamp = Inr db' \<Longrightarrow> db_users db' = db_users db"
  "upsert_domain_member E db domain name mlevel rlevel added_by stamp = Inr db' \<Longrightarrow> db_users db' = db_users db"
  "remove_domain_member E db domain name = Inr (db', hit) \<Longrightarrow> db_users db' = db_users db"
  "set_reflection_grant E db domain name level added_by stamp = Inr db' \<Longrightarrow> db_users db' = db_users db"
  "remove_reflection_grant E db domain name = Inr (db', hit) \<Longrightarrow> db_users db' = db_users db"
  "set_write_list E db name patterns = Inr db' \<Longrightarrow> db_users db' = db_users db"
  "clear_write_list E db name = Inr db' \<Longrightarrow> db_users db' = db_users db"
  by (auto simp: write_visibility_def take_back_governed_private_def forget_domain_def rename_domain_def
      move_records_def transfer_domain_def upsert_domain_member_def remove_domain_member_def
      set_reflection_grant_def remove_reflection_grant_def set_write_list_def clear_write_list_def
      delete_acl_of_domain_def delete_members_of_domain_def delete_member_row_def delete_write_list_of_def
      Let_def split: outcome_splits)

lemma has_admin_users: "db_users db' = db_users db \<Longrightarrow> has_admin db \<Longrightarrow> has_admin db'"
  by (simp add: has_admin_def)

lemma admin_step_or_users:
  "auth_step E db db' \<Longrightarrow> has_admin db \<Longrightarrow> has_admin db' \<or> db_users db' = db_users db"
  by (induction rule: auth_step.induct)
     ((rule disjI1, erule (1) admin_making admin_changing admin_presentation)
       | (rule disjI2, erule sessions_users identities_users oauth_users share_links_users domains_users))+

lemma admin_step: "auth_step E db db' \<Longrightarrow> has_admin db \<Longrightarrow> has_admin db'"
  using admin_step_or_users has_admin_users by blast

lemma admin_steps: "(auth_step E)\<^sup>*\<^sup>* db db' \<Longrightarrow> has_admin db \<Longrightarrow> has_admin db'"
  by (induction rule: rtranclp_induct) (auto dest: admin_step)

end
