(* ===== verification/Credentials.thy ===== *)
theory Credentials
  imports AuthSteps
begin

text \<open>
  What a credential resolves to. A table that belongs to accounts is swept when its account
  goes (\<open>owned_table\<close>, interpreted for each of the store's tables on \<open>sweep_user\<close>), so the next
  account of that name starts with nothing; a disabled account resolves from no credential.
\<close>

section \<open>Tables that belong to an account\<close>

locale owned_table =
  fixes rows :: "auth_db \<Rightarrow> 'r list" and owner :: "'r \<Rightarrow> string option"
    and sweep :: "string \<Rightarrow> auth_db \<Rightarrow> auth_db"
  assumes swept: "r \<in> set (rows (sweep n db)) \<longleftrightarrow> r \<in> set (rows db) \<and> owner r \<noteq> Some n"
begin

lemma unclaimed: "r \<in> set (rows (sweep n db)) \<Longrightarrow> owner r \<noteq> Some n"
  by (simp add: swept)

lemma others_stay: "r \<in> set (rows db) \<Longrightarrow> owner r \<noteq> Some n \<Longrightarrow> r \<in> set (rows (sweep n db))"
  by (simp add: swept)

lemma none_left: "filter (\<lambda>r. owner r = Some n \<and> P r) (rows (sweep n db)) = []"
  by (auto simp: filter_empty_conv swept)

lemma find_none: "find (\<lambda>r. P r \<and> owner r = Some n) (rows (sweep n db)) = None"
  by (auto simp: find_None_iff_all swept)

lemma sweep_twice: "set (rows (sweep n (sweep n db))) = set (rows (sweep n db))"
  by (auto simp: swept)

end

interpretation sessions: owned_table db_sessions "\<lambda>s. Some (sr_user s)" sweep_user
  by unfold_locales (auto simp: sweep_user_def sweeps)

interpretation mcp_tokens: owned_table db_tokens "\<lambda>t. Some (tr_user t)" sweep_user
  by unfold_locales (auto simp: sweep_user_def sweeps)

interpretation members: owned_table db_members "\<lambda>m. if mb_kind m = ''user'' then Some (mb_principal m) else None" sweep_user
  by unfold_locales (auto simp: sweep_user_def sweeps)

interpretation reflection_rows: owned_table db_reflection "\<lambda>g. Some (rg_account g)" sweep_user
  by unfold_locales (auto simp: sweep_user_def sweeps)

interpretation identity_rows: owned_table db_links "\<lambda>l. Some (il_user l)" sweep_user
  by unfold_locales (auto simp: sweep_user_def sweeps)

interpretation github_rows: owned_table db_github "\<lambda>g. Some (gh_account g)" sweep_user
  by unfold_locales (auto simp: sweep_user_def sweeps)

interpretation oauth_rows: owned_table db_oauth "\<lambda>g. Some (og_user g)" sweep_user
  by unfold_locales (auto simp: sweep_user_def sweeps)

interpretation write_rows: owned_table db_writes "\<lambda>w. Some (wr_account w)" sweep_user
  by unfold_locales (auto simp: sweep_user_def sweeps)

interpretation held_rows: owned_table db_overlay ov_grantee sweep_user
  by unfold_locales (auto simp: sweep_user_def sweeps)

lemma swept_owner: "a \<in> set (db_acl (sweep_user n db)) \<Longrightarrow> n \<noteq> [] \<Longrightarrow> al_owner a \<noteq> n"
  by (auto simp: sweep_user_def sweeps in_update_where dest: arg_cong [where f = al_owner] split: if_splits)

section \<open>What a credential resolves to\<close>

lemma user_row_ofD: "user_row_of db n = Some u \<Longrightarrow> u \<in> set (db_users db) \<and> ur_name u = n"
  by (auto simp: user_row_of_def dest: find_SomeD)

lemma joinedD:
  "joined owner P rows db = Some (r, u) \<Longrightarrow> r \<in> set rows \<and> P r \<and> ur_name u = owner r \<and> user_row_of db (owner r) = Some u"
  by (auto simp: joined_def user_row_of_def dest: find_SomeD split: option.splits)

lemma u_name_row [simp]: "u_name (user_from_row u) = ur_name u"
  by (simp add: user_from_row_def)

lemma u_disabled_row [simp]: "u_disabled (user_from_row u) = ur_disabled u"
  by (simp add: user_from_row_def)

lemma session_userD:
  "snd (session_user E db token now stamp) = Some (u, csrf) \<Longrightarrow>
     \<exists>s\<in>set (db_sessions db). sr_user s = u_name u \<and> sr_hash s = ae_hash E token \<and> sr_expires s > now
       \<and> user_row_of db (u_name u) \<noteq> None \<and> \<not> u_disabled u \<and> map_option user_from_row (user_row_of db (u_name u)) = Some u"
  by (auto simp: session_user_def Let_def user_row_of_def dest!: joinedD split: option.splits prod.splits if_splits)

lemma mcp_token_userD:
  "snd (mcp_token_user E db token stamp) = Some u \<Longrightarrow>
     \<exists>t\<in>set (db_tokens db). tr_user t = u_name u \<and> tr_hash t = ae_hash E token
       \<and> \<not> u_disabled u \<and> map_option user_from_row (user_row_of db (u_name u)) = Some u"
  by (auto simp: mcp_token_user_def Let_def user_row_of_def dest!: joinedD split: option.splits prod.splits if_splits)

lemma oauth_access_userD:
  "snd (oauth_access_user E db token resource now stamp) = Some u \<Longrightarrow>
     \<exists>g\<in>set (db_oauth db). og_user g = u_name u \<and> og_access g = ae_hash E token \<and> og_access_until g > now
       \<and> \<not> u_disabled u \<and> map_option user_from_row (user_row_of db (u_name u)) = Some u"
  by (auto simp: oauth_access_user_def Let_def user_row_of_def dest!: joinedD split: option.splits prod.splits if_splits)

lemma linked_userD:
  "linked_user db issuer subject = Inr (db', Some u) \<Longrightarrow> \<exists>l\<in>set (db_links db). il_user l = u_name u"
  by (auto simp: linked_user_def Let_def dest!: joinedD split: sum.splits)


section \<open>The claims\<close>

text \<open>A machine for the examples: ASCII folding, a visible digest, no time.\<close>

definition example_env :: auth_env where
  "example_env = \<lparr>ae_lower = ascii_lowercase, ae_hash = (\<lambda>t. CHR ''#'' # t), ae_verify = (\<lambda>h p. h = p),
     ae_after = (\<lambda>a b. Some (b < a))\<rparr>"

lemma example_fold [simp]: "fold_ok example_env"
  by (rule ascii_fold_ok) (simp add: example_env_def)

text \<open>
  C1: every database the store can reach from an empty one, by any sequence of its operations, is
  well formed: primary keys and unique columns hold in every table, names are folded, and no
  owner is also a member.
\<close>

theorem store_well_formed:
  assumes "fold_ok E" "store_reachable E db"
  shows "auth_wf E db"
  using store_steps_wf [of E empty_db db] assms empty_wf by (simp add: store_reachable_def)

definition first_admin_db :: auth_db where
  "first_admin_db =
     (case add_first_admin example_env empty_db '' Root '' ''Root'' ''pw'' ''t0'' of
        Inr (db, _) \<Rightarrow> db | Inl _ \<Rightarrow> empty_db)"

lemma first_admin_made: "add_first_admin example_env empty_db '' Root '' ''Root'' ''pw'' ''t0'' = Inr (first_admin_db, True)"
  by code_simp

lemma first_admin_reachable: "store_reachable example_env first_admin_db"
  unfolding store_reachable_def store_step_def
  by (rule r_into_rtranclp) (use first_admin_made auth_step.first_admin in blast)

theorem store_well_formed_witness:
  "auth_wf example_env first_admin_db \<and> map ur_name (db_users first_admin_db) = [''root'']"
proof
  show "auth_wf example_env first_admin_db"
    by (rule store_well_formed [OF example_fold first_admin_reachable])
  show "map ur_name (db_users first_admin_db) = [''root'']" by code_simp
qed

text \<open>
  C2: once the store holds an enabled admin, no sequence of guarded operations leaves it without
  one; only the two forced operations can.
\<close>

theorem enabled_admin_remains:
  assumes "has_admin db" "(auth_step E)\<^sup>*\<^sup>* db db'"
  shows "\<exists>u\<in>set (list_users db'). u_role u = RoleAdmin \<and> \<not> u_disabled u"
proof -
  have "has_admin db'" using admin_steps assms by blast
  then obtain r where "r \<in> set (db_users db')" "ur_role r = ''admin''" "\<not> ur_disabled r"
    by (auto simp: has_admin_def admin_in_iff enabled_admin_def)
  moreover have "role_from_db ''admin'' = RoleAdmin"
    using role_roundtrip [of RoleAdmin] by (simp add: role_as_str_def)
  ultimately show ?thesis
    by (intro bexI [of _ "user_from_row r"]) (auto simp: list_users_def user_from_row_def)
qed

definition second_user_db :: auth_db where
  "second_user_db =
     (case add_user example_env first_admin_db ''ann'' ''Ann'' None RoleEditor ''pw2'' ''t1'' of
        Inr db \<Rightarrow> db | Inl _ \<Rightarrow> empty_db)"

theorem enabled_admin_remains_witness:
  "\<exists>u\<in>set (list_users second_user_db). u_role u = RoleAdmin \<and> \<not> u_disabled u"
proof (rule enabled_admin_remains [of first_admin_db])
  show "has_admin first_admin_db" by code_simp
  have "add_user_with_reflection example_env first_admin_db ''ann'' ''Ann'' None RoleEditor DefaultLevel ''pw2'' ''t1''
      = Inr second_user_db" by code_simp
  then show "(auth_step example_env)\<^sup>*\<^sup>* first_admin_db second_user_db"
    by (intro r_into_rtranclp auth_step.add_user)
qed

lemma remove_user_rows:
  assumes "remove_user E db name = Inr db1" "normalize_account_name (ae_lower E) name = Inr n"
  shows "\<exists>us. db1 = (sweep_user n db)\<lparr>db_users := us\<rparr> \<and> set us \<subseteq> set (db_users db)"
  using assms by (fastforce simp: remove_user_def Let_def split: if_splits)

lemma add_user_rows:
  assumes "add_user_with_reflection E db1 name display email role level pass stamp = Inr db2"
  shows "\<exists>us. db2 = db1\<lparr>db_users := us\<rparr>"
  using assms by (fastforce simp: add_user_with_reflection_def insert_user_def split: sum.splits if_splits)

lemma removed_then_added:
  assumes "remove_user E db name = Inr db1" "normalize_account_name (ae_lower E) name = Inr n"
    "add_user_with_reflection E db1 name display email role level pass stamp = Inr db2"
  shows "\<exists>us. db2 = (sweep_user n db)\<lparr>db_users := us\<rparr>"
  using remove_user_rows [OF assms(1,2)] add_user_rows [OF assms(3)] by fastforce

lemma swept_name:
  assumes "fold_ok E" "normalize_account_name (ae_lower E) name = Inr n"
    and "remove_user E db name = Inr db1"
    and "add_user_with_reflection E db1 name display email role level pass stamp = Inr db2"
  shows "snd (session_user E db2 token now at) = Some (u, csrf) \<Longrightarrow> u_name u \<noteq> n"
    and "snd (mcp_token_user E db2 token at) = Some u \<Longrightarrow> u_name u \<noteq> n"
    and "snd (oauth_access_user E db2 token resource now at) = Some u \<Longrightarrow> u_name u \<noteq> n"
    and "linked_user db2 issuer subject = Inr (db3, Some u) \<Longrightarrow> u_name u \<noteq> n"
    and "github_link_of E db2 name = Inr None"
    and "memberships_of E db2 name = Inr []"
    and "normalize_domain domain = Inr d \<Longrightarrow> reflection_grant E db2 domain name = Inr None"
    and "write_list E db2 name = Inr None"
    and "overlay_grants_held E db2 name domain at = Inr []"
    and "acl_of db2 domain = Some acl \<Longrightarrow> acl_owner acl \<noteq> n"
proof -
  obtain us where db2: "db2 = (sweep_user n db)\<lparr>db_users := us\<rparr>"
    using removed_then_added [OF assms(3,2,4)] by blast
  note rows = db2 assms(2)
  show "snd (session_user E db2 token now at) = Some (u, csrf) \<Longrightarrow> u_name u \<noteq> n"
    using sessions.unclaimed by (fastforce simp: rows dest!: session_userD)
  show "snd (mcp_token_user E db2 token at) = Some u \<Longrightarrow> u_name u \<noteq> n"
    using mcp_tokens.unclaimed by (fastforce simp: rows dest!: mcp_token_userD)
  show "snd (oauth_access_user E db2 token resource now at) = Some u \<Longrightarrow> u_name u \<noteq> n"
    using oauth_rows.unclaimed by (fastforce simp: rows dest!: oauth_access_userD)
  show "linked_user db2 issuer subject = Inr (db3, Some u) \<Longrightarrow> u_name u \<noteq> n"
    using identity_rows.unclaimed by (fastforce simp: rows dest!: linked_userD)
  show "github_link_of E db2 name = Inr None"
    using github_rows.unclaimed by (fastforce simp: rows github_link_of_def find_None_iff_all)
  have "filter (\<lambda>m. mb_kind m = PRINCIPAL_USER \<and> mb_principal m = n) (db_members db2) = []"
    using members.unclaimed by (fastforce simp: rows PRINCIPAL_USER_def filter_empty_conv)
  then show "memberships_of E db2 name = Inr []"
    by (simp add: memberships_of_def assms(2))
  have "find (\<lambda>g. rg_domain g = d \<and> rg_account g = n) (db_reflection db2) = None"
    using reflection_rows.unclaimed by (fastforce simp: rows find_None_iff_all)
  then show "normalize_domain domain = Inr d \<Longrightarrow> reflection_grant E db2 domain name = Inr None"
    by (simp add: reflection_grant_def assms(2) reflection_level_from_db_def)
  have "filter (\<lambda>w. wr_account w = n) (db_writes db2) = []"
    using write_rows.unclaimed by (fastforce simp: rows filter_empty_conv)
  then show "write_list E db2 name = Inr None"
    by (simp add: write_list_def write_list_of_def assms(2))
  have "filter (\<lambda>g. ov_grantee g = Some n \<and> ov_domain g = domain \<and> ov_revoked g = None) (db_overlay db2) = []"
    using held_rows.unclaimed by (fastforce simp: rows filter_empty_conv)
  then show "overlay_grants_held E db2 name domain at = Inr []"
    by (simp add: overlay_grants_held_def assms(2))
  show "acl_of db2 domain = Some acl \<Longrightarrow> acl_owner acl \<noteq> n"
    using swept_owner fold_okD(1) [OF assms(1,2)]
    by (fastforce simp: acl_of_def db2 dest!: find_SomeD)
qed

text \<open>
  C3: removing an account and adding one of the same name hands the newcomer nothing: no session,
  MCP token, OAuth token or sign-on link of any kind resolves to the name, and it holds no
  GitHub link, membership, Reflection grant, write list, draft share-link or domain.
\<close>

theorem removed_account_leaves_nothing:
  assumes "fold_ok E" "normalize_account_name (ae_lower E) name = Inr n"
    and "remove_user E db name = Inr db1"
    and "add_user_with_reflection E db1 name display email role level pass stamp = Inr db2"
  shows "(\<forall>token now at u csrf. snd (session_user E db2 token now at) = Some (u, csrf) \<longrightarrow> u_name u \<noteq> n)
    \<and> (\<forall>token at u. snd (mcp_token_user E db2 token at) = Some u \<longrightarrow> u_name u \<noteq> n)
    \<and> (\<forall>token resource now at u. snd (oauth_access_user E db2 token resource now at) = Some u \<longrightarrow> u_name u \<noteq> n)
    \<and> (\<forall>issuer subject db3 u. linked_user db2 issuer subject = Inr (db3, Some u) \<longrightarrow> u_name u \<noteq> n)
    \<and> github_link_of E db2 name = Inr None
    \<and> memberships_of E db2 name = Inr []
    \<and> (\<forall>domain d. normalize_domain domain = Inr d \<longrightarrow> reflection_grant E db2 domain name = Inr None)
    \<and> write_list E db2 name = Inr None
    \<and> (\<forall>domain at. overlay_grants_held E db2 name domain at = Inr [])
    \<and> (\<forall>domain acl. acl_of db2 domain = Some acl \<longrightarrow> acl_owner acl \<noteq> n)"
  by (intro conjI allI impI) ((erule swept_name [OF assms] | rule swept_name [OF assms])+)

definition owned_db :: auth_db where
  "owned_db =
     (let row = \<lparr>sr_hash = ''#tok'', sr_user = ''ann'', sr_csrf = ''c'', sr_expires = 100\<rparr>;
          acl = \<lparr>al_domain = ''eng'', al_visibility = ''private'', al_owner = ''ann'', al_updated = ''t''\<rparr>
      in second_user_db\<lparr>db_sessions := [row], db_acl := [acl]\<rparr>)"

definition swept_db :: auth_db where
  "swept_db = (case remove_user example_env owned_db ''ann'' of Inr db \<Rightarrow> db | Inl _ \<Rightarrow> empty_db)"

definition readded_db :: auth_db where
  "readded_db =
     (case add_user_with_reflection example_env swept_db ''ann'' ''New Ann'' None RoleViewer DefaultLevel ''pw3'' ''t2'' of
        Inr db \<Rightarrow> db | Inl _ \<Rightarrow> empty_db)"

theorem removed_account_leaves_nothing_witness:
  "session_owner example_env owned_db ''tok'' 5 = Some ''ann''
     \<and> has_user readded_db ''ann''
     \<and> memberships_of example_env readded_db ''ann'' = Inr []
     \<and> write_list example_env readded_db ''ann'' = Inr None"
proof (intro conjI)
  show "session_owner example_env owned_db ''tok'' 5 = Some ''ann''" by code_simp
  show "has_user readded_db ''ann''" by code_simp
  have n: "normalize_account_name (ae_lower example_env) ''ann'' = Inr ''ann''" by code_simp
  have r: "remove_user example_env owned_db ''ann'' = Inr swept_db" by code_simp
  have a: "add_user_with_reflection example_env swept_db ''ann'' ''New Ann'' None RoleViewer DefaultLevel ''pw3'' ''t2''
      = Inr readded_db" by code_simp
  show "memberships_of example_env readded_db ''ann'' = Inr []"
    "write_list example_env readded_db ''ann'' = Inr None"
    using removed_account_leaves_nothing [OF example_fold n r a] by blast+
qed

lemma disabled_rows:
  assumes "keyed ur_name (db_users db)" "set_disabled E db name True = Inr db'"
    "normalize_account_name (ae_lower E) name = Inr n" "u \<in> set (db_users db')" "ur_name u = n"
  shows "ur_disabled u"
proof -
  let ?hit = "\<lambda>u. ur_name u = n \<and> not_last_admin (db_users db) n u"
  have users: "db_users db' = update_where ?hit (\<lambda>u. u\<lparr>ur_disabled := True\<rparr>) (db_users db)"
    and ex: "\<exists>v\<in>set (db_users db). ?hit v"
    using assms(2,3) by (auto simp: set_disabled_def Let_def delete_sessions_of_def split: if_splits)
  obtain w where w: "w \<in> set (db_users db)" "u = (if ?hit w then w\<lparr>ur_disabled := True\<rparr> else w)"
    using assms(4) by (auto simp: users in_update_where)
  then have "ur_name w = n" using assms(5) by (auto split: if_splits)
  moreover obtain v where "v \<in> set (db_users db)" "?hit v" using ex by blast
  ultimately have "?hit w" using keyed_eq [OF assms(1), of v w] w(1) by simp
  with w(2) show ?thesis by simp
qed

text \<open>
  C4: disabling an account locks it out: no session, MCP token or OAuth access token resolves to
  it, its password no longer checks, and none of its refresh tokens rotates.
\<close>

theorem disabled_account_locked_out:
  assumes "auth_wf E db" "normalize_account_name (ae_lower E) name = Inr n"
    and "set_disabled E db name True = Inr db'"
  shows "(\<forall>token now at u csrf. snd (session_user E db' token now at) = Some (u, csrf) \<longrightarrow> u_name u \<noteq> n)
    \<and> (\<forall>token at u. snd (mcp_token_user E db' token at) = Some u \<longrightarrow> u_name u \<noteq> n)
    \<and> (\<forall>token resource now at u. snd (oauth_access_user E db' token resource now at) = Some u \<longrightarrow> u_name u \<noteq> n)
    \<and> (\<forall>password. check_password E db' name password = NoHash)
    \<and> (\<forall>g presented client now. og_user g = n \<longrightarrow> \<not> live_refresh db' presented client now g)"
proof -
  have off: "ur_disabled u" if "u \<in> set (db_users db')" "ur_name u = n" for u
    using disabled_rows [OF _ assms(3,2) that] auth_wf_parts(1) [OF assms(1)] by (simp add: users_ok_def)
  then have row: "ur_disabled u" if "user_row_of db' n = Some u" for u
    using user_row_ofD [OF that] by blast
  have gone: "False" if "map_option user_from_row (user_row_of db' (u_name u)) = Some u" "\<not> u_disabled u" "u_name u = n" for u
    using that row by (cases "user_row_of db' n") auto
  show ?thesis
    using gone row off
    by (auto simp: check_password_def assms(2) live_refresh_def list_ex_iff
        dest!: session_userD mcp_token_userD oauth_access_userD split: option.splits)
qed

definition disabled_db :: auth_db where
  "disabled_db = (case set_disabled example_env owned_db ''ann'' True of Inr db \<Rightarrow> db | Inl _ \<Rightarrow> empty_db)"

lemma owned_wf: "auth_wf example_env owned_db"
proof -
  have "users_ok example_env (db_users owned_db)"
    "keyed sr_hash (db_sessions owned_db)" "tokens_ok (db_token_seq owned_db) (db_tokens owned_db)"
    "acl_ok (db_acl owned_db)" "members_ok (db_acl owned_db) (db_members owned_db)"
    "links_ok (db_links owned_db)" "github_ok (db_github owned_db)" "keyed oc_id (db_clients owned_db)"
    "oauth_ok (db_oauth_seq owned_db) (db_oauth owned_db)" "overlay_ok (db_overlay_seq owned_db) (db_overlay owned_db)"
    "keyed write_key (db_writes owned_db)" "keyed reflection_key (db_reflection owned_db)"
    "keyed fst (db_deliveries owned_db)"
    by code_simp+
  then show ?thesis by (simp add: auth_wf_def)
qed

theorem disabled_account_locked_out_witness:
  "check_password example_env owned_db ''ann'' ''pw2'' \<noteq> NoHash
     \<and> (\<forall>password. check_password example_env disabled_db ''ann'' password = NoHash)"
proof
  show "check_password example_env owned_db ''ann'' ''pw2'' \<noteq> NoHash" by code_simp
  have n: "normalize_account_name (ae_lower example_env) ''ann'' = Inr ''ann''" by code_simp
  have d: "set_disabled example_env owned_db ''ann'' True = Inr disabled_db" by code_simp
  show "\<forall>password. check_password example_env disabled_db ''ann'' password = NoHash"
    using disabled_account_locked_out [OF owned_wf n d] by (elim conjE)
qed

end
