(* ===== verification/RefreshTokens.thy ===== *)
theory RefreshTokens
  imports Credentials
begin

text \<open>
  What becomes of a refresh token after it was presented. A history is a sequence of the
  store's steps that carries along the hash of every refresh token minted so far
  (\<open>fresh_step\<close>): a step that mints one mints a new one, as the 256 random bits of
  \<open>random_hex\<close> and a digest without collisions have it. \<open>kept_tokens\<close> says of every other step
  of the store that it adds no token to a grant and moves none. A presented token is then
  spent: it mints nothing again, and as long as the grant still holds the token it was
  exchanged for, its coming back revokes the grant.
\<close>

section \<open>What a step does to the tokens of a grant\<close>

definition tokens_of :: "oauth_row \<Rightarrow> int \<times> string \<times> string \<times> string option" where
  "tokens_of g = (og_id g, og_access g, og_refresh g, og_previous g)"

definition kept_tokens :: "auth_db \<Rightarrow> auth_db \<Rightarrow> bool" where
  "kept_tokens db db' \<longleftrightarrow> tokens_of ` set (db_oauth db') \<subseteq> tokens_of ` set (db_oauth db)"

named_theorems keeping "statements that keep the tokens of the grants"

lemma kept_same [keeping]: "db_oauth db' = db_oauth db \<Longrightarrow> kept_tokens db db'"
  by (simp add: kept_tokens_def)

lemma kept_delete [keeping]: "db_oauth db' = delete_where P (db_oauth db) \<Longrightarrow> kept_tokens db db'"
  by (auto simp: kept_tokens_def delete_where_def)

lemma kept_used [keeping]:
  "db_oauth db' = update_where P (\<lambda>g. g\<lparr>og_last_used := x\<rparr>) (delete_where Q (db_oauth db)) \<Longrightarrow> kept_tokens db db'"
  by (auto simp: kept_tokens_def tokens_of_def update_where_def delete_where_def)

lemma sweep_oauth: "db_oauth (sweep_user n db) = delete_where (\<lambda>g. og_user g = n) (db_oauth db)"
  by (simp add: sweep_user_def sweeps)

text \<open>The call of a step that mints a refresh token, which is hashed to \<open>h\<close>.\<close>

inductive mints :: "auth_env \<Rightarrow> auth_db \<Rightarrow> auth_db \<Rightarrow> string \<Rightarrow> bool" for E where
  grant: "issue_oauth_grant E db name cid resource r1 r2 now stamp = Inr (db', og)
    \<Longrightarrow> mints E db db' (ae_hash E (ig_refresh og))"
| rotate: "refresh_oauth_grant E db token cid asked r1 r2 now = Inr (db', Rotated og)
    \<Longrightarrow> mints E db db' (ae_hash E (ig_refresh og))"

lemma accounts_keep:
  "add_user_with_reflection E db name display email role rlevel pass stamp = Inr db' \<Longrightarrow> kept_tokens db db'"
  "add_first_admin E db name display pass stamp = Inr (db', made) \<Longrightarrow> kept_tokens db db'"
  "ensure_user_created E db name role cap stamp = Inr (db', user, made) \<Longrightarrow> kept_tokens db db'"
  "add_token_only_user_with E db name display email role rlevel label token stamp = Inr (db', issued) \<Longrightarrow> kept_tokens db db'"
  "provision_linked_user E db issuer subject desired shown email role cap stamp = Inr (db', user) \<Longrightarrow> kept_tokens db db'"
  "remove_user E db name = Inr db' \<Longrightarrow> kept_tokens db db'"
  "remove_user_force E db name = Inr db' \<Longrightarrow> kept_tokens db db'"
  "set_role E db name role = Inr db' \<Longrightarrow> kept_tokens db db'"
  "set_role_force E db name role = Inr db' \<Longrightarrow> kept_tokens db db'"
  "set_disabled E db name disabled = Inr db' \<Longrightarrow> kept_tokens db db'"
  "set_password E db name pass = Inr db' \<Longrightarrow> kept_tokens db db'"
  "set_display E db name wanted = Inr db' \<Longrightarrow> kept_tokens db db'"
  "set_reflection_level E db name level = Inr db' \<Longrightarrow> kept_tokens db db'"
  "refresh_presentation E db name shown email = Inr (db', user) \<Longrightarrow> kept_tokens db db'"
  "session_user E db token now stamp = (db', found) \<Longrightarrow> kept_tokens db db'"
  "mark_seen db name stamp = db' \<Longrightarrow> kept_tokens db db'"
  by (auto simp: add_user_with_reflection_def add_first_admin_def ensure_user_created_def add_token_only_user_with_def
      provision_linked_user_def insert_user_def insert_mcp_token_row_def insert_link_def remove_user_def
      remove_user_force_def set_role_def set_role_force_def set_disabled_def set_password_def set_display_def
      set_reflection_level_def refresh_presentation_def session_user_def mark_seen_def delete_sessions_of_def
      sweep_oauth Let_def intro: keeping split: outcome_splits)

lemma credentials_keep:
  "create_session E db name ttl token csrf now = Inr (db', s) \<Longrightarrow> kept_tokens db db'"
  "ensure_session E db name ttl token csrf now = Inr (db', m) \<Longrightarrow> kept_tokens db db'"
  "delete_session E db token = db' \<Longrightarrow> kept_tokens db db'"
  "issue_mcp_token E db name label random stamp = Inr (db', issued) \<Longrightarrow> kept_tokens db db'"
  "mcp_token_user E db token stamp = (db', found) \<Longrightarrow> kept_tokens db db'"
  "revoke_mcp_token E db name tid = Inr (db', hit) \<Longrightarrow> kept_tokens db db'"
  "rotate_mcp_token E db name tid random stamp = Inr (db', issued) \<Longrightarrow> kept_tokens db db'"
  "linked_user db issuer subject = Inr (db', found2) \<Longrightarrow> kept_tokens db db'"
  "link_identity E db issuer subject name linked_by stamp = Inr db' \<Longrightarrow> kept_tokens db db'"
  "unlink E db issuer name force = Inr (db', hit) \<Longrightarrow> kept_tokens db db'"
  "link_github_inner E db name born host gid login stamp = Inr (db', row) \<Longrightarrow> kept_tokens db db'"
  "set_github_login E db name login = Inr (db', hit) \<Longrightarrow> kept_tokens db db'"
  "mark_github_token_gone E db name = Inr (db', hit) \<Longrightarrow> kept_tokens db db'"
  "unlink_github E db name = Inr (db', hit) \<Longrightarrow> kept_tokens db db'"
  "remember_delivery_at db delivery at = (db', fresh) \<Longrightarrow> kept_tokens db db'"
  "forget_delivery db delivery = db' \<Longrightarrow> kept_tokens db db'"
  by (auto intro!: kept_same simp: create_session_def ensure_session_def insert_session_def delete_session_def issue_mcp_token_def
      mcp_token_user_def revoke_mcp_token_def rotate_mcp_token_def insert_mcp_token_row_def linked_user_def
      link_identity_def insert_link_def unlink_def link_github_inner_def set_github_login_def
      mark_github_token_gone_def unlink_github_def delete_github_link_of_def remember_delivery_at_def
      forget_delivery_def Let_def split: outcome_splits)

lemma oauth_keep:
  "register_oauth_client db label uri redirects random stamp = Inr (db', c) \<Longrightarrow> kept_tokens db db'"
  "touch_oauth_client db cid stamp = db' \<Longrightarrow> kept_tokens db db'"
  "prune_oauth_grants db now = (db', n) \<Longrightarrow> kept_tokens db db'"
  "prune_oauth_clients db idle unauthorized = (db', n) \<Longrightarrow> kept_tokens db db'"
  "oauth_access_user E db token resource now stamp = (db', found) \<Longrightarrow> kept_tokens db db'"
  "revoke_oauth_grant E db name gid = Inr (db', hit) \<Longrightarrow> kept_tokens db db'"
  "revoke_oauth_grant_by_token E db token cid = (db', hit) \<Longrightarrow> kept_tokens db db'"
  by (auto simp: register_oauth_client_def touch_oauth_client_def prune_oauth_grants_def prune_oauth_clients_def
      oauth_access_user_def revoke_oauth_grant_def revoke_oauth_grant_by_token_def Let_def
      intro: keeping split: outcome_splits)

lemma refresh_keeps:
  "refresh_oauth_grant E db token cid asked r1 r2 now = Inr (db', out) \<Longrightarrow> (\<And>og. out \<noteq> Rotated og) \<Longrightarrow> kept_tokens db db'"
  by (auto simp: refresh_oauth_grant_def Let_def intro: keeping split: outcome_splits)

lemma links_and_domains_keep:
  "mint_overlay_grant E db domain path name expires random stamp = Inr (db', gid, token) \<Longrightarrow> kept_tokens db db'"
  "redeem_overlay_grant E db token name at = Inr (db', ov) \<Longrightarrow> kept_tokens db db'"
  "revoke_overlay_grant E db name gid as_admin stamp = Inr (db', ov) \<Longrightarrow> kept_tokens db db'"
  "end_overlay_grants E db domain name path stamp = Inr (db', n) \<Longrightarrow> kept_tokens db db'"
  "end_overlay_grants_of_owner E db name stamp = Inr (db', n) \<Longrightarrow> kept_tokens db db'"
  "end_domain_overlay_grants db domain stamp = (db', n) \<Longrightarrow> kept_tokens db db'"
  "write_visibility E db domain private name check stamp = Inr (db', v) \<Longrightarrow> kept_tokens db db'"
  "take_back_governed_private db domain = Inr (db', hit) \<Longrightarrow> kept_tokens db db'"
  "forget_domain db domain = Inr (db', hit) \<Longrightarrow> kept_tokens db db'"
  "rename_domain db old new = Inr db' \<Longrightarrow> kept_tokens db db'"
  "transfer_domain E db domain name stamp = Inr db' \<Longrightarrow> kept_tokens db db'"
  "upsert_domain_member E db domain name mlevel rlevel added_by stamp = Inr db' \<Longrightarrow> kept_tokens db db'"
  "remove_domain_member E db domain name = Inr (db', hit) \<Longrightarrow> kept_tokens db db'"
  "set_reflection_grant E db domain name level added_by stamp = Inr db' \<Longrightarrow> kept_tokens db db'"
  "remove_reflection_grant E db domain name = Inr (db', hit) \<Longrightarrow> kept_tokens db db'"
  "set_write_list E db name patterns = Inr db' \<Longrightarrow> kept_tokens db db'"
  "clear_write_list E db name = Inr db' \<Longrightarrow> kept_tokens db db'"
  by (auto intro!: kept_same simp: mint_overlay_grant_def redeem_overlay_grant_def revoke_overlay_grant_def end_overlay_grants_def
      end_overlay_grants_of_owner_def end_domain_overlay_grants_def write_visibility_def
      take_back_governed_private_def forget_domain_def rename_domain_def
      move_records_def transfer_domain_def upsert_domain_member_def remove_domain_member_def
      set_reflection_grant_def remove_reflection_grant_def set_write_list_def clear_write_list_def
      delete_acl_of_domain_def delete_members_of_domain_def delete_member_row_def delete_write_list_of_def
      Let_def split: outcome_splits)

lemma auth_step_tokens: "auth_step E db db' \<Longrightarrow> (\<exists>h. mints E db db' h) \<or> kept_tokens db db'"
proof (induction rule: auth_step.induct)
  case (grant db name cid resource r1 r2 now stamp db' og)
  then show ?case using mints.grant by blast
next
  case (refresh db token cid asked r1 r2 now db' out)
  show ?case
  proof (cases "\<exists>og. out = Rotated og")
    case True
    then show ?thesis using refresh mints.rotate by blast
  next
    case False
    then show ?thesis using refresh_keeps [OF refresh] by blast
  qed
qed ((rule disjI2, erule accounts_keep credentials_keep oauth_keep links_and_domains_keep)+)

lemma store_step_tokens: "store_step E db db' \<Longrightarrow> (\<exists>h. mints E db db' h) \<or> kept_tokens db db'"
  using auth_step_tokens by (auto simp: store_step_def elim!: forced_step.cases intro: accounts_keep)

lemma mints_step: "mints E db db' h \<Longrightarrow> store_step E db db'"
  by (auto simp: store_step_def elim!: mints.cases intro: auth_step.grant auth_step.refresh)

lemma in_update_one:
  assumes "x \<in> set rows" "\<And>s. s \<in> set rows \<Longrightarrow> k s = k x \<Longrightarrow> s = x"
  shows "g \<in> set (update_where (\<lambda>s. k s = k x) f rows) \<longleftrightarrow> g = f x \<or> (g \<in> set rows \<and> k g \<noteq> k x)"
proof
  assume "g \<in> set (update_where (\<lambda>s. k s = k x) f rows)"
  then obtain s where s: "s \<in> set rows" "g = (if k s = k x then f s else s)" by (auto simp: in_update_where)
  then show "g = f x \<or> (g \<in> set rows \<and> k g \<noteq> k x)" using assms(2) by (cases "k s = k x") auto
next
  assume "g = f x \<or> (g \<in> set rows \<and> k g \<noteq> k x)"
  then show "g \<in> set (update_where (\<lambda>s. k s = k x) f rows)"
    using assms(1) by (fastforce simp: in_update_where)
qed

lemma find_refresh:
  assumes "keyed og_refresh gs" "find (live_refresh db p c now) gs = Some row"
  shows "row \<in> set gs" "og_refresh row = p" "\<And>g. g \<in> set gs \<Longrightarrow> og_refresh g = p \<Longrightarrow> g = row"
proof -
  show r: "row \<in> set gs" "og_refresh row = p"
    using find_SomeD [OF assms(2)] by (auto simp: live_refresh_def)
  show "\<And>g. g \<in> set gs \<Longrightarrow> og_refresh g = p \<Longrightarrow> g = row"
    using keyed_eq [OF assms(1) _ r(1)] r(2) by simp
qed

lemma rotated_rows:
  assumes "auth_wf E db" "refresh_oauth_grant E db token client asked r1 r2 now = Inr (db1, Rotated issued)"
  obtains row where "row \<in> set (db_oauth db)" "og_id row = ig_id issued" "og_refresh row = ae_hash E token"
    "ig_refresh issued = OAUTH_REFRESH_PREFIX @ r2" "ig_access issued = OAUTH_ACCESS_PREFIX @ r1"
    "db_oauth db1 = update_where (\<lambda>g. og_id g = og_id row)
       (rotated_row E (OAUTH_ACCESS_PREFIX @ r1) (OAUTH_REFRESH_PREFIX @ r2) now) (db_oauth db)"
    "\<forall>g\<in>set (db_oauth db). og_id g \<noteq> og_id row \<longrightarrow>
       og_access g \<noteq> ae_hash E (ig_access issued) \<and> og_refresh g \<noteq> ae_hash E (ig_refresh issued)
       \<and> og_refresh g \<noteq> ae_hash E token"
proof -
  have k: "keyed og_refresh (db_oauth db)" using auth_wf_parts(9) [OF assms(1)] by (simp add: oauth_ok_def)
  obtain row where f: "find (live_refresh db (ae_hash E token) client now) (db_oauth db) = Some row"
    using assms(2) by (auto simp: refresh_oauth_grant_def Let_def split: option.splits)
  note r = find_refresh [OF k f]
  have out: "db1 = db\<lparr>db_oauth := update_where (\<lambda>g. og_id g = og_id row)
       (rotated_row E (OAUTH_ACCESS_PREFIX @ r1) (OAUTH_REFRESH_PREFIX @ r2) now) (db_oauth db)\<rparr>"
    "issued = \<lparr>ig_id = og_id row, ig_access = OAUTH_ACCESS_PREFIX @ r1, ig_refresh = OAUTH_REFRESH_PREFIX @ r2,
       ig_expires_in = nat \<bar>OAUTH_ACCESS_TTL_SECS\<bar>\<rparr>"
    and fresh: "\<not> list_ex (\<lambda>g. og_id g \<noteq> og_id row \<and> (og_access g = ae_hash E (OAUTH_ACCESS_PREFIX @ r1)
       \<or> og_refresh g = ae_hash E (OAUTH_REFRESH_PREFIX @ r2))) (db_oauth db)"
    using assms(2) f by (simp_all add: refresh_oauth_grant_def Let_def split: if_splits)
  show thesis
  proof (rule that [of row])
    show "\<forall>g\<in>set (db_oauth db). og_id g \<noteq> og_id row \<longrightarrow>
       og_access g \<noteq> ae_hash E (ig_access issued) \<and> og_refresh g \<noteq> ae_hash E (ig_refresh issued)
       \<and> og_refresh g \<noteq> ae_hash E token"
    proof (intro ballI impI)
      fix g
      assume g: "g \<in> set (db_oauth db)" "og_id g \<noteq> og_id row"
      then have "og_refresh g \<noteq> ae_hash E token" using r(3) by blast
      with g fresh show "og_access g \<noteq> ae_hash E (ig_access issued) \<and> og_refresh g \<noteq> ae_hash E (ig_refresh issued)
         \<and> og_refresh g \<noteq> ae_hash E token"
        by (auto simp: out(2) list_ex_iff)
    qed
  qed (simp_all add: r(1,2) out)
qed

lemma granted_rows:
  assumes "issue_oauth_grant E db name cid resource r1 r2 now stamp = Inr (db', og)"
  obtains g where "og_refresh g = ae_hash E (ig_refresh og)" "og_previous g = None"
    "set (db_oauth db') = insert g (set (db_oauth db))"
  using assms
  by (force simp: issue_oauth_grant_def insert_oauth_row_def Let_def split: sum.splits if_splits)

lemma minted_rows:
  assumes "auth_wf E db" "mints E db db' h"
  obtains g old where "og_refresh g = h" "set (db_oauth db') = insert g (set (db_oauth db) - old)"
    "old = {} \<and> og_previous g = None \<or> (\<exists>row\<in>set (db_oauth db). old = {row} \<and> og_previous g = Some (og_refresh row))"
  using assms(2)
proof cases
  case (grant name cid resource r1 r2 now stamp og)
  obtain g where "og_refresh g = h" "og_previous g = None" "set (db_oauth db') = insert g (set (db_oauth db))"
    using granted_rows [OF grant(2)] grant(1) by metis
  then show thesis using that [of g "{}"] by simp
next
  case (rotate token cid asked r1 r2 now og)
  obtain row where row: "row \<in> set (db_oauth db)" "ig_refresh og = OAUTH_REFRESH_PREFIX @ r2"
    and rows: "db_oauth db' = update_where (\<lambda>g. og_id g = og_id row)
       (rotated_row E (OAUTH_ACCESS_PREFIX @ r1) (OAUTH_REFRESH_PREFIX @ r2) now) (db_oauth db)"
    using rotated_rows [OF assms(1) rotate(2)] by metis
  have ids: "keyed og_id (db_oauth db)" using auth_wf_parts(9) [OF assms(1)] by (simp add: oauth_ok_def)
  have same: "g = row" if "g \<in> set (db_oauth db)" "og_id g = og_id row" for g
    using keyed_eq [OF ids that(1) row(1) that(2)] .
  let ?g = "rotated_row E (OAUTH_ACCESS_PREFIX @ r1) (OAUTH_REFRESH_PREFIX @ r2) now row"
  have "set (db_oauth db') = insert ?g (set (db_oauth db) - {row})"
    using in_update_one [where k = og_id, OF row(1) same] same by (auto simp: rows)
  then show thesis using that [of ?g "{row}"] row rotate(1) by (simp add: rotated_row_def)
qed

section \<open>Histories\<close>

inductive fresh_step :: "auth_env \<Rightarrow> auth_db \<times> string set \<Rightarrow> auth_db \<times> string set \<Rightarrow> bool" for E where
  mint: "mints E db db' h \<Longrightarrow> h \<notin> used \<Longrightarrow> fresh_step E (db, used) (db', insert h used)"
| other: "store_step E db db' \<Longrightarrow> \<forall>h. \<not> mints E db db' h \<Longrightarrow> fresh_step E (db, used) (db', used)"

definition history_ok :: "auth_env \<Rightarrow> auth_db \<times> string set \<Rightarrow> bool" where
  "history_ok E = (\<lambda>(db, used). auth_wf E db \<and>
     (\<forall>g\<in>set (db_oauth db). og_refresh g \<in> used \<and>
        (\<forall>p. og_previous g = Some p \<longrightarrow> p \<in> used \<and> (\<forall>k\<in>set (db_oauth db). og_refresh k \<noteq> p))))"

text \<open>\<open>h\<close> was exchanged for \<open>h'\<close> by the grant \<open>i\<close>, which minted the access token \<open>a\<close> with it.\<close>

definition spent :: "int \<Rightarrow> string \<Rightarrow> string \<Rightarrow> string \<Rightarrow> auth_db \<times> string set \<Rightarrow> bool" where
  "spent i a h h' = (\<lambda>(db, used). h \<in> used \<and> h' \<in> used \<and>
     (\<forall>g\<in>set (db_oauth db). og_refresh g \<noteq> h \<and> (og_previous g = Some h \<longleftrightarrow> og_refresh g = h')
        \<and> (og_refresh g = h' \<longrightarrow> og_id g = i \<and> og_access g = a)))"

lemma kept_row:
  assumes "kept_tokens db db'" "g \<in> set (db_oauth db')"
  obtains k where "k \<in> set (db_oauth db)" "og_id k = og_id g" "og_access k = og_access g"
    "og_refresh k = og_refresh g" "og_previous k = og_previous g"
proof -
  have "tokens_of g \<in> tokens_of ` set (db_oauth db)" using assms by (auto simp: kept_tokens_def)
  then obtain k where "k \<in> set (db_oauth db)" "tokens_of g = tokens_of k" by (auto simp: image_iff)
  then show thesis using that [of k] by (simp add: tokens_of_def)
qed

lemma store_step_wf: "store_step E db db' \<Longrightarrow> fold_ok E \<Longrightarrow> auth_wf E db \<Longrightarrow> auth_wf E db'"
  by (auto simp: store_step_def dest: auth_step_wf forced_step_wf)

lemma history_step:
  assumes "fold_ok E" "fresh_step E s s'" "history_ok E s"
  shows "history_ok E s'"
  using assms(2)
proof cases
  case (mint db db' h used)
  have wf: "auth_wf E db" "auth_wf E db'"
    using assms(1,3) mints_step [OF mint(3)] by (auto simp: history_ok_def mint intro: store_step_wf)
  have k: "keyed og_refresh (db_oauth db)" using auth_wf_parts(9) [OF wf(1)] by (simp add: oauth_ok_def)
  have old: "og_refresh g \<in> used \<and> (\<forall>p. og_previous g = Some p \<longrightarrow> p \<in> used \<and> (\<forall>k\<in>set (db_oauth db). og_refresh k \<noteq> p))"
    if "g \<in> set (db_oauth db)" for g using assms(3) that by (auto simp: history_ok_def mint)
  obtain g gone where g: "og_refresh g = h" "set (db_oauth db') = insert g (set (db_oauth db) - gone)"
    and prev: "gone = {} \<and> og_previous g = None \<or> (\<exists>row\<in>set (db_oauth db). gone = {row} \<and> og_previous g = Some (og_refresh row))"
    using minted_rows [OF wf(1) mint(3)] by metis
  have "og_refresh x \<in> insert h used \<and> (\<forall>p. og_previous x = Some p \<longrightarrow> p \<in> insert h used
      \<and> (\<forall>k\<in>set (db_oauth db'). og_refresh k \<noteq> p))" if "x \<in> set (db_oauth db')" for x
  proof (cases "x = g")
    case True
    show ?thesis
    proof (cases "og_previous g")
      case None
      then show ?thesis using True g by simp
    next
      case (Some p)
      then obtain row where row: "row \<in> set (db_oauth db)" "gone = {row}" "p = og_refresh row" using prev by auto
      have "og_refresh y \<noteq> p" if "y \<in> set (db_oauth db')" for y
        using that row old [OF row(1)] g mint(4) keyed_eq [OF k _ row(1), of y] by auto
      then show ?thesis using True Some g row old [OF row(1)] mint(4) by auto
    qed
  next
    case False
    then have "x \<in> set (db_oauth db)" using that g by simp
    then show ?thesis using old [of x] g mint(4) by auto
  qed
  then show ?thesis using wf(2) by (simp add: history_ok_def mint)
next
  case (other db db' used)
  have "kept_tokens db db'" using store_step_tokens [OF other(3)] other(4) by blast
  note kept = kept_row [OF this]
  have old: "auth_wf E db" "g \<in> set (db_oauth db) \<Longrightarrow> og_refresh g \<in> used"
    "g \<in> set (db_oauth db) \<Longrightarrow> og_previous g = Some p \<Longrightarrow> p \<in> used"
    "g \<in> set (db_oauth db) \<Longrightarrow> og_previous g = Some p \<Longrightarrow> k \<in> set (db_oauth db) \<Longrightarrow> og_refresh k \<noteq> p" for g k p
    using assms(3) by (auto simp: history_ok_def other)
  have "og_refresh x \<in> used" if "x \<in> set (db_oauth db')" for x
    using kept [OF that] old(2) by metis
  moreover have "p \<in> used" if "x \<in> set (db_oauth db')" "og_previous x = Some p" for x p
    using kept [OF that(1)] that(2) old(3) by metis
  moreover have "og_refresh y \<noteq> p"
    if "x \<in> set (db_oauth db')" "og_previous x = Some p" "y \<in> set (db_oauth db')" for x y p
    using kept [OF that(1)] kept [OF that(3)] that(2) old(4) by metis
  ultimately show ?thesis
    using store_step_wf [OF other(3) assms(1) old(1)] by (simp add: history_ok_def other)
qed

lemma spent_step:
  assumes "fresh_step E s s'" "history_ok E s" "spent i a h h' s"
  shows "spent i a h h' s'"
  using assms(1)
proof cases
  case (mint db db' n used)
  have wf: "auth_wf E db" using assms(2) by (simp add: history_ok_def mint)
  have old: "og_refresh g \<noteq> h \<and> (og_previous g = Some h \<longleftrightarrow> og_refresh g = h')
      \<and> (og_refresh g = h' \<longrightarrow> og_id g = i \<and> og_access g = a)" if "g \<in> set (db_oauth db)" for g
    using assms(3) that by (auto simp: spent_def mint)
  have u: "h \<in> used" "h' \<in> used" using assms(3) by (auto simp: spent_def mint)
  obtain g gone where g: "og_refresh g = n" "set (db_oauth db') = insert g (set (db_oauth db) - gone)"
    and prev: "gone = {} \<and> og_previous g = None \<or> (\<exists>row\<in>set (db_oauth db). gone = {row} \<and> og_previous g = Some (og_refresh row))"
    using minted_rows [OF wf mint(3)] by metis
  have n: "n \<noteq> h" "n \<noteq> h'" using u mint(4) by auto
  have "og_previous g \<noteq> Some h" using prev old by auto
  then show ?thesis using u old g n by (auto simp: spent_def mint)
next
  case (other db db' used)
  have "kept_tokens db db'" using store_step_tokens [OF other(3)] other(4) by blast
  note kept = kept_row [OF this]
  have old: "og_refresh g \<noteq> h" "og_previous g = Some h \<longleftrightarrow> og_refresh g = h'"
    "og_refresh g = h' \<Longrightarrow> og_id g = i \<and> og_access g = a" if "g \<in> set (db_oauth db)" for g
    using assms(3) that by (auto simp: spent_def other)
  have "og_refresh g \<noteq> h \<and> (og_previous g = Some h \<longleftrightarrow> og_refresh g = h')
      \<and> (og_refresh g = h' \<longrightarrow> og_id g = i \<and> og_access g = a)" if "g \<in> set (db_oauth db')" for g
    using kept [OF that] old by metis
  then show ?thesis using assms(3) by (simp add: spent_def other)
qed

lemma history_steps: "(fresh_step E)\<^sup>*\<^sup>* s s' \<Longrightarrow> fold_ok E \<Longrightarrow> history_ok E s \<Longrightarrow> history_ok E s'"
  by (induction rule: rtranclp_induct) (auto intro: history_step)

lemma spent_steps:
  "(fresh_step E)\<^sup>*\<^sup>* s s' \<Longrightarrow> fold_ok E \<Longrightarrow> history_ok E s \<Longrightarrow> spent i a h h' s \<Longrightarrow> spent i a h h' s'"
proof (induction rule: rtranclp_induct)
  case (step x y)
  then show ?case using spent_step history_steps by blast
qed simp

lemma rotation_spends:
  assumes "history_ok E (db, used)"
    and "refresh_oauth_grant E db token client asked r1 r2 now = Inr (db1, Rotated issued)"
    and "ae_hash E (ig_refresh issued) \<notin> used"
  shows "spent (ig_id issued) (ae_hash E (ig_access issued)) (ae_hash E token) (ae_hash E (ig_refresh issued))
    (db1, insert (ae_hash E (ig_refresh issued)) used)"
proof -
  have wf: "auth_wf E db" using assms(1) by (simp add: history_ok_def)
  obtain row where row: "row \<in> set (db_oauth db)" "og_id row = ig_id issued" "og_refresh row = ae_hash E token"
    and minted: "ig_refresh issued = OAUTH_REFRESH_PREFIX @ r2" "ig_access issued = OAUTH_ACCESS_PREFIX @ r1"
    and rows: "db_oauth db1 = update_where (\<lambda>g. og_id g = og_id row)
       (rotated_row E (OAUTH_ACCESS_PREFIX @ r1) (OAUTH_REFRESH_PREFIX @ r2) now) (db_oauth db)"
    and others: "\<forall>g\<in>set (db_oauth db). og_id g \<noteq> og_id row \<longrightarrow>
       og_access g \<noteq> ae_hash E (ig_access issued) \<and> og_refresh g \<noteq> ae_hash E (ig_refresh issued)
       \<and> og_refresh g \<noteq> ae_hash E token"
    using rotated_rows [OF wf assms(2)] by blast
  have ids: "keyed og_id (db_oauth db)" using auth_wf_parts(9) [OF wf] by (simp add: oauth_ok_def)
  have same: "g = row" if "g \<in> set (db_oauth db)" "og_id g = og_id row" for g
    using keyed_eq [OF ids that(1) row(1) that(2)] .
  let ?new = "rotated_row E (OAUTH_ACCESS_PREFIX @ r1) (OAUTH_REFRESH_PREFIX @ r2) now row"
  have in1: "g \<in> set (db_oauth db1) \<longleftrightarrow> g = ?new \<or> (g \<in> set (db_oauth db) \<and> og_id g \<noteq> og_id row)" for g
    unfolding rows by (rule in_update_one [OF row(1) same])
  have new: "og_refresh ?new = ae_hash E (ig_refresh issued)" "og_previous ?new = Some (ae_hash E token)"
    "og_id ?new = ig_id issued" "og_access ?new = ae_hash E (ig_access issued)"
    by (simp_all add: rotated_row_def row minted)
  have used: "ae_hash E token \<in> used" "g \<in> set (db_oauth db) \<Longrightarrow> og_previous g \<noteq> Some (ae_hash E token)" for g
    using assms(1) row by (force simp: history_ok_def)+
  have "ae_hash E (ig_refresh issued) \<noteq> ae_hash E token" using used(1) assms(3) by metis
  then show ?thesis
    using used others new unfolding spent_def by (auto simp: in1)
qed

lemma history_empty: "history_ok E (empty_db, {})"
  using empty_wf by (simp add: history_ok_def empty_db_def)

section \<open>The claim\<close>

text \<open>
  What is presented again after \<open>spent\<close>: nothing matches it as a live token, and only the grant
  that still holds its successor as a replayed one.
\<close>

lemma spent_presented:
  assumes "spent i a (ae_hash E token) h' (db, used)"
  shows "refresh_oauth_grant E db token client asked r1 r2 now =
    Inr (if list_ex (\<lambda>g. og_refresh g = h') (db_oauth db)
         then (db\<lparr>db_oauth := delete_where (\<lambda>g. og_id g = i) (db_oauth db)\<rparr>, Replayed i)
         else (db, Unknown))"
proof -
  have s: "og_refresh g \<noteq> ae_hash E token" "og_previous g = Some (ae_hash E token) \<longleftrightarrow> og_refresh g = h'"
    "og_refresh g = h' \<Longrightarrow> og_id g = i" if "g \<in> set (db_oauth db)" for g
    using assms that by (auto simp: spent_def)
  have f1: "find (live_refresh db (ae_hash E token) client now) (db_oauth db) = None"
    using s(1) by (auto simp: find_None_iff_all live_refresh_def)
  show ?thesis
  proof (cases "find (\<lambda>g. og_previous g = Some (ae_hash E token)) (db_oauth db)")
    case None
    then have "\<not> list_ex (\<lambda>g. og_refresh g = h') (db_oauth db)" using s(2) by (auto simp: find_None_iff_all list_ex_iff)
    then show ?thesis using f1 None by (simp add: refresh_oauth_grant_def)
  next
    case (Some g)
    then have g: "g \<in> set (db_oauth db)" "og_refresh g = h'" "og_id g = i"
      using find_SomeD [OF Some] s by blast+
    then have "list_ex (\<lambda>g. og_refresh g = h') (db_oauth db)" by (auto simp: list_ex_iff)
    then show ?thesis using f1 Some g(3) by (simp add: refresh_oauth_grant_def)
  qed
qed

text \<open>
  C5: a refresh token works once. In any history of the store in which every refresh token minted
  hashes to a new value, a token that rotated its grant mints nothing when it is presented
  again, at any later point, by any client and for any resource: while the grant still holds
  the token the rotation handed out, the answer is a replay and the grant is gone, with the
  access and refresh tokens minted by the rotation; once the grant rotated on or is gone, the
  token is unknown and nothing changes. Only the direct predecessor of the live token is
  detected, as the comment on \<open>refresh_oauth_grant\<close> says.
\<close>

theorem refresh_token_works_once:
  assumes "fold_ok E" "(fresh_step E)\<^sup>*\<^sup>* (empty_db, {}) (db, used)"
    and "refresh_oauth_grant E db token client asked r1 r2 now = Inr (db1, Rotated issued)"
    and "ae_hash E (ig_refresh issued) \<notin> used"
    and "(fresh_step E)\<^sup>*\<^sup>* (db1, insert (ae_hash E (ig_refresh issued)) used) (db2, used2)"
  shows "case refresh_oauth_grant E db2 token client2 asked2 r3 r4 later of
      Inl e \<Rightarrow> False
    | Inr (db3, out) \<Rightarrow>
        if \<exists>g\<in>set (db_oauth db2). og_refresh g = ae_hash E (ig_refresh issued)
        then out = Replayed (ig_id issued)
          \<and> db3 = db2\<lparr>db_oauth := filter (\<lambda>g. og_id g \<noteq> ig_id issued) (db_oauth db2)\<rparr>
          \<and> (\<forall>g\<in>set (db_oauth db3). og_access g \<noteq> ae_hash E (ig_access issued)
               \<and> og_refresh g \<noteq> ae_hash E (ig_refresh issued))
        else out = Unknown \<and> db3 = db2"
proof -
  let ?h = "ae_hash E token" and ?h' = "ae_hash E (ig_refresh issued)" and ?a = "ae_hash E (ig_access issued)"
  have ok: "history_ok E (db, used)" using history_steps [OF assms(2,1)] history_empty .
  have m: "fresh_step E (db, used) (db1, insert ?h' used)"
    using fresh_step.mint [OF mints.rotate [OF assms(3)] assms(4)] .
  have ok1: "history_ok E (db1, insert ?h' used)" using history_step [OF assms(1) m ok] .
  have "spent (ig_id issued) ?a ?h ?h' (db1, insert ?h' used)" using rotation_spends [OF ok assms(3,4)] .
  then have sp: "spent (ig_id issued) ?a ?h ?h' (db2, used2)" using spent_steps [OF assms(5,1) ok1] by simp
  have "auth_wf E db2" using history_steps [OF assms(5,1) ok1] by (simp add: history_ok_def)
  then have k: "keyed og_access (db_oauth db2)" using auth_wf_parts(9) by (simp add: oauth_ok_def)
  have "og_access g \<noteq> ?a \<and> og_refresh g \<noteq> ?h'"
    if g: "g \<in> set (db_oauth db2)" "og_id g \<noteq> ig_id issued" and s: "s \<in> set (db_oauth db2)" "og_refresh s = ?h'" for g s
    using sp g s keyed_eq [OF k g(1) s(1)] by (auto simp: spent_def)
  then show ?thesis
    by (auto simp: spent_presented [OF sp] list_ex_iff delete_where_def)
qed

text \<open>
  A grant issued and rotated: its first refresh token presented again revokes it, and after a
  second rotation matches nothing.
\<close>

definition client_db :: auth_db where
  "client_db = (case register_oauth_client second_user_db ''app'' None [''http://l/''] ''1'' ''t'' of
                  Inr (db, _) \<Rightarrow> db | Inl _ \<Rightarrow> empty_db)"

definition granted :: "auth_db \<times> issued_oauth_grant" where
  "granted = (case issue_oauth_grant example_env client_db ''ann'' ''coc_1'' ''http://r'' ''a'' ''b'' 10 ''t'' of
                Inr r \<Rightarrow> r | Inl _ \<Rightarrow> (empty_db, \<lparr>ig_id = 0, ig_access = [], ig_refresh = [], ig_expires_in = 0\<rparr>))"

definition rotation :: "auth_db \<Rightarrow> string \<Rightarrow> string \<Rightarrow> string \<Rightarrow> int \<Rightarrow> auth_db \<times> refresh_outcome" where
  "rotation db token r1 r2 now = (case refresh_oauth_grant example_env db token ''coc_1'' None r1 r2 now of
                 Inr r \<Rightarrow> r | Inl _ \<Rightarrow> (empty_db, Unknown))"

definition rotated_once :: "auth_db \<times> refresh_outcome" where
  "rotated_once = rotation (fst granted) ''cor_b'' ''c'' ''d'' 20"

definition rotated_twice :: "auth_db \<times> refresh_outcome" where
  "rotated_twice = rotation (fst rotated_once) ''cor_d'' ''e'' ''f'' 30"

definition handed_out :: "auth_db \<times> refresh_outcome \<Rightarrow> issued_oauth_grant" where
  "handed_out r = (case snd r of Rotated i \<Rightarrow> i | _ \<Rightarrow> \<lparr>ig_id = 0, ig_access = [], ig_refresh = [], ig_expires_in = 0\<rparr>)"

lemma no_mint: "db_oauth db' = [] \<Longrightarrow> \<not> mints E db db' h"
  by (auto elim!: mints.cases simp: issue_oauth_grant_def insert_oauth_row_def refresh_oauth_grant_def update_where_def
      Let_def split: outcome_splits)

lemma granted_history: "(fresh_step example_env)\<^sup>*\<^sup>* (empty_db, {}) (fst granted, {''#cor_b''})"
proof -
  have "auth_step example_env empty_db first_admin_db"
    using first_admin_made by (rule auth_step.first_admin)
  moreover have "add_user_with_reflection example_env first_admin_db ''ann'' ''Ann'' None RoleEditor DefaultLevel ''pw2'' ''t1''
      = Inr second_user_db" by code_simp
  then have "auth_step example_env first_admin_db second_user_db" by (rule auth_step.add_user)
  moreover have "register_oauth_client second_user_db ''app'' None [''http://l/''] ''1'' ''t''
      = Inr (client_db, hd (db_clients client_db))" by code_simp
  then have "auth_step example_env second_user_db client_db" by (rule auth_step.client)
  moreover have "db_oauth first_admin_db = []" "db_oauth second_user_db = []" "db_oauth client_db = []" by code_simp+
  ultimately have s: "fresh_step example_env (empty_db, {}) (first_admin_db, {})"
    "fresh_step example_env (first_admin_db, {}) (second_user_db, {})"
    "fresh_step example_env (second_user_db, {}) (client_db, {})"
    by (auto intro!: fresh_step.other simp: store_step_def no_mint)
  have "issue_oauth_grant example_env client_db ''ann'' ''coc_1'' ''http://r'' ''a'' ''b'' 10 ''t'' = Inr (fst granted, snd granted)"
    by code_simp
  from mints.grant [OF this]
  have "mints example_env client_db (fst granted) (ae_hash example_env (ig_refresh (snd granted)))" .
  moreover have "ae_hash example_env (ig_refresh (snd granted)) = ''#cor_b''" by code_simp
  ultimately have "fresh_step example_env (client_db, {}) (fst granted, {''#cor_b''})"
    using fresh_step.mint [of example_env client_db "fst granted" "''#cor_b''" "{}"] by simp
  with s show ?thesis by (meson converse_rtranclp_into_rtranclp r_into_rtranclp)
qed

theorem refresh_token_works_once_witness:
  "snd rotated_once = Rotated (handed_out rotated_once)
   \<and> snd (rotation (fst rotated_once) ''cor_b'' ''g'' ''h'' 40) = Replayed (ig_id (handed_out rotated_once))
   \<and> rotation (fst rotated_twice) ''cor_b'' ''g'' ''h'' 40 = (fst rotated_twice, Unknown)"
proof (intro conjI)
  let ?i = "handed_out rotated_once"
  show "snd rotated_once = Rotated ?i" by code_simp
  have r: "refresh_oauth_grant example_env (fst granted) ''cor_b'' ''coc_1'' None ''c'' ''d'' 20
      = Inr (fst rotated_once, Rotated ?i)" by code_simp
  have i: "ae_hash example_env (ig_refresh ?i) = ''#cor_d''" by code_simp
  have f: "ae_hash example_env (ig_refresh ?i) \<notin> {''#cor_b''}" by (simp add: i)
  note once = refresh_token_works_once [OF example_fold granted_history r f]
  have l1: "list_ex (\<lambda>g. og_refresh g = ''#cor_d'') (db_oauth (fst rotated_once))"
    and l2: "\<not> list_ex (\<lambda>g. og_refresh g = ''#cor_d'') (db_oauth (fst rotated_twice))" by code_simp+
  show "snd (rotation (fst rotated_once) ''cor_b'' ''g'' ''h'' 40) = Replayed (ig_id ?i)"
    using once [OF rtranclp.rtrancl_refl, of "''coc_1''" None "''g''" "''h''" 40] l1
    by (auto simp: rotation_def i list_ex_iff split: sum.splits)
  have r2: "refresh_oauth_grant example_env (fst rotated_once) ''cor_d'' ''coc_1'' None ''e'' ''f'' 30
      = Inr (fst rotated_twice, Rotated (handed_out rotated_twice))" by code_simp
  have i2: "ae_hash example_env (ig_refresh (handed_out rotated_twice)) = ''#cor_f''" by code_simp
  have "fresh_step example_env (fst rotated_once, {''#cor_d'', ''#cor_b''}) (fst rotated_twice, {''#cor_f'', ''#cor_d'', ''#cor_b''})"
    using fresh_step.mint [OF mints.rotate [OF r2], of "{''#cor_d'', ''#cor_b''}"] by (simp add: i2)
  then have h: "(fresh_step example_env)\<^sup>*\<^sup>* (fst rotated_once, insert (ae_hash example_env (ig_refresh ?i)) {''#cor_b''})
      (fst rotated_twice, {''#cor_f'', ''#cor_d'', ''#cor_b''})" by (simp add: i r_into_rtranclp)
  show "rotation (fst rotated_twice) ''cor_b'' ''g'' ''h'' 40 = (fst rotated_twice, Unknown)"
    using once [OF h, of "''coc_1''" None "''g''" "''h''" 40] l2
    by (auto simp: rotation_def i list_ex_iff split: sum.splits)
qed

end
