(* ===== verification/LineEndings.thy ===== *)
theory LineEndings
  imports Prelude
begin

text \<open>
  \<open>crates/core/src/line_endings.rs\<close>: the one conversion to LF every boundary calls,
  over text (\<open>to_lf\<close>) and over raw bytes (\<open>utf8_to_lf\<close>), with the UTF-8 check of
  \<open>std::str::from_utf8\<close>. \<open>lf_reference\<close> is the specification: cut at the newlines,
  drop the carriage returns at the end of every line but the unfinished last one, join.
\<close>

abbreviation CR :: char where "CR \<equiv> CHR 0x0D"
abbreviation LF :: char where "LF \<equiv> CHR 0x0A"

fun to_lf_loop :: "nat \<Rightarrow> string \<Rightarrow> string" where
  "to_lf_loop pending [] = replicate pending CR"
| "to_lf_loop pending (c # cs) =
     (if c = CR then to_lf_loop (Suc pending) cs
      else if c = LF then LF # to_lf_loop 0 cs
      else replicate pending CR @ c # to_lf_loop 0 cs)"

definition to_lf :: "string \<Rightarrow> string" where
  "to_lf text = (if \<not> contains_str [CR, LF] text then text else to_lf_loop 0 text)"

text \<open>
  \<open>std::str::from_utf8\<close>: the width of the well-formed sequence a byte list starts
  with, and \<open>valid_up_to\<close>, the length of the longest well-formed prefix.
\<close>

definition in_range :: "nat \<Rightarrow> nat \<Rightarrow> char \<Rightarrow> bool" where
  "in_range lo hi c \<longleftrightarrow> lo \<le> (of_char c :: nat) \<and> (of_char c :: nat) \<le> hi"

fun utf8_width :: "string \<Rightarrow> nat option" where
  "utf8_width [] = None"
| "utf8_width (a # cs) =
     (if in_range 0 127 a then Some 1
      else if in_range 194 223 a then
        (case cs of b # _ \<Rightarrow> if is_continuation b then Some 2 else None | _ \<Rightarrow> None)
      else if in_range 224 239 a then
        (case cs of
           b # c # _ \<Rightarrow>
             if (if a = CHR 0xE0 then in_range 160 191 b
                 else if a = CHR 0xED then in_range 128 159 b
                 else is_continuation b) \<and> is_continuation c
             then Some 3 else None
         | _ \<Rightarrow> None)
      else if in_range 240 244 a then
        (case cs of
           b # c # d # _ \<Rightarrow>
             if (if a = CHR 0xF0 then in_range 144 191 b
                 else if a = CHR 0xF4 then in_range 128 143 b
                 else is_continuation b) \<and> is_continuation c \<and> is_continuation d
             then Some 4 else None
         | _ \<Rightarrow> None)
      else None)"

lemma utf8_width_pos: "utf8_width s = Some n \<Longrightarrow> 0 < n \<and> n \<le> length s"
  by (cases s) (auto split: if_splits list.splits)

function valid_up_to :: "string \<Rightarrow> nat" where
  "valid_up_to s = (case utf8_width s of None \<Rightarrow> 0 | Some n \<Rightarrow> n + valid_up_to (drop n s))"
  by pat_completeness auto
termination
  by (relation "measure length") (auto dest: utf8_width_pos)

declare valid_up_to.simps [simp del]

lemma valid_up_to_le: "valid_up_to s \<le> length s"
proof (induction s rule: valid_up_to.induct)
  case (1 s)
  show ?case
  proof (cases "utf8_width s")
    case (Some n)
    with 1 [OF Some] utf8_width_pos [OF Some] show ?thesis
      by (subst valid_up_to.simps) auto
  qed (simp add: valid_up_to.simps)
qed

record not_utf8 =
  nu_offset :: nat

definition utf8_to_lf :: "string \<Rightarrow> not_utf8 + string" where
  "utf8_to_lf bytes =
     (if valid_up_to bytes = length bytes then Inr (to_lf bytes)
      else Inl \<lparr>nu_offset = valid_up_to bytes\<rparr>)"

section \<open>The reference\<close>

definition lf_reference :: "string \<Rightarrow> string" where
  "lf_reference text =
     (let ls = split_on LF text
      in join_with [LF] (map (trim_end_char CR) (butlast ls) @ [last ls]))"

lemma trim_end_char_replicate:
  "trim_end_char d (replicate n d) = []"
proof -
  have "dropWhile (\<lambda>c. c = d) (replicate n d) = []" by (induction n) auto
  then show ?thesis by (simp add: trim_end_char_def)
qed

lemma trim_end_char_append:
  "x \<noteq> d \<Longrightarrow> trim_end_char d (p @ x # s) = p @ x # trim_end_char d s"
  by (simp add: trim_end_char_def dropWhile_append3)

lemma last_trim_end_char: "trim_end_char d s \<noteq> [] \<Longrightarrow> last (trim_end_char d s) \<noteq> d"
  using hd_dropWhile [of "\<lambda>c. c = d" "rev s"] by (simp add: trim_end_char_def last_rev)

lemma trim_end_char_id: "s = [] \<or> last s \<noteq> d \<Longrightarrow> trim_end_char d s = s"
  by (cases s rule: rev_cases) (auto simp: trim_end_char_def)

lemma lf_reference_Cons_LF: "LF \<notin> set p \<Longrightarrow>
    lf_reference (p @ LF # s) = trim_end_char CR p @ LF # lf_reference s"
  by (simp add: lf_reference_def Let_def split_on_append join_with_Cons)

lemma lf_reference_no_LF: "LF \<notin> set p \<Longrightarrow> lf_reference p = p"
  by (simp add: lf_reference_def Let_def)

text \<open>The loop, started with \<open>n\<close> pending carriage returns behind it.\<close>

lemma to_lf_loop_reference: "to_lf_loop n s = lf_reference (replicate n CR @ s)"
proof -
  have "LF \<notin> set p \<Longrightarrow> p = [] \<or> last p \<noteq> CR \<Longrightarrow>
      p @ to_lf_loop n s = lf_reference (p @ replicate n CR @ s)" for p
  proof (induction n s arbitrary: p rule: to_lf_loop.induct)
    case (1 n)
    then show ?case by (simp add: lf_reference_no_LF)
  next
    case (2 n c cs)
    show ?case
    proof (cases "c = CR \<or> c = LF")
      case False
      with 2(3)[of "p @ replicate n CR @ [c]"] 2(4) show ?thesis by simp
    next
      case True
      have trim: "trim_end_char CR (p @ replicate n CR) = p"
        using 2(5) trim_end_char_append [of "last p" CR "butlast p" "replicate n CR"]
        by (cases p rule: rev_cases) (simp_all add: trim_end_char_replicate)
      from True show ?thesis
        using 2(1)[OF _ 2(4,5)] 2(2)[of "[]"] 2(4) trim lf_reference_Cons_LF [of "p @ replicate n CR" cs]
        by (auto simp: replicate_app_Cons_same)
    qed
  qed
  from this [of "[]"] show ?thesis by simp
qed

lemma contains_CRLF_iff: "contains_str [CR, LF] s \<longleftrightarrow> (\<exists>a b. s = a @ CR # LF # b)"
proof (induction s)
  case (Cons c cs)
  show ?case
  proof
    assume "contains_str [CR, LF] (c # cs)"
    then show "\<exists>a b. c # cs = a @ CR # LF # b"
      using Cons.IH by (auto simp: starts_with_iff) (metis append_Cons append_Nil)+
  next
    assume "\<exists>a b. c # cs = a @ CR # LF # b"
    then obtain a b where "c # cs = a @ CR # LF # b" by blast
    with Cons.IH show "contains_str [CR, LF] (c # cs)" by (cases a) auto
  qed
qed simp

lemma lf_reference_no_CRLF: "\<not> contains_str [CR, LF] (lf_reference s)"
proof (induction "length s" arbitrary: s rule: less_induct)
  case less
  show ?case
  proof (cases "split_once LF s")
    case None
    then show ?thesis by (auto simp: lf_reference_no_LF contains_CRLF_iff)
  next
    case (Some ab)
    then obtain p r where s: "s = p @ LF # r" and p: "LF \<notin> set p"
      by (cases ab) (auto simp: split_once_Some)
    let ?t = "trim_end_char CR p"
    have tp: "LF \<notin> set ?t" using p by (auto simp: trim_end_char_def dest: set_dropWhileD)
    have IH: "\<not> contains_str [CR, LF] (lf_reference r)" using less [of r] s by simp
    show ?thesis
    proof
      assume "contains_str [CR, LF] (lf_reference s)"
      then obtain a b where eq: "?t @ LF # lf_reference r = a @ CR # LF # b"
        by (auto simp: s lf_reference_Cons_LF [OF p] contains_CRLF_iff)
      then have "\<exists>c. a = ?t @ c \<or> a @ c = ?t" by (auto simp: append_eq_append_conv2)
      then show False
      proof (elim exE disjE)
        fix c assume "a = ?t @ c"
        with eq IH show False by (cases c) (auto simp: contains_CRLF_iff)
      next
        fix c assume c: "a @ c = ?t"
        with eq have "c @ LF # lf_reference r = CR # LF # b" by (metis append.assoc same_append_eq)
        then have "c = [CR] \<or> LF \<in> set c" by (cases c; cases "tl c") auto
        moreover have "LF \<notin> set c" using c tp by (metis UnCI set_append)
        ultimately have "?t = a @ [CR]" using c by simp
        then show False using last_trim_end_char [of CR p] by simp
      qed
    qed
  qed
qed

lemma lf_reference_fixed: "\<not> contains_str [CR, LF] s \<Longrightarrow> lf_reference s = s"
proof (induction "length s" arbitrary: s rule: less_induct)
  case less
  show ?case
  proof (cases "split_once LF s")
    case None
    then show ?thesis by (simp add: lf_reference_no_LF)
  next
    case (Some ab)
    then obtain p r where s: "s = p @ LF # r" and p: "LF \<notin> set p"
      by (cases ab) (auto simp: split_once_Some)
    have "\<not> contains_str [CR, LF] r"
    proof
      assume "contains_str [CR, LF] r"
      then obtain a b where "r = a @ CR # LF # b" by (auto simp: contains_CRLF_iff)
      then have "s = (p @ LF # a) @ CR # LF # b" by (simp add: s)
      with less.prems show False unfolding contains_CRLF_iff by blast
    qed
    moreover have "trim_end_char CR p = p"
    proof (rule trim_end_char_id, rule ccontr)
      assume "\<not> (p = [] \<or> last p \<noteq> CR)"
      then have "s = butlast p @ CR # LF # r" using append_butlast_last_id [of p] s by simp
      with less.prems show False unfolding contains_CRLF_iff by blast
    qed
    ultimately show ?thesis using less.hyps [of r] s by (simp add: lf_reference_Cons_LF [OF p])
  qed
qed

text \<open>
  C33: the one-pass conversion, early exit included, is the specification: cut at the
  newlines, drop every trailing carriage return of each terminated line, join again.
\<close>

theorem to_lf_is_reference: "to_lf text = lf_reference text"
  by (simp add: to_lf_def to_lf_loop_reference lf_reference_fixed)

lemma to_lf_eq: "to_lf text = lf_reference text"
  by (simp add: to_lf_def to_lf_loop_reference lf_reference_fixed)

lemma to_lf_no_CRLF: "\<not> contains_str [CR, LF] (to_lf text)"
  by (simp add: to_lf_eq lf_reference_no_CRLF)

lemma to_lf_idem: "to_lf (to_lf text) = to_lf text"
  by (simp add: to_lf_def [of "to_lf text"] to_lf_no_CRLF)

lemma count_LF_trim: "LF \<notin> set p \<Longrightarrow> LF \<notin> set (trim_end_char CR p)"
  by (auto simp: trim_end_char_def dest: set_dropWhileD)

lemma to_lf_line_count: "count_list (to_lf text) LF = count_list text LF"
proof -
  have "count_list (lf_reference s) LF = count_list s LF" for s
  proof (induction "length s" arbitrary: s rule: less_induct)
    case less
    show ?case
    proof (cases "split_once LF s")
      case None
      then show ?thesis by (simp add: lf_reference_no_LF)
    next
      case (Some ab)
      then obtain p r where "s = p @ LF # r" "LF \<notin> set p"
        by (cases ab) (auto simp: split_once_Some)
      with less [of r] show ?thesis
        by (simp add: lf_reference_Cons_LF count_list_0_iff [THEN iffD2] count_LF_trim)
    qed
  qed
  then show ?thesis by (simp add: to_lf_eq)
qed

text \<open>
  The byte version accepts exactly the inputs that are well-formed UTF-8 throughout;
  what it answers is a fixed point of the conversion with no CR-LF pair and the same
  number of lines, and the offset of a refusal lies inside the input.
\<close>

theorem utf8_to_lf_contract:
  "(valid_up_to bytes = length bytes \<longleftrightarrow> (\<exists>t. utf8_to_lf bytes = Inr t))
   \<and> (\<forall>e. utf8_to_lf bytes = Inl e \<longrightarrow> nu_offset e < length bytes)
   \<and> (\<forall>t. utf8_to_lf bytes = Inr t \<longrightarrow>
        to_lf t = t \<and> \<not> contains_str [CR, LF] t \<and> count_list t LF = count_list bytes LF)"
  using valid_up_to_le [of bytes]
  by (auto simp: utf8_to_lf_def to_lf_idem to_lf_no_CRLF to_lf_line_count)

theorem utf8_to_lf_contract_witness:
  "utf8_to_lf (''a'' @ [CR, LF, CHR 0xFF]) = Inl \<lparr>nu_offset = 3\<rparr>
   \<and> (\<exists>t. utf8_to_lf (''a'' @ [CR, LF]) = Inr t \<and> to_lf t = t)"
proof -
  have e: "utf8_to_lf (''a'' @ [CR, LF, CHR 0xFF]) = Inl \<lparr>nu_offset = 3\<rparr>" by code_simp
  have v: "valid_up_to (''a'' @ [CR, LF]) = length (''a'' @ [CR, LF])" by code_simp
  from v utf8_to_lf_contract [of "''a'' @ [CR, LF]"] e show ?thesis by blast
qed

end
