(* ===== verification/Searching.thy ===== *)
theory Searching
  imports Prelude
begin

text \<open>
  Searching in strings: \<open>find\<close>, \<open>rfind\<close>, \<open>contains\<close>, \<open>split_once\<close> and \<open>split_whitespace\<close> with a
  pattern string, and the cutting into lines, with what the components use of them.
\<close>

section \<open>Patterns\<close>

text \<open>\<open>str::find\<close> and \<open>str::rfind\<close> for a pattern string.\<close>

fun find_str :: "string \<Rightarrow> string \<Rightarrow> nat option" where
  "find_str p [] = (if p = [] then Some 0 else None)"
| "find_str p (c # cs) = (if starts_with p (c # cs) then Some 0 else map_option Suc (find_str p cs))"

fun rfind_str :: "string \<Rightarrow> string \<Rightarrow> nat option" where
  "rfind_str p [] = (if p = [] then Some 0 else None)"
| "rfind_str p (c # cs) =
     (case rfind_str p cs of
        Some i \<Rightarrow> Some (Suc i)
      | None \<Rightarrow> if starts_with p (c # cs) then Some 0 else None)"

lemma starts_with_len: "starts_with p s \<Longrightarrow> length p \<le> length s"
  by (auto simp: starts_with_iff)

lemma find_str_le: "find_str p s = Some i \<Longrightarrow> i + length p \<le> length s"
proof (induction s arbitrary: i)
  case (Cons c cs)
  then show ?case by (auto dest: starts_with_len split: if_splits)
qed (auto split: if_splits)

lemma find_str_at: "find_str p s = Some i \<Longrightarrow> starts_with p (drop i s)"
  by (induction s arbitrary: i) (auto split: if_splits)

lemma find_str_char: "c \<notin> set t \<Longrightarrow> find_str [c] (t @ c # r) = Some (length t)"
  by (induction t) auto

lemma contains_str_iff: "contains_str p s \<longleftrightarrow> (\<exists>a b. s = a @ p @ b)"
proof (induction s)
  case (Cons c cs)
  show ?case
  proof
    assume "contains_str p (c # cs)"
    then consider "starts_with p (c # cs)" | "contains_str p cs" by auto
    then show "\<exists>a b. c # cs = a @ p @ b"
    proof cases
      case 1
      then show ?thesis by (auto simp: starts_with_iff intro: exI [of _ "[]"])
    next
      case 2
      then obtain a b where "cs = a @ p @ b" using Cons.IH by blast
      then have "c # cs = (c # a) @ p @ b" by simp
      then show ?thesis by blast
    qed
  next
    assume "\<exists>a b. c # cs = a @ p @ b"
    then obtain a b where "c # cs = a @ p @ b" by blast
    then show "contains_str p (c # cs)"
    proof (cases a)
      case Nil
      then have "starts_with p (c # cs)" using \<open>c # cs = a @ p @ b\<close> by (simp only: append_Nil starts_with_append)
      then show ?thesis by (simp only: contains_str.simps) blast
    next
      case (Cons x a')
      then show ?thesis using \<open>c # cs = a @ p @ b\<close> Cons.IH by auto
    qed
  qed
qed auto

text \<open>\<open>split_once\<close> with a pattern string.\<close>

definition split_str :: "string \<Rightarrow> string \<Rightarrow> (string \<times> string) option" where
  "split_str p s = (case find_str p s of None \<Rightarrow> None | Some i \<Rightarrow> Some (take i s, drop (i + length p) s))"

text \<open>The pieces between white space, as \<open>split_whitespace\<close> yields them.\<close>

fun white_pieces :: "string list \<Rightarrow> string \<Rightarrow> string list" where
  "white_pieces [] word = (if word = [] then [] else [word])"
| "white_pieces (c # cs) word =
     (if c \<in> set ws_chars then (if word = [] then [] else [word]) @ white_pieces cs []
      else white_pieces cs (word @ c))"

definition split_whitespace :: "string \<Rightarrow> string list" where
  "split_whitespace s = white_pieces (chars s) []"

lemma find_str_None: "find_str p s = None \<longleftrightarrow> \<not> contains_str p s"
  by (induction s) auto

lemma find_str_first:
  assumes "\<And>a b. s = a @ b \<Longrightarrow> b \<noteq> [] \<Longrightarrow> \<not> starts_with p (b @ p @ t)"
  shows "find_str p (s @ p @ t) = Some (length s)"
  using assms
proof (induction s)
  case Nil
  then show ?case by (cases "p @ t") (auto, metis starts_with_append)
next
  case (Cons c s)
  have "\<not> starts_with p (c # s @ p @ t)" using Cons.prems [of "[]" "c # s"] by simp
  moreover have "find_str p (s @ p @ t) = Some (length s)"
    using Cons.IH Cons.prems [of "c # _"] by (metis append_Cons)
  ultimately show ?case by simp
qed

lemma split_str_first:
  assumes "\<And>a b. s = a @ b \<Longrightarrow> b \<noteq> [] \<Longrightarrow> \<not> starts_with p (b @ p @ t)"
  shows "split_str p (s @ p @ t) = Some (s, t)"
  using find_str_first [OF assms] by (simp add: split_str_def)

lemma white_pieces_plain:
  "w \<in> set (white_pieces cs word) \<Longrightarrow> set w \<subseteq> set word \<union> set (concat cs)"
  by (induction cs word rule: white_pieces.induct) (fastforce split: if_splits)+

section \<open>Lines\<close>

text \<open>Lines with their terminators: only the last one may lack it, and none is empty.\<close>

definition line_ok :: "'a \<Rightarrow> 'a list \<Rightarrow> bool" where
  "line_ok d l \<longleftrightarrow> (\<exists>w. l = w @ [d] \<and> d \<notin> set w)"

fun lines_ok :: "'a \<Rightarrow> 'a list list \<Rightarrow> bool" where
  "lines_ok d [] \<longleftrightarrow> True"
| "lines_ok d [l] \<longleftrightarrow> line_ok d l \<or> l \<noteq> [] \<and> d \<notin> set l"
| "lines_ok d (l # ls) \<longleftrightarrow> line_ok d l \<and> lines_ok d ls"

lemma split_inclusive_plain: "d \<notin> set w \<Longrightarrow> split_inclusive d w = (if w = [] then [] else [w])"
  by (induction w) auto

lemma split_inclusive_line: "d \<notin> set w \<Longrightarrow> split_inclusive d (w @ d # s) = (w @ [d]) # split_inclusive d s"
  by (induction w) auto

lemma split_inclusive_line_ok: "line_ok d l \<Longrightarrow> split_inclusive d (l @ s) = l # split_inclusive d s"
  by (auto simp: line_ok_def split_inclusive_line)

lemma split_concat_lines: "lines_ok d ls \<Longrightarrow> split_inclusive d (concat ls) = ls"
  by (induction d ls rule: lines_ok.induct)
     (auto simp: split_inclusive_line_ok split_inclusive_plain line_ok_def split_inclusive_line)

lemma lines_ok_Cons: "line_ok d l \<Longrightarrow> lines_ok d ls \<Longrightarrow> lines_ok d (l # ls)"
  by (cases ls) auto

lemma lines_ok_tl: "lines_ok d (l # ls) \<Longrightarrow> lines_ok d ls"
  by (cases ls) auto

lemma lines_ok_split: "lines_ok d (split_inclusive d s)"
proof (induction "length s" arbitrary: s rule: less_induct)
  case less
  show ?case
  proof (cases "d \<in> set s")
    case True
    then obtain w r where s: "s = w @ d # r" "d \<notin> set w" by (metis split_list_first)
    then have "lines_ok d (split_inclusive d r)" using less [of r] by simp
    then show ?thesis
      using s by (auto simp: split_inclusive_line line_ok_def intro: lines_ok_Cons)
  qed (simp add: split_inclusive_plain)
qed

lemma lines_ok_append_iff:
  "lines_ok d (as @ bs) \<longleftrightarrow> (if bs = [] then lines_ok d as else list_all (line_ok d) as \<and> lines_ok d bs)"
proof (induction as)
  case (Cons a as)
  then show ?case by (cases "as @ bs") (auto split: if_splits)
qed auto

lemma lines_ok_mem: "lines_ok d ls \<Longrightarrow> l \<in> set ls \<Longrightarrow> line_ok d l \<or> d \<notin> set l"
  by (induction d ls rule: lines_ok.induct) auto

lemma lines_ok_all: "list_all (line_ok d) ls \<Longrightarrow> lines_ok d ls"
  by (induction ls) (auto intro: lines_ok_Cons)

text \<open>Text that ends a line cuts a text in two.\<close>

definition ends_line :: "'a \<Rightarrow> 'a list \<Rightarrow> bool" where
  "ends_line d s \<longleftrightarrow> s = [] \<or> (\<exists>r. s = r @ [d])"

lemma ends_line_code [code]: "ends_line d s \<longleftrightarrow> s = [] \<or> last s = d"
  by (cases s rule: rev_cases) (auto simp: ends_line_def)

lemma ends_line_lines: "ends_line d s \<Longrightarrow> list_all (line_ok d) (split_inclusive d s)"
proof (induction "length s" arbitrary: s rule: less_induct)
  case less
  show ?case
  proof (cases "s = []")
    case False
    then obtain r where "s = r @ [d]" using less(2) by (auto simp: ends_line_def)
    then have "d \<in> set s" by simp
    then obtain w u where s: "s = w @ d # u" "d \<notin> set w" by (metis split_list_first)
    have "ends_line d u"
      using s(1) \<open>s = r @ [d]\<close> by (cases u rule: rev_cases) (auto simp: ends_line_def)
    from less(1) [OF _ this] s show ?thesis by (auto simp: split_inclusive_line line_ok_def)
  qed simp
qed

lemma split_inclusive_append:
  assumes "ends_line d s"
  shows "split_inclusive d (s @ t) = split_inclusive d s @ split_inclusive d t"
proof -
  have "split_inclusive d (concat ls @ t) = ls @ split_inclusive d t" if "list_all (line_ok d) ls" for ls
    using that by (induction ls) (auto simp: split_inclusive_line_ok)
  from this [OF ends_line_lines [OF assms]] show ?thesis by simp
qed

end
