(* ===== verification/FrontmatterMerge.thy ===== *)
theory FrontmatterMerge
  imports LineEndings Searching
begin

text \<open>
  \<open>crates/core/src/frontmatter.rs\<close>: cutting a source at its frontmatter delimiters and
  the frontmatter into top-level key blocks, repeated keys and their repair, and the
  three-way merge of an engram text, key by key in the frontmatter. \<open>locate\<close> is that of
  \<open>crates/core/src/parse.rs\<close>. The YAML library is the parameter \<open>yaml_lib\<close>, whether a
  text parses as an engram is the parameter \<open>parses\<close>, and a caller's line merge is an
  argument, as it is in the code. \<open>three_way_merge\<close> is the contract a three-way merge
  keeps; \<open>settle\<close> provides it, and the whole merge does too.
\<close>

record 'v yaml_lib =
  y_from_str :: "string \<Rightarrow> 'v option"
  y_mapping :: "'v \<Rightarrow> ('v \<times> 'v) list option"
  y_as_string :: "'v \<Rightarrow> string option"
  y_to_string :: "'v \<Rightarrow> string"

type_synonym line_merge = "string \<Rightarrow> string \<Rightarrow> string \<Rightarrow> string option"

section \<open>Cutting a source at its delimiters\<close>

definition delimiter_line :: "string \<Rightarrow> bool" where
  "delimiter_line line \<longleftrightarrow> trim_end_char CR line = ''---''"

text \<open>The closing delimiter: where its line starts and where the next one does.\<close>

function find_close :: "nat \<Rightarrow> string \<Rightarrow> (nat \<times> nat) option" where
  "find_close idx rest =
     (case split_once LF rest of
        Some (line, next) \<Rightarrow>
          if delimiter_line line then Some (idx, idx + length line + 1)
          else find_close (idx + length line + 1) next
      | None \<Rightarrow>
          if delimiter_line rest then Some (idx, idx + length rest) else None)"
  by pat_completeness auto
termination
  by (relation "measure (\<lambda>(idx, rest). length rest)") (auto simp: split_once_Some)

declare find_close.simps [simp del]

definition locate :: "string \<Rightarrow> (nat \<times> nat \<times> nat) option" where
  "locate source =
     (case split_once LF source of
        None \<Rightarrow> None
      | Some (first_line, rest) \<Rightarrow>
          if \<not> delimiter_line first_line then None
          else (let fm_start = length first_line + 1
                in case find_close fm_start rest of
                     None \<Rightarrow> None
                   | Some (idx, next) \<Rightarrow> Some (fm_start, idx, next)))"

record frontmatter_parts =
  fp_open :: string
  fp_yaml :: string
  fp_close :: string
  fp_body :: string

definition slice :: "string \<Rightarrow> nat \<Rightarrow> nat \<Rightarrow> string" where
  "slice s a b = take (b - a) (drop a s)"

definition split_frontmatter :: "string \<Rightarrow> frontmatter_parts option" where
  "split_frontmatter source =
     (case locate source of
        None \<Rightarrow> None
      | Some (start, end, body_start) \<Rightarrow>
          Some \<lparr>fp_open = slice source 0 start, fp_yaml = slice source start end,
                fp_close = slice source end body_start, fp_body = drop body_start source\<rparr>)"

definition same_content :: "'v yaml_lib \<Rightarrow> string \<Rightarrow> string \<Rightarrow> bool" where
  "same_content Y a b =
     (case (split_frontmatter a, split_frontmatter b) of
        (None, None) \<Rightarrow> a = b
      | (Some x, Some y) \<Rightarrow>
          if fp_body x \<noteq> fp_body y then False
          else (case (y_from_str Y (fp_yaml x), y_from_str Y (fp_yaml y)) of
                  (Some left, Some right) \<Rightarrow> left = right
                | _ \<Rightarrow> False)
      | _ \<Rightarrow> False)"

section \<open>Key blocks\<close>

record 'v key_block =
  kb_key :: string
  kb_parsed_key :: 'v
  kb_text :: string
  kb_value :: 'v
  kb_line :: nat

record 'v key_blocks_cut =
  kc_preamble :: string
  kc_blocks :: "'v key_block list"

definition starts_key :: "string \<Rightarrow> bool" where
  "starts_key content \<longleftrightarrow>
     content \<noteq> [] \<and> hd content \<notin> {CHR '' '', CHR 0x09, CHR ''#''} \<and> content \<noteq> ''-''
     \<and> \<not> starts_with ''- '' content \<and> \<not> starts_with [CHR ''-'', CHR 0x09] content"

definition is_blank_or_comment :: "string \<Rightarrow> bool" where
  "is_blank_or_comment content \<longleftrightarrow>
     (let trimmed = trim content in trimmed = [] \<or> starts_with ''#'' trimmed)"

fun cut_lines ::
  "nat \<Rightarrow> string list \<Rightarrow> string \<Rightarrow> (nat \<times> string) list \<Rightarrow> (string \<times> (nat \<times> string) list) option" where
  "cut_lines index [] preamble raw = Some (preamble, raw)"
| "cut_lines index (line # lines) preamble raw =
     (let content = trim_end_matches {LF, CR} line
      in if starts_with ''{'' content \<or> starts_with ''['' content then None
         else if starts_key content
         then cut_lines (Suc index) lines preamble (raw @ [(index + 2, line)])
         else if raw \<noteq> []
         then cut_lines (Suc index) lines preamble
                (butlast raw @ [(fst (last raw), snd (last raw) @ line)])
         else if is_blank_or_comment content
         then cut_lines (Suc index) lines (preamble @ line) raw
         else None)"

definition key_text :: "'v yaml_lib \<Rightarrow> 'v \<Rightarrow> string" where
  "key_text Y key =
     (case y_as_string Y key of Some s \<Rightarrow> s | None \<Rightarrow> trim_end (y_to_string Y key))"

fun parse_blocks :: "'v yaml_lib \<Rightarrow> (nat \<times> string) list \<Rightarrow> 'v key_block list option" where
  "parse_blocks Y [] = Some []"
| "parse_blocks Y ((line, text) # raw) =
     (case y_from_str Y text of
        None \<Rightarrow> None
      | Some v \<Rightarrow>
          (case y_mapping Y v of
             Some [(key, value)] \<Rightarrow>
               map_option (\<lambda>bs. \<lparr>kb_key = key_text Y key, kb_parsed_key = key, kb_text = text,
                                 kb_value = value, kb_line = line\<rparr> # bs)
                 (parse_blocks Y raw)
           | _ \<Rightarrow> None))"

definition key_blocks :: "'v yaml_lib \<Rightarrow> string \<Rightarrow> 'v key_blocks_cut option" where
  "key_blocks Y yaml =
     (case cut_lines 0 (split_inclusive LF yaml) [] [] of
        None \<Rightarrow> None
      | Some (preamble, raw) \<Rightarrow>
          map_option (\<lambda>blocks. \<lparr>kc_preamble = preamble, kc_blocks = blocks\<rparr>) (parse_blocks Y raw))"

section \<open>Repeated keys\<close>

record duplicate_key =
  dk_key :: string
  dk_lines :: "nat list"
  dk_same_value :: bool

definition same_key :: "'v key_block \<Rightarrow> 'v key_block \<Rightarrow> bool" where
  "same_key a b \<longleftrightarrow> kb_parsed_key a = kb_parsed_key b"

definition repeats :: "'v key_block list \<Rightarrow> duplicate_key list" where
  "repeats blocks =
     List.map_filter
       (\<lambda>i. let block = blocks ! i;
                copies = filter (same_key block) (drop i blocks)
            in if \<exists>b \<in> set (take i blocks). same_key block b then None
               else if 1 < length copies
               then Some \<lparr>dk_key = kb_key block, dk_lines = map kb_line copies,
                          dk_same_value = (\<forall>c \<in> set copies. kb_value c = kb_value block)\<rparr>
               else None)
       [0..<length blocks]"

definition duplicate_keys :: "'v yaml_lib \<Rightarrow> string \<Rightarrow> duplicate_key list" where
  "duplicate_keys Y source =
     (case split_frontmatter source of
        None \<Rightarrow> []
      | Some parts \<Rightarrow>
          (case key_blocks Y (fp_yaml parts) of None \<Rightarrow> [] | Some kbs \<Rightarrow> repeats (kc_blocks kbs)))"

datatype keep = First | Last

definition without_repeats :: "'v key_block list \<Rightarrow> keep \<Rightarrow> 'v key_block list" where
  "without_repeats blocks keep =
     map (\<lambda>i. blocks ! i)
       (filter (\<lambda>i. case keep of
            First \<Rightarrow> \<not> (\<exists>b \<in> set (take i blocks). same_key (blocks ! i) b)
          | Last \<Rightarrow> \<not> (\<exists>b \<in> set (drop (i + 1) blocks). same_key (blocks ! i) b))
         [0..<length blocks])"

definition rebuild :: "frontmatter_parts \<Rightarrow> string \<Rightarrow> 'v key_block list \<Rightarrow> string" where
  "rebuild parts preamble blocks =
     fp_open parts @ preamble @ concat (map kb_text blocks) @ fp_close parts @ fp_body parts"

definition keep_first_copies :: "'v yaml_lib \<Rightarrow> string \<Rightarrow> string option" where
  "keep_first_copies Y source =
     (case split_frontmatter source of
        None \<Rightarrow> None
      | Some parts \<Rightarrow>
          (case key_blocks Y (fp_yaml parts) of
             None \<Rightarrow> None
           | Some kbs \<Rightarrow>
               if repeats (kc_blocks kbs) = [] then None
               else Some (rebuild parts (kc_preamble kbs) (without_repeats (kc_blocks kbs) First))))"

datatype collapse_outcome =
    Unchanged
  | Collapsed string
  | ValuesDiffer "duplicate_key list"
  | NotRepairable

definition collapse_duplicate_keys ::
  "'v yaml_lib \<Rightarrow> (string \<Rightarrow> bool) \<Rightarrow> string \<Rightarrow> string option \<Rightarrow> collapse_outcome" where
  "collapse_duplicate_keys Y parses source reference =
     (case split_frontmatter source of
        None \<Rightarrow> Unchanged
      | Some parts \<Rightarrow>
          (case key_blocks Y (fp_yaml parts) of
             None \<Rightarrow> Unchanged
           | Some kbs \<Rightarrow>
               (let found = repeats (kc_blocks kbs)
                in if found = [] then Unchanged
                   else if \<exists>d \<in> set found. \<not> dk_same_value d
                   then ValuesDiffer (filter (\<lambda>d. \<not> dk_same_value d) found)
                   else (let first = rebuild parts (kc_preamble kbs) (without_repeats (kc_blocks kbs) First);
                             last = rebuild parts (kc_preamble kbs) (without_repeats (kc_blocks kbs) Last);
                             yaml_of = (\<lambda>text. map_option fp_yaml (split_frontmatter text));
                             reference_yaml = (case reference of None \<Rightarrow> None | Some r \<Rightarrow> yaml_of r);
                             chosen = (if reference_yaml \<noteq> None \<and> yaml_of last = reference_yaml
                                          \<and> yaml_of first \<noteq> reference_yaml
                                       then last else first)
                         in if parses chosen then Collapsed chosen else NotRepairable))))"

section \<open>The three-way merge\<close>

datatype refusal = StepAside | RefusalConflict

record 'v prepared =
  pr_preamble :: string
  pr_blocks :: "'v key_block list"

definition prepared_default :: "'v prepared" where
  "prepared_default = \<lparr>pr_preamble = [], pr_blocks = []\<rparr>"

definition consistent :: "'v yaml_lib \<Rightarrow> string \<Rightarrow> 'v key_block list \<Rightarrow> bool" where
  "consistent Y preamble blocks =
     (if blocks = [] then True
      else (case y_from_str Y (preamble @ concat (map kb_text blocks)) of
              None \<Rightarrow> False
            | Some v \<Rightarrow> y_mapping Y v = Some (map (\<lambda>b. (kb_parsed_key b, kb_value b)) blocks)))"

definition prepare :: "'v yaml_lib \<Rightarrow> string \<Rightarrow> refusal + 'v prepared" where
  "prepare Y yaml =
     (case key_blocks Y yaml of
        None \<Rightarrow> Inl StepAside
      | Some kbs \<Rightarrow>
          if \<exists>d \<in> set (repeats (kc_blocks kbs)). \<not> dk_same_value d then Inl RefusalConflict
          else (let kept = without_repeats (kc_blocks kbs) First
                in if \<not> consistent Y (kc_preamble kbs) kept then Inl StepAside
                   else Inr \<lparr>pr_preamble = kc_preamble kbs, pr_blocks = kept\<rparr>))"

definition settle :: "string \<Rightarrow> string \<Rightarrow> string \<Rightarrow> string option" where
  "settle base local upstream =
     (if local = upstream \<or> local = base then Some upstream
      else if upstream = base then Some local
      else None)"

definition find_block :: "'v key_block list \<Rightarrow> 'v \<Rightarrow> 'v key_block option" where
  "find_block blocks key = find (\<lambda>b. kb_parsed_key b = key) blocks"

definition value_of :: "'v key_block option \<Rightarrow> 'v option" where
  "value_of block = map_option kb_value block"

definition text_of :: "'v key_block option \<Rightarrow> string option" where
  "text_of block = map_option kb_text block"

fun position :: "('a \<Rightarrow> bool) \<Rightarrow> 'a list \<Rightarrow> nat option" where
  "position P [] = None"
| "position P (x # xs) = (if P x then Some 0 else map_option Suc (position P xs))"

definition reordered :: "'v key_block list \<Rightarrow> 'v key_block list \<Rightarrow> bool" where
  "reordered base side =
     (let at = List.map_filter (\<lambda>block. position (\<lambda>b. same_key b block) base) side
      in \<exists>i < length at - 1. at ! i > at ! (i + 1))"

definition insert_at :: "nat \<Rightarrow> 'a \<Rightarrow> 'a list \<Rightarrow> 'a list" where
  "insert_at at x xs = take at xs @ x # drop at xs"

fun interleave_loop ::
  "'v key_block list \<Rightarrow> nat option \<Rightarrow> 'v key_block list \<Rightarrow> 'v key_block list" where
  "interleave_loop order after [] = order"
| "interleave_loop order after (block # other) =
     (case position (\<lambda>b. same_key b block) order of
        Some at \<Rightarrow> interleave_loop order (Some at) other
      | None \<Rightarrow>
          (let at = (case after of None \<Rightarrow> 0 | Some a \<Rightarrow> a + 1)
           in interleave_loop (insert_at at block order) (Some at) other))"

definition interleave :: "'v key_block list \<Rightarrow> 'v key_block list \<Rightarrow> 'v key_block list" where
  "interleave leading other = interleave_loop leading None other"

definition key_order ::
  "'v key_block list \<Rightarrow> 'v key_block list \<Rightarrow> 'v key_block list \<Rightarrow> 'v key_block list" where
  "key_order base local upstream =
     (if reordered base local \<and> \<not> reordered base upstream
      then interleave local upstream else interleave upstream local)"

definition merge_block ::
  "'v yaml_lib \<Rightarrow> line_merge \<Rightarrow> 'v key_block \<Rightarrow> 'v key_block \<Rightarrow> 'v key_block
     \<Rightarrow> (string \<times> 'v) option" where
  "merge_block Y line_merge base local upstream =
     (case line_merge (kb_text base) (kb_text local) (kb_text upstream) of
        None \<Rightarrow> None
      | Some merged \<Rightarrow>
          (case key_blocks Y merged of
             None \<Rightarrow> None
           | Some kbs \<Rightarrow>
               if kc_preamble kbs \<noteq> [] \<or> length (kc_blocks kbs) \<noteq> 1
                  \<or> kb_parsed_key (hd (kc_blocks kbs)) \<noteq> kb_parsed_key local
                  \<or> \<not> ends_with [LF] merged
               then None
               else Some (merged, kb_value (hd (kc_blocks kbs)))))"

text \<open>The block merge of three present blocks, taken when its value passes the check.\<close>

definition merge_if ::
  "'v yaml_lib \<Rightarrow> line_merge \<Rightarrow> 'v key_block option \<Rightarrow> 'v key_block option \<Rightarrow> 'v key_block option
     \<Rightarrow> ('v key_block \<Rightarrow> 'v key_block \<Rightarrow> 'v \<Rightarrow> bool) \<Rightarrow> string option" where
  "merge_if Y line_merge base local upstream carries =
     (case (base, local, upstream) of
        (Some b, Some l, Some u) \<Rightarrow>
          (case merge_block Y line_merge b l u of
             Some (merged, value) \<Rightarrow> if carries l u value then Some merged else None
           | None \<Rightarrow> None)
      | _ \<Rightarrow> None)"

definition pick ::
  "'v yaml_lib \<Rightarrow> line_merge \<Rightarrow> 'v key_block option \<Rightarrow> 'v key_block option \<Rightarrow> 'v key_block option
     \<Rightarrow> unit + string option" where
  "pick Y line_merge base local upstream =
     (if value_of local = value_of upstream then
        (if text_of local = text_of upstream \<or> text_of local = text_of base then Inr (text_of upstream)
         else if text_of upstream = text_of base then Inr (text_of local)
         else if base = None then Inr (text_of upstream)
         else (case merge_if Y line_merge base local upstream (\<lambda>l u v. v = kb_value l) of
                 Some merged \<Rightarrow> Inr (Some merged)
               | None \<Rightarrow> Inr (text_of local)))
      else if value_of local = value_of base then
        (if text_of local = text_of base then Inr (text_of upstream)
         else (case merge_if Y line_merge base local upstream (\<lambda>l u v. v = kb_value u) of
                 Some merged \<Rightarrow> Inr (Some merged)
               | None \<Rightarrow> Inl ()))
      else if value_of upstream = value_of base then
        (if text_of upstream = text_of base then Inr (text_of local)
         else (case merge_if Y line_merge base local upstream (\<lambda>l u v. v = kb_value l) of
                 Some merged \<Rightarrow> Inr (Some merged)
               | None \<Rightarrow> Inl ()))
      else (case merge_if Y line_merge base local upstream (\<lambda>l u v. True) of
              Some merged \<Rightarrow> Inr (Some merged)
            | None \<Rightarrow> Inl ()))"

fun pick_all ::
  "'v yaml_lib \<Rightarrow> line_merge \<Rightarrow> 'v key_block list \<Rightarrow> 'v key_block list \<Rightarrow> 'v key_block list
     \<Rightarrow> 'v key_block list \<Rightarrow> string option" where
  "pick_all Y line_merge base local upstream [] = Some []"
| "pick_all Y line_merge base local upstream (block # order) =
     (let key = kb_parsed_key block
      in case pick Y line_merge (find_block base key) (find_block local key) (find_block upstream key) of
           Inr text \<Rightarrow>
             map_option ((@) (case text of Some t \<Rightarrow> t | None \<Rightarrow> []))
               (pick_all Y line_merge base local upstream order)
         | Inl _ \<Rightarrow> None)"

datatype frontmatter_merge =
    FmClean string string string string
  | FmConflict
  | NotApplicable

definition merge_frontmatter ::
  "'v yaml_lib \<Rightarrow> line_merge \<Rightarrow> string option \<Rightarrow> string \<Rightarrow> string \<Rightarrow> frontmatter_merge" where
  "merge_frontmatter Y line_merge base local upstream =
     (case (split_frontmatter local, split_frontmatter upstream) of
        (Some l, Some u) \<Rightarrow>
          (let b = (case base of None \<Rightarrow> None | Some t \<Rightarrow> split_frontmatter t);
               base_body = (case b of Some parts \<Rightarrow> fp_body parts
                            | None \<Rightarrow> (case base of Some text \<Rightarrow> text | None \<Rightarrow> []))
           in case (case b of None \<Rightarrow> Inr prepared_default | Some parts \<Rightarrow> prepare Y (fp_yaml parts),
                    prepare Y (fp_yaml l), prepare Y (fp_yaml u)) of
                (Inr bs, Inr ls, Inr us) \<Rightarrow>
                  (case settle (pr_preamble bs) (pr_preamble ls) (pr_preamble us) of
                     None \<Rightarrow> FmConflict
                   | Some preamble \<Rightarrow>
                       (case pick_all Y line_merge (pr_blocks bs) (pr_blocks ls) (pr_blocks us)
                               (key_order (pr_blocks bs) (pr_blocks ls) (pr_blocks us)) of
                          None \<Rightarrow> FmConflict
                        | Some keys \<Rightarrow>
                            FmClean (fp_open u @ preamble @ keys @ fp_close u)
                              base_body (fp_body l) (fp_body u)))
              | (bs, ls, us) \<Rightarrow>
                  if bs = Inl StepAside \<or> ls = Inl StepAside \<or> us = Inl StepAside then NotApplicable
                  else if ls = Inl RefusalConflict \<or> us = Inl RefusalConflict then FmConflict
                  else NotApplicable)
      | _ \<Rightarrow> NotApplicable)"

datatype merged_text = Clean string | TextConflict

definition breaks_parse :: "(string \<Rightarrow> bool) \<Rightarrow> string \<Rightarrow> string \<Rightarrow> string \<Rightarrow> bool" where
  "breaks_parse parses local upstream merged \<longleftrightarrow>
     parses local \<and> parses upstream \<and> \<not> parses merged"

definition merge_text_with ::
  "'v yaml_lib \<Rightarrow> (string \<Rightarrow> bool) \<Rightarrow> string option \<Rightarrow> string \<Rightarrow> string
     \<Rightarrow> line_merge \<Rightarrow> line_merge \<Rightarrow> merged_text" where
  "merge_text_with Y parses base local upstream line_merge body_merge =
     (let base = map_option to_lf base; local = to_lf local; upstream = to_lf upstream;
          base_text = (case base of Some t \<Rightarrow> t | None \<Rightarrow> []);
          merged =
            (case merge_frontmatter Y line_merge base local upstream of
               FmClean head base_body local_body upstream_body \<Rightarrow>
                 map_option ((@) head)
                   (case settle base_body local_body upstream_body of
                      Some body \<Rightarrow> Some body
                    | None \<Rightarrow> body_merge base_body local_body upstream_body)
             | FmConflict \<Rightarrow> None
             | NotApplicable \<Rightarrow>
                 (let all_body = list_all (\<lambda>t. split_frontmatter t = None) [base_text, local, upstream]
                  in (if all_body then body_merge else line_merge) base_text local upstream))
      in case merged of
           Some text \<Rightarrow> if \<not> breaks_parse parses local upstream text then Clean text else TextConflict
         | None \<Rightarrow> TextConflict)"

definition merge_text ::
  "'v yaml_lib \<Rightarrow> (string \<Rightarrow> bool) \<Rightarrow> string option \<Rightarrow> string \<Rightarrow> string \<Rightarrow> line_merge \<Rightarrow> merged_text" where
  "merge_text Y parses base local upstream line_merge =
     merge_text_with Y parses base local upstream line_merge line_merge"

section \<open>The contract of a three-way merge\<close>

locale three_way_merge =
  fixes m :: "'a \<Rightarrow> 'a \<Rightarrow> 'a \<Rightarrow> 'a option"
  assumes local_unchanged: "m b b u = Some u"
    and upstream_unchanged: "m b l b = Some l"
    and same_change: "m b x x = Some x"
begin

lemma conflict_needs_both: "m b l u = None \<Longrightarrow> l \<noteq> b \<and> u \<noteq> b \<and> l \<noteq> u"
  using local_unchanged upstream_unchanged same_change by fastforce

lemma one_sided: "l = b \<or> u = b \<or> l = u \<Longrightarrow> m b l u = Some (if l = b then u else l)"
  using local_unchanged upstream_unchanged same_change by auto

end

interpretation st: three_way_merge settle
  by unfold_locales (auto simp: settle_def)

section \<open>Cutting loses nothing\<close>

lemma find_close_bounds:
  "find_close idx rest = Some (e, n) \<Longrightarrow> idx \<le> e \<and> e \<le> n \<and> n \<le> idx + length rest"
proof (induction idx rest rule: find_close.induct)
  case (1 idx rest)
  show ?case
  proof (cases "split_once LF rest")
    case None
    then show ?thesis using "1.prems" by (subst (asm) find_close.simps) (auto split: if_splits)
  next
    case (Some p)
    obtain line nxt where p: "p = (line, nxt)" by fastforce
    have len: "length rest = length line + 1 + length nxt"
      using Some p by (auto simp: split_once_Some)
    show ?thesis
    proof (cases "delimiter_line line")
      case True
      then show ?thesis using "1.prems" Some p len by (subst (asm) find_close.simps) auto
    next
      case False
      then have "find_close (idx + length line + 1) nxt = Some (e, n)"
        using "1.prems" Some p by (subst (asm) find_close.simps) auto
      from "1.IH" [OF Some p [symmetric] False this] len show ?thesis by simp
    qed
  qed
qed

lemma locate_bounds:
  "locate source = Some (a, e, n) \<Longrightarrow> a \<le> e \<and> e \<le> n \<and> n \<le> length source"
proof -
  assume l: "locate source = Some (a, e, n)"
  then obtain first rest where f: "split_once LF source = Some (first, rest)"
    "find_close (length first + 1) rest = Some (e, n)" "a = length first + 1"
    by (auto simp: locate_def Let_def split: option.splits if_splits)
  then have "length source = length first + 1 + length rest" by (auto simp: split_once_Some)
  then show ?thesis using find_close_bounds [OF f(2)] f(3) by simp
qed

lemma slices: "a \<le> b \<Longrightarrow> slice s a b @ drop b s = drop a s"
  unfolding slice_def by (metis append_take_drop_id drop_drop le_add_diff_inverse2)

lemma split_frontmatter_concat:
  "split_frontmatter source = Some p \<Longrightarrow> fp_open p @ fp_yaml p @ fp_close p @ fp_body p = source"
  using slices [of 0 _ source] slices [of _ _ source]
  by (auto simp: split_frontmatter_def dest!: locate_bounds split: option.splits)

text \<open>A delimiter line: three dashes, then carriage returns only.\<close>

definition dashes :: "nat \<Rightarrow> string" where
  "dashes n = ''---'' @ replicate n CR"

lemma trim_end_char_split: "\<exists>n. s = trim_end_char d s @ replicate n d"
proof -
  have "takeWhile (\<lambda>c. c = d) (rev s) = replicate (length (takeWhile (\<lambda>c. c = d) (rev s))) d"
    by (rule replicate_length_same [symmetric]) (auto dest: set_takeWhileD)
  then have "rev (takeWhile (\<lambda>c. c = d) (rev s)) = replicate (length (takeWhile (\<lambda>c. c = d) (rev s))) d"
    by (metis rev_replicate)
  moreover have "s = rev (dropWhile (\<lambda>c. c = d) (rev s)) @ rev (takeWhile (\<lambda>c. c = d) (rev s))"
    unfolding rev_append [symmetric] by simp
  ultimately show ?thesis unfolding trim_end_char_def by metis
qed

lemma delimiter_line_iff: "delimiter_line l \<longleftrightarrow> (\<exists>n. l = dashes n)"
proof
  assume "delimiter_line l"
  then show "\<exists>n. l = dashes n" using trim_end_char_split [of l CR] by (simp add: delimiter_line_def dashes_def)
next
  assume "\<exists>n. l = dashes n"
  then obtain n where l: "l = ''--'' @ CHR ''-'' # replicate n CR" by (auto simp: dashes_def)
  show "delimiter_line l"
    unfolding delimiter_line_def l by (subst trim_end_char_append) (simp_all add: trim_end_char_replicate)
qed

definition dash_free :: "string \<Rightarrow> bool" where
  "dash_free yaml \<longleftrightarrow> (yaml = [] \<or> last yaml = LF) \<and> (\<forall>n. dashes n @ [LF] \<notin> set (split_inclusive LF yaml))"

definition closes :: "string \<Rightarrow> string \<Rightarrow> bool" where
  "closes line body \<longleftrightarrow> (\<exists>n. line = dashes n @ [LF] \<or> line = dashes n \<and> body = [])"

lemma dashes_plain: "LF \<notin> set (dashes n)" "dashes n \<noteq> []"
  by (auto simp: dashes_def)

lemma dash_free_line:
  assumes "LF \<notin> set l"
  shows "dash_free (l @ LF # y) \<longleftrightarrow> (\<forall>n. l \<noteq> dashes n) \<and> dash_free y"
  using split_inclusive_line [OF assms, of y] by (auto simp: dash_free_def)

lemma dash_free_cases:
  assumes "dash_free y" "y \<noteq> []"
  obtains l y' where "y = l @ LF # y'" "LF \<notin> set l" "\<forall>n. l \<noteq> dashes n" "dash_free y'"
proof -
  have "LF \<in> set y" using assms last_in_set [OF assms(2)] by (simp add: dash_free_def)
  then obtain l y' where y: "y = l @ LF # y'" "LF \<notin> set l" by (meson split_list_first)
  then show thesis using that assms(1) dash_free_line by blast
qed

lemma first_line_eq: "LF \<notin> set a \<Longrightarrow> LF \<notin> set b \<Longrightarrow> a @ LF # x = b @ LF # y \<Longrightarrow> a = b \<and> x = y"
  using split_once_Some [of LF "a @ LF # x" a x] split_once_Some [of LF "a @ LF # x" b y] by simp

text \<open>The closing line is the first delimiter line.\<close>

lemma find_close_iff:
  "find_close idx rest = Some (i, nx) \<longleftrightarrow>
     (\<exists>y c b. rest = y @ c @ b \<and> i = idx + length y \<and> nx = i + length c \<and> dash_free y \<and> closes c b)"
proof (induction idx rest rule: find_close.induct)
  case (1 idx rest)
  show ?case
  proof (cases "split_once LF rest")
    case None
    have no: "LF \<notin> set rest" using None by (simp add: split_once_None)
    have y: "y = []" if e: "rest = y @ c @ b" and d: "dash_free y" for y c b
    proof (rule ccontr)
      assume "y \<noteq> []"
      then obtain l y' where "y = l @ LF # y'" using dash_free_cases [OF d] by blast
      then show False using e no by simp
    qed
    have "(\<exists>y c b. rest = y @ c @ b \<and> i = idx + length y \<and> nx = i + length c \<and> dash_free y \<and> closes c b)
        \<longleftrightarrow> (\<exists>n. rest = dashes n) \<and> i = idx \<and> nx = idx + length rest"
    proof (intro iffI; elim exE conjE)
      fix y c b
      assume a: "rest = y @ c @ b" "i = idx + length y" "nx = i + length c" "dash_free y" "closes c b"
      then show "(\<exists>n. rest = dashes n) \<and> i = idx \<and> nx = idx + length rest"
        using y [OF a(1,4)] no by (auto simp: closes_def)
    next
      fix n assume "i = idx" "nx = idx + length rest" "rest = dashes n"
      then show "\<exists>y c b. rest = y @ c @ b \<and> i = idx + length y \<and> nx = i + length c \<and> dash_free y \<and> closes c b"
        by (intro exI [of _ "[]"] exI [of _ rest]) (auto simp: closes_def dash_free_def)
    qed
    then show ?thesis using None by (auto simp: find_close.simps [of idx rest] delimiter_line_iff)
  next
    case (Some lr)
    obtain l r where lr: "lr = (l, r)" by (cases lr)
    then have s: "rest = l @ LF # r" "LF \<notin> set l" using Some by (simp_all add: split_once_Some)
    have cut: "y = [] \<and> (\<exists>n. l = dashes n) \<and> c = l @ [LF] \<and> b = r
        \<or> (\<exists>y'. y = l @ LF # y' \<and> r = y' @ c @ b \<and> (\<forall>n. l \<noteq> dashes n) \<and> dash_free y')"
      if e: "rest = y @ c @ b" and d: "dash_free y" "closes c b" for y c b
    proof (cases "y = []")
      case True
      obtain n where n: "c = dashes n @ [LF] \<or> c = dashes n \<and> b = []" using d(2) by (auto simp: closes_def)
      have "LF \<in> set rest" using s by simp
      then have "c = dashes n @ [LF]" using n e True dashes_plain(1) by auto
      then show ?thesis using first_line_eq [OF s(2) dashes_plain(1) [of n], of r b] e s True by auto
    next
      case False
      then obtain l' y' where y: "y = l' @ LF # y'" "LF \<notin> set l'" "\<forall>n. l' \<noteq> dashes n" "dash_free y'"
        using dash_free_cases [OF d(1)] by blast
      then show ?thesis using first_line_eq [OF s(2) y(2), of r "y' @ c @ b"] e s by auto
    qed
    show ?thesis
    proof (cases "\<exists>n. l = dashes n")
      case True
      have "(\<exists>y c b. rest = y @ c @ b \<and> i = idx + length y \<and> nx = i + length c \<and> dash_free y \<and> closes c b)
          \<longleftrightarrow> i = idx \<and> nx = idx + length l + 1"
      proof (intro iffI; elim exE conjE)
        fix y c b
        assume a: "rest = y @ c @ b" "i = idx + length y" "nx = i + length c" "dash_free y" "closes c b"
        show "i = idx \<and> nx = idx + length l + 1" using cut [OF a(1,4,5)] True a(2,3) by auto
      next
        assume "i = idx" "nx = idx + length l + 1"
        then show "\<exists>y c b. rest = y @ c @ b \<and> i = idx + length y \<and> nx = i + length c \<and> dash_free y \<and> closes c b"
          using s True by (intro exI [of _ "[]"] exI [of _ "l @ [LF]"] exI [of _ r]) (auto simp: closes_def dash_free_def)
      qed
      then show ?thesis using Some lr True by (auto simp: find_close.simps [of idx rest] delimiter_line_iff)
    next
      case False
      then have "find_close idx rest = find_close (idx + length l + 1) r"
        using Some lr by (simp add: find_close.simps [of idx rest] delimiter_line_iff)
      also have "\<dots> = Some (i, nx) \<longleftrightarrow>
          (\<exists>y c b. r = y @ c @ b \<and> i = idx + length l + 1 + length y \<and> nx = i + length c \<and> dash_free y \<and> closes c b)"
        using 1 [OF Some lr [symmetric]] False by (simp add: delimiter_line_iff)
      also have "\<dots> \<longleftrightarrow> (\<exists>y c b. rest = y @ c @ b \<and> i = idx + length y \<and> nx = i + length c \<and> dash_free y \<and> closes c b)"
      proof (intro iffI; elim exE conjE)
        fix y c b
        assume "r = y @ c @ b" "i = idx + length l + 1 + length y" "nx = i + length c" "dash_free y" "closes c b"
        then show "\<exists>y c b. rest = y @ c @ b \<and> i = idx + length y \<and> nx = i + length c \<and> dash_free y \<and> closes c b"
          using s False dash_free_line [OF s(2), of y] by (intro exI [of _ "l @ LF # y"] exI [of _ c] exI [of _ b]) auto
      next
        fix y c b
        assume a: "rest = y @ c @ b" "i = idx + length y" "nx = i + length c" "dash_free y" "closes c b"
        then obtain y' where "y = l @ LF # y'" "r = y' @ c @ b" "dash_free y'" using cut [OF a(1,4,5)] False by blast
        then show "\<exists>y c b. r = y @ c @ b \<and> i = idx + length l + 1 + length y \<and> nx = i + length c \<and> dash_free y \<and> closes c b"
          using a(2,3,5) by (intro exI [of _ y'] exI [of _ c] exI [of _ b]) simp
      qed
      finally show ?thesis .
    qed
  qed
qed

text \<open>The cut is the only one the delimiter lines allow.\<close>

lemma split_frontmatter_iff:
  "split_frontmatter source = Some p \<longleftrightarrow>
     source = fp_open p @ fp_yaml p @ fp_close p @ fp_body p
     \<and> (\<exists>n. fp_open p = dashes n @ [LF]) \<and> dash_free (fp_yaml p) \<and> closes (fp_close p) (fp_body p)"
proof
  assume "split_frontmatter source = Some p"
  then obtain start i nx where loc: "locate source = Some (start, i, nx)"
    and p: "p = \<lparr>fp_open = slice source 0 start, fp_yaml = slice source start i, fp_close = slice source i nx, fp_body = drop nx source\<rparr>"
    by (auto simp: split_frontmatter_def split: option.splits)
  obtain l r where lr: "split_once LF source = Some (l, r)" "delimiter_line l" "start = length l + 1"
    "find_close (length l + 1) r = Some (i, nx)"
    using loc by (auto simp: locate_def Let_def split: option.splits if_splits)
  have s: "source = l @ LF # r" "LF \<notin> set l" using lr(1) by (simp_all add: split_once_Some)
  obtain n where n: "l = dashes n" using lr(2) by (auto simp: delimiter_line_iff)
  obtain y c b where r: "r = y @ c @ b" "i = length l + 1 + length y" "nx = i + length c" "dash_free y" "closes c b"
    using lr(4) unfolding find_close_iff by blast
  have "source = (l @ [LF]) @ y @ c @ b" using s(1) r(1) by simp
  then have "fp_open p = l @ [LF]" "fp_yaml p = y" "fp_close p = c" "fp_body p = b"
    using p r(2,3) lr(3) by (simp_all add: slice_def)
  then show "source = fp_open p @ fp_yaml p @ fp_close p @ fp_body p
     \<and> (\<exists>n. fp_open p = dashes n @ [LF]) \<and> dash_free (fp_yaml p) \<and> closes (fp_close p) (fp_body p)"
    using s r n by auto
next
  assume a: "source = fp_open p @ fp_yaml p @ fp_close p @ fp_body p
     \<and> (\<exists>n. fp_open p = dashes n @ [LF]) \<and> dash_free (fp_yaml p) \<and> closes (fp_close p) (fp_body p)"
  then obtain n where o: "fp_open p = dashes n @ [LF]" by blast
  let ?r = "fp_yaml p @ fp_close p @ fp_body p"
  have s: "source = dashes n @ LF # ?r" using a o by simp
  have so: "split_once LF source = Some (dashes n, ?r)" using s dashes_plain(1) by (simp add: split_once_Some)
  have "find_close (length (dashes n) + 1) ?r
      = Some (length (dashes n) + 1 + length (fp_yaml p), length (dashes n) + 1 + length (fp_yaml p) + length (fp_close p))"
    unfolding find_close_iff using a by blast
  then have "locate source = Some (length (dashes n) + 1, length (dashes n) + 1 + length (fp_yaml p),
      length (dashes n) + 1 + length (fp_yaml p) + length (fp_close p))"
    using so by (auto simp: locate_def Let_def delimiter_line_iff)
  moreover have "source = (dashes n @ [LF]) @ fp_yaml p @ fp_close p @ fp_body p" using s by simp
  ultimately show "split_frontmatter source = Some p"
    using o by (simp add: split_frontmatter_def slice_def)
qed

lemma cut_lines_concat:
  "cut_lines index lines preamble raw = Some (p, r) \<Longrightarrow>
     p @ concat (map snd r) = preamble @ concat (map snd raw) @ concat lines"
proof (induction index lines preamble raw arbitrary: p r rule: cut_lines.induct)
  case (2 index line lines preamble raw)
  let ?c = "trim_end_matches {LF, CR} line"
  have no: "\<not> (starts_with ''{'' ?c \<or> starts_with ''['' ?c)"
    using "2.prems"(1) by (auto simp: Let_def split: if_splits)
  consider "starts_key ?c" | "\<not> starts_key ?c" "raw \<noteq> []"
    | "\<not> starts_key ?c" "raw = []" "is_blank_or_comment ?c"
    using "2.prems"(1) by (auto simp: Let_def split: if_splits)
  then show ?case
  proof cases
    case 1
    have "cut_lines (Suc index) lines preamble (raw @ [(index + 2, line)]) = Some (p, r)"
      using "2.prems" 1 no by (simp add: Let_def)
    from "2.IH"(1) [OF refl no 1 this] show ?thesis by simp
  next
    case 2
    have "concat (map snd raw) = concat (map snd (butlast raw @ [last raw]))"
      using 2(2) by simp
    then have c: "concat (map snd raw) = concat (map snd (butlast raw)) @ snd (last raw)"
      by (simp del: append_butlast_last_id)
    have "cut_lines (Suc index) lines preamble (butlast raw @ [(fst (last raw), snd (last raw) @ line)]) = Some (p, r)"
      using "2.prems" 2 no by (simp add: Let_def)
    from "2.IH"(2) [OF refl no 2 this] c show ?thesis by simp
  next
    case 3
    have rec: "cut_lines (Suc index) lines (preamble @ line) raw = Some (p, r)"
      using "2.prems" 3 no by (simp add: Let_def)
    have "\<not> raw \<noteq> []" using 3 by simp
    from "2.IH"(3) [OF refl no 3(1) this 3(3) rec] 3(2) show ?thesis by simp
  qed
qed simp

lemma parse_blocks_texts: "parse_blocks Y raw = Some bs \<Longrightarrow> map kb_text bs = map snd raw"
  by (induction Y raw arbitrary: bs rule: parse_blocks.induct) (auto split: option.splits list.splits prod.splits)

lemma key_blocks_concat:
  "key_blocks Y yaml = Some k \<Longrightarrow> kc_preamble k @ concat (map kb_text (kc_blocks k)) = yaml"
  by (auto simp: key_blocks_def dest!: cut_lines_concat parse_blocks_texts split: option.splits)

section \<open>Repeats\<close>

abbreviation keys_of :: "'v key_block list \<Rightarrow> 'v list" where
  "keys_of bs \<equiv> map kb_parsed_key bs"

lemma not_distinct_first:
  assumes "\<not> distinct (keys_of bs)"
  shows "\<exists>i < length bs. (\<forall>b \<in> set (take i bs). \<not> same_key (bs ! i) b)
           \<and> 1 < length (filter (same_key (bs ! i)) (drop i bs))"
  using assms
proof (induction bs)
  case (Cons b bs)
  show ?case
  proof (cases "kb_parsed_key b \<in> set (keys_of bs)")
    case True
    then obtain c where "c \<in> set bs" "same_key b c" by (auto simp: same_key_def)
    then have "filter (same_key b) bs \<noteq> []" unfolding filter_empty_conv by blast
    moreover have "same_key b b" by (simp add: same_key_def)
    ultimately show ?thesis by (intro exI [of _ 0]) simp
  next
    case False
    then obtain i where i: "i < length bs" "\<forall>c \<in> set (take i bs). \<not> same_key (bs ! i) c"
      "1 < length (filter (same_key (bs ! i)) (drop i bs))"
      using Cons by auto
    moreover have "\<not> same_key (bs ! i) b"
      using False i(1) by (auto simp: same_key_def) (metis nth_mem image_eqI)
    ultimately show ?thesis by (intro exI [of _ "Suc i"]) auto
  qed
qed simp

lemma map_filter_Nil: "List.map_filter f xs = [] \<longleftrightarrow> (\<forall>x \<in> set xs. f x = None)"
  by (auto simp: map_filter_def filter_empty_conv)

lemma repeats_Nil: "repeats bs = [] \<longleftrightarrow> distinct (keys_of bs)"
proof
  assume r: "repeats bs = []"
  show "distinct (keys_of bs)"
  proof (rule ccontr)
    assume "\<not> ?thesis"
    from not_distinct_first [OF this] obtain i where "i < length bs"
      "\<forall>b \<in> set (take i bs). \<not> same_key (bs ! i) b" "1 < length (filter (same_key (bs ! i)) (drop i bs))" by blast
    moreover from r have "\<forall>i < length bs. (\<exists>b \<in> set (take i bs). same_key (bs ! i) b)
        \<or> \<not> 1 < length (filter (same_key (bs ! i)) (drop i bs))"
      unfolding repeats_def map_filter_Nil by (auto simp: Let_def split: if_splits)
    ultimately show False by blast
  qed
next
  assume d: "distinct (keys_of bs)"
  have "length (filter (same_key (bs ! i)) (drop i bs)) \<le> 1" for i
  proof -
    have dist: "distinct (keys_of (filter (same_key (bs ! i)) (drop i bs)))"
      using d by (metis distinct_drop distinct_map_filter drop_map)
    have "set (keys_of (filter (same_key (bs ! i)) (drop i bs))) \<subseteq> {kb_parsed_key (bs ! i)}"
      by (auto simp: same_key_def)
    then have "card (set (keys_of (filter (same_key (bs ! i)) (drop i bs)))) \<le> 1"
      by (metis card.empty card.insert card_mono empty_iff finite.emptyI finite.insertI One_nat_def)
    then show ?thesis using distinct_card [OF dist] by simp
  qed
  then show "repeats bs = []"
    unfolding repeats_def map_filter_Nil by (auto simp: Let_def not_less [symmetric])
qed

lemma without_repeats_id: "distinct (keys_of bs) \<Longrightarrow> without_repeats bs k = bs"
proof -
  assume d: "distinct (keys_of bs)"
  have n: "kb_parsed_key (bs ! i) \<noteq> kb_parsed_key (bs ! j)" if "i < length bs" "j < length bs" "i \<noteq> j" for i j
    using d that by (metis length_map nth_eq_iff_index_eq nth_map)
  have "filter (\<lambda>i. case k of
            First \<Rightarrow> \<not> (\<exists>b \<in> set (take i bs). same_key (bs ! i) b)
          | Last \<Rightarrow> \<not> (\<exists>b \<in> set (drop (i + 1) bs). same_key (bs ! i) b)) [0..<length bs] = [0..<length bs]"
    by (rule filter_True) (auto simp: same_key_def in_set_conv_nth n split: keep.split)
  then show ?thesis by (simp add: without_repeats_def map_nth)
qed

text \<open>Keeping one copy of each key keeps every key, and what it says where the copies agree.\<close>

lemma without_repeats_First_snoc:
  "without_repeats (bs @ [b]) First =
     without_repeats bs First @ (if kb_parsed_key b \<in> set (keys_of bs) then [] else [b])"
proof -
  let ?P = "\<lambda>bs i. \<not> (\<exists>c \<in> set (take i bs). same_key (bs ! i) c)"
  have "map ((!) (bs @ [b])) (filter (?P (bs @ [b])) [0..<length bs])
      = map ((!) bs) (filter (?P bs) [0..<length bs])"
    by (intro map_cong filter_cong) (auto simp: nth_append)
  then show ?thesis by (auto simp: without_repeats_def same_key_def)
qed

lemma without_repeats_Last_Cons:
  "without_repeats (b # bs) Last =
     (if kb_parsed_key b \<in> set (keys_of bs) then [] else [b]) @ without_repeats bs Last"
proof -
  have "[0..<length (b # bs)] = 0 # map Suc [0..<length bs]"
    by (simp add: map_Suc_upt upt_conv_Cons del: upt_Suc)
  then show ?thesis
    by (auto simp: without_repeats_def same_key_def filter_map comp_def simp del: upt_Suc)
qed

lemma without_repeats_set: "set (without_repeats bs k) \<subseteq> set bs"
  by (auto simp: without_repeats_def)

lemma without_repeats_keys:
  "distinct (keys_of (without_repeats bs k)) \<and> set (keys_of (without_repeats bs k)) = set (keys_of bs)"
proof (cases k)
  case First
  then show ?thesis
    by (induction bs rule: rev_induct) (auto simp: without_repeats_First_snoc, auto simp: without_repeats_def)
next
  case Last
  then show ?thesis
    by (induction bs) (auto simp: without_repeats_Last_Cons, auto simp: without_repeats_def)
qed

lemma prepare_distinct: "prepare Y yaml = Inr p \<Longrightarrow> distinct (keys_of (pr_blocks p))"
  using without_repeats_keys [THEN conjunct1, of _ First]
  by (auto simp: prepare_def Let_def split: option.splits if_splits)

text \<open>Without repeats a side is prepared to exactly its own blocks.\<close>

lemma prepare_whole:
  assumes "\<And>k. key_blocks Y yaml = Some k \<Longrightarrow> repeats (kc_blocks k) = []"
  shows "prepare Y yaml = Inl StepAside \<or>
    (\<exists>p. prepare Y yaml = Inr p \<and> pr_preamble p @ concat (map kb_text (pr_blocks p)) = yaml
       \<and> distinct (keys_of (pr_blocks p)))"
proof (cases "key_blocks Y yaml")
  case (Some k)
  then have r: "repeats (kc_blocks k) = []" by (rule assms)
  then have d: "distinct (keys_of (kc_blocks k))" unfolding repeats_Nil .
  have "prepare Y yaml = (if \<not> consistent Y (kc_preamble k) (kc_blocks k) then Inl StepAside
      else Inr \<lparr>pr_preamble = kc_preamble k, pr_blocks = kc_blocks k\<rparr>)"
    using Some r by (simp add: prepare_def without_repeats_id [OF d] Let_def)
  then show ?thesis using d key_blocks_concat [OF Some] by (cases "consistent Y (kc_preamble k) (kc_blocks k)") simp_all
qed (simp add: prepare_def)

section \<open>The order of the keys\<close>

text \<open>\<open>interleave_loop\<close> on the keys alone.\<close>

fun ileave :: "'k list \<Rightarrow> nat option \<Rightarrow> 'k list \<Rightarrow> 'k list" where
  "ileave order after [] = order"
| "ileave order after (x # other) =
     (case position ((=) x) order of
        Some at \<Rightarrow> ileave order (Some at) other
      | None \<Rightarrow>
          (let at = (case after of None \<Rightarrow> 0 | Some a \<Rightarrow> a + 1)
           in ileave (insert_at at x order) (Some at) other))"

lemma position_map: "position P (map f xs) = position (P \<circ> f) xs"
  by (induction xs) auto

lemma position_keys:
  "position (\<lambda>b. same_key b x) bs = position ((=) (kb_parsed_key x)) (keys_of bs)"
  by (simp add: position_map comp_def same_key_def eq_commute)

lemma keys_insert_at: "map f (insert_at at x xs) = insert_at at (f x) (map f xs)"
  by (simp add: insert_at_def take_map drop_map)

lemma keys_interleave_loop: "keys_of (interleave_loop order after other) = ileave (keys_of order) after (keys_of other)"
  by (induction order after other rule: interleave_loop.induct)
     (auto simp: position_keys keys_insert_at Let_def split: option.splits)

lemma position_Some: "position P xs = Some i \<Longrightarrow> i < length xs \<and> P (xs ! i)"
  by (induction xs arbitrary: i) (auto split: if_splits)

lemma position_None: "position P xs = None \<longleftrightarrow> (\<forall>x \<in> set xs. \<not> P x)"
  by (induction xs) auto

lemma set_insert_at: "set (insert_at at x xs) = insert x (set xs)"
  unfolding insert_at_def by (simp, metis append_take_drop_id set_append)

lemma distinct_insert_at: "distinct xs \<Longrightarrow> x \<notin> set xs \<Longrightarrow> distinct (insert_at at x xs)"
  unfolding insert_at_def
  using distinct_append [of "take at xs" "drop at xs"] set_append [of "take at xs" "drop at xs"] by auto

lemma filter_insert_at_out:
  "\<not> P x \<Longrightarrow> filter P (insert_at at x xs) = filter P xs"
  unfolding insert_at_def by (simp, metis append_take_drop_id filter_append)

text \<open>The leading side keeps its order, and every key of both sides is there once.\<close>

lemma ileave_leading: "filter (\<lambda>k. k \<in> K) (ileave order after other) = filter (\<lambda>k. k \<in> K) order"
  if "K \<inter> set other \<subseteq> set order"
  using that
proof (induction order after other rule: ileave.induct)
  case (2 order after x other)
  show ?case
  proof (cases "position ((=) x) order")
    case None
    then have x: "x \<notin> set order" by (auto simp: position_None)
    let ?at = "case after of None \<Rightarrow> 0 | Some a \<Rightarrow> a + 1"
    have "x \<notin> K" using x "2.prems" by auto
    moreover have "filter (\<lambda>k. k \<in> K) (ileave (insert_at ?at x order) (Some ?at) other)
        = filter (\<lambda>k. k \<in> K) (insert_at ?at x order)"
      using "2.prems" by (intro "2.IH"(1) [OF None refl]) (auto simp: set_insert_at)
    ultimately show ?thesis using None by (simp add: filter_insert_at_out Let_def)
  next
    case (Some at)
    then show ?thesis using "2.prems" "2.IH"(2) [OF Some] by auto
  qed
qed simp

lemma set_ileave: "set (ileave order after other) = set order \<union> set other"
proof (induction order after other rule: ileave.induct)
  case (2 order after x other)
  then show ?case
    by (cases "position ((=) x) order")
       (auto simp: Let_def set_insert_at dest!: position_Some)
qed simp

lemma distinct_ileave: "distinct order \<Longrightarrow> distinct (ileave order after other)"
proof (induction order after other rule: ileave.induct)
  case (2 order after x other)
  show ?case
  proof (cases "position ((=) x) order")
    case None
    then have "x \<notin> set order" by (auto simp: position_None)
    with None "2.IH"(1) [OF None refl] "2.prems" show ?thesis by (simp add: Let_def distinct_insert_at)
  next
    case (Some at)
    with "2.IH"(2) [OF Some] "2.prems" show ?thesis by simp
  qed
qed simp

lemma distinct_prefix_unique:
  assumes "distinct xs" "xs = a @ z # b" "xs = c @ z # d"
  shows "a = c"
  using assms by (metis append_Cons_eq_iff distinct_append not_distinct_conv_prefix in_set_conv_decomp
      disjoint_iff list.set_intros(1) distinct.simps(2))

text \<open>A side in the leading side's relative order keeps its own order.\<close>

lemma ileave_other:
  assumes "distinct order" "distinct (done @ rest)"
    and "filter (\<lambda>k. k \<in> set (done @ rest)) order = done @ filter (\<lambda>k. k \<in> set order) rest"
    and "done = [] \<and> after = None \<or> done \<noteq> [] \<and> (\<exists>p. after = Some p \<and> p < length order \<and> order ! p = last done)"
  shows "filter (\<lambda>k. k \<in> set (done @ rest)) (ileave order after rest) = done @ rest"
  using assms
proof (induction order after rest arbitrary: "done" rule: ileave.induct)
  case (1 order after)
  then show ?case by simp
next
  case (2 order after x rest)
  have split: "done @ x # rest = (done @ [x]) @ rest" by simp
  show ?case
  proof (cases "position ((=) x) order")
    case (Some at)
    then have at: "at < length order" "order ! at = x" "x \<in> set order"
      using position_Some [OF Some] by auto
    have "filter (\<lambda>k. k \<in> set ((done @ [x]) @ rest)) (ileave order (Some at) rest) = (done @ [x]) @ rest"
      using "2.prems" at by (intro "2.IH"(2) [OF Some]) auto
    then show ?thesis using Some unfolding split by simp
  next
    case None
    then have x: "x \<notin> set order" by (auto simp: position_None)
    let ?at = "case after of None \<Rightarrow> 0 | Some a \<Rightarrow> a + 1"
    let ?P = "\<lambda>k. k \<in> set (done @ x # rest)"
    let ?R = "filter (\<lambda>k. k \<in> set order) rest"
    have fo: "filter ?P order = done @ ?R" using "2.prems"(3) x by simp
    have pre: "filter ?P (take ?at order) = done"
    proof (cases "done = []")
      case True
      then show ?thesis using "2.prems"(4) by simp
    next
      case False
      then obtain p where p: "after = Some p" "p < length order" "order ! p = last done"
        using "2.prems"(4) by blast
      have tk: "take (Suc p) order = take p order @ [last done]"
        using p by (simp add: take_Suc_conv_app_nth)
      have "filter ?P (take (Suc p) order) = filter ?P (take p order) @ [last done]"
        unfolding tk using False by simp
      moreover have "filter ?P order = filter ?P (take (Suc p) order) @ filter ?P (drop (Suc p) order)"
        by (metis append_take_drop_id filter_append)
      ultimately have e1: "filter ?P order = filter ?P (take p order) @ last done # filter ?P (drop (Suc p) order)"
        by simp
      have e2: "filter ?P order = butlast done @ last done # ?R"
        using fo False by (metis append.assoc append_Cons append_Nil append_butlast_last_id)
      have "filter ?P (take p order) = butlast done"
        using distinct_prefix_unique [OF _ e1 e2] "2.prems"(1) by simp
      then show ?thesis using \<open>filter ?P (take (Suc p) order) = _\<close> p(1) False by simp
    qed
    have dr: "filter ?P (drop ?at order) = ?R"
      using fo pre by (metis append_take_drop_id filter_append same_append_eq)
    have ins: "filter ?P (insert_at ?at x order) = done @ x # ?R"
      unfolding insert_at_def using pre dr by simp
    have le: "?at \<le> length order" using "2.prems"(4) by (auto split: option.split)
    have "filter (\<lambda>k. k \<in> set ((done @ [x]) @ rest)) (ileave (insert_at ?at x order) (Some ?at) rest)
        = (done @ [x]) @ rest"
    proof (rule "2.IH"(1) [OF None refl])
      show "distinct (insert_at ?at x order)" using "2.prems"(1) x by (rule distinct_insert_at)
      show "distinct ((done @ [x]) @ rest)" using "2.prems"(2) by simp
      have "x \<notin> set rest" using "2.prems"(2) by simp
      then show "filter (\<lambda>k. k \<in> set ((done @ [x]) @ rest)) (insert_at ?at x order)
          = (done @ [x]) @ filter (\<lambda>k. k \<in> set (insert_at ?at x order)) rest"
        using ins by (auto simp: set_insert_at intro!: filter_cong)
      show "done @ [x] = [] \<and> Some ?at = None \<or> done @ [x] \<noteq> [] \<and>
          (\<exists>p. Some ?at = Some p \<and> p < length (insert_at ?at x order) \<and> insert_at ?at x order ! p = last (done @ [x]))"
        using le by (auto simp: insert_at_def nth_append)
    qed
    then show ?thesis using None by (simp add: Let_def)
  qed
qed

lemma not_reordered_filter:
  assumes "distinct (keys_of base)" "distinct (keys_of side)" "\<not> reordered base side"
  shows "filter (\<lambda>k. k \<in> set (keys_of side)) (keys_of base) = filter (\<lambda>k. k \<in> set (keys_of base)) (keys_of side)"
proof -
  let ?B = "keys_of base" and ?S = "keys_of side"
  define at where "at = List.map_filter (\<lambda>k. position ((=) k) ?B) ?S"
  have at': "at = List.map_filter (\<lambda>block. position (\<lambda>b. same_key b block) base) side"
    unfolding at_def by (simp add: map_filter_def filter_map comp_def position_keys)
  have "\<forall>i. Suc i < length at \<longrightarrow> at ! i \<le> at ! Suc i"
  proof (intro allI impI)
    fix i assume "Suc i < length at"
    then have "i < length at - 1" by simp
    moreover have "\<forall>i < length at - 1. \<not> at ! i > at ! (i + 1)"
      using assms(3) unfolding reordered_def at' [symmetric] Let_def by blast
    ultimately show "at ! i \<le> at ! Suc i" by (simp add: not_less)
  qed
  then have srt: "sorted at" by (simp add: sorted_iff_nth_Suc)
  have nths: "map (nth ?B) (List.map_filter (\<lambda>k. position ((=) k) ?B) S) = filter (\<lambda>k. k \<in> set ?B) S"
    for S :: "'a list"
  proof (induction S)
    case (Cons k S)
    then show ?case
    proof (cases "position ((=) k) ?B")
      case None
      then have "k \<notin> set ?B" by (auto simp only: position_None)
      with Cons None show ?thesis by (simp add: map_filter_simps)
    next
      case (Some i)
      then have "?B ! i = k" "k \<in> set ?B" using position_Some [OF Some] by (metis, metis nth_mem)
      with Cons Some show ?thesis by (simp add: map_filter_simps)
    qed
  qed (simp add: map_filter_simps)
  have m: "map (nth ?B) at = filter (\<lambda>k. k \<in> set ?B) ?S" unfolding at_def by (rule nths)
  then have dat: "distinct at" using assms(2) by (metis distinct_filter distinct_map)
  have lt: "i < length ?B" if "i \<in> set at" for i
  proof -
    obtain k where "position ((=) k) ?B = Some i" using \<open>i \<in> set at\<close> unfolding at_def map_filter_def by auto
    from position_Some [OF this] show ?thesis by simp
  qed
  have "set at = {i. i < length ?B \<and> ?B ! i \<in> set ?S}"
  proof (intro equalityI subsetI)
    fix i assume i: "i \<in> set at"
    then have "?B ! i \<in> set (map (nth ?B) at)" by simp
    then show "i \<in> {i. i < length ?B \<and> ?B ! i \<in> set ?S}" unfolding m using lt [OF i] by auto
  next
    fix i assume i: "i \<in> {i. i < length ?B \<and> ?B ! i \<in> set ?S}"
    then have "?B ! i \<in> set (filter (\<lambda>k. k \<in> set ?B) ?S)" by auto
    then obtain j where j: "j \<in> set at" "?B ! j = ?B ! i" unfolding m [symmetric] by auto
    moreover have "i < length ?B" using i by simp
    ultimately have "i = j" using nth_eq_iff_index_eq [OF assms(1) lt [OF j(1)]] by metis
    with j show "i \<in> set at" by simp
  qed
  also have "\<dots> = set (filter (\<lambda>i. ?B ! i \<in> set ?S) [0..<length ?B])" by auto
  finally have sets: "set at = set (filter (\<lambda>i. ?B ! i \<in> set ?S) [0..<length ?B])" .
  have "at = filter (\<lambda>i. ?B ! i \<in> set ?S) [0..<length ?B]"
    by (rule sorted_distinct_set_unique [OF srt dat _ _ sets])
       (rule sorted_wrt_filter [OF sorted_upt], rule distinct_filter [OF distinct_upt])
  then have "map (nth ?B) at = filter (\<lambda>k. k \<in> set ?S) (map (nth ?B) [0..<length ?B])"
    by (simp only: filter_map comp_def)
  also have "map (nth ?B) [0..<length ?B] = ?B" by (rule map_nth)
  finally show ?thesis using m by (rule trans [OF sym])
qed

lemma map_filter_alt: "List.map_filter f xs = map the (filter (\<lambda>x. x \<noteq> None) (map f xs))"
  by (induction xs) (auto simp: map_filter_simps)

lemma reordered_self: "distinct (keys_of bs) \<Longrightarrow> \<not> reordered bs bs"
proof -
  assume d: "distinct (keys_of bs)"
  have "position (\<lambda>b. same_key b (bs ! i)) bs = Some i" if i: "i < length bs" for i
  proof (cases "position (\<lambda>b. same_key b (bs ! i)) bs")
    case None
    then show ?thesis using i by (auto simp: position_None same_key_def)
  next
    case (Some j)
    then have "j < length bs" "same_key (bs ! j) (bs ! i)" using position_Some by fast+
    then have "j = i" using d i nth_eq_iff_index_eq [of "keys_of bs" j i] by (simp add: same_key_def)
    with Some show ?thesis by simp
  qed
  then have "map (\<lambda>block. position (\<lambda>b. same_key b block) bs) bs = map Some [0..<length bs]"
    by (intro nth_equalityI) auto
  then have "List.map_filter (\<lambda>block. position (\<lambda>b. same_key b block) bs) bs = [0..<length bs]"
    by (simp add: map_filter_alt)
  then show ?thesis by (simp add: reordered_def Let_def)
qed

section \<open>One changed side\<close>

lemma find_block_own: "distinct (keys_of x) \<Longrightarrow> b \<in> set x \<Longrightarrow> find_block x (kb_parsed_key b) = Some b"
  unfolding find_block_def by (induction x) auto

lemma find_block_None: "find_block x k = None \<longleftrightarrow> k \<notin> set (keys_of x)"
  by (auto simp: find_block_def find_None_iff)

lemma pick_all_texts:
  assumes "\<And>key. pick Y lm (find_block base key) (find_block local key) (find_block upstream key)
      = Inr (text_of (find_block x key))"
  shows "pick_all Y lm base local upstream order =
     Some (concat (map (\<lambda>k. case find_block x k of Some b \<Rightarrow> kb_text b | None \<Rightarrow> []) (keys_of order)))"
  by (induction order) (auto simp: assms text_of_def split: option.splits)

lemma texts_in_order:
  assumes "distinct (keys_of x)" "filter (\<lambda>k. k \<in> set (keys_of x)) ks = keys_of x"
  shows "concat (map (\<lambda>k. case find_block x k of Some b \<Rightarrow> kb_text b | None \<Rightarrow> []) ks) = concat (map kb_text x)"
proof -
  let ?f = "\<lambda>k. case find_block x k of Some b \<Rightarrow> kb_text b | None \<Rightarrow> []"
  have "concat (map ?f ks) = concat (map ?f (filter (\<lambda>k. k \<in> set (keys_of x)) ks))"
    by (induction ks) (auto simp: find_block_None [THEN iffD2])
  also have "\<dots> = concat (map (?f \<circ> kb_parsed_key) x)" unfolding assms(2) by simp
  also have "\<dots> = concat (map kb_text x)"
    using find_block_own [OF assms(1)] by (intro arg_cong [of _ _ concat] map_cong) auto
  finally show ?thesis .
qed

text \<open>When one side is the base, or both sides agree, each key takes the changed side's text.\<close>

lemma pick_one_sided:
  "l = b \<Longrightarrow> pick Y lm b l u = Inr (text_of u)"
  "u = b \<Longrightarrow> pick Y lm b l u = Inr (text_of l)"
  "l = u \<Longrightarrow> pick Y lm b l u = Inr (text_of l)"
  by (auto simp: pick_def)

lemma keys_interleave: "keys_of (interleave a b) = ileave (keys_of a) None (keys_of b)"
  by (simp add: interleave_def keys_interleave_loop)

lemma key_order_leading:
  "filter (\<lambda>k. k \<in> set (keys_of a)) (keys_of (interleave a b)) = keys_of a"
proof -
  have "filter (\<lambda>k. k \<in> set (keys_of a)) (ileave (keys_of a) None (keys_of b))
      = filter (\<lambda>k. k \<in> set (keys_of a)) (keys_of a)" by (rule ileave_leading) auto
  also have "\<dots> = keys_of a" by (rule filter_True) simp
  finally show ?thesis by (simp only: keys_interleave)
qed

lemma key_order_one_sided:
  assumes d: "distinct (keys_of b)" "distinct (keys_of l)" "distinct (keys_of u)"
    and "l = b \<or> u = b \<or> l = u"
  defines "x \<equiv> if l = b then u else l"
  shows "filter (\<lambda>k. k \<in> set (keys_of x)) (keys_of (key_order b l u)) = keys_of x"
proof -
  consider "l = b" | "l \<noteq> b" "u = b" | "l \<noteq> b" "l = u" using assms(4) by blast
  then show ?thesis
  proof cases
    case 1
    then show ?thesis using reordered_self [OF d(1)] key_order_leading [of u b]
      by (simp only: x_def key_order_def refl if_True simp_thms if_False)
  next
    case 2
    show ?thesis
    proof (cases "reordered b l")
      case True
      then show ?thesis using 2 reordered_self [OF d(1)] key_order_leading [of l b]
        by (simp only: x_def key_order_def refl if_True simp_thms if_False)
    next
      case False
      have "filter (\<lambda>k. k \<in> set ([] @ keys_of l)) (ileave (keys_of b) None (keys_of l)) = [] @ keys_of l"
        using d(1,2) not_reordered_filter [OF d(1,2) False] by (intro ileave_other) auto
      then show ?thesis using 2 False by (simp add: x_def key_order_def keys_interleave)
    qed
  next
    case 3
    then show ?thesis using key_order_leading [of u u]
      by (simp only: x_def key_order_def if_False if_cancel)
  qed
qed

lemma pick_all_one_sided:
  assumes d: "distinct (keys_of b)" "distinct (keys_of l)" "distinct (keys_of u)"
    and o: "l = b \<or> u = b \<or> l = u"
  shows "pick_all Y lm b l u (key_order b l u) = Some (concat (map kb_text (if l = b then u else l)))"
proof -
  have "pick Y lm (find_block b key) (find_block l key) (find_block u key)
      = Inr (text_of (find_block (if l = b then u else l) key))" for key
    using o by (auto simp: pick_one_sided [OF refl])
  from pick_all_texts [of Y lm b l u "if l = b then u else l", OF this] show ?thesis
    using texts_in_order [OF _ key_order_one_sided [OF d o]] d by simp
qed

text \<open>The delimiters two texts open and close their frontmatter with.\<close>

definition delimiters :: "string \<Rightarrow> (string \<times> string) option" where
  "delimiters t = map_option (\<lambda>p. (fp_open p, fp_close p)) (split_frontmatter t)"

lemma merge_frontmatter_one_sided:
  assumes dup: "duplicate_keys Y l = []" "duplicate_keys Y u = []"
    and o: "l = b \<or> (u = b \<and> delimiters l = delimiters u) \<or> l = u"
  shows "merge_frontmatter Y lm (Some b) l u = NotApplicable \<or>
    (\<exists>head bb lb ub body. merge_frontmatter Y lm (Some b) l u = FmClean head bb lb ub
       \<and> settle bb lb ub = Some body \<and> head @ body = (if l = b then u else l))"
proof (cases "split_frontmatter l = None \<or> split_frontmatter u = None")
  case True
  then show ?thesis by (auto simp: merge_frontmatter_def split: option.splits)
next
  case False
  then obtain pl pu where pl: "split_frontmatter l = Some pl" and pu: "split_frontmatter u = Some pu" by auto
  have whole: "prepare Y (fp_yaml p) = Inl StepAside \<or>
      (\<exists>q. prepare Y (fp_yaml p) = Inr q \<and> pr_preamble q @ concat (map kb_text (pr_blocks q)) = fp_yaml p
         \<and> distinct (keys_of (pr_blocks q)))"
    if "split_frontmatter t = Some p" "duplicate_keys Y t = []" for t p
    using that by (intro prepare_whole) (simp add: duplicate_keys_def)
  let ?b = "case split_frontmatter b of None \<Rightarrow> Inr prepared_default | Some parts \<Rightarrow> prepare Y (fp_yaml parts)"
  show ?thesis
  proof (cases "\<exists>bs ls us. ?b = Inr bs \<and> prepare Y (fp_yaml pl) = Inr ls \<and> prepare Y (fp_yaml pu) = Inr us")
    case False
    then show ?thesis
      using whole [OF pl dup(1)] whole [OF pu dup(2)] pl pu
      by (auto simp: merge_frontmatter_def Let_def split: sum.splits refusal.splits)
  next
    case True
    then obtain bs ls us where b: "?b = Inr bs" and ls: "prepare Y (fp_yaml pl) = Inr ls"
      and us: "prepare Y (fp_yaml pu) = Inr us" by blast
    have lw: "pr_preamble ls @ concat (map kb_text (pr_blocks ls)) = fp_yaml pl" "distinct (keys_of (pr_blocks ls))"
      using whole [OF pl dup(1)] ls by auto
    have uw: "pr_preamble us @ concat (map kb_text (pr_blocks us)) = fp_yaml pu" "distinct (keys_of (pr_blocks us))"
      using whole [OF pu dup(2)] us by auto
    have cl: "fp_open pl @ fp_yaml pl @ fp_close pl @ fp_body pl = l"
      using split_frontmatter_concat [OF pl] .
    have cu: "fp_open pu @ fp_yaml pu @ fp_close pu @ fp_body pu = u"
      using split_frontmatter_concat [OF pu] .
    let ?bb = "case split_frontmatter b of Some parts \<Rightarrow> fp_body parts | None \<Rightarrow> b"
    have m: "merge_frontmatter Y lm (Some b) l u =
        (case settle (pr_preamble bs) (pr_preamble ls) (pr_preamble us) of
           None \<Rightarrow> FmConflict
         | Some preamble \<Rightarrow>
             (case pick_all Y lm (pr_blocks bs) (pr_blocks ls) (pr_blocks us)
                     (key_order (pr_blocks bs) (pr_blocks ls) (pr_blocks us)) of
                None \<Rightarrow> FmConflict
              | Some keys \<Rightarrow> FmClean (fp_open pu @ preamble @ keys @ fp_close pu) ?bb (fp_body pl) (fp_body pu)))"
      using b ls us pl pu by (cases "split_frontmatter b") (simp_all add: merge_frontmatter_def Let_def split: option.split)
    consider "l = b" | "l \<noteq> b" "u = b" "delimiters l = delimiters u" | "l \<noteq> b" "l = u"
      using o by blast
    then show ?thesis
    proof cases
      case 1
      then have e: "bs = ls" "?bb = fp_body pl" using b ls pl by auto
      have "pick_all Y lm (pr_blocks bs) (pr_blocks ls) (pr_blocks us)
          (key_order (pr_blocks bs) (pr_blocks ls) (pr_blocks us)) = Some (concat (map kb_text (pr_blocks us)))"
        unfolding e by (subst pick_all_one_sided) (use lw uw in auto)
      then show ?thesis using 1 e cu unfolding m uw(1) [symmetric] by (simp add: st.local_unchanged)
    next
      case 2
      then have e: "bs = us" "?bb = fp_body pu" using b us pu by auto
      have del: "fp_open pu = fp_open pl" "fp_close pu = fp_close pl"
        using 2(3) pl pu by (simp_all add: delimiters_def)
      have "pick_all Y lm (pr_blocks bs) (pr_blocks ls) (pr_blocks us)
          (key_order (pr_blocks bs) (pr_blocks ls) (pr_blocks us)) = Some (concat (map kb_text (pr_blocks ls)))"
        unfolding e by (subst pick_all_one_sided) (use lw uw in auto)
      then show ?thesis using 2(1) e cl unfolding m del lw(1) [symmetric] by (simp add: st.upstream_unchanged)
    next
      case 3
      then have e: "pl = pu" using pl pu by simp
      then have e': "ls = us" using ls us by simp
      have db: "distinct (keys_of (pr_blocks bs))"
        using b by (auto simp: prepared_default_def dest: prepare_distinct split: option.splits)
      have "pick_all Y lm (pr_blocks bs) (pr_blocks ls) (pr_blocks us)
          (key_order (pr_blocks bs) (pr_blocks ls) (pr_blocks us)) = Some (concat (map kb_text (pr_blocks ls)))"
        unfolding e' by (subst pick_all_one_sided) (use db uw in auto)
      then show ?thesis using 3(1) e e' cl unfolding m lw(1) [symmetric] by (simp add: st.same_change)
    qed
  qed
qed

section \<open>What a picked text says\<close>

text \<open>The value a block's text reads as on its own.\<close>

definition reading :: "'v yaml_lib \<Rightarrow> string \<Rightarrow> 'v option" where
  "reading Y t =
     (case y_from_str Y t of
        Some v \<Rightarrow> (case y_mapping Y v of Some [(k, x)] \<Rightarrow> Some x | _ \<Rightarrow> None)
      | None \<Rightarrow> None)"

definition read_text :: "'v yaml_lib \<Rightarrow> string option \<Rightarrow> 'v option" where
  "read_text Y r = (case r of Some t \<Rightarrow> reading Y t | None \<Rightarrow> None)"

text \<open>A block as \<open>key_blocks\<close> cuts it.\<close>

definition block_ok :: "'v yaml_lib \<Rightarrow> 'v key_block \<Rightarrow> bool" where
  "block_ok Y b \<longleftrightarrow> parse_blocks Y [(kb_line b, kb_text b)] = Some [b]"

lemma reading_block: "block_ok Y b \<Longrightarrow> reading Y (kb_text b) = Some (kb_value b)"
  by (cases b) (auto simp: block_ok_def reading_def split: option.splits list.splits prod.splits)

lemma parse_blocks_ok: "parse_blocks Y raw = Some bs \<Longrightarrow> b \<in> set bs \<Longrightarrow> block_ok Y b"
proof (induction raw arbitrary: bs)
  case (Cons e raw)
  obtain ln tx where e: "e = (ln, tx)" by fastforce
  obtain v k x bs' where v: "y_from_str Y tx = Some v" "y_mapping Y v = Some [(k, x)]"
    "parse_blocks Y raw = Some bs'"
    and bs: "bs = \<lparr>kb_key = key_text Y k, kb_parsed_key = k, kb_text = tx, kb_value = x, kb_line = ln\<rparr> # bs'"
    using Cons.prems(1) unfolding e by (auto split: option.splits list.splits)
  have "block_ok Y \<lparr>kb_key = key_text Y k, kb_parsed_key = k, kb_text = tx, kb_value = x, kb_line = ln\<rparr>"
    using v by (simp add: block_ok_def)
  with Cons.IH [OF v(3)] Cons.prems(2) bs show ?case by auto
qed simp

lemma key_blocks_ok: "key_blocks Y yaml = Some k \<Longrightarrow> b \<in> set (kc_blocks k) \<Longrightarrow> block_ok Y b"
  using parse_blocks_ok by (fastforce simp: key_blocks_def split: option.splits)

lemma merge_block_reading:
  assumes "merge_block Y lm b l u = Some (merged, v)"
  shows "reading Y merged = Some v"
proof -
  obtain k where k: "key_blocks Y merged = Some k" "kc_preamble k = []" "length (kc_blocks k) = 1"
    "v = kb_value (hd (kc_blocks k))"
    using assms by (auto simp: merge_block_def split: option.splits if_splits)
  then obtain x where x: "kc_blocks k = [x]" by (auto simp: length_Suc_conv)
  have "kb_text x = merged" using key_blocks_concat [OF k(1)] k(2) x by simp
  moreover have "block_ok Y x" using key_blocks_ok [OF k(1)] x by simp
  ultimately show ?thesis using reading_block [of Y x] k(4) x by simp
qed

lemma merge_if_reading:
  "merge_if Y lm b l u (\<lambda>l u v. v = kb_value l) = Some t \<Longrightarrow> read_text Y (Some t) = value_of l"
  "merge_if Y lm b l u (\<lambda>l u v. v = kb_value u) = Some t \<Longrightarrow> read_text Y (Some t) = value_of u"
  by (auto simp: merge_if_def read_text_def value_of_def dest!: merge_block_reading
        split: option.splits if_splits prod.splits)

lemma read_text_of: "\<forall>x \<in> set_option b. block_ok Y x \<Longrightarrow> read_text Y (text_of b) = value_of b"
  by (cases b) (simp_all add: read_text_def text_of_def value_of_def reading_block)

lemma same_text_value:
  "\<forall>x \<in> set_option a \<union> set_option b. block_ok Y x \<Longrightarrow> text_of a = text_of b \<Longrightarrow> value_of a = value_of b"
  using read_text_of [of a Y] read_text_of [of b Y] by auto

lemma pick_reading:
  assumes ok: "\<forall>x \<in> set_option b \<union> set_option l \<union> set_option u. block_ok Y x"
    and p: "pick Y lm b l u = Inr r"
  shows "(value_of l = value_of u \<longrightarrow> read_text Y r = value_of l)
    \<and> (value_of l = value_of b \<longrightarrow> read_text Y r = value_of u)
    \<and> (value_of u = value_of b \<longrightarrow> read_text Y r = value_of l)"
proof -
  have rl: "read_text Y (text_of l) = value_of l" and ru: "read_text Y (text_of u) = value_of u"
    using ok by (simp_all add: read_text_of)
  consider "value_of l = value_of u" | "value_of l \<noteq> value_of u" "value_of l = value_of b"
    | "value_of l \<noteq> value_of u" "value_of l \<noteq> value_of b" "value_of u = value_of b"
    | "value_of l \<noteq> value_of u" "value_of l \<noteq> value_of b" "value_of u \<noteq> value_of b" by blast
  then show ?thesis
  proof cases
    case 1
    have "read_text Y r = value_of l"
    proof (cases "merge_if Y lm b l u (\<lambda>l u v. v = kb_value l)")
      case None
      then show ?thesis using p 1 rl ru by (auto simp: pick_def split: if_splits)
    next
      case (Some t)
      then show ?thesis using p 1 rl ru merge_if_reading(1) [OF Some] by (auto simp: pick_def split: if_splits)
    qed
    then show ?thesis using 1 by simp
  next
    case 2
    have "read_text Y r = value_of u"
    proof (cases "merge_if Y lm b l u (\<lambda>l u v. v = kb_value u)")
      case None
      then show ?thesis using p 2 ru by (auto simp: pick_def split: if_splits)
    next
      case (Some t)
      then show ?thesis using p 2 ru merge_if_reading(2) [OF Some] by (auto simp: pick_def split: if_splits)
    qed
    then show ?thesis using 2 by simp
  next
    case 3
    have "read_text Y r = value_of l"
    proof (cases "merge_if Y lm b l u (\<lambda>l u v. v = kb_value l)")
      case None
      then show ?thesis using p 3 rl by (auto simp: pick_def split: if_splits)
    next
      case (Some t)
      then show ?thesis using p 3 rl merge_if_reading(1) [OF Some] by (auto simp: pick_def split: if_splits)
    qed
    then show ?thesis using 3 by simp
  qed simp
qed

lemma pick_conflict:
  assumes ok: "\<forall>x \<in> set_option b \<union> set_option l \<union> set_option u. block_ok Y x"
    and p: "pick Y lm b l u = Inl e"
  shows "text_of l \<noteq> text_of b \<and> text_of u \<noteq> text_of b \<and> value_of l \<noteq> value_of u"
  using p same_text_value [of l b Y] same_text_value [of u b Y] ok
  by (auto simp: pick_def split: if_splits option.splits)

section \<open>Collapsing repeats\<close>

lemma in_map_filter: "x \<in> set xs \<Longrightarrow> f x = Some y \<Longrightarrow> y \<in> set (List.map_filter f xs)"
  by (force simp: map_filter_def)

lemma short_list: "\<not> 1 < length xs \<Longrightarrow> a \<in> set xs \<Longrightarrow> b \<in> set xs \<Longrightarrow> a = b"
  by (cases xs; cases "tl xs") auto

lemma copies_agree:
  assumes "\<forall>d \<in> set (repeats bs). dk_same_value d"
    and "a \<in> set bs" "b \<in> set bs" "same_key a b"
  shows "kb_value a = kb_value b"
proof -
  define i where "i = (LEAST i. i < length bs \<and> same_key a (bs ! i))"
  obtain n where "n < length bs \<and> same_key a (bs ! n)"
    using assms(2) by (auto simp: in_set_conv_nth same_key_def)
  then have i: "i < length bs \<and> same_key a (bs ! i)" unfolding i_def by (rule LeastI)
  have first: "\<not> same_key (bs ! i) c" if "c \<in> set (take i bs)" for c
  proof
    assume s: "same_key (bs ! i) c"
    obtain j where j: "j < i" "c = bs ! j" using \<open>c \<in> set (take i bs)\<close> by (auto simp: in_set_conv_nth)
    then have "j < length bs \<and> same_key a (bs ! j)" using i s by (simp add: same_key_def)
    then show False using not_less_Least [of j] j(1) unfolding i_def by blast
  qed
  let ?c = "filter (same_key (bs ! i)) (drop i bs)"
  have inc: "x \<in> set ?c" if "x \<in> set bs" "same_key a x" for x
  proof -
    have "same_key (bs ! i) x" using i that(2) by (simp add: same_key_def)
    moreover have "x \<in> set (take i bs) \<union> set (drop i bs)" using that(1) by (metis append_take_drop_id set_append)
    ultimately show ?thesis using first by auto
  qed
  have mem: "a \<in> set ?c" "b \<in> set ?c" "bs ! i \<in> set ?c"
    using inc assms(2-4) i by (auto simp: same_key_def)
  have all: "\<forall>c \<in> set ?c. kb_value c = kb_value (bs ! i)"
  proof (cases "1 < length ?c")
    case True
    then have "\<lparr>dk_key = kb_key (bs ! i), dk_lines = map kb_line ?c,
        dk_same_value = (\<forall>c \<in> set ?c. kb_value c = kb_value (bs ! i))\<rparr> \<in> set (repeats bs)"
      unfolding repeats_def
    proof (intro in_map_filter [of i])
      show "i \<in> set [0..<length bs]" using i by simp
      have "\<not> (\<exists>c \<in> set (take i bs). same_key (bs ! i) c)" using first by blast
      then show "(let block = bs ! i; copies = filter (same_key block) (drop i bs)
            in if \<exists>b \<in> set (take i bs). same_key block b then None
               else if 1 < length copies
               then Some \<lparr>dk_key = kb_key block, dk_lines = map kb_line copies,
                          dk_same_value = (\<forall>c \<in> set copies. kb_value c = kb_value block)\<rparr>
               else None)
          = Some \<lparr>dk_key = kb_key (bs ! i), dk_lines = map kb_line ?c,
              dk_same_value = (\<forall>c \<in> set ?c. kb_value c = kb_value (bs ! i))\<rparr>"
        unfolding Let_def using True by (simp only: if_False if_True)
    qed
    from bspec [OF assms(1) this] show ?thesis by (simp only: duplicate_key.simps)
  next
    case False
    show ?thesis
    proof
      fix c assume "c \<in> set ?c"
      then have "c = bs ! i" by (rule short_list [OF False _ mem(3)])
      then show "kb_value c = kb_value (bs ! i)" by (rule arg_cong)
    qed
  qed
  show ?thesis by (rule trans [OF bspec [OF all mem(1)] sym [OF bspec [OF all mem(2)]]])
qed

section \<open>Properties\<close>

text \<open>
  C27: a source is cut at its frontmatter delimiters in the one way they allow, and the cut
  loses nothing. The cut has four parts exactly when they concatenate to the source byte for
  byte, the first is a \<open>---\<close> line (carriage returns may end it), the third is one too (at the
  end of the source its newline may be missing), and the YAML between them is whole lines of
  which none is one. The key blocks with their preamble concatenate back to that YAML, and the
  frontmatter rebuilt of them is the source.
\<close>

theorem frontmatter_roundtrip:
  "(split_frontmatter source = Some p \<longleftrightarrow>
      source = fp_open p @ fp_yaml p @ fp_close p @ fp_body p
      \<and> (\<exists>n. fp_open p = ''---'' @ replicate n CR @ [LF])
      \<and> (fp_yaml p = [] \<or> last (fp_yaml p) = LF)
      \<and> (\<forall>n. ''---'' @ replicate n CR @ [LF] \<notin> set (split_inclusive LF (fp_yaml p)))
      \<and> (\<exists>n. fp_close p = ''---'' @ replicate n CR @ [LF] \<or> fp_close p = ''---'' @ replicate n CR \<and> fp_body p = []))
   \<and> (split_frontmatter source = Some p \<and> key_blocks Y (fp_yaml p) = Some k \<longrightarrow>
        kc_preamble k @ concat (map kb_text (kc_blocks k)) = fp_yaml p
        \<and> rebuild p (kc_preamble k) (kc_blocks k) = source)"
proof (intro conjI impI)
  show "split_frontmatter source = Some p \<longleftrightarrow>
      source = fp_open p @ fp_yaml p @ fp_close p @ fp_body p
      \<and> (\<exists>n. fp_open p = ''---'' @ replicate n CR @ [LF])
      \<and> (fp_yaml p = [] \<or> last (fp_yaml p) = LF)
      \<and> (\<forall>n. ''---'' @ replicate n CR @ [LF] \<notin> set (split_inclusive LF (fp_yaml p)))
      \<and> (\<exists>n. fp_close p = ''---'' @ replicate n CR @ [LF] \<or> fp_close p = ''---'' @ replicate n CR \<and> fp_body p = [])"
    by (simp add: split_frontmatter_iff dash_free_def closes_def dashes_def)
next
  assume a: "split_frontmatter source = Some p \<and> key_blocks Y (fp_yaml p) = Some k"
  then show k: "kc_preamble k @ concat (map kb_text (kc_blocks k)) = fp_yaml p" using key_blocks_concat by blast
  show "rebuild p (kc_preamble k) (kc_blocks k) = source"
    using a k split_frontmatter_concat unfolding rebuild_def by (metis append.assoc)
qed

text \<open>A YAML library for the examples: one \<open>key: value\<close> entry a line.\<close>

definition flat_yaml :: "string yaml_lib" where
  "flat_yaml =
     \<lparr>y_from_str = Some,
      y_mapping = (\<lambda>t. Some (map (\<lambda>line. case split_once CHR '':'' line of Some (k, v) \<Rightarrow> (k, v) | None \<Rightarrow> (line, []))
                               (split_inclusive LF t))),
      y_as_string = Some, y_to_string = id\<rparr>"

definition doc :: "string \<Rightarrow> string \<Rightarrow> string" where
  "doc yaml body = ''---'' @ [LF] @ yaml @ ''---'' @ [LF] @ body"

theorem frontmatter_roundtrip_witness:
  "\<exists>p k. split_frontmatter (doc ([CHR ''a'', CHR '':'', LF] @ [CHR ''b'', CHR '':'', LF]) ''text'') = Some p
     \<and> key_blocks flat_yaml (fp_yaml p) = Some k \<and> length (kc_blocks k) = 2
     \<and> rebuild p (kc_preamble k) (kc_blocks k) = doc ([CHR ''a'', CHR '':'', LF] @ [CHR ''b'', CHR '':'', LF]) ''text''"
proof -
  let ?s = "doc ([CHR ''a'', CHR '':'', LF] @ [CHR ''b'', CHR '':'', LF]) ''text''"
  have "case split_frontmatter ?s of None \<Rightarrow> False | Some p \<Rightarrow>
      (case key_blocks flat_yaml (fp_yaml p) of None \<Rightarrow> False | Some k \<Rightarrow> length (kc_blocks k) = 2)"
    by code_simp
  then obtain p k where "split_frontmatter ?s = Some p" "key_blocks flat_yaml (fp_yaml p) = Some k"
    "length (kc_blocks k) = 2" by (auto split: option.splits)
  with frontmatter_roundtrip [of ?s p flat_yaml k] show ?thesis by blast
qed

text \<open>
  A change only one side made always arrives whole. When, read as LF, local is the
  base, or upstream is the base (with the same delimiter lines), or both sides are the
  same text, and neither side repeats a frontmatter key, the merge is clean and is the
  changed side byte for byte, whatever the YAML library reads into it, as long as the
  line merge and the body merge are three-way merges.
\<close>

theorem merge_text_one_sided:
  assumes "three_way_merge line_merge" "three_way_merge body_merge"
    and "duplicate_keys Y (to_lf local) = []" "duplicate_keys Y (to_lf upstream) = []"
    and "to_lf local = to_lf base
         \<or> (to_lf upstream = to_lf base \<and> delimiters (to_lf local) = delimiters (to_lf upstream))
         \<or> to_lf local = to_lf upstream"
  shows "merge_text_with Y parses (Some base) local upstream line_merge body_merge
     = Clean (if to_lf local = to_lf base then to_lf upstream else to_lf local)"
proof -
  let ?b = "to_lf base" and ?l = "to_lf local" and ?u = "to_lf upstream"
  let ?x = "if ?l = ?b then ?u else ?l"
  have one: "line_merge ?b ?l ?u = Some ?x" "body_merge ?b ?l ?u = Some ?x"
    using three_way_merge.one_sided [OF assms(1)] three_way_merge.one_sided [OF assms(2)] assms(5) by blast+
  have "\<not> breaks_parse parses ?l ?u ?x" by (simp add: breaks_parse_def)
  with merge_frontmatter_one_sided [OF assms(3-5), of line_merge] one show ?thesis
    unfolding merge_text_with_def Let_def by (elim disjE exE conjE) (simp_all split: if_splits)
qed

theorem merge_text_one_sided_witness:
  "merge_text_with flat_yaml (\<lambda>_. True) (Some (doc [CHR ''a'', CHR '':'', LF] ''x''))
     (doc [CHR ''a'', CHR '':'', CHR ''1'', LF] ''y'') (doc [CHR ''a'', CHR '':'', LF] ''x'') settle settle
   = Clean (doc [CHR ''a'', CHR '':'', CHR ''1'', LF] ''y'')"
proof -
  let ?b = "doc [CHR ''a'', CHR '':'', LF] ''x''" and ?l = "doc [CHR ''a'', CHR '':'', CHR ''1'', LF] ''y''"
  have lf: "to_lf ?b = ?b" "to_lf ?l = ?l" "?l \<noteq> ?b" by code_simp+
  have "duplicate_keys flat_yaml ?l = []" "duplicate_keys flat_yaml ?b = []" "delimiters ?l = delimiters ?b"
    by code_simp+
  then show ?thesis
    using merge_text_one_sided [OF st.three_way_merge_axioms st.three_way_merge_axioms, of flat_yaml ?l ?b ?b "\<lambda>_. True"]
      lf by simp
qed

text \<open>
  C22: one frontmatter key merges by value. Of blocks as \<open>key_blocks\<close> cuts them, what
  \<open>pick\<close> writes reads as the value both sides agree on, and as the other side's value
  when one side has the base's value; it refuses only when both sides differ from the
  base in text and from each other in value.
\<close>

theorem pick_three_way:
  assumes "\<forall>x \<in> set_option b \<union> set_option l \<union> set_option u. block_ok Y x"
  shows "case pick Y line_merge b l u of
      Inr r \<Rightarrow> (value_of l = value_of u \<longrightarrow> read_text Y r = value_of l)
        \<and> (value_of l = value_of b \<longrightarrow> read_text Y r = value_of u)
        \<and> (value_of u = value_of b \<longrightarrow> read_text Y r = value_of l)
    | Inl _ \<Rightarrow> text_of l \<noteq> text_of b \<and> text_of u \<noteq> text_of b \<and> value_of l \<noteq> value_of u"
  using pick_reading [OF assms] pick_conflict [OF assms] by (auto split: sum.split)

theorem pick_three_way_witness:
  "case pick flat_yaml settle
      (Some \<lparr>kb_key = ''a'', kb_parsed_key = ''a'', kb_text = ''a:1'', kb_value = ''1'', kb_line = 2\<rparr>)
      (Some \<lparr>kb_key = ''a'', kb_parsed_key = ''a'', kb_text = ''a:1'', kb_value = ''1'', kb_line = 2\<rparr>)
      (Some \<lparr>kb_key = ''a'', kb_parsed_key = ''a'', kb_text = ''a:2'', kb_value = ''2'', kb_line = 2\<rparr>) of
    Inr r \<Rightarrow> read_text flat_yaml r = Some ''2'' | Inl _ \<Rightarrow> False"
proof -
  let ?b = "\<lparr>kb_key = ''a'', kb_parsed_key = ''a'', kb_text = ''a:1'', kb_value = ''1'', kb_line = 2\<rparr>"
  let ?u = "\<lparr>kb_key = ''a'', kb_parsed_key = ''a'', kb_text = ''a:2'', kb_value = ''2'', kb_line = 2\<rparr>"
  have "block_ok flat_yaml ?b" "block_ok flat_yaml ?u" by code_simp+
  then show ?thesis
    using pick_three_way [of "Some ?b" "Some ?b" "Some ?u" flat_yaml settle]
    by (auto simp: value_of_def split: sum.splits)
qed

text \<open>
  Collapsing repeated keys loses no key and no value. A collapsed source is the
  original with one copy of every key, in a selection of the original blocks: no key
  repeats, every key with its value is still there, and it parses.
\<close>

theorem collapse_keeps_every_key:
  assumes "collapse_duplicate_keys Y parses source reference = Collapsed t"
  shows "\<exists>p k kept. split_frontmatter source = Some p \<and> key_blocks Y (fp_yaml p) = Some k
    \<and> t = rebuild p (kc_preamble k) kept \<and> set kept \<subseteq> set (kc_blocks k)
    \<and> distinct (map kb_parsed_key kept)
    \<and> (\<lambda>b. (kb_parsed_key b, kb_value b)) ` set kept = (\<lambda>b. (kb_parsed_key b, kb_value b)) ` set (kc_blocks k)
    \<and> parses t"
proof -
  obtain p k where pk: "split_frontmatter source = Some p" "key_blocks Y (fp_yaml p) = Some k"
    using assms by (auto simp: collapse_duplicate_keys_def split: option.splits)
  have agree: "\<forall>d \<in> set (repeats (kc_blocks k)). dk_same_value d"
    using assms pk by (auto simp: collapse_duplicate_keys_def Let_def split: if_splits)
  obtain kp where t: "t = rebuild p (kc_preamble k) (without_repeats (kc_blocks k) kp)" "parses t"
    using assms pk by (auto simp: collapse_duplicate_keys_def Let_def split: if_splits)
  let ?kept = "without_repeats (kc_blocks k) kp"
  note sub = without_repeats_set [of "kc_blocks k" kp] and keys = without_repeats_keys [of "kc_blocks k" kp]
  have "(\<lambda>b. (kb_parsed_key b, kb_value b)) ` set (kc_blocks k) \<subseteq> (\<lambda>b. (kb_parsed_key b, kb_value b)) ` set ?kept"
  proof
    fix kv assume "kv \<in> (\<lambda>b. (kb_parsed_key b, kb_value b)) ` set (kc_blocks k)"
    then obtain b where b: "b \<in> set (kc_blocks k)" "kv = (kb_parsed_key b, kb_value b)" by blast
    then have "kb_parsed_key b \<in> set (keys_of ?kept)" using keys by simp
    then obtain c where c: "c \<in> set ?kept" "same_key b c" by (auto simp: same_key_def)
    then have "kb_value b = kb_value c" using copies_agree [OF agree b(1)] sub by blast
    with b c show "kv \<in> (\<lambda>b. (kb_parsed_key b, kb_value b)) ` set ?kept"
      by (auto simp: same_key_def intro!: image_eqI [of _ _ c])
  qed
  then show ?thesis using pk t sub keys by (intro exI [of _ p] exI [of _ k] exI [of _ ?kept]) auto
qed

theorem collapse_keeps_every_key_witness:
  "collapse_duplicate_keys flat_yaml (\<lambda>_. True)
     (doc [CHR ''a'', CHR '':'', LF, CHR ''b'', CHR '':'', LF, CHR ''a'', CHR '':'', LF] []) None
   = Collapsed (doc [CHR ''a'', CHR '':'', LF, CHR ''b'', CHR '':'', LF] [])
   \<and> (\<exists>kept. distinct (map kb_parsed_key (kept :: string key_block list)))"
proof -
  let ?s = "doc [CHR ''a'', CHR '':'', LF, CHR ''b'', CHR '':'', LF, CHR ''a'', CHR '':'', LF] []"
  have e: "collapse_duplicate_keys flat_yaml (\<lambda>_. True) ?s None
      = Collapsed (doc [CHR ''a'', CHR '':'', LF, CHR ''b'', CHR '':'', LF] [])" by code_simp
  from collapse_keeps_every_key [OF e] e show ?thesis by blast
qed

end
