(* ===== verification/RemoteMerge.thy ===== *)
theory RemoteMerge
  imports FrontmatterMerge
begin

text \<open>
  \<open>crates/remote/src/merge.rs\<close>: the decision of a pull for one file, from its content
  at the common base, in the working tree and upstream (\<open>None\<close> where it is absent).
  The shapes the code calls unreachable are the result \<open>None\<close>. diffy's line merge is the
  argument \<open>line_merge\<close>. What the decision leaves in the working tree is a three-way merge
  of whole files, which interprets the contract of \<open>FrontmatterMerge\<close>.
\<close>

datatype conflict_kind = EditEdit | EditDelete | DeleteEdit | AddAdd

datatype file_merge =
    Apply string
  | Delete
  | Converged
  | Conflict conflict_kind

definition from_utf8 :: "string \<Rightarrow> string option" where
  "from_utf8 bytes = (if valid_up_to bytes = length bytes then Some bytes else None)"

definition attempt_text_merge ::
  "'v yaml_lib \<Rightarrow> (string \<Rightarrow> bool) \<Rightarrow> line_merge \<Rightarrow> string option \<Rightarrow> string \<Rightarrow> string
     \<Rightarrow> conflict_kind \<Rightarrow> file_merge" where
  "attempt_text_merge Y parses line_merge ancestor local upstream kind =
     (case (from_utf8 local, from_utf8 upstream) of
        (Some local, Some upstream) \<Rightarrow>
          (case map_option from_utf8 ancestor of
             Some None \<Rightarrow> Conflict kind
           | Some (Some text) \<Rightarrow>
               (case merge_text Y parses (Some text) local upstream line_merge of
                  Clean merged \<Rightarrow> Apply merged | TextConflict \<Rightarrow> Conflict kind)
           | None \<Rightarrow>
               (case merge_text Y parses None local upstream line_merge of
                  Clean merged \<Rightarrow> Apply merged | TextConflict \<Rightarrow> Conflict kind))
      | _ \<Rightarrow> Conflict kind)"

definition merge_file ::
  "'v yaml_lib \<Rightarrow> (string \<Rightarrow> bool) \<Rightarrow> line_merge \<Rightarrow> string option \<Rightarrow> string option \<Rightarrow> string option
     \<Rightarrow> file_merge option" where
  "merge_file Y parses line_merge base local upstream =
     (if local = upstream then Some Converged
      else if upstream = base then Some Converged
      else if local = base then
        Some (case upstream of Some bytes \<Rightarrow> Apply bytes | None \<Rightarrow> Delete)
      else (case (base, local, upstream) of
              (Some _, None, Some _) \<Rightarrow> Some (Conflict DeleteEdit)
            | (Some _, Some _, None) \<Rightarrow> Some (Conflict EditDelete)
            | (None, Some l, Some u) \<Rightarrow>
                Some (attempt_text_merge Y parses line_merge None l u AddAdd)
            | (Some b, Some l, Some u) \<Rightarrow>
                Some (attempt_text_merge Y parses line_merge (Some b) l u EditEdit)
            | _ \<Rightarrow> None))"

text \<open>What the decision leaves in the working tree, \<open>None\<close> for a recorded conflict.\<close>

definition landed :: "string option \<Rightarrow> file_merge \<Rightarrow> string option option" where
  "landed local m =
     (case m of Apply bytes \<Rightarrow> Some (Some bytes) | Delete \<Rightarrow> Some None
      | Converged \<Rightarrow> Some local | Conflict _ \<Rightarrow> None)"

definition pulled ::
  "'v yaml_lib \<Rightarrow> (string \<Rightarrow> bool) \<Rightarrow> line_merge \<Rightarrow> string option \<Rightarrow> string option \<Rightarrow> string option
     \<Rightarrow> string option option" where
  "pulled Y parses line_merge base local upstream =
     (case merge_file Y parses line_merge base local upstream of
        Some m \<Rightarrow> landed local m | None \<Rightarrow> None)"

interpretation pull: three_way_merge "pulled Y parses line_merge" for Y parses line_merge
  by unfold_locales (auto simp: pulled_def merge_file_def landed_def split: option.split)

lemma merge_file_total: "merge_file Y parses line_merge base local upstream \<noteq> None"
  by (auto simp: merge_file_def split: option.split)

lemma attempt_cases:
  "attempt_text_merge Y parses lm a l u kind = Conflict kind \<or>
   (\<exists>t. attempt_text_merge Y parses lm a l u kind = Apply t \<and> merge_text Y parses a l u lm = Clean t)"
  by (auto simp: attempt_text_merge_def from_utf8_def split: option.splits merged_text.splits if_splits)

lemma merge_text_parses:
  "merge_text Y parses a l u lm = Clean t \<Longrightarrow> parses (to_lf l) \<Longrightarrow> parses (to_lf u) \<Longrightarrow> parses t"
  unfolding merge_text_def merge_text_with_def Let_def
  by (auto simp: breaks_parse_def split: option.splits if_splits)

section \<open>Properties\<close>

text \<open>
  C21: the decision never reaches a shape the code calls unreachable, a change only one
  side made is what lands, byte for byte and binary files included, and a conflict means
  both sides moved away from the base and from each other; its kind says on which sides
  the file is there.
\<close>

theorem merge_file_three_way:
  "\<exists>m. merge_file Y parses line_merge base local upstream = Some m
    \<and> (local = base \<longrightarrow> landed local m = Some upstream)
    \<and> (upstream = base \<or> local = upstream \<longrightarrow> landed local m = Some local \<and> m = Converged)
    \<and> (\<forall>k. m = Conflict k \<longrightarrow> local \<noteq> base \<and> upstream \<noteq> base \<and> local \<noteq> upstream
         \<and> k = (case (base, local, upstream) of
                  (Some _, None, _) \<Rightarrow> DeleteEdit | (Some _, Some _, None) \<Rightarrow> EditDelete
                | (None, _, _) \<Rightarrow> AddAdd | (Some _, Some _, Some _) \<Rightarrow> EditEdit))"
proof -
  obtain m where m: "merge_file Y parses line_merge base local upstream = Some m"
    using merge_file_total [of Y parses line_merge base local upstream] by blast
  then have p: "pulled Y parses line_merge base local upstream = landed local m" by (simp add: pulled_def)
  have one: "landed local m = Some upstream" if "local = base"
    using pull.local_unchanged [of Y parses line_merge base upstream] p that by simp
  have two: "m = Converged" if "upstream = base \<or> local = upstream"
    using m that by (auto simp: merge_file_def split: if_splits)
  have three: "local \<noteq> base \<and> upstream \<noteq> base \<and> local \<noteq> upstream" if "m = Conflict k" for k
    using pull.conflict_needs_both [of Y parses line_merge base local upstream] p that by (simp add: landed_def)
  have kind: "k = (case (base, local, upstream) of
                  (Some _, None, _) \<Rightarrow> DeleteEdit | (Some _, Some _, None) \<Rightarrow> EditDelete
                | (None, _, _) \<Rightarrow> AddAdd | (Some _, Some _, Some _) \<Rightarrow> EditEdit)" if c: "m = Conflict k" for k
  proof -
    have att: "attempt_text_merge Y parses line_merge a l u k' = Conflict k \<Longrightarrow> k = k'" for a l u k'
      using attempt_cases [of Y parses line_merge a l u k'] by auto
    show ?thesis
      using m c three [OF c] by (auto simp: merge_file_def dest: att split: option.splits)
  qed
  have conv: "landed local Converged = Some local" by (simp add: landed_def)
  have four: "upstream = base \<or> local = upstream \<longrightarrow> landed local m = Some local \<and> m = Converged"
    using two conv by blast
  have five: "\<forall>k. m = Conflict k \<longrightarrow> local \<noteq> base \<and> upstream \<noteq> base \<and> local \<noteq> upstream
         \<and> k = (case (base, local, upstream) of
                  (Some _, None, _) \<Rightarrow> DeleteEdit | (Some _, Some _, None) \<Rightarrow> EditDelete
                | (None, _, _) \<Rightarrow> AddAdd | (Some _, Some _, Some _) \<Rightarrow> EditEdit)"
    using three kind by blast
  from m one four five show ?thesis by blast
qed

theorem merge_file_three_way_witness:
  "\<exists>m. merge_file flat_yaml (\<lambda>t. t \<noteq> []) settle (Some ''a'') (Some ''a'') (Some [CHR 0xFF]) = Some m
    \<and> landed (Some ''a'') m = Some (Some [CHR 0xFF])"
proof -
  have "(Some ''a'' :: string option) = Some ''a''" by simp
  then show ?thesis
    using merge_file_three_way [of flat_yaml "\<lambda>t. t \<noteq> []" settle "Some ''a''" "Some ''a''" "Some [CHR 0xFF]"] by blast
qed

text \<open>
  C28: a text merge never makes a parseable file unparseable. When both sides have the
  file, differ from the base and from each other, and what the pull writes is not one of
  them taken whole, it is the clean result of the text merge, and it parses whenever
  both sides do.
\<close>

theorem merge_file_keeps_parsing:
  assumes "merge_file Y parses line_merge base (Some l) (Some u) = Some (Apply t)"
    and "parses (to_lf l)" "parses (to_lf u)"
  shows "t = u \<and> base = Some l \<or> parses t \<and> merge_text Y parses base l u line_merge = Clean t"
proof (cases "base = Some l")
  case True
  then show ?thesis using assms(1) by (auto simp: merge_file_def split: if_splits)
next
  case False
  have att: "attempt_text_merge Y parses line_merge a l u k = Apply t \<Longrightarrow> merge_text Y parses a l u line_merge = Clean t"
    for a k using attempt_cases [of Y parses line_merge a l u k] by auto
  have "merge_text Y parses base l u line_merge = Clean t"
    using assms(1) False by (auto simp: merge_file_def dest: att split: option.splits if_splits)
  then show ?thesis using merge_text_parses assms(2,3) by blast
qed

theorem merge_file_keeps_parsing_witness:
  "merge_file flat_yaml (\<lambda>t. t \<noteq> []) settle (Some (doc [CHR ''a'', CHR '':'', LF] ''x''))
       (Some (doc [CHR ''a'', CHR '':'', CHR ''1'', LF] ''x'')) (Some (doc [CHR ''a'', CHR '':'', LF] ''y''))
     = Some (Apply (doc [CHR ''a'', CHR '':'', CHR ''1'', LF] ''y''))
   \<and> doc [CHR ''a'', CHR '':'', CHR ''1'', LF] ''y'' \<noteq> []"
proof -
  let ?b = "doc [CHR ''a'', CHR '':'', LF] ''x''" and ?l = "doc [CHR ''a'', CHR '':'', CHR ''1'', LF] ''x''"
    and ?u = "doc [CHR ''a'', CHR '':'', LF] ''y''" and ?t = "doc [CHR ''a'', CHR '':'', CHR ''1'', LF] ''y''"
  have m: "merge_file flat_yaml (\<lambda>t. t \<noteq> []) settle (Some ?b) (Some ?l) (Some ?u) = Some (Apply ?t)" by code_simp
  have "to_lf ?l \<noteq> []" "to_lf ?u \<noteq> []" "?t \<noteq> ?u" by code_simp+
  with merge_file_keeps_parsing [OF m] m show ?thesis by blast
qed

end
