(* ===== verification/CollabMerge.thy ===== *)
theory CollabMerge
  imports FrontmatterMerge "HOL-Library.Word"
begin

text \<open>
  \<open>crates/engine/src/collab/merge.rs\<close>: merging an external change into a live co-editing
  session. \<open>three_way\<close> is the frontmatter merge with a finer merge of the body:
  \<open>row_merge\<close>, the cell-by-cell fallback for table rows, over lines as byte strings;
  \<open>apply_target\<close> morphs the live text into the merged one. For the latter a text is the
  list of its scalar values, since positions are counted in UTF-16 units, in a \<open>u32\<close> that
  wraps as it does in a release build. The libraries are parameters: diffy's line merge,
  similar's line diff \<open>diff\<close> (its contract is \<open>tiles\<close>, and \<open>in_blocks\<close> for \<open>apply_target\<close>) and
  ratio, the grapheme segmentation (\<open>segmenter_ok\<close>) and the live text's operations, which may
  panic (\<open>None\<close>) but not on the edits \<open>text_ops_ok\<close> names: inserts between scalar values and
  removals of whole grapheme clusters. The \<open>f32\<close> ratio is any linear order.
\<close>

datatype diff_op =
    Equal nat nat nat
  | Delete nat nat nat
  | Insert nat nat nat
  | Replace nat nat nat nat

definition range_of :: "'a list \<Rightarrow> nat \<Rightarrow> nat \<Rightarrow> 'a list" where
  "range_of xs at len = take len (drop at xs)"

section \<open>Table rows\<close>

text \<open>Split at every pipe not preceded by a backslash.\<close>

fun split_cells_loop :: "char option \<Rightarrow> string \<Rightarrow> string \<Rightarrow> string list" where
  "split_cells_loop prev piece [] = [piece]"
| "split_cells_loop prev piece (c # cs) =
     (if c = CHR ''|'' \<and> prev \<noteq> Some CHR 0x5C
      then piece # split_cells_loop (Some c) [] cs
      else split_cells_loop (Some c) (piece @ [c]) cs)"

definition split_cells :: "string \<Rightarrow> string list" where
  "split_cells s = split_cells_loop None [] s"

definition has_unescaped_pipe :: "string \<Rightarrow> bool" where
  "has_unescaped_pipe s \<longleftrightarrow> 1 < length (split_cells s)"

definition cells :: "string \<Rightarrow> string list" where
  "cells trimmed =
     (let parts = split_cells trimmed;
          parts = (if starts_with ''|'' trimmed then tl parts else parts)
      in if 1 < length parts \<and> ends_with ''|'' trimmed \<and> \<not> ends_with [CHR 0x5C, CHR ''|''] trimmed
         then butlast parts else parts)"

definition delimiter_cell :: "string \<Rightarrow> bool" where
  "delimiter_cell cell =
     (let cell = trim cell;
          cell = (case strip_prefix '':'' cell of Some c \<Rightarrow> c | None \<Rightarrow> cell);
          cell = (case strip_suffix '':'' cell of Some c \<Rightarrow> c | None \<Rightarrow> cell)
      in cell \<noteq> [] \<and> list_all (\<lambda>c. c = CHR ''-'') cell)"

definition is_delimiter :: "string \<Rightarrow> bool" where
  "is_delimiter trimmed \<longleftrightarrow>
     has_unescaped_pipe trimmed \<and> cells trimmed \<noteq> [] \<and> list_all delimiter_cell (cells trimmed)"

definition indent_allows_fence :: "string \<Rightarrow> bool" where
  "indent_allows_fence line \<longleftrightarrow>
     (let lead = take (length line - length (trim_start line)) line
      in CHR 0x09 \<notin> set lead \<and> length lead < 4)"

definition starts_a_block :: "string \<Rightarrow> bool" where
  "starts_a_block trimmed =
     (let spaced = (\<lambda>at. at \<ge> length trimmed \<or> trimmed ! at = CHR '' '' \<or> trimmed ! at = CHR 0x09)
      in case trimmed of
           [] \<Rightarrow> False
         | c # _ \<Rightarrow>
             if c = CHR ''>'' \<or> c = CHR ''<'' then True
             else if c = CHR ''#'' then
               (let hashes = length (takeWhile (\<lambda>c. c = CHR ''#'') trimmed)
                in hashes \<le> 6 \<and> spaced hashes)
             else if c = CHR ''-'' \<or> c = CHR ''*'' \<or> c = CHR ''+'' then spaced 1
             else if is_ascii_digit c then
               (let digits = length (takeWhile is_ascii_digit trimmed)
                in digits \<le> 9 \<and> digits < length trimmed
                   \<and> (trimmed ! digits = CHR ''.'' \<or> trimmed ! digits = CHR '')'')
                   \<and> spaced (digits + 1))
             else False)"

definition row_shaped :: "string \<Rightarrow> bool" where
  "row_shaped line \<longleftrightarrow>
     (let trimmed = trim line
      in \<not> (starts_with ''    '' line \<or> starts_with [CHR 0x09] line)
         \<and> has_unescaped_pipe trimmed \<and> \<not> starts_a_block trimmed)"

record fence =
  fn_char :: char
  fn_len :: nat

definition fence_opens :: "string \<Rightarrow> fence option" where
  "fence_opens trimmed =
     (case trimmed of
        [] \<Rightarrow> None
      | c # _ \<Rightarrow>
          if c \<noteq> CHR 0x60 \<and> c \<noteq> CHR ''~'' then None
          else (let len = length (takeWhile (\<lambda>x. x = c) trimmed);
                    info = drop len trimmed
                in if 3 \<le> len \<and> \<not> (c = CHR 0x60 \<and> CHR 0x60 \<in> set info)
                   then Some \<lparr>fn_char = c, fn_len = len\<rparr> else None))"

definition fence_closes :: "fence \<Rightarrow> string \<Rightarrow> bool" where
  "fence_closes open trimmed \<longleftrightarrow>
     (let len = length (takeWhile (\<lambda>x. x = fn_char open) trimmed)
      in fn_len open \<le> len \<and> len = length trimmed)"

datatype row = Data | Delimiter | Other

fun table_rows_loop :: "fence option \<Rightarrow> bool \<Rightarrow> string list \<Rightarrow> row list" where
  "table_rows_loop fence in_table [] = []"
| "table_rows_loop fence in_table (line # rest) =
     (let content = trim_end_char LF line;
          trimmed = trim content;
          fence_indent = indent_allows_fence content
      in case fence of
           Some open \<Rightarrow>
             Other # table_rows_loop
               (if fence_indent \<and> fence_closes open trimmed then None else fence) in_table rest
         | None \<Rightarrow>
             (case (if fence_indent then fence_opens trimmed else None) of
                Some open \<Rightarrow> Other # table_rows_loop (Some open) False rest
              | None \<Rightarrow>
                  if \<not> row_shaped content then Other # table_rows_loop None False rest
                  else (let opens =
                              (case rest of
                                 [] \<Rightarrow> False
                               | next # _ \<Rightarrow>
                                   (let next = trim_end_char LF next
                                    in row_shaped next \<and> is_delimiter (trim next)
                                       \<and> length (cells (trim next)) = length (cells trimmed)));
                            in_table = in_table \<or> opens
                        in (if in_table
                            then (if is_delimiter trimmed then Delimiter else Data) else Other)
                           # table_rows_loop None in_table rest)))"

definition table_rows :: "string list \<Rightarrow> row list" where
  "table_rows lines = table_rows_loop None False lines"

section \<open>The cell merge\<close>

definition merge_cell :: "string \<Rightarrow> string \<Rightarrow> string \<Rightarrow> string option" where
  "merge_cell b m t = (if m = t \<or> t = b then Some m else if m = b then Some t else None)"

fun merge_cells :: "string list \<Rightarrow> string list \<Rightarrow> string list \<Rightarrow> string list option" where
  "merge_cells (b # bs) (m # ms) (t # ts) =
     (case merge_cell b m t of
        None \<Rightarrow> None
      | Some c \<Rightarrow> map_option ((#) c) (merge_cells bs ms ts))"
| "merge_cells _ _ _ = Some []"

definition merge_row :: "string \<Rightarrow> string \<Rightarrow> string \<Rightarrow> string option" where
  "merge_row base mine theirs =
     (let ending = ends_with [LF]
      in if ending base \<noteq> ending mine \<or> ending base \<noteq> ending theirs then None
         else
           let b = split_cells (trim_end_char LF base);
               m = split_cells (trim_end_char LF mine);
               t = split_cells (trim_end_char LF theirs)
           in if length b \<noteq> length m \<or> length b \<noteq> length t then None
              else
                let changed = (\<lambda>side. filter (\<lambda>i. side ! i \<noteq> b ! i) [0..<length b]);
                    by_mine = changed m; by_theirs = changed t;
                    covers = (\<lambda>wide narrow. list_all (\<lambda>i. i \<in> set wide) narrow)
                in if (1 < length by_mine \<and> \<not> covers by_mine by_theirs)
                      \<or> (1 < length by_theirs \<and> \<not> covers by_theirs by_mine)
                   then None
                   else map_option (\<lambda>merged. join_with ''|'' merged @ (if ending base then [LF] else []))
                          (merge_cells b m t))"

section \<open>The row merge\<close>

definition FALLBACK_MARKER_LEN :: nat where "FALLBACK_MARKER_LEN = 64"
definition MAX_REPLACED_LINES :: nat where "MAX_REPLACED_LINES = 256"

definition marker_runs :: "string list" where
  "marker_runs = map (replicate FALLBACK_MARKER_LEN) [CHR ''<'', CHR ''|'', CHR ''='', CHR ''>'']"

definition starts_like_a_marker :: "string \<Rightarrow> bool" where
  "starts_like_a_marker line \<longleftrightarrow> list_ex (\<lambda>m. starts_with m line) marker_runs"

definition grapheme_ratio ::
  "(string \<Rightarrow> string list) \<Rightarrow> (string list \<Rightarrow> string list \<Rightarrow> diff_op list)
     \<Rightarrow> (diff_op list \<Rightarrow> nat \<Rightarrow> nat \<Rightarrow> 'r) \<Rightarrow> string \<Rightarrow> string \<Rightarrow> 'r" where
  "grapheme_ratio graphemes diff diff_ratio a b =
     diff_ratio (diff (graphemes a) (graphemes b)) (length (graphemes a)) (length (graphemes b))"

fun replaced_lines :: "diff_op list \<Rightarrow> nat list \<Rightarrow> nat list option" where
  "replaced_lines [] replaced = Some replaced"
| "replaced_lines (op # ops) replaced =
     (case op of
        Equal _ _ _ \<Rightarrow> replaced_lines ops replaced
      | Replace old_index old_len new_index new_len \<Rightarrow>
          if old_len = new_len \<and> old_index = new_index
          then replaced_lines ops (replaced @ [old_index..<old_index + old_len])
          else None
      | _ \<Rightarrow> None)"

definition replaces_in_place ::
  "(string list \<Rightarrow> string list \<Rightarrow> diff_op list) \<Rightarrow> (string \<Rightarrow> string \<Rightarrow> 'r::linorder)
     \<Rightarrow> string list \<Rightarrow> string list \<Rightarrow> bool" where
  "replaces_in_place diff ratio base side =
     (case replaced_lines (diff base side) [] of
        None \<Rightarrow> False
      | Some replaced \<Rightarrow>
          if MAX_REPLACED_LINES < length replaced then False
          else (let likeness = (\<lambda>b s. ratio (base ! b) (side ! s))
                in list_all (\<lambda>i.
                     let own = likeness i i
                     in list_all (\<lambda>j. own > likeness j i \<and> own > likeness i j)
                          (filter (\<lambda>j. j \<noteq> i) replaced)) replaced))"

text \<open>One line of the three texts with what it is on each side.\<close>

type_synonym line3 = "(string \<times> string \<times> string) \<times> (row \<times> row \<times> row)"

fun changed3 :: "line3 \<Rightarrow> bool" where
  "changed3 ((b, m, t), _) \<longleftrightarrow> m \<noteq> b \<or> t \<noteq> b"

definition side_ok :: "string \<Rightarrow> string \<Rightarrow> string \<Rightarrow> row \<Rightarrow> bool" where
  "side_ok b m t side =
     (case side of Data \<Rightarrow> True | Delimiter \<Rightarrow> m = b \<and> t = b | Other \<Rightarrow> False)"

fun merge_rows :: "line3 list \<Rightarrow> string option" where
  "merge_rows [] = Some []"
| "merge_rows (((b, m, t), (kb, km, kt)) # run) =
     (if \<not> (side_ok b m t kb \<and> side_ok b m t km \<and> side_ok b m t kt) then None
      else (case merge_row b m t of
              None \<Rightarrow> None
            | Some row \<Rightarrow> map_option ((@) row) (merge_rows run)))"

definition merge_run :: "line3 list \<Rightarrow> string option" where
  "merge_run run =
     (let mine_moved = list_ex (\<lambda>((b, m, t), _). m \<noteq> b) run;
          theirs_moved = list_ex (\<lambda>((b, m, t), _). t \<noteq> b) run
      in if \<not> theirs_moved \<or> list_all (\<lambda>((b, m, t), _). m = t) run
         then Some (concat (map (\<lambda>((b, m, t), _). m) run))
         else if \<not> mine_moved then Some (concat (map (\<lambda>((b, m, t), _). t) run))
         else merge_rows run)"

function merge_runs :: "line3 list \<Rightarrow> string option" where
  "merge_runs [] = Some []"
| "merge_runs (l # ls) =
     (if \<not> changed3 l then map_option ((@) (fst (fst l))) (merge_runs ls)
      else
        (case merge_run (takeWhile changed3 (l # ls)) of
           None \<Rightarrow> None
         | Some s \<Rightarrow> map_option ((@) s) (merge_runs (dropWhile changed3 (l # ls)))))"
  by pat_completeness auto
termination
  by (relation "measure length") (auto simp: length_dropWhile_le le_imp_less_Suc)

declare merge_runs.simps(2) [simp del]

definition row_merge ::
  "(string list \<Rightarrow> string list \<Rightarrow> diff_op list) \<Rightarrow> (string \<Rightarrow> string \<Rightarrow> 'r::linorder)
     \<Rightarrow> string \<Rightarrow> string \<Rightarrow> string \<Rightarrow> string option" where
  "row_merge diff ratio base mine theirs =
     (if list_ex (\<lambda>t. list_ex starts_like_a_marker (str_lines t)) [base, mine, theirs] then None
      else
        let b = split_inclusive LF base; m = split_inclusive LF mine; t = split_inclusive LF theirs
        in if \<not> replaces_in_place diff ratio b m \<or> \<not> replaces_in_place diff ratio b t then None
           else
             (case merge_runs (zip (zip b (zip m t)) (zip (table_rows b) (zip (table_rows m) (table_rows t)))) of
                None \<Rightarrow> None
              | Some merged \<Rightarrow>
                  if list_ex starts_like_a_marker (str_lines merged) then None else Some merged))"

definition body_merge ::
  "(string list \<Rightarrow> string list \<Rightarrow> diff_op list) \<Rightarrow> (string \<Rightarrow> string \<Rightarrow> 'r::linorder)
     \<Rightarrow> line_merge \<Rightarrow> line_merge" where
  "body_merge diff ratio line_merge base mine theirs =
     (case line_merge base mine theirs of
        Some merged \<Rightarrow> Some merged
      | None \<Rightarrow> row_merge diff ratio base mine theirs)"

definition three_way ::
  "'v yaml_lib \<Rightarrow> (string \<Rightarrow> bool) \<Rightarrow> line_merge \<Rightarrow> (string list \<Rightarrow> string list \<Rightarrow> diff_op list)
     \<Rightarrow> (string \<Rightarrow> string \<Rightarrow> 'r::linorder) \<Rightarrow> string \<Rightarrow> string \<Rightarrow> string \<Rightarrow> merged_text" where
  "three_way Y parses line_merge diff ratio base_file mine_session theirs_file =
     (let base = to_lf base_file; theirs = to_lf theirs_file; mine_session = to_lf mine_session
      in merge_text_with Y parses (Some base) mine_session theirs line_merge
           (body_merge diff ratio line_merge))"

section \<open>Morphing the live text\<close>

definition encode_scalar :: "nat \<Rightarrow> nat list" where
  "encode_scalar c =
     (if c < 0x10000 then [c]
      else [0xD800 + (c - 0x10000) div 0x400, 0xDC00 + (c - 0x10000) mod 0x400])"

definition encode_utf16 :: "nat list \<Rightarrow> nat list" where
  "encode_utf16 s = concat (map encode_scalar s)"

definition utf16 :: "nat list \<Rightarrow> 32 word" where
  "utf16 s = word_of_nat (length (encode_utf16 s))"

definition units :: "nat list list \<Rightarrow> 32 word" where
  "units slices = sum_list (map utf16 slices)"

text \<open>The live text: an edit answers the text after it, or \<open>None\<close> where yrs panics.\<close>

record 't text_ops =
  op_insert :: "'t \<Rightarrow> 32 word \<Rightarrow> nat list \<Rightarrow> 't option"
  op_remove_range :: "'t \<Rightarrow> 32 word \<Rightarrow> 32 word \<Rightarrow> 't option"

text \<open>A loop whose body may panic.\<close>

fun try_fold :: "('a \<Rightarrow> 's \<Rightarrow> 's option) \<Rightarrow> 'a list \<Rightarrow> 's \<Rightarrow> 's option" where
  "try_fold f [] s = Some s"
| "try_fold f (x # xs) s = Option.bind (f x s) (try_fold f xs)"

fun old_range :: "diff_op \<Rightarrow> nat \<times> nat" where
  "old_range (Equal oi ni len) = (oi, len)"
| "old_range (Delete oi ol ni) = (oi, ol)"
| "old_range (Insert oi ni nl) = (oi, 0)"
| "old_range (Replace oi ol ni nl) = (oi, ol)"

fun new_range :: "diff_op \<Rightarrow> nat \<times> nat" where
  "new_range (Equal oi ni len) = (ni, len)"
| "new_range (Delete oi ol ni) = (ni, 0)"
| "new_range (Insert oi ni nl) = (ni, nl)"
| "new_range (Replace oi ol ni nl) = (ni, nl)"

definition apply_line_op ::
  "'t text_ops \<Rightarrow> nat list list \<Rightarrow> nat list list \<Rightarrow> diff_op \<Rightarrow> 't \<times> 32 word \<Rightarrow> ('t \<times> 32 word) option" where
  "apply_line_op T old new op s =
     (let (text, pos) = s;
          old_part = range_of old (fst (old_range op)) (snd (old_range op));
          new_part = range_of new (fst (new_range op)) (snd (new_range op))
      in case op of
           Equal _ _ _ \<Rightarrow> Some (text, pos + units old_part)
         | _ \<Rightarrow>
             (let removed = units old_part;
                  inserted = concat new_part
              in Option.bind (if 0 < removed then op_remove_range T text pos removed else Some text)
                   (\<lambda>text. if inserted \<noteq> [] then map_option (\<lambda>text. (text, pos + utf16 inserted)) (op_insert T text pos inserted)
                      else Some (text, pos))))"

definition apply_line ::
  "'t text_ops \<Rightarrow> (nat list \<Rightarrow> nat list list) \<Rightarrow> (nat list list \<Rightarrow> nat list list \<Rightarrow> diff_op list)
     \<Rightarrow> nat list \<times> nat list \<Rightarrow> 't \<times> 32 word \<Rightarrow> ('t \<times> 32 word) option" where
  "apply_line T graphemes diff line s =
     (let old = graphemes (fst line); new = graphemes (snd line)
      in try_fold (apply_line_op T old new) (diff old new) s)"

definition insert_line :: "'t text_ops \<Rightarrow> nat list \<Rightarrow> 't \<times> 32 word \<Rightarrow> ('t \<times> 32 word) option" where
  "insert_line T line s =
     (let (text, pos) = s in map_option (\<lambda>text. (text, pos + utf16 line)) (op_insert T text pos line))"

definition apply_op ::
  "'t text_ops \<Rightarrow> (nat list \<Rightarrow> nat list list) \<Rightarrow> (nat list list \<Rightarrow> nat list list \<Rightarrow> diff_op list)
     \<Rightarrow> nat list list \<Rightarrow> nat list list \<Rightarrow> diff_op \<Rightarrow> 't \<times> 32 word \<Rightarrow> ('t \<times> 32 word) option" where
  "apply_op T graphemes diff old new op s =
     (let (text, pos) = s
      in case op of
           Equal old_index _ len \<Rightarrow> Some (text, pos + units (range_of old old_index len))
         | Delete old_index old_len _ \<Rightarrow>
             map_option (\<lambda>text. (text, pos)) (op_remove_range T text pos (units (range_of old old_index old_len)))
         | Insert _ new_index new_len \<Rightarrow> try_fold (insert_line T) (range_of new new_index new_len) s
         | Replace old_index old_len new_index new_len \<Rightarrow>
             (let from = range_of old old_index old_len; to = range_of new new_index new_len
              in if old_len = new_len then try_fold (apply_line T graphemes diff) (zip from to) s
                 else Option.bind (op_remove_range T text pos (units from))
                        (\<lambda>text. try_fold (insert_line T) to (text, pos))))"

definition apply_target ::
  "'t text_ops \<Rightarrow> (nat list \<Rightarrow> nat list list) \<Rightarrow> (nat list list \<Rightarrow> nat list list \<Rightarrow> diff_op list)
     \<Rightarrow> 't \<Rightarrow> nat list \<Rightarrow> nat list \<Rightarrow> 't option" where
  "apply_target T graphemes diff text current target =
     (let old = split_inclusive 10 current; new = split_inclusive 10 target
      in map_option fst (try_fold (apply_op T graphemes diff old new) (diff old new) (text, 0)))"

section \<open>Lemmas on cells\<close>

definition PIPE :: char where "PIPE = CHR ''|''"

lemma split_cells_loop_join: "join_with ''|'' (split_cells_loop prev piece s) = piece @ s"
proof (induction prev piece s rule: split_cells_loop.induct)
  case (2 prev piece c cs)
  have ne: "split_cells_loop p q r \<noteq> []" for p q r
    by (induction p q r rule: split_cells_loop.induct) auto
  from 2 show ?case by (auto simp: join_with_Cons ne)
qed simp

lemma split_cells_loop_nonempty: "split_cells_loop p q r \<noteq> []"
  by (induction p q r rule: split_cells_loop.induct) auto

lemma join_split_cells: "join_with ''|'' (split_cells s) = s"
  by (simp add: split_cells_def split_cells_loop_join)

text \<open>No unescaped pipe is left inside a cell, and every cell but the last ends where a pipe may stand.\<close>

definition no_open_pipe :: "string \<Rightarrow> bool" where
  "no_open_pipe s \<longleftrightarrow> (\<forall>a b. s = a @ CHR ''|'' # b \<longrightarrow> a \<noteq> [] \<and> last a = CHR 0x5C)"

definition ends_open :: "string \<Rightarrow> bool" where
  "ends_open s \<longleftrightarrow> s = [] \<or> last s \<noteq> CHR 0x5C"

text \<open>The state of the scan: the previous byte is the last of the piece, or a pipe, or nothing.\<close>

definition scan_ok :: "char option \<Rightarrow> string \<Rightarrow> bool" where
  "scan_ok prev piece \<longleftrightarrow>
     no_open_pipe piece \<and> (if piece = [] then prev \<noteq> Some CHR 0x5C else prev = Some (last piece))"

lemma no_open_pipe_snoc:
  "no_open_pipe (s @ [c]) \<longleftrightarrow> no_open_pipe s \<and> (c = CHR ''|'' \<longrightarrow> s \<noteq> [] \<and> last s = CHR 0x5C)"
proof (intro iffI conjI)
  assume a: "no_open_pipe (s @ [c])"
  then show "no_open_pipe s" unfolding no_open_pipe_def by (metis append.assoc append_Cons)
  show "c = CHR ''|'' \<longrightarrow> s \<noteq> [] \<and> last s = CHR 0x5C" using a unfolding no_open_pipe_def by blast
next
  assume "no_open_pipe s \<and> (c = CHR ''|'' \<longrightarrow> s \<noteq> [] \<and> last s = CHR 0x5C)"
  then show "no_open_pipe (s @ [c])"
    unfolding no_open_pipe_def by (auto simp: append_eq_append_conv2 append_eq_Cons_conv Cons_eq_append_conv)
qed

lemma split_cells_loop_form:
  "scan_ok prev piece \<Longrightarrow>
     list_all no_open_pipe (split_cells_loop prev piece s) \<and> list_all ends_open (butlast (split_cells_loop prev piece s))"
proof (induction prev piece s rule: split_cells_loop.induct)
  case (1 prev piece)
  then show ?case by (simp add: scan_ok_def)
next
  case (2 prev piece c cs)
  have ne: "split_cells_loop p q r \<noteq> []" for p q r
    by (induction p q r rule: split_cells_loop.induct) auto
  show ?case
  proof (cases "c = CHR ''|'' \<and> prev \<noteq> Some CHR 0x5C")
    case True
    have "scan_ok (Some c) []" using True by (simp add: scan_ok_def no_open_pipe_def)
    moreover have "no_open_pipe piece" "ends_open piece"
      using "2.prems" True by (auto simp: scan_ok_def ends_open_def split: if_splits)
    ultimately show ?thesis using True "2.IH"(1) ne by simp
  next
    case False
    have "scan_ok (Some c) (piece @ [c])"
      using "2.prems" False by (auto simp: scan_ok_def no_open_pipe_snoc split: if_splits)
    with False "2.IH"(2) have "list_all no_open_pipe (split_cells_loop (Some c) (piece @ [c]) cs)
        \<and> list_all ends_open (butlast (split_cells_loop (Some c) (piece @ [c]) cs))" by blast
    moreover have "split_cells_loop prev piece (c # cs) = split_cells_loop (Some c) (piece @ [c]) cs"
      using False by auto
    ultimately show ?thesis by simp
  qed
qed

lemma split_cells_form:
  "list_all no_open_pipe (split_cells s)" "list_all ends_open (butlast (split_cells s))"
  using split_cells_loop_form [of None "[]" s] by (simp_all add: split_cells_def scan_ok_def no_open_pipe_def)

text \<open>Cells of that form are found again.\<close>

lemma split_cells_loop_cell:
  assumes "no_open_pipe (piece @ x)" "scan_ok prev piece"
  shows "split_cells_loop prev piece x = [piece @ x]"
    and "ends_open (piece @ x) \<Longrightarrow>
       split_cells_loop prev piece (x @ CHR ''|'' # s) = (piece @ x) # split_cells_loop (Some CHR ''|'') [] s"
  using assms
proof (induction x arbitrary: prev piece)
  case Nil
  {
    case 1 then show ?case by simp
  next
    case 2 then show ?case by (auto simp: scan_ok_def ends_open_def split: if_splits)
  }
next
  case (Cons c x)
  have c: "\<not> (c = CHR ''|'' \<and> prev \<noteq> Some CHR 0x5C)" if "no_open_pipe (piece @ c # x)" "scan_ok prev piece"
    for prev piece
    using that unfolding no_open_pipe_def scan_ok_def by (cases "piece = []") auto
  have ok: "scan_ok (Some c) (piece @ [c])" if "no_open_pipe (piece @ c # x)" "scan_ok prev piece"
    for prev piece
    using that c [OF that] by (auto simp: scan_ok_def no_open_pipe_snoc split: if_splits)
  {
    case 1
    have "split_cells_loop prev piece (c # x) = split_cells_loop (Some c) (piece @ [c]) x"
      using c [OF 1] by auto
    then show ?case using Cons.IH(1) [of "piece @ [c]" "Some c"] ok [OF 1] 1 by simp
  next
    case 2
    have "split_cells_loop prev piece (c # x @ CHR ''|'' # s)
        = split_cells_loop (Some c) (piece @ [c]) (x @ CHR ''|'' # s)" using c [OF 2(2,3)] by auto
    then show ?case using Cons.IH(2) [of "piece @ [c]" "Some c"] ok [OF 2(2,3)] 2 by simp
  }
qed

lemma split_join_cells_loop:
  assumes "prev \<noteq> Some CHR 0x5C" "cs \<noteq> []" "list_all no_open_pipe cs" "list_all ends_open (butlast cs)"
  shows "split_cells_loop prev [] (join_with ''|'' cs) = cs"
  using assms
proof (induction cs arbitrary: prev)
  case (Cons c cs)
  have ok: "scan_ok prev []" using Cons.prems by (simp add: scan_ok_def no_open_pipe_def)
  show ?case
  proof (cases cs)
    case Nil
    then show ?thesis using split_cells_loop_cell(1) [of "[]" c prev] ok Cons.prems by simp
  next
    case (Cons d ds)
    have "split_cells_loop prev [] (c @ CHR ''|'' # join_with ''|'' cs)
        = c # split_cells_loop (Some CHR ''|'') [] (join_with ''|'' cs)"
      using split_cells_loop_cell(2) [of "[]" c prev] ok Cons.prems Cons by simp
    then show ?thesis using Cons.IH [of "Some CHR ''|''"] Cons.prems Cons by simp
  qed
qed simp

lemma split_join_cells:
  "cs \<noteq> [] \<Longrightarrow> list_all no_open_pipe cs \<Longrightarrow> list_all ends_open (butlast cs) \<Longrightarrow>
     split_cells (join_with ''|'' cs) = cs"
  unfolding split_cells_def by (rule split_join_cells_loop) auto

section \<open>Lemmas on the cell merge\<close>

text \<open>A line as \<open>split_inclusive\<close> cuts it: a newline only at its end.\<close>

definition one_line :: "string \<Rightarrow> bool" where
  "one_line t \<longleftrightarrow> LF \<notin> set (butlast t)"

lemma one_line_trim:
  assumes "one_line t"
  shows "trim_end_char LF t @ (if ends_with [LF] t then [LF] else []) = t" "LF \<notin> set (trim_end_char LF t)"
proof -
  consider "t = []" | s c where "t = s @ [c]" by (cases t rule: rev_cases) auto
  then have "trim_end_char LF t @ (if ends_with [LF] t then [LF] else []) = t \<and> LF \<notin> set (trim_end_char LF t)"
  proof cases
    case 1
    then show ?thesis by (simp add: trim_end_char_def ends_with_iff)
  next
    case 2
    then have s: "LF \<notin> set s" using assms by (simp add: one_line_def)
    then have "dropWhile (\<lambda>c. c = LF) (rev s) = rev s" by (cases s rule: rev_cases) auto
    then show ?thesis using 2 s by (auto simp: trim_end_char_def ends_with_iff)
  qed
  then show "trim_end_char LF t @ (if ends_with [LF] t then [LF] else []) = t" "LF \<notin> set (trim_end_char LF t)"
    by simp_all
qed

lemma one_line_split_inclusive: "l \<in> set (split_inclusive LF s) \<Longrightarrow> one_line l"
proof (induction s arbitrary: l)
  case (Cons c cs)
  show ?case
  proof (cases "c = LF")
    case True
    then show ?thesis using Cons by (auto simp: one_line_def)
  next
    case False
    then show ?thesis using Cons
      by (cases "split_inclusive LF cs") (auto simp: one_line_def split: if_splits)
  qed
qed simp

lemma merge_cells_Some:
  "length m = length b \<Longrightarrow> length t = length b \<Longrightarrow> merge_cells b m t = Some r \<longleftrightarrow>
     length r = length b \<and> (\<forall>i < length b. merge_cell (b ! i) (m ! i) (t ! i) = Some (r ! i))"
proof (induction b m t arbitrary: r rule: merge_cells.induct)
  case (1 b bs m ms t ts)
  then show ?case
    by (cases r) (auto simp: All_less_Suc2 split: option.splits)
qed auto

lemma merge_cell_sym: "merge_cell b m t = merge_cell b t m"
  by (auto simp: merge_cell_def)

lemma merge_cells_sym: "merge_cells b m t = merge_cells b t m"
  by (induction b m t rule: merge_cells.induct) (auto simp: merge_cell_sym split: option.split)

lemma merge_row_sym: "merge_row b m t = merge_row b t m"
  unfolding merge_row_def Let_def using merge_cells_sym by (auto simp: merge_cells_sym)

lemma merge_cell_Some:
  "merge_cell b m t = Some r \<longleftrightarrow> r = (if m = b then t else m) \<and> (m = b \<or> t = b \<or> m = t)"
  by (auto simp: merge_cell_def)

text \<open>What a merged row is: a row of as many cells, each merged by itself.\<close>

lemma merge_row_Some:
  assumes "merge_row b m t = Some r"
  defines "B \<equiv> split_cells (trim_end_char LF b)" and "M \<equiv> split_cells (trim_end_char LF m)"
    and "T \<equiv> split_cells (trim_end_char LF t)"
  obtains rs where "length M = length B" "length T = length B" "length rs = length B"
    "r = join_with ''|'' rs @ (if ends_with [LF] b then [LF] else [])"
    "\<forall>i < length B. rs ! i = (if M ! i = B ! i then T ! i else M ! i) \<and> (M ! i = B ! i \<or> T ! i = B ! i \<or> M ! i = T ! i)"
    "ends_with [LF] m = ends_with [LF] b" "ends_with [LF] t = ends_with [LF] b"
proof -
  have e: "ends_with [LF] m = ends_with [LF] b" "ends_with [LF] t = ends_with [LF] b"
    "length M = length B" "length T = length B"
    using assms(1) unfolding merge_row_def Let_def B_def M_def T_def by (auto split: if_splits)
  obtain rs where rs: "merge_cells B M T = Some rs" "r = join_with ''|'' rs @ (if ends_with [LF] b then [LF] else [])"
    using assms(1) unfolding merge_row_def Let_def B_def M_def T_def by (auto split: if_splits)
  have "length rs = length B" "\<forall>i < length B. merge_cell (B ! i) (M ! i) (T ! i) = Some (rs ! i)"
    using merge_cells_Some [OF e(3,4)] rs(1) by auto
  then show thesis using that [of rs] e rs(2) by (simp add: merge_cell_Some)
qed

lemma row_join: "one_line t \<Longrightarrow>
    join_with ''|'' (split_cells (trim_end_char LF t)) @ (if ends_with [LF] t then [LF] else []) = t"
  using one_line_trim(1) by (simp add: join_split_cells)

lemma merge_row_one_sided:
  assumes "merge_row b m t = Some r" "one_line m" "one_line t"
  shows "m = b \<Longrightarrow> r = t" "t = b \<Longrightarrow> r = m" "m = t \<Longrightarrow> r = m"
proof -
  let ?B = "split_cells (trim_end_char LF b)" and ?M = "split_cells (trim_end_char LF m)"
    and ?T = "split_cells (trim_end_char LF t)"
  obtain rs where rs: "length ?M = length ?B" "length ?T = length ?B" "length rs = length ?B"
    "r = join_with ''|'' rs @ (if ends_with [LF] b then [LF] else [])"
    "\<forall>i < length ?B. rs ! i = (if ?M ! i = ?B ! i then ?T ! i else ?M ! i) \<and> (?M ! i = ?B ! i \<or> ?T ! i = ?B ! i \<or> ?M ! i = ?T ! i)"
    "ends_with [LF] m = ends_with [LF] b" "ends_with [LF] t = ends_with [LF] b"
    using merge_row_Some [OF assms(1)] .
  { assume "m = b"
    then have "rs = ?T" using rs by (intro nth_equalityI) auto
    then show "r = t" using rs row_join [OF assms(3)] by simp }
  { assume "t = b"
    then have "rs = ?M" using rs by (intro nth_equalityI) (auto split: if_splits)
    then show "r = m" using rs row_join [OF assms(2)] by simp }
  { assume "m = t"
    then have "rs = ?M" using rs by (intro nth_equalityI) (auto split: if_splits)
    then show "r = m" using rs row_join [OF assms(2)] by simp }
qed

text \<open>Two rows of as many cells and the same ending merge whenever one side is unchanged.\<close>

definition same_shape :: "string \<Rightarrow> string \<Rightarrow> bool" where
  "same_shape a b \<longleftrightarrow> ends_with [LF] a = ends_with [LF] b
     \<and> length (split_cells (trim_end_char LF a)) = length (split_cells (trim_end_char LF b))"

lemma merge_row_unchanged:
  assumes "same_shape t b"
  shows "\<exists>r. merge_row b b t = Some r"
proof -
  let ?B = "split_cells (trim_end_char LF b)" and ?T = "split_cells (trim_end_char LF t)"
  have l: "length ?T = length ?B" "ends_with [LF] t = ends_with [LF] b" using assms by (simp_all add: same_shape_def)
  have "merge_cells ?B ?B ?T = Some ?T"
    using merge_cells_Some [of ?B ?B ?T] l by (simp add: merge_cell_def)
  then show ?thesis using l unfolding merge_row_def Let_def by simp
qed

lemma merge_row_both:
  assumes "same_shape m b"
  shows "\<exists>r. merge_row b m m = Some r"
proof -
  let ?B = "split_cells (trim_end_char LF b)" and ?M = "split_cells (trim_end_char LF m)"
  have l: "length ?M = length ?B" "ends_with [LF] m = ends_with [LF] b" using assms by (simp_all add: same_shape_def)
  have "merge_cells ?B ?M ?M = Some ?M"
    using merge_cells_Some [of ?M ?B ?M] l by (simp add: merge_cell_def)
  then show ?thesis using l unfolding merge_row_def Let_def by (simp add: list_all_iff)
qed

section \<open>Lemmas on the row merge\<close>

text \<open>similar's contract: the operations tile the old and the new slice in order.\<close>

fun tiles :: "nat \<Rightarrow> nat \<Rightarrow> 'a list \<Rightarrow> 'a list \<Rightarrow> diff_op list \<Rightarrow> bool" where
  "tiles i j old new [] \<longleftrightarrow> i = length old \<and> j = length new"
| "tiles i j old new (Equal oi ni len # ops) \<longleftrightarrow>
     oi = i \<and> ni = j \<and> i + len \<le> length old \<and> j + len \<le> length new
     \<and> range_of old i len = range_of new j len \<and> tiles (i + len) (j + len) old new ops"
| "tiles i j old new (Delete oi ol ni # ops) \<longleftrightarrow>
     oi = i \<and> ni = j \<and> i + ol \<le> length old \<and> tiles (i + ol) j old new ops"
| "tiles i j old new (Insert oi ni nl # ops) \<longleftrightarrow>
     oi = i \<and> ni = j \<and> j + nl \<le> length new \<and> tiles i (j + nl) old new ops"
| "tiles i j old new (Replace oi ol ni nl # ops) \<longleftrightarrow>
     oi = i \<and> ni = j \<and> i + ol \<le> length old \<and> j + nl \<le> length new
     \<and> tiles (i + ol) (j + nl) old new ops"

definition diff_ok :: "('a list \<Rightarrow> 'a list \<Rightarrow> diff_op list) \<Rightarrow> bool" where
  "diff_ok diff \<longleftrightarrow> (\<forall>old new. tiles 0 0 old new (diff old new))"

lemma replaced_lines_length:
  "tiles i i old new ops \<Longrightarrow> replaced_lines ops acc = Some r \<Longrightarrow> length old = length new"
proof (induction ops arbitrary: i acc)
  case (Cons op ops)
  then show ?case by (cases op) (auto split: if_splits)
qed simp

lemma in_place_length:
  "diff_ok diff \<Longrightarrow> replaces_in_place diff ratio b s \<Longrightarrow> length b = length s"
  unfolding diff_ok_def replaces_in_place_def
  by (auto split: option.splits dest: replaced_lines_length)

lemma length_table_rows: "length (table_rows ls) = length ls"
proof -
  have "length (table_rows_loop f i ls) = length ls" for f i
    by (induction ls arbitrary: f i) (simp_all add: Let_def split: option.split)
  then show ?thesis by (simp add: table_rows_def)
qed

text \<open>What one merged line is.\<close>

fun line_merged :: "line3 \<Rightarrow> string \<Rightarrow> bool" where
  "line_merged ((b, m, t), (kb, km, kt)) r \<longleftrightarrow>
     (if m = b then r = t else if t = b \<or> m = t then r = m
      else merge_row b m t = Some r \<and> kb = Data \<and> km = Data \<and> kt = Data)"

fun sides_one_line :: "line3 \<Rightarrow> bool" where
  "sides_one_line ((b, m, t), _) \<longleftrightarrow> one_line m \<and> one_line t"

lemma merge_rows_merged:
  "merge_rows run = Some s \<Longrightarrow> list_all sides_one_line run \<Longrightarrow>
     \<exists>rs. s = concat rs \<and> list_all2 line_merged run rs"
proof (induction run arbitrary: s rule: merge_rows.induct)
  case (2 b m t kb km kt run)
  from "2.prems"(1) obtain r s' where r: "merge_row b m t = Some r" "merge_rows run = Some s'" "s = r @ s'"
    and k: "side_ok b m t kb" "side_ok b m t km" "side_ok b m t kt"
    by (auto split: if_splits option.splits)
  have ok: "one_line m" "one_line t" "list_all sides_one_line run"
    using "2.prems"(2) by auto
  have "\<not> \<not> (side_ok b m t kb \<and> side_ok b m t km \<and> side_ok b m t kt)" using k by simp
  from "2.IH" [OF this r(1,2) ok(3)] obtain rs where rs: "s' = concat rs" "list_all2 line_merged run rs" by blast
  have "line_merged ((b, m, t), (kb, km, kt)) r"
    using merge_row_one_sided [OF r(1) ok(1,2)] r(1) k by (auto simp: side_ok_def split: row.splits)
  then show ?case using rs r(3) by (intro exI [of _ "r # rs"]) simp
qed simp

lemma merge_run_merged:
  assumes "merge_run run = Some s" "list_all sides_one_line run"
  shows "\<exists>rs. s = concat rs \<and> list_all2 line_merged run rs"
proof -
  let ?mm = "list_ex (\<lambda>((b, m, t), _). m \<noteq> b) run" and ?tm = "list_ex (\<lambda>((b, m, t), _). t \<noteq> b) run"
  consider "\<not> ?tm" | "list_all (\<lambda>((b, m, t), _). m = t) run"
    | "?tm" "\<not> list_all (\<lambda>((b, m, t), _). m = t) run" "\<not> ?mm"
    | "?tm" "\<not> list_all (\<lambda>((b, m, t), _). m = t) run" "?mm" by blast
  then show ?thesis
  proof cases
    case 1
    then have "list_all2 line_merged run (map (\<lambda>((b, m, t), _). m) run)"
      by (induction run) (auto split: if_splits)
    then show ?thesis using assms(1) 1 by (auto simp: merge_run_def Let_def)
  next
    case 2
    then have "list_all2 line_merged run (map (\<lambda>((b, m, t), _). m) run)"
      by (induction run) auto
    then show ?thesis using assms(1) 2 by (auto simp: merge_run_def Let_def)
  next
    case 3
    from 3(3) have "list_all2 line_merged run (map (\<lambda>((b, m, t), _). t) run)"
      by (induction run) auto
    then show ?thesis using assms(1) 3 by (auto simp: merge_run_def Let_def)
  next
    case 4
    then show ?thesis using assms merge_rows_merged by (auto simp: merge_run_def Let_def)
  qed
qed

lemma merge_runs_merged:
  "merge_runs ls = Some s \<Longrightarrow> list_all sides_one_line ls \<Longrightarrow>
     \<exists>rs. s = concat rs \<and> list_all2 line_merged ls rs"
proof (induction ls arbitrary: s rule: merge_runs.induct)
  case (2 l ls)
  show ?case
  proof (cases "changed3 l")
    case False
    obtain b m t k where l: "l = ((b, m, t), k)" by (metis prod.collapse)
    obtain s' where s': "merge_runs ls = Some s'" "s = b @ s'"
      using "2.prems"(1) False l by (auto simp: merge_runs.simps(2))
    obtain rs where rs: "s' = concat rs" "list_all2 line_merged ls rs"
      using "2.IH"(1) [OF False s'(1)] "2.prems"(2) by auto
    have "line_merged l b" using False l by (cases k) simp
    then show ?thesis using rs s'(2) by (intro exI [of _ "b # rs"]) simp
  next
    case True
    let ?run = "takeWhile changed3 (l # ls)" and ?rest = "dropWhile changed3 (l # ls)"
    obtain s1 s2 where s12: "merge_run ?run = Some s1" "merge_runs ?rest = Some s2" "s = s1 @ s2"
      using "2.prems"(1) True by (auto simp: merge_runs.simps(2) split: option.splits)
    have ok: "list_all sides_one_line ?run" "list_all sides_one_line ?rest"
      using "2.prems"(2) unfolding list_all_iff by (blast dest: set_takeWhileD set_dropWhileD)+
    obtain rs1 where rs1: "s1 = concat rs1" "list_all2 line_merged ?run rs1"
      using merge_run_merged [OF s12(1) ok(1)] by blast
    have "\<not> \<not> changed3 l" using True by simp
    from "2.IH"(2) [OF this s12(1,2) ok(2)]
    obtain rs2 where rs2: "s2 = concat rs2" "list_all2 line_merged ?rest rs2" by blast
    have "list_all2 line_merged (?run @ ?rest) (rs1 @ rs2)" using rs1(2) rs2(2) by (rule list_all2_appendI)
    then have "list_all2 line_merged (l # ls) (rs1 @ rs2)" unfolding takeWhile_dropWhile_id .
    then show ?thesis using rs1(1) rs2(1) s12(3) by (intro exI [of _ "rs1 @ rs2"]) simp
  qed
qed simp

section \<open>Lemmas on morphing\<close>

definition SLF :: nat where "SLF = 10"

text \<open>
  The segmenter's contract (UAX 29). Clusters are not empty and join to the text; a break
  always follows a line feed (rules GB4 and GB5); and whether a break stands between two
  clusters depends on these two alone, so clusters that stand next to each other in some
  text are cut apart again wherever they are put next to each other.
\<close>

definition neighbours :: "(nat list \<Rightarrow> nat list list) \<Rightarrow> nat list \<Rightarrow> nat list \<Rightarrow> bool" where
  "neighbours graphemes c d \<longleftrightarrow> (\<exists>s p q. graphemes s = p @ c # d # q)"

definition segmenter_ok :: "(nat list \<Rightarrow> nat list list) \<Rightarrow> bool" where
  "segmenter_ok graphemes \<longleftrightarrow>
     (\<forall>s. concat (graphemes s) = s \<and> [] \<notin> set (graphemes s))
     \<and> (\<forall>u v. u \<noteq> [] \<and> last u = SLF \<longrightarrow> graphemes (u @ v) = graphemes u @ graphemes v)
     \<and> (\<forall>cs. (\<forall>c\<in>set cs. \<exists>s. c \<in> set (graphemes s)) \<and> successively (neighbours graphemes) cs
          \<longrightarrow> graphemes (concat cs) = cs)"

text \<open>A removal of \<open>x\<close> between \<open>a\<close> and \<open>b\<close> that starts and ends at cluster breaks of the text.\<close>

definition whole_clusters :: "(nat list \<Rightarrow> nat list list) \<Rightarrow> nat list \<Rightarrow> nat list \<Rightarrow> nat list \<Rightarrow> bool" where
  "whole_clusters graphemes a x b \<longleftrightarrow>
     (\<exists>as xs bs. graphemes (a @ x @ b) = as @ xs @ bs \<and> concat as = a \<and> concat xs = x \<and> concat bs = b)"

abbreviation (input) ulen :: "nat list \<Rightarrow> nat" where "ulen s \<equiv> length (encode_utf16 s)"

text \<open>
  The live text's contract: its content is a sequence of UTF-16 units, fewer than 2 to the
  32; an insert puts a string's units between two scalar values, and a removal takes whole
  clusters out. Nothing is said of any other edit, on which yrs may panic.
\<close>

definition text_ops_ok :: "(nat list \<Rightarrow> nat list list) \<Rightarrow> ('t \<Rightarrow> nat list) \<Rightarrow> 't text_ops \<Rightarrow> bool" where
  "text_ops_ok graphemes content T \<longleftrightarrow>
     (\<forall>t a b s. content t = encode_utf16 (a @ b) \<and> ulen (a @ s @ b) < 2 ^ 32 \<longrightarrow>
        (\<exists>t'. op_insert T t (word_of_nat (ulen a)) s = Some t' \<and> content t' = encode_utf16 (a @ s @ b)))
     \<and> (\<forall>t a x b. content t = encode_utf16 (a @ x @ b) \<and> ulen (a @ x @ b) < 2 ^ 32 \<and> whole_clusters graphemes a x b \<longrightarrow>
        (\<exists>t'. op_remove_range T t (word_of_nat (ulen a)) (word_of_nat (ulen x)) = Some t' \<and> content t' = encode_utf16 (a @ b)))"

text \<open>similar's blocks: equal runs are not empty, and no two changes stand side by side.\<close>

definition is_equal :: "diff_op \<Rightarrow> bool" where
  "is_equal op = (case op of Equal _ _ len \<Rightarrow> True | _ \<Rightarrow> False)"

fun filled :: "diff_op \<Rightarrow> bool" where
  "filled (Equal _ _ len) = (0 < len)"
| "filled _ = True"

definition blocks :: "diff_op list \<Rightarrow> bool" where
  "blocks ops \<longleftrightarrow> list_all filled ops \<and> successively (\<lambda>a b. is_equal a \<or> is_equal b) ops"

definition in_blocks :: "('a list \<Rightarrow> 'a list \<Rightarrow> diff_op list) \<Rightarrow> bool" where
  "in_blocks diff \<longleftrightarrow> (\<forall>old new. blocks (diff old new))"

lemma encode_append [simp]: "encode_utf16 (a @ b) = encode_utf16 a @ encode_utf16 b"
  by (simp add: encode_utf16_def)

lemma encode_Nil [simp]: "encode_utf16 [] = []"
  by (simp add: encode_utf16_def)

lemma units_concat: "units ls = word_of_nat (ulen (concat ls))"
  by (induction ls) (simp_all add: units_def utf16_def)

lemma encode_pos: "s \<noteq> [] \<Longrightarrow> 0 < ulen s"
  by (cases s) (simp_all add: encode_utf16_def encode_scalar_def)

lemma units_pos: "ulen s < 2 ^ 32 \<Longrightarrow> (0 < (word_of_nat (ulen s) :: 32 word)) \<longleftrightarrow> s \<noteq> []"
proof -
  assume s: "ulen s < 2 ^ 32"
  have "(word_of_nat (ulen s) = (0 :: 32 word)) \<longleftrightarrow> ulen s = 0"
    using s by (auto simp: word_of_nat_eq_0_iff dest!: dvd_imp_le)
  then show ?thesis using encode_pos [of s] by (auto simp: word_gt_0)
qed

text \<open>The cursor stands between what is done and what is left: \<open>at_cursor\<close>.\<close>

definition at_cursor :: "('t \<Rightarrow> nat list) \<Rightarrow> nat list \<Rightarrow> nat list \<Rightarrow> 't \<times> 32 word \<Rightarrow> bool" where
  "at_cursor content done left s \<longleftrightarrow>
     content (fst s) = encode_utf16 (done @ left) \<and> snd s = word_of_nat (ulen done)"

lemma cursor_insert:
  assumes "text_ops_ok graphemes content T" "at_cursor content done left (t, pos)" "ulen done + ulen x + ulen left < 2 ^ 32"
  shows "\<exists>t'. op_insert T t pos x = Some t' \<and> at_cursor content (done @ x) left (t', pos + utf16 x)"
  using assms by (auto simp: text_ops_ok_def at_cursor_def utf16_def add.assoc)

lemma cursor_remove:
  assumes "text_ops_ok graphemes content T" "at_cursor content done (x @ left) (t, pos)"
    "ulen done + ulen x + ulen left < 2 ^ 32" "whole_clusters graphemes done x left"
  shows "\<exists>t'. op_remove_range T t pos (word_of_nat (ulen x)) = Some t' \<and> at_cursor content done left (t', pos)"
  using assms by (auto simp: text_ops_ok_def at_cursor_def add.assoc)

lemma cursor_skip:
  "at_cursor content done (x @ left) (t, pos) \<Longrightarrow>
     at_cursor content (done @ x) left (t, pos + word_of_nat (ulen x))"
  by (auto simp: at_cursor_def)

lemma cursor_insert_lines:
  "text_ops_ok graphemes content T \<Longrightarrow> at_cursor content done left s \<Longrightarrow>
     ulen done + ulen (concat ls) + ulen left < 2 ^ 32 \<Longrightarrow>
     \<exists>s'. try_fold (insert_line T) ls s = Some s' \<and> at_cursor content (done @ concat ls) left s'"
proof (induction ls arbitrary: "done" s)
  case (Cons l ls)
  obtain t pos where s: "s = (t, pos)" by fastforce
  obtain t' where t': "op_insert T t pos l = Some t'" "at_cursor content (done @ l) left (t', pos + utf16 l)"
    using cursor_insert [OF Cons.prems(1), of "done" left t pos l] Cons.prems(2,3) s by auto
  from Cons.IH [OF Cons.prems(1) t'(2)] Cons.prems(3) t'(1) show ?case
    by (simp add: insert_line_def s)
qed simp

lemma take_range: "j + n \<le> length xs \<Longrightarrow> take (j + n) xs = take j xs @ range_of xs j n"
  by (simp add: range_of_def take_add)

lemma drop_range: "i + n \<le> length xs \<Longrightarrow> drop i xs = range_of xs i n @ drop (i + n) xs"
  unfolding range_of_def by (metis append_take_drop_id drop_drop add.commute)

section \<open>Where a removal starts and ends\<close>

lemma segmenter_break:
  assumes "segmenter_ok g" "u = [] \<or> last u = SLF"
  shows "g (u @ v) = g u @ g v"
proof (cases "u = []")
  case True
  have "concat (g []) = []" "[] \<notin> set (g [])" using assms(1) unfolding segmenter_ok_def by blast+
  then have "g [] = []" by (cases "g []") auto
  then show ?thesis using True by simp
next
  case False
  then show ?thesis using assms unfolding segmenter_ok_def by blast
qed

lemma whole_lines:
  assumes "segmenter_ok g" "a = [] \<or> last a = SLF \<or> x @ b = []" "x = [] \<or> last x = SLF \<or> b = []"
  shows "whole_clusters g a x b"
proof -
  have c: "concat (g s) = s" for s using assms(1) unfolding segmenter_ok_def by blast
  have n: "g (u @ v) = g u @ g v" if "u = [] \<or> last u = SLF \<or> v = []" for u v
    using segmenter_break [OF assms(1), of u v] segmenter_break [OF assms(1), of "[]" "[]"] that by auto
  have "g (a @ x @ b) = g a @ g x @ g b" using n [of a "x @ b"] n [of x b] assms(2,3) by auto
  then show ?thesis unfolding whole_clusters_def using c by blast
qed

lemma neighbours_in: "successively (neighbours g) (g s)"
proof -
  have "successively (neighbours g) ys" if "g s = xs @ ys" for xs ys
    using that
  proof (induction ys arbitrary: xs)
    case (Cons c ys)
    show ?case
    proof (cases ys)
      case (Cons d ds)
      have "neighbours g c d" unfolding neighbours_def using Cons.prems local.Cons by blast
      then show ?thesis using Cons.IH [of "xs @ [c]"] Cons.prems local.Cons by simp
    qed simp
  qed simp
  then show ?thesis by (metis append_Nil)
qed

text \<open>Two lists cut at places where what stands before is the same, or nothing.\<close>

definition joined :: "nat \<Rightarrow> nat \<Rightarrow> 'a list \<Rightarrow> 'a list \<Rightarrow> bool" where
  "joined i j xs ys \<longleftrightarrow>
     i = 0 \<and> j = 0 \<or> 0 < i \<and> 0 < j \<and> i \<le> length xs \<and> j \<le> length ys \<and> xs ! (i - 1) = ys ! (j - 1)"

text \<open>New clusters up to a join and the old ones after it are the clusters of their text.\<close>

lemma mixed_clusters:
  assumes s: "segmenter_ok g" and j: "joined i j (g from) (g to)"
  shows "g (concat (take j (g to) @ drop i (g from))) = take j (g to) @ drop i (g from)"
proof -
  let ?a = "take j (g to)" and ?b = "drop i (g from)"
  have "successively (neighbours g) ?a" "successively (neighbours g) ?b"
    using neighbours_in [of g to] neighbours_in [of g "from"] successively_append_iff [of "neighbours g"]
    by (metis append_take_drop_id)+
  moreover have "neighbours g (last ?a) (hd ?b)" if ne: "?a \<noteq> []" "?b \<noteq> []"
  proof -
    have ij: "0 < i" "0 < j" "j \<le> length (g to)" "i < length (g from)" "g from ! (i - 1) = g to ! (j - 1)"
      using j ne by (auto simp: joined_def)
    have "last ?a = g from ! (i - 1)" using ij by (simp add: last_conv_nth [OF ne(1)] min_def)
    moreover have "hd ?b = g from ! i" using ij by (simp add: hd_drop_conv_nth)
    moreover have "g from = take (i - 1) (g from) @ g from ! (i - 1) # g from ! i # drop (Suc i) (g from)"
    proof -
      have "drop (i - 1) (g from) = g from ! (i - 1) # drop i (g from)"
        using Cons_nth_drop_Suc [of "i - 1" "g from"] ij(1,4) by simp
      moreover have "drop i (g from) = g from ! i # drop (Suc i) (g from)"
        using Cons_nth_drop_Suc [OF ij(4)] by simp
      ultimately show ?thesis by (metis append_take_drop_id)
    qed
    ultimately show ?thesis unfolding neighbours_def by metis
  qed
  ultimately have "successively (neighbours g) (?a @ ?b)" by (auto simp: successively_append_iff)
  moreover have "\<forall>c\<in>set (?a @ ?b). \<exists>s. c \<in> set (g s)"
    by (auto dest: in_set_takeD in_set_dropD)
  ultimately show ?thesis using s unfolding segmenter_ok_def by blast
qed

lemma whole_in_line:
  assumes s: "segmenter_ok g" and j: "joined i j (g from) (g to)"
    and D: "D = [] \<or> last D = SLF" and R: "R = [] \<or> from \<noteq> [] \<and> last from = SLF"
    and n: "0 < n" "i + n \<le> length (g from)"
  shows "whole_clusters g (D @ concat (take j (g to))) (concat (range_of (g from) i n)) (concat (drop (i + n) (g from)) @ R)"
proof -
  let ?b = "drop i (g from)" and ?M = "concat (take j (g to) @ drop i (g from))"
  have c: "concat (g x) = x" "[] \<notin> set (g x)" for x using s unfolding segmenter_ok_def by blast+
  have b: "?b = range_of (g from) i n @ drop (i + n) (g from)" by (rule drop_range [OF n(2)])
  have "?b \<noteq> []" using n by auto
  moreover have "last ?b \<noteq> []" using c(2) [of "from"] \<open>?b \<noteq> []\<close> by (metis in_set_dropD last_in_set)
  ultimately have ne: "concat ?b \<noteq> []" by (metis concat_eq_Nil_conv last_in_set)
  have "from = concat (take i (g from)) @ concat ?b" using c(1) by (metis append_take_drop_id concat_append)
  then have "last from = last (concat ?b)" using ne by (metis last_appendR)
  then have M: "R = [] \<or> last ?M = SLF" using R ne by auto
  have "g (D @ ?M @ R) = g D @ g (?M @ R)" by (rule segmenter_break [OF s D])
  moreover have "g (?M @ R) = g ?M @ g R"
    using M segmenter_break [OF s, of ?M R] segmenter_break [OF s, of "[]" "[]"] by auto
  ultimately have "g (D @ ?M @ R) = g D @ (take j (g to) @ range_of (g from) i n @ drop (i + n) (g from)) @ g R"
    using mixed_clusters [OF s j] b by simp
  moreover have "D @ ?M @ R = (D @ concat (take j (g to))) @ concat (range_of (g from) i n) @ concat (drop (i + n) (g from)) @ R"
    using b by simp
  ultimately show ?thesis unfolding whole_clusters_def
    using c(1) by (intro exI [of _ "g D @ take j (g to)"] exI [of _ "range_of (g from) i n"] exI [of _ "drop (i + n) (g from) @ g R"]) simp
qed

section \<open>One line\<close>

lemma tiles_le: "tiles i j old new ops \<Longrightarrow> i \<le> length old \<and> j \<le> length new"
proof (induction ops arbitrary: i j)
  case (Cons op ops)
  then show ?case by (cases op) fastforce+
qed simp

lemma tiles_change:
  "\<not> is_equal op \<Longrightarrow> tiles i j old new (op # ops) \<Longrightarrow>
     \<exists>m n. old_range op = (i, m) \<and> new_range op = (j, n) \<and> i + m \<le> length old \<and> j + n \<le> length new \<and> tiles (i + m) (j + n) old new ops"
  using tiles_le [of _ _ old new ops] by (cases op) (auto simp: is_equal_def)

lemma tiles_equal:
  "tiles i j old new (Equal oi ni len # ops) \<Longrightarrow> 0 < len \<Longrightarrow> joined (i + len) (j + len) old new"
proof -
  assume t: "tiles i j old new (Equal oi ni len # ops)" and l: "0 < len"
  then have "range_of old i len ! (len - 1) = range_of new j len ! (len - 1)" by simp
  then show ?thesis using t l by (auto simp: joined_def range_of_def)
qed

lemma ulen_cut: "j \<le> length xs \<Longrightarrow> ulen (concat (take j xs)) + ulen (concat (drop j xs)) = ulen (concat xs)"
  by (metis append_take_drop_id concat_append encode_append length_append)

lemma cursor_line_op:
  assumes T: "text_ops_ok g content T" and s: "segmenter_ok g"
    and t: "tiles i j (g from) (g to) (op # ops)" and op: "is_equal op \<or> joined i j (g from) (g to)" "filled op"
    and D: "D = [] \<or> last D = SLF" and R: "R = [] \<or> from \<noteq> [] \<and> last from = SLF"
    and B: "ulen D + ulen to + ulen from + ulen R < 2 ^ 32"
    and c: "at_cursor content (D @ concat (take j (g to))) (concat (drop i (g from)) @ R) st"
  shows "\<exists>st' i' j'. apply_line_op T (g from) (g to) op st = Some st' \<and> tiles i' j' (g from) (g to) ops
    \<and> at_cursor content (D @ concat (take j' (g to))) (concat (drop i' (g from)) @ R) st'
    \<and> (is_equal op \<longrightarrow> joined i' j' (g from) (g to))"
proof -
  obtain tx pos where st: "st = (tx, pos)" by fastforce
  show ?thesis
  proof (cases "is_equal op")
    case True
    then obtain oi ni len where Eq: "op = Equal oi ni len" by (auto simp: is_equal_def split: diff_op.splits)
    have e: "oi = i" "ni = j" "i + len \<le> length (g from)" "j + len \<le> length (g to)"
      "range_of (g from) i len = range_of (g to) j len" "tiles (i + len) (j + len) (g from) (g to) ops" using t Eq by auto
    have "at_cursor content ((D @ concat (take j (g to))) @ concat (range_of (g from) i len))
        (concat (drop (i + len) (g from)) @ R) (tx, pos + word_of_nat (ulen (concat (range_of (g from) i len))))"
      using c drop_range [OF e(3)] st by (intro cursor_skip) simp
    then have "at_cursor content (D @ concat (take (j + len) (g to))) (concat (drop (i + len) (g from)) @ R)
        (tx, pos + units (range_of (g from) i len))"
      using take_range [OF e(4)] e(5) by (simp add: units_concat)
    moreover have "joined (i + len) (j + len) (g from) (g to)" using tiles_equal t Eq op(2) by force
    ultimately show ?thesis using e Eq st by (auto simp: apply_line_op_def)
  next
    case False
    then obtain m n where mn: "old_range op = (i, m)" "new_range op = (j, n)" "i + m \<le> length (g from)"
      "j + n \<le> length (g to)" "tiles (i + m) (j + n) (g from) (g to) ops" using tiles_change [OF False t] by blast
    have j: "joined i j (g from) (g to)" using op False by blast
    let ?del = "concat (range_of (g from) i m)" and ?ins = "concat (range_of (g to) j n)"
      and ?rest = "concat (drop (i + m) (g from)) @ R" and ?done = "D @ concat (take j (g to))"
    have cc: "concat (g x) = x" for x using s unfolding segmenter_ok_def by blast
    have c': "at_cursor content ?done (?del @ ?rest) (tx, pos)" using c drop_range [OF mn(3)] st by simp
    have "ulen (concat (take j (g to))) + ulen ?ins \<le> ulen to"
      using ulen_cut [of "j + n" "g to"] mn(4) take_range [OF mn(4)] cc by simp
    moreover have "ulen ?del + ulen (concat (drop (i + m) (g from))) \<le> ulen from"
      using ulen_cut [of i "g from"] drop_range [OF mn(3)] mn(3) cc by simp
    ultimately have b: "ulen ?done + ulen ?ins + ulen ?del + ulen ?rest < 2 ^ 32" using B by simp
    have rm: "\<exists>t'. (if 0 < units (range_of (g from) i m) then op_remove_range T tx pos (units (range_of (g from) i m)) else Some tx) = Some t'
        \<and> at_cursor content ?done ?rest (t', pos)"
    proof (cases "?del = []")
      case True
      then have "units (range_of (g from) i m) = 0" by (simp add: units_concat del: concat_eq_Nil_conv)
      then show ?thesis using c' True by (simp del: concat_eq_Nil_conv)
    next
      case False
      then have "0 < m" by (cases m) (auto simp: range_of_def)
      then have w: "whole_clusters g ?done ?del ?rest" by (rule whole_in_line [OF s j D R _ mn(3)])
      have "0 < units (range_of (g from) i m)"
        using units_pos [of ?del] b False by (simp add: units_concat del: concat_eq_Nil_conv)
      then show ?thesis using cursor_remove [OF T c' _ w] b by (simp add: units_concat)
    qed
    then obtain t1 where t1: "(if 0 < units (range_of (g from) i m) then op_remove_range T tx pos (units (range_of (g from) i m)) else Some tx) = Some t1"
      "at_cursor content ?done ?rest (t1, pos)" by blast
    have eq: "apply_line_op T (g from) (g to) op st =
        Option.bind (if 0 < units (range_of (g from) i m) then op_remove_range T tx pos (units (range_of (g from) i m)) else Some tx)
          (\<lambda>text. if ?ins \<noteq> [] then map_option (\<lambda>text. (text, pos + utf16 ?ins)) (op_insert T text pos ?ins) else Some (text, pos))"
      using False mn(1,2) unfolding apply_line_op_def Let_def st
      by (cases op) (simp_all add: is_equal_def del: concat_eq_Nil_conv)
    have "\<exists>st'. apply_line_op T (g from) (g to) op st = Some st' \<and> at_cursor content (?done @ ?ins) ?rest st'"
    proof (cases "?ins = []")
      case True
      have "?done @ ?ins = ?done" unfolding True by simp
      then show ?thesis using eq t1 True by (simp del: concat_eq_Nil_conv)
    next
      case False
      then show ?thesis using eq t1 cursor_insert [OF T t1(2), of ?ins] b by (auto simp del: concat_eq_Nil_conv)
    qed
    moreover have "?done @ ?ins = D @ concat (take (j + n) (g to))" using take_range [OF mn(4)] by simp
    ultimately show ?thesis using mn(5) False by metis
  qed
qed

lemma blocks_Cons:
  "blocks (op # ops) \<Longrightarrow> filled op \<and> blocks ops \<and> (is_equal op \<or> ops = [] \<or> is_equal (hd ops))"
  by (cases ops) (auto simp: blocks_def)

lemma cursor_line_ops:
  assumes T: "text_ops_ok g content T" and s: "segmenter_ok g"
    and D: "D = [] \<or> last D = SLF" and R: "R = [] \<or> from \<noteq> [] \<and> last from = SLF"
    and B: "ulen D + ulen to + ulen from + ulen R < 2 ^ 32"
  shows "tiles i j (g from) (g to) ops \<Longrightarrow> blocks ops \<Longrightarrow> ops = [] \<or> is_equal (hd ops) \<or> joined i j (g from) (g to) \<Longrightarrow>
     at_cursor content (D @ concat (take j (g to))) (concat (drop i (g from)) @ R) st \<Longrightarrow>
     \<exists>st'. try_fold (apply_line_op T (g from) (g to)) ops st = Some st' \<and> at_cursor content (D @ to) R st'"
proof (induction ops arbitrary: i j st)
  case Nil
  have "concat (g to) = to" using s unfolding segmenter_ok_def by blast
  then show ?case using Nil by simp
next
  case (Cons op ops)
  note b = blocks_Cons [OF Cons.prems(2)]
  obtain st' i' j' where n: "apply_line_op T (g from) (g to) op st = Some st'" "tiles i' j' (g from) (g to) ops"
    "at_cursor content (D @ concat (take j' (g to))) (concat (drop i' (g from)) @ R) st'"
    "is_equal op \<longrightarrow> joined i' j' (g from) (g to)"
    using cursor_line_op [OF T s Cons.prems(1) _ _ D R B Cons.prems(4)] Cons.prems(3) b by auto
  from Cons.IH [OF n(2) _ _ n(3)] b n(1,4) show ?case by auto
qed

lemma cursor_line:
  assumes T: "text_ops_ok g content T" and s: "segmenter_ok g" and d: "diff_ok diff" "in_blocks diff"
    and D: "D = [] \<or> last D = SLF" and R: "R = [] \<or> from \<noteq> [] \<and> last from = SLF"
    and B: "ulen D + ulen to + ulen from + ulen R < 2 ^ 32"
    and c: "at_cursor content D (from @ R) st"
  shows "\<exists>st'. apply_line T g diff (from, to) st = Some st' \<and> at_cursor content (D @ to) R st'"
proof -
  have t: "tiles 0 0 (g from) (g to) (diff (g from) (g to))" and b: "blocks (diff (g from) (g to))"
    using d by (simp_all add: diff_ok_def in_blocks_def)
  have "concat (g from) = from" using s unfolding segmenter_ok_def by blast
  then show ?thesis
    using cursor_line_ops [OF T s D R B t b, of st] c by (simp add: apply_line_def Let_def joined_def)
qed

section \<open>The lines\<close>

definition lf_lines :: "nat list list \<Rightarrow> bool" where
  "lf_lines ls \<longleftrightarrow> (\<forall>k. Suc k < length ls \<longrightarrow> ls ! k \<noteq> [] \<and> last (ls ! k) = SLF)"

lemma lf_split_inclusive: "lf_lines (split_inclusive SLF s)"
proof (induction s)
  case (Cons c cs)
  show ?case
  proof (cases "c = SLF \<or> split_inclusive SLF cs = []")
    case True
    then show ?thesis using Cons by (auto simp: lf_lines_def nth_Cons split: nat.split list.splits)
  next
    case False
    then obtain l ls where l: "split_inclusive SLF cs = l # ls" by (cases "split_inclusive SLF cs") auto
    then have "split_inclusive SLF (c # cs) = (c # l) # ls" using False by simp
    then show ?thesis using Cons l by (auto simp: lf_lines_def nth_Cons split: nat.split)
  qed
qed (simp add: lf_lines_def)

lemma take_lf:
  "0 < j \<Longrightarrow> j \<le> length ls \<Longrightarrow> ls ! (j - 1) \<noteq> [] \<Longrightarrow> last (ls ! (j - 1)) = SLF \<Longrightarrow> last (concat (take j ls)) = SLF"
proof -
  assume a: "0 < j" "j \<le> length ls" "ls ! (j - 1) \<noteq> []" "last (ls ! (j - 1)) = SLF"
  then have "take j ls = take (j - 1) ls @ [ls ! (j - 1)]"
    using take_Suc_conv_app_nth [of "j - 1" ls] by simp
  then show ?thesis using a by simp
qed

lemma joined_lf:
  assumes "joined i j old new" "lf_lines old" "i < length old"
  shows "concat (take j new) = [] \<or> last (concat (take j new)) = SLF"
proof (cases "j = 0")
  case False
  then have "new ! (j - 1) = old ! (i - 1)" "0 < j" "j \<le> length new" "Suc (i - 1) < length old"
    using assms by (auto simp: joined_def)
  then show ?thesis using assms(2) take_lf [of j new] unfolding lf_lines_def by metis
qed simp

lemma range_lf:
  assumes "lf_lines ls" "i + n \<le> length ls"
  shows "concat (range_of ls i n) = [] \<or> last (concat (range_of ls i n)) = SLF \<or> concat (drop (i + n) ls) = []"
proof (cases "n = 0 \<or> i + n = length ls")
  case False
  then have l: "ls ! (i + n - 1) \<noteq> []" "last (ls ! (i + n - 1)) = SLF"
    using assms unfolding lf_lines_def by (metis Suc_pred' add_gr_0 le_neq_implies_less not_gr_zero)+
  have "range_of ls i n ! (n - 1) = ls ! (i + n - 1)" using False assms(2) by (simp add: range_of_def)
  then have "last (concat (take n (range_of ls i n))) = SLF"
    using take_lf [of n "range_of ls i n"] l False assms(2) by (simp add: range_of_def)
  then show ?thesis by (simp add: range_of_def)
qed (auto simp: range_of_def)

lemma range_Suc: "i < length xs \<Longrightarrow> range_of xs i (Suc n) = xs ! i # range_of xs (Suc i) n"
  by (simp add: range_of_def Cons_nth_drop_Suc [symmetric])

lemma cursor_lines:
  assumes T: "text_ops_ok g content T" and s: "segmenter_ok g" and d: "diff_ok diff" "in_blocks diff"
    and l: "lf_lines old" "lf_lines new" and B: "ulen (concat new) + ulen (concat old) < 2 ^ 32"
  shows "i + n \<le> length old \<Longrightarrow> j + n \<le> length new \<Longrightarrow>
     n = 0 \<or> concat (take j new) = [] \<or> last (concat (take j new)) = SLF \<Longrightarrow>
     at_cursor content (concat (take j new)) (concat (drop i old)) st \<Longrightarrow>
     \<exists>st'. try_fold (apply_line T g diff) (zip (range_of old i n) (range_of new j n)) st = Some st'
       \<and> at_cursor content (concat (take (j + n) new)) (concat (drop (i + n) old)) st'"
proof (induction n arbitrary: i j st)
  case 0
  then show ?case by (simp add: range_of_def)
next
  case (Suc n)
  have lt: "i < length old" "j < length new" using Suc.prems by simp_all
  have old: "drop i old = old ! i # drop (Suc i) old" using Cons_nth_drop_Suc [OF lt(1)] by simp
  have new: "take (Suc j) new = take j new @ [new ! j]" using take_Suc_conv_app_nth [OF lt(2)] .
  have R: "concat (drop (Suc i) old) = [] \<or> old ! i \<noteq> [] \<and> last (old ! i) = SLF"
    using l(1) unfolding lf_lines_def by (cases "Suc i < length old") auto
  have "ulen (concat (take j new)) + ulen (new ! j) \<le> ulen (concat new)"
    using ulen_cut [of "Suc j" new] new lt by simp
  moreover have "ulen (old ! i) + ulen (concat (drop (Suc i) old)) \<le> ulen (concat old)"
    using ulen_cut [of i old] old lt by simp
  ultimately have b: "ulen (concat (take j new)) + ulen (new ! j) + ulen (old ! i) + ulen (concat (drop (Suc i) old)) < 2 ^ 32"
    using B by simp
  have D: "concat (take j new) = [] \<or> last (concat (take j new)) = SLF" using Suc.prems(3) by simp
  obtain st1 where st1: "apply_line T g diff (old ! i, new ! j) st = Some st1"
    "at_cursor content (concat (take (Suc j) new)) (concat (drop (Suc i) old)) st1"
    using cursor_line [OF T s d D R b, of st] Suc.prems(4) old new by auto
  have "n = 0 \<or> concat (take (Suc j) new) = [] \<or> last (concat (take (Suc j) new)) = SLF"
    using take_lf [of "Suc j" new] l(2) Suc.prems(2) unfolding lf_lines_def by (cases "n = 0") auto
  from Suc.IH [OF _ _ this st1(2)] Suc.prems(1,2) st1(1) show ?case
    by (simp add: range_Suc lt)
qed

lemma cursor_op:
  assumes T: "text_ops_ok g content T" and s: "segmenter_ok g" and d: "diff_ok diff" "in_blocks diff"
    and l: "lf_lines old" "lf_lines new" and B: "ulen (concat new) + ulen (concat old) < 2 ^ 32"
    and t: "tiles i j old new (op # ops)" and op: "is_equal op \<or> joined i j old new" "filled op"
    and c: "at_cursor content (concat (take j new)) (concat (drop i old)) st"
  shows "\<exists>st' i' j'. apply_op T g diff old new op st = Some st' \<and> tiles i' j' old new ops
    \<and> at_cursor content (concat (take j' new)) (concat (drop i' old)) st' \<and> (is_equal op \<longrightarrow> joined i' j' old new)"
proof -
  obtain tx pos where st: "st = (tx, pos)" by fastforce
  show ?thesis
  proof (cases "is_equal op")
    case True
    then obtain oi ni len where Eq: "op = Equal oi ni len" by (auto simp: is_equal_def split: diff_op.splits)
    have e: "oi = i" "ni = j" "i + len \<le> length old" "j + len \<le> length new"
      "range_of old i len = range_of new j len" "tiles (i + len) (j + len) old new ops" using t Eq by auto
    have "at_cursor content (concat (take j new) @ concat (range_of old i len))
        (concat (drop (i + len) old)) (tx, pos + word_of_nat (ulen (concat (range_of old i len))))"
      using c drop_range [OF e(3)] st by (intro cursor_skip) simp
    then have "at_cursor content (concat (take (j + len) new)) (concat (drop (i + len) old))
        (tx, pos + units (range_of old i len))"
      using take_range [OF e(4)] e(5) by (simp add: units_concat)
    moreover have "joined (i + len) (j + len) old new" using tiles_equal t Eq op(2) by force
    ultimately show ?thesis using e Eq st by (auto simp: apply_op_def)
  next
    case False
    then obtain m n where mn: "old_range op = (i, m)" "new_range op = (j, n)" "i + m \<le> length old"
      "j + n \<le> length new" "tiles (i + m) (j + n) old new ops" using tiles_change [OF False t] by blast
    have jn: "joined i j old new" using op False by blast
    let ?del = "concat (range_of old i m)" and ?ins = "concat (range_of new j n)" and ?rest = "concat (drop (i + m) old)"
      and ?done = "concat (take j new)"
    have left: "concat (drop i old) = ?del @ ?rest" using drop_range [OF mn(3)] by simp
    have new: "concat (take (j + n) new) = ?done @ ?ins" using take_range [OF mn(4)] by simp
    have lf: "i < length old \<Longrightarrow> ?done = [] \<or> last ?done = SLF" by (rule joined_lf [OF jn l(1)])
    have "?done = [] \<or> last ?done = SLF \<or> ?del @ ?rest = []"
    proof (cases "i < length old")
      case False
      then have "drop i old = []" by simp
      then show ?thesis using left by simp
    qed (use lf in blast)
    then have w: "whole_clusters g ?done ?del ?rest" by (rule whole_lines [OF s _ range_lf [OF l(1) mn(3)]])
    have "ulen ?done + ulen ?ins \<le> ulen (concat new)" using ulen_cut [of "j + n" new] mn(4) new by simp
    moreover have "ulen ?del + ulen ?rest \<le> ulen (concat old)" using ulen_cut [of i old] left mn(3) by simp
    ultimately have b: "ulen ?done + ulen ?ins + ulen ?del + ulen ?rest < 2 ^ 32" using B by simp
    have c': "at_cursor content ?done (?del @ ?rest) (tx, pos)" using c left st by simp
    have rm: "\<exists>t'. op_remove_range T tx pos (units (range_of old i m)) = Some t' \<and> at_cursor content ?done ?rest (t', pos)"
      using cursor_remove [OF T c' _ w] b by (simp add: units_concat)
    have "\<exists>st'. apply_op T g diff old new op st = Some st' \<and> at_cursor content (concat (take (j + n) new)) ?rest st'"
    proof (cases op)
      case (Delete oi ol ni)
      then have "oi = i" "ol = m" "n = 0" using mn(1,2) by auto
      then show ?thesis using rm Delete st by (auto simp: apply_op_def)
    next
      case (Insert oi ni nl)
      then have e: "ni = j" "nl = n" "m = 0" using mn(1,2) by auto
      then have "at_cursor content ?done ?rest (tx, pos)" using c' by (simp add: range_of_def)
      from cursor_insert_lines [OF T this, of "range_of new j n"] b
      show ?thesis using e Insert st new by (auto simp: apply_op_def)
    next
      case (Replace oi ol ni nl)
      then have e: "oi = i" "ol = m" "ni = j" "nl = n" using mn(1,2) by auto
      show ?thesis
      proof (cases "m = n")
        case True
        have "n = 0 \<or> ?done = [] \<or> last ?done = SLF" using lf mn(3) True by (cases "n = 0") auto
        from cursor_lines [OF T s d l B _ _ this, of i st] mn(3,4) c True
        show ?thesis using e Replace st by (simp add: apply_op_def)
      next
        case False
        from rm obtain t' where t': "op_remove_range T tx pos (units (range_of old i m)) = Some t'"
          "at_cursor content ?done ?rest (t', pos)" by blast
        from cursor_insert_lines [OF T t'(2), of "range_of new j n"] b
        show ?thesis using e Replace st new t'(1) False by (simp add: apply_op_def)
      qed
    qed (use False in \<open>simp add: is_equal_def\<close>)
    then show ?thesis using mn(5) False by blast
  qed
qed

lemma cursor_ops:
  assumes T: "text_ops_ok g content T" and s: "segmenter_ok g" and d: "diff_ok diff" "in_blocks diff"
    and l: "lf_lines old" "lf_lines new" and B: "ulen (concat new) + ulen (concat old) < 2 ^ 32"
  shows "tiles i j old new ops \<Longrightarrow> blocks ops \<Longrightarrow> ops = [] \<or> is_equal (hd ops) \<or> joined i j old new \<Longrightarrow>
     at_cursor content (concat (take j new)) (concat (drop i old)) st \<Longrightarrow>
     \<exists>st'. try_fold (apply_op T g diff old new) ops st = Some st' \<and> at_cursor content (concat new) [] st'"
proof (induction ops arbitrary: i j st)
  case (Cons op ops)
  note b = blocks_Cons [OF Cons.prems(2)]
  obtain st' i' j' where n: "apply_op T g diff old new op st = Some st'" "tiles i' j' old new ops"
    "at_cursor content (concat (take j' new)) (concat (drop i' old)) st'" "is_equal op \<longrightarrow> joined i' j' old new"
    using cursor_op [OF T s d l B Cons.prems(1) _ _ Cons.prems(4)] Cons.prems(3) b by auto
  from Cons.IH [OF n(2) _ _ n(3)] b n(1,4) show ?case by auto
qed simp

section \<open>Properties\<close>

text \<open>
  A row's cells join back to it byte for byte, and cells without an open pipe are
  found again: \<open>split_cells\<close> and joining with a pipe are inverse to each other.
\<close>

theorem split_cells_roundtrip:
  "join_with ''|'' (split_cells s) = s
   \<and> (cs \<noteq> [] \<and> list_all no_open_pipe cs \<and> list_all ends_open (butlast cs)
        \<longleftrightarrow> split_cells (join_with ''|'' cs) = cs)"
  using join_split_cells split_join_cells split_cells_form [of "join_with ''|'' cs"]
  by (metis join_split_cells list.distinct(1) split_cells_def split_cells_loop_nonempty)

text \<open>The cells of a row, and the ones a side changed.\<close>

definition row_cells :: "string \<Rightarrow> string list" where
  "row_cells line = split_cells (trim_end_char LF line)"

definition changed_cells :: "string \<Rightarrow> string \<Rightarrow> nat set" where
  "changed_cells base side = {i. i < length (row_cells base) \<and> row_cells side ! i \<noteq> row_cells base ! i}"

text \<open>
  When the code merges a row: the shapes agree, no cell was changed both ways, and a side
  that changed several cells changed every cell the other one did.
\<close>

definition row_merges :: "string \<Rightarrow> string \<Rightarrow> string \<Rightarrow> bool" where
  "row_merges b m t \<longleftrightarrow>
     same_shape m b \<and> same_shape t b
     \<and> (\<forall>i\<in>changed_cells b m \<inter> changed_cells b t. row_cells m ! i = row_cells t ! i)
     \<and> (1 < card (changed_cells b m) \<longrightarrow> changed_cells b t \<subseteq> changed_cells b m)
     \<and> (1 < card (changed_cells b t) \<longrightarrow> changed_cells b m \<subseteq> changed_cells b t)"

lemma merge_cells_not_None:
  assumes "length m = length b" "length t = length b"
  shows "merge_cells b m t \<noteq> None \<longleftrightarrow> (\<forall>i < length b. m ! i = b ! i \<or> t ! i = b ! i \<or> m ! i = t ! i)"
proof
  assume "merge_cells b m t \<noteq> None"
  then obtain r where "merge_cells b m t = Some r" by blast
  then show "\<forall>i < length b. m ! i = b ! i \<or> t ! i = b ! i \<or> m ! i = t ! i"
    using merge_cells_Some [OF assms] by (simp add: merge_cell_Some)
next
  assume a: "\<forall>i < length b. m ! i = b ! i \<or> t ! i = b ! i \<or> m ! i = t ! i"
  let ?r = "map (\<lambda>i. if m ! i = b ! i then t ! i else m ! i) [0..<length b]"
  have "merge_cells b m t = Some ?r"
    using merge_cells_Some [OF assms, of ?r] a by (simp add: merge_cell_Some)
  then show "merge_cells b m t \<noteq> None" by simp
qed

lemma changed_filter:
  "set (filter (\<lambda>i. row_cells side ! i \<noteq> row_cells base ! i) [0..<length (row_cells base)]) = changed_cells base side"
  "length (filter (\<lambda>i. row_cells side ! i \<noteq> row_cells base ! i) [0..<length (row_cells base)]) = card (changed_cells base side)"
proof -
  show s: "set (filter (\<lambda>i. row_cells side ! i \<noteq> row_cells base ! i) [0..<length (row_cells base)]) = changed_cells base side"
    by (auto simp: changed_cells_def)
  show "length (filter (\<lambda>i. row_cells side ! i \<noteq> row_cells base ! i) [0..<length (row_cells base)]) = card (changed_cells base side)"
    unfolding s [symmetric] by (rule distinct_card [symmetric]) simp
qed

lemma merge_row_iff: "merge_row b m t \<noteq> None \<longleftrightarrow> row_merges b m t"
proof (cases "same_shape m b \<and> same_shape t b")
  case False
  then have "merge_row b m t = None"
    unfolding merge_row_def same_shape_def Let_def by (auto simp del: not_None_eq)
  then show ?thesis using False by (auto simp: row_merges_def)
next
  case True
  then have l: "length (row_cells m) = length (row_cells b)" "length (row_cells t) = length (row_cells b)"
    "ends_with [LF] m = ends_with [LF] b" "ends_with [LF] t = ends_with [LF] b"
    by (simp_all add: same_shape_def row_cells_def)
  have "merge_row b m t \<noteq> None \<longleftrightarrow>
      \<not> (1 < card (changed_cells b m) \<and> \<not> changed_cells b t \<subseteq> changed_cells b m
         \<or> 1 < card (changed_cells b t) \<and> \<not> changed_cells b m \<subseteq> changed_cells b t)
      \<and> merge_cells (row_cells b) (row_cells m) (row_cells t) \<noteq> None"
    unfolding merge_row_def Let_def row_cells_def [symmetric] list_all_iff changed_filter
    using l by (auto simp: subset_iff)
  then show ?thesis
    using True merge_cells_not_None [OF l(1,2)] by (auto simp: row_merges_def changed_cells_def)
qed

text \<open>
  C25: merging one table row is a three-way merge of its cells. A row merges exactly when
  both sides end as the base does and have as many cells, no cell was changed by both sides
  to different texts, and each side that changed more than one cell changed every cell the
  other side changed. The answer does not depend on which side is called mine; it has the
  base's line ending and as many cells, each byte for byte the one of the side that changed
  it. For rows as the line split cuts them, with a newline only at the end, a side that is
  unchanged gives way to the other one, and one change made by both is kept, byte for byte,
  whenever the shapes agree.
\<close>

theorem merge_row_three_way:
  assumes "one_line m" "one_line t"
  shows "(merge_row b m t \<noteq> None \<longleftrightarrow> row_merges b m t)
    \<and> merge_row b m t = merge_row b t m
    \<and> (same_shape t b \<longrightarrow> merge_row b b t = Some t)
    \<and> (same_shape m b \<longrightarrow> merge_row b m b = Some m \<and> merge_row b m m = Some m)
    \<and> (\<forall>r. merge_row b m t = Some r \<longrightarrow>
         (\<exists>rs. r = join_with ''|'' rs @ (if ends_with [LF] b then [LF] else [])
           \<and> length rs = length (row_cells b)
           \<and> (\<forall>i < length rs. rs ! i = (if i \<in> changed_cells b m then row_cells m ! i else row_cells t ! i))))"
proof (intro conjI allI impI)
  show "merge_row b m t \<noteq> None \<longleftrightarrow> row_merges b m t" by (rule merge_row_iff)
  show "merge_row b m t = merge_row b t m" by (rule merge_row_sym)
  show "merge_row b b t = Some t" if s: "same_shape t b"
  proof -
    obtain r where r: "merge_row b b t = Some r" using merge_row_unchanged [OF s] by blast
    obtain rs where rs: "length rs = length (row_cells b)" "length (row_cells t) = length (row_cells b)"
      "r = join_with ''|'' rs @ (if ends_with [LF] b then [LF] else [])"
      "\<forall>i < length (row_cells b). rs ! i = row_cells t ! i" "ends_with [LF] t = ends_with [LF] b"
      unfolding row_cells_def using merge_row_Some [OF r] by metis
    have "rs = row_cells t" using rs by (intro nth_equalityI) auto
    then show ?thesis using r rs(3,5) row_join [OF assms(2)] by (simp add: row_cells_def)
  qed
  show "merge_row b m b = Some m" if s: "same_shape m b"
  proof -
    obtain r where r: "merge_row b b m = Some r" using merge_row_unchanged [OF s] by blast
    obtain rs where rs: "length rs = length (row_cells b)" "length (row_cells m) = length (row_cells b)"
      "r = join_with ''|'' rs @ (if ends_with [LF] b then [LF] else [])"
      "\<forall>i < length (row_cells b). rs ! i = row_cells m ! i" "ends_with [LF] m = ends_with [LF] b"
      unfolding row_cells_def using merge_row_Some [OF r] by metis
    have "rs = row_cells m" using rs by (intro nth_equalityI) auto
    then have "merge_row b b m = Some m" using r rs(3,5) row_join [OF assms(1)] by (simp add: row_cells_def)
    then show ?thesis using merge_row_sym by metis
  qed
  show "merge_row b m m = Some m" if s: "same_shape m b"
  proof -
    obtain r where r: "merge_row b m m = Some r" using merge_row_both [OF s] by blast
    show ?thesis using r merge_row_one_sided(3) [OF r assms(1) assms(1)] by simp
  qed
next
  fix r assume r: "merge_row b m t = Some r"
  show "\<exists>rs. r = join_with ''|'' rs @ (if ends_with [LF] b then [LF] else []) \<and> length rs = length (row_cells b)
           \<and> (\<forall>i < length rs. rs ! i = (if i \<in> changed_cells b m then row_cells m ! i else row_cells t ! i))"
    by (rule merge_row_Some [OF r], intro exI conjI, assumption)
       (auto simp: row_cells_def changed_cells_def)
qed

theorem merge_row_three_way_witness:
  "merge_row ''a|b'' ''x|b'' ''a|y'' = Some ''x|y''
   \<and> merge_row ''a|b'' ''x|b'' ''a|y'' = merge_row ''a|b'' ''a|y'' ''x|b''
   \<and> \<not> row_merges ''a|b|c'' ''x|y|c'' ''a|b|z''"
proof -
  have a: "one_line ''x|b''" "one_line ''a|y''" "merge_row ''a|b'' ''x|b'' ''a|y'' = Some ''x|y''" by code_simp+
  have b: "one_line ''x|y|c''" "one_line ''a|b|z''" "merge_row ''a|b|c'' ''x|y|c'' ''a|b|z'' = None" by code_simp+
  show ?thesis using merge_row_three_way [OF a(1,2)] merge_row_three_way [OF b(1,2)] a(3) b(3) by blast
qed

text \<open>
  The row fallback merges line by line and never lets a marker through. When it
  answers, all three texts have the same number of lines and its text is one line for
  each: theirs where mine is unchanged, mine where theirs is unchanged or made the same
  change, and a cell merge only where the line is a table data row on all three sides;
  no line of the answer starts like a conflict marker.
\<close>

theorem row_merge_line_by_line:
  assumes "diff_ok diff" "row_merge diff ratio base mine theirs = Some r"
  defines "b \<equiv> split_inclusive LF base" and "m \<equiv> split_inclusive LF mine" and "t \<equiv> split_inclusive LF theirs"
  shows "length m = length b \<and> length t = length b
    \<and> (\<exists>rs. r = concat rs \<and> length rs = length b \<and> (\<forall>k < length b.
        if m ! k = b ! k then rs ! k = t ! k
        else if t ! k = b ! k \<or> m ! k = t ! k then rs ! k = m ! k
        else merge_row (b ! k) (m ! k) (t ! k) = Some (rs ! k)
          \<and> table_rows b ! k = Data \<and> table_rows m ! k = Data \<and> table_rows t ! k = Data))
    \<and> \<not> list_ex starts_like_a_marker (str_lines r)"
proof -
  let ?z = "zip (zip b (zip m t)) (zip (table_rows b) (zip (table_rows m) (table_rows t)))"
  have r: "replaces_in_place diff ratio b m" "replaces_in_place diff ratio b t" "merge_runs ?z = Some r"
    "\<not> list_ex starts_like_a_marker (str_lines r)"
    using assms(2) unfolding row_merge_def b_def m_def t_def by (auto simp: Let_def split: if_splits option.splits)
  have len: "length m = length b" "length t = length b"
    using in_place_length [OF assms(1) r(1)] in_place_length [OF assms(1) r(2)] by simp_all
  have "list_all sides_one_line ?z"
    unfolding list_all_iff
  proof
    fix l assume "l \<in> set ?z"
    then have "fst l \<in> set (zip b (zip m t))" by (metis prod.collapse set_zip_leftD)
    moreover obtain b' m' t' where f: "fst l = (b', m', t')" by (metis prod.collapse)
    ultimately have "(m', t') \<in> set (zip m t)" by (metis set_zip_rightD)
    then have "m' \<in> set m" "t' \<in> set t" by (meson set_zip_leftD, meson set_zip_rightD)
    then have "one_line m'" "one_line t'" unfolding m_def t_def by (simp_all add: one_line_split_inclusive)
    then show "sides_one_line l" using f by (cases l) simp
  qed
  then obtain rs where rs: "r = concat rs" "list_all2 line_merged ?z rs"
    using merge_runs_merged [OF r(3)] by blast
  have lz: "length ?z = length b" using len by (simp add: length_table_rows)
  have "if m ! k = b ! k then rs ! k = t ! k
        else if t ! k = b ! k \<or> m ! k = t ! k then rs ! k = m ! k
        else merge_row (b ! k) (m ! k) (t ! k) = Some (rs ! k)
          \<and> table_rows b ! k = Data \<and> table_rows m ! k = Data \<and> table_rows t ! k = Data" if "k < length b" for k
  proof -
    have "line_merged (?z ! k) (rs ! k)"
      using rs(2) that lz unfolding list_all2_conv_all_nth by presburger
    then show ?thesis using that len by (simp add: length_table_rows)
  qed
  moreover have "length rs = length b" using rs(2) lz by (metis list_all2_lengthD)
  ultimately show ?thesis using len rs(1) r(4) by blast
qed

text \<open>A diff for the examples: one replacement of everything, unless nothing changed.\<close>

definition whole_diff :: "'a list \<Rightarrow> 'a list \<Rightarrow> diff_op list" where
  "whole_diff old new =
     (if old = [] \<and> new = [] then []
      else if old = new then [Equal 0 0 (length old)] else [Replace 0 (length old) 0 (length new)])"

lemma whole_diff_ok: "diff_ok whole_diff" "in_blocks whole_diff"
  by (auto simp add: diff_ok_def in_blocks_def blocks_def whole_diff_def range_of_def)

theorem row_merge_line_by_line_witness:
  "row_merge whole_diff (\<lambda>a b. 0 :: nat) ''a'' ''b'' ''a'' = Some ''b''
   \<and> \<not> list_ex starts_like_a_marker (str_lines ''b'')"
proof -
  obtain ka kb where k: "table_rows [''a''] = [ka]" "table_rows [''b''] = [kb]"
    using length_table_rows [of "[''a'']"] length_table_rows [of "[''b'']"] by (auto simp: length_Suc_conv)
  have m: "merge_runs [((''a'', ''b'', ''a''), (ka, kb, ka))] = Some ''b''"
    by (simp add: merge_runs.simps(2) merge_run_def)
  have lines: "\<not> list_ex starts_like_a_marker (str_lines ''a'')" "\<not> list_ex starts_like_a_marker (str_lines ''b'')"
    "replaces_in_place whole_diff (\<lambda>a b. 0 :: nat) [''a''] [''b'']"
    "replaces_in_place whole_diff (\<lambda>a b. 0 :: nat) [''a''] [''a'']" by code_simp+
  have e: "row_merge whole_diff (\<lambda>a b. 0 :: nat) ''a'' ''b'' ''a'' = Some ''b''"
    using m lines k by (simp add: row_merge_def)
  from row_merge_line_by_line [OF whole_diff_ok(1) e] e show ?thesis by blast
qed

text \<open>
  C26: the edit script ends at its target. Take a live text that holds the current text's
  UTF-16 units, fewer than 2 to the 32 together with the target's, so that no \<open>u32\<close> position
  wraps; a line and cluster diff that tiles both sides in blocks; and a segmenter that obeys
  the rules named in \<open>segmenter_ok\<close>. Then applying the script never panics, although the
  live text is only known to take inserts between scalar values and removals that start and
  end at cluster breaks of the text it holds at that moment (no other removal is ever
  made), and it leaves the target's units.
\<close>

theorem apply_target_reaches:
  assumes "text_ops_ok graphemes content T" "segmenter_ok graphemes" "diff_ok diff" "in_blocks diff"
    and "content text = encode_utf16 current"
    and "length (encode_utf16 current) + length (encode_utf16 target) < 2 ^ 32"
  shows "\<exists>text'. apply_target T graphemes diff text current target = Some text' \<and> content text' = encode_utf16 target"
proof -
  let ?old = "split_inclusive SLF current" and ?new = "split_inclusive SLF target"
  have t: "tiles 0 0 ?old ?new (diff ?old ?new)" and b: "blocks (diff ?old ?new)"
    using assms(3,4) by (simp_all add: diff_ok_def in_blocks_def)
  have c: "at_cursor content (concat (take 0 ?new)) (concat (drop 0 ?old)) (text, 0)"
    using assms(5) by (simp add: at_cursor_def)
  have B: "ulen (concat ?new) + ulen (concat ?old) < 2 ^ 32" using assms(6) by simp
  have "joined 0 0 ?old ?new" by (simp add: joined_def)
  with cursor_ops [OF assms(1-4) lf_split_inclusive lf_split_inclusive B t b _ c]
  show ?thesis by (auto simp: at_cursor_def apply_target_def Let_def SLF_def)
qed

text \<open>A live text that panics on any edit out of its range, and one cluster per scalar value.\<close>

definition demo_ops :: "nat list text_ops" where
  "demo_ops = \<lparr>op_insert = (\<lambda>t pos s. if unat pos \<le> length t then Some (take (unat pos) t @ encode_utf16 s @ drop (unat pos) t) else None),
     op_remove_range = (\<lambda>t pos n. if unat pos + unat n \<le> length t then Some (take (unat pos) t @ drop (unat pos + unat n) t) else None)\<rparr>"

lemma unat_u32: "n < 2 ^ 32 \<Longrightarrow> unat (word_of_nat n :: 32 word) = n"
  by (simp add: unsigned_of_nat take_bit_nat_eq_self)

lemma demo_ops_ok: "text_ops_ok g id demo_ops"
  unfolding text_ops_ok_def
proof (intro conjI allI impI; elim conjE)
  fix t a b s assume "id t = encode_utf16 (a @ b)" "ulen (a @ s @ b) < 2 ^ 32"
  then show "\<exists>t'. op_insert demo_ops t (word_of_nat (ulen a)) s = Some t' \<and> id t' = encode_utf16 (a @ s @ b)"
    using unat_u32 [of "ulen a"] by (simp add: demo_ops_def)
next
  fix t a x b assume "id t = encode_utf16 (a @ x @ b)" "ulen (a @ x @ b) < 2 ^ 32"
  then show "\<exists>t'. op_remove_range demo_ops t (word_of_nat (ulen a)) (word_of_nat (ulen x)) = Some t' \<and> id t' = encode_utf16 (a @ b)"
    using unat_u32 [of "ulen a"] unat_u32 [of "ulen x"] by (simp add: demo_ops_def)
qed

lemma singles_ok: "segmenter_ok (map (\<lambda>c. [c]))"
proof -
  have "map (\<lambda>c. [c]) (concat cs) = cs" if "\<forall>c\<in>set cs. \<exists>s. c \<in> set (map (\<lambda>c. [c]) s)" for cs :: "nat list list"
    using that by (induction cs) auto
  then show ?thesis unfolding segmenter_ok_def by auto
qed

theorem apply_target_reaches_witness:
  "apply_target demo_ops (map (\<lambda>c. [c])) whole_diff [97, 10, 0xD83D, 0xDE00] [97, 10, 0x1F600] [98, 10, 0x1F601]
   = Some [98, 10, 0xD83D, 0xDE01]"
proof -
  have e: "id [97, 10, 0xD83D, 0xDE00] = encode_utf16 [97, 10, 0x1F600]"
    "encode_utf16 [98, 10, 0x1F601] = [98, 10, 0xD83D, 0xDE01]"
    "length (encode_utf16 [97, 10, 0x1F600]) + length (encode_utf16 [98, 10, 0x1F601]) < 2 ^ 32"
    by (simp_all add: encode_utf16_def encode_scalar_def)
  from apply_target_reaches [OF demo_ops_ok singles_ok whole_diff_ok e(1,3)] e(2) show ?thesis by auto
qed

end
