(* ===== verification/LinkResolution.thy ===== *)
theory LinkResolution
  imports Address
begin

text \<open>
  Link resolution of \<open>crates/core/src/address.rs\<close> (\<open>resolve\<close>, the trait
  \<open>LinkResolver\<close>, the in-memory \<open>LookupTable\<close>) over the link targets of
  \<open>crates/core/src/engram.rs\<close>. The trait's contract is the locale \<open>link_resolver\<close>: a
  reference comes out of a domain only when the resolver knows that domain, and it lies
  in that domain. The lemmas about \<open>resolve\<close> are proved from the contract alone;
  \<open>LookupTable\<close> is shown to provide it.
\<close>

datatype link_form = Wiki | Relative

record link_target =
  tg_domain :: "string option"
  tg_target :: string
  tg_fragment :: "string option"
  tg_whole :: "string option"
  tg_raw :: string
  tg_form :: link_form
  tg_alias :: "string option"

record resolved_ref =
  rr_domain :: string
  rr_permalink :: string

datatype resolution =
    Resolved resolved_ref
  | Unresolved
  | CrossDomainUnresolved string

definition or_else :: "'a option \<Rightarrow> 'a option \<Rightarrow> 'a option" where
  "or_else x y = (case x of Some v \<Rightarrow> Some v | None \<Rightarrow> y)"

lemma or_else_Some: "or_else x y = Some v \<longleftrightarrow> x = Some v \<or> (x = None \<and> y = Some v)"
  by (auto simp: or_else_def split: option.splits)

lemma or_else_simps [simp]: "or_else (Some v) y = Some v" "or_else None y = y"
  by (simp_all add: or_else_def)

definition resolve ::
  "('t \<Rightarrow> string \<Rightarrow> string \<Rightarrow> resolved_ref option)
     \<Rightarrow> ('t \<Rightarrow> string \<Rightarrow> string \<Rightarrow> resolved_ref option) \<Rightarrow> ('t \<Rightarrow> string \<Rightarrow> bool)
     \<Rightarrow> link_target \<Rightarrow> string \<Rightarrow> 't \<Rightarrow> resolution" where
  "resolve by_permalink by_title is_domain target current_domain lookup =
     (case (case tg_whole target of
              Some whole \<Rightarrow>
                by_title lookup
                  (case tg_domain target of Some d \<Rightarrow> d | None \<Rightarrow> current_domain) whole
            | None \<Rightarrow> None) of
        Some found \<Rightarrow> Resolved found
      | None \<Rightarrow>
        (case tg_domain target of
           Some domain \<Rightarrow>
             (case or_else (by_permalink lookup domain (tg_target target))
                    (or_else (by_title lookup domain (tg_target target))
                      (if \<not> is_domain lookup domain
                       then or_else (by_permalink lookup current_domain (tg_raw target))
                              (by_title lookup current_domain (tg_raw target))
                       else None)) of
                Some r \<Rightarrow> Resolved r
              | None \<Rightarrow> CrossDomainUnresolved domain)
         | None \<Rightarrow>
             (case or_else (by_permalink lookup current_domain (tg_target target))
                    (by_title lookup current_domain (tg_target target)) of
                Some r \<Rightarrow> Resolved r
              | None \<Rightarrow> Unresolved)))"

section \<open>The resolver's contract\<close>

locale link_resolver =
  fixes by_permalink :: "'t \<Rightarrow> string \<Rightarrow> string \<Rightarrow> resolved_ref option"
    and by_title :: "'t \<Rightarrow> string \<Rightarrow> string \<Rightarrow> resolved_ref option"
    and is_domain :: "'t \<Rightarrow> string \<Rightarrow> bool"
    and ok :: "'t \<Rightarrow> bool"
  assumes known_permalink: "ok t \<Longrightarrow> by_permalink t d p = Some r \<Longrightarrow> is_domain t d \<and> rr_domain r = d"
    and known_title: "ok t \<Longrightarrow> by_title t d n = Some r \<Longrightarrow> is_domain t d \<and> rr_domain r = d"
begin

abbreviation (input) res where
  "res \<equiv> resolve by_permalink by_title is_domain"

text \<open>The one domain a link may land in.\<close>

lemma resolved_home:
  assumes "ok t" "res target cur t = Resolved r"
  shows "rr_domain r =
     (case tg_domain target of Some d \<Rightarrow> if is_domain t d then d else cur | None \<Rightarrow> cur)
     \<and> is_domain t (rr_domain r)"
  using assms
  by (auto simp: resolve_def or_else_Some split: option.splits if_splits
        dest: known_permalink known_title)

lemma unresolved_shape:
  "res target cur t = Unresolved \<Longrightarrow> tg_domain target = None"
  "res target cur t = CrossDomainUnresolved d \<Longrightarrow> tg_domain target = Some d"
  by (auto simp: resolve_def split: option.splits)

text \<open>A registered prefix is never read as part of a title.\<close>

lemma registered_prefix:
  assumes "ok t" "tg_domain target = Some d" "is_domain t d"
  shows "res target cur t = res target cur' t"
  using assms by (cases "tg_whole target") (simp_all add: resolve_def split: option.split)

text \<open>An unregistered prefix is looked up as the whole text in the current domain.\<close>

lemma unregistered_prefix:
  assumes "ok t" "tg_domain target = Some d" "\<not> is_domain t d"
  shows "res target cur t =
     (case or_else (by_permalink t cur (tg_raw target)) (by_title t cur (tg_raw target)) of
        Some r \<Rightarrow> Resolved r | None \<Rightarrow> CrossDomainUnresolved d)"
proof -
  have "by_permalink t d p = None" "by_title t d p = None" for p
    using known_permalink [OF assms(1)] known_title [OF assms(1)] assms(3) by (metis not_None_eq)+
  then show ?thesis using assms(2,3) by (simp add: resolve_def split: option.splits)
qed

end

locale link_registry = link_resolver by_permalink by_title is_domain ok
  for by_permalink :: "'t \<Rightarrow> string \<Rightarrow> string \<Rightarrow> resolved_ref option"
    and by_title :: "'t \<Rightarrow> string \<Rightarrow> string \<Rightarrow> resolved_ref option"
    and is_domain :: "'t \<Rightarrow> string \<Rightarrow> bool"
    and ok :: "'t \<Rightarrow> bool" +
  fixes insert :: "string \<Rightarrow> string \<Rightarrow> string \<Rightarrow> 't \<Rightarrow> 't"
    and register :: "string \<Rightarrow> 't \<Rightarrow> 't"
  assumes ok_insert: "ok t \<Longrightarrow> ok (insert d p n t)"
    and ok_register: "ok t \<Longrightarrow> ok (register d t)"
    and permalink_insert: "ok t \<Longrightarrow> by_permalink (insert d p n t) d' p' =
          (if d' = d \<and> p' = p then Some \<lparr>rr_domain = d, rr_permalink = p\<rparr> else by_permalink t d' p')"
    and title_insert: "ok t \<Longrightarrow> by_title (insert d p n t) d n = Some \<lparr>rr_domain = d, rr_permalink = p\<rparr>"
    and title_other: "ok t \<Longrightarrow> d' \<noteq> d \<Longrightarrow> by_title (insert d p n t) d' n' = by_title t d' n'"
    and domain_insert: "ok t \<Longrightarrow> is_domain (insert d p n t) d' \<longleftrightarrow> d' = d \<or> is_domain t d'"
    and domain_register: "ok t \<Longrightarrow> is_domain (register d t) d' \<longleftrightarrow> d' = d \<or> is_domain t d'"
begin

lemma ok_insert_all: "ok t \<Longrightarrow> ok (fold (\<lambda>(d, p, n). insert d p n) es t)"
  by (induction es arbitrary: t) (auto simp: ok_insert)

text \<open>What was just registered is found by its permalink and by its title.\<close>

lemma found_by_permalink:
  assumes "ok t" "tg_whole target = None" "tg_target target = p"
    and "tg_domain target = Some d \<or> (tg_domain target = None \<and> cur = d)"
  shows "res target cur (insert d p n t) = Resolved \<lparr>rr_domain = d, rr_permalink = p\<rparr>"
  using assms by (auto simp: resolve_def permalink_insert)

lemma found_by_title:
  assumes "ok t" "tg_whole target = None" "tg_target target = n" "by_permalink t d n = None" "n \<noteq> p"
    and "tg_domain target = Some d \<or> (tg_domain target = None \<and> cur = d)"
  shows "res target cur (insert d p n t) = Resolved \<lparr>rr_domain = d, rr_permalink = p\<rparr>"
  using assms by (auto simp: resolve_def permalink_insert title_insert)

end

section \<open>The lookup table\<close>

record lookup_table =
  lk_permalinks :: "((string \<times> string) \<times> resolved_ref) list"
  lk_titles :: "((string \<times> string) \<times> resolved_ref) list"
  lk_domains :: "string list"
  lk_paths :: "(string \<times> string) list"

definition lk_new :: lookup_table where
  "lk_new = \<lparr>lk_permalinks = [], lk_titles = [], lk_domains = [], lk_paths = []\<rparr>"

definition register_domain :: "string \<Rightarrow> lookup_table \<Rightarrow> lookup_table" where
  "register_domain domain t = t\<lparr>lk_domains := List.insert domain (lk_domains t)\<rparr>"

definition lk_insert ::
  "(string \<Rightarrow> string) \<Rightarrow> string \<Rightarrow> string \<Rightarrow> string \<Rightarrow> lookup_table \<Rightarrow> lookup_table" where
  "lk_insert lower domain permalink title t =
     (let reference = \<lparr>rr_domain = domain, rr_permalink = permalink\<rparr>
      in t\<lparr>lk_domains := List.insert domain (lk_domains t),
           lk_permalinks := AList.update (domain, permalink) reference (lk_permalinks t),
           lk_titles := AList.update (domain, lower title) reference (lk_titles t)\<rparr>)"

definition insert_path :: "string \<Rightarrow> string \<Rightarrow> lookup_table \<Rightarrow> lookup_table" where
  "insert_path domain path t =
     t\<lparr>lk_domains := List.insert domain (lk_domains t),
       lk_paths := List.insert (domain, path) (lk_paths t)\<rparr>"

definition has_path :: "lookup_table \<Rightarrow> string \<Rightarrow> string \<Rightarrow> bool" where
  "has_path t domain path \<longleftrightarrow> (domain, path) \<in> set (lk_paths t)"

definition lk_by_permalink :: "lookup_table \<Rightarrow> string \<Rightarrow> string \<Rightarrow> resolved_ref option" where
  "lk_by_permalink t domain permalink = map_of (lk_permalinks t) (domain, permalink)"

definition lk_by_title ::
  "(string \<Rightarrow> string) \<Rightarrow> lookup_table \<Rightarrow> string \<Rightarrow> string \<Rightarrow> resolved_ref option" where
  "lk_by_title lower t domain title = map_of (lk_titles t) (domain, lower title)"

definition lk_is_domain :: "lookup_table \<Rightarrow> string \<Rightarrow> bool" where
  "lk_is_domain t name \<longleftrightarrow> name \<in> set (lk_domains t)"

definition table_ok :: "lookup_table \<Rightarrow> bool" where
  "table_ok t \<longleftrightarrow>
     (\<forall>d p r. map_of (lk_permalinks t) (d, p) = Some r \<or> map_of (lk_titles t) (d, p) = Some r
        \<longrightarrow> d \<in> set (lk_domains t) \<and> rr_domain r = d)"

interpretation lk: link_registry lk_by_permalink "lk_by_title lower" lk_is_domain table_ok
    "lk_insert lower" register_domain for lower
  by unfold_locales
     (auto simp: table_ok_def lk_by_permalink_def lk_by_title_def lk_is_domain_def lk_insert_def
        register_domain_def Let_def update_conv' split: if_splits)

lemma table_ok_new: "table_ok lk_new"
  by (simp add: table_ok_def lk_new_def)

abbreviation (input) lk_resolve where
  "lk_resolve lower \<equiv> resolve lk_by_permalink (lk_by_title lower) lk_is_domain"

text \<open>A table filled by any sequence of registrations.\<close>

definition lk_fill :: "(string \<Rightarrow> string) \<Rightarrow> (string \<times> string \<times> string) list \<Rightarrow> lookup_table \<Rightarrow> lookup_table" where
  "lk_fill lower es t = fold (\<lambda>(d, p, n). lk_insert lower d p n) es t"

lemma table_ok_fill: "table_ok (lk_fill lower es lk_new)"
  unfolding lk_fill_def by (rule lk.ok_insert_all) (rule table_ok_new)

section \<open>Properties\<close>

text \<open>
  A link never leaves the domain it may name. Over any registered contents a
  resolved reference lies in the prefix's domain when the prefix names a registered
  domain and in the current domain otherwise; a bare link that resolves nowhere answers
  \<open>Unresolved\<close>, one with a prefix names that prefix, and a registered prefix makes the
  answer independent of where the link stands.
\<close>

theorem resolve_stays_home:
  assumes "t = lk_fill lower es lk_new"
  shows "(\<forall>r. lk_resolve lower target cur t = Resolved r \<longrightarrow>
           rr_domain r = (case tg_domain target of
               Some d \<Rightarrow> if lk_is_domain t d then d else cur | None \<Rightarrow> cur))
    \<and> (lk_resolve lower target cur t = Unresolved \<longrightarrow> tg_domain target = None)
    \<and> (\<forall>d. lk_resolve lower target cur t = CrossDomainUnresolved d \<longrightarrow> tg_domain target = Some d)
    \<and> (\<forall>d cur'. tg_domain target = Some d \<and> lk_is_domain t d \<longrightarrow>
         lk_resolve lower target cur t = lk_resolve lower target cur' t)"
proof -
  have ok: "table_ok t" using assms table_ok_fill by simp
  show ?thesis
    using lk.resolved_home [OF ok] lk.unresolved_shape lk.registered_prefix [OF ok] by blast
qed

theorem resolve_stays_home_witness:
  "lk_resolve ascii_lowercase
     \<lparr>tg_domain = Some ''ops'', tg_target = ''pumps'', tg_fragment = None, tg_whole = None,
      tg_raw = ''ops:pumps'', tg_form = Wiki, tg_alias = None\<rparr>
     ''home'' (lk_fill ascii_lowercase [(''ops'', ''pumps'', ''Pumps''), (''home'', ''pumps'', ''Pumps'')] lk_new)
   = Resolved \<lparr>rr_domain = ''ops'', rr_permalink = ''pumps''\<rparr>
   \<and> rr_domain \<lparr>rr_domain = ''ops'', rr_permalink = ''pumps''\<rparr> = ''ops''"
proof -
  let ?t = "lk_fill ascii_lowercase [(''ops'', ''pumps'', ''Pumps''), (''home'', ''pumps'', ''Pumps'')] lk_new"
  let ?l = "\<lparr>tg_domain = Some ''ops'', tg_target = ''pumps'', tg_fragment = None, tg_whole = None,
      tg_raw = ''ops:pumps'', tg_form = Wiki, tg_alias = None\<rparr>"
  have e: "lk_resolve ascii_lowercase ?l ''home'' ?t = Resolved \<lparr>rr_domain = ''ops'', rr_permalink = ''pumps''\<rparr>"
    and "lk_is_domain ?t ''ops''" by code_simp+
  with resolve_stays_home [OF refl, of ascii_lowercase ?l "''home''"
      "[(''ops'', ''pumps'', ''Pumps''), (''home'', ''pumps'', ''Pumps'')]"]
  show ?thesis by simp
qed

text \<open>
  What is registered is reachable. Right after an engram is inserted, a link to its
  permalink resolves to it, from its own domain bare and from anywhere with the prefix;
  so does a link to its title when no engram of the domain has that text as permalink;
  and a prefix that names no domain falls back to the whole text in the current domain.
\<close>

theorem inserted_is_found:
  assumes ok: "table_ok t" and "tg_whole target = None"
    and "tg_domain target = Some d \<or> (tg_domain target = None \<and> cur = d)"
    and "tg_target target = p
         \<or> (tg_target target = n \<and> n \<noteq> p \<and> lk_by_permalink t d n = None)"
  shows "lk_resolve lower target cur (lk_insert lower d p n t)
           = Resolved \<lparr>rr_domain = d, rr_permalink = p\<rparr>"
  using assms lk.found_by_permalink [OF ok] lk.found_by_title [OF ok] by blast

theorem inserted_is_found_witness:
  "lk_resolve ascii_lowercase
     \<lparr>tg_domain = None, tg_target = ''Pump Notes'', tg_fragment = None, tg_whole = None,
      tg_raw = ''Pump Notes'', tg_form = Wiki, tg_alias = None\<rparr>
     ''ops'' (lk_insert ascii_lowercase ''ops'' ''pumps'' ''Pump Notes'' lk_new)
   = Resolved \<lparr>rr_domain = ''ops'', rr_permalink = ''pumps''\<rparr>"
  by (rule inserted_is_found [OF table_ok_new]) (simp_all add: lk_by_permalink_def lk_new_def)

end
