(* ===== verification/InlineCode.thy ===== *)
theory InlineCode
  imports Prelude
begin

text \<open>
  Inline code spans (\<open>code_spans\<close> of \<open>core/src/reflection/links.rs\<close>,
  \<open>mask_inline_code\<close> of \<open>core/src/parse.rs\<close>) and the masking of byte ranges
  (\<open>mask_link_destinations\<close> there).

  The code keeps two dialects of one rule, one over bytes and one over characters. Both
  scan for a run of backticks and for the next run of the same length; they are written
  here over one list function, with the index \<open>i\<close> of the code as the suffix still to be
  read. The property of this theory is that the two agree.
\<close>

section \<open>The scan\<close>

abbreviation TICK :: char where "TICK \<equiv> CHR 0x60"
abbreviation SPACE :: char where "SPACE \<equiv> CHR 0x20"

definition run_len :: "('a \<Rightarrow> bool) \<Rightarrow> 'a list \<Rightarrow> nat" where
  "run_len P s = length (takeWhile P s)"

lemma run_len_pos: "P c \<Longrightarrow> 0 < run_len P (c # cs)"
  by (simp add: run_len_def)

text \<open>How many elements are left up to the end of the next run of length \<open>run\<close>.\<close>

function close_run :: "('a \<Rightarrow> bool) \<Rightarrow> nat \<Rightarrow> 'a list \<Rightarrow> nat option" where
  "close_run P run [] = None"
| "close_run P run (c # cs) =
     (if P c then
        (let m = run_len P (c # cs)
         in if m = run then Some m
            else map_option ((+) m) (close_run P run (drop m (c # cs))))
      else map_option Suc (close_run P run cs))"
  by pat_completeness auto
termination
  by (relation "measure (\<lambda>(P, run, s). length s)") (auto simp: run_len_def)

function spans_from :: "('a \<Rightarrow> bool) \<Rightarrow> nat \<Rightarrow> 'a list \<Rightarrow> (nat \<times> nat) list" where
  "spans_from P i [] = []"
| "spans_from P i (c # cs) =
     (if \<not> P c then spans_from P (Suc i) cs
      else
        (let run = run_len P (c # cs); after = drop run (c # cs)
         in case close_run P run after of
              Some k \<Rightarrow> (i, i + run + k) # spans_from P (i + run + k) (drop k after)
            | None \<Rightarrow> spans_from P (i + run) after))"
  by pat_completeness auto
termination
  by (relation "measure (\<lambda>(P, i, s). length s)") (auto simp: run_len_def)

definition code_spans :: "string \<Rightarrow> (nat \<times> nat) list" where
  "code_spans line = spans_from (\<lambda>b. b = TICK) 0 line"

function mask_code :: "string list \<Rightarrow> string list" where
  "mask_code [] = []"
| "mask_code (c # cs) =
     (if c \<noteq> [TICK] then c # mask_code cs
      else
        (let run = run_len (\<lambda>c. c = [TICK]) (c # cs); after = drop run (c # cs)
         in case close_run (\<lambda>c. c = [TICK]) run after of
              Some k \<Rightarrow> replicate (run + k) [SPACE] @ mask_code (drop k after)
            | None \<Rightarrow> take run (c # cs) @ mask_code after))"
  by pat_completeness auto
termination
  by (relation "measure length") (auto simp: run_len_def)

definition mask_inline_code :: "string \<Rightarrow> string" where
  "mask_inline_code line = concat (mask_code (chars line))"

text \<open>\<open>char_indices\<close> and the masking of byte ranges.\<close>

fun indices_from :: "nat \<Rightarrow> string list \<Rightarrow> (nat \<times> string) list" where
  "indices_from i [] = []"
| "indices_from i (c # cs) = (i, c) # indices_from (i + length c) cs"

definition in_ranges :: "(nat \<times> nat) list \<Rightarrow> nat \<Rightarrow> bool" where
  "in_ranges ranges at = list_ex (\<lambda>(s, e). s \<le> at \<and> at < e) ranges"

definition mask_ranges :: "(nat \<times> nat) list \<Rightarrow> string \<Rightarrow> string" where
  "mask_ranges ranges line =
     concat (map (\<lambda>(at, c). if in_ranges ranges at then [SPACE] else c) (indices_from 0 (chars line)))"

declare close_run.simps(2) [simp del] spans_from.simps(2) [simp del] mask_code.simps(2) [simp del]

section \<open>The scan, run by run\<close>

lemma run_len_append [simp]:
  "\<forall>x\<in>set p. P x \<Longrightarrow> run_len P (p @ s) = length p + run_len P s"
  by (simp add: run_len_def takeWhile_append)

lemma close_run_skip:
  "\<forall>x\<in>set p. \<not> P x \<Longrightarrow> close_run P run (p @ s) = map_option ((+) (length p)) (close_run P run s)"
  by (induction p; cases "close_run P run s") (auto simp: close_run.simps(2))

lemma close_run_le: "close_run P run s = Some k \<Longrightarrow> k \<le> length s"
proof (induction P run s arbitrary: k rule: close_run.induct)
  case (2 P run c cs)
  have le: "run_len P (c # cs) \<le> length (c # cs)" unfolding run_len_def by (rule length_takeWhile_le)
  show ?case
  proof (cases "P c \<and> run_len P (c # cs) \<noteq> run")
    case True
    then obtain j where "close_run P run (drop (run_len P (c # cs)) (c # cs)) = Some j" "k = run_len P (c # cs) + j"
      using 2(3) by (auto simp: close_run.simps(2) Let_def)
    then show ?thesis using 2(1) [of "run_len P (c # cs)" j] True le by simp
  qed (use 2(2,3) le in \<open>auto simp: close_run.simps(2) Let_def split: if_splits\<close>)
qed simp

lemma close_run_pos: "close_run P run s = Some k \<Longrightarrow> 0 < k"
  by (induction P run s arbitrary: k rule: close_run.induct)
     (auto simp: close_run.simps(2) Let_def run_len_def split: if_splits)

lemma spans_from_ge: "(s, e) \<in> set (spans_from P i xs) \<Longrightarrow> i \<le> s"
proof (induction P i xs arbitrary: s e rule: spans_from.induct)
  case (2 P i c cs)
  then show ?case
    by (fastforce simp: spans_from.simps(2) Let_def split: if_splits option.splits)
qed simp

section \<open>Bytes and characters\<close>

lemma tick_free:
  assumes "ascii_alone c" "c \<noteq> [TICK]" "x \<in> set c"
  shows "x \<noteq> TICK"
proof -
  obtain h t where c: "c = h # t" using assms(1) by (cases c) (auto simp: ascii_alone_def utf8_char_def)
  have t: "\<forall>y\<in>set t. is_continuation y"
    using assms(1) c by (auto simp: ascii_alone_def utf8_char_def list_all_iff)
  have "h \<noteq> TICK" using assms(1,2) c by (auto simp: ascii_alone_def)
  with t assms(3) c show ?thesis by (auto simp: is_continuation_def)
qed

abbreviation (input) tick :: "char \<Rightarrow> bool" where "tick b \<equiv> b = TICK"
abbreviation (input) ticks :: "string \<Rightarrow> bool" where "ticks c \<equiv> c = [TICK]"

lemma run_len_bytes:
  "list_all ascii_alone cs \<Longrightarrow> run_len tick (concat cs) = run_len ticks cs"
proof (induction cs)
  case (Cons c cs)
  show ?case
  proof (cases "c = [TICK]")
    case True
    with Cons show ?thesis by (simp add: run_len_def)
  next
    case False
    obtain h t where c: "c = h # t" using Cons.prems by (cases c) (auto simp: ascii_alone_def utf8_char_def)
    then have "h \<noteq> TICK" using tick_free [of c h] False Cons.prems by simp
    with c False show ?thesis by (simp add: run_len_def)
  qed
qed (simp add: run_len_def)

lemma take_run_ticks: "take (run_len ticks cs) cs = replicate (run_len ticks cs) [TICK]"
  by (induction cs) (auto simp: run_len_def)

lemma drop_run_bytes:
  "list_all ascii_alone cs \<Longrightarrow> drop (run_len ticks cs) (concat cs) = concat (drop (run_len ticks cs) cs)"
proof (induction cs)
  case (Cons c cs)
  then show ?case by (auto simp: run_len_def)
qed simp

lemma close_run_bytes:
  "list_all ascii_alone cs \<Longrightarrow>
     close_run tick run (concat cs) = map_option (\<lambda>k. length (concat (take k cs))) (close_run ticks run cs)"
proof (induction "ticks" run cs rule: close_run.induct)
  case (2 run c cs)
  show ?case
  proof (cases "c = [TICK]")
    case True
    let ?m = "run_len ticks (c # cs)"
    have m: "run_len tick (concat (c # cs)) = ?m" using run_len_bytes [OF 2(3)] .
    have d: "drop ?m (concat (c # cs)) = concat (drop ?m (c # cs))" using drop_run_bytes [OF 2(3)] .
    have l: "length (concat (take ?m (c # cs))) = ?m"
      by (simp only: take_run_ticks) (simp add: length_concat sum_list_replicate)
    have ok: "list_all ascii_alone (drop ?m (c # cs))" using 2(3) set_drop_subset [of ?m "c # cs"] by (auto simp: list_all_iff)
    have tk: "length (concat (take (?m + k) (c # cs))) = ?m + length (concat (take k (drop ?m (c # cs))))" for k
      using l by (simp add: take_add)
    show ?thesis
    proof (cases "?m = run")
      case True
      then show ?thesis using \<open>c = [TICK]\<close> m l by (simp add: close_run.simps(2) Let_def)
    next
      case False
      have "close_run tick run (concat (c # cs)) = map_option ((+) ?m) (close_run tick run (concat (drop ?m (c # cs))))"
        using \<open>c = [TICK]\<close> False m d by (simp add: close_run.simps(2) Let_def)
      also have "\<dots> = map_option (\<lambda>k. length (concat (take (?m + k) (c # cs)))) (close_run ticks run (drop ?m (c # cs)))"
        using 2(1) [OF True refl False ok] tk by (simp add: option.map_comp o_def)
      also have "\<dots> = map_option (\<lambda>k. length (concat (take k (c # cs)))) (close_run ticks run (c # cs))"
        using \<open>c = [TICK]\<close> False by (simp add: close_run.simps(2) Let_def option.map_comp o_def)
      finally show ?thesis .
    qed
  next
    case False
    have "\<forall>x\<in>set c. \<not> tick x" using tick_free [OF _ False] 2(3) by auto
    then have "close_run tick run (concat (c # cs)) = map_option ((+) (length c)) (close_run tick run (concat cs))"
      by (simp add: close_run_skip)
    then show ?thesis using False 2(2) [OF False] 2(3)
      by (simp add: close_run.simps(2) option.map_comp o_def)
  qed
qed simp


section \<open>The two dialects agree\<close>

lemma indices_from_append:
  "indices_from i (xs @ ys) = indices_from i xs @ indices_from (i + length (concat xs)) ys"
  by (induction xs arbitrary: i) (auto simp: add.assoc)

lemma indices_from_ge: "(at, c) \<in> set (indices_from i cs) \<Longrightarrow> i \<le> at"
  by (induction cs arbitrary: i) fastforce+

lemma indices_from_lt:
  "(at, c) \<in> set (indices_from i cs) \<Longrightarrow> \<forall>x\<in>set cs. x \<noteq> [] \<Longrightarrow> at < i + length (concat cs)"
  by (induction cs arbitrary: i) fastforce+

definition mask_at :: "(nat \<times> nat) list \<Rightarrow> nat \<Rightarrow> string list \<Rightarrow> string list" where
  "mask_at rs i cs = map (\<lambda>(at, c). if in_ranges rs at then [SPACE] else c) (indices_from i cs)"

lemma mask_at_append: "mask_at rs i (xs @ ys) = mask_at rs i xs @ mask_at rs (i + length (concat xs)) ys"
  by (simp add: mask_at_def indices_from_append)

lemma mask_at_none:
  assumes "\<forall>(s, e)\<in>set rs. i + length (concat cs) \<le> s" "\<forall>x\<in>set cs. x \<noteq> []"
  shows "mask_at rs i cs = cs"
proof -
  have "\<not> in_ranges rs at" if "(at, c) \<in> set (indices_from i cs)" for at c
    using indices_from_lt [OF that assms(2)] assms(1) by (fastforce simp: in_ranges_def list_ex_iff)
  then have "mask_at rs i cs = map snd (indices_from i cs)" by (auto simp: mask_at_def)
  also have "\<dots> = cs" by (induction cs arbitrary: i) auto
  finally show ?thesis .
qed

lemma mask_at_all:
  assumes "\<forall>x\<in>set cs. x \<noteq> []"
  shows "mask_at ((i, i + length (concat cs)) # rs) i cs = replicate (length cs) [SPACE]"
proof -
  let ?rs = "(i, i + length (concat cs)) # rs"
  have "in_ranges ?rs at" if "(at, c) \<in> set (indices_from i cs)" for at c
    using indices_from_ge [OF that] indices_from_lt [OF that assms] by (simp add: in_ranges_def)
  then have "mask_at ?rs i cs = map (\<lambda>_. [SPACE]) (indices_from i cs)" by (auto simp: mask_at_def)
  also have "length (indices_from i cs) = length cs" by (induction cs arbitrary: i) auto
  then have "map (\<lambda>_. [SPACE]) (indices_from i cs) = replicate (length cs) [SPACE]"
    by (simp add: map_replicate_const)
  finally show ?thesis .
qed

lemma mask_at_past:
  assumes "e \<le> i" shows "mask_at ((s, e) # rs) i cs = mask_at rs i cs"
  unfolding mask_at_def
  by (rule map_cong [OF refl]) (use assms in \<open>auto simp: in_ranges_def dest: indices_from_ge\<close>)

lemma mask_code_spans:
  "list_all ascii_alone cs \<Longrightarrow> mask_code cs = mask_at (spans_from tick i (concat cs)) i cs"
proof (induction cs arbitrary: i rule: mask_code.induct)
  case (2 c cs)
  have ne: "\<forall>x\<in>set (c # cs). x \<noteq> []"
    using 2(4) by (auto simp: list_all_iff ascii_alone_def utf8_char_def)
  show ?case
  proof (cases "c = [TICK]")
    case False
    have free: "\<forall>x\<in>set c. \<not> tick x" using tick_free [OF _ False] 2(4) by auto
    have skip: "spans_from tick i (p @ s) = spans_from tick (i + length p) s"
      if "\<forall>x\<in>set p. \<not> tick x" for p s i
      using that by (induction p arbitrary: i) (auto simp: spans_from.simps(2))
    have "spans_from tick i (concat (c # cs)) = spans_from tick (i + length c) (concat cs)"
      using skip [OF free] by simp
    moreover have "mask_at (spans_from tick (i + length c) (concat cs)) i [c] = [c]"
      using ne by (intro mask_at_none) (auto dest: spans_from_ge)
    ultimately show ?thesis
      using 2(1) [OF False, of "i + length c"] 2(4) False
        mask_at_append [of "spans_from tick (i + length c) (concat cs)" i "[c]" cs]
      by (simp add: mask_code.simps(2))
  next
    case True
    let ?m = "run_len ticks (c # cs)"
    let ?run = "take ?m (c # cs)" and ?after = "drop ?m (c # cs)"
    have run: "?run = replicate ?m [TICK]" by (rule take_run_ticks)
    have lr: "length (concat ?run) = ?m" by (simp only: run) (simp add: length_concat sum_list_replicate)
    have m: "run_len tick (concat (c # cs)) = ?m" using run_len_bytes [OF 2(4)] .
    have d: "drop ?m (concat (c # cs)) = concat ?after" using drop_run_bytes [OF 2(4)] .
    have ok: "list_all ascii_alone ?after" using 2(4) set_drop_subset [of ?m "c # cs"] by (auto simp: list_all_iff)
    have whole: "c # cs = ?run @ ?after" by simp
    have cr: "close_run tick ?m (concat ?after)
        = map_option (\<lambda>k. length (concat (take k ?after))) (close_run ticks ?m ?after)"
      by (rule close_run_bytes [OF ok])
    have sp: "spans_from tick i (concat (c # cs)) =
        (case close_run tick ?m (concat ?after) of
           Some k \<Rightarrow> (i, i + ?m + k) # spans_from tick (i + ?m + k) (drop k (concat ?after))
         | None \<Rightarrow> spans_from tick (i + ?m) (concat ?after))"
    proof -
      have cc: "concat (c # cs) = TICK # concat cs" by (simp add: True)
      have "spans_from tick i (TICK # concat cs) =
          (let run = run_len tick (TICK # concat cs); after = drop run (TICK # concat cs)
           in case close_run tick run after of
                Some k \<Rightarrow> (i, i + run + k) # spans_from tick (i + run + k) (drop k after)
              | None \<Rightarrow> spans_from tick (i + run) after)"
        by (simp only: spans_from.simps(2) not_True_eq_False if_False refl)
      then show ?thesis by (simp only: cc [symmetric] m d Let_def)
    qed
    show ?thesis
    proof (cases "close_run ticks ?m ?after")
      case None
      have "mask_code (c # cs) = ?run @ mask_code ?after"
        using True None by (simp add: mask_code.simps(2) Let_def)
      also have "mask_code ?after = mask_at (spans_from tick (i + ?m) (concat ?after)) (i + ?m) ?after"
        using 2(2) [of ?m ?after "i + ?m"] True None ok by simp
      also have "?run = mask_at (spans_from tick (i + ?m) (concat ?after)) i ?run"
      proof (rule mask_at_none [symmetric])
        show "\<forall>x\<in>set ?run. x \<noteq> []" using ne set_take_subset [of ?m "c # cs"] by blast
      qed (use lr in \<open>auto dest: spans_from_ge\<close>)
      finally show ?thesis
        using None cr sp lr mask_at_append [of "spans_from tick (i + ?m) (concat ?after)" i ?run ?after] by simp
    next
      case (Some k)
      let ?in = "take k ?after" and ?rest = "drop k ?after"
      let ?e = "i + ?m + length (concat ?in)"
      let ?tail = "spans_from tick ?e (concat ?rest)"
      have kle: "k \<le> length ?after" using close_run_le [OF Some] .
      have dk: "drop (length (concat ?in)) (concat ?after) = concat ?rest"
        by (metis append_eq_conv_conj append_take_drop_id concat_append)
      have okr: "list_all ascii_alone ?rest" using ok set_drop_subset [of k ?after] by (auto simp: list_all_iff)
      have span: "spans_from tick i (concat (c # cs)) = (i, ?e) # ?tail"
        using sp cr Some dk by simp
      have nein: "\<forall>x\<in>set (?run @ ?in). x \<noteq> []"
        using ne set_take_subset [of k ?after] set_drop_subset [of ?m "c # cs"] set_take_subset [of ?m "c # cs"]
        by (simp only: set_append) blast
      have "?e = i + length (concat (?run @ ?in))" using lr by simp
      then have front: "mask_at ((i, ?e) # ?tail) i (?run @ ?in) = replicate (?m + k) [SPACE]"
        using mask_at_all [OF nein, of i ?tail] kle run by (simp only:) simp
      have "mask_code (c # cs) = replicate (?m + k) [SPACE] @ mask_code ?rest"
        using True Some by (simp add: mask_code.simps(2) Let_def)
      also have "mask_code ?rest = mask_at ?tail ?e ?rest"
        using 2(3) [of ?m ?after k ?e] True Some okr by simp
      also have "\<dots> = mask_at ((i, ?e) # ?tail) ?e ?rest" by (rule mask_at_past [symmetric]) simp
      also have "replicate (?m + k) [SPACE] @ mask_at ((i, ?e) # ?tail) ?e ?rest
          = mask_at ((i, ?e) # ?tail) i ((?run @ ?in) @ ?rest)"
        using front lr by (simp add: mask_at_append)
      also have "(?run @ ?in) @ ?rest = c # cs" by (simp only: append.assoc append_take_drop_id)
      finally show ?thesis using span by simp
    qed
  qed
qed (simp add: mask_at_def)

lemma length_mask_code: "length (mask_code cs) = length cs"
proof (induction cs rule: mask_code.induct)
  case (2 c cs)
  have "run_len ticks (c # cs) \<le> length (c # cs)" unfolding run_len_def by (rule length_takeWhile_le)
  moreover have "k \<le> length (drop (run_len ticks (c # cs)) (c # cs))"
    if "close_run ticks (run_len ticks (c # cs)) (drop (run_len ticks (c # cs)) (c # cs)) = Some k" for k
    using close_run_le [OF that] .
  ultimately show ?case using 2
    by (auto simp: mask_code.simps(2) Let_def split: option.splits)
qed simp


lemma set_mask_code: "set (mask_code cs) \<subseteq> insert [SPACE] (set cs)"
proof (induction cs rule: mask_code.induct)
  case (2 c cs)
  show ?case
  proof (cases "c = [TICK]")
    case False
    then show ?thesis using 2(1) by (auto simp: mask_code.simps(2))
  next
    case True
    let ?m = "run_len ticks (c # cs)"
    have after: "set (drop n (drop ?m (c # cs))) \<subseteq> set (c # cs)" for n
      by (metis (no_types, lifting) set_drop_subset subset_trans)
    show ?thesis
    proof (cases "close_run ticks ?m (drop ?m (c # cs))")
      case None
      with True 2(2) [of ?m "drop ?m (c # cs)"] after [of 0] set_take_subset [of ?m "c # cs"]
      show ?thesis by (auto simp: mask_code.simps(2) Let_def)
    next
      case (Some k)
      with True 2(3) [of ?m "drop ?m (c # cs)" k] after [of k]
      show ?thesis by (auto simp: mask_code.simps(2) Let_def)
    qed
  qed
qed simp

lemma ascii_alone_space: "ascii_alone [SPACE]"
  by (simp add: ascii_alone_def utf8_char_def is_continuation_def)

lemma chars_mask_inline_code:
  assumes "str_utf8 line" shows "chars (mask_inline_code line) = mask_code (chars line)"
proof -
  have "\<forall>c\<in>set (mask_code (chars line)). utf8_char c"
    using assms set_mask_code [of "chars line"] ascii_alone_space
    by (auto simp: str_utf8_def list_all_iff ascii_alone_def)
  then show ?thesis by (simp add: mask_inline_code_def chars_concat)
qed

lemma mask_inline_code_utf8: "str_utf8 line \<Longrightarrow> str_utf8 (mask_inline_code line)"
  unfolding str_utf8_def [of "mask_inline_code line"]
  using set_mask_code [of "chars line"] ascii_alone_space
  by (auto simp: chars_mask_inline_code str_utf8_def list_all_iff)

section \<open>Property\<close>

text \<open>
  The two dialects of inline code read one line the same way. Masking a line's code
  per character is masking the byte ranges \<open>code_spans\<close> answers, multi-byte characters
  included, and it keeps the line's character count, which the link rewrites align on.
\<close>

theorem code_dialects_agree:
  assumes "str_utf8 line"
  shows "mask_inline_code line = mask_ranges (code_spans line) line
    \<and> length (chars (mask_inline_code line)) = length (chars line)"
proof -
  have "mask_code (chars line) = mask_at (code_spans line) 0 (chars line)"
    using mask_code_spans [of "chars line" 0] assms by (simp add: str_utf8_def code_spans_def)
  then show ?thesis
    using chars_mask_inline_code [OF assms] length_mask_code [of "chars line"]
    by (simp add: mask_inline_code_def mask_ranges_def mask_at_def)
qed

theorem code_dialects_agree_witness:
  "mask_inline_code (''a'' @ [TICK, CHR 0xC3, CHR 0xA4, TICK] @ ''[['')
     = mask_ranges [(1, 5)] (''a'' @ [TICK, CHR 0xC3, CHR 0xA4, TICK] @ ''[['')"
proof -
  have ok: "str_utf8 (''a'' @ [TICK, CHR 0xC3, CHR 0xA4, TICK] @ ''[['')" by code_simp
  have "code_spans (''a'' @ [TICK, CHR 0xC3, CHR 0xA4, TICK] @ ''[['') = [(1, 5)]" by code_simp
  with code_dialects_agree [OF ok] show ?thesis by simp
qed

end
