(* ===== verification/LinkSyntax.thy ===== *)
theory LinkSyntax
  imports InlineCode LineEndings Searching
begin

text \<open>
  Inline Markdown links: the destination reader of \<open>core/src/reflection/links.rs\<close>
  (\<open>read_destination\<close> and what it calls, \<open>resolve\<close>, \<open>relative_to\<close>), the percent decoder of
  \<open>core/src/attachment.rs\<close>, the destination writer \<open>escape_link_url\<close> and the reserved file
  names of \<open>core/src/index.rs\<close>, and the link finders of \<open>core/src/parse.rs\<close>
  (\<open>link_text_start\<close>, \<open>note_link_start\<close>, \<open>relative_note_links\<close>,
  \<open>mask_link_destinations\<close>, \<open>mask_for_wikilinks\<close>, \<open>find_wikilinks\<close>).

  Offsets are byte offsets into the line, as in the code.
\<close>

abbreviation LINK_OPEN :: string where "LINK_OPEN \<equiv> '']('' "
abbreviation BACKSLASH :: char where "BACKSLASH \<equiv> CHR 0x5C"

section \<open>Reserved file names\<close>

definition INDEX_FILE :: string where "INDEX_FILE = ''index.md''"
definition LOG_FILE :: string where "LOG_FILE = ''log.md''"

definition is_reserved_file :: "string \<Rightarrow> bool" where
  "is_reserved_file name \<longleftrightarrow> name = INDEX_FILE \<or> name = LOG_FILE"

definition is_reserved_path :: "string \<Rightarrow> bool" where
  "is_reserved_path rel = is_reserved_file (last (split_on CHR ''/'' rel))"

definition is_index_file :: "string \<Rightarrow> bool" where
  "is_index_file name \<longleftrightarrow> name = INDEX_FILE"

definition is_index_path :: "string \<Rightarrow> bool" where
  "is_index_path rel = is_index_file (last (split_on CHR ''/'' rel))"

section \<open>Percent decoding\<close>

definition hex_nibble :: "char \<Rightarrow> nat option" where
  "hex_nibble c =
     (let n = of_char c :: nat
      in if 48 \<le> n \<and> n \<le> 57 then Some (n - 48)
         else if 97 \<le> n \<and> n \<le> 102 then Some (n - 97 + 10)
         else if 65 \<le> n \<and> n \<le> 70 then Some (n - 65 + 10)
         else None)"

fun percent_decode :: "string \<Rightarrow> string option" where
  "percent_decode [] = Some []"
| "percent_decode (c # cs) =
     (if c = CHR ''%'' then
        (case cs of
           a # b # rest \<Rightarrow>
             (case (hex_nibble a, hex_nibble b) of
                (Some hi, Some lo) \<Rightarrow> map_option ((#) (char_of (hi * 16 + lo))) (percent_decode rest)
              | _ \<Rightarrow> None)
         | _ \<Rightarrow> None)
      else map_option ((#) c) (percent_decode cs))"

definition percent_decode_target :: "string \<Rightarrow> string" where
  "percent_decode_target target =
     (if CHR ''%'' \<notin> set target then target
      else (case percent_decode target of
              None \<Rightarrow> target
            | Some out \<Rightarrow> if valid_up_to out = length out then out else target))"

section \<open>Reading and writing a destination\<close>

fun closing_scan :: "nat \<Rightarrow> nat \<Rightarrow> string \<Rightarrow> nat option" where
  "closing_scan depth i [] = None"
| "closing_scan depth i (c # cs) =
     (if c = BACKSLASH \<and> (case cs of d # _ \<Rightarrow> d \<in> {CHR ''('', CHR '')'', BACKSLASH} | [] \<Rightarrow> False)
      then closing_scan depth (i + 2) (tl cs)
      else if c = CHR ''('' then closing_scan (depth + 1) (i + 1) cs
      else if c = CHR '')'' then
        (if depth - 1 = 0 then Some i else closing_scan (depth - 1) (i + 1) cs)
      else closing_scan depth (i + 1) cs)"

definition closing_paren :: "string \<Rightarrow> nat \<Rightarrow> nat option" where
  "closing_paren line from = closing_scan 1 from (drop from line)"

definition is_ascii_punctuation :: "char \<Rightarrow> bool" where
  "is_ascii_punctuation c \<longleftrightarrow>
     (let n = of_char c :: nat
      in 33 \<le> n \<and> n \<le> 47 \<or> 58 \<le> n \<and> n \<le> 64 \<or> 91 \<le> n \<and> n \<le> 96 \<or> 123 \<le> n \<and> n \<le> 126)"

fun unescape_backslashes :: "string \<Rightarrow> string" where
  "unescape_backslashes [] = []"
| "unescape_backslashes (c # cs) =
     (if c = BACKSLASH \<and> (case cs of d # _ \<Rightarrow> is_ascii_punctuation d | [] \<Rightarrow> False)
      then unescape_backslashes cs
      else c # unescape_backslashes cs)"

definition ends_destination :: "char \<Rightarrow> bool" where
  "ends_destination c \<longleftrightarrow> c = SPACE \<or> (of_char c :: nat) < 32 \<or> (of_char c :: nat) = 127"

definition decode_target :: "string \<Rightarrow> string \<times> string option" where
  "decode_target target =
     (let (path, fragment) =
        (case split_once CHR ''#'' target of Some (p, f) \<Rightarrow> (p, Some f) | None \<Rightarrow> (target, None))
      in (percent_decode_target (unescape_backslashes path), fragment))"

record destination =
  ds_path :: string
  ds_fragment :: "string option"
  ds_rest :: string
  ds_close :: nat

definition str_slice :: "string \<Rightarrow> nat \<Rightarrow> nat \<Rightarrow> string" where
  "str_slice s i j = take (j - i) (drop i s)"

definition destination_of :: "string \<Rightarrow> string \<Rightarrow> nat \<Rightarrow> destination" where
  "destination_of target rest close =
     (let (path, fragment) = decode_target target
      in \<lparr>ds_path = path, ds_fragment = fragment, ds_rest = rest, ds_close = close\<rparr>)"

definition read_destination :: "string \<Rightarrow> nat \<Rightarrow> destination option" where
  "read_destination line open =
     (if starts_with ''<'' (drop open line) then
        (case find_str ''>'' (drop (open + 1) line) of
           None \<Rightarrow> None
         | Some at \<Rightarrow>
             (let gt = open + 1 + at
              in case closing_paren line (gt + 1) of
                   None \<Rightarrow> None
                 | Some close \<Rightarrow>
                     Some (destination_of (str_slice line (open + 1) gt) (str_slice line (gt + 1) close) close)))
      else
        (case closing_paren line open of
           None \<Rightarrow> None
         | Some close \<Rightarrow>
             (let inside = str_slice line open close;
                  target = takeWhile (\<lambda>c. \<not> ends_destination c) inside;
                  rest = dropWhile (\<lambda>c. \<not> ends_destination c) inside
              in Some (destination_of target rest close))))"

fun replace_char :: "char \<Rightarrow> string \<Rightarrow> string \<Rightarrow> string" where
  "replace_char a by [] = []"
| "replace_char a by (c # cs) = (if c = a then by else [c]) @ replace_char a by cs"

definition escape_link_url :: "string \<Rightarrow> string" where
  "escape_link_url url =
     (if list_ex (\<lambda>c. c \<in> {SPACE, CHR ''('', CHR '')'', CHR ''<'', CHR ''>''}) url
      then ''<'' @ replace_char CHR ''>'' ''%3E'' (replace_char CHR ''<'' ''%3C'' url) @ ''>''
      else url)"

section \<open>Relative paths\<close>

definition folder_of :: "string \<Rightarrow> string" where
  "folder_of path = (case rsplit_once CHR ''/'' path of Some (dir, _) \<Rightarrow> dir | None \<Rightarrow> [])"

definition path_parts :: "string \<Rightarrow> string list" where
  "path_parts path = filter (\<lambda>s. s \<noteq> []) (split_on CHR ''/'' path)"

fun walk_segments :: "string list \<Rightarrow> string list \<Rightarrow> string list option" where
  "walk_segments parts [] = Some parts"
| "walk_segments parts (segment # segs) =
     (if segment = [] \<or> segment = ''.'' then walk_segments parts segs
      else if segment = ''..'' then (if parts = [] then None else walk_segments (butlast parts) segs)
      else walk_segments (parts @ [segment]) segs)"

definition resolve_path :: "string \<Rightarrow> string \<Rightarrow> string option" where
  "resolve_path from_file target =
     map_option (join_with ''/'') (walk_segments (path_parts (folder_of from_file)) (split_on CHR ''/'' target))"

definition resolve_in_domain :: "string \<Rightarrow> string \<Rightarrow> string option" where
  "resolve_in_domain from_file target =
     (case resolve_path from_file target of
        Some path \<Rightarrow> if path \<noteq> [] then Some path else None
      | None \<Rightarrow> None)"

definition relative_to :: "string \<Rightarrow> string \<Rightarrow> string" where
  "relative_to from_file target =
     (let from = path_parts (folder_of from_file); to = split_on CHR ''/'' target;
          common = length (takeWhile (\<lambda>(a, b). a = b) (zip from to))
      in join_with ''/'' (replicate (length from - common) ''..'' @ drop common to))"

definition is_relative :: "string \<Rightarrow> bool" where
  "is_relative target \<longleftrightarrow>
     target \<noteq> [] \<and> \<not> starts_with ''#'' target \<and> \<not> starts_with ''/'' target
     \<and> \<not> contains_str ''://'' target \<and> \<not> starts_with ''mailto:'' target"

section \<open>Finding links on a line\<close>

fun link_text_back :: "string \<Rightarrow> nat \<Rightarrow> nat \<Rightarrow> nat option" where
  "link_text_back line depth 0 = None"
| "link_text_back line depth (Suc i) =
     (let escaped = 0 < i \<and> line ! (i - 1) = BACKSLASH
      in if line ! i = CHR '']'' \<and> \<not> escaped then link_text_back line (depth + 1) i
         else if line ! i = CHR ''['' \<and> \<not> escaped then
           (if depth = 0 then Some i else link_text_back line (depth - 1) i)
         else link_text_back line depth i)"

definition link_text_start :: "string \<Rightarrow> nat \<Rightarrow> nat option" where
  "link_text_start line close = link_text_back line 0 close"

definition note_link_start :: "string \<Rightarrow> nat \<Rightarrow> string \<Rightarrow> nat option" where
  "note_link_start line close_text path =
     (case link_text_start line close_text of
        None \<Rightarrow> None
      | Some start \<Rightarrow>
          (let image = ends_with ''!'' (take start line);
               note = ends_with ''.md'' (ascii_lowercase path)
           in if \<not> image \<and> note \<and> is_relative path then Some start else None))"

lemma closing_scan_ge: "closing_scan depth i s = Some k \<Longrightarrow> i \<le> k \<and> k < i + length s"
proof (induction depth i s rule: closing_scan.induct)
  case (2 depth i c cs)
  let ?esc = "c = BACKSLASH \<and> (case cs of d # _ \<Rightarrow> d \<in> {CHR ''('', CHR '')'', BACKSLASH} | [] \<Rightarrow> False)"
  show ?case
  proof (cases ?esc)
    case True
    have "closing_scan depth (i + 2) (tl cs) = Some k"
      using 2(5) unfolding closing_scan.simps(2) if_P [OF True] .
    then show ?thesis using 2(1) [OF True] True by (cases cs) auto
  next
    case False
    show ?thesis
      using 2(5) 2(2-4) [OF False]
      unfolding closing_scan.simps(2) if_not_P [OF False] by (auto split: if_splits)
  qed
qed simp

lemma closing_paren_ge: "closing_paren line from = Some k \<Longrightarrow> from \<le> k \<and> k < length line"
  using closing_scan_ge [of 1 "from" "drop from line" k]
  by (cases "from \<le> length line") (auto simp: closing_paren_def)

lemma read_destination_close:
  "read_destination line open = Some d \<Longrightarrow> open \<le> ds_close d \<and> ds_close d < length line"
  by (auto simp: read_destination_def Let_def destination_of_def
      split: if_splits option.splits prod.splits dest!: closing_paren_ge)

text \<open>
  The walk over the \<open>](\<close> of a line, shared by both finders: each one that closes a link
  text and opens a destination is answered with the offset of its \<open>]\<close>, and the search
  goes on after the destination, or after the \<open>](\<close> when it opens none.
\<close>

function inline_links :: "string \<Rightarrow> nat \<Rightarrow> (nat \<times> destination) list" where
  "inline_links line cursor =
     (case find_str LINK_OPEN (drop cursor line) of
        None \<Rightarrow> []
      | Some found \<Rightarrow>
          (let close_text = cursor + found; open = close_text + 2
           in if link_text_start line close_text = None then inline_links line open
              else (case read_destination line open of
                      None \<Rightarrow> inline_links line open
                    | Some dest \<Rightarrow> (close_text, dest) # inline_links line (ds_close dest))))"
  by pat_completeness auto
termination
proof (relation "measure (\<lambda>(line, cursor). length line - cursor)", goal_cases)
  case (2 line cursor found close_text opn)
  then show ?case using find_str_le by fastforce
next
  case (3 line cursor found close_text opn)
  then show ?case using find_str_le by fastforce
next
  case (4 line cursor found close_text opn dest)
  then show ?case using find_str_le [of LINK_OPEN "drop cursor line" found] read_destination_close [of line opn dest]
    by auto
qed simp

declare inline_links.simps [simp del]

definition relative_note_links :: "string \<Rightarrow> (nat \<times> string) list" where
  "relative_note_links line =
     (let spans = code_spans line
      in List.map_filter (\<lambda>(close_text, dest).
           case note_link_start line close_text (ds_path dest) of
             None \<Rightarrow> None
           | Some start \<Rightarrow>
               if \<not> in_ranges spans close_text \<and> \<not> is_reserved_path (ds_path dest)
               then Some (start, ds_path dest) else None)
         (inline_links line 0))"

definition mask_link_destinations :: "string \<Rightarrow> string" where
  "mask_link_destinations line =
     (let ranges = map (\<lambda>(close_text, dest). (close_text + 2, ds_close dest)) (inline_links line 0)
      in if ranges = [] then line else mask_ranges ranges line)"

definition mask_for_wikilinks :: "string \<Rightarrow> string" where
  "mask_for_wikilinks line =
     (let code = (if TICK \<in> set line then mask_inline_code line else line)
      in if \<not> contains_str LINK_OPEN code then code else mask_link_destinations code)"

function find_wikilinks :: "string \<Rightarrow> string list" where
  "find_wikilinks masked =
     (case find_str ''[['' masked of
        None \<Rightarrow> []
      | Some open \<Rightarrow>
          (let after = drop (open + 2) masked
           in case find_str '']]'' after of
                None \<Rightarrow> []
              | Some close \<Rightarrow> take close after # find_wikilinks (drop (close + 2) after)))"
  by pat_completeness auto
termination
  by (relation "measure length") (auto dest!: find_str_le)

declare find_wikilinks.simps [simp del]

section \<open>Relative paths lead back\<close>

definition normal_segment :: "string \<Rightarrow> bool" where
  "normal_segment s \<longleftrightarrow> s \<noteq> [] \<and> s \<noteq> ''.'' \<and> s \<noteq> ''..''"

lemma walk_up: "walk_segments (p @ r) (replicate (length r) ''..'' @ xs) = walk_segments p xs"
  by (induction r rule: rev_induct) (auto simp flip: append_assoc)

lemma walk_down: "list_all normal_segment xs \<Longrightarrow> walk_segments p xs = Some (p @ xs)"
  by (induction xs arbitrary: p) (auto simp: normal_segment_def)

lemma walk_there:
  fixes src dst :: "string list"
  assumes "list_all normal_segment dst"
  defines "common \<equiv> length (takeWhile (\<lambda>(a, b). a = b) (zip src dst))"
  shows "walk_segments src (replicate (length src - common) ''..'' @ drop common dst) = Some dst"
    and "common \<le> length src" "common \<le> length dst"
proof -
  let ?zs = "takeWhile (\<lambda>(a, b). a = b) (zip src dst)"
  have le: "common \<le> length (zip src dst)" unfolding common_def by (rule length_takeWhile_le)
  then show len: "common \<le> length src" "common \<le> length dst" by simp_all
  have "?zs = take common (zip src dst)" unfolding common_def by (rule takeWhile_eq_take)
  then have z: "?zs = zip (take common src) (take common dst)" by (simp add: take_zip)
  moreover have "\<forall>(a, b)\<in>set ?zs. a = b" by (auto dest: set_takeWhileD)
  ultimately have "map fst ?zs = map snd ?zs" by auto
  then have pre: "take common src = take common dst" using len by (simp add: z)
  have "walk_segments src (replicate (length src - common) ''..'' @ drop common dst)
      = walk_segments (take common src) (drop common dst)"
    using walk_up [of "take common src" "drop common src" "drop common dst"] by simp
  also have "\<dots> = Some (take common dst @ drop common dst)"
    using walk_down [of "drop common dst" "take common src"] assms(1) pre set_drop_subset [of common dst]
    by (auto simp: list_all_iff)
  finally show "walk_segments src (replicate (length src - common) ''..'' @ drop common dst) = Some dst" by simp
qed

section \<open>Destinations survive their text\<close>

lemma closing_scan_plain:
  "\<forall>c\<in>set t. c \<noteq> BACKSLASH \<and> c \<noteq> CHR ''('' \<and> c \<noteq> CHR '')'' \<Longrightarrow>
     closing_scan (Suc 0) i (t @ CHR '')'' # post) = Some (i + length t)"
  by (induction t arbitrary: i) auto

lemma unescape_plain: "BACKSLASH \<notin> set t \<Longrightarrow> unescape_backslashes t = t"
  by (induction t) auto

abbreviation (input) encode :: "string \<Rightarrow> string" where
  "encode u \<equiv> replace_char CHR ''>'' ''%3E'' (replace_char CHR ''<'' ''%3C'' u)"

lemma replace_char_append: "replace_char a by (s @ t) = replace_char a by s @ replace_char a by t"
  by (induction s) auto

definition encode1 :: "char \<Rightarrow> string" where
  "encode1 c = (if c = CHR ''<'' then ''%3C'' else if c = CHR ''>'' then ''%3E'' else [c])"

lemma encode_concat: "encode u = concat (map encode1 u)"
  by (induction u) (auto simp: replace_char_append encode1_def)

lemma set_encode1: "set (encode1 c) \<subseteq> {c} - {CHR ''<'', CHR ''>''} \<union> set ''%3CE''"
  by (simp add: encode1_def)

lemma set_encode: "set (encode u) \<subseteq> set u - {CHR ''<'', CHR ''>''} \<union> set ''%3CE''"
  unfolding encode_concat set_concat set_map using set_encode1 by blast

lemma encode_plain: "CHR ''%'' \<notin> set (encode u) \<Longrightarrow> encode u = u"
  unfolding encode_concat by (induction u) (simp_all add: encode1_def split: if_splits)

lemma encode_same: "CHR ''<'' \<notin> set u \<Longrightarrow> CHR ''>'' \<notin> set u \<Longrightarrow> encode u = u"
  unfolding encode_concat by (induction u) (auto simp: encode1_def)

lemma decode_encode1:
  assumes "c \<noteq> CHR ''%''"
  shows "percent_decode (encode1 c @ s) = map_option ((#) c) (percent_decode s)"
proof -
  have hex: "hex_nibble CHR ''3'' = Some 3" "hex_nibble CHR ''C'' = Some 12" "hex_nibble CHR ''E'' = Some 14"
    "(char_of (60::nat) :: char) = CHR ''<''" "(char_of (62::nat) :: char) = CHR ''>''"
    by code_simp+
  then show ?thesis using assms by (simp add: encode1_def)
qed

lemma decode_encode: "CHR ''%'' \<notin> set u \<Longrightarrow> percent_decode (encode u) = Some u"
  unfolding encode_concat by (induction u) (simp_all add: decode_encode1 [OF not_sym])

definition plain_url :: "string \<Rightarrow> bool" where
  "plain_url u \<longleftrightarrow> valid_up_to u = length u
     \<and> list_all (\<lambda>c. c \<notin> {CHR ''%'', CHR ''#'', BACKSLASH} \<and> 32 \<le> (of_char c :: nat) \<and> (of_char c :: nat) \<noteq> 127) u"

lemma plain_urlD:
  "plain_url u \<Longrightarrow> c \<in> set u \<Longrightarrow>
     c \<noteq> CHR ''%'' \<and> c \<noteq> CHR ''#'' \<and> c \<noteq> BACKSLASH \<and> 32 \<le> (of_char c :: nat) \<and> (of_char c :: nat) \<noteq> 127"
  by (simp add: plain_url_def list_all_iff)

lemma decode_target_encode:
  assumes "plain_url u" shows "decode_target (encode u) = (u, None)"
proof -
  have u: "CHR ''%'' \<notin> set u" "CHR ''#'' \<notin> set (encode u)" "BACKSLASH \<notin> set (encode u)"
    using plain_urlD [OF assms] set_encode [of u] by fastforce+
  show ?thesis
    using u(2,3) decode_encode [OF u(1)] encode_plain [of u] assms
    by (simp add: decode_target_def unescape_plain percent_decode_target_def plain_url_def)
qed

lemma str_slice_mid: "str_slice (pre @ t @ post) (length pre) (length pre + length t) = t"
  by (simp add: str_slice_def)

lemma read_angle:
  assumes "CHR ''>'' \<notin> set t"
  shows "read_destination (pre @ ''<'' @ t @ ''>'' @ '')'' @ post) (length pre)
    = Some (destination_of t [] (length pre + length t + 2))"
proof -
  let ?line = "pre @ ''<'' @ t @ ''>'' @ '')'' @ post"
  have f: "find_str ''>'' (drop (length pre + 1) ?line) = Some (length t)"
    using find_str_char [OF assms, of "'')'' @ post"] by simp
  have c: "closing_paren ?line (length pre + 1 + length t + 1) = Some (length pre + length t + 2)"
    by (simp add: closing_paren_def)
  have s: "str_slice ?line (length pre + 1) (length pre + 1 + length t) = t"
    by (simp add: str_slice_def)
  have r: "str_slice ?line (length pre + 1 + length t + 1) (length pre + length t + 2) = []"
    by (simp add: str_slice_def)
  show ?thesis
    unfolding read_destination_def f option.case Let_def c s r by simp
qed

lemma read_bare:
  assumes "\<forall>c\<in>set t. c \<noteq> BACKSLASH \<and> c \<notin> {CHR ''('', CHR '')'', CHR ''<''} \<and> \<not> ends_destination c"
  shows "read_destination (pre @ t @ '')'' @ post) (length pre)
    = Some (destination_of t [] (length pre + length t))"
proof -
  let ?line = "pre @ t @ '')'' @ post"
  have n: "\<not> starts_with ''<'' (drop (length pre) ?line)"
    using assms by (cases t) auto
  have c: "closing_paren ?line (length pre) = Some (length pre + length t)"
    using closing_scan_plain [of t "length pre" post] assms by (auto simp: closing_paren_def)
  have s: "str_slice ?line (length pre) (length pre + length t) = t" by (rule str_slice_mid)
  have tw: "takeWhile (\<lambda>c. \<not> ends_destination c) t = t" "dropWhile (\<lambda>c. \<not> ends_destination c) t = []"
    using assms by (auto simp: takeWhile_eq_all_conv)
  show ?thesis
    unfolding read_destination_def if_not_P [OF n] c option.case Let_def s tw ..
qed

section \<open>Properties\<close>

text \<open>
  A relative link leads back. The path \<open>relative_to\<close> writes from one file to another
  resolves, from that file, to exactly the other file, however deep either sits; a link
  never resolves to a path above the folder it is relative to.
\<close>

theorem relative_to_resolves:
  assumes "list_all normal_segment (split_on CHR ''/'' target)"
  shows "resolve_path from_file (relative_to from_file target) = Some target
    \<and> resolve_in_domain from_file (relative_to from_file target) = Some target"
proof -
  let ?from = "path_parts (folder_of from_file)" and ?to = "split_on CHR ''/'' target"
  let ?common = "length (takeWhile (\<lambda>(a, b). a = b) (zip ?from ?to))"
  let ?out = "replicate (length ?from - ?common) ''..'' @ drop ?common ?to"
  have walk: "walk_segments ?from ?out = Some ?to"
    using walk_there(1) [OF assms] .
  have noslash: "\<forall>p\<in>set ?out. CHR ''/'' \<notin> set p"
    using set_drop_subset [of ?common ?to] by (auto dest: split_on_no_sep split: if_splits)
  have "walk_segments ?from (split_on CHR ''/'' (join_with ''/'' ?out)) = Some ?to"
  proof (cases "?out = []")
    case True
    then show ?thesis using walk by simp
  next
    case False
    then show ?thesis using walk split_join [OF False noslash] by simp
  qed
  then have "resolve_path from_file (relative_to from_file target) = Some target"
    by (simp add: resolve_path_def relative_to_def Let_def)
  moreover have "target \<noteq> []" using assms by (auto simp: normal_segment_def)
  ultimately show ?thesis by (simp add: resolve_in_domain_def)
qed

theorem relative_to_resolves_witness:
  "relative_to ''a/b/c.md'' ''a/d/e.md'' = ''../d/e.md''
   \<and> resolve_path ''a/b/c.md'' ''../d/e.md'' = Some ''a/d/e.md''"
proof -
  have r: "relative_to ''a/b/c.md'' ''a/d/e.md'' = ''../d/e.md''" by code_simp
  have "list_all normal_segment (split_on CHR ''/'' ''a/d/e.md'')" by code_simp
  from relative_to_resolves [OF this, of "''a/b/c.md''"] r show ?thesis by simp
qed

text \<open>
  What \<open>escape_link_url\<close> writes between \<open>](\<close> and \<open>)\<close> is read back as the same path,
  with no title and no fragment, and the destination ends at that parenthesis, spaces,
  parentheses and angle brackets in the path included, for every path without \<open>%\<close>, \<open>#\<close>,
  backslash and control characters.
\<close>

theorem link_url_roundtrip:
  assumes "plain_url u"
  shows "read_destination (pre @ escape_link_url u @ '')'' @ post) (length pre)
    = Some \<lparr>ds_path = u, ds_fragment = None, ds_rest = [], ds_close = length pre + length (escape_link_url u)\<rparr>"
proof (cases "list_ex (\<lambda>c. c \<in> {SPACE, CHR ''('', CHR '')'', CHR ''<'', CHR ''>''}) u")
  case True
  have "CHR ''>'' \<notin> set (encode u)" using set_encode [of u] by auto
  from read_angle [OF this, of pre post] True show ?thesis
    by (simp add: escape_link_url_def destination_of_def decode_target_encode [OF assms])
next
  case False
  then have esc: "escape_link_url u = u" by (simp add: escape_link_url_def)
  have free: "c \<noteq> SPACE \<and> c \<noteq> CHR ''('' \<and> c \<noteq> CHR '')'' \<and> c \<noteq> CHR ''<'' \<and> c \<noteq> CHR ''>''" if "c \<in> set u" for c
    using False that unfolding list_ex_iff by blast
  have chars: "\<forall>c\<in>set u. c \<noteq> BACKSLASH \<and> c \<notin> {CHR ''('', CHR '')'', CHR ''<''} \<and> \<not> ends_destination c"
    using free plain_urlD [OF assms] by (simp add: ends_destination_def linorder_not_less)
  have e: "encode u = u" using free by (intro encode_same) blast+
  show ?thesis
    using read_bare [OF chars, of pre post] decode_target_encode [OF assms]
    by (simp add: esc e destination_of_def)
qed

theorem link_url_roundtrip_witness:
  "escape_link_url ''a (b).md'' = ''<a (b).md>''
   \<and> map_option ds_path (read_destination (''[t]('' @ ''<a (b).md>'' @ '')'') 4) = Some ''a (b).md''"
proof -
  have e: "escape_link_url ''a (b).md'' = ''<a (b).md>''" by code_simp
  have "plain_url ''a (b).md''" by code_simp
  from link_url_roundtrip [OF this, of "''[t](''" "[]"] e
  have "read_destination (''[t]('' @ ''<a (b).md>'' @ '')'') (length ''[t]('') = Some
      \<lparr>ds_path = ''a (b).md'', ds_fragment = None, ds_rest = [], ds_close = length ''[t]('' + length ''<a (b).md>''\<rparr>"
    by (simp only: append_Nil2)
  moreover have "length ''[t]('' = 4" by simp
  ultimately show ?thesis using e by (simp only: option.map destination.simps)
qed

end
