(* ===== verification/LinkText.thy ===== *)
theory LinkText
  imports LinkResolution LinkSyntax Trimming
begin

text \<open>
  The text of a link target: \<open>LinkTarget::parse\<close> and what it calls, \<open>written\<close>,
  \<open>same_place\<close>, \<open>wikilink\<close>, \<open>relative\<close> and \<open>stored_target\<close> of \<open>core/src/engram.rs\<close>.
\<close>

section \<open>Link targets\<close>

definition contains_ws :: "string \<Rightarrow> bool" where
  "contains_ws s = list_ex (\<lambda>w. contains_str w s) ws_chars"

definition split_fragment :: "string \<Rightarrow> string \<times> string option" where
  "split_fragment part =
     (case split_once CHR ''#'' part of
        Some (before, after) \<Rightarrow> if trim before \<noteq> [] then (before, Some after) else (part, None)
      | None \<Rightarrow> (part, None))"

definition split_alias :: "string \<Rightarrow> string \<times> string option" where
  "split_alias inner =
     (case split_once CHR ''|'' inner of
        Some (target, alias) \<Rightarrow>
          (let alias = trim alias in (trim target, if alias \<noteq> [] then Some alias else None))
      | None \<Rightarrow> (trim inner, None))"

definition plain_target :: "string option \<Rightarrow> string \<Rightarrow> string \<Rightarrow> string option \<Rightarrow> link_target" where
  "plain_target domain target raw alias =
     \<lparr>tg_domain = domain, tg_target = target, tg_fragment = None, tg_whole = None,
      tg_raw = raw, tg_form = Wiki, tg_alias = alias\<rparr>"

definition read_prefix :: "string \<Rightarrow> string option \<Rightarrow> link_target" where
  "read_prefix part alias =
     (case split_once CHR '':'' part of
        Some (domain, rest) \<Rightarrow>
          (let domain = trim domain; rest = trim rest
           in if domain \<noteq> [] \<and> rest \<noteq> [] \<and> \<not> contains_ws domain
              then plain_target (Some domain) rest part alias
              else plain_target None part part alias)
      | None \<Rightarrow> plain_target None part part alias)"

definition parse_target :: "string \<Rightarrow> link_target" where
  "parse_target inner =
     (let (part, alias) = split_alias inner; (before, fragment) = split_fragment part
      in case fragment of
           None \<Rightarrow> read_prefix part alias
         | Some fragment \<Rightarrow>
             (let link = read_prefix (trim before) alias;
                  unsplit = read_prefix part None;
                  link = (if tg_domain unsplit = tg_domain link
                          then link\<lparr>tg_whole := Some (tg_target unsplit)\<rparr> else link);
                  fragment = trim fragment
              in link\<lparr>tg_fragment := (if fragment \<noteq> [] then Some fragment else None)\<rparr>))"

definition relative_target :: "string \<Rightarrow> link_target" where
  "relative_target path =
     \<lparr>tg_domain = None, tg_target = path, tg_fragment = None, tg_whole = None,
      tg_raw = path, tg_form = Relative, tg_alias = None\<rparr>"

definition stored_target :: "link_target \<Rightarrow> string \<Rightarrow> string" where
  "stored_target t from_path =
     (case tg_form t of
        Wiki \<Rightarrow> tg_target t
      | Relative \<Rightarrow>
          (case resolve_path from_path (tg_target t) of
             Some p \<Rightarrow> if p \<noteq> [] then p else tg_target t
           | None \<Rightarrow> tg_target t))"

definition written :: "link_target \<Rightarrow> string" where
  "written t =
     (case tg_domain t of Some d \<Rightarrow> d @ '':'' | None \<Rightarrow> []) @ tg_target t
     @ (case tg_fragment t of Some f \<Rightarrow> ''#'' @ f | None \<Rightarrow> [])"

definition same_place :: "link_target \<Rightarrow> link_target \<Rightarrow> bool" where
  "same_place a b \<longleftrightarrow>
     tg_domain a = tg_domain b \<and> tg_target a = tg_target b \<and> tg_fragment a = tg_fragment b
     \<and> tg_raw a = tg_raw b \<and> tg_form a = tg_form b"

definition wikilink :: "string \<Rightarrow> link_target option" where
  "wikilink inner =
     (if CHR ''|'' \<in> set inner \<and> fst (split_alias inner) = [] then None else Some (parse_target inner))"

section \<open>Writing a target back\<close>

text \<open>The three fields a target is written from.\<close>

definition place :: "link_target \<Rightarrow> string option \<times> string \<times> string option" where
  "place t = (tg_domain t, tg_target t, tg_fragment t)"

lemma ws_byte_punct [simp]: "\<not> ws_byte CHR '':''" "\<not> ws_byte CHR ''#''"
  unfolding ws_byte_code by code_simp+

lemma part_trimmed: "fst (split_alias inner) = trim (fst (split_alias inner))"
  by (auto simp: split_alias_def Let_def split: option.splits)

lemma part_no_bar: "CHR ''|'' \<notin> set (fst (split_alias inner))"
  using set_trim by (auto simp: split_alias_def split_once_Some Let_def split: option.splits)

lemma split_alias_trimmed:
  assumes "no_lead p" "no_trail p" "CHR ''|'' \<notin> set p" shows "split_alias p = (p, None)"
  using assms by (simp add: split_alias_def trim_fixed)

lemma split_once_join: "d \<notin> set a \<Longrightarrow> split_once d (a @ d # b) = Some (a, b)"
  by (simp add: split_once_Some)

definition prefix_place :: "string \<Rightarrow> string option \<times> string" where
  "prefix_place p = (tg_domain (read_prefix p None), tg_target (read_prefix p None))"

lemma read_prefix_place:
  "tg_domain (read_prefix p a) = fst (prefix_place p)" "tg_target (read_prefix p a) = snd (prefix_place p)"
  "tg_fragment (read_prefix p a) = None"
  by (auto simp: prefix_place_def read_prefix_def plain_target_def Let_def split: option.splits prod.splits)

lemma prefix_place_cases:
  obtains "prefix_place p = (None, p)"
  | d r d0 r0 where "prefix_place p = (Some d, r)" "p = d0 @ CHR '':'' # r0" "CHR '':'' \<notin> set d0"
      "d = trim d0" "r = trim r0" "d \<noteq> []" "r \<noteq> []" "\<not> contains_ws d"
proof (cases "split_once CHR '':'' p")
  case None
  then have "prefix_place p = (None, p)" by (simp add: prefix_place_def read_prefix_def plain_target_def)
  then show thesis by (rule that(1))
next
  case (Some dr)
  obtain d0 r0 where dr: "dr = (d0, r0)" by (cases dr)
  have p: "p = d0 @ CHR '':'' # r0" "CHR '':'' \<notin> set d0"
    using Some dr by (simp_all add: split_once_Some)
  let ?ok = "trim d0 \<noteq> [] \<and> trim r0 \<noteq> [] \<and> \<not> contains_ws (trim d0)"
  have r: "read_prefix p None = (if ?ok then plain_target (Some (trim d0)) (trim r0) p None else plain_target None p p None)"
    by (simp add: read_prefix_def Some dr Let_def)
  show thesis
  proof (cases ?ok)
    case True
    then have "prefix_place p = (Some (trim d0), trim r0)" by (simp add: prefix_place_def r plain_target_def)
    from that(2) [OF this p] True show thesis by simp
  next
    case False
    have "prefix_place p = (None, p)"
      unfolding prefix_place_def r if_not_P [OF False] by (simp add: plain_target_def)
    then show thesis by (rule that(1))
  qed
qed

lemma prefix_place_again:
  assumes "no_lead d" "no_trail d" "no_lead r" "no_trail r" "d \<noteq> []" "r \<noteq> []" "\<not> contains_ws d"
    "CHR '':'' \<notin> set d"
  shows "prefix_place (d @ CHR '':'' # r) = (Some d, r)"
  using assms by (simp add: prefix_place_def read_prefix_def plain_target_def split_once_join trim_fixed Let_def)

lemma place_parse:
  "place (parse_target inner) =
     (let part = fst (split_alias inner)
      in case snd (split_fragment part) of
           None \<Rightarrow> (fst (prefix_place part), snd (prefix_place part), None)
         | Some f \<Rightarrow>
             (let b = trim (fst (split_fragment part))
              in (fst (prefix_place b), snd (prefix_place b), if trim f \<noteq> [] then Some (trim f) else None)))"
  by (auto simp: place_def parse_target_def Let_def read_prefix_place split: option.splits prod.splits)


text \<open>What a place is written as, and that parsing the writing answers the place.\<close>

definition write_place :: "string option \<times> string \<times> string option \<Rightarrow> string" where
  "write_place pl =
     (let (domain, target, fragment) = pl
      in (case domain of Some d \<Rightarrow> d @ '':'' | None \<Rightarrow> []) @ target
         @ (case fragment of Some f \<Rightarrow> ''#'' @ f | None \<Rightarrow> []))"

lemma written_place: "written t = write_place (place t)"
  by (simp add: written_def write_place_def place_def)

definition head_text :: "string option \<times> string \<Rightarrow> string" where
  "head_text pl = (case fst pl of Some d \<Rightarrow> d @ '':'' | None \<Rightarrow> []) @ snd pl"

lemma head_text_forms:
  assumes "no_lead p" "no_trail p"
  shows "no_lead (head_text (prefix_place p)) \<and> no_trail (head_text (prefix_place p)) \<and>
    prefix_place (head_text (prefix_place p)) = prefix_place p \<and> set (head_text (prefix_place p)) \<subseteq> set p \<and>
    (head_text (prefix_place p) = [] \<longleftrightarrow> p = []) \<and>
    (hd p = CHR ''#'' \<longrightarrow> hd (head_text (prefix_place p)) = CHR ''#'')"
proof (cases rule: prefix_place_cases [of p])
  case 1
  then show ?thesis using assms by (simp add: head_text_def)
next
  case (2 d r d0 r0)
  have h: "head_text (prefix_place p) = d @ CHR '':'' # r" using 2(1) by (simp add: head_text_def)
  have d: "no_lead d" "no_trail d" "no_lead r" "no_trail r" using 2(4,5) trim_form by metis+
  have nd: "CHR '':'' \<notin> set d" using 2(3,4) set_trim [of d0] by auto
  have "set d \<subseteq> set d0" "set r \<subseteq> set r0" using 2(4,5) set_trim by metis+
  then have sub: "set (d @ CHR '':'' # r) \<subseteq> set p" using 2(2) by auto
  have "no_lead d0" using assms(1) starts_with_prefix [of _ d0 "CHR '':'' # r0"] 2(2) by (auto simp: no_lead_def)
  then obtain y where y: "d0 = d @ y" using trim_prefix 2(4) by blast
  then have hd: "hd p = hd (d @ CHR '':'' # r)" using 2(2,6) by (simp add: hd_append)
show ?thesis
    unfolding h using no_lead_join [OF d(1)] no_trail_join [OF d(4)] sub hd 2(2)
      prefix_place_again [OF d 2(6,7,8) nd] 2(1) by simp
qed

lemma head_text_again:
  assumes "no_lead p" "no_trail p"
  shows "no_lead (head_text (prefix_place p))" "no_trail (head_text (prefix_place p))"
    "prefix_place (head_text (prefix_place p)) = prefix_place p"
    "set (head_text (prefix_place p)) \<subseteq> set p"
    "head_text (prefix_place p) = [] \<longleftrightarrow> p = []"
    "hd p = CHR ''#'' \<Longrightarrow> hd (head_text (prefix_place p)) = CHR ''#''"
  using head_text_forms [OF assms] by blast+

lemma split_fragment_Some:
  assumes "snd (split_fragment p) = Some f"
  shows "\<exists>a. p = a @ CHR ''#'' # f \<and> CHR ''#'' \<notin> set a \<and> trim a \<noteq> [] \<and> fst (split_fragment p) = a"
proof (cases "split_once CHR ''#'' p")
  case None
  then show ?thesis using assms by (simp add: split_fragment_def)
next
  case (Some ab)
  obtain a b where ab: "ab = (a, b)" by (cases ab)
  have p: "p = a @ CHR ''#'' # b" "CHR ''#'' \<notin> set a" using Some ab by (simp_all add: split_once_Some)
  have "split_fragment p = (if trim a \<noteq> [] then (a, Some b) else (p, None))"
    by (simp add: split_fragment_def Some ab)
  then show ?thesis using assms p by (cases "trim a = []") auto
qed

lemma part_form:
  "no_lead (fst (split_alias inner))" "no_trail (fst (split_alias inner))"
  using trim_form [of "fst (split_alias inner)"] part_trimmed [of inner] by simp_all

lemma parse_with_fragment:
  assumes "no_lead b" "no_trail b" "b \<noteq> []" "CHR ''#'' \<notin> set b" "CHR ''|'' \<notin> set b"
    and "no_lead f" "no_trail f" "f \<noteq> []" "CHR ''|'' \<notin> set f"
  shows "place (parse_target (b @ CHR ''#'' # f)) = (fst (prefix_place b), snd (prefix_place b), Some f)"
proof -
  have a: "split_alias (b @ CHR ''#'' # f) = (b @ CHR ''#'' # f, None)"
    using assms no_lead_join no_trail_join by (intro split_alias_trimmed) auto
  have s: "split_fragment (b @ CHR ''#'' # f) = (b, Some f)"
    using assms by (simp add: split_fragment_def split_once_join trim_fixed)
  show ?thesis using assms by (simp add: place_parse a s trim_fixed Let_def)
qed

lemma parse_without_fragment:
  assumes "no_lead b" "no_trail b" "CHR ''|'' \<notin> set b" "CHR ''#'' \<notin> set b \<or> hd b = CHR ''#''"
  shows "place (parse_target b) = (fst (prefix_place b), snd (prefix_place b), None)"
proof -
  have a: "split_alias b = (b, None)" using assms by (intro split_alias_trimmed)
  have s: "split_fragment b = (b, None)"
  proof (cases "CHR ''#'' \<in> set b")
    case True
    then obtain r where "b = CHR ''#'' # r" using assms(4) by (cases b) auto
    then show ?thesis by (simp add: split_fragment_def)
  qed (simp add: split_fragment_def)
  show ?thesis by (simp add: place_parse a s Let_def)
qed

section \<open>Property\<close>

text \<open>
  C35: writing a parsed link target back and parsing it again lands on the same place:
  the domain, the target and the fragment are unchanged, whatever the bracket text held
  (display text, titles with colons or a leading hash, blank prefixes), and the written
  text never holds a \<open>|\<close>, so it needs no display text to be read.
\<close>

theorem link_target_roundtrip:
  "place (parse_target (written (parse_target inner))) = place (parse_target inner)
   \<and> CHR ''|'' \<notin> set (written (parse_target inner))"
proof -
  let ?part = "fst (split_alias inner)"
  note pf = part_form [of inner]
  have bar: "CHR ''|'' \<notin> set ?part" by (rule part_no_bar)
  show ?thesis
  proof (cases "snd (split_fragment ?part)")
    case None
    have hash: "CHR ''#'' \<notin> set ?part \<or> hd ?part = CHR ''#''"
    proof (cases "split_once CHR ''#'' ?part")
      case (Some ab)
      then obtain a b where ab: "?part = a @ CHR ''#'' # b" "ab = (a, b)"
        by (cases ab) (auto simp: split_once_Some)
      then have "trim a = []" using None Some by (simp add: split_fragment_def split: if_splits)
      then have "a = []" using trim_blank [of a "CHR ''#'' # b"] pf(1) ab(1) by metis
      then show ?thesis using ab(1) by simp
    qed simp
    let ?h = "head_text (prefix_place ?part)"
    have pl: "place (parse_target inner) = (fst (prefix_place ?part), snd (prefix_place ?part), None)"
      using None by (simp add: place_parse Let_def)
    have w: "written (parse_target inner) = ?h" by (simp add: written_place pl write_place_def head_text_def)
    have hh: "CHR ''#'' \<notin> set ?h \<or> hd ?h = CHR ''#''"
      using head_text_again(4,6) [OF pf] hash by blast
    have hb: "CHR ''|'' \<notin> set ?h" using head_text_again(4) [OF pf] bar by blast
    have "place (parse_target ?h) = (fst (prefix_place ?h), snd (prefix_place ?h), None)"
      by (rule parse_without_fragment [OF head_text_again(1,2) [OF pf] hb hh])
    then show ?thesis using w pl hb head_text_again(3) [OF pf] by simp
  next
    case (Some f0)
    then obtain a where a: "?part = a @ CHR ''#'' # f0" "CHR ''#'' \<notin> set a" "trim a \<noteq> []" "fst (split_fragment ?part) = a"
      using split_fragment_Some by blast
    let ?b = "trim a" and ?f = "trim f0"
    note bf = trim_form(2,3) [of a]
    let ?h = "head_text (prefix_place ?b)"
    have hashb: "CHR ''#'' \<notin> set ?b" "CHR ''|'' \<notin> set ?b" "CHR ''|'' \<notin> set ?f"
      using a(1,2) bar set_trim [of a] set_trim [of f0] by auto
    have pl: "place (parse_target inner) = (fst (prefix_place ?b), snd (prefix_place ?b), if ?f \<noteq> [] then Some ?f else None)"
      using Some a(4) by (simp add: place_parse Let_def)
    have hs: "CHR ''#'' \<notin> set ?h" "CHR ''|'' \<notin> set ?h" "?h \<noteq> []"
      using head_text_again(4,5) [OF bf] hashb a(3) by auto
    show ?thesis
    proof (cases "?f = []")
      case True
      have w: "written (parse_target inner) = ?h" using True by (simp add: written_place pl write_place_def head_text_def)
      have "place (parse_target ?h) = (fst (prefix_place ?h), snd (prefix_place ?h), None)"
        using hs by (intro parse_without_fragment head_text_again(1,2) [OF bf]) simp_all
      then show ?thesis using w pl True hs head_text_again(3) [OF bf] by simp
    next
      case False
      have w: "written (parse_target inner) = ?h @ CHR ''#'' # ?f"
        using False by (simp add: written_place pl write_place_def head_text_def)
      have "place (parse_target (?h @ CHR ''#'' # ?f)) = (fst (prefix_place ?h), snd (prefix_place ?h), Some ?f)"
        using hs hashb False by (intro parse_with_fragment head_text_again(1,2) [OF bf] trim_form) simp_all
      then show ?thesis using w pl False hs hashb head_text_again(3) [OF bf] by simp
    qed
  qed
qed

end
