(* ===== verification/EngramBody.thy ===== *)
theory EngramBody
  imports LinkText
begin

text \<open>
  The body scanner of \<open>core/src/parse.rs\<close>: fenced code, headings, bullets that wrap,
  observations, relations and prose links. A slice that is
  not at a character boundary panics in the code; here it is \<open>None\<close>, so a function that
  slices at a computed offset answers an option. \<open>char::is_lowercase\<close> is the parameter
  \<open>lowercase\<close>.
\<close>

section \<open>Fenced code\<close>

definition fence_marker :: "string \<Rightarrow> (char \<times> nat \<times> nat) option" where
  "fence_marker line =
     (let indent = length line - length (trim_start_char SPACE line)
      in if indent > 3 then None
         else (case drop indent line of
                 [] \<Rightarrow> None
               | first # cs \<Rightarrow>
                   if first \<noteq> TICK \<and> first \<noteq> CHR ''~'' then None
                   else
                     (let count = run_len (\<lambda>c. c = first) (first # cs)
                      in if count < 3 then None else Some (first, count, indent))))"

type_synonym fence_state = "(char \<times> nat) option"

definition in_fence :: "fence_state \<Rightarrow> string \<Rightarrow> bool \<times> fence_state" where
  "in_fence open line =
     (case open of
        None \<Rightarrow>
          (case fence_marker line of Some (c, n, _) \<Rightarrow> (True, Some (c, n)) | None \<Rightarrow> (False, None))
      | Some (open_char, open_count) \<Rightarrow>
          (case fence_marker line of
             Some (c, n, _) \<Rightarrow>
               if c = open_char \<and> n \<ge> open_count \<and> trim (drop n (trim_start line)) = []
               then (True, None) else (True, open)
           | None \<Rightarrow> (True, open)))"

record body_line =
  bl_line_no :: nat
  bl_text :: string
  bl_in_fence :: bool

fun body_lines_from :: "fence_state \<Rightarrow> nat \<Rightarrow> string list \<Rightarrow> body_line list" where
  "body_lines_from fence n [] = []"
| "body_lines_from fence n (raw # raws) =
     (let text = trim_end_matches {CR} raw; (fenced, fence') = in_fence fence text
      in \<lparr>bl_line_no = n, bl_text = text, bl_in_fence = fenced\<rparr> # body_lines_from fence' (n + 1) raws)"

definition body_lines :: "string \<Rightarrow> nat \<Rightarrow> body_line list" where
  "body_lines body body_line_start = body_lines_from None body_line_start (split_on LF body)"

section \<open>Fenced blocks, read off the text\<close>

text \<open>
  A second reading of fenced code that keeps no state: the text of a line that opens a
  fence, of one that closes it, and the lines of a document that no fenced block holds. A
  block runs from a line that opens a fence to the first line after it that closes that
  fence; one that is never closed runs to the end.
\<close>

definition opens_fence :: "char \<Rightarrow> nat \<Rightarrow> string \<Rightarrow> bool" where
  "opens_fence c n l \<longleftrightarrow> c \<in> {TICK, CHR ''~''} \<and> 3 \<le> n
     \<and> (\<exists>k rest. k \<le> 3 \<and> l = replicate k SPACE @ replicate n c @ rest \<and> (rest = [] \<or> hd rest \<noteq> c))"

definition ends_fence :: "char \<Rightarrow> nat \<Rightarrow> string \<Rightarrow> bool" where
  "ends_fence c n l \<longleftrightarrow>
     (\<exists>k m rest. k \<le> 3 \<and> n \<le> m \<and> l = replicate k SPACE @ replicate m c @ rest \<and> trim rest = [])"

inductive outside_at :: "string list \<Rightarrow> nat \<Rightarrow> bool" where
  here: "\<forall>c n. \<not> opens_fence c n l \<Longrightarrow> outside_at (l # ls) 0"
| later: "\<forall>c n. \<not> opens_fence c n l \<Longrightarrow> outside_at ls k \<Longrightarrow> outside_at (l # ls) (Suc k)"
| after_block: "opens_fence c n l \<Longrightarrow> \<forall>x\<in>set inner. \<not> ends_fence c n x \<Longrightarrow> ends_fence c n e \<Longrightarrow> outside_at ls k
    \<Longrightarrow> outside_at (l # inner @ e # ls) (length inner + 2 + k)"

inductive_cases outside_NilE [elim!]: "outside_at [] k"
inductive_cases outside_ConsE: "outside_at (l # ls) k"

lemma run_split: "xs = replicate (length (takeWhile (\<lambda>x. x = c) xs)) c @ dropWhile (\<lambda>x. x = c) xs"
  by (induction xs) auto

lemma marker_cases:
  "(if (3::nat) < k then None
    else case r of [] \<Rightarrow> None
      | first # cs \<Rightarrow> if first \<noteq> TICK \<and> first \<noteq> CHR ''~'' then None
          else if length (takeWhile (\<lambda>x. x = first) (first # cs)) < 3 then None
               else Some (first, length (takeWhile (\<lambda>x. x = first) (first # cs)), k)) = Some (c, n, k') \<longleftrightarrow>
   k' = k \<and> k \<le> 3 \<and> r \<noteq> [] \<and> c = hd r \<and> c \<in> {TICK, CHR ''~''} \<and> n = length (takeWhile (\<lambda>x. x = c) r) \<and> 3 \<le> n"
  by (cases r) (auto split: if_splits)

lemma fence_marker_iff:
  "fence_marker l = Some (c, n, k) \<longleftrightarrow> c \<in> {TICK, CHR ''~''} \<and> 3 \<le> n \<and> k \<le> 3
     \<and> (\<exists>rest. l = replicate k SPACE @ replicate n c @ rest \<and> (rest = [] \<or> hd rest \<noteq> c))" (is "?L \<longleftrightarrow> ?R")
proof
  let ?sp = "\<lambda>x. x = SPACE"
  let ?k = "length (takeWhile ?sp l)" and ?r = "dropWhile ?sp l"
  have k: "length l - length (trim_start_char SPACE l) = ?k" "drop ?k l = ?r"
    unfolding trim_start_char_def
    by (metis add_diff_cancel_right' length_append takeWhile_dropWhile_id) (simp add: dropWhile_eq_drop)
  have l: "l = replicate ?k SPACE @ ?r"
    by (rule run_split)
  assume ?L
  then have ks: "k = ?k" "k \<le> 3" "c \<in> {TICK, CHR ''~''}"
      "n = length (takeWhile (\<lambda>x. x = c) ?r)" "3 \<le> n"
    unfolding fence_marker_def Let_def run_len_def k marker_cases
    by blast+
  have "?r = replicate n c @ dropWhile (\<lambda>x. x = c) ?r"
    unfolding ks(4) by (rule run_split)
  moreover have "dropWhile (\<lambda>x. x = c) ?r = [] \<or> hd (dropWhile (\<lambda>x. x = c) ?r) \<noteq> c"
    using hd_dropWhile [of "\<lambda>x. x = c" ?r] by blast
  ultimately show ?R using ks(1,2,3,5) l by metis
next
  assume ?R
  then obtain rest where r: "c \<in> {TICK, CHR ''~''}" "3 \<le> n" "k \<le> 3"
      "l = replicate k SPACE @ replicate n c @ rest" "rest = [] \<or> hd rest \<noteq> c" by blast
  obtain n' where n': "n = Suc n'" using r(2) by (cases n) auto
  have c: "c \<noteq> SPACE" using r(1) by auto
  have d: "trim_start_char SPACE l = replicate n c @ rest"
    using c by (simp add: trim_start_char_def r(4) n' dropWhile_append3)
  have "takeWhile (\<lambda>x. x = c) (replicate n c @ rest) = replicate n c"
    using r(5) by (cases rest) (auto simp: takeWhile_append2 takeWhile_append)
  then show ?L using r(1-3) by (simp add: fence_marker_def Let_def d) (simp add: r(4) run_len_def n')
qed

lemma opens_fence_iff: "opens_fence c n l \<longleftrightarrow> (\<exists>k. fence_marker l = Some (c, n, k))"
  unfolding opens_fence_def fence_marker_iff by blast

lemma opens_fence_unique: "opens_fence c n l \<Longrightarrow> opens_fence c' n' l \<Longrightarrow> c' = c \<and> n' = n"
  by (auto simp: opens_fence_iff)

lemma no_fence_iff: "(\<forall>c n. \<not> opens_fence c n l) \<longleftrightarrow> fence_marker l = None"
  unfolding opens_fence_iff by (cases "fence_marker l") auto

lemma fence_char_lead: "c \<in> {TICK, CHR ''~''} \<Longrightarrow> no_lead (c # r)"
proof -
  assume c: "c \<in> {TICK, CHR ''~''}"
  have "\<not> ws_byte TICK" "\<not> ws_byte (CHR ''~'')" by code_simp+
  then have "\<not> ws_byte c" using c by auto
  then show ?thesis using ws_chars_set by (fastforce simp: no_lead_def starts_with_iff Cons_eq_append_conv)
qed

lemma trim_start_spaces: "no_lead s \<Longrightarrow> trim_start (replicate k SPACE @ s) = s"
proof (induction k)
  case (Suc k)
  have "ws_prefix ws_chars (SPACE # replicate k SPACE @ s) = 1"
    by (simp add: ws_prefix_def ws_chars_code starts_with_def)
  then have "trim_start (SPACE # replicate k SPACE @ s) = trim_start (replicate k SPACE @ s)"
    unfolding trim_start_def by (subst trim_ws.simps) (simp add: Let_def)
  then show ?case using Suc by simp
qed (simp add: trim_start_form)

lemma ends_fence_iff:
  assumes "c \<in> {TICK, CHR ''~''}" "3 \<le> n"
  shows "ends_fence c n l \<longleftrightarrow>
    (\<exists>m k. fence_marker l = Some (c, m, k) \<and> n \<le> m \<and> trim (drop m (trim_start l)) = [])"
proof -
  have d: "drop m (trim_start l) = rest" if "l = replicate k SPACE @ replicate m c @ rest" "n \<le> m" for k m rest
  proof -
    have "replicate m c @ rest = c # replicate (m - 1) c @ rest" using that(2) assms(2) by (cases m) auto
    then have "no_lead (replicate m c @ rest)" using fence_char_lead [OF assms(1)] by simp
    then show ?thesis using trim_start_spaces that(1) by simp
  qed
  have b: "rest = [] \<or> hd rest \<noteq> c" if "trim rest = []" for rest
    using trim_blank [OF that, of "[]"] fence_char_lead [OF assms(1)] by (cases rest) auto
  show ?thesis
  proof
    assume "ends_fence c n l"
    then obtain k m rest where r: "k \<le> 3" "n \<le> m" "l = replicate k SPACE @ replicate m c @ rest" "trim rest = []"
      unfolding ends_fence_def by blast
    then have "fence_marker l = Some (c, m, k)" using b [OF r(4)] assms by (auto simp: fence_marker_iff)
    then show "\<exists>m k. fence_marker l = Some (c, m, k) \<and> n \<le> m \<and> trim (drop m (trim_start l)) = []"
      using d [OF r(3,2)] r(2,4) by auto
  next
    assume "\<exists>m k. fence_marker l = Some (c, m, k) \<and> n \<le> m \<and> trim (drop m (trim_start l)) = []"
    then obtain m k where f: "fence_marker l = Some (c, m, k)" "n \<le> m" "trim (drop m (trim_start l)) = []" by blast
    then obtain rest where r: "k \<le> 3" "l = replicate k SPACE @ replicate m c @ rest" by (auto simp: fence_marker_iff)
    then show "ends_fence c n l" using d [OF r(2) f(2)] f(2,3) unfolding ends_fence_def by auto
  qed
qed

lemma in_fence_None:
  "in_fence None l = (False, None) \<and> fence_marker l = None \<or>
   (\<exists>c n. opens_fence c n l \<and> in_fence None l = (True, Some (c, n)))"
  unfolding opens_fence_iff by (cases "fence_marker l") (auto simp: in_fence_def)

lemma in_fence_Some:
  "opens_fence c n b \<Longrightarrow> in_fence (Some (c, n)) l = (True, if ends_fence c n l then None else Some (c, n))"
proof -
  assume "opens_fence c n b"
  then have c: "c \<in> {TICK, CHR ''~''}" "3 \<le> n" by (simp_all add: opens_fence_def)
  show ?thesis unfolding ends_fence_iff [OF c] in_fence_def by (auto split: option.splits)
qed

text \<open>The rest of a document inside a block: the lines after the block's closing line.\<close>

definition after_fence :: "char \<Rightarrow> nat \<Rightarrow> string list \<Rightarrow> nat \<Rightarrow> bool" where
  "after_fence c n ls k \<longleftrightarrow>
     (\<exists>inner e ls' j. ls = inner @ e # ls' \<and> k = length inner + 1 + j \<and> (\<forall>x\<in>set inner. \<not> ends_fence c n x)
        \<and> ends_fence c n e \<and> outside_at ls' j)"

lemma after_fence_Nil [simp]: "\<not> after_fence c n [] k"
  by (simp add: after_fence_def)

lemma after_fence_ends:
  "ends_fence c n l \<Longrightarrow> after_fence c n (l # ls) k \<longleftrightarrow> (\<exists>j. k = Suc j \<and> outside_at ls j)"
  unfolding after_fence_def
proof
  assume l: "ends_fence c n l"
  { assume "\<exists>inner e ls' j. l # ls = inner @ e # ls' \<and> k = length inner + 1 + j \<and> (\<forall>x\<in>set inner. \<not> ends_fence c n x)
        \<and> ends_fence c n e \<and> outside_at ls' j"
    with l show "\<exists>j. k = Suc j \<and> outside_at ls j" by (auto simp: Cons_eq_append_conv) }
  assume "\<exists>j. k = Suc j \<and> outside_at ls j"
  with l show "\<exists>inner e ls' j. l # ls = inner @ e # ls' \<and> k = length inner + 1 + j \<and> (\<forall>x\<in>set inner. \<not> ends_fence c n x)
        \<and> ends_fence c n e \<and> outside_at ls' j"
    by (intro exI [of _ "[]"] exI [of _ l] exI [of _ ls]) auto
qed

lemma after_fence_inner:
  "\<not> ends_fence c n l \<Longrightarrow> after_fence c n (l # ls) k \<longleftrightarrow> (\<exists>j. k = Suc j \<and> after_fence c n ls j)"
proof
  assume l: "\<not> ends_fence c n l"
  { assume "after_fence c n (l # ls) k"
    then obtain inner e ls' j where a: "l # ls = inner @ e # ls'" "k = length inner + 1 + j"
      "\<forall>x\<in>set inner. \<not> ends_fence c n x" "ends_fence c n e" "outside_at ls' j" unfolding after_fence_def by blast
    with l obtain inner' where i: "inner = l # inner'" by (cases inner) auto
    have "after_fence c n ls (length inner' + 1 + j)" unfolding after_fence_def using a i by fastforce
    then show "\<exists>j. k = Suc j \<and> after_fence c n ls j" using a(2) i by auto }
  assume "\<exists>j. k = Suc j \<and> after_fence c n ls j"
  then obtain inner e ls' j where a: "ls = inner @ e # ls'" "k = Suc (length inner + 1 + j)"
      "\<forall>x\<in>set inner. \<not> ends_fence c n x" "ends_fence c n e" "outside_at ls' j" unfolding after_fence_def by blast
  then show "after_fence c n (l # ls) k" unfolding after_fence_def using l
    by (intro exI [of _ "l # inner"] exI [of _ e] exI [of _ ls'] exI [of _ j]) auto
qed

lemma outside_at_prose:
  "fence_marker l = None \<Longrightarrow> outside_at (l # ls) k \<longleftrightarrow> k = 0 \<or> (\<exists>j. k = Suc j \<and> outside_at ls j)"
  by (auto simp flip: no_fence_iff intro: outside_at.intros elim: outside_ConsE)

lemma outside_at_block:
  assumes "opens_fence c n l"
  shows "outside_at (l # ls) k \<longleftrightarrow> (\<exists>j. k = Suc j \<and> after_fence c n ls j)"
proof
  assume "outside_at (l # ls) k"
  then show "\<exists>j. k = Suc j \<and> after_fence c n ls j"
  proof (cases rule: outside_at.cases)
    case (after_block c' n' inner e ls' j)
    with opens_fence_unique [OF assms] have "c' = c" "n' = n" by blast+
    with after_block have "after_fence c n ls (length inner + 1 + j)" unfolding after_fence_def by blast
    with after_block show ?thesis by simp
  qed (use assms in blast)+
next
  assume "\<exists>j. k = Suc j \<and> after_fence c n ls j"
  then obtain inner e ls' j where "ls = inner @ e # ls'" "k = Suc (length inner + 1 + j)"
      "\<forall>x\<in>set inner. \<not> ends_fence c n x" "ends_fence c n e" "outside_at ls' j" unfolding after_fence_def by blast
  with outside_at.after_block [OF assms, of inner e ls' j] show "outside_at (l # ls) k" by simp
qed

definition line_texts :: "string \<Rightarrow> string list" where
  "line_texts body = map (trim_end_matches {CR}) (split_on LF body)"

lemma outside_from:
  "k < length raws \<Longrightarrow>
     (bl_in_fence (body_lines_from None n raws ! k) \<longleftrightarrow> \<not> outside_at (map (trim_end_matches {CR}) raws) k)
     \<and> (opens_fence c m b \<longrightarrow> (bl_in_fence (body_lines_from (Some (c, m)) n raws ! k)
          \<longleftrightarrow> \<not> after_fence c m (map (trim_end_matches {CR}) raws) k))"
proof (induction raws arbitrary: k n c m b)
  case (Cons raw raws)
  let ?t = "trim_end_matches {CR} raw" and ?ts = "map (trim_end_matches {CR}) raws"
  have len: "k' < length raws" if "k = Suc k'" for k' using Cons.prems that by simp
  have "bl_in_fence (body_lines_from None n (raw # raws) ! k) \<longleftrightarrow> \<not> outside_at (?t # ?ts) k"
    using in_fence_None [of ?t]
  proof (elim disjE conjE exE)
    assume "in_fence None ?t = (False, None)" "fence_marker ?t = None"
    then show ?thesis using Cons.IH [OF len] by (cases k) (auto simp: Let_def outside_at_prose)
  next
    fix c n' assume "opens_fence c n' ?t" "in_fence None ?t = (True, Some (c, n'))"
    then show ?thesis using Cons.IH [OF len] by (cases k) (auto simp: Let_def outside_at_block)
  qed
  moreover have "bl_in_fence (body_lines_from (Some (c, m)) n (raw # raws) ! k) \<longleftrightarrow> \<not> after_fence c m (?t # ?ts) k"
    if o: "opens_fence c m b"
    using in_fence_Some [OF o, of ?t] Cons.IH [OF len] o
    by (cases k; cases "ends_fence c m ?t") (auto simp: Let_def after_fence_ends after_fence_inner)
  ultimately show ?case by simp
qed simp

lemma outside_iff:
  "k < length (line_texts body) \<Longrightarrow> bl_in_fence (body_lines body n ! k) \<longleftrightarrow> \<not> outside_at (line_texts body) k"
  using outside_from [of k "split_on LF body" n] by (simp add: body_lines_def line_texts_def)

section \<open>Headings and the ends of a bullet\<close>

definition strip_closing_hashes :: "string \<Rightarrow> string" where
  "strip_closing_hashes s =
     (let trimmed = trim_end s; without = trim_end_char CHR ''#'' trimmed
      in if length without = length trimmed then trimmed
         else if without = [] then []
         else if ends_with '' '' without \<or> ends_with [CHR 0x09] without then trim_end without
         else trimmed)"

definition parse_heading :: "string \<Rightarrow> (nat \<times> string) option" where
  "parse_heading line =
     (let indent = length line - length (trim_start_char SPACE line)
      in if indent > 3 then None
         else
           (let rest = drop indent line; hashes = run_len (\<lambda>c. c = CHR ''#'') rest
            in if hashes = 0 \<or> hashes > 6 then None
               else
                 (let after = drop hashes rest
                  in if after \<noteq> [] \<and> \<not> starts_with '' '' after \<and> \<not> starts_with [CHR 0x09] after then None
                     else Some (hashes, strip_closing_hashes (trim after)))))"

definition gap_after :: "string \<Rightarrow> bool" where
  "gap_after rest \<longleftrightarrow> rest = [] \<or> starts_with '' '' rest \<or> starts_with [CHR 0x09] rest"

definition starts_list_item :: "string \<Rightarrow> bool" where
  "starts_list_item trimmed =
     (if trimmed \<noteq> [] \<and> hd trimmed \<in> {CHR ''-'', CHR ''*'', CHR ''+''} then gap_after (tl trimmed)
      else
        (let digits = run_len is_ascii_digit trimmed; rest = drop digits trimmed
         in 1 \<le> digits \<and> digits \<le> 9 \<and> str_nat (take digits trimmed) = 1
            \<and> rest \<noteq> [] \<and> hd rest \<in> {CHR ''.'', CHR '')''} \<and> gap_after (tl rest)))"

definition is_thematic_break :: "string \<Rightarrow> bool" where
  "is_thematic_break trimmed =
     (case trimmed of
        [] \<Rightarrow> False
      | first # _ \<Rightarrow>
          first \<in> {CHR ''-'', CHR ''*'', CHR ''_''}
          \<and> list_all (\<lambda>c. c = first \<or> c = SPACE \<or> c = CHR 0x09) trimmed
          \<and> length (filter (\<lambda>c. c = first) trimmed) \<ge> 3)"

definition continues_bullet :: "string \<Rightarrow> bool" where
  "continues_bullet line =
     (let trimmed = trim line
      in if trimmed = [] \<or> parse_heading line \<noteq> None then False
         else if fence_marker trimmed \<noteq> None then False
         else \<not> (starts_list_item trimmed \<or> starts_with ''>'' trimmed \<or> starts_with ''<'' trimmed
                \<or> starts_with ''|'' trimmed \<or> is_thematic_break trimmed))"

definition ends_inside_link :: "string \<Rightarrow> bool" where
  "ends_inside_link line =
     (let masked = mask_for_wikilinks line
      in case rfind_str ''[['' masked of
           Some open \<Rightarrow> \<not> contains_str '']]'' (drop (open + 2) masked)
         | None \<Rightarrow> False)"

definition unclosed_category :: "string \<Rightarrow> bool" where
  "unclosed_category line =
     (case strip_prefix ''- ['' line of Some rest \<Rightarrow> CHR '']'' \<notin> set rest | None \<Rightarrow> False)"

text \<open>The walk of \<open>bullet_end\<close>: \<open>end\<close> is the last line taken so far, \<open>rest\<close> the lines after it.\<close>

fun bullet_walk :: "nat \<Rightarrow> body_line \<Rightarrow> body_line list \<Rightarrow> nat" where
  "bullet_walk at prev [] = at"
| "bullet_walk at prev (bl # rest) =
     (if bl_in_fence bl \<or> \<not> continues_bullet (bl_text bl) \<or> ends_inside_link (bl_text prev) then at
      else bullet_walk (at + 1) bl rest)"

definition bullet_end :: "body_line list \<Rightarrow> nat \<Rightarrow> nat" where
  "bullet_end lines start =
     (if unclosed_category (bl_text (lines ! start)) then start
      else bullet_walk start (lines ! start) (drop (start + 1) lines))"

definition bullet_text :: "string \<Rightarrow> body_line list \<Rightarrow> string" where
  "bullet_text first continuation =
     (if continuation = [] then first
      else trim_end first @ concat (map (\<lambda>bl. SPACE # trim (bl_text bl)) continuation))"

definition top_level_bullet :: "string \<Rightarrow> string option" where
  "top_level_bullet line = strip_prefix ''- '' line"

section \<open>Observations\<close>

definition split_category :: "string \<Rightarrow> (string \<times> string) option" where
  "split_category content =
     (case strip_prefix ''['' content of
        None \<Rightarrow> None
      | Some rest \<Rightarrow>
          (case split_once CHR '']'' rest of
             None \<Rightarrow> None
           | Some (category, after) \<Rightarrow>
               if category = [] \<or> CHR ''['' \<in> set category \<or> starts_with ''^'' category then None
               else if category \<in> {'' '', ''x'', ''X'', ''~''} then None
               else if starts_with ''('' after \<or> starts_with ''['' after then None
               else Some (category, after)))"

definition parse_observation_head :: "string \<Rightarrow> (string \<times> string) option" where
  "parse_observation_head content =
     map_option (\<lambda>(category, after). (trim category, trim_start after)) (split_category content)"

definition is_hashtag :: "string \<Rightarrow> bool" where
  "is_hashtag token =
     (case strip_prefix ''#'' token of
        None \<Rightarrow> False
      | Some body \<Rightarrow>
          body \<noteq> [] \<and> list_all (\<lambda>c. is_ascii_lower c \<or> is_ascii_upper c \<or> is_ascii_digit c
                                   \<or> c \<in> {CHR ''-'', CHR ''_'', CHR ''/''}) body)"

text \<open>\<open>rfind(char::is_whitespace)\<close>, and the slice \<open>&t[start..]\<close>, which panics inside a character.\<close>

definition rfind_ws :: "string \<Rightarrow> nat option" where
  "rfind_ws t =
     map_option fst (find (\<lambda>(i, c). c \<in> set ws_chars) (rev (indices_from 0 (chars t))))"

definition slice_from :: "string \<Rightarrow> nat \<Rightarrow> string option" where
  "slice_from t start =
     (if start = length t \<or> (start < length t \<and> \<not> is_continuation (t ! start))
      then Some (drop start t) else None)"

lemma length_trim_ws: "length (trim_ws ws s) \<le> length s"
proof (induction ws s rule: trim_ws.induct)
  case (1 ws s)
  then show ?case by (subst trim_ws.simps) (fastforce simp: Let_def)
qed

lemma length_trim_end: "length (trim_end s) \<le> length s"
  using length_trim_ws [of "map rev ws_chars" "rev s"] by (simp add: trim_end_def)

text \<open>The loop that strips trailing hashtags; \<open>tags\<close> is in the order pushed.\<close>

function strip_tags :: "string \<Rightarrow> string list \<Rightarrow> (string \<times> string list) option" where
  "strip_tags s tags =
     (let t = trim_end s;
          start = (case rfind_ws t of Some i \<Rightarrow> i + 1 | None \<Rightarrow> 0)
      in case slice_from t start of
           None \<Rightarrow> None
         | Some token \<Rightarrow>
             if is_hashtag token then strip_tags (trim_end (take start t)) (tags @ [tl token])
             else Some (s, tags))"
  by pat_completeness auto
termination
proof (relation "measure (\<lambda>(s, tags). length s)", goal_cases)
  case (2 s tags t start token)
  have "token \<noteq> []" using 2(4) by (auto simp: is_hashtag_def strip_prefix_def starts_with_def split: if_splits)
  then have "start < length t" using 2(3) by (auto simp: slice_from_def split: if_splits)
  then have "length (take start t) < length s" using length_trim_end [of s] 2(1) by simp
  with length_trim_end [of "take start t"] show ?case by (simp only: in_measure prod.case)
qed simp

declare strip_tags.simps [simp del]

definition split_observation :: "string \<Rightarrow> (string \<times> string list \<times> string option) option" where
  "split_observation body =
     (let s = trim_end body;
          (s, context) =
            (case (if ends_with '')'' s then rfind_str ''('' s else None) of
               Some open \<Rightarrow>
                 (trim_end (take open s), Some (trim (str_slice s (open + 1) (length s - 1))))
             | None \<Rightarrow> (s, None))
      in map_option (\<lambda>(s, tags). (trim s, rev tags, context)) (strip_tags s []))"

section \<open>Relations\<close>

definition relation_type :: "string \<Rightarrow> string option" where
  "relation_type before =
     (let before = trim before
      in if length before \<ge> 2 \<and> starts_with [CHR 0x22] before \<and> ends_with [CHR 0x22] before
         then Some (str_slice before 1 (length before - 1))
         else if before \<noteq> [] \<and> \<not> contains_ws before \<and> \<not> starts_with '':'' before \<and> \<not> starts_with ''['' before
         then Some before
         else None)"

definition relative_relation_type :: "(string \<Rightarrow> bool) \<Rightarrow> string \<Rightarrow> string option" where
  "relative_relation_type lowercase before =
     (let trimmed = trim before
      in if length trimmed \<ge> 2 \<and> starts_with [CHR 0x22] trimmed \<and> ends_with [CHR 0x22] trimmed
         then Some (str_slice trimmed 1 (length trimmed - 1))
         else (case chars trimmed of
                 [] \<Rightarrow> None
               | first # rest \<Rightarrow>
                   if lowercase first
                      \<and> list_all (\<lambda>c. lowercase c \<or> list_all is_ascii_digit c \<and> length c = 1
                                    \<or> c = ''_'' \<or> c = ''-'') rest
                   then Some trimmed else None))"

definition wiki_relation :: "string \<Rightarrow> (string \<times> link_target) option" where
  "wiki_relation content =
     (case find_str ''[['' content of
        None \<Rightarrow> None
      | Some open \<Rightarrow>
          if contains_str LINK_OPEN content
             \<and> (let at = length (chars (take open content)); cs = chars (mask_for_wikilinks content)
                in \<not> (at < length cs \<and> cs ! at = ''[''))
          then None
          else
            (let after = drop (open + 2) content
             in case find_str '']]'' after of
                  None \<Rightarrow> None
                | Some close \<Rightarrow>
                    (case relation_type (take open content) of
                       None \<Rightarrow> None
                     | Some rel_type \<Rightarrow>
                         (case wikilink (take close after) of
                            None \<Rightarrow> None
                          | Some target \<Rightarrow>
                              if \<not> is_reserved_path (tg_target target) then Some (rel_type, target) else None))))"

definition relative_relation :: "(string \<Rightarrow> bool) \<Rightarrow> string \<Rightarrow> (string \<times> link_target) option" where
  "relative_relation lowercase content =
     (case find_str ''['' content of
        None \<Rightarrow> None
      | Some open \<Rightarrow>
          (case find (\<lambda>(start, path). start = open) (relative_note_links content) of
             None \<Rightarrow> None
           | Some (_, path) \<Rightarrow>
               map_option (\<lambda>rel_type. (rel_type, relative_target path))
                 (relative_relation_type lowercase (take open content))))"

definition parse_relation :: "(string \<Rightarrow> bool) \<Rightarrow> string \<Rightarrow> (string \<times> link_target) option" where
  "parse_relation lowercase content = or_else (wiki_relation content) (relative_relation lowercase content)"

section \<open>Scanning a body\<close>

record observation =
  ob_line :: nat
  ob_end_line :: nat
  ob_category :: string
  ob_content :: string
  ob_tags :: "string list"
  ob_context :: "string option"

record relation =
  rl_line :: nat
  rl_end_line :: nat
  rl_rel_type :: string
  rl_target :: link_target

record wiki_link =
  wl_line :: nat
  wl_target :: link_target

record heading =
  hd_line :: nat
  hd_level :: nat
  hd_text :: string

record scan_state =
  sc_observations :: "observation list"
  sc_relations :: "relation list"
  sc_links :: "wiki_link list"
  sc_headings :: "heading list"
  sc_relation_target :: "(nat \<times> link_target) option"

definition push_prose_link ::
  "nat \<Rightarrow> link_target \<Rightarrow> link_target list \<times> scan_state \<Rightarrow> link_target list \<times> scan_state" where
  "push_prose_link line target s =
     (let (seen, st) = s
      in if (case sc_relation_target st of Some (_, rt) \<Rightarrow> same_place target rt | None \<Rightarrow> False)
         then (seen, st\<lparr>sc_relation_target := None\<rparr>)
         else if \<not> list_ex (\<lambda>s. same_place s target) seen
         then (seen @ [target],
               st\<lparr>sc_links := sc_links st @ [\<lparr>wl_line = line, wl_target = target\<rparr>]\<rparr>)
         else (seen, st))"

definition scan_wikilinks :: "string \<Rightarrow> nat \<Rightarrow> scan_state \<Rightarrow> scan_state" where
  "scan_wikilinks line line_no st =
     (if contains_str ''[['' line then
        snd (fold (push_prose_link line_no)
               (filter (\<lambda>target. \<not> is_reserved_path (tg_target target))
                 (List.map_filter wikilink (find_wikilinks (mask_for_wikilinks line))))
               ([], st))
      else st)"

definition scan_relative_links :: "string \<Rightarrow> nat \<Rightarrow> scan_state \<Rightarrow> scan_state" where
  "scan_relative_links line line_no st =
     (if contains_str LINK_OPEN line then
        snd (fold (push_prose_link line_no)
               (map (\<lambda>(_, path). relative_target path) (relative_note_links line)) ([], st))
      else st)"

definition scan_bullet ::
  "(string \<Rightarrow> bool) \<Rightarrow> body_line list \<Rightarrow> nat \<Rightarrow> string \<Rightarrow> scan_state \<Rightarrow> scan_state option" where
  "scan_bullet lowercase lines idx first st =
     (let at = bullet_end lines idx;
          line_no = bl_line_no (lines ! idx);
          end_line = bl_line_no (lines ! at);
          content = bullet_text first (take (at - idx) (drop (idx + 1) lines))
      in case parse_observation_head content of
           Some (category, rest) \<Rightarrow>
             map_option (\<lambda>(obs_content, tags, context).
                 st\<lparr>sc_observations := sc_observations st @
                   [\<lparr>ob_line = line_no, ob_end_line = end_line, ob_category = category,
                     ob_content = obs_content, ob_tags = tags, ob_context = context\<rparr>]\<rparr>)
               (split_observation rest)
         | None \<Rightarrow>
             (case parse_relation lowercase content of
                Some (rel_type, target) \<Rightarrow>
                  Some (st\<lparr>sc_relation_target := Some (at, target),
                           sc_relations := sc_relations st @
                             [\<lparr>rl_line = line_no, rl_end_line = end_line, rl_rel_type = rel_type,
                               rl_target = target\<rparr>]\<rparr>)
              | None \<Rightarrow> Some st))"

definition scan_line ::
  "(string \<Rightarrow> bool) \<Rightarrow> body_line list \<Rightarrow> nat \<Rightarrow> scan_state \<Rightarrow> scan_state option" where
  "scan_line lowercase lines idx st =
     (let bl = lines ! idx
      in if bl_in_fence bl then Some st
         else
           (let line = bl_text bl; line_no = bl_line_no bl;
                st = (case sc_relation_target st of
                        Some (at, _) \<Rightarrow> if idx > at then st\<lparr>sc_relation_target := None\<rparr> else st
                      | None \<Rightarrow> st)
            in case parse_heading line of
                 Some (level, text) \<Rightarrow>
                   Some (st\<lparr>sc_headings := sc_headings st @ [\<lparr>hd_line = line_no, hd_level = level, hd_text = text\<rparr>]\<rparr>)
               | None \<Rightarrow>
                   map_option (scan_relative_links line line_no \<circ> scan_wikilinks line line_no)
                     (case top_level_bullet line of
                        Some first \<Rightarrow> scan_bullet lowercase lines idx first st
                      | None \<Rightarrow> Some st)))"

fun scan_from ::
  "(string \<Rightarrow> bool) \<Rightarrow> body_line list \<Rightarrow> nat list \<Rightarrow> scan_state \<Rightarrow> scan_state option" where
  "scan_from lowercase lines [] st = Some st"
| "scan_from lowercase lines (idx # idxs) st =
     (case scan_line lowercase lines idx st of
        None \<Rightarrow> None
      | Some st' \<Rightarrow> scan_from lowercase lines idxs st')"

definition scan_start :: scan_state where
  "scan_start = \<lparr>sc_observations = [], sc_relations = [], sc_links = [], sc_headings = [],
                 sc_relation_target = None\<rparr>"

definition scan_body :: "(string \<Rightarrow> bool) \<Rightarrow> string \<Rightarrow> nat \<Rightarrow> scan_state option" where
  "scan_body lowercase body body_line_start =
     (let lines = body_lines body body_line_start
      in scan_from lowercase lines [0..<length lines] scan_start)"

definition wikilinks_by_line :: "string \<Rightarrow> string list list" where
  "wikilinks_by_line body =
     map (\<lambda>line. if bl_in_fence line \<or> \<not> contains_str ''[['' (bl_text line) then []
                else find_wikilinks (mask_for_wikilinks (bl_text line)))
       (body_lines body 1)"

section \<open>What a scan records\<close>

definition span_ok :: "body_line list \<Rightarrow> nat \<Rightarrow> nat \<Rightarrow> bool" where
  "span_ok lines i j \<longleftrightarrow> i \<le> j \<and> j < length lines \<and> (\<forall>k. i \<le> k \<and> k \<le> j \<longrightarrow> \<not> bl_in_fence (lines ! k))"

text \<open>A bullet's span: its lines after the first are ones \<open>continues_bullet\<close> accepts.\<close>

definition bullet_span :: "body_line list \<Rightarrow> nat \<Rightarrow> nat \<Rightarrow> bool" where
  "bullet_span lines i j \<longleftrightarrow>
     span_ok lines i j \<and> (\<forall>k. i < k \<and> k \<le> j \<longrightarrow> continues_bullet (bl_text (lines ! k)))"

lemma length_body_lines_from [simp]: "length (body_lines_from f n raws) = length raws"
  by (induction raws arbitrary: f n) (auto simp: Let_def split: prod.splits)

lemma body_line_no: "i < length raws \<Longrightarrow> bl_line_no (body_lines_from f n raws ! i) = n + i"
proof (induction raws arbitrary: f n i)
  case (Cons raw raws)
  then show ?case by (cases i) (auto simp: Let_def split: prod.splits)
qed simp

lemma bullet_walk_bounds:
  "bullet_walk at prev rest = e \<Longrightarrow> at \<le> e \<and> e \<le> at + length rest
     \<and> (\<forall>k < e - at. \<not> bl_in_fence (rest ! k) \<and> continues_bullet (bl_text (rest ! k)))"
proof (induction rest arbitrary: at prev)
  case (Cons bl rest)
  show ?case
  proof (cases "bl_in_fence bl \<or> \<not> continues_bullet (bl_text bl) \<or> ends_inside_link (bl_text prev)")
    case False
    then have "bullet_walk (at + 1) bl rest = e" using Cons.prems by simp
    from Cons.IH [OF this] False show ?thesis by (auto simp: nth_Cons split: nat.split)
  qed (use Cons.prems in auto)
qed simp

lemma bullet_end_span:
  assumes "start < length lines" "\<not> bl_in_fence (lines ! start)"
  shows "bullet_span lines start (bullet_end lines start)"
proof (cases "unclosed_category (bl_text (lines ! start))")
  case True
  then show ?thesis using assms by (auto simp: bullet_end_def bullet_span_def span_ok_def le_antisym)
next
  case False
  let ?e = "bullet_end lines start" and ?rest = "drop (start + 1) lines"
  have "bullet_walk start (lines ! start) ?rest = ?e" using False by (simp add: bullet_end_def)
  from bullet_walk_bounds [OF this] have b: "start \<le> ?e" "?e \<le> start + length ?rest"
    "\<forall>k < ?e - start. \<not> bl_in_fence (?rest ! k) \<and> continues_bullet (bl_text (?rest ! k))" by blast+
  have later: "\<not> bl_in_fence (lines ! k) \<and> continues_bullet (bl_text (lines ! k))" if k: "start < k" "k \<le> ?e" for k
  proof -
    have lt: "k - start - 1 < ?e - start" and eq: "start + 1 + (k - start - 1) = k" using k by simp_all
    have "?rest ! (k - start - 1) = lines ! k" using assms(1) eq by (simp add: nth_drop)
    with b(3) lt show ?thesis by metis
  qed
  then have "\<not> bl_in_fence (lines ! k)" if "start \<le> k" "k \<le> ?e" for k
    using assms(2) that by (cases "k = start") auto
  with later show ?thesis using b assms(1) by (auto simp: bullet_span_def span_ok_def)
qed

text \<open>A heading and a bullet never continue the bullet above them.\<close>

lemma heading_ends_bullet: "parse_heading line \<noteq> None \<Longrightarrow> \<not> continues_bullet line"
  by (simp add: continues_bullet_def Let_def)

lemma bullet_ends_bullet: "top_level_bullet line = Some first \<Longrightarrow> \<not> continues_bullet line"
proof -
  assume "top_level_bullet line = Some first"
  then have l: "line = CHR ''-'' # SPACE # first" by (simp add: top_level_bullet_def strip_prefix_Some)
  have "\<not> ws_byte (CHR ''-'')" by code_simp
  then have "no_lead line" using ws_chars_set by (fastforce simp: l no_lead_def starts_with_iff Cons_eq_append_conv)
  then have t: "trim line = trim_end line" by (simp add: trim_def trim_start_form)
  have ne: "trim line \<noteq> []" using trim_blank [of line "[]"] \<open>no_lead line\<close> l by auto
  obtain y where y: "line = trim line @ y" using trim_end_form(1) t by metis
  obtain c u where u: "trim line = c # u" using ne by (cases "trim line") auto
  then have c: "c = CHR ''-''" "SPACE # first = u @ y" using y l by (metis append_Cons list.inject)+
  then have "gap_after u" by (cases u) (auto simp: gap_after_def starts_with_iff)
  then have "starts_list_item (trim line)" using u c(1) by (simp add: starts_list_item_def)
  then show ?thesis by (simp add: continues_bullet_def Let_def)
qed

text \<open>The lines that the headings, observations and relations of a scan were read from.\<close>

definition read_lines :: "scan_state \<Rightarrow> nat list" where
  "read_lines st = map hd_line (sc_headings st)
     @ concat (map (\<lambda>b. [ob_line b..<Suc (ob_end_line b)]) (sc_observations st))
     @ concat (map (\<lambda>r. [rl_line r..<Suc (rl_end_line r)]) (sc_relations st))"

definition numbered :: "body_line list \<Rightarrow> nat \<Rightarrow> bool" where
  "numbered lines n \<longleftrightarrow> (\<forall>i < length lines. bl_line_no (lines ! i) = n + i)"

definition heading_of :: "nat \<Rightarrow> string \<Rightarrow> heading option" where
  "heading_of no line = map_option (\<lambda>(level, text). \<lparr>hd_line = no, hd_level = level, hd_text = text\<rparr>) (parse_heading line)"

definition heading_at :: "body_line list \<Rightarrow> nat \<Rightarrow> nat \<Rightarrow> heading option" where
  "heading_at lines n i = (if bl_in_fence (lines ! i) then None else heading_of (n + i) (bl_text (lines ! i)))"

text \<open>The state of a scan before line \<open>idx\<close>, for lines numbered from \<open>n\<close>.\<close>

definition spans_ok :: "body_line list \<Rightarrow> nat \<Rightarrow> nat \<Rightarrow> scan_state \<Rightarrow> bool" where
  "spans_ok lines n idx st \<longleftrightarrow>
     sc_headings st = List.map_filter (heading_at lines n) [0..<idx]
     \<and> (\<forall>l \<in> set (sc_links st). \<exists>i. wl_line l = n + i \<and> span_ok lines i i)
     \<and> (\<forall>b \<in> set (sc_observations st). \<exists>i j. i < idx \<and> ob_line b = n + i \<and> ob_end_line b = n + j \<and> bullet_span lines i j)
     \<and> (\<forall>r \<in> set (sc_relations st). \<exists>i j. i < idx \<and> rl_line r = n + i \<and> rl_end_line r = n + j \<and> bullet_span lines i j)"

definition scan_inv :: "body_line list \<Rightarrow> nat \<Rightarrow> nat \<Rightarrow> scan_state \<Rightarrow> bool" where
  "scan_inv lines n idx st \<longleftrightarrow> distinct (read_lines st) \<and> spans_ok lines n idx st"

lemma map_filter_upt_Suc:
  "List.map_filter f [0..<Suc i] = List.map_filter f [0..<i] @ (case f i of None \<Rightarrow> [] | Some x \<Rightarrow> [x])"
  by (simp add: map_filter_def split: option.split)

lemma map_filter_cong:
  "(\<And>x. x \<in> set xs \<Longrightarrow> f x = g x) \<Longrightarrow> List.map_filter f xs = List.map_filter g xs"
  by (induction xs) (simp_all add: map_filter_simps split: option.split)

lemma heading_line_lt: "h \<in> set (List.map_filter (heading_at lines n) [0..<idx]) \<Longrightarrow> hd_line h < n + idx"
  by (auto simp: map_filter_def heading_at_def heading_of_def split: if_splits)

text \<open>A line that continues no bullet is past everything read before it.\<close>

lemma read_before:
  assumes "scan_inv lines n idx st" "\<not> continues_bullet (bl_text (lines ! idx))" "x \<in> set (read_lines st)"
  shows "x < n + idx"
proof -
  have j: "j < idx" if "bullet_span lines i j" "i < idx" for i j
    using assms(2) that by (metis bullet_span_def not_le_imp_less)
  have s: "spans_ok lines n idx st" using assms(1) by (simp add: scan_inv_def)
  from assms(3) consider "x \<in> hd_line ` set (sc_headings st)"
    | b where "b \<in> set (sc_observations st)" "x \<le> ob_end_line b"
    | r where "r \<in> set (sc_relations st)" "x \<le> rl_end_line r" by (auto simp: read_lines_def)
  then show ?thesis
  proof cases
    case 1
    then show ?thesis using s heading_line_lt by (auto simp: spans_ok_def)
  next
    case 2
    with s obtain i j where "i < idx" "ob_end_line b = n + j" "bullet_span lines i j" unfolding spans_ok_def by blast
    with 2 j [of i j] show ?thesis by simp
  next
    case 3
    with s obtain i j where "i < idx" "rl_end_line r = n + j" "bullet_span lines i j" unfolding spans_ok_def by blast
    with 3 j [of i j] show ?thesis by simp
  qed
qed

lemma spans_ok_skip:
  "spans_ok lines n idx st \<Longrightarrow> heading_at lines n idx = None \<Longrightarrow> spans_ok lines n (Suc idx) st"
  unfolding spans_ok_def map_filter_upt_Suc by (auto intro: less_SucI)

text \<open>Prose links only ever add links, on the line they are found on.\<close>

definition links_grow :: "nat \<Rightarrow> scan_state \<Rightarrow> scan_state \<Rightarrow> bool" where
  "links_grow line st st' \<longleftrightarrow>
     sc_headings st' = sc_headings st \<and> sc_observations st' = sc_observations st
     \<and> sc_relations st' = sc_relations st
     \<and> (\<forall>l \<in> set (sc_links st'). l \<in> set (sc_links st) \<or> wl_line l = line)"

lemma links_grow_push: "links_grow line (snd s) (snd (push_prose_link line t s))"
  by (cases s) (auto simp: links_grow_def push_prose_link_def Let_def split: if_splits)

lemma links_grow_trans: "links_grow line a b \<Longrightarrow> links_grow line b c \<Longrightarrow> links_grow line a c"
  by (auto simp: links_grow_def)

lemma links_grow_fold: "links_grow line (snd s) (snd (fold (push_prose_link line) ts s))"
proof (induction ts arbitrary: s)
  case (Cons t ts)
  show ?case
    using links_grow_trans [OF links_grow_push Cons.IH] by simp
qed (simp add: links_grow_def)

lemma links_grow_scan:
  "links_grow line_no st (scan_relative_links line line_no (scan_wikilinks line line_no st))"
proof (rule links_grow_trans)
  show "links_grow line_no st (scan_wikilinks line line_no st)"
    using links_grow_fold [of line_no "([], st)"] by (simp add: scan_wikilinks_def links_grow_def)
  show "links_grow line_no s (scan_relative_links line line_no s)" for s
    using links_grow_fold [of line_no "([], s)"] by (simp add: scan_relative_links_def links_grow_def)
qed

lemma spans_grow:
  assumes "spans_ok lines n idx st" "links_grow (n + i) st st'" "span_ok lines i i"
  shows "spans_ok lines n idx st'"
proof -
  have "\<forall>l \<in> set (sc_links st'). \<exists>j. wl_line l = n + j \<and> span_ok lines j j"
    using assms unfolding spans_ok_def links_grow_def by blast
  then show ?thesis using assms(1,2) by (simp add: spans_ok_def links_grow_def)
qed

lemma scan_bullet_step:
  assumes "scan_bullet lowercase lines idx first st = Some st'" "idx < length lines"
    "\<not> bl_in_fence (lines ! idx)" "numbered lines n" "scan_inv lines n idx st"
    "parse_heading (bl_text (lines ! idx)) = None" "\<not> continues_bullet (bl_text (lines ! idx))"
  shows "scan_inv lines n (Suc idx) st'"
proof -
  let ?at = "bullet_end lines idx"
  have span: "bullet_span lines idx ?at" by (rule bullet_end_span [OF assms(2,3)])
  have no: "bl_line_no (lines ! idx) = n + idx" "bl_line_no (lines ! ?at) = n + ?at"
    using assms(2,4) span by (auto simp: numbered_def bullet_span_def span_ok_def)
  have before: "x < n + idx" if "x \<in> set (read_lines st)" for x
    by (rule read_before [OF assms(5,7) that])
  have "heading_at lines n idx = None" using assms(6) by (simp add: heading_at_def heading_of_def)
  then have d: "distinct (read_lines st)" "spans_ok lines n (Suc idx) st"
    using assms(5) spans_ok_skip by (simp_all add: scan_inv_def)
  have new: "distinct (xs @ ys @ [n + idx..<Suc (n + ?at)] @ zs)" if "distinct (xs @ ys @ zs)"
    "set (xs @ ys @ zs) = set (read_lines st)" for xs ys zs
    using that before by fastforce
  let ?H = "map hd_line (sc_headings st)"
    and ?O = "concat (map (\<lambda>b. [ob_line b..<Suc (ob_end_line b)]) (sc_observations st))"
    and ?R = "concat (map (\<lambda>r. [rl_line r..<Suc (rl_end_line r)]) (sc_relations st))"
  have e: "read_lines st = ?H @ ?O @ ?R" by (simp add: read_lines_def)
  from assms(1) consider "st' = st"
    | b where "st' = st\<lparr>sc_observations := sc_observations st @ [b]\<rparr>" "ob_line b = n + idx" "ob_end_line b = n + ?at"
    | r t where "st' = st\<lparr>sc_relation_target := t, sc_relations := sc_relations st @ [r]\<rparr>"
        "rl_line r = n + idx" "rl_end_line r = n + ?at"
    using no by (auto simp: scan_bullet_def Let_def split: option.splits prod.splits)
  then show ?thesis
  proof cases
    case 1
    then show ?thesis using d by (auto simp: scan_inv_def)
  next
    case 2
    have "read_lines st' = ?H @ ?O @ [n + idx..<Suc (n + ?at)] @ ?R" by (simp add: 2 read_lines_def del: upt_Suc)
    then have "distinct (read_lines st')" using new [of ?H ?O ?R] d(1) by (simp add: e del: upt_Suc)
    moreover have "spans_ok lines n (Suc idx) st'" using d(2) 2 span unfolding spans_ok_def by auto
    ultimately show ?thesis by (auto simp: scan_inv_def)
  next
    case 3
    have "read_lines st' = ?H @ (?O @ ?R) @ [n + idx..<Suc (n + ?at)] @ []" by (simp add: 3 read_lines_def del: upt_Suc)
    then have "distinct (read_lines st')" using new [of ?H "?O @ ?R" "[]"] d(1) by (simp add: e del: upt_Suc)
    moreover have "spans_ok lines n (Suc idx) st'" using d(2) 3 span unfolding spans_ok_def by auto
    ultimately show ?thesis by (auto simp: scan_inv_def)
  qed
qed

lemma parse_heading_level: "parse_heading line = Some (level, text) \<Longrightarrow> 1 \<le> level \<and> level \<le> 6"
  by (auto simp: parse_heading_def Let_def split: if_splits)


lemma scan_line_step:
  assumes "scan_line lowercase lines idx st = Some st'" "idx < length lines" "numbered lines n" "scan_inv lines n idx st"
  shows "scan_inv lines n (Suc idx) st'"
proof (cases "bl_in_fence (lines ! idx)")
  case True
  then have "st' = st" using assms(1) by (simp add: scan_line_def Let_def)
  moreover have "heading_at lines n idx = None" using True by (simp add: heading_at_def)
  ultimately show ?thesis using assms(4) spans_ok_skip by (simp add: scan_inv_def)
next
  case False
  let ?line = "bl_text (lines ! idx)"
  have no: "bl_line_no (lines ! idx) = n + idx" using assms(2,3) by (simp add: numbered_def)
  have span: "span_ok lines idx idx" using False assms(2) by (auto simp: span_ok_def le_antisym)
  define st1 where "st1 = (case sc_relation_target st of
      Some (at, _) \<Rightarrow> if idx > at then st\<lparr>sc_relation_target := None\<rparr> else st | None \<Rightarrow> st)"
  have inv1: "scan_inv lines n idx st1"
  proof -
    have "st1 = st \<or> st1 = st\<lparr>sc_relation_target := None\<rparr>" by (simp add: st1_def split: option.split)
    moreover have "read_lines (st\<lparr>sc_relation_target := None\<rparr>) = read_lines st"
      "spans_ok lines n idx (st\<lparr>sc_relation_target := None\<rparr>) = spans_ok lines n idx st"
      by (simp_all add: read_lines_def spans_ok_def)
    ultimately show ?thesis using assms(4) by (auto simp: scan_inv_def)
  qed
  have sl: "scan_line lowercase lines idx st =
      (case parse_heading ?line of
         Some (level, text) \<Rightarrow>
           Some (st1\<lparr>sc_headings := sc_headings st1 @ [\<lparr>hd_line = n + idx, hd_level = level, hd_text = text\<rparr>]\<rparr>)
       | None \<Rightarrow>
           map_option (scan_relative_links ?line (n + idx) \<circ> scan_wikilinks ?line (n + idx))
             (case top_level_bullet ?line of
                Some first \<Rightarrow> scan_bullet lowercase lines idx first st1
              | None \<Rightarrow> Some st1))"
    using False by (simp add: scan_line_def Let_def no flip: st1_def)
  show ?thesis
  proof (cases "parse_heading ?line")
    case (Some ht)
    obtain level tx where ht: "ht = (level, tx)" by (cases ht)
    let ?h = "\<lparr>hd_line = n + idx, hd_level = level, hd_text = tx\<rparr>"
    have st': "st' = st1\<lparr>sc_headings := sc_headings st1 @ [?h]\<rparr>"
      using assms(1) sl Some ht by simp
    have "heading_at lines n idx = Some ?h" using False Some ht by (simp add: heading_at_def heading_of_def)
    then have "spans_ok lines n (Suc idx) st'"
      using inv1 st' by (auto simp: scan_inv_def spans_ok_def map_filter_upt_Suc simp del: upt_Suc intro: less_SucI)
    have "x < n + idx" if "x \<in> set (read_lines st1)" for x
      using read_before [OF inv1 heading_ends_bullet that] Some by simp
    then have "n + idx \<notin> set (read_lines st1)" by blast
    moreover have "distinct (xs @ [x] @ ys) \<longleftrightarrow> x \<notin> set (xs @ ys) \<and> distinct (xs @ ys)" for x and xs ys :: "nat list" by auto
    ultimately have "distinct (read_lines st')"
      using inv1 by (simp add: scan_inv_def read_lines_def st' del: upt_Suc distinct_append set_append)
    with \<open>spans_ok lines n (Suc idx) st'\<close> show ?thesis by (simp add: scan_inv_def)
  next
    case None
    then obtain st2 where st2: "(case top_level_bullet ?line of
                Some first \<Rightarrow> scan_bullet lowercase lines idx first st1 | None \<Rightarrow> Some st1) = Some st2"
      and st': "st' = scan_relative_links ?line (n + idx) (scan_wikilinks ?line (n + idx) st2)"
      using assms(1) sl by auto
    have inv2: "scan_inv lines n (Suc idx) st2"
    proof (cases "top_level_bullet ?line")
      case n: None
      have "heading_at lines n idx = None" using None by (simp add: heading_at_def heading_of_def)
      then show ?thesis using n st2 inv1 spans_ok_skip by (auto simp: scan_inv_def)
    next
      case (Some first)
      then show ?thesis
        using st2 scan_bullet_step [OF _ assms(2) False assms(3) inv1 None bullet_ends_bullet] by simp
    qed
    have grow: "links_grow (n + idx) st2 st'" unfolding st' by (rule links_grow_scan)
    then have "read_lines st' = read_lines st2" by (simp add: links_grow_def read_lines_def)
    moreover have "spans_ok lines n (Suc idx) st'" using spans_grow [OF _ grow span] inv2 by (simp add: scan_inv_def)
    ultimately show ?thesis using inv2 by (simp add: scan_inv_def)
  qed
qed

lemma scan_from_inv:
  assumes "scan_from lowercase lines [idx..<m] st = Some st'" "m \<le> length lines" "idx \<le> m"
    "numbered lines n" "scan_inv lines n idx st"
  shows "scan_inv lines n m st'"
  using assms
proof (induction "m - idx" arbitrary: idx st)
  case 0
  then show ?case by simp
next
  case (Suc d)
  then have lt: "idx < m" by simp
  then have u: "[idx..<m] = idx # [Suc idx..<m]" by (rule upt_conv_Cons)
  then obtain st1 where st1: "scan_line lowercase lines idx st = Some st1"
    "scan_from lowercase lines [Suc idx..<m] st1 = Some st'"
    using Suc.prems(1) by (auto split: option.splits)
  have "scan_inv lines n (Suc idx) st1"
    using scan_line_step [OF st1(1) _ Suc.prems(4,5)] lt Suc.prems(2) by simp
  then show ?case
    using Suc.hyps(1) [of "Suc idx" st1] Suc.hyps(2) st1(2) Suc.prems(2,4) lt by simp
qed

section \<open>Where an observation is sliced\<close>

lemma indices_from_split:
  "(k, c) \<in> set (indices_from i (chars t)) \<Longrightarrow> \<exists>p q. t = p @ c @ q \<and> k = i + length p \<and> str_ok q"
proof (induction t arbitrary: i rule: chars.induct)
  case (2 x xs)
  let ?w = "takeWhile is_continuation xs" and ?d = "dropWhile is_continuation xs"
  have whole: "x # xs = (x # ?w) @ ?d" by simp
  from 2(2) consider "k = i" "c = x # ?w" | "(k, c) \<in> set (indices_from (i + length (x # ?w)) (chars ?d))"
    by auto
  then show ?case
  proof cases
    case 1
    have "str_ok ?d" unfolding str_ok_def using hd_dropWhile by blast
    with 1 whole show ?thesis by (intro exI [of _ "[]"] exI [of _ ?d]) simp
  next
    case 2
    from "2.IH" [OF this] obtain p q where pq: "?d = p @ c @ q" "k = i + length (x # ?w) + length p" "str_ok q" by blast
    then have "x # xs = ((x # ?w) @ p) @ c @ q" using whole by simp
    then show ?thesis using pq(2,3) by (intro exI [of _ "(x # ?w) @ p"] exI [of _ q]) simp
  qed
qed simp

lemma rfind_ws_split:
  assumes "rfind_ws t = Some i"
  shows "\<exists>p w q. t = p @ w @ q \<and> i = length p \<and> w \<in> set ws_chars \<and> str_ok q"
proof -
  obtain w where "find (\<lambda>(i, c). c \<in> set ws_chars) (rev (indices_from 0 (chars t))) = Some (i, w)"
    using assms by (auto simp: rfind_ws_def)
  then have "(i, w) \<in> set (indices_from 0 (chars t))" "w \<in> set ws_chars"
    by (metis (mono_tags, lifting) case_prodD find_Some_iff nth_mem set_rev)+
  then show ?thesis using indices_from_split [of i w 0 t] by fastforce
qed

text \<open>Text whose white space is ASCII: no multi-byte white space character occurs in it.\<close>

definition ascii_spaced :: "string \<Rightarrow> bool" where
  "ascii_spaced s \<longleftrightarrow> str_ok s \<and> list_all (\<lambda>w. length w = 1 \<or> \<not> contains_str w s) ws_chars"

lemma ascii_spaced_prefix: "ascii_spaced (p @ q) \<Longrightarrow> ascii_spaced p"
proof -
  assume s: "ascii_spaced (p @ q)"
  have "contains_str w (p @ q)" if "contains_str w p" for w
  proof -
    from that obtain a b where "p = a @ w @ b" unfolding contains_str_iff by blast
    then have "p @ q = a @ w @ (b @ q)" by simp
    then show ?thesis unfolding contains_str_iff by blast
  qed
  moreover have "str_ok p" using s by (cases p) (simp_all add: ascii_spaced_def str_ok_def)
  ultimately show ?thesis using s unfolding ascii_spaced_def list_all_iff by blast
qed

lemma ascii_spaced_trim_end: "ascii_spaced s \<Longrightarrow> ascii_spaced (trim_end s)"
  using trim_end_form(1) [of s] ascii_spaced_prefix by metis

lemma ascii_spaced_take: "ascii_spaced s \<Longrightarrow> ascii_spaced (take n s)"
  using ascii_spaced_prefix [of "take n s" "drop n s"] by simp

lemma ascii_slice:
  assumes "ascii_spaced t"
  shows "slice_from t (case rfind_ws t of Some i \<Rightarrow> i + 1 | None \<Rightarrow> 0) \<noteq> None"
proof (cases "rfind_ws t")
  case None
  then show ?thesis using assms by (cases t) (auto simp: slice_from_def ascii_spaced_def str_ok_def)
next
  case (Some i)
  then obtain p w q where t: "t = p @ w @ q" "i = length p" "w \<in> set ws_chars" "str_ok q"
    using rfind_ws_split by blast
  then have "contains_str w t" by (auto simp: contains_str_iff)
  then have w: "length w = 1" using assms t(3) by (auto simp: ascii_spaced_def list_all_iff)
  then obtain x where "w = [x]" by (cases w) auto
  then have "t = p @ x # q" using t(1) by simp
  then show ?thesis using Some t(2,4) by (cases q) (auto simp: slice_from_def str_ok_def nth_append)
qed

lemma strip_tags_total:
  "ascii_spaced s \<Longrightarrow> \<forall>t\<in>set tags. is_hashtag (''#'' @ t) \<Longrightarrow>
     \<exists>s' tags'. strip_tags s tags = Some (s', tags') \<and> (\<forall>t\<in>set tags'. is_hashtag (''#'' @ t))"
proof (induction s tags rule: strip_tags.induct)
  case (1 s tags)
  let ?t = "trim_end s"
  let ?start = "case rfind_ws ?t of Some i \<Rightarrow> i + 1 | None \<Rightarrow> 0"
  have t: "ascii_spaced ?t" by (rule ascii_spaced_trim_end [OF 1(2)])
  obtain token where tok: "slice_from ?t ?start = Some token" using ascii_slice [OF t] by blast
  have eq: "strip_tags s tags = (if is_hashtag token then strip_tags (trim_end (take ?start ?t)) (tags @ [tl token]) else Some (s, tags))"
    using tok by (subst strip_tags.simps) (simp add: Let_def)
  show ?case
  proof (cases "is_hashtag token")
    case True
    then have "token = ''#'' @ tl token"
      by (auto simp: is_hashtag_def strip_prefix_Some split: option.splits)
    then have "\<forall>u\<in>set (tags @ [tl token]). is_hashtag (''#'' @ u)" using 1(3) True by (metis in_set_conv_decomp_last rotate1.simps(2) set_ConsD set_rotate1)
    moreover have "ascii_spaced (trim_end (take ?start ?t))"
      by (intro ascii_spaced_trim_end ascii_spaced_take t)
    ultimately show ?thesis using 1(1) [OF refl refl tok True] eq True by simp
  qed (use eq 1(3) in simp)
qed

lemma ascii_spaced_observation:
  "ascii_spaced body \<Longrightarrow> \<exists>content tags context. split_observation body = Some (content, tags, context)
     \<and> (\<forall>t\<in>set tags. is_hashtag (''#'' @ t))"
proof -
  assume b: "ascii_spaced body"
  let ?s = "trim_end body"
  have s: "ascii_spaced ?s" by (rule ascii_spaced_trim_end [OF b])
  obtain u cx where u: "(case (if ends_with '')'' ?s then rfind_str ''('' ?s else None) of
      Some open \<Rightarrow> (trim_end (take open ?s), Some (trim (str_slice ?s (open + 1) (length ?s - 1))))
    | None \<Rightarrow> (?s, None)) = (u, cx)" by fastforce
  then have au: "ascii_spaced u"
    using s by (auto intro: ascii_spaced_trim_end ascii_spaced_take split: option.splits)
  from strip_tags_total [OF au, of "[]"] obtain s' tags' where
    "strip_tags u [] = Some (s', tags')" "\<forall>t\<in>set tags'. is_hashtag (''#'' @ t)" by auto
  then show ?thesis using u by (auto simp: split_observation_def Let_def)
qed

lemma find_rev_last:
  "\<forall>x\<in>set ys. \<not> P x \<Longrightarrow> P x \<Longrightarrow> find P (rev (xs @ x # ys)) = Some x"
  by (induction ys rule: rev_induct) auto

lemma snd_indices: "map snd (indices_from i cs) = cs"
  by (induction cs arbitrary: i) auto

lemma ws_utf8: "w \<in> set ws_chars \<Longrightarrow> utf8_char w"
proof -
  have "list_all utf8_char ws_chars" by code_simp
  then show "w \<in> set ws_chars \<Longrightarrow> utf8_char w" by (simp add: list_all_iff)
qed

lemma rfind_ws_last:
  assumes "str_ok a" "w \<in> set ws_chars" "str_ok b" "\<forall>c\<in>set (chars b). c \<notin> set ws_chars"
  shows "rfind_ws (a @ w @ b) = Some (length a)"
proof -
  let ?P = "\<lambda>(i::nat, c). c \<in> set ws_chars"
  have "str_ok (w @ b)" using str_ok_utf8_char ws_utf8 [OF assms(2)] by blast
  then have c: "chars (a @ w @ b) = chars a @ w # chars b"
    using chars_append [OF assms(1)] chars_Cons_utf8 [OF ws_utf8 [OF assms(2)] assms(3)] by simp
  have i: "indices_from 0 (chars (a @ w @ b))
      = indices_from 0 (chars a) @ (length a, w) # indices_from (length a + length w) (chars b)"
    by (simp add: c indices_from_append)
  have "\<not> ?P x" if "x \<in> set (indices_from (length a + length w) (chars b))" for x
  proof -
    have "snd x \<in> set (chars b)" using that snd_indices by (metis image_eqI set_map)
    then show ?thesis using assms(4) by (cases x) auto
  qed
  then have "find ?P (rev (indices_from 0 (chars (a @ w @ b)))) = Some (length a, w)"
    unfolding i using assms(2) by (intro find_rev_last) auto
  then show ?thesis by (simp add: rfind_ws_def)
qed

section \<open>Properties\<close>

text \<open>A line of the body, by its number in the source, that no fenced block holds.\<close>

definition prose_line :: "string \<Rightarrow> nat \<Rightarrow> nat \<Rightarrow> bool" where
  "prose_line body n no \<longleftrightarrow> n \<le> no \<and> outside_at (line_texts body) (no - n)"

definition prose_span :: "string \<Rightarrow> nat \<Rightarrow> nat \<Rightarrow> nat \<Rightarrow> bool" where
  "prose_span body n a b \<longleftrightarrow> a \<le> b \<and> (\<forall>no. a \<le> no \<and> no \<le> b \<longrightarrow> prose_line body n no)"

lemma prose_span_iff:
  "span_ok (body_lines body n) i j \<Longrightarrow> prose_span body n (n + i) (n + j)"
proof -
  assume s: "span_ok (body_lines body n) i j"
  have "prose_line body n no" if "n + i \<le> no" "no \<le> n + j" for no
  proof -
    have "i \<le> no - n" "no - n \<le> j" using that by auto
    then have "no - n < length (line_texts body)" "\<not> bl_in_fence (body_lines body n ! (no - n))"
      using s by (simp_all add: span_ok_def line_texts_def body_lines_def)
    then show ?thesis using outside_iff that(1) by (simp add: prose_line_def)
  qed
  then show ?thesis using s by (simp add: span_ok_def prose_span_def)
qed

lemma body_line_text: "i < length raws \<Longrightarrow> bl_text (body_lines_from f n raws ! i) = trim_end_matches {CR} (raws ! i)"
proof (induction raws arbitrary: f n i)
  case (Cons raw raws)
  then show ?case by (cases i) (auto simp: Let_def split: prod.splits)
qed simp

lemma scan_outside:
  assumes "scan_body lowercase body n = Some sc"
  shows "sc_headings sc = List.map_filter
           (\<lambda>i. if outside_at (line_texts body) i then heading_of (n + i) (line_texts body ! i) else None)
           [0..<length (line_texts body)]
    \<and> (\<forall>h \<in> set (sc_headings sc). prose_line body n (hd_line h) \<and> hd_level h \<in> {1..6})
    \<and> (\<forall>l \<in> set (sc_links sc). prose_line body n (wl_line l))
    \<and> (\<forall>b \<in> set (sc_observations sc). prose_span body n (ob_line b) (ob_end_line b))
    \<and> (\<forall>r \<in> set (sc_relations sc). prose_span body n (rl_line r) (rl_end_line r))
    \<and> distinct (read_lines sc)"
proof -
  let ?lines = "body_lines body n"
  let ?at = "\<lambda>i. if outside_at (line_texts body) i then heading_of (n + i) (line_texts body ! i) else None"
  have num: "numbered ?lines n" by (simp add: numbered_def body_lines_def body_line_no)
  have len: "length ?lines = length (line_texts body)" by (simp add: body_lines_def line_texts_def)
  have start: "scan_inv ?lines n 0 scan_start"
    by (simp add: scan_inv_def scan_start_def read_lines_def spans_ok_def map_filter_def)
  have "scan_inv ?lines n (length ?lines) sc"
    using scan_from_inv [OF _ order_refl _ num start] assms by (simp add: scan_body_def Let_def)
  then have s: "spans_ok ?lines n (length ?lines) sc" and d: "distinct (read_lines sc)" by (simp_all add: scan_inv_def)
  have at: "heading_at ?lines n i = ?at i" if "i < length ?lines" for i
    using outside_iff that len body_line_text by (simp add: heading_at_def line_texts_def body_lines_def)
  have "sc_headings sc = List.map_filter (heading_at ?lines n) [0..<length ?lines]" using s by (simp add: spans_ok_def)
  also have "\<dots> = List.map_filter ?at [0..<length ?lines]" using at by (intro map_filter_cong) auto
  finally have h: "sc_headings sc = List.map_filter ?at [0..<length (line_texts body)]" by (simp only: len)
  then have "\<forall>h \<in> set (sc_headings sc). prose_line body n (hd_line h) \<and> hd_level h \<in> {1..6}"
    using parse_heading_level by (fastforce simp: map_filter_def prose_line_def heading_of_def split: if_splits)
  moreover have "\<forall>l \<in> set (sc_links sc). prose_line body n (wl_line l)"
    using s prose_span_iff unfolding spans_ok_def prose_span_def by (metis order_refl)
  moreover have "\<forall>b \<in> set (sc_observations sc). prose_span body n (ob_line b) (ob_end_line b)"
    using s prose_span_iff unfolding spans_ok_def bullet_span_def by metis
  moreover have "\<forall>r \<in> set (sc_relations sc). prose_span body n (rl_line r) (rl_end_line r)"
    using s prose_span_iff unfolding spans_ok_def bullet_span_def by metis
  ultimately show ?thesis using d h by blast
qed

text \<open>
  C34: fenced code is never read as structure, and no line is read twice. Fenced code is
  defined on the text alone (\<open>outside_at\<close>): a block runs from a line of at most three
  spaces and three or more backticks or tildes to the first later line of at most three
  spaces and at least as many of the same character and nothing but white space after
  them, or to the end. The headings a scan records are exactly the headings that stand
  outside such blocks, in order, with the line numbers of the source, and their levels are
  1 to 6; every prose link stands on a line outside them, and every observation and relation
  on a run of such lines, a wrapped bullet's continuation lines included; and the lines of
  the headings and the runs of the observations and relations are disjoint: no line belongs
  to two of them.
\<close>

theorem scan_outside_fences:
  assumes "scan_body lowercase body n = Some sc"
  shows "sc_headings sc = List.map_filter
           (\<lambda>i. if outside_at (line_texts body) i then heading_of (n + i) (line_texts body ! i) else None)
           [0..<length (line_texts body)]
    \<and> (\<forall>h \<in> set (sc_headings sc). prose_line body n (hd_line h) \<and> hd_level h \<in> {1..6})
    \<and> (\<forall>l \<in> set (sc_links sc). prose_line body n (wl_line l))
    \<and> (\<forall>b \<in> set (sc_observations sc). prose_span body n (ob_line b) (ob_end_line b))
    \<and> (\<forall>r \<in> set (sc_relations sc). prose_span body n (rl_line r) (rl_end_line r))
    \<and> distinct (read_lines sc)"
  using scan_outside [OF assms] by blast

text \<open>A body with a fence, a heading and a wrapped observation.\<close>

definition sample_body :: string where
  "sample_body = join_with [LF] [[TICK, TICK, TICK], ''# no'', [TICK, TICK, TICK], ''# yes'', ''- [fact] a'', ''  b #t'']"

theorem scan_outside_fences_witness:
  "\<exists>sc. scan_body (\<lambda>c. list_all is_ascii_lower c) sample_body 1 = Some sc
     \<and> map hd_line (sc_headings sc) = [4] \<and> map ob_line (sc_observations sc) = [5]
     \<and> map ob_tags (sc_observations sc) = [[''t'']]
     \<and> (\<forall>b \<in> set (sc_observations sc). prose_span sample_body 1 (ob_line b) (ob_end_line b))"
proof -
  let ?r = "scan_body (\<lambda>c. list_all is_ascii_lower c) sample_body 1"
  have r: "map_option (\<lambda>sc. (map hd_line (sc_headings sc), map ob_line (sc_observations sc), map ob_tags (sc_observations sc))) ?r
      = Some ([4], [5], [[''t'']])" by code_simp
  then obtain sc where sc: "?r = Some sc" by (cases ?r) auto
  with r scan_outside_fences [OF sc] show ?thesis by simp
qed


text \<open>
  Reading an observation never fails on text whose white space is ASCII: the tag loop
  ends, every slice it takes is at a character boundary, and what it takes off as tags
  are hashtags.
\<close>

theorem observation_total:
  assumes "ascii_spaced body"
  shows "\<exists>content tags context. split_observation body = Some (content, tags, context)
    \<and> (\<forall>t\<in>set tags. is_hashtag (''#'' @ t))"
  by (rule ascii_spaced_observation [OF assms])

theorem observation_total_witness:
  "ascii_spaced ''a b #t (c)'' \<and> split_observation ''a b #t (c)'' = Some (''a b'', [''t''], Some ''c'')"
proof -
  have a: "ascii_spaced ''a b #t (c)''" by code_simp
  have e: "split_observation ''a b #t (c)'' = Some (''a b'', [''t''], Some ''c'')" by code_simp
  from observation_total [OF a] a e show ?thesis by blast
qed

text \<open>
  An observation whose last white space is a multi-byte character (a no-break space
  before a unit, an ideographic space) is cut one byte after the start of that character,
  inside it, where the slice panics: reading such an observation never returns.
\<close>

theorem observation_panics:
  assumes "w \<in> set ws_chars" "length w \<noteq> 1" "str_ok a" "str_ok b" "\<forall>c\<in>set (chars b). c \<notin> set ws_chars"
    and "trim_end (a @ w @ b) = a @ w @ b" "\<not> ends_with '')'' (a @ w @ b)"
  shows "split_observation (a @ w @ b) = None"
proof -
  let ?t = "a @ w @ b"
  obtain h t where w: "w = h # t" "list_all is_continuation t"
    using ws_utf8 [OF assms(1)] by (cases w) (auto simp: utf8_char_def)
  then obtain u v where t: "t = u # v" using assms(2) by (cases t) auto
  have "is_continuation u" using w(2) t by simp
  moreover have "?t ! (length a + 1) = u" by (simp add: w(1) t nth_append)
  ultimately have "slice_from ?t (length a + 1) = None"
    by (simp add: slice_from_def w(1) t)
  then have "strip_tags ?t [] = None"
    using rfind_ws_last [OF assms(3,1,4,5)] assms(6) by (subst strip_tags.simps) (simp add: Let_def)
  then show ?thesis using assms(6,7) by (simp add: split_observation_def Let_def)
qed

theorem observation_panics_witness:
  "split_observation (''10'' @ [CHR 0xC2, CHR 0xA0] @ ''km'') = None
   \<and> scan_body (\<lambda>c. True) (''- [fact] 10'' @ [CHR 0xC2, CHR 0xA0] @ ''km'') 1 = None"
proof -
  have w: "[CHR 0xC2, CHR 0xA0] \<in> set ws_chars" "length [CHR 0xC2, CHR 0xA0] \<noteq> 1" by code_simp+
  have o: "str_ok ''10''" "str_ok ''km''" "\<forall>c\<in>set (chars ''km''). c \<notin> set ws_chars" by code_simp+
  have t: "trim_end (''10'' @ [CHR 0xC2, CHR 0xA0] @ ''km'') = ''10'' @ [CHR 0xC2, CHR 0xA0] @ ''km''"
    "\<not> ends_with '')'' (''10'' @ [CHR 0xC2, CHR 0xA0] @ ''km'')" by code_simp+
  have "scan_body (\<lambda>c. True) (''- [fact] 10'' @ [CHR 0xC2, CHR 0xA0] @ ''km'') 1 = None" by code_simp
  with observation_panics [OF w o t] show ?thesis by blast
qed

end
