(* ===== verification/EngramParse.thy ===== *)
theory EngramParse
  imports EngramBody FrontmatterMerge
begin

text \<open>
  \<open>parse_engram\<close> and \<open>parse_engram_lossless\<close> of \<open>core/src/parse.rs\<close>: the encoding check,
  the frontmatter block located as the merge locates it (theory FrontmatterMerge), and
  the body scan (theory EngramBody), whose panic is the outer \<open>None\<close>. The frontmatter
  reader, which rests on the YAML and date libraries, is the parameter \<open>read_fm\<close>.
\<close>

section \<open>Parsing an engram\<close>

datatype 'e parse_error = Bom | NullByte nat nat | Frontmatter 'e

record 'f engram =
  eg_frontmatter :: 'f
  eg_body :: string
  eg_observations :: "observation list"
  eg_relations :: "relation list"
  eg_links :: "wiki_link list"
  eg_headings :: "heading list"

record 'f lossless_engram =
  le_engram :: "'f engram"
  le_source :: string
  le_has_frontmatter :: bool
  le_raw_frontmatter :: string
  le_frontmatter_span :: "nat \<times> nat"
  le_body_span :: "nat \<times> nat"
  le_body_line_start :: nat

definition line_of_offset :: "string \<Rightarrow> nat \<Rightarrow> nat" where
  "line_of_offset source offset = count_list (take (min offset (length source)) source) LF + 1"

definition check_encoding :: "string \<Rightarrow> 'e parse_error + unit" where
  "check_encoding source =
     (if starts_with [CHR 0xEF, CHR 0xBB, CHR 0xBF] source then Inl Bom
      else (case find_str [CHR 0x00] source of
              Some pos \<Rightarrow>
                (let line = line_of_offset source pos;
                     line_start = (case rfind_str [LF] (take pos source) of Some i \<Rightarrow> i + 1 | None \<Rightarrow> 0);
                     column = length (chars (str_slice source line_start pos)) + 1
                 in Inl (NullByte line column))
            | None \<Rightarrow> Inr ()))"

definition engram_of :: "'f \<Rightarrow> string \<Rightarrow> scan_state \<Rightarrow> 'f engram" where
  "engram_of fm body sc =
     \<lparr>eg_frontmatter = fm, eg_body = body, eg_observations = sc_observations sc,
      eg_relations = sc_relations sc, eg_links = sc_links sc, eg_headings = sc_headings sc\<rparr>"

definition parse_engram ::
  "(string \<Rightarrow> 'e + 'f) \<Rightarrow> (string \<Rightarrow> bool) \<Rightarrow> string \<Rightarrow> ('e parse_error + 'f engram) option" where
  "parse_engram read_fm lowercase source =
     (case check_encoding source of
        Inl e \<Rightarrow> Some (Inl e)
      | Inr _ \<Rightarrow>
          (let (raw_fm, body_start) =
             (case locate source of Some (a, b, c) \<Rightarrow> (str_slice source a b, c) | None \<Rightarrow> ([], 0))
           in case read_fm raw_fm of
                Inl e \<Rightarrow> Some (Inl (Frontmatter e))
              | Inr frontmatter \<Rightarrow>
                  (let body = drop body_start source
                   in map_option (\<lambda>sc. Inr (engram_of frontmatter body sc))
                        (scan_body lowercase body (line_of_offset source body_start)))))"

definition parse_engram_lossless ::
  "(string \<Rightarrow> 'e + 'f) \<Rightarrow> (string \<Rightarrow> bool) \<Rightarrow> string \<Rightarrow> ('e parse_error + 'f lossless_engram) option" where
  "parse_engram_lossless read_fm lowercase source =
     (case check_encoding source of
        Inl e \<Rightarrow> Some (Inl e)
      | Inr _ \<Rightarrow>
          (let (has_fm, fm_span, body_start) =
             (case locate source of Some (a, b, c) \<Rightarrow> (True, (a, b), c) | None \<Rightarrow> (False, (0, 0), 0));
               raw_fm = (if has_fm then str_slice source (fst fm_span) (snd fm_span) else [])
           in case read_fm raw_fm of
                Inl e \<Rightarrow> Some (Inl (Frontmatter e))
              | Inr frontmatter \<Rightarrow>
                  (let body = drop body_start source;
                       body_line_start = line_of_offset source body_start
                   in map_option (\<lambda>sc. Inr
                          \<lparr>le_engram = engram_of frontmatter body sc, le_source = source,
                           le_has_frontmatter = has_fm, le_raw_frontmatter = raw_fm,
                           le_frontmatter_span = fm_span, le_body_span = (body_start, length source),
                           le_body_line_start = body_line_start\<rparr>)
                        (scan_body lowercase body body_line_start))))"

definition reconstruct :: "'f lossless_engram \<Rightarrow> string" where
  "reconstruct le = le_source le"


section \<open>Property\<close>

lemma parse_engram_project:
  "parse_engram read_fm lowercase source =
     map_option (map_sum id le_engram) (parse_engram_lossless read_fm lowercase source)"
proof (cases "check_encoding source :: 'a parse_error + unit")
  case (Inr u)
  show ?thesis
    by (cases "locate source")
       (auto simp: parse_engram_def parse_engram_lossless_def Inr Let_def option.map_comp o_def
          split: sum.split prod.split)
qed (simp add: parse_engram_def parse_engram_lossless_def)

text \<open>
  The two parsers agree and nothing is lost. The plain parser answers what the
  lossless one holds, error for error; the lossless one reconstructs its source byte for
  byte, its spans cut the raw frontmatter and the body out of the source, and everything
  it recorded stands on prose lines of that body.
\<close>

theorem parsers_agree:
  "parse_engram read_fm lowercase source =
     map_option (map_sum id le_engram) (parse_engram_lossless read_fm lowercase source)
   \<and> (parse_engram_lossless read_fm lowercase source = Some (Inr le) \<longrightarrow>
        reconstruct le = source
        \<and> eg_body (le_engram le) = str_slice source (fst (le_body_span le)) (snd (le_body_span le))
        \<and> le_raw_frontmatter le = str_slice source (fst (le_frontmatter_span le)) (snd (le_frontmatter_span le))
        \<and> (\<forall>b \<in> set (eg_observations (le_engram le)).
             prose_span (eg_body (le_engram le)) (le_body_line_start le) (ob_line b) (ob_end_line b)))"
proof (intro conjI impI)
  show "parse_engram read_fm lowercase source =
     map_option (map_sum id le_engram) (parse_engram_lossless read_fm lowercase source)"
    by (rule parse_engram_project)
  assume p: "parse_engram_lossless read_fm lowercase source = Some (Inr le)"
  obtain has_fm span body_start where loc:
    "(case locate source of Some (a, b, c) \<Rightarrow> (True, (a, b), c) | None \<Rightarrow> (False, (0, 0), 0)) = (has_fm, span, body_start)"
    by (metis prod_cases3)
  have none: "span = (0, 0)" if "\<not> has_fm" using loc that by (auto split: option.splits)
  let ?body = "drop body_start source"
  let ?n = "line_of_offset source body_start"
  let ?raw = "if has_fm then str_slice source (fst span) (snd span) else []"
  from p loc obtain fm sc where sc: "scan_body lowercase ?body ?n = Some sc"
    and le: "le = \<lparr>le_engram = engram_of fm ?body sc, le_source = source, le_has_frontmatter = has_fm,
       le_raw_frontmatter = ?raw, le_frontmatter_span = span, le_body_span = (body_start, length source),
       le_body_line_start = ?n\<rparr>"
    by (auto simp: parse_engram_lossless_def Let_def split: sum.splits)
  show "reconstruct le = source" by (simp add: le reconstruct_def)
  show "eg_body (le_engram le) = str_slice source (fst (le_body_span le)) (snd (le_body_span le))"
    by (simp add: le engram_of_def str_slice_def)
  show "le_raw_frontmatter le = str_slice source (fst (le_frontmatter_span le)) (snd (le_frontmatter_span le))"
    using none by (cases has_fm) (simp_all add: le str_slice_def)
  show "\<forall>b \<in> set (eg_observations (le_engram le)).
     prose_span (eg_body (le_engram le)) (le_body_line_start le) (ob_line b) (ob_end_line b)"
    using scan_outside [OF sc] by (simp add: le engram_of_def)
qed

theorem parsers_agree_witness:
  "\<exists>le. parse_engram_lossless (\<lambda>raw. Inr raw :: nat + string) (\<lambda>c. True)
          (''---'' @ [LF] @ ''a'' @ [LF] @ ''---'' @ [LF] @ ''# x'') = Some (Inr le)
     \<and> reconstruct le = ''---'' @ [LF] @ ''a'' @ [LF] @ ''---'' @ [LF] @ ''# x''
     \<and> le_raw_frontmatter le = ''a'' @ [LF] \<and> map hd_line (eg_headings (le_engram le)) = [4]"
proof -
  let ?s = "''---'' @ [LF] @ ''a'' @ [LF] @ ''---'' @ [LF] @ ''# x''"
  let ?p = "parse_engram_lossless (\<lambda>raw. Inr raw :: nat + string) (\<lambda>c. True) ?s"
  have e: "(case ?p of Some (Inr le) \<Rightarrow> Some (le_raw_frontmatter le, map hd_line (eg_headings (le_engram le))) | _ \<Rightarrow> None)
      = Some (''a'' @ [LF], [4])" by code_simp
  then obtain le where le: "?p = Some (Inr le)" by (auto split: option.splits sum.splits)
  with e parsers_agree [of "\<lambda>raw. Inr raw :: nat + string" "\<lambda>c. True" ?s le] show ?thesis by auto
qed

end
