(* ===== verification/Layout.thy ===== *)
theory Layout
  imports Address LinkSyntax
begin

text \<open>
  What a path of a domain is: attachment paths (\<open>core/src/attachment.rs\<close>), the files of a
  Reflection (\<open>core/src/reflection/layout.rs\<close>) and the classes of a domain's paths
  (\<open>core/src/layout.rs\<close>). \<open>str::to_lowercase\<close>, which is full Unicode, is the parameter
  \<open>lower\<close>; the messages of the refusals are constructors.
\<close>

section \<open>Attachments\<close>

definition ASSETS_FOLDER :: string where "ASSETS_FOLDER = ''assets''"
definition MAX_ATTACHMENT_BYTES :: nat where "MAX_ATTACHMENT_BYTES = 10 * 1024 * 1024"
definition MAX_ASSET_PATH_BYTES :: nat where "MAX_ASSET_PATH_BYTES = 256"

definition mime_table :: "(string \<times> string) list" where
  "mime_table =
     [(''png'', ''image/png''), (''jpg'', ''image/jpeg''), (''jpeg'', ''image/jpeg''),
      (''gif'', ''image/gif''), (''webp'', ''image/webp''), (''svg'', ''image/svg+xml''),
      (''pdf'', ''application/pdf''),
      (''pptx'', ''application/vnd.openxmlformats-officedocument.presentationml.presentation''),
      (''odp'', ''application/vnd.oasis.opendocument.presentation''),
      (''docx'', ''application/vnd.openxmlformats-officedocument.wordprocessingml.document''),
      (''odt'', ''application/vnd.oasis.opendocument.text''),
      (''xlsx'', ''application/vnd.openxmlformats-officedocument.spreadsheetml.sheet''),
      (''ods'', ''application/vnd.oasis.opendocument.spreadsheet''),
      (''txt'', ''text/plain''), (''log'', ''text/plain''), (''csv'', ''text/csv''),
      (''json'', ''application/json''), (''yaml'', ''application/yaml''), (''yml'', ''application/yaml''),
      (''toml'', ''application/toml''), (''xml'', ''application/xml'')]"

definition attachment_mime :: "(string \<Rightarrow> string) \<Rightarrow> string \<Rightarrow> string option" where
  "attachment_mime lower filename =
     (case rsplit_once CHR ''.'' filename of
        None \<Rightarrow> None
      | Some (_, extension) \<Rightarrow> map_of mime_table (lower extension))"

definition is_text_attachment_mime :: "string \<Rightarrow> bool" where
  "is_text_attachment_mime mime \<longleftrightarrow>
     starts_with ''text/'' mime
     \<or> mime \<in> {''application/json'', ''application/yaml'', ''application/toml'', ''application/xml''}"

definition is_inline_attachment_mime :: "string \<Rightarrow> bool" where
  "is_inline_attachment_mime mime \<longleftrightarrow>
     starts_with ''image/'' mime \<or> mime = ''application/pdf'' \<or> is_text_attachment_mime mime"

definition first_segment :: "string \<Rightarrow> string" where
  "first_segment rel = hd (split_on CHR ''/'' rel)"

definition is_under_assets :: "string \<Rightarrow> bool" where
  "is_under_assets rel = eq_ignore_ascii_case (first_segment rel) ASSETS_FOLDER"

definition canonical_asset_path :: "string \<Rightarrow> string option" where
  "canonical_asset_path rel =
     (if \<not> is_under_assets rel then None
      else Some (case split_once CHR ''/'' rel of
                   Some (_, rest) \<Rightarrow> ASSETS_PREFIX @ rest
                 | None \<Rightarrow> ASSETS_FOLDER))"

datatype asset_path_error =
    NotUnderAssets | EmptySegment | DotSegment | HiddenSegment | BadCharacter | TooLong | DisallowedExtension

definition is_control_char :: "string \<Rightarrow> bool" where
  "is_control_char c \<longleftrightarrow>
     (case c of
        [a] \<Rightarrow> (of_char a :: nat) < 32 \<or> (of_char a :: nat) = 127
      | [a, b] \<Rightarrow> (of_char a :: nat) = 194 \<and> (of_char b :: nat) < 160
      | _ \<Rightarrow> False)"

fun asset_segments :: "string list \<Rightarrow> asset_path_error option" where
  "asset_segments [] = None"
| "asset_segments (segment # segments) =
     (if segment = [] then Some EmptySegment
      else if segment = ''.'' \<or> segment = ''..'' then Some DotSegment
      else if starts_with ''.'' segment then Some HiddenSegment
      else asset_segments segments)"

definition validate_asset_path :: "(string \<Rightarrow> string) \<Rightarrow> string \<Rightarrow> asset_path_error + unit" where
  "validate_asset_path lower path =
     (case strip_prefix ASSETS_PREFIX path of
        None \<Rightarrow> Inl NotUnderAssets
      | Some rest \<Rightarrow>
          if length path > MAX_ASSET_PATH_BYTES then Inl TooLong
          else if list_ex (\<lambda>c. c \<in> set path) [BACKSLASH, CHR '':'', CHR ''#'', CHR ''%'', SPACE, CHR ''('', CHR '')'']
                  \<or> list_ex is_control_char (chars path)
          then Inl BadCharacter
          else (case asset_segments (split_on CHR ''/'' rest) of
                  Some e \<Rightarrow> Inl e
                | None \<Rightarrow>
                    if attachment_mime lower (last (split_on CHR ''/'' rest)) = None
                    then Inl DisallowedExtension else Inr ()))"

datatype asset_refusal_reason = AssetSize | AssetMarkdown | AssetExtension | AssetPath

definition asset_refusal :: "(string \<Rightarrow> string) \<Rightarrow> string \<Rightarrow> nat \<Rightarrow> asset_refusal_reason option" where
  "asset_refusal lower path len =
     (case validate_asset_path lower path of
        Inr _ \<Rightarrow> if len > MAX_ATTACHMENT_BYTES then Some AssetSize else None
      | Inl DisallowedExtension \<Rightarrow>
          if ends_with ''.md'' (lower path) then Some AssetMarkdown else Some AssetExtension
      | Inl _ \<Rightarrow> Some AssetPath)"

fun prev_boundary :: "string \<Rightarrow> nat \<Rightarrow> nat" where
  "prev_boundary stem 0 = 0"
| "prev_boundary stem (Suc k) =
     (if Suc k < length stem \<and> is_continuation (stem ! Suc k) then prev_boundary stem k else Suc k)"

lemma prev_boundary_le: "prev_boundary stem k \<le> k"
  by (induction k) (auto intro: le_SucI)

definition suffix_candidate :: "string \<Rightarrow> string \<Rightarrow> string option \<Rightarrow> nat \<Rightarrow> nat \<Rightarrow> string" where
  "suffix_candidate dir stem extension attempt keep =
     dir @ take keep stem @ ''-'' @ nat_str attempt
     @ (case extension of Some e \<Rightarrow> ''.'' @ e | None \<Rightarrow> [])"

function suffix_loop ::
  "(string \<Rightarrow> string) \<Rightarrow> string \<Rightarrow> string \<Rightarrow> string option \<Rightarrow> nat \<Rightarrow> nat \<Rightarrow> string option" where
  "suffix_loop lower dir stem extension attempt keep =
     (let candidate = suffix_candidate dir stem extension attempt keep
      in if validate_asset_path lower candidate = Inr () then Some candidate
         else if keep = 0 then None
         else suffix_loop lower dir stem extension attempt (prev_boundary stem (keep - 1)))"
  by pat_completeness auto
termination
  by (relation "measure (\<lambda>(lower, dir, stem, extension, attempt, keep). keep)")
     (auto intro: le_less_trans [OF prev_boundary_le])

declare suffix_loop.simps [simp del]

definition suffixed_asset_path :: "(string \<Rightarrow> string) \<Rightarrow> string \<Rightarrow> nat \<Rightarrow> string option" where
  "suffixed_asset_path lower path attempt =
     (let (dir, name) = (case rsplit_once CHR ''/'' path of
                           Some (dir, name) \<Rightarrow> (dir @ ''/'', name) | None \<Rightarrow> ([], path));
          (stem, extension) = (case rsplit_once CHR ''.'' name of
                                 Some (stem, extension) \<Rightarrow> (stem, Some extension) | None \<Rightarrow> (name, None))
      in suffix_loop lower dir stem extension attempt (length stem))"

section \<open>The files of a Reflection\<close>

definition REFLECTIONS_DIR :: string where "REFLECTIONS_DIR = ''reflections''"
definition PACT_FILE :: string where "PACT_FILE = ''PACT.md''"
definition BASELINE_DIR :: string where "BASELINE_DIR = ''.reflected''"
definition THREADS_SUFFIX :: string where "THREADS_SUFFIX = ''.threads.md''"

function trim_dot_slash :: "string \<Rightarrow> string" where
  "trim_dot_slash rel = (case strip_prefix ''./'' rel of Some r \<Rightarrow> trim_dot_slash r | None \<Rightarrow> rel)"
  by pat_completeness auto
termination
  by (relation "measure length") (auto simp: strip_prefix_Some)

declare trim_dot_slash.simps [simp del]

definition is_under_reflections :: "string \<Rightarrow> bool" where
  "is_under_reflections rel = eq_ignore_ascii_case (first_segment (trim_dot_slash rel)) REFLECTIONS_DIR"

definition is_pact :: "string \<Rightarrow> bool" where
  "is_pact path = eq_ignore_ascii_case path PACT_FILE"

definition domain_rel :: "string \<Rightarrow> string" where
  "domain_rel path = REFLECTIONS_DIR @ ''/'' @ path"

datatype reflection_path_error =
    EmptyPath | InsideAssets | NotForwardSlashed | NotMarkdown | ThreadsName | DotOrEmptySegment
  | HiddenName | ReservedName | PactSpelling | RepeatsFolder

fun reflection_segments :: "string list \<Rightarrow> reflection_path_error option" where
  "reflection_segments [] = None"
| "reflection_segments (segment # segments) =
     (if segment = [] \<or> segment = ''.'' \<or> segment = ''..'' then Some DotOrEmptySegment
      else if starts_with ''.'' segment then Some HiddenName
      else reflection_segments segments)"

definition validate_reflection_path :: "string \<Rightarrow> reflection_path_error + unit" where
  "validate_reflection_path path =
     (if path = [] then Inl EmptyPath
      else if is_under_assets path then Inl InsideAssets
      else if BACKSLASH \<in> set path \<or> starts_with ''/'' path then Inl NotForwardSlashed
      else if \<not> ends_with ''.md'' path then Inl NotMarkdown
      else if ends_with THREADS_SUFFIX path then Inl ThreadsName
      else (case reflection_segments (split_on CHR ''/'' path) of
              Some e \<Rightarrow> Inl e
            | None \<Rightarrow>
                if is_reserved_file (last (split_on CHR ''/'' path)) then Inl ReservedName
                else if is_pact path \<and> path \<noteq> PACT_FILE then Inl PactSpelling
                else Inr ()))"

definition validate_new_reflection_path :: "string \<Rightarrow> reflection_path_error + unit" where
  "validate_new_reflection_path path =
     (case validate_reflection_path path of
        Inl e \<Rightarrow> Inl e
      | Inr _ \<Rightarrow> if is_under_reflections path then Inl RepeatsFolder else Inr ())"

definition threads_path :: "string \<Rightarrow> string" where
  "threads_path path =
     (case strip_suffix ''.md'' path of Some stem \<Rightarrow> stem | None \<Rightarrow> path) @ THREADS_SUFFIX"

definition baseline_path :: "string \<Rightarrow> string" where
  "baseline_path path = BASELINE_DIR @ ''/'' @ path"

datatype reflection_file =
    Page string | Pact | Threads string | Baseline string | ReflectionAsset string | OtherFile

definition threads_of :: "string \<Rightarrow> string option" where
  "threads_of path =
     (case strip_suffix THREADS_SUFFIX path of
        None \<Rightarrow> None
      | Some stem \<Rightarrow>
          (let page = stem @ ''.md''
           in if validate_reflection_path page = Inr () then Some page else None))"

definition classify_reflection :: "(string \<Rightarrow> string) \<Rightarrow> string \<Rightarrow> reflection_file" where
  "classify_reflection lower path =
     (case canonical_asset_path path of
        Some canonical \<Rightarrow>
          if validate_asset_path lower canonical = Inr () then ReflectionAsset canonical else OtherFile
      | None \<Rightarrow>
          if is_pact path then Pact
          else (case strip_prefix (BASELINE_DIR @ ''/'') path of
                  Some page \<Rightarrow>
                    if validate_reflection_path page = Inr () \<or> threads_of page \<noteq> None
                    then Baseline page else OtherFile
                | None \<Rightarrow>
                    if ends_with THREADS_SUFFIX path then
                      (case threads_of path of Some page \<Rightarrow> Threads page | None \<Rightarrow> OtherFile)
                    else if validate_reflection_path path = Inr () then Page path else OtherFile))"

section \<open>The paths of a domain\<close>

datatype content_kind = EngramKind | ReflectionKind

definition kind_root :: "content_kind \<Rightarrow> string" where
  "kind_root k = (case k of EngramKind \<Rightarrow> [] | ReflectionKind \<Rightarrow> ''reflections/'')"

definition kind_assets_dir :: "content_kind \<Rightarrow> string" where
  "kind_assets_dir k = (case k of EngramKind \<Rightarrow> ASSETS_PREFIX | ReflectionKind \<Rightarrow> ''reflections/assets/'')"

definition kind_verified :: "content_kind \<Rightarrow> bool" where
  "kind_verified k = (case k of EngramKind \<Rightarrow> True | ReflectionKind \<Rightarrow> False)"

datatype reflection_mode = Off | Effective

datatype path_class =
    EngramPath | EngramAsset | Reserved | Hidden | Artifact | OtherPath | InReflection reflection_file

definition class_kind :: "path_class \<Rightarrow> content_kind option" where
  "class_kind c =
     (case c of
        EngramPath \<Rightarrow> Some EngramKind | EngramAsset \<Rightarrow> Some EngramKind
      | Reserved \<Rightarrow> None | Hidden \<Rightarrow> None | Artifact \<Rightarrow> None | OtherPath \<Rightarrow> None
      | InReflection _ \<Rightarrow> Some ReflectionKind)"

definition shares :: "path_class \<Rightarrow> bool" where
  "shares c = (case c of InReflection _ \<Rightarrow> False | _ \<Rightarrow> True)"

definition backs_up :: "path_class \<Rightarrow> bool" where
  "backs_up c = (case c of InReflection file \<Rightarrow> file \<noteq> OtherFile | _ \<Rightarrow> False)"

record domain_layout =
  dl_artifacts :: "string list"
  dl_reflection :: reflection_mode

definition bare_layout :: "reflection_mode \<Rightarrow> domain_layout" where
  "bare_layout reflection = \<lparr>dl_artifacts = [], dl_reflection = reflection\<rparr>"

definition is_hidden_segment :: "string \<Rightarrow> bool" where
  "is_hidden_segment segment \<longleftrightarrow> starts_with ''.'' segment \<and> segment \<noteq> ''.'' \<and> segment \<noteq> ''..''"

definition in_artifact :: "domain_layout \<Rightarrow> string \<Rightarrow> bool" where
  "in_artifact layout rel =
     list_ex (\<lambda>dir. rel = dir
        \<or> (case strip_prefix dir rel of Some rest \<Rightarrow> starts_with ''/'' rest | None \<Rightarrow> False)) (dl_artifacts layout)"

definition classify :: "(string \<Rightarrow> string) \<Rightarrow> domain_layout \<Rightarrow> string \<Rightarrow> path_class" where
  "classify lower layout rel =
     (let rel = trim_dot_slash rel
      in if dl_reflection layout = Effective \<and> is_under_reflections rel
         then InReflection (classify_reflection lower
                (case split_once CHR ''/'' rel of Some (_, rest) \<Rightarrow> rest | None \<Rightarrow> []))
         else if list_ex is_hidden_segment (split_on CHR ''/'' rel) then Hidden
         else if is_reserved_path rel then Reserved
         else if in_artifact layout rel then Artifact
         else if is_under_assets rel then EngramAsset
         else if ends_with ''.md'' (ascii_lowercase rel) then EngramPath
         else OtherPath)"

definition enters_dir :: "domain_layout \<Rightarrow> string \<Rightarrow> bool" where
  "enters_dir layout rel =
     (let rel = trim_dot_slash rel
      in \<not> list_ex is_hidden_segment (split_on CHR ''/'' rel) \<and> \<not> in_artifact layout rel)"

definition prunes_dir :: "domain_layout \<Rightarrow> string \<Rightarrow> bool" where
  "prunes_dir layout rel \<longleftrightarrow>
     \<not> enters_dir layout rel \<or> (dl_reflection layout = Effective \<and> is_under_reflections rel)"

section \<open>Segments\<close>

lemma first_segment_takeWhile: "first_segment s = takeWhile (\<lambda>c. c \<noteq> CHR ''/'') s"
  unfolding first_segment_def
proof (induction s)
  case (Cons c s)
  then show ?case by (cases "split_on CHR ''/'' s") auto
qed simp

lemma eq_ignore_length: "eq_ignore_ascii_case a b \<Longrightarrow> length a = length b"
  unfolding eq_ignore_ascii_case_def ascii_lowercase_def by (metis length_map)

lemma first_segment_long:
  assumes "CHR ''/'' \<notin> set q" "\<not> is_under_assets (s @ p)" "CHR ''/'' \<notin> set p" "length q > 6"
  shows "\<not> is_under_assets (s @ q)"
proof (cases "CHR ''/'' \<in> set s")
  case True
  then have "first_segment (s @ r) = first_segment s" for r
    by (auto simp: first_segment_takeWhile takeWhile_append1)
  then show ?thesis using assms(2) by (simp add: is_under_assets_def)
next
  case False
  then have "first_segment (s @ q) = s @ q"
    using assms(1) by (simp add: first_segment_takeWhile takeWhile_append2 takeWhile_eq_all_conv) auto
  then show ?thesis
    using assms(4) eq_ignore_length [of "s @ q" ASSETS_FOLDER] by (auto simp: is_under_assets_def ASSETS_FOLDER_def)
qed

lemma reflection_segments_None:
  "reflection_segments ss = None \<Longrightarrow> seg \<in> set ss \<Longrightarrow> seg \<noteq> [] \<and> \<not> starts_with ''.'' seg"
  by (induction ss) (auto split: if_splits)

text \<open>What the rules on a page's path say of it.\<close>

lemma valid_page:
  assumes "validate_reflection_path page = Inr ()"
  shows "\<not> is_under_assets page" "\<not> ends_with THREADS_SUFFIX page"
    "\<exists>c stem. page = c # stem @ ''.md'' \<and> c \<noteq> CHR ''.''"
    "is_pact page \<longleftrightarrow> page = PACT_FILE"
    "\<forall>seg \<in> set (split_on CHR ''/'' page). seg \<noteq> [] \<and> \<not> starts_with ''.'' seg"
    "\<not> is_reserved_file (last (split_on CHR ''/'' page))"
proof -
  have rs: "reflection_segments (split_on CHR ''/'' page) = None"
    using assms by (auto simp: validate_reflection_path_def split: if_splits option.splits)
  show "\<not> is_under_assets page" "\<not> ends_with THREADS_SUFFIX page"
    "\<not> is_reserved_file (last (split_on CHR ''/'' page))"
    using assms by (auto simp: validate_reflection_path_def split: if_splits option.splits)
  show "is_pact page \<longleftrightarrow> page = PACT_FILE"
    using assms by (auto simp: validate_reflection_path_def is_pact_def eq_ignore_ascii_case_def split: if_splits option.splits)
  show seg: "\<forall>seg \<in> set (split_on CHR ''/'' page). seg \<noteq> [] \<and> \<not> starts_with ''.'' seg"
    using reflection_segments_None [OF rs] by blast
  have md: "ends_with ''.md'' page"
    using assms by (auto simp: validate_reflection_path_def split: if_splits option.splits)
  then obtain stem where stem: "page = stem @ ''.md''" by (auto simp: ends_with_iff)
  have "hd (split_on CHR ''/'' page) \<in> set (split_on CHR ''/'' page)" by simp
  then have first: "first_segment page \<noteq> []" "\<not> starts_with ''.'' (first_segment page)"
    using seg unfolding first_segment_def by blast+
  have "first_segment (stem @ ''.md'') = ''.md''" if "stem = []"
    using that by (simp add: first_segment_takeWhile)
  then have "stem \<noteq> []" using first stem by auto
  then obtain c t where ct: "stem = c # t" by (cases stem) auto
  have "c \<noteq> CHR ''.''"
  proof
    assume "c = CHR ''.''"
    then have "starts_with ''.'' (first_segment page)" using stem ct by (simp add: first_segment_takeWhile)
    with first show False by simp
  qed
  then show "\<exists>c stem. page = c # stem @ ''.md'' \<and> c \<noteq> CHR ''.''" using stem ct by auto
qed

lemma classify_in_folder:
  "classify lower (bare_layout Effective) (domain_rel path) = InReflection (classify_reflection lower path)"
proof -
  have t: "trim_dot_slash (domain_rel path) = domain_rel path"
    by (subst trim_dot_slash.simps) (simp add: domain_rel_def REFLECTIONS_DIR_def strip_prefix_def)
  have u: "is_under_reflections (domain_rel path)"
    unfolding is_under_reflections_def t
    by (simp add: first_segment_takeWhile domain_rel_def REFLECTIONS_DIR_def eq_ignore_ascii_case_def)
  have o: "split_once CHR ''/'' (domain_rel path) = Some (REFLECTIONS_DIR, path)"
    unfolding domain_rel_def by (simp add: split_once_Some REFLECTIONS_DIR_def)
  show ?thesis by (simp add: classify_def t u o bare_layout_def)
qed

lemma dotted_not_reflected: "c \<noteq> CHR ''.'' \<Longrightarrow> strip_prefix (BASELINE_DIR @ ''/'') (c # s) = None"
  by (simp add: strip_prefix_def BASELINE_DIR_def)

lemma not_pact_long: "7 < length path \<Longrightarrow> \<not> is_pact path"
  using eq_ignore_length [of path PACT_FILE] by (auto simp: is_pact_def PACT_FILE_def)

section \<open>Property\<close>

text \<open>
  A Reflection's files and their classes are in step. A path that may name a page is
  classified as that page (the pact under its own name), its threads file and its
  baseline as theirs of exactly that page; all three stay out of engram shares and go
  into the Reflection's backup; and with the Reflection off the page is an engram.
\<close>

theorem reflection_files:
  fixes lower :: "string \<Rightarrow> string"
  assumes "validate_reflection_path page = Inr ()"
  defines "cls \<equiv> classify lower (bare_layout Effective)"
  shows "cls (domain_rel page) = InReflection (if page = PACT_FILE then Pact else Page page)
    \<and> cls (domain_rel (threads_path page)) = InReflection (Threads page)
    \<and> cls (domain_rel (baseline_path page)) = InReflection (Baseline page)
    \<and> list_all (\<lambda>path. \<not> shares (cls (domain_rel path)) \<and> backs_up (cls (domain_rel path)))
         [page, threads_path page, baseline_path page]
    \<and> classify lower (bare_layout Off) (domain_rel page) = EngramPath"
proof -
  note v = valid_page [OF assms(1)]
  obtain c stem where page: "page = c # stem @ ''.md''" "c \<noteq> CHR ''.''" using v(3) by blast
  have own: "classify_reflection lower page = (if page = PACT_FILE then Pact else Page page)"
    using v(1,2,4) assms(1) dotted_not_reflected [OF page(2)] page(1)
    by (simp add: classify_reflection_def canonical_asset_path_def)
  let ?t = "c # stem @ THREADS_SUFFIX"
  have tp: "threads_path page = ?t"
    using strip_suffix_Some [of "''.md''" page "c # stem"] page(1) by (simp add: threads_path_def)
  have "threads_of ?t = Some page"
    using strip_suffix_Some [of THREADS_SUFFIX ?t "c # stem"] page(1) assms(1) by (simp add: threads_of_def)
  moreover have "\<not> is_under_assets ?t"
    using first_segment_long [of THREADS_SUFFIX "c # stem" "''.md''"] v(1) page(1) by (simp add: THREADS_SUFFIX_def)
  moreover have "ends_with THREADS_SUFFIX ?t" by (metis append_Cons ends_with_iff)
  moreover have "\<not> is_pact ?t" by (rule not_pact_long) (simp add: THREADS_SUFFIX_def)
  ultimately have threads: "classify_reflection lower (threads_path page) = Threads page"
    using dotted_not_reflected [OF page(2)] tp by (simp add: classify_reflection_def canonical_asset_path_def)
  have "\<not> is_under_assets (baseline_path page)"
    using eq_ignore_length [of BASELINE_DIR ASSETS_FOLDER]
    by (auto simp: is_under_assets_def baseline_path_def first_segment_takeWhile BASELINE_DIR_def ASSETS_FOLDER_def)
  moreover have "\<not> is_pact (baseline_path page)"
    by (rule not_pact_long) (simp add: baseline_path_def BASELINE_DIR_def)
  moreover have "strip_prefix (BASELINE_DIR @ ''/'') (baseline_path page) = Some page"
    by (simp add: strip_prefix_Some baseline_path_def)
  ultimately have baseline: "classify_reflection lower (baseline_path page) = Baseline page"
    using assms(1) by (simp add: classify_reflection_def canonical_asset_path_def)
  have off: "classify lower (bare_layout Off) (domain_rel page) = EngramPath"
  proof -
    have t: "trim_dot_slash (domain_rel page) = domain_rel page"
      by (subst trim_dot_slash.simps) (simp add: domain_rel_def REFLECTIONS_DIR_def strip_prefix_def)
    have sp: "split_on CHR ''/'' (domain_rel page) = REFLECTIONS_DIR # split_on CHR ''/'' page"
      using split_on_append [of "CHR ''/''" REFLECTIONS_DIR page] by (simp add: domain_rel_def REFLECTIONS_DIR_def)
    have h: "\<not> list_ex is_hidden_segment (split_on CHR ''/'' (domain_rel page))"
      using v(5) by (auto simp: sp list_ex_iff is_hidden_segment_def REFLECTIONS_DIR_def)
    have r: "\<not> is_reserved_path (domain_rel page)" using v(6) by (simp add: is_reserved_path_def sp)
    have a: "\<not> is_under_assets (domain_rel page)"
      by (simp add: is_under_assets_def first_segment_def sp REFLECTIONS_DIR_def ASSETS_FOLDER_def
          eq_ignore_ascii_case_def ascii_lowercase_def)
    have m: "ends_with ''.md'' (ascii_lowercase (domain_rel page))"
    proof -
      have "ascii_lowercase ''.md'' = ''.md''" by code_simp
      then have "ascii_lowercase (domain_rel page) = ascii_lowercase (domain_rel (c # stem)) @ ''.md''"
        by (simp add: page(1) domain_rel_def ascii_lowercase_def)
      then show ?thesis unfolding ends_with_iff by blast
    qed
    show ?thesis using h r a m by (simp add: classify_def t bare_layout_def in_artifact_def)
  qed
  show ?thesis
    unfolding cls_def classify_in_folder
    using own threads baseline off by (simp add: shares_def backs_up_def)
qed

theorem reflection_files_witness:
  "classify ascii_lowercase (bare_layout Effective) ''reflections/guides/a.threads.md''
     = InReflection (Threads ''guides/a.md'')"
proof -
  have v: "validate_reflection_path ''guides/a.md'' = Inr ()" by code_simp
  have "domain_rel (threads_path ''guides/a.md'') = ''reflections/guides/a.threads.md''" by code_simp
  with reflection_files [OF v, of ascii_lowercase] show ?thesis by simp
qed

end
