(* ===== verification/LocalChanges.thy ===== *)
theory LocalChanges
  imports Layout Maps
begin

text \<open>
  Local change detection of \<open>remote/src/changes.rs\<close>: what a domain's folder looks like
  relative to the base snapshot. The folder is what the walk yields, a list of files and
  errors; the digest \<open>sha\<close>, the case folding \<open>lower\<close> (\<open>str::to_lowercase\<close>), the base copies,
  a second read of a file and the question whether a path is there (\<open>stat\<close>) are
  parameters. The walk's entries are the ones left after its hidden-name filter; a file whose
  metadata cannot be read is a walk error at its path. Everything the code refuses or
  reports is a constructor of \<open>detect_error\<close>.
\<close>

section \<open>Files, stamps and changes\<close>

definition MAX_SHARED_FILE_BYTES :: nat where "MAX_SHARED_FILE_BYTES = 5 * 1024 * 1024"

record base_stamp =
  bs_sha256 :: string
  bs_size :: nat

datatype local_change = Added string string | Modified string string | Deleted string

fun change_path :: "local_change \<Rightarrow> string" where
  "change_path (Added path _) = path"
| "change_path (Modified path _) = path"
| "change_path (Deleted path) = path"

definition change_is_index :: "local_change \<Rightarrow> bool" where
  "change_is_index c = is_index_path (change_path c)"

record local_changes =
  lc_changes :: "local_change list"
  lc_skipped_large :: "(string \<times> nat) list"
  lc_disk_paths :: "(string \<times> string) list"

definition substantive :: "local_changes \<Rightarrow> local_change list" where
  "substantive lc = filter (\<lambda>c. \<not> change_is_index c) (lc_changes lc)"

definition substantive_count :: "local_changes \<Rightarrow> nat" where
  "substantive_count lc = length (substantive lc)"

definition index_count :: "local_changes \<Rightarrow> nat" where
  "index_count lc = length (filter change_is_index (lc_changes lc))"

definition disk_path :: "local_changes \<Rightarrow> string \<Rightarrow> string" where
  "disk_path lc reported =
     (case map_of (lc_disk_paths lc) reported of Some p \<Rightarrow> p | None \<Rightarrow> reported)"

section \<open>Which paths take part\<close>

datatype generated_indexes = LocalIndexes | SharedIndexes

definition DOMAIN_CONFIG_FILE_NAME :: string where "DOMAIN_CONFIG_FILE_NAME = ''.crystalline.yaml''"

definition is_hidden :: "string \<Rightarrow> bool" where
  "is_hidden name \<longleftrightarrow>
     starts_with ''.'' name \<and> name \<noteq> ''.'' \<and> name \<noteq> ''..'' \<and> name \<noteq> DOMAIN_CONFIG_FILE_NAME"

definition is_hidden_path :: "string \<Rightarrow> bool" where
  "is_hidden_path rel_path = list_ex is_hidden (split_on CHR ''/'' rel_path)"

definition is_excluded_path :: "string \<Rightarrow> bool" where
  "is_excluded_path rel_path \<longleftrightarrow>
     is_hidden_path rel_path \<or> (is_reserved_path rel_path \<and> \<not> is_index_path rel_path)"

definition participates_in_change_detection :: "string \<Rightarrow> generated_indexes \<Rightarrow> bool" where
  "participates_in_change_detection rel_path indexes =
     (if is_excluded_path rel_path then False
      else indexes = SharedIndexes \<or> \<not> is_index_path rel_path)"

section \<open>Comparing a file with its stamp\<close>

definition same_as_base :: "base_stamp \<Rightarrow> string option \<Rightarrow> nat \<Rightarrow> string \<Rightarrow> bool" where
  "same_as_base stamp lf len digest \<longleftrightarrow>
     (bs_size stamp = len \<and> bs_sha256 stamp = digest) \<or> lf = Some digest"

definition path_extension :: "string \<Rightarrow> string option" where
  "path_extension rel =
     (case rsplit_once CHR ''.'' (last (split_on CHR ''/'' rel)) of
        Some (stem, ext) \<Rightarrow> if stem = [] then None else Some ext
      | None \<Rightarrow> None)"

definition matches_base_as_lf ::
  "(string \<Rightarrow> string) \<Rightarrow> (string \<Rightarrow> string option) \<Rightarrow> string \<Rightarrow> base_stamp \<Rightarrow> string \<Rightarrow> bool" where
  "matches_base_as_lf sha copies rel stamp disk =
     (if \<not> (case path_extension rel of Some ext \<Rightarrow> eq_ignore_ascii_case ext ''md'' | None \<Rightarrow> False) then False
      else (case copies rel of
              None \<Rightarrow> False
            | Some copy \<Rightarrow>
                if sha copy \<noteq> bs_sha256 stamp then False
                else valid_up_to disk = length disk \<and> valid_up_to copy = length copy
                     \<and> to_lf disk = to_lf copy))"

definition same_text_as_base ::
  "(string \<Rightarrow> string) \<Rightarrow> (string \<Rightarrow> string option) option \<Rightarrow> string \<Rightarrow> base_stamp \<Rightarrow> string \<Rightarrow> bool" where
  "same_text_as_base sha base_copies rel stamp disk =
     (case base_copies of Some copies \<Rightarrow> matches_base_as_lf sha copies rel stamp disk | None \<Rightarrow> False)"

section \<open>Detection\<close>

text \<open>
  What the walk yields: a file with its size and what reading it answers (\<open>None\<close> when the
  read fails), or an error at a path.
\<close>

datatype walk_entry = WalkFile string nat "string option" | WalkError string

datatype stat_answer = NotFound | Present | StatError

datatype detect_error =
    WorkingTree string
  | TooLargeCaseTwin string string
  | CaseTwinsInBase "string list"
  | UnseenOnDisk string

record detect_env =
  de_sha :: "string \<Rightarrow> string"
  de_lower :: "string \<Rightarrow> string"
  de_indexes :: generated_indexes
  de_reflection :: reflection_mode
  de_base_copies :: "(string \<Rightarrow> string option) option"
  de_lf_digests :: "(string \<times> string) list option"
  de_reread :: "string \<Rightarrow> string option"
  de_stat :: "string \<Rightarrow> stat_answer"

definition takes_part :: "detect_env \<Rightarrow> string \<Rightarrow> bool" where
  "takes_part E rel \<longleftrightarrow>
     participates_in_change_detection rel (de_indexes E)
     \<and> shares (classify (de_lower E) (bare_layout (de_reflection E)) rel)"

definition lf_digest :: "detect_env \<Rightarrow> string \<Rightarrow> string option" where
  "lf_digest E rel = (case de_lf_digests E of Some m \<Rightarrow> map_of m rel | None \<Rightarrow> None)"

record walk_state =
  ws_changes :: "local_change list"
  ws_skipped :: "(string \<times> nat) list"
  ws_seen :: "string list"
  ws_unmatched :: "(string \<times> nat \<times> string option) list"

definition walk_file ::
  "detect_env \<Rightarrow> (string \<times> base_stamp) list \<Rightarrow> string \<Rightarrow> nat \<Rightarrow> string option \<Rightarrow> walk_state
     \<Rightarrow> detect_error + walk_state" where
  "walk_file E base rel len content ws =
     (if \<not> takes_part E rel then Inr ws
      else
        (let ws = ws\<lparr>ws_seen := ws_seen ws @ [rel]\<rparr>
         in if len > MAX_SHARED_FILE_BYTES then
              (let ws = (if map_of base rel = None
                         then ws\<lparr>ws_unmatched := ws_unmatched ws @ [(rel, len, None)]\<rparr> else ws)
               in Inr (ws\<lparr>ws_skipped := ws_skipped ws @ [(rel, len)]\<rparr>))
            else (case content of
                    None \<Rightarrow> Inl (WorkingTree rel)
                  | Some bytes \<Rightarrow>
                      (let digest = de_sha E bytes
                       in case map_of base rel of
                            Some stamp \<Rightarrow>
                              (let lf = lf_digest E rel
                               in if \<not> same_as_base stamp lf len digest
                                     \<and> (lf \<noteq> None \<or> \<not> same_text_as_base (de_sha E) (de_base_copies E) rel stamp bytes)
                                  then Inr (ws\<lparr>ws_changes := ws_changes ws @ [Modified rel digest]\<rparr>)
                                  else Inr ws)
                          | None \<Rightarrow> Inr (ws\<lparr>ws_unmatched := ws_unmatched ws @ [(rel, len, Some digest)]\<rparr>)))))"

fun walk_loop ::
  "detect_env \<Rightarrow> (string \<times> base_stamp) list \<Rightarrow> walk_entry list \<Rightarrow> walk_state \<Rightarrow> detect_error + walk_state" where
  "walk_loop E base [] ws = Inr ws"
| "walk_loop E base (WalkError at # entries) ws = Inl (WorkingTree (if at = [] then ''.'' else at))"
| "walk_loop E base (WalkFile rel len content # entries) ws =
     (case walk_file E base rel len content ws of
        Inl e \<Rightarrow> Inl e
      | Inr ws' \<Rightarrow> walk_loop E base entries ws')"

text \<open>The case fold: what \<open>folded_base\<close> and \<open>folded_disk\<close> hold for a folded path.\<close>

definition folded_base :: "detect_env \<Rightarrow> (string \<times> base_stamp) list \<Rightarrow> string \<Rightarrow> string list" where
  "folded_base E base folded = filter (\<lambda>key. de_lower E key = folded) (map fst base)"

definition folded_disk :: "detect_env \<Rightarrow> (string \<times> nat \<times> string option) list \<Rightarrow> string \<Rightarrow> nat" where
  "folded_disk E unmatched folded = length (filter (\<lambda>(rel, _). de_lower E rel = folded) unmatched)"

definition claim_of ::
  "detect_env \<Rightarrow> (string \<times> base_stamp) list \<Rightarrow> walk_state \<Rightarrow> string \<Rightarrow> string option" where
  "claim_of E base ws rel =
     (let folded = de_lower E rel
      in case folded_base E base folded of
           [key] \<Rightarrow>
             if folded_disk E (ws_unmatched ws) folded = 1 \<and> key \<notin> set (ws_seen ws) then Some key else None
         | _ \<Rightarrow> None)"

record fold_state =
  fs_changes :: "local_change list"
  fs_adopted :: "string list"
  fs_disk_paths :: "(string \<times> string) list"

definition fold_one ::
  "detect_env \<Rightarrow> (string \<times> base_stamp) list \<Rightarrow> walk_state \<Rightarrow> string \<times> nat \<times> string option \<Rightarrow> fold_state
     \<Rightarrow> detect_error + fold_state" where
  "fold_one E base ws item fs =
     (let (rel, len, digest) = item;
          claim = claim_of E base ws rel;
          fs = (case claim of
                  Some key \<Rightarrow> fs\<lparr>fs_adopted := fs_adopted fs @ [key],
                                fs_disk_paths := bt_insert key rel (fs_disk_paths fs)\<rparr>
                | None \<Rightarrow> fs)
      in case (claim, digest) of
           (Some key, Some digest) \<Rightarrow>
             (let stamp = the (map_of base key);
                  lf = lf_digest E key;
                  unchanged = same_as_base stamp lf len digest
                    \<or> (lf = None \<and> de_base_copies E \<noteq> None
                       \<and> (case map_of (fs_disk_paths fs) key of
                            Some disk \<Rightarrow>
                              (case de_reread E disk of
                                 Some bytes \<Rightarrow> same_text_as_base (de_sha E) (de_base_copies E) key stamp bytes
                               | None \<Rightarrow> False)
                          | None \<Rightarrow> False))
              in Inr (if unchanged then fs else fs\<lparr>fs_changes := fs_changes fs @ [Modified key digest]\<rparr>))
         | (Some key, None) \<Rightarrow> Inl (TooLargeCaseTwin rel key)
         | (None, Some digest) \<Rightarrow> Inr (fs\<lparr>fs_changes := fs_changes fs @ [Added rel digest]\<rparr>)
         | (None, None) \<Rightarrow> Inr fs)"

fun fold_pass ::
  "detect_env \<Rightarrow> (string \<times> base_stamp) list \<Rightarrow> walk_state \<Rightarrow> (string \<times> nat \<times> string option) list \<Rightarrow> fold_state
     \<Rightarrow> detect_error + fold_state" where
  "fold_pass E base ws [] fs = Inr fs"
| "fold_pass E base ws (item # items) fs =
     (case fold_one E base ws item fs of
        Inl e \<Rightarrow> Inl e
      | Inr fs' \<Rightarrow> fold_pass E base ws items fs')"

definition removed_but_for_case ::
  "detect_env \<Rightarrow> (string \<times> base_stamp) list \<Rightarrow> walk_state \<Rightarrow> string \<Rightarrow> bool" where
  "removed_but_for_case E base ws rel =
     (let keys = folded_base E base (de_lower E rel)
      in length keys > 1 \<and> list_ex (\<lambda>k. k \<in> set (ws_seen ws)) keys)"

fun delete_pass ::
  "detect_env \<Rightarrow> (string \<times> base_stamp) list \<Rightarrow> walk_state \<Rightarrow> string list \<Rightarrow> string list \<Rightarrow> local_change list
     \<Rightarrow> detect_error + local_change list" where
  "delete_pass E base ws adopted [] changes = Inr changes"
| "delete_pass E base ws adopted (rel # rels) changes =
     (if rel \<notin> set (ws_seen ws) \<and> rel \<notin> set adopted \<and> \<not> removed_but_for_case E base ws rel then
        (let folded = de_lower E rel; keys = folded_base E base folded
         in if folded \<in> set (map (de_lower E) (ws_seen ws)) \<and> length keys > 1
            then Inl (CaseTwinsInBase keys)
            else (case de_stat E rel of
                    NotFound \<Rightarrow> delete_pass E base ws adopted rels (changes @ [Deleted rel])
                  | StatError \<Rightarrow> Inl (WorkingTree rel)
                  | Present \<Rightarrow> Inl (UnseenOnDisk rel)))
      else delete_pass E base ws adopted rels changes)"

definition detect_local_changes_with ::
  "detect_env \<Rightarrow> (string \<times> base_stamp) list \<Rightarrow> walk_entry list \<Rightarrow> detect_error + local_changes" where
  "detect_local_changes_with E full_base entries =
     (let base = filter (\<lambda>(rel, _). takes_part E rel) full_base
      in case walk_loop E base entries
                \<lparr>ws_changes = [], ws_skipped = [], ws_seen = [], ws_unmatched = []\<rparr> of
           Inl e \<Rightarrow> Inl e
         | Inr ws \<Rightarrow>
             (case fold_pass E base ws (ws_unmatched ws)
                     \<lparr>fs_changes = ws_changes ws, fs_adopted = [], fs_disk_paths = []\<rparr> of
                Inl e \<Rightarrow> Inl e
              | Inr fs \<Rightarrow>
                  (case delete_pass E base ws (fs_adopted fs) (map fst base) (fs_changes fs) of
                     Inl e \<Rightarrow> Inl e
                   | Inr changes \<Rightarrow>
                       Inr \<lparr>lc_changes = sort_key change_path changes,
                            lc_skipped_large = ws_skipped ws,
                            lc_disk_paths = fs_disk_paths fs\<rparr>)))"

section \<open>Renames\<close>

definition deleted_by_hash ::
  "local_changes \<Rightarrow> (string \<times> base_stamp) list \<Rightarrow> (string \<times> string) list \<Rightarrow> string \<Rightarrow> string list" where
  "deleted_by_hash changes base lf_digests digest =
     concat (map (\<lambda>c. case c of
         Deleted path \<Rightarrow>
           (case map_of base path of
              Some stamp \<Rightarrow>
                (if bs_sha256 stamp = digest then [path] else [])
                @ (if map_of lf_digests path = Some digest then [path] else [])
            | None \<Rightarrow> [])
       | _ \<Rightarrow> []) (lc_changes changes))"

fun pair_loop ::
  "(string \<Rightarrow> string list) \<Rightarrow> local_change list \<Rightarrow> string list \<Rightarrow> (string \<times> string) list" where
  "pair_loop by_hash [] used = []"
| "pair_loop by_hash (Added path digest # cs) used =
     (case find (\<lambda>c. c \<notin> set used) (by_hash digest) of
        Some old \<Rightarrow> (old, path) # pair_loop by_hash cs (old # used)
      | None \<Rightarrow> pair_loop by_hash cs used)"
| "pair_loop by_hash (Modified _ _ # cs) used = pair_loop by_hash cs used"
| "pair_loop by_hash (Deleted _ # cs) used = pair_loop by_hash cs used"

definition pair_renames_with ::
  "local_changes \<Rightarrow> (string \<times> base_stamp) list \<Rightarrow> (string \<times> string) list \<Rightarrow> (string \<times> string) list" where
  "pair_renames_with changes base lf_digests =
     pair_loop (deleted_by_hash changes base lf_digests) (lc_changes changes) []"

definition pair_renames :: "local_changes \<Rightarrow> (string \<times> base_stamp) list \<Rightarrow> (string \<times> string) list" where
  "pair_renames changes base = pair_renames_with changes base []"

section \<open>What the three passes do\<close>

text \<open>The files of a walk that take part.\<close>

fun walked :: "detect_env \<Rightarrow> walk_entry list \<Rightarrow> string list" where
  "walked E [] = []"
| "walked E (WalkError _ # entries) = walked E entries"
| "walked E (WalkFile rel _ _ # entries) = (if takes_part E rel then [rel] else []) @ walked E entries"

definition is_deletion :: "local_change \<Rightarrow> bool" where
  "is_deletion c = (case c of Deleted _ \<Rightarrow> True | _ \<Rightarrow> False)"

lemma walk_file_step:
  assumes "walk_file E base rel len content ws = Inr ws'"
  shows "ws_seen ws' = ws_seen ws @ (if takes_part E rel then [rel] else [])"
    and "map fst (ws_unmatched ws') = map fst (ws_unmatched ws)
           @ (if takes_part E rel \<and> map_of base rel = None then [rel] else [])"
    and "\<exists>ms. ws_changes ws' = ws_changes ws @ ms \<and> (\<forall>c\<in>set ms. \<exists>d. c = Modified rel d \<and> takes_part E rel \<and> map_of base rel \<noteq> None)"
  using assms by (auto simp: walk_file_def Let_def split: if_splits option.splits)

lemma walk_loop_result:
  assumes "walk_loop E base entries ws = Inr ws'"
  shows "ws_seen ws' = ws_seen ws @ walked E entries
    \<and> map fst (ws_unmatched ws') = map fst (ws_unmatched ws) @ filter (\<lambda>rel. map_of base rel = None) (walked E entries)
    \<and> (\<exists>ms. ws_changes ws' = ws_changes ws @ ms
         \<and> (\<forall>c\<in>set ms. \<exists>rel d. c = Modified rel d \<and> rel \<in> set (walked E entries) \<and> map_of base rel \<noteq> None))"
  using assms
proof (induction E base entries ws rule: walk_loop.induct)
  case (3 E base rel len content entries ws)
  then obtain ws1 where w1: "walk_file E base rel len content ws = Inr ws1"
    and w2: "walk_loop E base entries ws1 = Inr ws'" by (auto split: sum.splits)
  note step = walk_file_step [OF w1] and IH = "3.IH" [OF w1 w2]
  obtain ms1 where ms1: "ws_changes ws1 = ws_changes ws @ ms1"
    "\<forall>c\<in>set ms1. \<exists>d. c = Modified rel d \<and> takes_part E rel \<and> map_of base rel \<noteq> None" using step(3) by blast
  obtain ms2 where ms2: "ws_changes ws' = ws_changes ws1 @ ms2"
    "\<forall>c\<in>set ms2. \<exists>rel d. c = Modified rel d \<and> rel \<in> set (walked E entries) \<and> map_of base rel \<noteq> None" using IH by blast
  have "\<forall>c\<in>set (ms1 @ ms2). \<exists>q d. c = Modified q d \<and> q \<in> set (walked E (WalkFile rel len content # entries)) \<and> map_of base q \<noteq> None"
    using ms1(2) ms2(2) by fastforce
  moreover have "ws_changes ws' = ws_changes ws @ (ms1 @ ms2)" using ms1(1) ms2(1) by simp
  ultimately show ?case using step(1,2) IH by (auto simp del: set_append)
qed auto

lemma fold_one_step:
  assumes "fold_one E base ws item fs = Inr fs'"
  shows "fs_adopted fs' = fs_adopted fs @ (case claim_of E base ws (fst item) of Some key \<Rightarrow> [key] | None \<Rightarrow> [])"
    and "\<exists>ms. fs_changes fs' = fs_changes fs @ ms \<and> (\<forall>c\<in>set ms.
           (\<exists>key d. c = Modified key d \<and> claim_of E base ws (fst item) = Some key)
           \<or> (\<exists>d. c = Added (fst item) d \<and> claim_of E base ws (fst item) = None))"
  using assms by (auto simp: fold_one_def Let_def split: prod.splits option.splits if_splits)

lemma fold_pass_result:
  assumes "fold_pass E base ws items fs = Inr fs'"
  shows "set (fs_adopted fs') = set (fs_adopted fs) \<union> {key. \<exists>rel\<in>set (map fst items). claim_of E base ws rel = Some key}
    \<and> (\<exists>ms. fs_changes fs' = fs_changes fs @ ms \<and> (\<forall>c\<in>set ms. \<exists>rel\<in>set (map fst items).
           (\<exists>key d. c = Modified key d \<and> claim_of E base ws rel = Some key)
           \<or> (\<exists>d. c = Added rel d \<and> claim_of E base ws rel = None)))"
  using assms
proof (induction items arbitrary: fs)
  case (Cons item items)
  then obtain fs1 where f1: "fold_one E base ws item fs = Inr fs1" and f2: "fold_pass E base ws items fs1 = Inr fs'"
    by (auto split: sum.splits)
  note step = fold_one_step [OF f1] and IH = Cons.IH [OF f2]
  obtain ms1 where ms1: "fs_changes fs1 = fs_changes fs @ ms1" "\<forall>c\<in>set ms1.
           (\<exists>key d. c = Modified key d \<and> claim_of E base ws (fst item) = Some key)
           \<or> (\<exists>d. c = Added (fst item) d \<and> claim_of E base ws (fst item) = None)" using step(2) by blast
  obtain ms2 where ms2: "fs_changes fs' = fs_changes fs1 @ ms2" "\<forall>c\<in>set ms2. \<exists>rel\<in>set (map fst items).
           (\<exists>key d. c = Modified key d \<and> claim_of E base ws rel = Some key)
           \<or> (\<exists>d. c = Added rel d \<and> claim_of E base ws rel = None)" using IH by blast
  have ad: "set (fs_adopted fs') = set (fs_adopted fs) \<union> {key. \<exists>rel\<in>set (map fst (item # items)). claim_of E base ws rel = Some key}"
    using IH step(1) by (auto split: option.splits)
  have "\<forall>c\<in>set (ms1 @ ms2). \<exists>rel\<in>set (map fst (item # items)).
           (\<exists>key d. c = Modified key d \<and> claim_of E base ws rel = Some key)
           \<or> (\<exists>d. c = Added rel d \<and> claim_of E base ws rel = None)"
    using ms1(2) ms2(2) unfolding set_append list.map list.set by blast
  moreover have "fs_changes fs' = fs_changes fs @ (ms1 @ ms2)" using ms1(1) ms2(1) by simp
  ultimately show ?case using ad by blast
qed simp

definition goes :: "detect_env \<Rightarrow> (string \<times> base_stamp) list \<Rightarrow> walk_state \<Rightarrow> string list \<Rightarrow> string \<Rightarrow> bool" where
  "goes E base ws adopted rel \<longleftrightarrow>
     rel \<notin> set (ws_seen ws) \<and> rel \<notin> set adopted \<and> \<not> removed_but_for_case E base ws rel"

lemma delete_pass_result:
  assumes "delete_pass E base ws adopted rels changes = Inr changes'"
  shows "changes' = changes @ map Deleted (filter (goes E base ws adopted) rels)
    \<and> (\<forall>rel\<in>set rels. goes E base ws adopted rel \<longrightarrow> de_stat E rel = NotFound
         \<and> \<not> (de_lower E rel \<in> set (map (de_lower E) (ws_seen ws)) \<and> length (folded_base E base (de_lower E rel)) > 1))"
  using assms
proof (induction rels arbitrary: changes)
  case (Cons rel rels)
  show ?case
  proof (cases "goes E base ws adopted rel")
    case True
    then have st: "de_stat E rel = NotFound"
      "\<not> (de_lower E rel \<in> set (map (de_lower E) (ws_seen ws)) \<and> length (folded_base E base (de_lower E rel)) > 1)"
      "delete_pass E base ws adopted rels (changes @ [Deleted rel]) = Inr changes'"
      using Cons.prems by (auto simp: goes_def Let_def split: if_splits stat_answer.splits)
    from Cons.IH [OF st(3)] st(1,2) True show ?thesis by auto
  next
    case False
    then have "delete_pass E base ws adopted rels changes = Inr changes'"
      using Cons.prems by (auto simp: goes_def split: if_splits)
    from Cons.IH [OF this] False show ?thesis by auto
  qed
qed simp

definition base_part :: "detect_env \<Rightarrow> (string \<times> base_stamp) list \<Rightarrow> (string \<times> base_stamp) list" where
  "base_part E full_base = filter (\<lambda>(rel, _). takes_part E rel) full_base"

text \<open>A successful detection, taken apart.\<close>

lemma detect_parts:
  assumes "detect_local_changes_with E full_base entries = Inr lc"
  obtains ws adopted ms1 ms2 where
    "ws_seen ws = walked E entries"
    "map fst (ws_unmatched ws) = filter (\<lambda>rel. map_of (base_part E full_base) rel = None) (walked E entries)"
    "set adopted = {key. \<exists>rel\<in>set (map fst (ws_unmatched ws)). claim_of E (base_part E full_base) ws rel = Some key}"
    "set (lc_changes lc) = set ms1 \<union> set ms2
       \<union> Deleted ` set (filter (goes E (base_part E full_base) ws adopted) (map fst (base_part E full_base)))"
    "\<forall>c\<in>set ms1. \<exists>rel d. c = Modified rel d \<and> rel \<in> set (walked E entries) \<and> map_of (base_part E full_base) rel \<noteq> None"
    "\<forall>c\<in>set ms2. \<exists>rel\<in>set (map fst (ws_unmatched ws)).
           (\<exists>key d. c = Modified key d \<and> claim_of E (base_part E full_base) ws rel = Some key)
           \<or> (\<exists>d. c = Added rel d \<and> claim_of E (base_part E full_base) ws rel = None)"
    "\<forall>rel\<in>set (map fst (base_part E full_base)). goes E (base_part E full_base) ws adopted rel \<longrightarrow> de_stat E rel = NotFound
         \<and> \<not> (de_lower E rel \<in> set (map (de_lower E) (ws_seen ws))
              \<and> length (folded_base E (base_part E full_base) (de_lower E rel)) > 1)"
    "sorted (map change_path (lc_changes lc))"
proof -
  let ?base = "base_part E full_base"
  let ?ws0 = "\<lparr>ws_changes = [], ws_skipped = [], ws_seen = [], ws_unmatched = []\<rparr>"
  from assms obtain ws fs changes where
    w: "walk_loop E ?base entries ?ws0 = Inr ws"
    and f: "fold_pass E ?base ws (ws_unmatched ws) \<lparr>fs_changes = ws_changes ws, fs_adopted = [], fs_disk_paths = []\<rparr> = Inr fs"
    and d: "delete_pass E ?base ws (fs_adopted fs) (map fst ?base) (fs_changes fs) = Inr changes"
    and lc: "lc = \<lparr>lc_changes = sort_key change_path changes, lc_skipped_large = ws_skipped ws, lc_disk_paths = fs_disk_paths fs\<rparr>"
    unfolding detect_local_changes_with_def Let_def base_part_def [symmetric]
    by (auto split: sum.splits)
  note wr = walk_loop_result [OF w] and fr = fold_pass_result [OF f] and dr = delete_pass_result [OF d]
  obtain ms1 where ms1: "ws_changes ws = ms1"
    "\<forall>c\<in>set ms1. \<exists>rel d. c = Modified rel d \<and> rel \<in> set (walked E entries) \<and> map_of ?base rel \<noteq> None" using wr by auto
  obtain ms2 where ms2: "fs_changes fs = ms1 @ ms2" "\<forall>c\<in>set ms2. \<exists>rel\<in>set (map fst (ws_unmatched ws)).
           (\<exists>key d. c = Modified key d \<and> claim_of E ?base ws rel = Some key)
           \<or> (\<exists>d. c = Added rel d \<and> claim_of E ?base ws rel = None)" using fr ms1(1) by auto
  show thesis
  proof (rule that [of ws "fs_adopted fs" ms1 ms2])
    show "ws_seen ws = walked E entries"
      "map fst (ws_unmatched ws) = filter (\<lambda>rel. map_of ?base rel = None) (walked E entries)" using wr by simp_all
    show "set (fs_adopted fs) = {key. \<exists>rel\<in>set (map fst (ws_unmatched ws)). claim_of E ?base ws rel = Some key}"
      using fr by simp
    show "set (lc_changes lc) = set ms1 \<union> set ms2 \<union> Deleted ` set (filter (goes E ?base ws (fs_adopted fs)) (map fst ?base))"
      using dr ms2(1) lc by (simp add: Un_assoc)
    show "sorted (map change_path (lc_changes lc))" using lc by simp
  qed (use ms1(2) ms2(2) dr in blast)+
qed

section \<open>A deletion is never a file that is still there under another case\<close>

lemma filter_fst_length: "length (filter (\<lambda>(r, _). P r) xs) = length (filter P (map fst xs))"
  by (induction xs) auto

lemma filter_one_imp:
  assumes "length (filter P xs) = 1" "x \<in> set xs" "P x"
  shows "filter P xs = [x]"
proof -
  from assms(1) obtain y where y: "filter P xs = [y]" by (auto simp: length_Suc_conv)
  from assms(2,3) have "x \<in> set (filter P xs)" by simp
  with y show ?thesis by simp
qed

text \<open>A base path whose fold one walked file shares is either walked itself or adopted.\<close>

lemma lone_twin_is_adopted:
  assumes seen: "ws_seen ws = W"
    and um: "map fst (ws_unmatched ws) = filter (\<lambda>rel. map_of base rel = None) W"
    and ad: "set adopted = {key. \<exists>rel\<in>set (map fst (ws_unmatched ws)). claim_of E base ws rel = Some key}"
    and f: "f \<in> set W" "map_of base f = None" "de_lower E f = de_lower E p"
    and one: "length (filter (\<lambda>g. de_lower E g = de_lower E p) W) = 1"
    and keys: "folded_base E base (de_lower E p) = [p]"
    and p: "p \<notin> set W"
  shows "p \<in> set adopted"
proof -
  have W1: "filter (\<lambda>g. de_lower E g = de_lower E p) W = [f]"
    using filter_one_imp [OF one f(1)] f(3) by simp
  have "filter (\<lambda>g. de_lower E g = de_lower E p) (map fst (ws_unmatched ws))
        = filter (\<lambda>rel. map_of base rel = None) (filter (\<lambda>g. de_lower E g = de_lower E p) W)"
    unfolding um by (simp add: filter_filter conj_commute)
  also have "\<dots> = [f]" unfolding W1 using f(2) by simp
  finally have "folded_disk E (ws_unmatched ws) (de_lower E p) = 1"
    unfolding folded_disk_def filter_fst_length by simp
  then have "claim_of E base ws f = Some p"
    using keys p seen f(3) by (simp add: claim_of_def)
  moreover have "f \<in> set (map fst (ws_unmatched ws))" unfolding um using f(1,2) by simp
  ultimately show ?thesis unfolding ad by blast
qed

lemma base_key_some: "p \<in> fst ` set base \<Longrightarrow> map_of base p \<noteq> None"
  by (induction base) auto

lemma base_part_iff: "p \<in> fst ` set (base_part E full_base) \<longleftrightarrow> p \<in> fst ` set full_base \<and> takes_part E p"
  by (force simp: base_part_def)

lemma claim_of_SomeD:
  assumes "claim_of E base ws rel = Some key"
  shows "key \<in> fst ` set base" and "de_lower E key = de_lower E rel" and "key \<notin> set (ws_seen ws)"
proof -
  from assms have k: "folded_base E base (de_lower E rel) = [key]" and s: "key \<notin> set (ws_seen ws)"
    by (auto simp: claim_of_def Let_def split: list.splits if_splits)
  from k have "key \<in> set (folded_base E base (de_lower E rel))" by simp
  then show "key \<in> fst ` set base" and "de_lower E key = de_lower E rel" by (auto simp: folded_base_def)
  from s show "key \<notin> set (ws_seen ws)" .
qed

lemma deletion_is_gone:
  assumes d: "detect_local_changes_with E full_base entries = Inr lc" and p: "Deleted p \<in> set (lc_changes lc)"
  shows "p \<in> fst ` set full_base \<and> takes_part E p \<and> de_stat E p = NotFound \<and> p \<notin> set (walked E entries)
    \<and> length (filter (\<lambda>f. de_lower E f = de_lower E p) (walked E entries)) \<noteq> 1"
  using d
proof (rule detect_parts)
  let ?base = "base_part E full_base" and ?W = "walked E entries"
  fix ws adopted ms1 ms2
  assume seen: "ws_seen ws = ?W"
    and um: "map fst (ws_unmatched ws) = filter (\<lambda>rel. map_of ?base rel = None) ?W"
    and ad: "set adopted = {key. \<exists>rel\<in>set (map fst (ws_unmatched ws)). claim_of E ?base ws rel = Some key}"
    and ch: "set (lc_changes lc) = set ms1 \<union> set ms2 \<union> Deleted ` set (filter (goes E ?base ws adopted) (map fst ?base))"
    and m1: "\<forall>c\<in>set ms1. \<exists>rel d. c = Modified rel d \<and> rel \<in> set ?W \<and> map_of ?base rel \<noteq> None"
    and m2: "\<forall>c\<in>set ms2. \<exists>rel\<in>set (map fst (ws_unmatched ws)).
           (\<exists>key d. c = Modified key d \<and> claim_of E ?base ws rel = Some key)
           \<or> (\<exists>d. c = Added rel d \<and> claim_of E ?base ws rel = None)"
    and go: "\<forall>rel\<in>set (map fst ?base). goes E ?base ws adopted rel \<longrightarrow> de_stat E rel = NotFound
         \<and> \<not> (de_lower E rel \<in> set (map (de_lower E) (ws_seen ws)) \<and> length (folded_base E ?base (de_lower E rel)) > 1)"
  have "Deleted p \<notin> set ms1" "Deleted p \<notin> set ms2" using m1 m2 by blast+
  with p ch have inb: "p \<in> set (map fst ?base)" and g: "goes E ?base ws adopted p" by auto
  from g seen have pW: "p \<notin> set ?W" and pa: "p \<notin> set adopted" by (auto simp: goes_def)
  have "length (filter (\<lambda>f. de_lower E f = de_lower E p) ?W) \<noteq> 1"
  proof
    assume one: "length (filter (\<lambda>f. de_lower E f = de_lower E p) ?W) = 1"
    then obtain f where "filter (\<lambda>f. de_lower E f = de_lower E p) ?W = [f]" by (auto simp: length_Suc_conv)
    then have "f \<in> set (filter (\<lambda>f. de_lower E f = de_lower E p) ?W)" by simp
    then have f: "f \<in> set ?W" "de_lower E f = de_lower E p" by auto
    have "de_lower E p \<in> set (map (de_lower E) (ws_seen ws))" using f seen by (metis image_eqI set_map)
    with go g inb have "length (folded_base E ?base (de_lower E p)) \<le> 1" by force
    moreover have pin: "p \<in> set (folded_base E ?base (de_lower E p))" using inb by (simp add: folded_base_def)
    ultimately have keys: "folded_base E ?base (de_lower E p) = [p]"
      by (cases "folded_base E ?base (de_lower E p)") auto
    have "map_of ?base f = None"
    proof (rule ccontr)
      assume "map_of ?base f \<noteq> None"
      then have "f \<in> set (map fst ?base)" by (metis image_set map_of_eq_None_iff)
      then have "f \<in> set (folded_base E ?base (de_lower E p))" using f(2) by (simp add: folded_base_def)
      with keys f(1) pW show False by simp
    qed
    from lone_twin_is_adopted [OF seen um ad f(1) this f(2) one keys pW] pa show False by contradiction
  qed
  moreover have "de_stat E p = NotFound" using go g inb by blast
  ultimately show ?thesis using inb pW base_part_iff [of p E full_base] by simp
qed

lemma gone_is_deleted:
  assumes d: "detect_local_changes_with E full_base entries = Inr lc"
    and p: "p \<in> fst ` set full_base" "takes_part E p"
    and none: "\<forall>f\<in>set (walked E entries). de_lower E f \<noteq> de_lower E p"
  shows "Deleted p \<in> set (lc_changes lc)"
  using d
proof (rule detect_parts)
  let ?base = "base_part E full_base"
  fix ws adopted ms1 ms2
  assume seen: "ws_seen ws = walked E entries"
    and um: "map fst (ws_unmatched ws) = filter (\<lambda>rel. map_of ?base rel = None) (walked E entries)"
    and ad: "set adopted = {key. \<exists>rel\<in>set (map fst (ws_unmatched ws)). claim_of E ?base ws rel = Some key}"
    and ch: "set (lc_changes lc) = set ms1 \<union> set ms2 \<union> Deleted ` set (filter (goes E ?base ws adopted) (map fst ?base))"
  have "p \<notin> set (walked E entries)" using none by blast
  moreover have "p \<notin> set adopted"
  proof
    assume "p \<in> set adopted"
    then obtain rel where "rel \<in> set (walked E entries)" "claim_of E ?base ws rel = Some p" using um ad by auto
    with claim_of_SomeD(2) [of E ?base ws rel p] none show False by metis
  qed
  moreover have "\<not> removed_but_for_case E ?base ws p"
    using none seen by (auto simp: removed_but_for_case_def Let_def list_ex_iff folded_base_def)
  ultimately have "goes E ?base ws adopted p" using seen by (simp add: goes_def)
  moreover have "p \<in> set (map fst ?base)" using p base_part_iff [of p E full_base] by simp
  ultimately show ?thesis using ch by simp
qed

lemma added_and_modified:
  assumes d: "detect_local_changes_with E full_base entries = Inr lc"
  shows "Added q dg \<in> set (lc_changes lc) \<Longrightarrow> q \<in> set (walked E entries) \<and> q \<notin> fst ` set full_base"
    and "Modified q dg \<in> set (lc_changes lc) \<Longrightarrow> q \<in> fst ` set full_base \<and> takes_part E q
           \<and> (\<exists>f\<in>set (walked E entries). de_lower E f = de_lower E q)"
  subgoal premises added
    using d
  proof (rule detect_parts)
    let ?base = "base_part E full_base"
    fix ws adopted ms1 ms2
    assume um: "map fst (ws_unmatched ws) = filter (\<lambda>rel. map_of ?base rel = None) (walked E entries)"
      and ch: "set (lc_changes lc) = set ms1 \<union> set ms2 \<union> Deleted ` set (filter (goes E ?base ws adopted) (map fst ?base))"
      and m1: "\<forall>c\<in>set ms1. \<exists>rel d. c = Modified rel d \<and> rel \<in> set (walked E entries) \<and> map_of ?base rel \<noteq> None"
      and m2: "\<forall>c\<in>set ms2. \<exists>rel\<in>set (map fst (ws_unmatched ws)).
           (\<exists>key d. c = Modified key d \<and> claim_of E ?base ws rel = Some key)
           \<or> (\<exists>d. c = Added rel d \<and> claim_of E ?base ws rel = None)"
    from added ch have "Added q dg \<in> set ms1 \<or> Added q dg \<in> set ms2" by auto
    with m1 m2 have "q \<in> set (map fst (ws_unmatched ws))" by blast
    with um have q: "q \<in> set (walked E entries)" "map_of ?base q = None" by simp_all
    have "takes_part E r" if "r \<in> set (walked E es)" for r es
      using that by (induction E es rule: walked.induct) (auto split: if_splits)
    with q(1) have "takes_part E q" by blast
    with q base_key_some [of q ?base] base_part_iff [of q E full_base] show ?thesis by blast
  qed
  subgoal premises modified
    using d
  proof (rule detect_parts)
    let ?base = "base_part E full_base"
    fix ws adopted ms1 ms2
    assume um: "map fst (ws_unmatched ws) = filter (\<lambda>rel. map_of ?base rel = None) (walked E entries)"
      and ch: "set (lc_changes lc) = set ms1 \<union> set ms2 \<union> Deleted ` set (filter (goes E ?base ws adopted) (map fst ?base))"
      and m1: "\<forall>c\<in>set ms1. \<exists>rel d. c = Modified rel d \<and> rel \<in> set (walked E entries) \<and> map_of ?base rel \<noteq> None"
      and m2: "\<forall>c\<in>set ms2. \<exists>rel\<in>set (map fst (ws_unmatched ws)).
           (\<exists>key d. c = Modified key d \<and> claim_of E ?base ws rel = Some key)
           \<or> (\<exists>d. c = Added rel d \<and> claim_of E ?base ws rel = None)"
    from modified ch have "Modified q dg \<in> set ms1 \<or> Modified q dg \<in> set ms2" by auto
    then have "q \<in> fst ` set ?base \<and> (\<exists>f\<in>set (walked E entries). de_lower E f = de_lower E q)"
    proof
      assume "Modified q dg \<in> set ms1"
      with m1 have "q \<in> set (walked E entries)" "map_of ?base q \<noteq> None" by blast+
      then show ?thesis by (metis map_of_eq_None_iff)
    next
      assume "Modified q dg \<in> set ms2"
      with m2 obtain rel where "rel \<in> set (map fst (ws_unmatched ws))" "claim_of E ?base ws rel = Some q" by blast
      with um claim_of_SomeD [of E ?base ws rel q] show ?thesis by (metis filter_is_subset subsetD)
    qed
    with base_part_iff [of q E full_base] show ?thesis by blast
  qed
  done

text \<open>
  C36: change detection never proposes the deletion of a file that is still there. When it
  answers, every deletion it reports is a path of the recorded base that takes part, that
  the walk did not see and that the system says is not there, and the walk did not see
  exactly one file under another letter case of it; conversely every base path that takes
  part and that no walked file spells, in any case, is reported deleted. An addition is a
  walked file the base does not have, a modification a base path some walked file spells,
  and the report is ordered by path.
\<close>

theorem no_phantom_deletion:
  assumes "detect_local_changes_with E full_base entries = Inr lc"
  shows "(\<forall>p. Deleted p \<in> set (lc_changes lc) \<longrightarrow>
            p \<in> fst ` set full_base \<and> takes_part E p \<and> de_stat E p = NotFound \<and> p \<notin> set (walked E entries)
            \<and> length (filter (\<lambda>f. de_lower E f = de_lower E p) (walked E entries)) \<noteq> 1)
    \<and> (\<forall>p. p \<in> fst ` set full_base \<and> takes_part E p
            \<and> (\<forall>f\<in>set (walked E entries). de_lower E f \<noteq> de_lower E p) \<longrightarrow> Deleted p \<in> set (lc_changes lc))
    \<and> (\<forall>q d. Added q d \<in> set (lc_changes lc) \<longrightarrow> q \<in> set (walked E entries) \<and> q \<notin> fst ` set full_base)
    \<and> (\<forall>q d. Modified q d \<in> set (lc_changes lc) \<longrightarrow>
            q \<in> fst ` set full_base \<and> (\<exists>f\<in>set (walked E entries). de_lower E f = de_lower E q))
    \<and> sorted (map change_path (lc_changes lc))"
proof (intro conjI allI impI)
  show "sorted (map change_path (lc_changes lc))" using assms by (rule detect_parts)
qed (use deletion_is_gone [OF assms] gone_is_deleted [OF assms] added_and_modified [OF assms] in blast)+

definition demo_env :: "detect_env" where
  "demo_env = \<lparr>de_sha = id, de_lower = ascii_lowercase, de_indexes = SharedIndexes, de_reflection = Off,
     de_base_copies = None, de_lf_digests = None, de_reread = (\<lambda>_. None), de_stat = (\<lambda>_. NotFound)\<rparr>"

theorem no_phantom_deletion_witness:
  "detect_local_changes_with demo_env
     [(''C.md'', \<lparr>bs_sha256 = ''c'', bs_size = 1\<rparr>), (''a.md'', \<lparr>bs_sha256 = ''a'', bs_size = 1\<rparr>),
      (''b.md'', \<lparr>bs_sha256 = ''b'', bs_size = 1\<rparr>)]
     [WalkFile ''a.md'' 1 (Some ''x''), WalkFile ''c.md'' 1 (Some ''c''), WalkFile ''new.md'' 1 (Some ''n'')]
   = Inr \<lparr>lc_changes = [Modified ''a.md'' ''x'', Deleted ''b.md'', Added ''new.md'' ''n''],
          lc_skipped_large = [], lc_disk_paths = [(''C.md'', ''c.md'')]\<rparr>
   \<and> sorted (map change_path [Modified ''a.md'' ''x'', Deleted ''b.md'', Added ''new.md'' ''n''])"
  (is "?run = Inr ?lc \<and> _")
proof -
  have "takes_part demo_env ''a.md''" "takes_part demo_env ''b.md''" "takes_part demo_env ''c.md''"
    "takes_part demo_env ''C.md''" "takes_part demo_env ''new.md''" by code_simp+
  moreover have "ascii_lowercase ''a.md'' = ''a.md''" "ascii_lowercase ''b.md'' = ''b.md''" "ascii_lowercase ''c.md'' = ''c.md''"
    "ascii_lowercase ''C.md'' = ''c.md''" "ascii_lowercase ''new.md'' = ''new.md''" by code_simp+
  moreover have "sort_key change_path [Modified ''a.md'' ''x'', Added ''new.md'' ''n'', Deleted ''b.md'']
     = [Modified ''a.md'' ''x'', Deleted ''b.md'', Added ''new.md'' ''n'']" by code_simp
  ultimately have run: "?run = Inr ?lc"
    by (simp add: detect_local_changes_with_def walk_file_def MAX_SHARED_FILE_BYTES_def same_as_base_def same_text_as_base_def
        lf_digest_def fold_one_def claim_of_def folded_base_def folded_disk_def removed_but_for_case_def demo_env_def)
  with no_phantom_deletion [OF run] show ?thesis by simp
qed

end
