(* ===== verification/Access.thy ===== *)
theory Access
  imports Membership
begin

text \<open>
  Who may do what: the access policy of \<open>identity/src/scope.rs\<close> over the accounts database.
  A surface resolves a caller to a \<open>scope\<close>; \<open>principal\<close> turns it into an account row or
  nobody; \<open>decide\<close> is the policy for one caller and one domain; \<open>right\<close>, \<open>write_right\<close> and
  \<open>reflection_right\<close> are its answers, \<open>write_rights\<close> and \<open>visibility\<close> the batch forms, and
  \<open>readers_cover\<close> asks whether a page may carry text of another domain. The GitHub governor
  is the interface the engine implements: a record of functions, one consistent snapshot per
  question. Hash sets are lists read as sets.
\<close>

section \<open>Rights\<close>

definition and_then :: "'e + 'a \<Rightarrow> ('a \<Rightarrow> 'e + 'b) \<Rightarrow> 'e + 'b" where
  "and_then r f = (case r of Inl e \<Rightarrow> Inl e | Inr a \<Rightarrow> f a)"

lemma and_then_simps [simp]: "and_then (Inl e) f = Inl e" "and_then (Inr a) f = f a"
  by (simp_all add: and_then_def)

lemma and_then_Inr: "and_then r f = Inr b \<longleftrightarrow> (\<exists>a. r = Inr a \<and> f a = Inr b)"
  by (cases r) auto

datatype domain_right = NoRight | ReadRight | WriteRight | ManageRight | OwnRight

fun right_rank :: "domain_right \<Rightarrow> nat" where
  "right_rank NoRight = 0"
| "right_rank ReadRight = 1"
| "right_rank WriteRight = 2"
| "right_rank ManageRight = 3"
| "right_rank OwnRight = 4"

instantiation domain_right :: linorder
begin

definition less_eq_domain_right :: "domain_right \<Rightarrow> domain_right \<Rightarrow> bool" where
  "less_eq_domain_right a b \<longleftrightarrow> right_rank a \<le> right_rank b"

definition less_domain_right :: "domain_right \<Rightarrow> domain_right \<Rightarrow> bool" where
  "less_domain_right a b \<longleftrightarrow> right_rank a < right_rank b"

instance
proof
  fix a b :: domain_right
  assume "a \<le> b" "b \<le> a"
  then show "a = b" by (cases a; cases b) (simp_all add: less_eq_domain_right_def)
qed (auto simp: less_eq_domain_right_def less_domain_right_def)

end

datatype reflection_right = NoReflection | ReadReflection | EditReflection | CurateReflection

fun reflection_right_rank :: "reflection_right \<Rightarrow> nat" where
  "reflection_right_rank NoReflection = 0"
| "reflection_right_rank ReadReflection = 1"
| "reflection_right_rank EditReflection = 2"
| "reflection_right_rank CurateReflection = 3"

instantiation reflection_right :: linorder
begin

definition less_eq_reflection_right :: "reflection_right \<Rightarrow> reflection_right \<Rightarrow> bool" where
  "less_eq_reflection_right a b \<longleftrightarrow> reflection_right_rank a \<le> reflection_right_rank b"

definition less_reflection_right :: "reflection_right \<Rightarrow> reflection_right \<Rightarrow> bool" where
  "less_reflection_right a b \<longleftrightarrow> reflection_right_rank a < reflection_right_rank b"

instance
proof
  fix a b :: reflection_right
  assume "a \<le> b" "b \<le> a"
  then show "a = b" by (cases a; cases b) (simp_all add: less_eq_reflection_right_def)
qed (auto simp: less_eq_reflection_right_def less_reflection_right_def)

end

named_theorems right_order "comparing rights by rank"

declare less_eq_domain_right_def [right_order] less_domain_right_def [right_order]
  less_eq_reflection_right_def [right_order] less_reflection_right_def [right_order]
  less_eq_reflection_level_def [right_order] less_reflection_level_def [right_order]

definition member_level_word :: "domain_right \<Rightarrow> string" where
  "member_level_word right =
     (case right of NoRight \<Rightarrow> ''none'' | ReadRight \<Rightarrow> ''viewer'' | WriteRight \<Rightarrow> ''editor''
      | ManageRight \<Rightarrow> ''manager'' | OwnRight \<Rightarrow> ''owner'')"

definition reflection_right_word :: "reflection_right \<Rightarrow> string" where
  "reflection_right_word right =
     (case right of NoReflection \<Rightarrow> ''none'' | ReadReflection \<Rightarrow> ''read'' | EditReflection \<Rightarrow> ''edit''
      | CurateReflection \<Rightarrow> ''curate'')"

section \<open>Callers\<close>

datatype scope = Unrestricted | User string bool | Anonymous | Agent string

definition overlay_actor :: "scope \<Rightarrow> string option" where
  "overlay_actor s =
     (case s of Unrestricted \<Rightarrow> Some OWNER_IDENTITY_NAME | User account _ \<Rightarrow> Some account
      | Anonymous \<Rightarrow> None | Agent _ \<Rightarrow> None)"

datatype caller = Machine | Account string role reflection_level | Nobody

definition caller_of_user :: "user option \<Rightarrow> (role \<Rightarrow> role) \<Rightarrow> caller" where
  "caller_of_user found as_role =
     (case found of
        None \<Rightarrow> Nobody
      | Some user \<Rightarrow>
          if u_disabled user then Nobody
          else Account (u_name user) (as_role (u_role user)) (u_reflection user))"

definition caller_of :: "auth_env \<Rightarrow> auth_db \<Rightarrow> scope \<Rightarrow> store_error + caller" where
  "caller_of E db s =
     (case s of
        Unrestricted \<Rightarrow> Inr Machine
      | Anonymous \<Rightarrow> Inr Nobody
      | User account admin \<Rightarrow>
          and_then (user_of E db account)
            (\<lambda>found. Inr (caller_of_user found (\<lambda>role. if admin then RoleAdmin else role)))
      | Agent account \<Rightarrow>
          and_then (user_of E db account)
            (\<lambda>found. Inr (caller_of_user found
                            (\<lambda>role. case role of RoleAdmin \<Rightarrow> RoleEditor | r \<Rightarrow> r))))"

section \<open>GitHub's side\<close>

datatype github_knowledge = GithubLevel member_level | Unlinked

record governor =
  gv_domains :: "string list"
  gv_knowledge :: "string \<Rightarrow> string \<Rightarrow> github_knowledge"
  gv_public :: "string \<Rightarrow> bool"
  gv_readers :: "string \<Rightarrow> string list option"
  gv_closed :: "string list"

record governed =
  gd_knowledge :: github_knowledge
  gd_public :: bool
  gd_closed :: bool

definition github_right :: "github_knowledge \<Rightarrow> domain_right" where
  "github_right k =
     (case k of
        GithubLevel LevelManager \<Rightarrow> ManageRight
      | GithubLevel LevelEditor \<Rightarrow> WriteRight
      | GithubLevel LevelViewer \<Rightarrow> ReadRight
      | GithubLevel LevelNone \<Rightarrow> NoRight
      | Unlinked \<Rightarrow> NoRight)"

record governance =
  gn_governor :: "governor option"
  gn_domains :: "string list"
  gn_closed :: "string list"

definition governance_of :: "governor option \<Rightarrow> governance" where
  "governance_of gov =
     (case gov of
        Some g \<Rightarrow> \<lparr>gn_governor = Some g, gn_domains = map trim (gv_domains g), gn_closed = map trim (gv_closed g)\<rparr>
      | None \<Rightarrow> \<lparr>gn_governor = None, gn_domains = [], gn_closed = []\<rparr>)"

definition gn_of :: "governance \<Rightarrow> string \<Rightarrow> governor option" where
  "gn_of G domain = (if trim domain \<in> set (gn_domains G) then gn_governor G else None)"

definition gn_closes :: "governance \<Rightarrow> string \<Rightarrow> bool" where
  "gn_closes G domain \<longleftrightarrow> gn_of G domain \<noteq> None \<and> trim domain \<in> set (gn_closed G)"

definition github_input :: "governor \<Rightarrow> caller \<Rightarrow> string \<Rightarrow> bool \<Rightarrow> bool \<Rightarrow> governed" where
  "github_input g who domain private closed =
     (if closed then \<lparr>gd_knowledge = Unlinked, gd_public = False, gd_closed = True\<rparr>
      else (case who of
              Account name RoleViewer _ \<Rightarrow>
                \<lparr>gd_knowledge = gv_knowledge g name domain, gd_public = False, gd_closed = False\<rparr>
            | Account name RoleEditor _ \<Rightarrow>
                \<lparr>gd_knowledge = gv_knowledge g name domain, gd_public = False, gd_closed = False\<rparr>
            | Nobody \<Rightarrow>
                if \<not> private then \<lparr>gd_knowledge = Unlinked, gd_public = gv_public g domain, gd_closed = False\<rparr>
                else \<lparr>gd_knowledge = Unlinked, gd_public = False, gd_closed = False\<rparr>
            | _ \<Rightarrow> \<lparr>gd_knowledge = Unlinked, gd_public = False, gd_closed = False\<rparr>))"

definition gn_input :: "governance \<Rightarrow> caller \<Rightarrow> string \<Rightarrow> bool \<Rightarrow> governed option" where
  "gn_input G who domain private =
     (case gn_of G domain of
        None \<Rightarrow> None
      | Some g \<Rightarrow> Some (github_input g who (trim domain) private (gn_closes G domain)))"

definition anonymous_reads :: "governance \<Rightarrow> string \<Rightarrow> bool \<Rightarrow> bool" where
  "anonymous_reads G domain private =
     (if private \<or> gn_closes G domain then False
      else (case gn_of G domain of Some g \<Rightarrow> gv_public g (trim domain) | None \<Rightarrow> True))"

section \<open>The policy\<close>

definition decide_governed :: "caller \<Rightarrow> bool \<Rightarrow> governed \<Rightarrow> domain_right" where
  "decide_governed who private governed =
     (if gd_closed governed then
        (case who of Machine \<Rightarrow> OwnRight | Account _ RoleAdmin _ \<Rightarrow> OwnRight | _ \<Rightarrow> NoRight)
      else (case who of
              Machine \<Rightarrow> OwnRight
            | Nobody \<Rightarrow> if \<not> private \<and> gd_public governed then ReadRight else NoRight
            | Account _ role _ \<Rightarrow>
                (let base = (if private then NoRight else ReadRight);
                     github = github_right (gd_knowledge governed)
                 in case role of
                      RoleAdmin \<Rightarrow> OwnRight
                    | RoleNone \<Rightarrow> NoRight
                    | _ \<Rightarrow> if github > base then github else base)))"

definition decide ::
  "caller \<Rightarrow> domain_acl option \<Rightarrow> member_level option \<Rightarrow> governed option \<Rightarrow> domain_right" where
  "decide who acl level github =
     (case github of
        Some governed \<Rightarrow> decide_governed who (acl \<noteq> None) governed
      | None \<Rightarrow>
          (case who of
             Machine \<Rightarrow> OwnRight
           | Nobody \<Rightarrow> (case acl of Some _ \<Rightarrow> NoRight | None \<Rightarrow> ReadRight)
           | Account name role _ \<Rightarrow>
               if role = RoleAdmin then OwnRight
               else (case acl of
                       None \<Rightarrow>
                         (case role of RoleNone \<Rightarrow> NoRight | RoleViewer \<Rightarrow> ReadRight | RoleEditor \<Rightarrow> WriteRight
                          | RoleAdmin \<Rightarrow> OwnRight)
                     | Some acl \<Rightarrow>
                         if acl_owner acl = name then OwnRight
                         else (case level of
                                 Some LevelManager \<Rightarrow> ManageRight
                               | Some LevelEditor \<Rightarrow> WriteRight
                               | Some LevelViewer \<Rightarrow> ReadRight
                               | Some LevelNone \<Rightarrow> NoRight
                               | None \<Rightarrow> NoRight))))"

definition instance_cap :: "caller \<Rightarrow> domain_right" where
  "instance_cap who =
     (case who of
        Machine \<Rightarrow> OwnRight
      | Nobody \<Rightarrow> ReadRight
      | Account _ role _ \<Rightarrow>
          (case role of RoleNone \<Rightarrow> ReadRight | RoleViewer \<Rightarrow> ReadRight | RoleEditor \<Rightarrow> WriteRight
           | RoleAdmin \<Rightarrow> OwnRight))"

definition capped :: "caller \<Rightarrow> domain_right \<Rightarrow> domain_right" where
  "capped who right = (let cap = instance_cap who in if right < cap then right else cap)"

definition write_capped :: "caller \<Rightarrow> domain_right \<Rightarrow> bool \<Rightarrow> domain_right" where
  "write_capped who right governed = (if governed then right else capped who right)"

text \<open>The Reflection level that applies to an account on a domain, before its grant.\<close>

definition explicit_reflection ::
  "role \<Rightarrow> reflection_level \<Rightarrow> domain_acl option \<Rightarrow> member_level option \<Rightarrow> reflection_level
     \<Rightarrow> governed option \<Rightarrow> reflection_level" where
  "explicit_reflection role reflection acl level member_level_reflection github =
     (if github \<noteq> None \<and> role = RoleNone then DefaultLevel
      else if github \<noteq> None then (case acl of None \<Rightarrow> reflection | Some _ \<Rightarrow> DefaultLevel)
      else (case (acl, level) of
              (None, _) \<Rightarrow> reflection
            | (Some _, Some _) \<Rightarrow> member_level_reflection
            | (Some _, None) \<Rightarrow> DefaultLevel))"

definition decide_reflection ::
  "caller \<Rightarrow> domain_acl option \<Rightarrow> member_level option \<Rightarrow> reflection_level \<Rightarrow> reflection_level option
     \<Rightarrow> governed option \<Rightarrow> bool \<Rightarrow> reflection_right" where
  "decide_reflection who acl level member_level_reflection grant github off_list =
     (let knowledge = decide who acl level github
      in case who of
           Machine \<Rightarrow> CurateReflection
         | Nobody \<Rightarrow> if knowledge \<ge> ReadRight then ReadReflection else NoReflection
         | Account _ role account_reflection \<Rightarrow>
             if (case github of Some g \<Rightarrow> gd_closed g | None \<Rightarrow> False)
             then (if knowledge \<ge> WriteRight then CurateReflection else NoReflection)
             else
               (let explicit = explicit_reflection role account_reflection acl level member_level_reflection github;
                    reflection = max explicit (case grant of Some l \<Rightarrow> l | None \<Rightarrow> DefaultLevel);
                    right = (if knowledge \<ge> WriteRight then CurateReflection
                             else max (if knowledge \<ge> ReadRight then ReadReflection else NoReflection)
                                    (case reflection of DefaultLevel \<Rightarrow> NoReflection | Reader \<Rightarrow> ReadReflection
                                     | Contributor \<Rightarrow> EditReflection))
                in if off_list then min right ReadReflection else right))"

definition write_list_matches :: "string list \<Rightarrow> string \<Rightarrow> bool" where
  "write_list_matches patterns domain =
     (let domain = trim domain
      in list_ex (\<lambda>pattern. case strip_suffix ''*'' pattern of
                              Some stem \<Rightarrow> starts_with stem domain
                            | None \<Rightarrow> pattern = domain) patterns)"

section \<open>Answers for one caller and one domain\<close>

definition level_of :: "auth_env \<Rightarrow> auth_db \<Rightarrow> string \<Rightarrow> string \<Rightarrow> store_error + member_level option" where
  "level_of E db account domain =
     and_then (memberships_of E db account)
       (\<lambda>ms. Inr (map_option snd (find (\<lambda>(d, _). d = trim domain) ms)))"

definition off_list_account :: "auth_env \<Rightarrow> auth_db \<Rightarrow> caller \<Rightarrow> string \<Rightarrow> store_error + string option" where
  "off_list_account E db who domain =
     (case who of
        Account name _ _ \<Rightarrow>
          and_then (write_list E db name)
            (\<lambda>patterns. Inr (case patterns of
                               Some ps \<Rightarrow> if \<not> write_list_matches ps domain then Some name else None
                             | None \<Rightarrow> None))
      | _ \<Rightarrow> Inr None)"

definition decided_right ::
  "auth_env \<Rightarrow> governor option \<Rightarrow> auth_db \<Rightarrow> scope \<Rightarrow> string \<Rightarrow> store_error + caller \<times> domain_right \<times> bool" where
  "decided_right E gov db s domain =
     and_then (caller_of E db s) (\<lambda>who.
       if who = Machine then Inr (who, OwnRight, False)
       else and_then (domain_visibility db domain) (\<lambda>acl.
         (let github = gn_input (governance_of gov) who domain (acl \<noteq> None)
          in and_then
               (case (acl, who, github) of
                  (Some _, Account name _ _, None) \<Rightarrow> level_of E db name domain
                | _ \<Rightarrow> Inr None)
               (\<lambda>level. Inr (who, decide who acl level github, github \<noteq> None)))))"

definition resolved_right ::
  "auth_env \<Rightarrow> governor option \<Rightarrow> auth_db \<Rightarrow> scope \<Rightarrow> string \<Rightarrow> store_error + caller \<times> domain_right" where
  "resolved_right E gov db s domain =
     and_then (decided_right E gov db s domain) (\<lambda>(who, right, _).
       if right > ReadRight then
         and_then (off_list_account E db who domain)
           (\<lambda>off. Inr (who, if off \<noteq> None then ReadRight else right))
       else Inr (who, right))"

definition right_on ::
  "auth_env \<Rightarrow> governor option \<Rightarrow> auth_db \<Rightarrow> scope \<Rightarrow> string \<Rightarrow> store_error + domain_right" where
  "right_on E gov db s domain = and_then (resolved_right E gov db s domain) (\<lambda>(_, right). Inr right)"

definition write_right ::
  "auth_env \<Rightarrow> governor option \<Rightarrow> auth_db \<Rightarrow> scope \<Rightarrow> string \<Rightarrow> store_error + domain_right" where
  "write_right E gov db s domain =
     and_then (decided_right E gov db s domain) (\<lambda>(who, right, governed).
       (let right = write_capped who right governed
        in if right > ReadRight then
             and_then (off_list_account E db who domain)
               (\<lambda>off. Inr (if off \<noteq> None then ReadRight else right))
           else Inr right))"

definition write_list_excludes ::
  "auth_env \<Rightarrow> governor option \<Rightarrow> auth_db \<Rightarrow> scope \<Rightarrow> string \<Rightarrow> store_error + string option" where
  "write_list_excludes E gov db s domain =
     and_then (decided_right E gov db s domain) (\<lambda>(who, right, governed).
       if write_capped who right governed < WriteRight then Inr None
       else off_list_account E db who domain)"

definition write_list_refuses ::
  "auth_env \<Rightarrow> governor option \<Rightarrow> auth_db \<Rightarrow> scope \<Rightarrow> string \<Rightarrow> domain_right \<Rightarrow> store_error + string option" where
  "write_list_refuses E gov db s domain needed =
     and_then (decided_right E gov db s domain) (\<lambda>(who, right, _).
       if right < needed then Inr None else off_list_account E db who domain)"

definition grant_of ::
  "auth_env \<Rightarrow> auth_db \<Rightarrow> scope \<Rightarrow> caller \<Rightarrow> string \<Rightarrow> store_error + reflection_level option" where
  "grant_of E db s who domain =
     (case (s, who) of
        (User _ _, Account name _ _) \<Rightarrow> reflection_grant E db domain name
      | _ \<Rightarrow> Inr None)"

definition reflection_inputs ::
  "auth_env \<Rightarrow> governor option \<Rightarrow> auth_db \<Rightarrow> caller \<Rightarrow> string
     \<Rightarrow> store_error + domain_acl option \<times> member_level option \<times> reflection_level \<times> governed option" where
  "reflection_inputs E gov db who domain =
     and_then (domain_visibility db domain) (\<lambda>acl.
       (let github = gn_input (governance_of gov) who domain (acl \<noteq> None)
        in if github \<noteq> None then Inr (acl, None, DefaultLevel, github)
           else (case (acl, who) of
                   (Some _, Account name _ _) \<Rightarrow>
                     and_then (level_of E db name domain) (\<lambda>level.
                       and_then (member_reflection E db domain name) (\<lambda>reflection.
                         Inr (acl, level, reflection, None)))
                 | _ \<Rightarrow> Inr (acl, None, DefaultLevel, None))))"

definition reflection_right ::
  "auth_env \<Rightarrow> governor option \<Rightarrow> auth_db \<Rightarrow> scope \<Rightarrow> string \<Rightarrow> store_error + reflection_right" where
  "reflection_right E gov db s domain =
     and_then (caller_of E db s) (\<lambda>who.
       if who = Machine then Inr CurateReflection
       else and_then (reflection_inputs E gov db who domain) (\<lambda>(acl, level, member_reflection, github).
         and_then (grant_of E db s who domain) (\<lambda>grant.
           and_then (off_list_account E db who domain) (\<lambda>off.
             Inr (decide_reflection who acl level member_reflection grant github (off \<noteq> None))))))"

definition reflection_list_refuses ::
  "auth_env \<Rightarrow> governor option \<Rightarrow> auth_db \<Rightarrow> scope \<Rightarrow> string \<Rightarrow> reflection_right \<Rightarrow> store_error + string option" where
  "reflection_list_refuses E gov db s domain need =
     and_then (caller_of E db s) (\<lambda>who.
       and_then (off_list_account E db who domain) (\<lambda>off.
         case off of
           None \<Rightarrow> Inr None
         | Some account \<Rightarrow>
             and_then (reflection_inputs E gov db who domain) (\<lambda>(acl, level, member_reflection, github).
               and_then (grant_of E db s who domain) (\<lambda>grant.
                 (let uncapped = decide_reflection who acl level member_reflection grant github False
                  in Inr (if uncapped \<ge> need then Some account else None))))))"

section \<open>Batch answers\<close>

record write_rights_snapshot =
  wt_who :: caller
  wt_acls :: "(string \<times> domain_acl) list"
  wt_levels :: "(string \<times> member_level) list"
  wt_write_list :: "string list option"
  wt_governed :: "(string \<times> governed) list"

definition write_rights ::
  "auth_env \<Rightarrow> governor option \<Rightarrow> auth_db \<Rightarrow> scope \<Rightarrow> store_error + write_rights_snapshot" where
  "write_rights E gov db s =
     and_then (caller_of E db s) (\<lambda>who.
       (let acls = map (\<lambda>acl. (acl_domain acl, acl)) (private_domains db);
            G = governance_of gov;
            governed = (case gn_governor G of
                          Some g \<Rightarrow> map (\<lambda>domain. (domain, github_input g who domain
                                            (domain \<in> fst ` set acls) (gn_closes G domain))) (gn_domains G)
                        | None \<Rightarrow> []);
            writes_somewhere = (instance_cap who > ReadRight \<or> governed \<noteq> [])
        in case who of
             Account name _ _ \<Rightarrow>
               and_then (memberships_of E db name) (\<lambda>levels.
                 and_then (if writes_somewhere then write_list E db name else Inr None) (\<lambda>patterns.
                   Inr \<lparr>wt_who = who, wt_acls = acls, wt_levels = levels, wt_write_list = patterns,
                        wt_governed = governed\<rparr>))
           | _ \<Rightarrow> Inr \<lparr>wt_who = who, wt_acls = acls, wt_levels = [], wt_write_list = None,
                       wt_governed = governed\<rparr>))"

text \<open>A hash map collected from a list keeps the last entry of a key.\<close>

definition collected :: "(string \<times> 'v) list \<Rightarrow> string \<Rightarrow> 'v option" where
  "collected kvs k = map_of (rev kvs) k"

definition wt_decided :: "write_rights_snapshot \<Rightarrow> string \<Rightarrow> domain_right" where
  "wt_decided W domain =
     (if wt_who W = Machine then OwnRight
      else
        (let domain = trim domain; acl = collected (wt_acls W) domain
         in case collected (wt_governed W) domain of
              Some governed \<Rightarrow> decide (wt_who W) acl None (Some governed)
            | None \<Rightarrow>
                (let level = (case (acl, wt_who W) of
                                (Some _, Account _ _ _) \<Rightarrow> collected (wt_levels W) domain
                              | _ \<Rightarrow> None)
                 in decide (wt_who W) acl level None)))"

definition wt_is_governed :: "write_rights_snapshot \<Rightarrow> string \<Rightarrow> bool" where
  "wt_is_governed W domain \<longleftrightarrow> trim domain \<in> fst ` set (wt_governed W)"

definition wt_off_list :: "write_rights_snapshot \<Rightarrow> string \<Rightarrow> bool" where
  "wt_off_list W domain =
     (case wt_write_list W of Some patterns \<Rightarrow> \<not> write_list_matches patterns domain | None \<Rightarrow> False)"

definition wt_write_right :: "write_rights_snapshot \<Rightarrow> string \<Rightarrow> domain_right" where
  "wt_write_right W domain =
     (let right = wt_decided W domain;
          right = (if right > ReadRight \<and> wt_off_list W domain then ReadRight else right)
      in write_capped (wt_who W) right (wt_is_governed W domain))"

definition wt_write_list_excludes :: "write_rights_snapshot \<Rightarrow> string \<Rightarrow> string option" where
  "wt_write_list_excludes W domain =
     (let right = write_capped (wt_who W) (wt_decided W domain) (wt_is_governed W domain)
      in if right < WriteRight then None
         else (case wt_who W of
                 Account name _ _ \<Rightarrow> if wt_off_list W domain then Some name else None
               | _ \<Rightarrow> None))"

record domain_visibility_answer =
  dv_private :: "string list"
  dv_hidden :: "string list option"
  dv_shared_hidden :: bool

datatype domain_screen = AllDomains | Except "string list" | Only "string list"

definition admits :: "domain_screen \<Rightarrow> string \<Rightarrow> bool" where
  "admits screen domain =
     (case screen of AllDomains \<Rightarrow> True | Except hidden \<Rightarrow> domain \<notin> set hidden | Only readable \<Rightarrow> domain \<in> set readable)"

definition admits_shared :: "domain_screen \<Rightarrow> bool" where
  "admits_shared screen = (case screen of Only _ \<Rightarrow> False | _ \<Rightarrow> True)"

definition screen_of :: "domain_visibility_answer \<Rightarrow> domain_screen" where
  "screen_of v =
     (case dv_hidden v of
        None \<Rightarrow> AllDomains
      | Some hidden \<Rightarrow>
          if dv_shared_hidden v then Only (filter (\<lambda>name. name \<notin> set hidden) (dv_private v))
          else Except hidden)"

definition resolve_in ::
  "auth_env \<Rightarrow> auth_db \<Rightarrow> caller \<Rightarrow> governance \<Rightarrow> store_error + domain_visibility_answer" where
  "resolve_in E db who G =
     (let shared_hidden = (case who of Account _ RoleNone _ \<Rightarrow> True | _ \<Rightarrow> False);
          acls = private_domains db;
          private = map acl_domain acls
      in if who = Machine then Inr \<lparr>dv_private = private, dv_hidden = None, dv_shared_hidden = False\<rparr>
         else if acls = [] \<and> gn_domains G = [] then
           Inr \<lparr>dv_private = private, dv_hidden = Some [], dv_shared_hidden = shared_hidden\<rparr>
         else and_then
           (case who of Account name _ _ \<Rightarrow> memberships_of E db name | _ \<Rightarrow> Inr [])
           (\<lambda>levels.
             (let hidden1 = map acl_domain (filter (\<lambda>acl.
                      acl_domain acl \<notin> set (gn_domains G)
                      \<and> decide who (Some acl) (collected levels (acl_domain acl)) None < ReadRight) acls);
                  hidden2 = (case gn_governor G of
                      None \<Rightarrow> []
                    | Some g \<Rightarrow> filter (\<lambda>domain.
                        (let acl = collected (map (\<lambda>acl. (acl_domain acl, acl)) acls) domain;
                             input = github_input g who domain (acl \<noteq> None) (gn_closes G domain)
                         in decide who acl None (Some input) < ReadRight)) (gn_domains G))
              in Inr \<lparr>dv_private = private, dv_hidden = Some (hidden1 @ hidden2),
                      dv_shared_hidden = shared_hidden\<rparr>)))"

definition visibility ::
  "auth_env \<Rightarrow> governor option \<Rightarrow> auth_db \<Rightarrow> scope \<Rightarrow> store_error + domain_visibility_answer" where
  "visibility E gov db s =
     and_then (caller_of E db s) (\<lambda>who. resolve_in E db who (governance_of gov))"

definition governs :: "governor option \<Rightarrow> string \<Rightarrow> bool" where
  "governs gov domain \<longleftrightarrow> gn_of (governance_of gov) domain \<noteq> None"

definition open_tier_visibility ::
  "auth_env \<Rightarrow> governor option \<Rightarrow> auth_db \<Rightarrow> string \<Rightarrow> store_error + domain_visibility_answer" where
  "open_tier_visibility E gov db agent =
     (let G = governance_of gov; domains = gn_domains G;
          names = (\<lambda>v. case dv_hidden v of Some hidden \<Rightarrow> hidden | None \<Rightarrow> [])
      in and_then (resolve_in E db Nobody G) (\<lambda>anonymous.
           and_then (caller_of E db (Agent agent)) (\<lambda>who.
             and_then (resolve_in E db who G) (\<lambda>as_agent.
               (let hidden = filter (\<lambda>d. d \<notin> set domains) (names anonymous)
                           @ filter (\<lambda>d. d \<in> set domains) (names as_agent)
                           @ (if dv_shared_hidden as_agent
                              then filter (\<lambda>d. d \<notin> set (dv_private anonymous)) domains else [])
                in Inr \<lparr>dv_private = dv_private anonymous, dv_hidden = Some hidden,
                        dv_shared_hidden = False\<rparr>)))))"

section \<open>Who reads a domain\<close>

datatype reader_side =
    Members "(string \<times> member_level \<times> reflection_level) list"
  | GovernedReaders "string list"
  | ClosedSide

definition side_inputs ::
  "reader_side \<Rightarrow> string \<Rightarrow> member_level option \<times> reflection_level \<times> governed option" where
  "side_inputs side name =
     (case side of
        Members members \<Rightarrow>
          (case collected members name of
             Some (level, reflection) \<Rightarrow> (Some level, reflection, None)
           | None \<Rightarrow> (None, DefaultLevel, None))
      | GovernedReaders readers \<Rightarrow>
          (None, DefaultLevel,
           Some \<lparr>gd_knowledge = (if name \<in> set readers then GithubLevel LevelViewer else Unlinked),
                 gd_public = False, gd_closed = False\<rparr>)
      | ClosedSide \<Rightarrow>
          (None, DefaultLevel, Some \<lparr>gd_knowledge = Unlinked, gd_public = False, gd_closed = True\<rparr>))"

definition member_rows :: "auth_db \<Rightarrow> string \<Rightarrow> store_error + (string \<times> member_level \<times> reflection_level) list" where
  "member_rows db domain =
     and_then (domain_members db domain)
       (\<lambda>ms. Inr (map (\<lambda>m. (dm_principal m, dm_level m, dm_reflection m)) ms))"

definition account_caller :: "user \<Rightarrow> caller" where
  "account_caller user = Account (u_name user) (u_role user) (u_reflection user)"

definition engram_readers :: "auth_db \<Rightarrow> domain_acl option \<Rightarrow> reader_side \<Rightarrow> string list" where
  "engram_readers db acl side =
     map u_name (filter (\<lambda>user. \<not> u_disabled user
        \<and> (case side_inputs side (u_name user) of
             (level, _, github) \<Rightarrow> decide (account_caller user) acl level github \<ge> ReadRight))
       (list_users db))"

definition readers_of ::
  "governor option \<Rightarrow> auth_db \<Rightarrow> string \<Rightarrow> store_error + string list option" where
  "readers_of gov db domain =
     and_then (domain_visibility db domain) (\<lambda>acl.
       (let G = governance_of gov
        in case gn_of G domain of
             Some g \<Rightarrow>
               if gn_closes G domain then Inr (Some (engram_readers db acl ClosedSide))
               else (case acl of
                       None \<Rightarrow>
                         if gv_public g (trim domain) then Inr None
                         else Inr (Some (engram_readers db acl (GovernedReaders [])))
                     | Some _ \<Rightarrow>
                         Inr (Some (engram_readers db acl (GovernedReaders
                           (case gv_readers g (trim domain) of Some rs \<Rightarrow> rs | None \<Rightarrow> [])))))
           | None \<Rightarrow>
               (case acl of
                  None \<Rightarrow> Inr None
                | Some _ \<Rightarrow>
                    and_then (member_rows db domain)
                      (\<lambda>members. Inr (Some (engram_readers db acl (Members members)))))))"

definition reader_side_of ::
  "governance \<Rightarrow> auth_db \<Rightarrow> string \<Rightarrow> bool \<Rightarrow> store_error + reader_side option" where
  "reader_side_of G db domain private =
     (case gn_of G domain of
        Some g \<Rightarrow>
          if gn_closes G domain then Inr (Some ClosedSide)
          else if \<not> private then Inr (Some (GovernedReaders []))
          else Inr (map_option GovernedReaders (gv_readers g (trim domain)))
      | None \<Rightarrow>
          if private then and_then (member_rows db domain) (\<lambda>members. Inr (Some (Members members)))
          else Inr (Some (Members [])))"

definition grants_on :: "auth_db \<Rightarrow> string \<Rightarrow> store_error + (string \<times> reflection_level) list" where
  "grants_on db domain =
     and_then (reflection_grants db domain) (\<lambda>gs. Inr (map (\<lambda>g. (rc_account g, rc_level g)) gs))"

definition reads_page ::
  "domain_acl option \<Rightarrow> reader_side \<Rightarrow> (string \<times> reflection_level) list \<Rightarrow> user \<Rightarrow> bool" where
  "reads_page acl side grants user =
     (case side_inputs side (u_name user) of
        (level, reflection, github) \<Rightarrow>
          decide_reflection (account_caller user) acl level reflection (collected grants (u_name user)) github False
            \<ge> ReadReflection)"

definition reads_source :: "domain_acl option \<Rightarrow> reader_side \<Rightarrow> user \<Rightarrow> bool" where
  "reads_source acl side user =
     (case side_inputs side (u_name user) of
        (level, _, github) \<Rightarrow> decide (account_caller user) acl level github \<ge> ReadRight)"

datatype page_readers = Everyone | Accounts "string list"

definition page_readers ::
  "governor option \<Rightarrow> auth_db \<Rightarrow> string \<Rightarrow> store_error + page_readers" where
  "page_readers gov db page =
     (let G = governance_of gov
      in and_then (domain_visibility db page) (\<lambda>acl.
           if anonymous_reads G page (acl \<noteq> None) then Inr Everyone
           else and_then (reader_side_of G db page (acl \<noteq> None)) (\<lambda>side.
             and_then (grants_on db page) (\<lambda>grants.
               Inr (Accounts (map u_name (filter (\<lambda>user. \<not> u_disabled user
                 \<and> reads_page acl (case side of Some s \<Rightarrow> s | None \<Rightarrow> GovernedReaders []) grants user)
                 (list_users db))))))))"

definition cover ::
  "governor option \<Rightarrow> auth_db \<Rightarrow> string \<Rightarrow> string \<Rightarrow> string list option \<Rightarrow> store_error + bool" where
  "cover gov db page source confirmed =
     (if trim page = trim source then Inr True
      else
        (let G = governance_of gov
         in and_then (domain_visibility db page) (\<lambda>page_acl.
            and_then (domain_visibility db source) (\<lambda>source_acl.
              (let anonymous_reads_page = anonymous_reads G page (page_acl \<noteq> None)
               in if anonymous_reads_page \<and> confirmed \<noteq> None then Inr False
                  else if page_acl = None \<and> source_acl \<noteq> None \<and> confirmed = None then Inr False
                  else if anonymous_reads_page \<and> \<not> anonymous_reads G source (source_acl \<noteq> None) then Inr False
                  else and_then (reader_side_of G db page (page_acl \<noteq> None)) (\<lambda>page_side.
                    case page_side of
                      None \<Rightarrow> Inr False
                    | Some page_side \<Rightarrow>
                        and_then (reader_side_of G db source (source_acl \<noteq> None)) (\<lambda>source_side.
                          case source_side of
                            None \<Rightarrow> Inr False
                          | Some source_side \<Rightarrow>
                              and_then (grants_on db page) (\<lambda>grants.
                                Inr (\<not> list_ex (\<lambda>user. \<not> u_disabled user
                                       \<and> reads_page page_acl page_side grants user
                                       \<and> \<not> reads_source source_acl source_side user
                                       \<and> \<not> (case confirmed of Some names \<Rightarrow> u_name user \<in> set names | None \<Rightarrow> False))
                                     (list_users db))))))))))"

definition readers_cover :: "governor option \<Rightarrow> auth_db \<Rightarrow> string \<Rightarrow> string \<Rightarrow> store_error + bool" where
  "readers_cover gov db page source = cover gov db page source None"

definition readers_cover_for ::
  "governor option \<Rightarrow> auth_db \<Rightarrow> string \<Rightarrow> string \<Rightarrow> page_readers \<Rightarrow> store_error + bool" where
  "readers_cover_for gov db page source confirmed =
     (case confirmed of
        Everyone \<Rightarrow> Inr True
      | Accounts names \<Rightarrow> cover gov db page source (Some names))"


section \<open>Delegations the engine calls\<close>

record account_contact_info =
  ct_display :: string
  ct_email :: "string option"

definition account_contact :: "auth_env \<Rightarrow> auth_db \<Rightarrow> string \<Rightarrow> store_error + account_contact_info option" where
  "account_contact E db account =
     and_then (user_of E db account) (\<lambda>found.
       Inr (map_option (\<lambda>user. \<lparr>ct_display = u_display user,
              ct_email = (case u_email user of
                            Some email \<Rightarrow> if trim email = [] then None else Some (trim email)
                          | None \<Rightarrow> None)\<rparr>) found))"

definition account_is_admin :: "auth_env \<Rightarrow> auth_db \<Rightarrow> string \<Rightarrow> store_error + bool" where
  "account_is_admin E db account =
     and_then (user_of E db account) (\<lambda>found.
       Inr (case found of Some user \<Rightarrow> \<not> u_disabled user \<and> u_role user = RoleAdmin | None \<Rightarrow> False))"

definition account_enabled :: "auth_env \<Rightarrow> auth_db \<Rightarrow> string \<Rightarrow> store_error + bool" where
  "account_enabled E db account =
     and_then (user_of E db account) (\<lambda>found.
       Inr (case found of Some user \<Rightarrow> \<not> u_disabled user | None \<Rightarrow> False))"

definition enabled_accounts :: "auth_db \<Rightarrow> string list" where
  "enabled_accounts db = map u_name (filter (\<lambda>user. \<not> u_disabled user) (list_users db))"

definition has_private_record :: "auth_db \<Rightarrow> string \<Rightarrow> store_error + bool" where
  "has_private_record db domain = and_then (domain_visibility db domain) (\<lambda>acl. Inr (acl \<noteq> None))"

text \<open>A share-link as the engine sees it: the draft it opens and when it ends.\<close>

record redeemed_link =
  rl_domain :: string
  rl_owner :: string
  rl_path :: string
  rl_expires :: "string option"

definition redeem_link ::
  "auth_env \<Rightarrow> auth_db \<Rightarrow> string \<Rightarrow> string \<Rightarrow> string \<Rightarrow> store_error + auth_db \<times> redeemed_link option" where
  "redeem_link E db token account now =
     and_then (redeem_overlay_grant E db token account now) (\<lambda>(db1, found).
       Inr (db1, map_option (\<lambda>g. \<lparr>rl_domain = ov_domain g, rl_owner = ov_owner g, rl_path = ov_path g,
                                 rl_expires = ov_expires g\<rparr>) found))"

definition held_links :: "auth_env \<Rightarrow> auth_db \<Rightarrow> string \<Rightarrow> string \<Rightarrow> string \<Rightarrow> store_error + (string \<times> string) list" where
  "held_links E db account domain now =
     and_then (overlay_grants_held E db account domain now) (\<lambda>gs. Inr (map (\<lambda>g. (ov_path g, ov_owner g)) gs))"

end
