(* ===== verification/AccessRules.thy ===== *)
theory AccessRules
  imports Access Credentials
begin

text \<open>
  What the access policy promises. Every answer about one caller and one domain is the
  policy at that account's row and the domain's records (\<open>decided_right_eq\<close>); the batch
  answers, the listing screen and the readers of a page agree with it.
\<close>

section \<open>Records read by key\<close>

lemma find_keyed:
  assumes "keyed k rows" "keyed k xs" "set xs = set rows"
  shows "find (\<lambda>r. k r = x) xs = find (\<lambda>r. k r = x) rows"
proof (cases "find (\<lambda>r. k r = x) rows")
  case None
  then have "\<forall>r\<in>set xs. k r \<noteq> x" using assms(3) by (simp add: find_None_iff_all)
  then have "find (\<lambda>r. k r = x) xs = None" by (simp add: find_None_iff_all)
  then show ?thesis using None by simp
next
  case (Some r)
  then have "r \<in> set xs" "k r = x" using find_SomeD [OF Some] assms(3) by auto
  then show ?thesis using find_key [of k xs r] assms(2) Some by (simp add: keyed_def)
qed

lemma map_of_rows: "map_of (map (\<lambda>r. (k r, f r)) rows) x = map_option f (find (\<lambda>r. k r = x) rows)"
  by (induction rows) auto

lemma collected_rows:
  assumes "keyed k rows" "distinct (map k xs)" "set xs = set rows"
  shows "collected (map (\<lambda>r. (k r, f r)) xs) x = map_option f (find (\<lambda>r. k r = x) rows)"
proof -
  have "collected (map (\<lambda>r. (k r, f r)) xs) x = map_option f (find (\<lambda>r. k r = x) (rev xs))"
    by (simp add: collected_def map_of_rows rev_map)
  also have "find (\<lambda>r. k r = x) (rev xs) = find (\<lambda>r. k r = x) rows"
    by (rule find_keyed) (use assms in \<open>auto simp: keyed_def simp flip: rev_map\<close>)
  finally show ?thesis .
qed

lemma keyed_sort [simp]: "keyed k (sort_key g xs) = keyed k xs"
  by (simp add: keyed_iff)

lemma find_map: "find P (map f xs) = map_option f (find (\<lambda>x. P (f x)) xs)"
  by (induction xs) auto

lemma keyed_filter_by:
  assumes "keyed k xs" "\<And>r s. r \<in> set xs \<Longrightarrow> s \<in> set xs \<Longrightarrow> P r \<Longrightarrow> P s \<Longrightarrow> k r = k s \<longleftrightarrow> j r = j s"
  shows "keyed j (filter P xs)"
  using assms by (auto simp: keyed_def distinct_map inj_on_def)

definition member_at :: "auth_db \<Rightarrow> string \<Rightarrow> string \<Rightarrow> member_row option" where
  "member_at db d n = find (is_member_row d n) (db_members db)"

definition level_at :: "auth_db \<Rightarrow> string \<Rightarrow> string \<Rightarrow> member_level option" where
  "level_at db d n = map_option (\<lambda>m. member_level_from_db (mb_level m)) (member_at db d n)"

definition reflection_at :: "auth_db \<Rightarrow> string \<Rightarrow> string \<Rightarrow> reflection_level" where
  "reflection_at db d n =
     (case member_at db d n of Some m \<Rightarrow> reflection_level_from_db (mb_reflection m) | None \<Rightarrow> DefaultLevel)"

lemma find_of_filter: "find P (filter Q xs) = find (\<lambda>x. Q x \<and> P x) xs"
  by (induction xs) auto

lemma members_keyed: "auth_wf E db \<Longrightarrow> keyed member_key (db_members db)"
  using auth_wf_parts(5) by (simp add: members_ok_def)

lemma account_rows_keyed:
  "auth_wf E db \<Longrightarrow> keyed mb_domain (filter (\<lambda>m. mb_kind m = PRINCIPAL_USER \<and> mb_principal m = n) (db_members db))"
  by (rule keyed_filter_by [OF members_keyed]) (auto simp: member_key_def)

lemma domain_rows_keyed:
  "auth_wf E db \<Longrightarrow> keyed mb_principal (filter (\<lambda>m. mb_domain m = d \<and> mb_kind m = PRINCIPAL_USER) (db_members db))"
  by (rule keyed_filter_by [OF members_keyed]) (auto simp: member_key_def)

lemma find_account_row:
  "find (\<lambda>m. mb_domain m = d) (filter (\<lambda>m. mb_kind m = PRINCIPAL_USER \<and> mb_principal m = n) (db_members db)) = member_at db d n"
  unfolding member_at_def find_of_filter by (rule arg_cong [where f = "\<lambda>P. find P _"]) (auto simp: is_member_row_def)

lemma find_domain_row:
  "find (\<lambda>m. mb_principal m = n) (filter (\<lambda>m. mb_domain m = d \<and> mb_kind m = PRINCIPAL_USER) (db_members db)) = member_at db d n"
  unfolding member_at_def find_of_filter by (rule arg_cong [where f = "\<lambda>P. find P _"]) (auto simp: is_member_row_def)

lemma memberships_collected:
  assumes "auth_wf E db" "normalize_account_name (ae_lower E) n = Inr n" "memberships_of E db n = Inr ms"
  shows "collected ms d = level_at db d n"
proof -
  let ?rows = "filter (\<lambda>m. mb_kind m = PRINCIPAL_USER \<and> mb_principal m = n) (db_members db)"
  have "ms = map (\<lambda>m. (mb_domain m, member_level_from_db (mb_level m))) (sort_key mb_domain ?rows)"
    using assms(2,3) by (simp add: memberships_of_def)
  then show ?thesis
    using collected_rows [OF account_rows_keyed [OF assms(1)], of "sort_key mb_domain ?rows" n]
      account_rows_keyed [OF assms(1)]
    by (simp add: find_account_row level_at_def flip: keyed_def)
qed

lemma level_of_eq:
  assumes "auth_wf E db" "normalize_account_name (ae_lower E) n = Inr n"
  shows "level_of E db n d = Inr (level_at db (trim d) n)"
proof -
  let ?rows = "filter (\<lambda>m. mb_kind m = PRINCIPAL_USER \<and> mb_principal m = n) (db_members db)"
  have "find (\<lambda>m. mb_domain m = trim d) (sort_key mb_domain ?rows) = member_at db (trim d) n"
    using find_keyed [OF account_rows_keyed [OF assms(1)], of "sort_key mb_domain ?rows" n]
      account_rows_keyed [OF assms(1)] by (simp add: find_account_row)
  then show ?thesis
    using assms(2)
    by (simp add: level_of_def memberships_of_def level_at_def find_map comp_def case_prod_beta)
       (auto simp: option.map_comp comp_def)
qed

lemma member_reflection_eq:
  "normalize_account_name (ae_lower E) n = Inr n \<Longrightarrow> normalize_domain d = Inr d' \<Longrightarrow>
     member_reflection E db d n = Inr (reflection_at db d' n)"
  by (simp add: member_reflection_def member_reflection_in_tx_def reflection_at_def member_at_def
      reflection_level_from_db_def split: option.splits)

lemma member_rows_collected:
  assumes "auth_wf E db" "normalize_domain d = Inr d'" "member_rows db d = Inr ms"
  shows "collected ms n = map_option (\<lambda>m. (member_level_from_db (mb_level m), reflection_level_from_db (mb_reflection m)))
           (member_at db d' n)"
proof -
  let ?rows = "filter (\<lambda>m. mb_domain m = d' \<and> mb_kind m = PRINCIPAL_USER) (db_members db)"
  have "ms = map (\<lambda>m. (mb_principal m, (member_level_from_db (mb_level m), reflection_level_from_db (mb_reflection m))))
      (sort_key mb_principal ?rows)"
    using assms(2,3) by (simp add: member_rows_def domain_members_def member_from_row_def comp_def)
  then show ?thesis
    using collected_rows [OF domain_rows_keyed [OF assms(1)], of "sort_key mb_principal ?rows" d']
      domain_rows_keyed [OF assms(1)]
    by (simp add: find_domain_row flip: keyed_def)
qed

lemma normalize_trim: "normalize_domain d = Inr d' \<Longrightarrow> trim d = d' \<and> trim d' = d' \<and> normalize_domain d' = Inr d'"
  by (auto simp: normalize_domain_def Let_def split: if_splits)

section \<open>One caller and one domain\<close>

lemma If_fun: "If True x = (\<lambda>_. x)" "If False x = (\<lambda>r. r)"
  by (simp_all add: fun_eq_iff)

lemma caller_cases:
  assumes "caller_of E db s = Inr (Account n role rl)"
  shows "\<exists>u a. user_of E db a = Inr (Some u) \<and> \<not> u_disabled u \<and> u_name u = n \<and> u_reflection u = rl
       \<and> (s = User a True \<and> role = RoleAdmin \<or> s = User a False \<and> role = u_role u
          \<or> s = Agent a \<and> role = (case u_role u of RoleAdmin \<Rightarrow> RoleEditor | r \<Rightarrow> r))"
proof -
  obtain a f where f: "s = User a True \<and> f = (\<lambda>_. RoleAdmin) \<or> s = User a False \<and> f = (\<lambda>r. r)
      \<or> s = Agent a \<and> f = (\<lambda>r. case r of RoleAdmin \<Rightarrow> RoleEditor | r \<Rightarrow> r)"
    and c: "caller_of E db s = and_then (user_of E db a) (\<lambda>found. Inr (caller_of_user found f))"
  proof (cases s)
    case (User a b)
    with that [of a "\<lambda>_. RoleAdmin"] that [of a "\<lambda>r. r"] show ?thesis by (cases b) (auto simp: caller_of_def If_fun)
  next
    case (Agent a)
    with that show ?thesis by (simp add: caller_of_def)
  qed (use assms in \<open>auto simp: caller_of_def\<close>)
  obtain found where "user_of E db a = Inr found" "caller_of_user found f = Account n role rl"
    using assms c by (auto simp: and_then_Inr)
  then obtain u where "user_of E db a = Inr (Some u)" "\<not> u_disabled u" "u_name u = n" "u_reflection u = rl" "role = f (u_role u)"
    by (auto simp: caller_of_user_def split: option.splits if_splits)
  then show ?thesis using f by blast
qed

lemma user_of_listed:
  assumes "auth_wf E db" "user_of E db a = Inr (Some u)"
  shows "u \<in> set (list_users db)" "normalize_account_name (ae_lower E) (u_name u) = Inr (u_name u)"
proof -
  obtain r where r: "r \<in> set (db_users db)" "u = user_from_row r"
    using assms(2) by (auto simp: user_of_def user_row_of_def dest: find_SomeD split: sum.splits)
  then show "u \<in> set (list_users db)" by (auto simp: list_users_def)
  show "normalize_account_name (ae_lower E) (u_name u) = Inr (u_name u)"
    using auth_wf_parts(1) [OF assms(1)] r by (simp add: users_ok_def)
qed

lemma caller_folded:
  "auth_wf E db \<Longrightarrow> caller_of E db s = Inr (Account n role rl) \<Longrightarrow> normalize_account_name (ae_lower E) n = Inr n"
  using caller_cases user_of_listed(2) by blast

definition governed_at :: "governor option \<Rightarrow> caller \<Rightarrow> auth_db \<Rightarrow> string \<Rightarrow> governed option" where
  "governed_at gov who db d = gn_input (governance_of gov) who d (acl_of db d \<noteq> None)"

definition invited_at :: "governor option \<Rightarrow> caller \<Rightarrow> auth_db \<Rightarrow> string \<Rightarrow> member_level option" where
  "invited_at gov who db d =
     (case (acl_of db d, who, governed_at gov who db d) of
        (Some _, Account n _ _, None) \<Rightarrow> level_at db d n
      | _ \<Rightarrow> None)"

definition policy_right :: "governor option \<Rightarrow> caller \<Rightarrow> auth_db \<Rightarrow> string \<Rightarrow> domain_right" where
  "policy_right gov who db d =
     (if who = Machine then OwnRight
      else decide who (acl_of db d) (invited_at gov who db d) (governed_at gov who db d))"

lemma gn_trim:
  assumes "trim d = d'" "trim d' = d'"
  shows "gn_of G d = gn_of G d'" "gn_closes G d = gn_closes G d'" "gn_input G who d p = gn_input G who d' p"
    "anonymous_reads G d p = anonymous_reads G d' p"
proof -
  show o: "gn_of G d = gn_of G d'" using assms by (simp add: gn_of_def)
  show c: "gn_closes G d = gn_closes G d'" using assms o by (simp add: gn_closes_def)
  show "gn_input G who d p = gn_input G who d' p" using assms o c by (simp add: gn_input_def cong: option.case_cong)
  show "anonymous_reads G d p = anonymous_reads G d' p" using assms o c by (simp add: anonymous_reads_def cong: option.case_cong)
qed

lemma decided_right_eq:
  assumes wf: "auth_wf E db" and d: "normalize_domain d = Inr d'" and who: "caller_of E db s = Inr who"
  shows "decided_right E gov db s d =
    Inr (who, policy_right gov who db d', who \<noteq> Machine \<and> governed_at gov who db d' \<noteq> None)"
proof -
  note t = normalize_trim [OF d]
  have g: "gn_input (governance_of gov) who d p = gn_input (governance_of gov) who d' p" for p
    using gn_trim(3) t by metis
  have vis: "domain_visibility db d = Inr (acl_of db d')"
    using d by (simp add: domain_visibility_def)
  have level: "level_of E db n d = Inr (level_at db d' n)" if "who = Account n role rl" for n role rl
    using level_of_eq [OF wf caller_folded [OF wf]] who that t by metis
  have "decided_right E gov db s d = (if who = Machine then Inr (who, OwnRight, False)
      else and_then (case (acl_of db d', who, governed_at gov who db d') of
                       (Some _, Account n _ _, None) \<Rightarrow> level_of E db n d
                     | _ \<Rightarrow> Inr None)
             (\<lambda>level. Inr (who, decide who (acl_of db d') level (governed_at gov who db d'), governed_at gov who db d' \<noteq> None)))"
    by (simp add: decided_right_def who vis g governed_at_def Let_def)
  then show ?thesis
    using level
    by (cases who; cases "acl_of db d'"; cases "governed_at gov who db d'") (auto simp: policy_right_def invited_at_def)
qed

lemma off_list_total:
  assumes "auth_wf E db" "caller_of E db s = Inr who"
  shows "\<exists>off. off_list_account E db who d = Inr off"
proof (cases who)
  case (Account n role rl)
  then have "normalize_account_name (ae_lower E) n = Inr n"
    using caller_folded [OF assms(1)] assms(2) by simp
  with Account show ?thesis by (simp add: off_list_account_def write_list_def)
qed (simp_all add: off_list_account_def)

text \<open>The list an account writes by never takes reading away.\<close>

lemma right_on_read:
  assumes "auth_wf E db" "normalize_domain d = Inr d'" "caller_of E db s = Inr who"
  obtains r where "right_on E gov db s d = Inr r" "r \<ge> ReadRight \<longleftrightarrow> policy_right gov who db d' \<ge> ReadRight"
proof -
  obtain off where off: "off_list_account E db who d = Inr off" using off_list_total [OF assms(1,3)] by blast
  have "right_on E gov db s d = Inr (if policy_right gov who db d' > ReadRight \<and> off \<noteq> None then ReadRight
      else policy_right gov who db d')"
    using off by (simp add: right_on_def resolved_right_def decided_right_eq [OF assms])
  then show thesis by (rule that) auto
qed

section \<open>The listing screen\<close>

lemma acl_rows:
  assumes "auth_wf E db"
  shows "collected (map (\<lambda>acl. (acl_domain acl, acl)) (private_domains db)) d = acl_of db d"
    and "d \<in> set (map acl_domain (private_domains db)) \<longleftrightarrow> acl_of db d \<noteq> None"
    and "acl \<in> set (private_domains db) \<longleftrightarrow> acl_of db (acl_domain acl) = Some acl"
proof -
  have k: "keyed al_domain (db_acl db)" using auth_wf_parts(4) [OF assms] by (simp add: acl_ok_def)
  have "map (\<lambda>acl. (acl_domain acl, acl)) (private_domains db) =
      map (\<lambda>a. (al_domain a, \<lparr>acl_domain = al_domain a, acl_owner = al_owner a\<rparr>)) (sort_key al_domain (db_acl db))"
    by (simp add: private_domains_def)
  then have "collected (map (\<lambda>acl. (acl_domain acl, acl)) (private_domains db)) d =
      map_option (\<lambda>a. \<lparr>acl_domain = al_domain a, acl_owner = al_owner a\<rparr>) (find (\<lambda>a. al_domain a = d) (db_acl db))"
    using collected_rows [OF k, of "sort_key al_domain (db_acl db)"] k by (simp flip: keyed_def)
  then show "collected (map (\<lambda>acl. (acl_domain acl, acl)) (private_domains db)) d = acl_of db d"
    by (cases "find (\<lambda>a. al_domain a = d) (db_acl db)") (auto simp: acl_of_def dest: find_SomeD)
  show "d \<in> set (map acl_domain (private_domains db)) \<longleftrightarrow> acl_of db d \<noteq> None"
    by (auto simp: private_domains_def acl_of_None)
  show "acl \<in> set (private_domains db) \<longleftrightarrow> acl_of db (acl_domain acl) = Some acl"
  proof
    assume "acl \<in> set (private_domains db)"
    then obtain a where a: "a \<in> set (db_acl db)" "acl = \<lparr>acl_domain = al_domain a, acl_owner = al_owner a\<rparr>"
      by (auto simp: private_domains_def)
    then have "find (\<lambda>s. al_domain s = al_domain a) (db_acl db) = Some a"
      using find_key [of al_domain] k by (simp add: keyed_def)
    with a show "acl_of db (acl_domain acl) = Some acl" by (simp add: acl_of_def)
  next
    assume "acl_of db (acl_domain acl) = Some acl"
    then obtain a where "a \<in> set (db_acl db)" "al_domain a = acl_domain acl" "acl = \<lparr>acl_domain = acl_domain acl, acl_owner = al_owner a\<rparr>"
      by (auto simp: acl_of_def dest: find_SomeD)
    moreover have "set (private_domains db) = (\<lambda>a. \<lparr>acl_domain = al_domain a, acl_owner = al_owner a\<rparr>) ` set (db_acl db)"
      by (simp add: private_domains_def)
    ultimately show "acl \<in> set (private_domains db)" by (simp add: image_iff) metis
  qed
qed

lemma acl_of_domain: "acl_of db d = Some acl \<Longrightarrow> acl_domain acl = d"
  by (auto simp: acl_of_def)

lemma gn_of_listed: "d \<in> set (gn_domains (governance_of gov)) \<Longrightarrow> trim d = d \<Longrightarrow> gn_of (governance_of gov) d = gov \<and> gov \<noteq> None"
  by (auto simp: gn_of_def governance_of_def split: option.splits)

lemma gn_of_unlisted: "d \<notin> set (gn_domains (governance_of gov)) \<Longrightarrow> trim d = d \<Longrightarrow> gn_of (governance_of gov) d = None"
  by (auto simp: gn_of_def)

lemma governed_listed:
  "d \<in> set (gn_domains (governance_of gov)) \<Longrightarrow> trim d = d \<Longrightarrow> gov = Some g \<Longrightarrow>
     governed_at gov who db d = Some (github_input g who d (acl_of db d \<noteq> None) (gn_closes (governance_of gov) d))"
  by (simp add: governed_at_def gn_input_def gn_of_listed)

lemma governed_unlisted:
  "d \<notin> set (gn_domains (governance_of gov)) \<Longrightarrow> trim d = d \<Longrightarrow> governed_at gov who db d = None"
  by (simp add: governed_at_def gn_input_def gn_of_unlisted)

text \<open>Which domains the resolver hides from a caller.\<close>

lemma hidden_domains:
  assumes wf: "auth_wf E db" and who: "who \<noteq> Machine"
    and folded: "\<And>n role rl. who = Account n role rl \<Longrightarrow> normalize_account_name (ae_lower E) n = Inr n"
    and d: "trim d = d"
    and v: "resolve_in E db who (governance_of gov) = Inr v"
  obtains hidden where "dv_hidden v = Some hidden" "dv_private v = map acl_domain (private_domains db)"
    "dv_shared_hidden v \<longleftrightarrow> (\<exists>n rl. who = Account n RoleNone rl)"
    "d \<in> set hidden \<longleftrightarrow> (acl_of db d \<noteq> None \<or> governed_at gov who db d \<noteq> None) \<and> policy_right gov who db d < ReadRight"
proof -
  let ?G = "governance_of gov" and ?acls = "private_domains db"
  have sh: "dv_shared_hidden v \<longleftrightarrow> (\<exists>n rl. who = Account n RoleNone rl)"
    and pr: "dv_private v = map acl_domain ?acls"
    using v who by (auto simp: resolve_in_def Let_def and_then_Inr split: if_splits caller.splits role.splits)
  show thesis
  proof (cases "?acls = [] \<and> gn_domains ?G = []")
    case True
    then have "dv_hidden v = Some []" using v who by (simp add: resolve_in_def Let_def) auto
    moreover have "acl_of db d = None" using True acl_rows(2) [OF wf, of d] by simp
    moreover have "governed_at gov who db d = None" using True governed_unlisted [OF _ d] by simp
    ultimately show thesis using that pr sh by simp
  next
    case False
    have batch: "(case gn_governor ?G of None \<Rightarrow> [] | Some g \<Rightarrow> filter (\<lambda>domain.
          let acl = collected (map (\<lambda>acl. (acl_domain acl, acl)) ?acls) domain;
              input = github_input g who domain (acl \<noteq> None) (gn_closes ?G domain)
          in decide who acl None (Some input) < ReadRight) (gn_domains ?G))
        = (case gn_governor ?G of None \<Rightarrow> [] | Some g \<Rightarrow> filter (\<lambda>d. decide who (acl_of db d) None
             (Some (github_input g who d (acl_of db d \<noteq> None) (gn_closes ?G d))) < ReadRight) (gn_domains ?G))"
      by (cases "gn_governor ?G") (simp_all add: Let_def acl_rows(1) [OF wf])
    obtain levels where levels: "(case who of Account n _ _ \<Rightarrow> memberships_of E db n | _ \<Rightarrow> Inr []) = Inr levels"
      and h: "dv_hidden v = Some (map acl_domain (filter (\<lambda>acl. acl_domain acl \<notin> set (gn_domains ?G)
                \<and> decide who (Some acl) (collected levels (acl_domain acl)) None < ReadRight) ?acls)
             @ (case gn_governor ?G of None \<Rightarrow> []
                | Some g \<Rightarrow> filter (\<lambda>d. decide who (acl_of db d) None
                    (Some (github_input g who d (acl_of db d \<noteq> None) (gn_closes ?G d))) < ReadRight) (gn_domains ?G)))"
      using v who False
      by (auto simp: resolve_in_def Let_def [of "private_domains db"] Let_def [of "map f xs" for f xs]
          Let_def [of "case who of _ \<Rightarrow> _"] and_then_Inr batch)
    have level: "decide who (Some acl) (collected levels d) None = decide who (Some acl) (case who of Account n _ _ \<Rightarrow> level_at db d n | _ \<Rightarrow> None) None" for acl
      using levels memberships_collected [OF wf folded] by (cases who) (auto simp: decide_def)
    have "d \<in> set (the (dv_hidden v)) \<longleftrightarrow> (acl_of db d \<noteq> None \<or> governed_at gov who db d \<noteq> None) \<and> policy_right gov who db d < ReadRight"
    proof (cases "d \<in> set (gn_domains ?G)")
      case True
      then obtain g where g: "gov = Some g" using gn_of_listed [OF _ d] by (cases gov) auto
      then have gg: "gn_governor ?G = Some g" by (simp add: governance_of_def)
      have "policy_right gov who db d = decide who (acl_of db d) None (Some (github_input g who d (acl_of db d \<noteq> None) (gn_closes ?G d)))"
        using governed_listed [OF True d g] who by (simp add: policy_right_def decide_def)
      then show ?thesis using True g gg governed_listed [OF True d g] by (auto simp: h)
    next
      case False
      then have u: "governed_at gov who db d = None" by (rule governed_unlisted [OF _ d])
      have "policy_right gov who db d = decide who (acl_of db d) (if acl_of db d = None then None else (case who of Account n _ _ \<Rightarrow> level_at db d n | _ \<Rightarrow> None)) None"
        using u who by (auto simp: policy_right_def invited_at_def split: option.splits caller.splits)
      moreover have "d \<in> set (the (dv_hidden v)) \<longleftrightarrow> (\<exists>acl. acl_of db d = Some acl \<and> decide who (Some acl) (collected levels d) None < ReadRight)"
        using False by (auto simp: h acl_rows(3) [OF wf] split: option.splits dest: acl_of_domain)
      ultimately show ?thesis using u level by auto
    qed
    then show thesis using that h pr sh by simp
  qed
qed

lemma shared_right:
  "acl_of db d = None \<Longrightarrow> governed_at gov who db d = None \<Longrightarrow> who \<noteq> Machine \<Longrightarrow>
     policy_right gov who db d \<ge> ReadRight \<longleftrightarrow> \<not> (\<exists>n rl. who = Account n RoleNone rl)"
  by (cases who; cases "case who of Account _ role _ \<Rightarrow> role | _ \<Rightarrow> RoleAdmin")
     (auto simp: policy_right_def decide_def right_order split: role.splits)

text \<open>Somebody the instance lets nowhere reaches no governed domain either.\<close>

lemma none_governed:
  "governed_at gov (Account n RoleNone rl) db d \<noteq> None \<Longrightarrow> policy_right gov (Account n RoleNone rl) db d < ReadRight"
  by (auto simp: policy_right_def decide_def decide_governed_def right_order Let_def split: option.splits if_splits)

text \<open>
  C6: the screen a listing is filtered by admits a domain exactly when the caller may read it:
  the batch answer of \<open>visibility\<close> and the single answer of \<open>right\<close> never disagree.
\<close>

theorem hidden_iff_no_right:
  assumes wf: "auth_wf E db" and d: "normalize_domain d = Inr d"
    and v: "visibility E gov db s = Inr v" and r: "right_on E gov db s d = Inr r"
  shows "admits (screen_of v) d \<longleftrightarrow> r \<ge> ReadRight"
proof -
  obtain who where who: "caller_of E db s = Inr who" and res: "resolve_in E db who (governance_of gov) = Inr v"
    using v by (auto simp: visibility_def and_then_Inr)
  have rp: "r \<ge> ReadRight \<longleftrightarrow> policy_right gov who db d \<ge> ReadRight"
    using right_on_read [OF wf d who, of gov] r by (metis sum.inject(2))
  have td: "trim d = d" using normalize_trim [OF d] by blast
  show ?thesis
  proof (cases "who = Machine")
    case True
    then have "dv_hidden v = None" using res by (auto simp: resolve_in_def Let_def)
    then show ?thesis using True rp by (simp add: admits_def screen_of_def policy_right_def right_order)
  next
    case False
    have fo: "normalize_account_name (ae_lower E) n = Inr n" if "who = Account n role rl" for n role rl
      using caller_folded [OF wf] who that by simp
    obtain hidden where h: "dv_hidden v = Some hidden" and p: "dv_private v = map acl_domain (private_domains db)"
      and sh: "dv_shared_hidden v \<longleftrightarrow> (\<exists>n rl. who = Account n RoleNone rl)"
      and iff: "d \<in> set hidden \<longleftrightarrow> (acl_of db d \<noteq> None \<or> governed_at gov who db d \<noteq> None) \<and> policy_right gov who db d < ReadRight"
      by (rule hidden_domains [OF wf False fo td res])
    have priv: "d \<in> set (dv_private v) \<longleftrightarrow> acl_of db d \<noteq> None" by (simp add: p acl_rows(2) [OF wf] del: set_map)
    show ?thesis
    proof (cases "dv_shared_hidden v")
      case True
      then obtain n rl where "who = Account n RoleNone rl" using sh by blast
      then have "acl_of db d = None \<Longrightarrow> policy_right gov who db d < ReadRight"
        using none_governed shared_right [OF _ _ False] by (metis linorder_not_less)
      then show ?thesis using True h iff priv rp by (auto simp: admits_def screen_of_def)
    next
      case F: False
      then have "acl_of db d = None \<Longrightarrow> governed_at gov who db d = None \<Longrightarrow> policy_right gov who db d \<ge> ReadRight"
        using sh shared_right [OF _ _ False] by blast
      then show ?thesis using F h iff rp by (auto simp: admits_def screen_of_def)
    qed
  qed
qed

text \<open>The private domain of the example, and somebody who is not in it.\<close>

definition two_user_db :: auth_db where
  "two_user_db =
     (case add_user_with_reflection example_env owned_db ''bob'' ''Bob'' None RoleViewer DefaultLevel ''pw4'' ''t3'' of
        Inr db \<Rightarrow> db | Inl _ \<Rightarrow> empty_db)"

lemma two_user_wf: "auth_wf example_env two_user_db"
proof -
  have "add_user_with_reflection example_env owned_db ''bob'' ''Bob'' None RoleViewer DefaultLevel ''pw4'' ''t3''
      = Inr two_user_db" by code_simp
  then show ?thesis by (rule making_accounts_wf(1) [OF example_fold owned_wf])
qed

definition bob_sees :: domain_visibility_answer where
  "bob_sees = (case visibility example_env None two_user_db (User ''bob'' False) of
     Inr v \<Rightarrow> v | Inl _ \<Rightarrow> \<lparr>dv_private = [], dv_hidden = None, dv_shared_hidden = False\<rparr>)"

theorem hidden_iff_no_right_witness: "admits (screen_of bob_sees) ''eng'' \<longleftrightarrow> NoRight \<ge> ReadRight"
proof (rule hidden_iff_no_right [OF two_user_wf])
  show "normalize_domain ''eng'' = Inr ''eng''" by code_simp
  show "visibility example_env None two_user_db (User ''bob'' False) = Inr bob_sees" by code_simp
  show "right_on example_env None two_user_db (User ''bob'' False) ''eng'' = Inr NoRight" by code_simp
qed

section \<open>The snapshot of an account's write rights\<close>

lemma collected_const: "collected (map (\<lambda>x. (x, f x)) xs) d = (if d \<in> set xs then Some (f d) else None)"
proof -
  have "map_of (map (\<lambda>x. (x, f x)) ys) d = (if d \<in> set ys then Some (f d) else None)" for ys
    by (induction ys) auto
  then show ?thesis by (simp add: collected_def rev_map)
qed

lemma snapshot_parts:
  assumes wf: "auth_wf E db" and W: "write_rights E gov db s = Inr W" and who: "caller_of E db s = Inr who"
    and d: "trim d = d"
  shows "wt_who W = who" "collected (wt_acls W) d = acl_of db d"
    "collected (wt_governed W) d = governed_at gov who db d"
    "wt_is_governed W d \<longleftrightarrow> governed_at gov who db d \<noteq> None"
    "who = Account n role rl \<Longrightarrow> collected (wt_levels W) d = level_at db d n"
    "who = Account n role rl \<Longrightarrow> instance_cap who > ReadRight \<or> wt_governed W \<noteq> []
       \<Longrightarrow> write_list E db n = Inr (wt_write_list W)"
    "\<forall>n role rl. who \<noteq> Account n role rl \<Longrightarrow> wt_write_list W = None"
proof -
  let ?G = "governance_of gov"
  let ?acls = "map (\<lambda>acl. (acl_domain acl, acl)) (private_domains db)"
  define governed where "governed = (case gn_governor ?G of
      Some g \<Rightarrow> map (\<lambda>domain. (domain, github_input g who domain (domain \<in> fst ` set ?acls) (gn_closes ?G domain))) (gn_domains ?G)
    | None \<Rightarrow> [])"
  have dom: "x \<in> fst ` set ?acls \<longleftrightarrow> acl_of db x \<noteq> None" for x
    using acl_rows(2) [OF wf, of x] by (simp add: image_image)
  have g: "collected governed d = governed_at gov who db d"
  proof (cases gov)
    case None
    then show ?thesis by (simp add: governed_def governance_of_def collected_def governed_at_def gn_input_def gn_of_def)
  next
    case (Some g)
    then have gg: "gn_governor ?G = Some g" by (simp add: governance_of_def)
    have "collected governed d = (if d \<in> set (gn_domains ?G)
        then Some (github_input g who d (acl_of db d \<noteq> None) (gn_closes ?G d)) else None)"
      unfolding governed_def gg option.case collected_const dom by (rule refl)
    then show ?thesis using governed_listed [OF _ d Some] governed_unlisted [OF _ d] by simp
  qed
  have gi: "d \<in> fst ` set governed \<longleftrightarrow> governed_at gov who db d \<noteq> None"
  proof -
    have "d \<in> fst ` set governed \<longleftrightarrow> collected governed d \<noteq> None"
      by (auto simp: collected_def map_of_eq_None_iff)
    then show ?thesis using g by simp
  qed
  have parts: "wt_who W = who" "wt_acls W = ?acls" "wt_governed W = governed"
    "(\<exists>levels patterns. memberships_of E db n = Inr levels \<and> wt_levels W = levels
        \<and> (if instance_cap who > ReadRight \<or> governed \<noteq> [] then write_list E db n else Inr None) = Inr (wt_write_list W))
      \<or> (\<forall>role rl. who \<noteq> Account n role rl)" "(\<forall>n role rl. who \<noteq> Account n role rl) \<longrightarrow> wt_write_list W = None" for n
    using W who by (cases who; auto simp: write_rights_def and_then_Inr Let_def governed_def)+
  show "wt_who W = who" "collected (wt_acls W) d = acl_of db d" "collected (wt_governed W) d = governed_at gov who db d"
    "wt_is_governed W d \<longleftrightarrow> governed_at gov who db d \<noteq> None"
    using parts(1-3) acl_rows(1) [OF wf] g gi d by (simp_all add: wt_is_governed_def)
  show "who = Account n role rl \<Longrightarrow> collected (wt_levels W) d = level_at db d n"
    using parts(4) [of n] memberships_collected [OF wf caller_folded [OF wf]] who by auto
  show "who = Account n role rl \<Longrightarrow> instance_cap who > ReadRight \<or> wt_governed W \<noteq> []
       \<Longrightarrow> write_list E db n = Inr (wt_write_list W)"
    using parts(3) parts(4) [of n] by auto
  show "\<forall>n role rl. who \<noteq> Account n role rl \<Longrightarrow> wt_write_list W = None"
    using parts(5) by blast
qed

lemma wt_decided_eq:
  assumes wf: "auth_wf E db" and W: "write_rights E gov db s = Inr W" and who: "caller_of E db s = Inr who"
    and d: "normalize_domain d = Inr d'"
  shows "wt_decided W d = policy_right gov who db d'"
proof -
  note t = normalize_trim [OF d]
  have td: "trim d' = d'" using t by blast
  note S = snapshot_parts [OF wf W who td]
  have "(case (acl_of db d', who) of (Some _, Account _ _ _) \<Rightarrow> collected (wt_levels W) d' | _ \<Rightarrow> None)
      = (case (acl_of db d', who) of (Some _, Account n _ _) \<Rightarrow> level_at db d' n | _ \<Rightarrow> None)"
    using S(5) by (cases who; cases "acl_of db d'") auto
  then show ?thesis
    using t S(1-3)
    by (cases "governed_at gov who db d'"; cases who; cases "acl_of db d'")
       (auto simp: wt_decided_def policy_right_def invited_at_def Let_def)
qed

lemma wt_write_capped:
  "write_capped who r governed \<le> r \<and> (\<not> governed \<longrightarrow> write_capped who r governed \<le> instance_cap who)"
  by (auto simp: write_capped_def capped_def Let_def)

lemma write_capped_Machine: "write_capped Machine r governed = r"
  by (cases r) (auto simp: write_capped_def capped_def instance_cap_def right_order)

lemma write_capped_Read: "write_capped who ReadRight governed = ReadRight"
  by (cases who) (auto simp: write_capped_def capped_def instance_cap_def right_order split: role.splits)

lemma write_capped_low: "r > ReadRight \<Longrightarrow> write_capped who r governed \<le> ReadRight \<Longrightarrow> write_capped who r governed = ReadRight"
  using write_capped_Read [of who governed]
  by (auto simp: write_capped_def capped_def Let_def split: if_splits)

lemma above_read: "r > ReadRight \<longleftrightarrow> \<not> r < WriteRight"
  by (cases r) (simp_all add: right_order)

text \<open>The account's list in the snapshot, read whenever the account may write anywhere.\<close>

lemma wt_off_list_eq:
  assumes wf: "auth_wf E db" and W: "write_rights E gov db s = Inr W" and who: "caller_of E db s = Inr who"
    and d: "normalize_domain d = Inr d'"
    and writes: "write_capped who (policy_right gov who db d') (who \<noteq> Machine \<and> governed_at gov who db d' \<noteq> None) > ReadRight"
  shows "off_list_account E db who d =
    Inr (case who of Account n _ _ \<Rightarrow> if wt_off_list W d then Some n else None | _ \<Rightarrow> None)"
proof (cases who)
  case (Account n role rl)
  have td: "trim d' = d'" using normalize_trim [OF d] by blast
  note S = snapshot_parts [OF wf W who td]
  have "instance_cap who > ReadRight \<or> wt_governed W \<noteq> []"
  proof (cases "governed_at gov who db d'")
    case None
    then show ?thesis using writes wt_write_capped [of who "policy_right gov who db d'" False] by auto
  next
    case (Some g)
    then show ?thesis using S(3) by (auto simp: collected_def)
  qed
  then have "write_list E db n = Inr (wt_write_list W)" using S(6) Account by blast
  then show ?thesis
    using Account by (auto simp: off_list_account_def wt_off_list_def split: option.splits)
qed (simp_all add: off_list_account_def)

text \<open>
  C7: the snapshot a listing answers every domain from says exactly what the single questions
  say: the same write right and the same account shut out by its list, for every domain.
\<close>

theorem write_rights_agree:
  assumes wf: "auth_wf E db" and W: "write_rights E gov db s = Inr W" and d: "normalize_domain d = Inr d'"
  shows "write_right E gov db s d = Inr (wt_write_right W d)
    \<and> write_list_excludes E gov db s d = Inr (wt_write_list_excludes W d)"
proof -
  obtain who where who: "caller_of E db s = Inr who"
    using W by (auto simp: write_rights_def and_then_Inr)
  have td: "trim d = d'" "trim d' = d'" using normalize_trim [OF d] by auto
  note S = snapshot_parts [OF wf W who td(2)]
  define g where "g \<longleftrightarrow> who \<noteq> Machine \<and> governed_at gov who db d' \<noteq> None"
  let ?r = "policy_right gov who db d'"
  have gov: "write_capped who x (wt_is_governed W d) = write_capped who x g" for x
    using S(4) td by (cases "who = Machine") (simp_all add: wt_is_governed_def write_capped_Machine g_def)
  have other: "\<not> wt_off_list W d" if "\<forall>n role rl. who \<noteq> Account n role rl"
    using S(7) that by (simp add: wt_off_list_def)
  have off: "write_capped who ?r g > ReadRight \<Longrightarrow> off_list_account E db who d =
    Inr (case who of Account n _ _ \<Rightarrow> if wt_off_list W d then Some n else None | _ \<Rightarrow> None)"
    unfolding g_def by (rule wt_off_list_eq [OF wf W who d])
  have D: "decided_right E gov db s d = Inr (who, ?r, g)" unfolding g_def by (rule decided_right_eq [OF wf d who])
  have W: "wt_decided W d = ?r" "wt_who W = who" by (rule wt_decided_eq [OF wf W who d], rule S(1))
  have w1: "wt_write_right W d = write_capped who (if ?r > ReadRight \<and> wt_off_list W d then ReadRight else ?r) g"
    by (simp add: wt_write_right_def W gov Let_def)
  have w2: "wt_write_list_excludes W d = (if write_capped who ?r g < WriteRight then None
      else (case who of Account name _ _ \<Rightarrow> if wt_off_list W d then Some name else None | _ \<Rightarrow> None))"
    by (simp add: wt_write_list_excludes_def W gov Let_def)
  let ?c = "write_capped who ?r g"
  show ?thesis
  proof (cases "?c > ReadRight")
    case True
    moreover have "?c \<le> ?r" using wt_write_capped [of who ?r g] by blast
    ultimately have "?r > ReadRight" by (rule less_le_trans)
    then show ?thesis
      using True off other
      by (cases who) (auto simp: write_right_def write_list_excludes_def D w1 w2 Let_def
          write_capped_Read above_read)
  next
    case False
    then have "?c = ReadRight" if "?r > ReadRight"
      using write_capped_low [OF that, of who g] by simp
    then show ?thesis
      using False
      by (auto simp: write_right_def write_list_excludes_def D w1 w2 Let_def
          write_capped_Read above_read)
  qed
qed

definition bob_writes :: write_rights_snapshot where
  "bob_writes = (case write_rights example_env None two_user_db (User ''bob'' False) of
     Inr W \<Rightarrow> W
   | Inl _ \<Rightarrow> \<lparr>wt_who = Nobody, wt_acls = [], wt_levels = [], wt_write_list = None, wt_governed = []\<rparr>)"

theorem write_rights_agree_witness:
  "write_right example_env None two_user_db (User ''bob'' False) ''eng'' = Inr (wt_write_right bob_writes ''eng'')
     \<and> write_list_excludes example_env None two_user_db (User ''bob'' False) ''eng''
         = Inr (wt_write_list_excludes bob_writes ''eng'')"
proof (rule write_rights_agree [OF two_user_wf])
  show "write_rights example_env None two_user_db (User ''bob'' False) = Inr bob_writes" by code_simp
  show "normalize_domain ''eng'' = Inr ''eng''" by code_simp
qed

end
