(* ===== verification/PageCover.thy ===== *)
theory PageCover
  imports AccessRules
begin

text \<open>
  A Reflection page that carries text of another domain: \<open>readers_cover\<close> says yes only when
  everybody the page shows itself to may read the source. The reader side of a domain stands
  for the inputs of the policy one account at a time (\<open>side_reads\<close>), so what the loop over
  the accounts checks is what \<open>right\<close> and \<open>reflection_right\<close> later answer.
\<close>

section \<open>What the governor promises\<close>

text \<open>The readers it lists are the accounts it answers a reading level for.\<close>

definition governor_ok :: "governor \<Rightarrow> bool" where
  "governor_ok g \<longleftrightarrow>
     (\<forall>d rs n. gv_readers g d = Some rs \<longrightarrow>
        (n \<in> set rs \<longleftrightarrow> gv_knowledge g n d \<in> {GithubLevel LevelViewer, GithubLevel LevelEditor, GithubLevel LevelManager}))"

lemma github_reads:
  "k \<in> {GithubLevel LevelViewer, GithubLevel LevelEditor, GithubLevel LevelManager} \<longleftrightarrow> github_right k \<ge> ReadRight"
  by (cases k; cases "case k of GithubLevel l \<Rightarrow> l | Unlinked \<Rightarrow> LevelNone")
     (auto simp: github_right_def right_order split: member_level.splits)

section \<open>Inputs that let the same people read\<close>

text \<open>
  On a domain GitHub governs the policy reads the knowledge of an editor or viewer account on
  a private domain, and otherwise only whether the domain is closed.
\<close>

definition same_reading :: "role \<Rightarrow> bool \<Rightarrow> governed \<Rightarrow> governed \<Rightarrow> bool" where
  "same_reading role private a b \<longleftrightarrow> gd_closed a = gd_closed b
     \<and> (role \<in> {RoleViewer, RoleEditor} \<and> private \<and> \<not> gd_closed a \<longrightarrow>
          (github_right (gd_knowledge a) \<ge> ReadRight \<longleftrightarrow> github_right (gd_knowledge b) \<ge> ReadRight))"

lemma governed_reads:
  "same_reading role private a b \<Longrightarrow>
     decide_governed (Account n role rl) private a \<ge> ReadRight \<longleftrightarrow> decide_governed (Account n role rl) private b \<ge> ReadRight"
  by (cases role; cases "private"; cases "github_right (gd_knowledge a)"; cases "github_right (gd_knowledge b)")
     (auto simp: same_reading_def decide_governed_def Let_def right_order)

definition closed_input :: "governed option \<Rightarrow> bool" where
  "closed_input github = (case github of Some g \<Rightarrow> gd_closed g | None \<Rightarrow> False)"

text \<open>Who a page shows itself to: its readers, and the accounts a Reflection level was given.\<close>

lemma reflection_reads:
  "decide_reflection (Account n role rl) acl level m grant github off \<ge> ReadReflection \<longleftrightarrow>
     (if closed_input github then decide (Account n role rl) acl level github \<ge> WriteRight
      else decide (Account n role rl) acl level github \<ge> ReadRight
        \<or> explicit_reflection role rl acl level m github \<noteq> DefaultLevel
        \<or> (grant \<noteq> None \<and> grant \<noteq> Some DefaultLevel))"
proof -
  have m: "max x y \<noteq> DefaultLevel \<longleftrightarrow> x \<noteq> DefaultLevel \<or> y \<noteq> DefaultLevel" for x y
    by (cases x; cases y) (auto simp: max_def right_order)
  have g: "(case grant of Some l \<Rightarrow> l | None \<Rightarrow> DefaultLevel) \<noteq> DefaultLevel \<longleftrightarrow> grant \<noteq> None \<and> grant \<noteq> Some DefaultLevel"
    by (cases grant) auto
  define level' where "level' = max (explicit_reflection role rl acl level m github) (case grant of Some l \<Rightarrow> l | None \<Rightarrow> DefaultLevel)"
  define k where "k = decide (Account n role rl) acl level github"
  have "decide_reflection (Account n role rl) acl level m grant github off \<ge> ReadReflection \<longleftrightarrow>
     (if closed_input github then k \<ge> WriteRight else k \<ge> ReadRight \<or> level' \<noteq> DefaultLevel)"
    unfolding k_def level'_def decide_reflection_def closed_input_def Let_def
    by (cases "decide (Account n role rl) acl level github";
        cases "max (explicit_reflection role rl acl level m github) (case grant of Some l \<Rightarrow> l | None \<Rightarrow> DefaultLevel)";
        cases off)
       (auto simp: right_order max_def min_def split: option.splits)
  then show ?thesis by (simp add: k_def level'_def m g)
qed

lemma governed_reads_page:
  assumes "same_reading role (acl \<noteq> None) a b"
  shows "decide_reflection (Account n role rl) acl l1 m1 grant (Some a) off \<ge> ReadReflection
     \<longleftrightarrow> decide_reflection (Account n role rl) acl l2 m2 grant (Some b) off2 \<ge> ReadReflection"
proof -
  have c: "closed_input (Some a) = closed_input (Some b)" using assms by (simp add: same_reading_def closed_input_def)
  have "decide_governed (Account n role rl) private x \<ge> WriteRight \<longleftrightarrow> role = RoleAdmin" if "gd_closed x" for x "private"
    using that by (cases role) (auto simp: decide_governed_def right_order)
  moreover have "explicit_reflection role rl acl l1 m1 (Some a) = explicit_reflection role rl acl l2 m2 (Some b)"
    by (simp add: explicit_reflection_def)
  ultimately show ?thesis
    using governed_reads [OF assms] c by (simp add: reflection_reads decide_def closed_input_def)
qed

section \<open>The reader side of a domain\<close>

lemma knowledge_of_readers:
  assumes "governor_ok g" "gv_readers g d = Some rs"
  shows "github_right (gv_knowledge g n d) \<ge> ReadRight \<longleftrightarrow>
    github_right (if n \<in> set rs then GithubLevel LevelViewer else Unlinked) \<ge> ReadRight"
proof -
  have "n \<in> set rs \<longleftrightarrow> github_right (gv_knowledge g n d) \<ge> ReadRight"
    using assms github_reads [of "gv_knowledge g n d"] by (simp add: governor_ok_def)
  then show ?thesis by (simp add: github_right_def right_order)
qed

text \<open>
  For an ungoverned domain the side holds the very inputs \<open>right\<close> reads; for a governed one it
  holds inputs that let the same people read.
\<close>

definition side_stands_for ::
  "governor option \<Rightarrow> auth_db \<Rightarrow> string \<Rightarrow> reader_side \<Rightarrow> bool" where
  "side_stands_for gov db d side \<longleftrightarrow>
     (\<forall>n role rl. case (governed_at gov (Account n role rl) db d, side_inputs side n) of
        (None, level, m, github) \<Rightarrow>
          github = None \<and> (if acl_of db d = None then level = None \<and> m = DefaultLevel
                           else level = level_at db d n \<and> m = reflection_at db d n)
      | (Some a, level, m, github) \<Rightarrow> (\<exists>b. github = Some b \<and> same_reading role (acl_of db d \<noteq> None) a b))"

lemma reader_side_stands:
  assumes wf: "auth_wf E db" and d: "normalize_domain d = Inr d'" and ok: "\<And>g. gov = Some g \<Longrightarrow> governor_ok g"
    and side: "reader_side_of (governance_of gov) db d (acl_of db d' \<noteq> None) = Inr (Some side)"
  shows "side_stands_for gov db d' side"
proof -
  let ?G = "governance_of gov"
  have t: "trim d = d'" "trim d' = d'" using normalize_trim [OF d] by auto
  have gn: "gn_of ?G d = gn_of ?G d'" "gn_closes ?G d = gn_closes ?G d'" using gn_trim(1,2) [OF t] by simp_all
  show ?thesis
  proof (cases "gn_of ?G d'")
    case None
    then have gat: "governed_at gov who db d' = None" for who by (simp add: governed_at_def gn_input_def)
    show ?thesis
    proof (cases "acl_of db d'")
      case N: None
      then have "side = Members []" using side None gn by (simp add: reader_side_of_def)
      then show ?thesis using N by (simp add: side_stands_for_def gat side_inputs_def collected_def)
    next
      case (Some acl)
      then obtain ms where ms: "member_rows db d = Inr ms" "side = Members ms"
        using side None gn by (auto simp: reader_side_of_def and_then_Inr)
      have "side_inputs side n = (level_at db d' n, reflection_at db d' n, None)" for n
        using member_rows_collected [OF wf d ms(1), of n] ms(2)
        by (simp add: side_inputs_def level_at_def reflection_at_def split: option.splits)
      then show ?thesis using Some by (simp add: side_stands_for_def gat)
    qed
  next
    case (Some g)
    then have g: "gov = Some g" by (auto simp: gn_of_def governance_of_def split: if_splits option.splits)
    have gat: "governed_at gov who db d' = Some (github_input g who d' (acl_of db d' \<noteq> None) (gn_closes ?G d'))" for who
      using Some t by (simp add: governed_at_def gn_input_def)
    show ?thesis
    proof (cases "gn_closes ?G d'")
      case True
      then have "side = ClosedSide" using side Some gn by (simp add: reader_side_of_def)
      then show ?thesis
        using True by (simp add: side_stands_for_def gat side_inputs_def github_input_def same_reading_def)
    next
      case open_: False
      obtain rs where rs: "side = GovernedReaders rs" "acl_of db d' \<noteq> None \<Longrightarrow> gv_readers g d' = Some rs"
        using side Some gn open_ t by (auto simp: reader_side_of_def split: if_splits)
      have "same_reading role (acl_of db d' \<noteq> None) (github_input g (Account n role rl) d' (acl_of db d' \<noteq> None) False)
          \<lparr>gd_knowledge = (if n \<in> set rs then GithubLevel LevelViewer else Unlinked), gd_public = False, gd_closed = False\<rparr>"
        for n role rl
        using knowledge_of_readers [OF ok [OF g] rs(2)]
        by (cases role) (auto simp: same_reading_def github_input_def)
      then show ?thesis
        using rs(1) open_ by (simp add: side_stands_for_def gat side_inputs_def)
    qed
  qed
qed

lemma side_standsD:
  assumes "side_stands_for gov db d side" "side_inputs side n = (level, m, github)"
  shows "governed_at gov (Account n role rl) db d = None \<Longrightarrow>
      github = None \<and> level = (if acl_of db d = None then None else level_at db d n)
        \<and> m = (if acl_of db d = None then DefaultLevel else reflection_at db d n)"
    and "governed_at gov (Account n role rl) db d = Some a \<Longrightarrow>
      \<exists>b. github = Some b \<and> same_reading role (acl_of db d \<noteq> None) a b"
  using assms(1) [unfolded side_stands_for_def, rule_format, of n role rl] assms(2)
  by (simp_all split: if_splits)

lemma side_reads_source:
  assumes "side_stands_for gov db d side"
  shows "reads_source (acl_of db d) side u \<longleftrightarrow> policy_right gov (account_caller u) db d \<ge> ReadRight"
proof -
  obtain level m github where s: "side_inputs side (u_name u) = (level, m, github)" by (metis prod_cases3)
  note D = side_standsD [OF assms s, of "u_role u" "u_reflection u"]
  show ?thesis
  proof (cases "governed_at gov (account_caller u) db d")
    case None
    then show ?thesis
      using D(1) s by (auto simp: reads_source_def policy_right_def invited_at_def account_caller_def split: option.splits)
  next
    case (Some a)
    then obtain b where "github = Some b" "same_reading (u_role u) (acl_of db d \<noteq> None) a b"
      using D(2) by (auto simp: account_caller_def)
    then show ?thesis
      using Some s governed_reads by (auto simp: reads_source_def policy_right_def account_caller_def decide_def)
  qed
qed

text \<open>The inputs of a Reflection right: what the account is invited with, read off its row.\<close>

definition page_inputs ::
  "governor option \<Rightarrow> caller \<Rightarrow> auth_db \<Rightarrow> string \<Rightarrow> member_level option \<times> reflection_level" where
  "page_inputs gov who db d =
     (case (acl_of db d, who, governed_at gov who db d) of
        (Some _, Account n _ _, None) \<Rightarrow> (level_at db d n, reflection_at db d n)
      | _ \<Rightarrow> (None, DefaultLevel))"

lemma reflection_inputs_eq:
  assumes wf: "auth_wf E db" and d: "normalize_domain d = Inr d'"
    and n: "\<And>n role rl. who = Account n role rl \<Longrightarrow> normalize_account_name (ae_lower E) n = Inr n"
  shows "reflection_inputs E gov db who d =
    Inr (acl_of db d', fst (page_inputs gov who db d'), snd (page_inputs gov who db d'), governed_at gov who db d')"
proof -
  have t: "trim d = d'" "trim d' = d'" using normalize_trim [OF d] by auto
  have g: "gn_input (governance_of gov) who d p = gn_input (governance_of gov) who d' p" for p
    using gn_trim(3) [OF t] by simp
  have level: "level_of E db n d = Inr (level_at db d' n)" "member_reflection E db d n = Inr (reflection_at db d' n)"
    if "who = Account n role rl" for n role rl
    using level_of_eq [OF wf n [OF that], of d] member_reflection_eq [OF n [OF that] d] t by simp_all
  have "reflection_inputs E gov db who d =
      (if governed_at gov who db d' \<noteq> None then Inr (acl_of db d', None, DefaultLevel, governed_at gov who db d')
       else (case (acl_of db d', who) of
               (Some _, Account n _ _) \<Rightarrow> and_then (level_of E db n d) (\<lambda>level.
                   and_then (member_reflection E db d n) (\<lambda>r. Inr (acl_of db d', level, r, None)))
             | _ \<Rightarrow> Inr (acl_of db d', None, DefaultLevel, None)))"
    using d by (simp add: reflection_inputs_def domain_visibility_def Let_def g governed_at_def)
  then show ?thesis
    using level
    by (cases who; cases "acl_of db d'"; cases "governed_at gov who db d'") (auto simp: page_inputs_def)
qed

lemma side_reads_page:
  assumes "side_stands_for gov db d side"
  shows "reads_page (acl_of db d) side grants u \<longleftrightarrow>
    decide_reflection (account_caller u) (acl_of db d) (fst (page_inputs gov (account_caller u) db d))
      (snd (page_inputs gov (account_caller u) db d)) (collected grants (u_name u))
      (governed_at gov (account_caller u) db d) off \<ge> ReadReflection"
proof -
  obtain level m github where s: "side_inputs side (u_name u) = (level, m, github)" by (metis prod_cases3)
  note D = side_standsD [OF assms s, of "u_role u" "u_reflection u"]
  show ?thesis
  proof (cases "governed_at gov (account_caller u) db d")
    case None
    then have "github = None" "level = fst (page_inputs gov (account_caller u) db d)" "m = snd (page_inputs gov (account_caller u) db d)"
      using D(1) by (auto simp: page_inputs_def account_caller_def split: option.splits)
    then show ?thesis
      using None s by (simp add: reads_page_def account_caller_def reflection_reads)
  next
    case (Some a)
    then obtain b where "github = Some b" "same_reading (u_role u) (acl_of db d \<noteq> None) a b"
      using D(2) by (auto simp: account_caller_def)
    then show ?thesis
      using Some s governed_reads_page by (simp add: reads_page_def account_caller_def) blast
  qed
qed

lemma grants_collected:
  assumes wf: "auth_wf E db" and d: "normalize_domain d = Inr d'" and n: "normalize_account_name (ae_lower E) n = Inr n"
    and gs: "grants_on db d = Inr gs"
  shows "reflection_grant E db d n = Inr (collected gs n)"
proof -
  let ?level = "\<lambda>g. reflection_level_from_db (Some (rg_level g))"
  let ?on = "filter (\<lambda>g. rg_domain g = d') (db_reflection db)"
  let ?rows = "filter (\<lambda>g. ?level g \<noteq> DefaultLevel) ?on"
  have "keyed rg_account ?on"
    by (rule keyed_filter_by [OF auth_wf_parts(12) [OF wf]]) (auto simp: reflection_key_def)
  then have k: "keyed rg_account ?rows" by (rule keyed_filter_by) simp
  have "gs = map (\<lambda>g. (rg_account g, ?level g)) (filter (\<lambda>g. ?level g \<noteq> DefaultLevel) (sort_key rg_account ?on))"
    using gs d by (simp add: grants_on_def reflection_grants_def filter_map comp_def and_then_Inr)
  moreover have "keyed rg_account (filter (\<lambda>g. ?level g \<noteq> DefaultLevel) (sort_key rg_account ?on))"
    by (rule keyed_filter_by [where k = rg_account]) (use \<open>keyed rg_account ?on\<close> in simp_all)
  ultimately have c: "collected gs n = map_option ?level (find (\<lambda>g. rg_account g = n) ?rows)"
    using collected_rows [OF k, of "filter (\<lambda>g. ?level g \<noteq> DefaultLevel) (sort_key rg_account ?on)"]
    by (simp flip: keyed_def)
  have one: "find (\<lambda>g. rg_account g = n) ?on = find (\<lambda>g. rg_domain g = d' \<and> rg_account g = n) (db_reflection db)"
    by (rule find_of_filter)
  show ?thesis
  proof (cases "find (\<lambda>g. rg_domain g = d' \<and> rg_account g = n) (db_reflection db)")
    case None
    then have "\<forall>g\<in>set ?rows. rg_account g \<noteq> n" by (auto simp: find_None_iff_all)
    then have "find (\<lambda>g. rg_account g = n) ?rows = None" by (simp only: find_None_iff_all)
    then show ?thesis using None c by (simp add: reflection_grant_def d n reflection_level_from_db_def)
  next
    case (Some g)
    then have g: "g \<in> set ?on" "rg_account g = n" by (auto dest: find_SomeD)
    have "find (\<lambda>g. rg_account g = n) ?rows = (if ?level g = DefaultLevel then None else Some g)"
    proof (cases "?level g = DefaultLevel")
      case True
      have "\<forall>h\<in>set ?rows. rg_account h \<noteq> n"
        using keyed_eq [OF \<open>keyed rg_account ?on\<close> _ g(1)] g(2) True by auto
      then have "find (\<lambda>g. rg_account g = n) ?rows = None" by (simp only: find_None_iff_all)
      then show ?thesis using True by simp
    next
      case False
      then have "g \<in> set ?rows" using g(1) by simp
      then have "find (\<lambda>h. rg_account h = rg_account g) ?rows = Some g"
        using find_key [of rg_account ?rows g] k by (simp add: keyed_def)
      then show ?thesis using False g(2) by simp
    qed
    then show ?thesis using Some c by (cases "?level g") (simp_all add: reflection_grant_def d n)
  qed
qed

lemma nobody_reads: "policy_right gov Nobody db d \<ge> ReadRight \<longleftrightarrow> anonymous_reads (governance_of gov) d (acl_of db d \<noteq> None)"
  by (auto simp: policy_right_def governed_at_def gn_input_def anonymous_reads_def decide_def decide_governed_def
      github_input_def invited_at_def gn_closes_def right_order split: option.splits if_splits)

lemma admin_reads: "policy_right gov (Account n RoleAdmin rl) db d \<ge> ReadRight"
  by (auto simp: policy_right_def decide_def decide_governed_def right_order Let_def split: option.splits)

text \<open>What a yes of the cover loop says.\<close>

lemma cover_yes:
  assumes wf: "auth_wf E db" and ok: "\<And>g. gov = Some g \<Longrightarrow> governor_ok g"
    and p: "normalize_domain page = Inr p" and q: "normalize_domain source = Inr q"
    and cover: "cover gov db page source None = Inr True" and ne: "p \<noteq> q"
  obtains "anonymous_reads (governance_of gov) p (acl_of db p \<noteq> None) \<longrightarrow> anonymous_reads (governance_of gov) q (acl_of db q \<noteq> None)"
    "\<exists>grants. grants_on db page = Inr grants \<and> (\<forall>u\<in>set (list_users db). \<not> u_disabled u \<longrightarrow>
       decide_reflection (account_caller u) (acl_of db p) (fst (page_inputs gov (account_caller u) db p))
         (snd (page_inputs gov (account_caller u) db p)) (collected grants (u_name u))
         (governed_at gov (account_caller u) db p) False \<ge> ReadReflection \<longrightarrow>
       policy_right gov (account_caller u) db q \<ge> ReadRight)"
proof -
  let ?G = "governance_of gov"
  have t: "trim page = p" "trim p = p" "trim source = q" "trim q = q"
    using normalize_trim [OF p] normalize_trim [OF q] by auto
  have vis: "domain_visibility db page = Inr (acl_of db p)" "domain_visibility db source = Inr (acl_of db q)"
    using p q by (simp_all add: domain_visibility_def)
  have anon: "anonymous_reads ?G page b = anonymous_reads ?G p b" "anonymous_reads ?G source b = anonymous_reads ?G q b" for b
    using gn_trim(4) t by metis+
  have c: "\<not> (anonymous_reads ?G p (acl_of db p \<noteq> None) \<and> \<not> anonymous_reads ?G q (acl_of db q \<noteq> None))"
    "\<exists>ps qs grants. reader_side_of ?G db page (acl_of db p \<noteq> None) = Inr (Some ps)
       \<and> reader_side_of ?G db source (acl_of db q \<noteq> None) = Inr (Some qs) \<and> grants_on db page = Inr grants
       \<and> (\<forall>u\<in>set (list_users db). \<not> u_disabled u \<longrightarrow> reads_page (acl_of db p) ps grants u \<longrightarrow> reads_source (acl_of db q) qs u)"
    using cover ne t
    by (auto simp: cover_def vis anon Let_def and_then_Inr list_ex_iff split: if_splits option.splits) blast+
  then obtain ps qs grants where
    s: "reader_side_of ?G db page (acl_of db p \<noteq> None) = Inr (Some ps)"
      "reader_side_of ?G db source (acl_of db q \<noteq> None) = Inr (Some qs)" "grants_on db page = Inr grants"
    and all: "\<forall>u\<in>set (list_users db). \<not> u_disabled u \<longrightarrow> reads_page (acl_of db p) ps grants u \<longrightarrow> reads_source (acl_of db q) qs u"
    by blast
  note P = reader_side_stands [OF wf p ok s(1)] and Q = reader_side_stands [OF wf q ok s(2)]
  show thesis
    using that c(1) s(3) all side_reads_page [OF P, where off = False] side_reads_source [OF Q] by blast
qed

text \<open>
  C8: a page that may carry text of another domain shows it to nobody who may not read that
  domain: whoever the page shows itself to, anonymous visitors and collaborators of the page
  included, holds at least reading on the source. The one exception the hypothesis names is
  an agent of an admin account, which is clamped below its account after the check.
\<close>

theorem cover_confidential:
  assumes wf: "auth_wf E db" and ok: "\<And>g. gov = Some g \<Longrightarrow> governor_ok g"
    and p: "normalize_domain page = Inr p" and q: "normalize_domain source = Inr q" and ne: "p \<noteq> q"
    and cover: "readers_cover gov db page source = Inr True"
    and agent: "\<And>a u. s = Agent a \<Longrightarrow> user_of E db a = Inr (Some u) \<Longrightarrow> u_role u \<noteq> RoleAdmin"
    and reads: "reflection_right E gov db s page = Inr seen" "seen \<ge> ReadReflection"
    and source: "right_on E gov db s source = Inr r"
  shows "r \<ge> ReadRight"
proof -
  obtain who where who: "caller_of E db s = Inr who"
    using reads(1) by (auto simp: reflection_right_def and_then_Inr)
  have goal: "r \<ge> ReadRight \<longleftrightarrow> policy_right gov who db q \<ge> ReadRight"
    using right_on_read [OF wf q who, of gov] source by (metis sum.inject(2))
  have fo: "normalize_account_name (ae_lower E) n = Inr n" if "who = Account n role rl" for n role rl
    using caller_folded [OF wf] who that by simp
  obtain grant off where gr: "who \<noteq> Machine \<Longrightarrow> grant_of E db s who page = Inr grant"
    and seen: "who \<noteq> Machine \<Longrightarrow> seen = decide_reflection who (acl_of db p) (fst (page_inputs gov who db p))
         (snd (page_inputs gov who db p)) grant (governed_at gov who db p) off"
    using reads(1) who
    by (cases "who = Machine")
       (auto simp: reflection_right_def and_then_Inr reflection_inputs_eq [OF wf p fo])
  obtain grants where anon: "anonymous_reads (governance_of gov) p (acl_of db p \<noteq> None) \<longrightarrow>
        anonymous_reads (governance_of gov) q (acl_of db q \<noteq> None)"
    and gs: "grants_on db page = Inr grants"
    and all: "\<And>u. u \<in> set (list_users db) \<Longrightarrow> \<not> u_disabled u \<Longrightarrow>
       decide_reflection (account_caller u) (acl_of db p) (fst (page_inputs gov (account_caller u) db p))
         (snd (page_inputs gov (account_caller u) db p)) (collected grants (u_name u))
         (governed_at gov (account_caller u) db p) False \<ge> ReadReflection \<Longrightarrow>
       policy_right gov (account_caller u) db q \<ge> ReadRight"
    using cover_yes [OF wf ok p q cover [unfolded readers_cover_def] ne] by metis
  have "policy_right gov who db q \<ge> ReadRight"
  proof (cases who)
    case Machine
    then show ?thesis by (simp add: policy_right_def right_order)
  next
    case Nobody
    then have "policy_right gov Nobody db p \<ge> ReadRight"
      using seen reads(2) by (auto simp: decide_reflection_def policy_right_def page_inputs_def invited_at_def
          right_order split: if_splits option.splits)
    then show ?thesis using Nobody anon by (simp add: nobody_reads)
  next
    case (Account n role rl)
    then obtain u a where u: "user_of E db a = Inr (Some u)" "\<not> u_disabled u" "u_name u = n" "u_reflection u = rl"
      and sc: "s = User a True \<and> role = RoleAdmin \<or> s = User a False \<and> role = u_role u
          \<or> s = Agent a \<and> role = (case u_role u of RoleAdmin \<Rightarrow> RoleEditor | r \<Rightarrow> r)"
      using caller_cases who by metis
    show ?thesis
    proof (cases "role = RoleAdmin")
      case True
      then show ?thesis using Account admin_reads by simp
    next
      case False
      then have w: "who = account_caller u"
        using Account u sc agent [OF _ u(1)] by (auto simp: account_caller_def split: role.splits)
      have "grant = None \<or> grant = collected grants (u_name u)"
        using gr Account sc grants_collected [OF wf p fo gs] u(3)
        by (auto simp: grant_of_def split: scope.splits)
      then have "decide_reflection (account_caller u) (acl_of db p) (fst (page_inputs gov (account_caller u) db p))
         (snd (page_inputs gov (account_caller u) db p)) (collected grants (u_name u))
         (governed_at gov (account_caller u) db p) False \<ge> ReadReflection"
        using seen reads(2) Account w
        by (auto simp: account_caller_def reflection_reads split: if_splits)
      then show ?thesis using all user_of_listed(1) [OF wf u(1)] u(2) w by blast
    qed
  qed
  with goal show ?thesis by simp
qed

text \<open>A private page domain of the same owner, with the instance's admin invited as a viewer.\<close>

definition page_db :: auth_db where
  "page_db =
     (case set_domain_visibility example_env two_user_db ''pg'' True ''ann'' ''t4'' of
        Inr (db, _) \<Rightarrow> db | Inl _ \<Rightarrow> empty_db)"

definition invited_db :: auth_db where
  "invited_db =
     (case upsert_domain_member example_env page_db ''pg'' ''root'' LevelViewer None ''ann'' ''t5'' of
        Inr db \<Rightarrow> db | Inl _ \<Rightarrow> empty_db)"

lemma invited_wf: "auth_wf example_env invited_db"
proof -
  have "map_sum (\<lambda>e. e) fst (write_visibility example_env two_user_db ''pg'' True ''ann'' True ''t4'') = Inr page_db"
    by code_simp
  then obtain w where w: "write_visibility example_env two_user_db ''pg'' True ''ann'' True ''t4'' = Inr (page_db, w)"
    by (cases "write_visibility example_env two_user_db ''pg'' True ''ann'' True ''t4''") auto
  have "upsert_domain_member example_env page_db ''pg'' ''root'' LevelViewer None ''ann'' ''t5'' = Inr invited_db"
    by code_simp
  then show ?thesis by (rule upsert_wf [OF example_fold write_visibility_wf [OF two_user_wf w]])
qed

theorem cover_confidential_witness:
  "readers_cover None invited_db ''pg'' ''eng'' = Inr True \<and> OwnRight \<ge> ReadRight"
proof
  show c: "readers_cover None invited_db ''pg'' ''eng'' = Inr True" by code_simp
  have p: "normalize_domain ''pg'' = Inr ''pg''" and q: "normalize_domain ''eng'' = Inr ''eng''" by code_simp+
  have r: "reflection_right example_env None invited_db (User ''ann'' False) ''pg'' = Inr CurateReflection" by code_simp
  have o: "right_on example_env None invited_db (User ''ann'' False) ''eng'' = Inr OwnRight" by code_simp
  show "OwnRight \<ge> ReadRight"
    by (rule cover_confidential [OF invited_wf _ p q _ c _ r _ o]) (simp_all add: right_order)
qed

text \<open>
  The exception is needed, on the domains the open tier reads as an agent: the loop counts an
  admin account as a reader of every source, but its agent is clamped to an editor, reads the
  page as GitHub lets the account and may not read the source the page was allowed to quote.
\<close>

definition two_repos :: governor where
  "two_repos =
     \<lparr>gv_domains = [''pg'', ''eng''],
      gv_knowledge = (\<lambda>n d. if n = ''ann'' \<or> n = ''root'' \<and> d = ''pg'' then GithubLevel LevelViewer else GithubLevel LevelNone),
      gv_public = (\<lambda>_. False),
      gv_readers = (\<lambda>d. Some (if d = ''pg'' then [''ann'', ''root''] else [''ann''])),
      gv_closed = []\<rparr>"

lemma two_repos_ok: "governor_ok two_repos"
  by (auto simp: governor_ok_def two_repos_def)

lemma agent_of_admin_reads_covered_page:
  "readers_cover (Some two_repos) invited_db ''pg'' ''eng'' = Inr True
     \<and> reflection_right example_env (Some two_repos) invited_db (Agent ''root'') ''pg'' = Inr ReadReflection
     \<and> right_on example_env (Some two_repos) invited_db (Agent ''root'') ''eng'' = Inr NoRight"
  by (intro conjI; code_simp)

end
