(* ===== verification/Joins.thy ===== *)
theory Joins
  imports Maps
begin

text \<open>
  Working inside somebody else's draft: the registry of joins of \<open>identity/src/join.rs\<close>.
  The map of open joins is a \<open>HashMap\<close> (\<open>hm_ok\<close>), an \<open>Instant\<close> is a number of nanoseconds,
  and every operation takes the clock it reads as an argument; the key \<open>open\<close> mints is an
  argument too. The mutex is not modelled: one operation at a time.
\<close>

definition MAX_OPEN_JOINS :: nat where "MAX_OPEN_JOINS = 1024"

definition MAX_JOINS_PER_ACCOUNT :: nat where "MAX_JOINS_PER_ACCOUNT = 16"

definition IDLE_JOIN_LIMIT :: nat where "IDLE_JOIN_LIMIT = secs (30 * 60)"

datatype join_refusal = InstanceFull | AccountFull

datatype holder = Browser string | McpSession string | Process nat | Token string

definition ends_with_its_holder :: "holder \<Rightarrow> bool" where
  "ends_with_its_holder h = (case h of Token _ \<Rightarrow> False | _ \<Rightarrow> True)"

record join =
  jn_account :: string
  jn_holder :: holder
  jn_domain :: string
  jn_path :: string
  jn_owner :: string
  jn_expires :: "nat option"

text \<open>
  \<open>grant_deadline\<close> moves the window of a share-link to the clock of the process; the date
  parser answers the moment as signed nanoseconds of the wall clock.
\<close>

definition grant_deadline :: "(string \<Rightarrow> int option) \<Rightarrow> nat \<Rightarrow> int \<Rightarrow> string option \<Rightarrow> nat option" where
  "grant_deadline parse_rfc3339 now wall expires_at =
     (case expires_at of
        None \<Rightarrow> None
      | Some at \<Rightarrow>
          (case parse_rfc3339 at of
             None \<Rightarrow> Some now
           | Some at \<Rightarrow> Some (now + nat (at - wall))))"

definition later :: "nat option \<Rightarrow> nat option \<Rightarrow> nat option" where
  "later a b =
     (case (a, b) of
        (None, _) \<Rightarrow> None
      | (_, None) \<Rightarrow> None
      | (Some a, Some b) \<Rightarrow> Some (max a b))"

record held =
  hd_join :: join
  hd_last_used :: nat

type_synonym joins = "(string \<times> held) list"

definition still_runs :: "nat \<Rightarrow> held \<Rightarrow> bool" where
  "still_runs now h \<longleftrightarrow>
     now - hd_last_used h < IDLE_JOIN_LIMIT
     \<and> (case jn_expires (hd_join h) of None \<Rightarrow> True | Some at \<Rightarrow> now < at)"

definition retain :: "(held \<Rightarrow> bool) \<Rightarrow> joins \<Rightarrow> joins" where
  "retain keep open = filter (\<lambda>(_, h). keep h) open"

definition expire_locked :: "nat \<Rightarrow> joins \<Rightarrow> joins \<times> nat" where
  "expire_locked now open =
     (let kept = retain (still_runs now) open in (kept, length open - length kept))"

definition expire_idle :: "nat \<Rightarrow> joins \<Rightarrow> joins \<times> nat" where
  "expire_idle now open = expire_locked now open"

definition same_draft :: "join \<Rightarrow> held \<Rightarrow> bool" where
  "same_draft j h \<longleftrightarrow>
     jn_account (hd_join h) = jn_account j \<and> jn_holder (hd_join h) = jn_holder j
     \<and> jn_domain (hd_join h) = jn_domain j \<and> jn_owner (hd_join h) = jn_owner j
     \<and> jn_path (hd_join h) = jn_path j"

definition refreshed :: "nat \<Rightarrow> join \<Rightarrow> held \<Rightarrow> held" where
  "refreshed now j h =
     h\<lparr>hd_join := (hd_join h)\<lparr>jn_expires := later (jn_expires (hd_join h)) (jn_expires j)\<rparr>,
       hd_last_used := now\<rparr>"

definition open_join :: "string \<Rightarrow> nat \<Rightarrow> join \<Rightarrow> joins \<Rightarrow> joins \<times> (join_refusal + string)" where
  "open_join minted now j open =
     (let open = fst (expire_locked now open)
      in case find (\<lambda>(_, h). same_draft j h) open of
           Some (key, h) \<Rightarrow> (AList.update key (refreshed now j h) open, Inr key)
         | None \<Rightarrow>
             (let held = length (filter (\<lambda>(_, h). jn_account (hd_join h) = jn_account j) open)
              in if held \<ge> MAX_JOINS_PER_ACCOUNT then (open, Inl AccountFull)
                 else if length open \<ge> MAX_OPEN_JOINS then (open, Inl InstanceFull)
                 else (AList.update minted \<lparr>hd_join = j, hd_last_used = now\<rparr> open, Inr minted)))"

definition get_join :: "nat \<Rightarrow> string \<Rightarrow> string \<Rightarrow> joins \<Rightarrow> joins \<times> join option" where
  "get_join now key account open =
     (let open = fst (expire_locked now open)
      in case map_of open key of
           None \<Rightarrow> (open, None)
         | Some h \<Rightarrow>
             if jn_account (hd_join h) = account
             then (AList.update key (h\<lparr>hd_last_used := now\<rparr>) open, Some (hd_join h))
             else (open, None))"

text \<open>Both questions over every held join touch the ones they answer for.\<close>

definition touch :: "(held \<Rightarrow> bool) \<Rightarrow> nat \<Rightarrow> joins \<Rightarrow> joins" where
  "touch hit now open = map (\<lambda>(k, h). (k, if hit h then h\<lparr>hd_last_used := now\<rparr> else h)) open"

definition holds :: "nat \<Rightarrow> string \<Rightarrow> holder \<Rightarrow> string \<Rightarrow> string \<Rightarrow> string \<Rightarrow> joins \<Rightarrow> joins \<times> bool" where
  "holds now account holder domain owner path open =
     (let open = fst (expire_locked now open);
          hit = (\<lambda>h. jn_account (hd_join h) = account \<and> jn_holder (hd_join h) = holder
                   \<and> jn_domain (hd_join h) = domain \<and> jn_owner (hd_join h) = owner
                   \<and> jn_path (hd_join h) = path)
      in (touch hit now open, list_ex (\<lambda>(_, h). hit h) open))"

definition held_by :: "nat \<Rightarrow> string \<Rightarrow> holder \<Rightarrow> string \<Rightarrow> joins \<Rightarrow> joins \<times> join list" where
  "held_by now account holder domain open =
     (let open = fst (expire_locked now open);
          hit = (\<lambda>h. jn_account (hd_join h) = account \<and> jn_holder (hd_join h) = holder
                   \<and> jn_domain (hd_join h) = domain)
      in (touch hit now open, map (\<lambda>(_, h). hd_join h) (filter (\<lambda>(_, h). hit h) open)))"

definition close_join :: "string \<Rightarrow> string \<Rightarrow> holder \<Rightarrow> joins \<Rightarrow> joins \<times> bool" where
  "close_join key account holder open =
     (case map_of open key of
        Some h \<Rightarrow>
          if jn_account (hd_join h) = account \<and> jn_holder (hd_join h) = holder
          then (AList.delete key open, True) else (open, False)
      | None \<Rightarrow> (open, False))"

definition end_holder :: "holder \<Rightarrow> joins \<Rightarrow> joins \<times> nat" where
  "end_holder holder open =
     (if \<not> ends_with_its_holder holder then (open, 0)
      else (let kept = retain (\<lambda>h. jn_holder (hd_join h) \<noteq> holder) open
            in (kept, length open - length kept)))"

definition end_draft :: "string \<Rightarrow> string \<Rightarrow> string \<Rightarrow> joins \<Rightarrow> joins \<times> nat" where
  "end_draft domain owner path open =
     (let kept = retain (\<lambda>h. \<not> (jn_domain (hd_join h) = domain \<and> jn_owner (hd_join h) = owner
                                 \<and> jn_path (hd_join h) = path)) open
      in (kept, length open - length kept))"

definition end_domain :: "string \<Rightarrow> joins \<Rightarrow> joins \<times> nat" where
  "end_domain domain open =
     (let kept = retain (\<lambda>h. jn_domain (hd_join h) \<noteq> domain) open
      in (kept, length open - length kept))"

section \<open>What the registry promises\<close>

text \<open>
  A place is one holder of one account inside one draft. What the registry promises is a
  map from places to the moment of the last use and the end of the share-link; the keys are
  no part of it.
\<close>

type_synonym place = "string \<times> holder \<times> string \<times> string \<times> string"

definition place_of :: "join \<Rightarrow> place" where
  "place_of j = (jn_account j, jn_holder j, jn_domain j, jn_owner j, jn_path j)"

definition sits :: "joins \<Rightarrow> place \<Rightarrow> (nat \<times> nat option) option" where
  "sits open =
     map_of (map (\<lambda>(_, h). (place_of (hd_join h), (hd_last_used h, jn_expires (hd_join h)))) open)"

definition live :: "nat \<Rightarrow> nat \<times> nat option \<Rightarrow> bool" where
  "live now s \<longleftrightarrow> now - fst s < IDLE_JOIN_LIMIT \<and> (case snd s of None \<Rightarrow> True | Some at \<Rightarrow> now < at)"

definition joins_ok :: "joins \<Rightarrow> bool" where
  "joins_ok open \<longleftrightarrow>
     hm_ok open \<and> distinct (map (\<lambda>(_, h). place_of (hd_join h)) open)
     \<and> length open \<le> MAX_OPEN_JOINS
     \<and> (\<forall>a. length (filter (\<lambda>(_, h). jn_account (hd_join h) = a) open) \<le> MAX_JOINS_PER_ACCOUNT)"

lemma same_draft_place: "same_draft j h \<longleftrightarrow> place_of (hd_join h) = place_of j"
  by (auto simp: same_draft_def place_of_def)

lemma place_refreshed [simp]: "place_of (hd_join (refreshed now j h)) = place_of (hd_join h)"
  by (simp add: refreshed_def place_of_def)

lemma still_runs_live: "still_runs now h \<longleftrightarrow> live now (hd_last_used h, jn_expires (hd_join h))"
  by (simp add: still_runs_def live_def)

definition state_of :: "held \<Rightarrow> nat \<times> nat option" where
  "state_of h = (hd_last_used h, jn_expires (hd_join h))"

lemma sits_Some:
  assumes "joins_ok m"
  shows "sits m p = Some s \<longleftrightarrow> (\<exists>k h. (k, h) \<in> set m \<and> place_of (hd_join h) = p \<and> s = state_of h)"
proof -
  have "distinct (map fst (map (\<lambda>(_, h). (place_of (hd_join h), (hd_last_used h, jn_expires (hd_join h)))) m))"
    using assms by (simp add: joins_ok_def comp_def case_prod_unfold)
  from map_of_eq_Some_iff [OF this, of p s] show ?thesis
    unfolding sits_def by (auto simp: state_of_def image_iff split: prod.splits)
qed

lemma sitsI: "joins_ok m \<Longrightarrow> (k, h) \<in> set m \<Longrightarrow> place_of (hd_join h) = p \<Longrightarrow> sits m p = Some (state_of h)"
  using sits_Some by blast

lemma sits_None: "sits m p = None \<longleftrightarrow> (\<forall>k h. (k, h) \<in> set m \<longrightarrow> place_of (hd_join h) \<noteq> p)"
  unfolding sits_def map_of_eq_None_iff by (force simp: image_iff split: prod.splits)

lemma joins_ok_keys: "joins_ok m \<Longrightarrow> (k, h) \<in> set m \<Longrightarrow> (k, h') \<in> set m \<Longrightarrow> h = h'"
  by (simp add: joins_ok_def hm_ok_def) (metis eq_key_imp_eq_value)

lemma joins_ok_places:
  assumes "joins_ok m" "(k, h) \<in> set m" "(k', h') \<in> set m" "place_of (hd_join h) = place_of (hd_join h')"
  shows "k = k' \<and> h = h'"
proof -
  have "inj_on (\<lambda>(_, h). place_of (hd_join h)) (set m)"
    using assms(1) by (simp add: joins_ok_def distinct_map)
  from inj_onD [OF this _ assms(2,3)] assms(4) show ?thesis by simp
qed

text \<open>A filter keeps the invariant.\<close>

lemma length_filter_conj: "length (filter (\<lambda>x. P x \<and> Q x) xs) \<le> length (filter Q xs)"
  by (induction xs) auto

lemma joins_ok_filter: "joins_ok m \<Longrightarrow> joins_ok (filter P m)"
  unfolding joins_ok_def
  by (auto simp: hm_ok_filter distinct_map_filter intro: order_trans [OF length_filter_le] order_trans [OF length_filter_conj])

text \<open>
  The interface the four sweeps share: such an operation keeps the joins that do not go,
  and answers how many went.
\<close>

locale join_sweep =
  fixes sweep :: "joins \<Rightarrow> joins \<times> nat"
    and goes :: "place \<Rightarrow> nat \<times> nat option \<Rightarrow> bool"
  assumes kept: "fst (sweep m) = filter (\<lambda>(_, h). \<not> goes (place_of (hd_join h)) (state_of h)) m"
    and counted: "snd (sweep m) = length m - length (fst (sweep m))"
begin

lemma sweep_ok: "joins_ok m \<Longrightarrow> joins_ok (fst (sweep m))"
  unfolding kept by (rule joins_ok_filter)

lemma sweep_sits:
  assumes "joins_ok m"
  shows "sits (fst (sweep m)) p = (case sits m p of None \<Rightarrow> None | Some s \<Rightarrow> if goes p s then None else Some s)"
proof (cases "sits m p")
  case None
  then have "sits (fst (sweep m)) p = None" by (auto simp: sits_None kept)
  then show ?thesis by (simp add: None)
next
  case (Some s)
  then obtain k h where h: "(k, h) \<in> set m" "place_of (hd_join h) = p" "s = state_of h"
    by (auto simp: sits_Some assms)
  have one: "h' = h" if "(k', h') \<in> set m" "place_of (hd_join h') = p" for k' h'
    using joins_ok_places [OF assms that(1) h(1)] that(2) h(2) by simp
  show ?thesis
  proof (cases "goes p s")
    case True
    have "place_of (hd_join h') \<noteq> p" if "(k', h') \<in> set (fst (sweep m))" for k' h'
      using that one [of k' h'] True h(3) by (auto simp: kept)
    then have "sits (fst (sweep m)) p = None" by (simp add: sits_None)
    then show ?thesis by (simp add: Some True)
  next
    case False
    have "sits (fst (sweep m)) p = Some s"
      unfolding h(3) by (rule sitsI [OF sweep_ok [OF assms] _ h(2)]) (use False h in \<open>simp add: kept\<close>)
    then show ?thesis by (simp add: Some False)
  qed
qed

lemma sweep_count: "snd (sweep m) + length (fst (sweep m)) = length m"
  unfolding counted by (simp add: kept)

end

interpretation expiry: join_sweep "expire_locked now" "\<lambda>_ s. \<not> live now s" for now
  by unfold_locales (simp_all add: Let_def expire_locked_def retain_def still_runs_live state_of_def)

interpretation holder_end: join_sweep "end_holder h" "\<lambda>p _. ends_with_its_holder h \<and> fst (snd p) = h" for h
  by unfold_locales (auto simp: Let_def end_holder_def retain_def place_of_def intro!: filter_cong)

interpretation draft_end: join_sweep "end_draft d ow pa" "\<lambda>p _. snd (snd p) = (d, ow, pa)" for d ow pa
  by unfold_locales (auto simp: Let_def end_draft_def retain_def place_of_def intro!: filter_cong)

interpretation domain_end: join_sweep "end_domain d" "\<lambda>p _. fst (snd (snd p)) = d" for d
  by unfold_locales (auto simp: Let_def end_domain_def retain_def place_of_def intro!: filter_cong)

text \<open>What rewrites held joins in place: rejoining, a hit of \<open>get\<close>, and the two questions.\<close>

definition rewrite_held :: "(string \<Rightarrow> held \<Rightarrow> held) \<Rightarrow> joins \<Rightarrow> joins" where
  "rewrite_held f m = map (\<lambda>(k, h). (k, f k h)) m"

definition in_place :: "(string \<Rightarrow> held \<Rightarrow> held) \<Rightarrow> joins \<Rightarrow> bool" where
  "in_place f m \<longleftrightarrow> (\<forall>(k, h)\<in>set m. place_of (hd_join (f k h)) = place_of (hd_join h))"

lemma rewrite_mem: "(k, h') \<in> set (rewrite_held f m) \<longleftrightarrow> (\<exists>h. (k, h) \<in> set m \<and> h' = f k h)"
  by (auto simp: rewrite_held_def image_iff split: prod.splits)

lemma rewrite_ok:
  assumes "joins_ok m" "in_place f m"
  shows "joins_ok (rewrite_held f m)"
proof -
  have pl: "map (\<lambda>(_, h). place_of (hd_join h)) (rewrite_held f m) = map (\<lambda>(_, h). place_of (hd_join h)) m"
    unfolding rewrite_held_def map_map comp_def
    by (rule map_cong) (use assms(2) in \<open>auto simp: in_place_def\<close>)
  then have "map fst (map (\<lambda>(_, h). place_of (hd_join h)) (rewrite_held f m))
      = map fst (map (\<lambda>(_, h). place_of (hd_join h)) m)" by (rule arg_cong)
  then have ac: "map (\<lambda>x. jn_account (hd_join (snd x))) (rewrite_held f m) = map (\<lambda>x. jn_account (hd_join (snd x))) m"
    by (simp add: comp_def case_prod_unfold place_of_def)
  have count: "length (filter (\<lambda>(_, h). jn_account (hd_join h) = a) xs)
      = length (filter (\<lambda>b. b = a) (map (\<lambda>x. jn_account (hd_join (snd x))) xs))" for a and xs :: joins
    by (simp add: filter_map comp_def case_prod_unfold)
  have "map fst (rewrite_held f m) = map fst m" "length (rewrite_held f m) = length m"
    by (simp_all add: rewrite_held_def case_prod_unfold)
  then show ?thesis
    using assms(1) unfolding joins_ok_def hm_ok_def pl count ac by simp
qed

lemma rewrite_sits:
  assumes "joins_ok m" "in_place f m"
  shows "(k, h) \<in> set m \<Longrightarrow> place_of (hd_join h) = p \<Longrightarrow> sits (rewrite_held f m) p = Some (state_of (f k h))"
    and "sits m p = None \<Longrightarrow> sits (rewrite_held f m) p = None"
proof -
  have pl: "place_of (hd_join (f k h)) = place_of (hd_join h)" if "(k, h) \<in> set m" for k h
    using assms(2) that by (auto simp: in_place_def)
  show "sits (rewrite_held f m) p = Some (state_of (f k h))" if "(k, h) \<in> set m" "place_of (hd_join h) = p"
  proof (rule sitsI [OF rewrite_ok [OF assms]])
    show "(k, f k h) \<in> set (rewrite_held f m)"
      using that(1) by (auto simp: rewrite_mem)
  qed (simp add: pl that)
  show "sits (rewrite_held f m) p = None" if "sits m p = None"
    using that pl unfolding sits_None rewrite_mem by metis
qed

lemma update_present:
  assumes "hm_ok m" "map_of m key = Some h"
  shows "AList.update key v m = rewrite_held (\<lambda>k h. if k = key then v else h) m"
  using assms
proof (induction m)
  case (Cons x m)
  have id: "map (\<lambda>(k, h). (k, if k = key then v else h)) m = m" if "key \<notin> fst ` set m"
    using that by (induction m) auto
  show ?case
    using Cons id by (cases x) (auto simp: rewrite_held_def hm_ok_def)
qed simp

lemma touch_rewrite: "touch hit now m = rewrite_held (\<lambda>_ h. if hit h then h\<lparr>hd_last_used := now\<rparr> else h) m"
  by (simp add: touch_def rewrite_held_def)

definition live_at :: "nat \<Rightarrow> (place \<Rightarrow> (nat \<times> nat option) option) \<Rightarrow> place \<Rightarrow> (nat \<times> nat option) option" where
  "live_at now S p = (case S p of None \<Rightarrow> None | Some s \<Rightarrow> if live now s then Some s else None)"

lemma expired_ok: "joins_ok m \<Longrightarrow> joins_ok (fst (expire_locked now m))"
  by (rule expiry.sweep_ok)

lemma expired_sits: "joins_ok m \<Longrightarrow> sits (fst (expire_locked now m)) = live_at now (sits m)"
  by (rule ext) (auto simp: expiry.sweep_sits live_at_def split: option.splits)

lemma rewrite_one:
  assumes "joins_ok m" "map_of m key = Some h" "place_of (hd_join v) = place_of (hd_join h)"
  shows "joins_ok (AList.update key v m)"
    and "sits (AList.update key v m) = (sits m)(place_of (hd_join h) \<mapsto> state_of v)"
proof -
  let ?f = "\<lambda>k h. if k = key then v else h"
  have mem: "(key, h) \<in> set m" using assms(2) by (rule map_of_SomeD)
  have at: "h' = h" if "(key, h') \<in> set m" for h' by (rule joins_ok_keys [OF assms(1) that mem])
  have pl: "in_place ?f m" using at assms(3) by (auto simp: in_place_def)
  have upd: "AList.update key v m = rewrite_held ?f m"
    using update_present assms(1,2) by (simp add: joins_ok_def)
  show "joins_ok (AList.update key v m)" unfolding upd by (rule rewrite_ok [OF assms(1) pl])
  show "sits (AList.update key v m) = (sits m)(place_of (hd_join h) \<mapsto> state_of v)"
  proof
    fix p
    consider "p = place_of (hd_join h)" | "p \<noteq> place_of (hd_join h)" "sits m p = None"
      | s where "p \<noteq> place_of (hd_join h)" "sits m p = Some s" by fastforce
    then show "sits (AList.update key v m) p = ((sits m)(place_of (hd_join h) \<mapsto> state_of v)) p"
    proof cases
      case 1
      then show ?thesis using rewrite_sits(1) [OF assms(1) pl mem] by (simp add: upd)
    next
      case 2
      then show ?thesis using rewrite_sits(2) [OF assms(1) pl] by (simp add: upd)
    next
      case (3 s)
      then obtain k' h' where h': "(k', h') \<in> set m" "place_of (hd_join h') = p" "s = state_of h'"
        by (auto simp: sits_Some assms(1))
      with 3 at have "k' \<noteq> key" by auto
      then show ?thesis using rewrite_sits(1) [OF assms(1) pl h'(1,2)] 3 h'(3) by (simp add: upd)
    qed
  qed
qed

lemma touch_place:
  assumes "joins_ok m" "\<And>h. hit h \<longleftrightarrow> at (place_of (hd_join h))"
  shows "joins_ok (touch hit now m)"
    and "sits (touch hit now m) p
      = (case sits m p of None \<Rightarrow> None | Some (l, e) \<Rightarrow> Some (if at p then now else l, e))"
proof -
  let ?f = "\<lambda>_ h. if hit h then h\<lparr>hd_last_used := now\<rparr> else h"
  have pl: "in_place ?f m" by (auto simp: in_place_def)
  show "joins_ok (touch hit now m)" unfolding touch_rewrite by (rule rewrite_ok [OF assms(1) pl])
  show "sits (touch hit now m) p
      = (case sits m p of None \<Rightarrow> None | Some (l, e) \<Rightarrow> Some (if at p then now else l, e))"
  proof (cases "sits m p")
    case None
    then show ?thesis unfolding touch_rewrite by (simp add: rewrite_sits(2) [OF assms(1) pl])
  next
    case (Some s)
    then obtain k h where h: "(k, h) \<in> set m" "place_of (hd_join h) = p" "s = state_of h"
      by (auto simp: sits_Some assms(1))
    show ?thesis
      unfolding touch_rewrite rewrite_sits(1) [OF assms(1) pl h(1,2)] Some
      using h assms(2) by (auto simp: state_of_def)
  qed
qed

lemma inserted_join:
  assumes "joins_ok m" "key \<notin> fst ` set m" "sits m (place_of j) = None"
    and "length (filter (\<lambda>(_, h). jn_account (hd_join h) = jn_account j) m) < MAX_JOINS_PER_ACCOUNT"
    and "length m < MAX_OPEN_JOINS"
  shows "joins_ok (AList.update key \<lparr>hd_join = j, hd_last_used = now\<rparr> m)"
    and "sits (AList.update key \<lparr>hd_join = j, hd_last_used = now\<rparr> m)
      = (sits m)(place_of j \<mapsto> (now, jn_expires j))"
proof -
  let ?v = "\<lparr>hd_join = j, hd_last_used = now\<rparr>"
  have upd: "AList.update key ?v m = m @ [(key, ?v)]"
    using assms(2) by (induction m) auto
  have new: "place_of j \<notin> set (map (\<lambda>(_, h). place_of (hd_join h)) m)"
    using assms(3) unfolding sits_None by fastforce
  show ok: "joins_ok (AList.update key ?v m)"
    using assms new unfolding upd joins_ok_def hm_ok_def by (auto simp: Suc_le_eq)
  show "sits (AList.update key ?v m) = (sits m)(place_of j \<mapsto> (now, jn_expires j))"
    using assms(3) unfolding upd sits_def by (auto simp: map_add_def split: option.splits)
qed

lemma open_join_found:
  assumes "joins_ok m" "find (\<lambda>(_, h). same_draft j h) m = Some (key, h)"
  shows "map_of m key = Some h" "place_of (hd_join h) = place_of j"
proof -
  have "(key, h) \<in> set m" "same_draft j h" using assms(2) by (auto simp: find_Some_iff intro: nth_mem) (metis nth_mem)
  then show "map_of m key = Some h" "place_of (hd_join h) = place_of j"
    using assms(1) by (auto simp: joins_ok_def hm_ok_def same_draft_place)
qed

lemma open_join_absent: "find (\<lambda>(_, h). same_draft j h) m = None \<longleftrightarrow> sits m (place_of j) = None"
  by (auto simp: find_None_iff sits_None same_draft_place)

text \<open>Rejoining, and joining anew, as the map of places sees them.\<close>

lemma open_join_spec:
  assumes ok: "joins_ok m" and fresh: "minted \<notin> fst ` set m"
    and S_def: "S = live_at now (sits m)" and m'_def: "m' = fst (open_join minted now j m)"
  shows "joins_ok m'"
    and "snd (open_join minted now j m) = Inr key \<Longrightarrow>
      sits m' = S(place_of j \<mapsto> (now, case S (place_of j) of None \<Rightarrow> jn_expires j | Some (_, e) \<Rightarrow> later e (jn_expires j)))"
    and "snd (open_join minted now j m) = Inl refusal \<Longrightarrow> sits m' = S \<and> S (place_of j) = None"
proof -
  let ?e = "fst (expire_locked now m)"
  have e: "joins_ok ?e" and S: "sits ?e = S" using ok by (simp_all add: expired_ok expired_sits S_def)
  have f: "minted \<notin> fst ` set ?e" using fresh by (auto simp: expiry.kept)
  note inserted = inserted_join [OF e f]
  have "joins_ok m' \<and> (\<forall>key. snd (open_join minted now j m) = Inr key \<longrightarrow>
      sits m' = S(place_of j \<mapsto> (now, case S (place_of j) of None \<Rightarrow> jn_expires j | Some (_, e) \<Rightarrow> later e (jn_expires j))))
    \<and> (\<forall>r. snd (open_join minted now j m) = Inl r \<longrightarrow> sits m' = S \<and> S (place_of j) = None)"
  proof (cases "find (\<lambda>(_, h). same_draft j h) ?e")
    case (Some kh)
    obtain key h where kh: "kh = (key, h)" by (cases kh)
    note at = open_join_found [OF e Some [unfolded kh]]
    have "(key, h) \<in> set ?e" using at(1) by (rule map_of_SomeD)
    from sitsI [OF e this at(2)] have s: "S (place_of j) = Some (state_of h)" by (simp add: S)
    have o: "open_join minted now j m = (AList.update key (refreshed now j h) ?e, Inr key)"
      by (simp add: open_join_def Let_def Some kh)
    show ?thesis
      using rewrite_one [OF e at(1), of "refreshed now j h"] at(2) s
      unfolding m'_def o S by (simp add: state_of_def refreshed_def place_of_def)
  next
    case None
    then have s: "S (place_of j) = None" using open_join_absent S by metis
    with S have n: "sits ?e (place_of j) = None" by simp
    show ?thesis
      using inserted [OF n] e s unfolding m'_def
      by (auto simp: open_join_def Let_def None S not_le)
  qed
  then show "joins_ok m'"
    "snd (open_join minted now j m) = Inr key \<Longrightarrow>
      sits m' = S(place_of j \<mapsto> (now, case S (place_of j) of None \<Rightarrow> jn_expires j | Some (_, e) \<Rightarrow> later e (jn_expires j)))"
    "snd (open_join minted now j m) = Inl refusal \<Longrightarrow> sits m' = S \<and> S (place_of j) = None"
    by blast+
qed

section \<open>Histories of the registry\<close>

datatype join_op =
    OpenJoin string join
  | GetJoin string string
  | Holds string holder string string string
  | HeldBy string holder string
  | CloseJoin string string holder
  | EndHolder holder
  | EndDraft string string string
  | EndDomain string
  | ExpireIdle

fun join_step :: "nat \<Rightarrow> join_op \<Rightarrow> joins \<Rightarrow> joins" where
  "join_step now (OpenJoin key j) m = fst (open_join key now j m)"
| "join_step now (GetJoin key account) m = fst (get_join now key account m)"
| "join_step now (Holds account h domain owner path) m = fst (holds now account h domain owner path m)"
| "join_step now (HeldBy account h domain) m = fst (held_by now account h domain m)"
| "join_step now (CloseJoin key account h) m = fst (close_join key account h m)"
| "join_step now (EndHolder h) m = fst (end_holder h m)"
| "join_step now (EndDraft domain owner path) m = fst (end_draft domain owner path m)"
| "join_step now (EndDomain domain) m = fst (end_domain domain m)"
| "join_step now ExpireIdle m = fst (expire_idle now m)"

fun join_run :: "joins \<Rightarrow> (nat \<times> join_op) list \<Rightarrow> joins" where
  "join_run m [] = m"
| "join_run m ((now, op) # ops) = join_run (join_step now op m) ops"

definition fresh_op :: "joins \<Rightarrow> join_op \<Rightarrow> bool" where
  "fresh_op m op = (case op of OpenJoin key _ \<Rightarrow> key \<notin> fst ` set m | _ \<Rightarrow> True)"

text \<open>Every key minted is a new one, as 32 random bytes are.\<close>

fun keys_fresh :: "joins \<Rightarrow> (nat \<times> join_op) list \<Rightarrow> bool" where
  "keys_fresh m [] \<longleftrightarrow> True"
| "keys_fresh m ((now, op) # ops) \<longleftrightarrow> fresh_op m op \<and> keys_fresh (join_step now op m) ops"

text \<open>The operations that use a join, and the ones that end it.\<close>

definition uses :: "nat \<Rightarrow> join_op \<Rightarrow> joins \<Rightarrow> place \<Rightarrow> bool" where
  "uses now op m p =
     (case op of
        OpenJoin _ j \<Rightarrow> place_of j = p
      | GetJoin key account \<Rightarrow>
          (case map_of m key of Some h \<Rightarrow> place_of (hd_join h) = p \<and> fst p = account | None \<Rightarrow> False)
      | Holds account h domain owner path \<Rightarrow> p = (account, h, domain, owner, path)
      | HeldBy account h domain \<Rightarrow> fst p = account \<and> fst (snd p) = h \<and> fst (snd (snd p)) = domain
      | _ \<Rightarrow> False)"

definition ends :: "join_op \<Rightarrow> joins \<Rightarrow> place \<Rightarrow> bool" where
  "ends op m p =
     (case op of
        CloseJoin key account h \<Rightarrow>
          (case map_of m key of
             Some v \<Rightarrow> place_of (hd_join v) = p \<and> fst p = account \<and> fst (snd p) = h | None \<Rightarrow> False)
      | EndHolder h \<Rightarrow> ends_with_its_holder h \<and> fst (snd p) = h
      | EndDraft domain owner path \<Rightarrow> snd (snd p) = (domain, owner, path)
      | EndDomain domain \<Rightarrow> fst (snd (snd p)) = domain
      | _ \<Rightarrow> False)"

definition expires_here :: "join_op \<Rightarrow> bool" where
  "expires_here op =
     (case op of CloseJoin _ _ _ \<Rightarrow> False | EndHolder _ \<Rightarrow> False | EndDraft _ _ _ \<Rightarrow> False | EndDomain _ \<Rightarrow> False
      | _ \<Rightarrow> True)"

lemma get_spec:
  assumes "joins_ok m"
  shows "joins_ok (fst (get_join now key account m))"
    and "sits (fst (get_join now key account m)) p =
      (case live_at now (sits m) p of
         None \<Rightarrow> None
       | Some (l, e) \<Rightarrow> Some (if uses now (GetJoin key account) (fst (expire_locked now m)) p then now else l, e))"
proof -
  let ?e = "fst (expire_locked now m)"
  have e: "joins_ok ?e" and S: "sits ?e = live_at now (sits m)" using assms by (simp_all add: expired_ok expired_sits)
  have "joins_ok (fst (get_join now key account m)) \<and>
    sits (fst (get_join now key account m)) p =
      (case sits ?e p of None \<Rightarrow> None
       | Some (l, e) \<Rightarrow> Some (if uses now (GetJoin key account) ?e p then now else l, e))"
  proof (cases "map_of ?e key")
    case None
    then show ?thesis using e by (auto simp: get_join_def Let_def uses_def split: option.splits)
  next
    case (Some h)
    have a: "jn_account (hd_join h) = fst (place_of (hd_join h))" by (simp add: place_of_def)
    have s: "sits ?e (place_of (hd_join h)) = Some (state_of h)"
      by (rule sitsI [OF e map_of_SomeD [OF Some]]) simp
    show ?thesis
      using rewrite_one [OF e Some, of "h\<lparr>hd_last_used := now\<rparr>"] e Some s
      by (auto simp: get_join_def Let_def uses_def state_of_def a split: option.splits)
  qed
  then show "joins_ok (fst (get_join now key account m))"
    "sits (fst (get_join now key account m)) p =
      (case live_at now (sits m) p of None \<Rightarrow> None
       | Some (l, e) \<Rightarrow> Some (if uses now (GetJoin key account) ?e p then now else l, e))"
    by (simp_all add: S)
qed

lemma uses_expired:
  assumes "joins_ok m" "uses now op (fst (expire_locked now m)) p"
  shows "uses now op m p"
proof (cases op)
  case (GetJoin key account)
  have "map_of m key = Some h" if "map_of (fst (expire_locked now m)) key = Some h" for h
    using map_of_SomeD [OF that] assms(1) by (simp add: joins_ok_def hm_ok_def expiry.kept)
  then show ?thesis using assms(2) GetJoin by (auto simp: uses_def split: option.splits)
qed (use assms(2) in \<open>auto simp: uses_def\<close>)

lemma question_spec:
  assumes "joins_ok m" "\<And>h. hit h \<longleftrightarrow> at (place_of (hd_join h))"
    and m'_def: "m' = touch hit now (fst (expire_locked now m))"
  shows "joins_ok m'"
    and "sits m' p = (case live_at now (sits m) p of None \<Rightarrow> None | Some (l, e) \<Rightarrow> Some (if at p then now else l, e))"
  unfolding m'_def using touch_place [OF expired_ok [OF assms(1)], of hit at now] assms(2)
  by (simp_all add: expired_sits assms(1))

lemma holds_spec:
  assumes "joins_ok m"
    and q_def: "q = (account, h, domain, owner, path)"
  shows "joins_ok (fst (holds now account h domain owner path m))"
    and "sits (fst (holds now account h domain owner path m)) p =
      (case live_at now (sits m) p of None \<Rightarrow> None | Some (l, e) \<Rightarrow> Some (if p = q then now else l, e))"
    and "snd (holds now account h domain owner path m) \<longleftrightarrow> live_at now (sits m) q \<noteq> None"
proof -
  let ?hit = "\<lambda>v. jn_account (hd_join v) = account \<and> jn_holder (hd_join v) = h
    \<and> jn_domain (hd_join v) = domain \<and> jn_owner (hd_join v) = owner \<and> jn_path (hd_join v) = path"
  have hit: "?hit v \<longleftrightarrow> place_of (hd_join v) = q" for v by (simp add: place_of_def q_def)
  note q = question_spec [OF assms(1), of ?hit "\<lambda>p. p = q", OF hit HOL.refl]
  show "joins_ok (fst (holds now account h domain owner path m))"
    "sits (fst (holds now account h domain owner path m)) p =
      (case live_at now (sits m) p of None \<Rightarrow> None | Some (l, e) \<Rightarrow> Some (if p = q then now else l, e))"
    using q by (simp_all add: holds_def Let_def)
  have "(\<exists>k v. (k, v) \<in> set (fst (expire_locked now m)) \<and> place_of (hd_join v) = q) \<longleftrightarrow> live_at now (sits m) q \<noteq> None"
    using sits_None [of "fst (expire_locked now m)" q] by (simp add: expired_sits assms(1))
  then show "snd (holds now account h domain owner path m) \<longleftrightarrow> live_at now (sits m) q \<noteq> None"
    unfolding hit [symmetric] by (auto simp: holds_def Let_def list_ex_iff)
qed

lemma held_by_spec:
  assumes "joins_ok m"
  shows "joins_ok (fst (held_by now account h domain m))"
    and "sits (fst (held_by now account h domain m)) p =
      (case live_at now (sits m) p of None \<Rightarrow> None
       | Some (l, e) \<Rightarrow> Some (if uses now (HeldBy account h domain) m p then now else l, e))"
proof -
  let ?hit = "\<lambda>v. jn_account (hd_join v) = account \<and> jn_holder (hd_join v) = h \<and> jn_domain (hd_join v) = domain"
  have hit: "?hit v \<longleftrightarrow> uses now (HeldBy account h domain) m (place_of (hd_join v))" for v
    by (simp add: place_of_def uses_def)
  note q = question_spec [OF assms(1), of ?hit "uses now (HeldBy account h domain) m", OF hit HOL.refl]
  show "joins_ok (fst (held_by now account h domain m))"
    "sits (fst (held_by now account h domain m)) p =
      (case live_at now (sits m) p of None \<Rightarrow> None
       | Some (l, e) \<Rightarrow> Some (if uses now (HeldBy account h domain) m p then now else l, e))"
    using q by (simp_all add: held_by_def Let_def)
qed

text \<open>What is filtered out of a map with distinct keys by deleting one key.\<close>

lemma close_spec:
  assumes "joins_ok m"
  shows "joins_ok (fst (close_join key account h m))"
    and "sits (fst (close_join key account h m)) p = (if ends (CloseJoin key account h) m p then None else sits m p)"
proof -
  let ?m = "AList.delete key m"
  have del: "?m = filter (\<lambda>(k, _). k \<noteq> key) m" by (auto simp: AList.delete_eq intro!: filter_cong)
  then have ok: "joins_ok ?m" using joins_ok_filter [OF assms] by simp
  have gone: "sits ?m p = (if place_of (hd_join v) = p then None else sits m p)" if v: "map_of m key = Some v" for v
  proof -
    note at = joins_ok_keys [OF assms map_of_SomeD [OF v]]
    note one = joins_ok_places [OF assms _ map_of_SomeD [OF v]]
    show ?thesis
    proof (cases "place_of (hd_join v) = p")
      case True
      then have "sits ?m p = None" unfolding sits_None del using one by fastforce
      with True show ?thesis by simp
    next
      case False
      have "sits ?m p = Some s \<longleftrightarrow> sits m p = Some s" for s
        unfolding sits_Some [OF ok] sits_Some [OF assms] unfolding del using at False by auto
      with False show ?thesis by (cases "sits m p"; cases "sits ?m p") auto
    qed
  qed
  show "joins_ok (fst (close_join key account h m))"
    using ok assms by (simp add: close_join_def split: option.splits)
  show "sits (fst (close_join key account h m)) p = (if ends (CloseJoin key account h) m p then None else sits m p)"
    using gone by (auto simp: close_join_def ends_def place_of_def split: option.splits)
qed

text \<open>One operation, seen from one place: what can be there after it, and what must be.\<close>

lemma step_ok:
  assumes "joins_ok m" "fresh_op m op"
  shows "joins_ok (join_step now op m)"
  using assms
  by (cases op) (simp_all add: fresh_op_def open_join_spec(1) get_spec(1) holds_spec(1) held_by_spec(1) close_spec(1)
      holder_end.sweep_ok draft_end.sweep_ok domain_end.sweep_ok expired_ok expire_idle_def)

definition opens :: "join_op \<Rightarrow> place \<Rightarrow> nat option \<Rightarrow> bool" where
  "opens op p e = (case op of OpenJoin _ j \<Rightarrow> place_of j = p \<and> jn_expires j = e | _ \<Rightarrow> False)"

lemma later_cases: "later a b = a \<or> later a b = b"
  by (auto simp: later_def max_def split: option.splits)

lemma live_at_Some: "live_at now S p = Some s \<longleftrightarrow> S p = Some s \<and> live now s"
  by (auto simp: live_at_def split: option.splits)

lemma step_back:
  assumes m: "joins_ok m" "fresh_op m op" and s: "sits (join_step now op m) p = Some (l, e)"
  shows "uses now op m p \<and> l = now \<or> (\<exists>e0. sits m p = Some (l, e0))"
    and "opens op p e \<or> (\<exists>l0. sits m p = Some (l0, e))"
proof -
  have "(uses now op m p \<and> l = now \<or> (\<exists>e0. sits m p = Some (l, e0))) \<and> (opens op p e \<or> (\<exists>l0. sits m p = Some (l0, e)))"
  proof (cases op)
    case (OpenJoin key j)
    let ?S = "live_at now (sits m)"
    note spec = open_join_spec(2,3) [OF m(1) _ HOL.refl HOL.refl, of key now j]
    have f: "key \<notin> fst ` set m" using m(2) OpenJoin by (simp add: fresh_op_def)
    show ?thesis
    proof (cases "snd (open_join key now j m)")
      case (Inl r)
      then show ?thesis using spec(2) [OF f Inl] s OpenJoin by (auto simp: live_at_Some)
    next
      case (Inr k)
      show ?thesis
        using spec(1) [OF f Inr] s OpenJoin later_cases
        by (auto simp: live_at_Some uses_def opens_def split: if_splits option.splits) metis+
    qed
  next
    case (GetJoin key account)
    then show ?thesis
      using s uses_expired [OF m(1), of now op p] by (auto simp: get_spec(2) m(1) live_at_Some split: option.splits if_splits)
  next
    case (Holds account h domain owner path)
    then show ?thesis
      using s by (auto simp: holds_spec(2) m(1) live_at_Some uses_def split: option.splits if_splits)
  next
    case (HeldBy account h domain)
    then show ?thesis
      using s by (auto simp: held_by_spec(2) m(1) live_at_Some split: option.splits if_splits)
  next
    case (CloseJoin key account h)
    then show ?thesis using s by (auto simp: close_spec(2) m(1) split: if_splits)
  qed (use s m(1) in \<open>auto simp: holder_end.sweep_sits draft_end.sweep_sits domain_end.sweep_sits
      expired_sits expire_idle_def live_at_Some split: option.splits if_splits\<close>)
  then show "uses now op m p \<and> l = now \<or> (\<exists>e0. sits m p = Some (l, e0))"
    "opens op p e \<or> (\<exists>l0. sits m p = Some (l0, e))" by blast+
qed

definition outlasts :: "nat option \<Rightarrow> nat option \<Rightarrow> bool" where
  "outlasts e e' \<longleftrightarrow> (case (e', e) of (None, _) \<Rightarrow> True | (Some _, None) \<Rightarrow> False | (Some b, Some a) \<Rightarrow> a \<le> b)"

lemma outlasts_later [simp]: "outlasts e e" "outlasts e (later e x)"
  by (auto simp: outlasts_def later_def split: option.splits)

lemma outlasts_trans: "outlasts a b \<Longrightarrow> outlasts b c \<Longrightarrow> outlasts a c"
  by (auto simp: outlasts_def split: option.splits)

lemma step_forth:
  assumes m: "joins_ok m" "fresh_op m op" and s: "sits m p = Some (l, e)" and lv: "live now (l, e)" and n: "\<not> ends op m p"
  shows "\<exists>l' e'. sits (join_step now op m) p = Some (l', e') \<and> (l' = l \<or> l' = now) \<and> outlasts e e'"
proof -
  have S: "live_at now (sits m) p = Some (l, e)" using s lv by (simp add: live_at_Some)
  show ?thesis
  proof (cases op)
    case (OpenJoin key j)
    have f: "key \<notin> fst ` set m" using m(2) OpenJoin by (simp add: fresh_op_def)
    note spec = open_join_spec(2,3) [OF m(1) f HOL.refl HOL.refl, of now j]
    show ?thesis
      using spec S OpenJoin by (cases "snd (open_join key now j m)") auto
  qed (use s S m(1) n lv in \<open>auto simp: get_spec(2) holds_spec(2) held_by_spec(2) close_spec(2) holder_end.sweep_sits
      draft_end.sweep_sits domain_end.sweep_sits expired_sits expire_idle_def ends_def\<close>)
qed

lemma run_ok: "joins_ok m \<Longrightarrow> keys_fresh m ops \<Longrightarrow> joins_ok (join_run m ops)"
  by (induction m ops rule: join_run.induct) (simp_all add: step_ok)

lemma no_joins_ok [simp]: "joins_ok []"
  by (simp add: joins_ok_def hm_ok_def MAX_OPEN_JOINS_def MAX_JOINS_PER_ACCOUNT_def)

text \<open>A use of a place, at a moment of a history.\<close>

fun used_at :: "nat \<Rightarrow> place \<Rightarrow> joins \<Rightarrow> (nat \<times> join_op) list \<Rightarrow> bool" where
  "used_at l p m [] \<longleftrightarrow> False"
| "used_at l p m ((now, op) # ops) \<longleftrightarrow> uses now op m p \<and> now = l \<or> used_at l p (join_step now op m) ops"

lemma run_back:
  assumes "joins_ok m" "keys_fresh m ops" "sits (join_run m ops) p = Some (l, e)"
  shows "used_at l p m ops \<or> (\<exists>e0. sits m p = Some (l, e0))"
    and "(\<exists>(t, op)\<in>set ops. opens op p e) \<or> (\<exists>l0. sits m p = Some (l0, e))"
  using assms
proof (induction m ops rule: join_run.induct)
  case (2 m now op ops)
  {
    case 1
    then have f: "fresh_op m op" by simp
    show ?case
      using "2.IH"(1) [OF step_ok [OF 1(1) f]] 1 step_back(1) [OF 1(1) f] by fastforce
  next
    case 2
    then have f: "fresh_op m op" by simp
    show ?case
      using "2.IH"(2) [OF step_ok [OF 2(1) f]] 2 step_back(2) [OF 2(1) f] by fastforce
  }
qed simp_all

text \<open>
  The registry stays inside its bounds through every history: at most
  \<open>MAX_OPEN_JOINS\<close> joins, at most \<open>MAX_JOINS_PER_ACCOUNT\<close> of one account whatever it holds
  them through, and one holder is inside one draft once.
\<close>

theorem joins_bounded:
  assumes "keys_fresh [] ops"
  shows "length (join_run [] ops) \<le> MAX_OPEN_JOINS
    \<and> (\<forall>a. length (filter (\<lambda>(_, h). jn_account (hd_join h) = a) (join_run [] ops)) \<le> MAX_JOINS_PER_ACCOUNT)
    \<and> distinct (map (\<lambda>(_, h). place_of (hd_join h)) (join_run [] ops))"
  using run_ok [OF no_joins_ok assms] by (simp add: joins_ok_def)

definition ann_joins :: join where
  "ann_joins = \<lparr>jn_account = ''ann'', jn_holder = Browser ''csrf'', jn_domain = ''eng'', jn_path = ''a.md'',
     jn_owner = ''bob'', jn_expires = None\<rparr>"

definition ann_history :: "(nat \<times> join_op) list" where
  "ann_history = [(0, OpenJoin ''k1'' ann_joins), (5, OpenJoin ''k2'' ann_joins),
     (6, OpenJoin ''k3'' (ann_joins\<lparr>jn_holder := Token ''ann''\<rparr>))]"

lemmas run_defs = ann_history_def ann_joins_def open_join_def expire_locked_def retain_def still_runs_def same_draft_def
  refreshed_def later_def fresh_op_def IDLE_JOIN_LIMIT_def MAX_OPEN_JOINS_def MAX_JOINS_PER_ACCOUNT_def secs_def nanos_def

lemma ann_run: "keys_fresh [] ann_history" "map fst (join_run [] ann_history) = [''k1'', ''k3'']"
  "snd (holds (secs 7) ''ann'' (Token ''ann'') ''eng'' ''bob'' ''a.md'' (join_run [] ann_history))"
  by (simp_all add: run_defs holds_def)

theorem joins_bounded_witness:
  "length (join_run [] ann_history) \<le> MAX_OPEN_JOINS \<and> map fst (join_run [] ann_history) = [''k1'', ''k3'']"
proof
  from joins_bounded [OF ann_run(1)] show "length (join_run [] ann_history) \<le> MAX_OPEN_JOINS" by (rule conjunct1)
  show "map fst (join_run [] ann_history) = [''k1'', ''k3'']" by (rule ann_run)
qed

text \<open>
  C11: a holder is inside a draft only on a join of its own, still in use. Whenever
  \<open>holds\<close> says so, that very holder of that account opened a join into that very draft, on
  a share-link whose window has not passed, and used it less than \<open>IDLE_JOIN_LIMIT\<close> ago:
  an agent's join never opens a room in its person's browser, and an unused join ends by
  itself.
\<close>

theorem inside_only_on_own_join:
  assumes "keys_fresh [] ops" "snd (holds now account h domain owner path (join_run [] ops))"
  shows "\<exists>t key j. (t, OpenJoin key j) \<in> set ops \<and> place_of j = (account, h, domain, owner, path)
      \<and> (case jn_expires j of None \<Rightarrow> True | Some at \<Rightarrow> now < at)
      \<and> (\<exists>l. used_at l (place_of j) [] ops \<and> now - l < IDLE_JOIN_LIMIT)"
proof -
  let ?p = "(account, h, domain, owner, path)"
  note ok = run_ok [OF no_joins_ok assms(1)]
  obtain l e where s: "sits (join_run [] ops) ?p = Some (l, e)" and lv: "live now (l, e)"
    using assms(2) unfolding holds_spec(3) [OF ok HOL.refl] by (auto simp: live_at_def split: option.splits if_splits)
  have none: "sits [] p = None" for p by (simp add: sits_def)
  have u: "used_at l ?p [] ops" using run_back(1) [OF no_joins_ok assms(1) s] none by simp
  obtain t op where "(t, op) \<in> set ops" "opens op ?p e"
    using run_back(2) [OF no_joins_ok assms(1) s] none by auto
  then obtain key j where "(t, OpenJoin key j) \<in> set ops" "place_of j = ?p" "jn_expires j = e"
    by (cases op) (auto simp: opens_def)
  with u lv show ?thesis by (intro exI [of _ t] exI [of _ key] exI [of _ j]) (auto simp: live_def)
qed

theorem inside_only_on_own_join_witness:
  "\<exists>t key j. (t, OpenJoin key j) \<in> set ann_history \<and> place_of j = (''ann'', Token ''ann'', ''eng'', ''bob'', ''a.md'')
      \<and> (case jn_expires j of None \<Rightarrow> True | Some at \<Rightarrow> secs 7 < at)
      \<and> (\<exists>l. used_at l (place_of j) [] ann_history \<and> secs 7 - l < IDLE_JOIN_LIMIT)"
by (rule inside_only_on_own_join [OF ann_run(1,3)])

fun never_ended :: "place \<Rightarrow> joins \<Rightarrow> (nat \<times> join_op) list \<Rightarrow> bool" where
  "never_ended p m [] \<longleftrightarrow> True"
| "never_ended p m ((now, op) # ops) \<longleftrightarrow> \<not> ends op m p \<and> never_ended p (join_step now op m) ops"

definition in_window :: "nat \<Rightarrow> nat option \<Rightarrow> nat \<Rightarrow> bool" where
  "in_window t0 w t \<longleftrightarrow> t0 \<le> t \<and> t < t0 + IDLE_JOIN_LIMIT \<and> (case w of None \<Rightarrow> True | Some at \<Rightarrow> t < at)"

lemma window_live: "in_window t0 w t \<Longrightarrow> t0 \<le> l \<Longrightarrow> outlasts w e \<Longrightarrow> live t (l, e)"
  by (auto simp: in_window_def live_def outlasts_def split: option.splits)

lemma run_forth:
  assumes "joins_ok m" "keys_fresh m ops" "never_ended p m ops" "\<forall>(t, _)\<in>set ops. in_window t0 w t"
    and "sits m p = Some (l, e)" "t0 \<le> l" "outlasts w e"
  shows "\<exists>l e. sits (join_run m ops) p = Some (l, e) \<and> t0 \<le> l \<and> outlasts w e"
  using assms
proof (induction m ops arbitrary: l e rule: join_run.induct)
  case (2 m now op ops)
  have w: "in_window t0 w now" and f: "fresh_op m op" and n: "\<not> ends op m p" using 2 by auto
  obtain l' e' where s: "sits (join_step now op m) p = Some (l', e')" and l: "l' = l \<or> l' = now" and o: "outlasts e e'"
    using step_forth [OF 2(2) f 2(6) window_live [OF w 2(7,8)] n] by blast
  have "t0 \<le> l'" using l w 2(7) by (auto simp: in_window_def)
  from "2.IH" [OF step_ok [OF 2(2) f] _ _ _ s this outlasts_trans [OF 2(8) o]] 2 show ?case by simp
qed auto

text \<open>
  C12: a join stands until something ends it. Once \<open>open\<close> answered a key, the holder is
  inside that draft at every moment of the next half hour and of the share-link's window,
  whatever else happens in the registry, unless its join is closed or its holder, the draft
  or the domain is ended.
\<close>

theorem join_stands:
  assumes "joins_ok m" "keys_fresh m ((t0, OpenJoin key j) # ops)"
    and "snd (open_join key t0 j m) = Inr k"
    and "never_ended (place_of j) m ((t0, OpenJoin key j) # ops)"
    and "\<forall>(t, _)\<in>set ops. in_window t0 (jn_expires j) t" "in_window t0 (jn_expires j) now"
  shows "snd (holds now (jn_account j) (jn_holder j) (jn_domain j) (jn_owner j) (jn_path j)
           (join_run m ((t0, OpenJoin key j) # ops)))"
proof -
  let ?p = "place_of j" and ?m = "join_run m ((t0, OpenJoin key j) # ops)"
  have f: "key \<notin> fst ` set m" using assms(2) by (simp add: fresh_op_def)
  note ok = step_ok [OF assms(1), of "OpenJoin key j" t0]
  obtain e where "sits (join_step t0 (OpenJoin key j) m) ?p = Some (t0, e)" "outlasts (jn_expires j) e"
    using open_join_spec(2) [OF assms(1) f HOL.refl HOL.refl assms(3)]
    by (auto simp: outlasts_def later_def split: option.splits)
  from run_forth [OF ok _ _ assms(5) this(1) _ this(2)] assms(2,4)
  obtain l e where s: "sits ?m ?p = Some (l, e)" "t0 \<le> l" "outlasts (jn_expires j) e" by auto
  have "live_at now (sits ?m) ?p = Some (l, e)"
    using s window_live [OF assms(6) s(2,3)] by (simp add: live_at_Some)
  then show ?thesis
    using holds_spec(3) [OF run_ok [OF assms(1,2)] HOL.refl] by (simp add: place_of_def)
qed

theorem join_stands_witness:
  "snd (holds (secs 7) ''ann'' (Browser ''csrf'') ''eng'' ''bob'' ''a.md''
     (join_run [] [(0, OpenJoin ''k1'' ann_joins), (secs 5, EndHolder (Token ''ann''))]))"
  using join_stands [of "[]" 0 "''k1''" ann_joins "[(secs 5, EndHolder (Token ''ann''))]" "''k1''" "secs 7"]
  by (simp add: run_defs in_window_def ends_def ends_with_its_holder_def)

end
