(* ===== verification/Threads.thy ===== *)
theory Threads
  imports Searching LineEndings Trimming
begin

text \<open>
  Threads: the discussions anchored on a passage of a document, and the thread file that
  holds them (\<open>core/src/threads.rs\<close>). Offsets are byte offsets into the text, as in the code.
  The YAML library that writes and reads a thread's block is a parameter (\<open>yaml_lib\<close>);
  minting a random thread id is not modelled.
\<close>

section \<open>Threads and their parts\<close>

datatype section_ref = SectionId string | SectionHeading string

definition section_ref_id :: "section_ref \<Rightarrow> string option" where
  "section_ref_id s = (case s of SectionId ident \<Rightarrow> Some ident | SectionHeading _ \<Rightarrow> None)"

definition section_ref_key :: "section_ref \<Rightarrow> string" where
  "section_ref_key s = (case s of SectionId key \<Rightarrow> key | SectionHeading key \<Rightarrow> key)"

record anchor =
  an_section :: section_ref
  an_quote :: "string option"
  an_occurrence :: nat

datatype thread_target = ReflectionTarget string

datatype thread_status = OpenThread | Resolved

definition thread_status_as_str :: "thread_status \<Rightarrow> string" where
  "thread_status_as_str s = (case s of OpenThread \<Rightarrow> ''open'' | Resolved \<Rightarrow> ''resolved'')"

datatype entry_kind = Comment | Resolve | Reopen

definition entry_kind_as_str :: "entry_kind \<Rightarrow> string" where
  "entry_kind_as_str k = (case k of Comment \<Rightarrow> ''comment'' | Resolve \<Rightarrow> ''resolve'' | Reopen \<Rightarrow> ''reopen'')"

definition entry_kind_parse :: "string \<Rightarrow> entry_kind option" where
  "entry_kind_parse word =
     (if word = ''comment'' then Some Comment
      else if word = ''resolve'' then Some Resolve
      else if word = ''reopen'' then Some Reopen else None)"

record author =
  au_name :: string
  au_agent :: bool

record entry =
  en_at :: string
  en_kind :: entry_kind
  en_author :: author
  en_text :: string

record thread =
  th_id :: string
  th_anchor :: anchor
  th_status :: thread_status
  th_entries :: "entry list"

definition opened_at :: "thread \<Rightarrow> string" where
  "opened_at t = (case th_entries t of e # _ \<Rightarrow> en_at e | [] \<Rightarrow> [])"

definition last_at :: "thread \<Rightarrow> string" where
  "last_at t = (case rev (th_entries t) of e # _ \<Rightarrow> en_at e | [] \<Rightarrow> [])"

record meta =
  mt_section :: "string option"
  mt_heading :: "string option"
  mt_quote :: "string option"
  mt_occurrence :: nat
  mt_status :: thread_status

record yaml_lib =
  yl_to_string :: "meta \<Rightarrow> string"
  yl_from_str :: "string \<Rightarrow> meta option"

datatype refusal =
    IsResolved string
  | NeedsOutcome
  | AlreadyResolved string
  | OpenAlready string
  | NoStatusLine string

datatype thread_error = NoThread string | Refused refusal

section \<open>Entries\<close>

definition name_char :: "string \<Rightarrow> string" where
  "name_char c = (if c \<in> {''('', '')'', '':'', [LF], [CR], '',''} then '' '' else c)"

definition sanitize_name :: "string \<Rightarrow> string" where
  "sanitize_name name =
     (let cleaned = concat (map name_char (chars name));
          joined = join_with '' '' (split_whitespace cleaned)
      in if joined = [] then ''someone'' else joined)"

definition render_rest :: "string \<Rightarrow> string" where
  "render_rest line = (if line = [] then [] else ''  '' @ line) @ [LF]"

definition render_entry :: "entry \<Rightarrow> string" where
  "render_entry e =
     (let who = (if au_agent (en_author e) then ''agent'' else ''person'');
          ls = str_lines (en_text e);
          first = (case ls of [] \<Rightarrow> [] | l # _ \<Rightarrow> l)
      in ''- '' @ en_at e @ '', '' @ entry_kind_as_str (en_kind e) @ '' by ''
           @ sanitize_name (au_name (en_author e)) @ '' ('' @ who @ '')''
           @ (if first = [] then [] else '': '' @ first) @ [LF]
           @ concat (map render_rest (tl ls)))"

definition parse_entry :: "string \<Rightarrow> entry option" where
  "parse_entry line =
     (case strip_prefix ''- '' line of
        None \<Rightarrow> None
      | Some rest \<Rightarrow>
     (case split_str '', '' rest of
        None \<Rightarrow> None
      | Some (at, rest) \<Rightarrow>
     (case split_str '' by '' rest of
        None \<Rightarrow> None
      | Some (kind, rest) \<Rightarrow>
     (case find_str '' ('' rest of
        None \<Rightarrow> None
      | Some open \<Rightarrow>
          (let name = take open rest; after = drop (open + 2) rest
           in case (case split_str ''): '' after of
                      Some (who, body) \<Rightarrow> Some (who, body)
                    | None \<Rightarrow> map_option (\<lambda>who. (who, [])) (strip_suffix '')'' after)) of
                None \<Rightarrow> None
              | Some (who, body) \<Rightarrow>
                  map_option (\<lambda>kind.
                    \<lparr>en_at = at, en_kind = kind, en_author = \<lparr>au_name = name, au_agent = who = ''agent''\<rparr>,
                     en_text = body\<rparr>) (entry_kind_parse kind))))))"

section \<open>The thread file\<close>

definition meta_of :: "thread \<Rightarrow> meta" where
  "meta_of t =
     (let (s, h) = (case an_section (th_anchor t) of SectionId ident \<Rightarrow> (Some ident, None)
                                                 | SectionHeading path \<Rightarrow> (None, Some path))
      in \<lparr>mt_section = s, mt_heading = h, mt_quote = an_quote (th_anchor t),
          mt_occurrence = max (an_occurrence (th_anchor t)) 1, mt_status = th_status t\<rparr>)"

definition render_thread :: "yaml_lib \<Rightarrow> thread \<Rightarrow> string" where
  "render_thread Y t =
     ''## '' @ th_id t @ [LF, LF] @ ''```yaml'' @ [LF] @ yl_to_string Y (meta_of t) @ ''```'' @ [LF, LF]
       @ concat (map render_entry (th_entries t))"

record span =
  sp_id :: string
  sp_start :: nat
  sp_body :: nat
  sp_end :: nat

definition close_last :: "nat \<Rightarrow> span list \<Rightarrow> span list" where
  "close_last at spans = (if spans = [] then [] else butlast spans @ [(last spans)\<lparr>sp_end := at\<rparr>])"

fun spans_loop :: "nat \<Rightarrow> nat \<Rightarrow> string list \<Rightarrow> span list \<Rightarrow> span list" where
  "spans_loop len at [] spans = spans"
| "spans_loop len at (line # rest) spans =
     spans_loop len (at + length line) rest
       (case strip_prefix ''## '' line of
          Some ident \<Rightarrow>
            close_last at spans
              @ [\<lparr>sp_id = trim ident, sp_start = at, sp_body = at + length line, sp_end = len\<rparr>]
        | None \<Rightarrow> spans)"

definition thread_spans :: "string \<Rightarrow> span list" where
  "thread_spans t = spans_loop (length t) 0 (split_inclusive LF t) []"

definition opens_yaml :: "string \<Rightarrow> bool" where
  "opens_yaml line =
     (case strip_prefix ''```'' (trim_end line) of Some r \<Rightarrow> trim r = ''yaml'' | None \<Rightarrow> False)"

fun yaml_loop :: "nat \<Rightarrow> nat option \<Rightarrow> string list \<Rightarrow> (nat \<times> nat \<times> nat) option" where
  "yaml_loop at open [] = None"
| "yaml_loop at open (line # rest) =
     (case open of
        None \<Rightarrow> yaml_loop (at + length line) (if opens_yaml line then Some (at + length line) else None) rest
      | Some start \<Rightarrow>
          if trim_end line = ''```'' then Some (start, at, at + length line)
          else yaml_loop (at + length line) (Some start) rest)"

definition yaml_block :: "string \<Rightarrow> (nat \<times> nat \<times> nat) option" where
  "yaml_block rest = yaml_loop 0 None (split_inclusive LF rest)"

text \<open>The loop that reads the entries under the block.\<close>

fun entries_loop :: "nat \<Rightarrow> entry list \<Rightarrow> string list \<Rightarrow> entry list" where
  "entries_loop blanks entries [] = entries"
| "entries_loop blanks entries (line # rest) =
     (if trim line = [] then entries_loop (Suc blanks) entries rest
      else
        (case (strip_prefix ''  '' line, rev entries) of
           (Some cont, e # es) \<Rightarrow>
             entries_loop 0
               (rev es @ [e\<lparr>en_text := en_text e @ replicate (Suc blanks) LF @ cont\<rparr>]) rest
         | _ \<Rightarrow>
             (case parse_entry line of
                Some e \<Rightarrow> entries_loop 0 (entries @ [e]) rest
              | None \<Rightarrow> entries_loop 0 entries rest)))"

definition slice :: "string \<Rightarrow> nat \<Rightarrow> nat \<Rightarrow> string" where
  "slice t a b = take (b - a) (drop a t)"

definition read_thread :: "yaml_lib \<Rightarrow> string \<Rightarrow> span \<Rightarrow> (thread \<times> meta) option" where
  "read_thread Y t span =
     (let rest = slice t (sp_body span) (sp_end span)
      in case yaml_block rest of
           None \<Rightarrow> None
         | Some (start, end_at, entries_at) \<Rightarrow>
             (case yl_from_str Y (slice rest start end_at) of
                None \<Rightarrow> None
              | Some meta \<Rightarrow>
                  (case (case (mt_section meta, mt_heading meta) of
                           (Some ident, _) \<Rightarrow> Some (SectionId ident)
                         | (None, Some path) \<Rightarrow> Some (SectionHeading path)
                         | (None, None) \<Rightarrow> None) of
                     None \<Rightarrow> None
                   | Some sect \<Rightarrow>
                       Some (\<lparr>th_id = sp_id span,
                              th_anchor = \<lparr>an_section = sect, an_quote = mt_quote meta,
                                           an_occurrence = mt_occurrence meta\<rparr>,
                              th_status = mt_status meta,
                              th_entries = entries_loop 0 [] (str_lines (drop entries_at rest))\<rparr>, meta))))"

definition parse_threads :: "yaml_lib \<Rightarrow> string \<Rightarrow> thread list" where
  "parse_threads Y t =
     (let t = to_lf t in map fst (List.map_filter (read_thread Y t) (thread_spans t)))"

definition open_thread :: "yaml_lib \<Rightarrow> string \<Rightarrow> thread \<Rightarrow> string" where
  "open_thread Y file t =
     (if trim file = [] then ''# Threads'' @ [LF, LF] else trim_end_char LF (to_lf file) @ [LF, LF])
       @ render_thread Y t"

section \<open>Appending an entry\<close>

text \<open>The first line whose rewrite reads back as the block asked for.\<close>

fun rewrite_loop :: "yaml_lib \<Rightarrow> meta \<Rightarrow> (string \<Rightarrow> string option) \<Rightarrow> string list \<Rightarrow> string list \<Rightarrow> string option" where
  "rewrite_loop Y wanted new_line before [] = None"
| "rewrite_loop Y wanted new_line before (line # rest) =
     (case new_line line of
        None \<Rightarrow> rewrite_loop Y wanted new_line (before @ [line]) rest
      | Some l \<Rightarrow>
          (let rewritten = concat before @ l @ concat rest
           in if yl_from_str Y rewritten = Some wanted then Some rewritten
              else rewrite_loop Y wanted new_line (before @ [line]) rest))"

definition status_line :: "thread_status \<Rightarrow> string \<Rightarrow> string option" where
  "status_line status line =
     (case strip_prefix ''status:'' (trim_end_char LF line) of
        None \<Rightarrow> None
      | Some val \<Rightarrow>
          (let comment = (case find_str '' #'' val of Some at \<Rightarrow> drop at val | None \<Rightarrow> []);
               newline = (if ends_with [LF] line then [LF] else [])
           in Some (''status: '' @ thread_status_as_str status @ comment @ newline)))"

definition with_status :: "yaml_lib \<Rightarrow> string \<Rightarrow> meta \<Rightarrow> thread_status \<Rightarrow> string option" where
  "with_status Y yaml meta status =
     rewrite_loop Y (meta\<lparr>mt_status := status\<rparr>) (status_line status) [] (split_inclusive LF yaml)"

definition section_line :: "string \<Rightarrow> string \<Rightarrow> string option" where
  "section_line ident line =
     (case strip_prefix ''heading:'' line of
        None \<Rightarrow> None
      | Some _ \<Rightarrow> Some (''section: '' @ ident @ (if ends_with [LF] line then [LF] else [])))"

definition with_section :: "yaml_lib \<Rightarrow> string \<Rightarrow> meta \<Rightarrow> string \<Rightarrow> string option" where
  "with_section Y yaml meta ident =
     rewrite_loop Y (meta\<lparr>mt_section := Some ident, mt_heading := None\<rparr>) (section_line ident) []
       (split_inclusive LF yaml)"

text \<open>What an entry asks of the status of its thread.\<close>

definition new_status :: "string \<Rightarrow> entry \<Rightarrow> thread_status \<Rightarrow> refusal + thread_status option" where
  "new_status ident e status =
     (case (en_kind e, status) of
        (Comment, OpenThread) \<Rightarrow> Inr None
      | (Comment, Resolved) \<Rightarrow> Inl (IsResolved ident)
      | (Resolve, OpenThread) \<Rightarrow> if trim (en_text e) = [] then Inl NeedsOutcome else Inr (Some Resolved)
      | (Resolve, Resolved) \<Rightarrow> Inl (AlreadyResolved ident)
      | (Reopen, Resolved) \<Rightarrow> Inr (Some OpenThread)
      | (Reopen, OpenThread) \<Rightarrow> Inl (OpenAlready ident))"

definition first_read :: "yaml_lib \<Rightarrow> string \<Rightarrow> string \<Rightarrow> (span \<times> thread \<times> meta) option" where
  "first_read Y file ident =
     (case List.map_filter (\<lambda>span. map_option (\<lambda>r. (span, r)) (read_thread Y file span))
             (filter (\<lambda>span. sp_id span = ident) (thread_spans file)) of
        [] \<Rightarrow> None | hit # _ \<Rightarrow> Some hit)"

definition append_entry :: "yaml_lib \<Rightarrow> string \<Rightarrow> string \<Rightarrow> entry \<Rightarrow> thread_error + string" where
  "append_entry Y file ident e =
     (let file = to_lf file
      in case first_read Y file ident of
           None \<Rightarrow> Inl (NoThread ident)
         | Some (span, thread, meta) \<Rightarrow>
             (case new_status ident e (th_status thread) of
                Inl r \<Rightarrow> Inl (Refused r)
              | Inr status \<Rightarrow>
                  (let content_end = sp_start span + length (trim_end_char LF (slice file (sp_start span) (sp_end span)));
                       (insert_at, line_break) =
                         (if starts_with [LF] (drop content_end file) then (content_end + 1, []) else (content_end, [LF]));
                       head = take insert_at file
                   in case (case status of
                              None \<Rightarrow> Inr head
                            | Some status \<Rightarrow>
                                (case yaml_block (slice file (sp_body span) (sp_end span)) of
                                   None \<Rightarrow> Inl (NoThread ident)
                                 | Some (a, b, _) \<Rightarrow>
                                     (let yaml_start = sp_body span + a; yaml_end = sp_body span + b
                                      in case with_status Y (slice file yaml_start yaml_end) meta status of
                                           None \<Rightarrow> Inl (Refused (NoStatusLine ident))
                                         | Some yaml \<Rightarrow>
                                             Inr (take yaml_start head @ yaml @ drop yaml_end head)))) of
                        Inl err \<Rightarrow> Inl err
                      | Inr head \<Rightarrow> Inr (head @ line_break @ render_entry e @ drop insert_at file))))"

definition anchor_headings_on_ids :: "yaml_lib \<Rightarrow> string \<Rightarrow> (string \<Rightarrow> string option) \<Rightarrow> string option" where
  "anchor_headings_on_ids Y file section_id =
     (let file = to_lf file;
          rewrites = List.map_filter (\<lambda>span.
            (case read_thread Y file span of
               None \<Rightarrow> None
             | Some (_, meta) \<Rightarrow>
                 (case (mt_section meta, mt_heading meta) of
                    (None, Some heading) \<Rightarrow>
                      (case (section_id heading, yaml_block (slice file (sp_body span) (sp_end span))) of
                         (Some ident, Some (a, b, _)) \<Rightarrow>
                           map_option (\<lambda>yaml. (sp_body span + a, sp_body span + b, yaml))
                             (with_section Y (slice file (sp_body span + a) (sp_body span + b)) meta ident)
                       | _ \<Rightarrow> None)
                  | _ \<Rightarrow> None))) (thread_spans file)
      in if rewrites = [] then None
         else Some (fold (\<lambda>(a, b, yaml) out. take a out @ yaml @ drop b out) (rev rewrites) file))"

section \<open>Anchors and whose turn it is\<close>

datatype anchor_state = Found nat nat | TextChanged | SectionGone

definition anchor_state_as_str :: "anchor_state \<Rightarrow> string" where
  "anchor_state_as_str s =
     (case s of Found _ _ \<Rightarrow> ''found'' | TextChanged \<Rightarrow> ''text_changed'' | SectionGone \<Rightarrow> ''section_gone'')"

fun occurrence_loop :: "string \<Rightarrow> string \<Rightarrow> nat \<Rightarrow> nat \<Rightarrow> anchor_state" where
  "occurrence_loop body quote at 0 = TextChanged"
| "occurrence_loop body quote at (Suc left) =
     (case find_str quote (drop at body) of
        None \<Rightarrow> TextChanged
      | Some i \<Rightarrow>
          if left = 0 then Found (at + i) (at + i + length quote)
          else occurrence_loop body quote (at + i + length quote) left)"

definition resolve_anchor :: "anchor \<Rightarrow> (section_ref \<Rightarrow> string option) \<Rightarrow> anchor_state" where
  "resolve_anchor anchor section_text =
     (case section_text (an_section anchor) of
        None \<Rightarrow> SectionGone
      | Some body \<Rightarrow>
          (case an_quote anchor of
             None \<Rightarrow> Found 0 (length body)
           | Some quote \<Rightarrow>
               if quote = [] then Found 0 (length body)
               else occurrence_loop body quote 0 (max (an_occurrence anchor) 1)))"

datatype waiting = People | AgentTurn

definition waiting_as_str :: "waiting \<Rightarrow> string" where
  "waiting_as_str w = (case w of People \<Rightarrow> ''people'' | AgentTurn \<Rightarrow> ''agent'')"

definition waiting_on :: "thread \<Rightarrow> waiting" where
  "waiting_on t = (case rev (th_entries t) of e # _ \<Rightarrow> if au_agent (en_author e) then People else AgentTurn | [] \<Rightarrow> AgentTurn)"

text \<open>\<open>rposition\<close>: the last place where a test holds.\<close>

fun rposition :: "('a \<Rightarrow> bool) \<Rightarrow> 'a list \<Rightarrow> nat option" where
  "rposition P [] = None"
| "rposition P (x # xs) =
     (case rposition P xs of Some i \<Rightarrow> Some (Suc i) | None \<Rightarrow> if P x then Some 0 else None)"

definition agent_may_resolve :: "thread \<Rightarrow> bool" where
  "agent_may_resolve t =
     (case th_entries t of
        [] \<Rightarrow> True
      | first # _ \<Rightarrow>
          if au_agent (en_author first) then True
          else
            (let since = (case rposition (\<lambda>e. en_kind e = Reopen) (th_entries t) of
                            Some at \<Rightarrow> drop at (th_entries t) | None \<Rightarrow> th_entries t)
             in case rposition (\<lambda>e. au_agent (en_author e)) since of
                  None \<Rightarrow> False
                | Some answer \<Rightarrow>
                    list_ex (\<lambda>e. \<not> au_agent (en_author e) \<and> en_kind e = Comment) (drop (answer + 1) since)))"

section \<open>A thread file as its blocks\<close>

text \<open>The header line and the body lines of every thread, and the lines before the first one.\<close>

fun cut_blocks :: "string list \<Rightarrow> string list \<times> (string \<times> string list) list" where
  "cut_blocks [] = ([], [])"
| "cut_blocks (l # ls) =
     (case cut_blocks ls of
        (h, bs) \<Rightarrow> if starts_with ''## '' l then ([], (l, h) # bs) else (l # h, bs))"

fun block_spans :: "nat \<Rightarrow> (string \<times> string list) list \<Rightarrow> span list" where
  "block_spans at [] = []"
| "block_spans at ((l, body) # bs) =
     \<lparr>sp_id = trim (drop 3 l), sp_start = at, sp_body = at + length l,
      sp_end = at + length l + length (concat body)\<rparr>
       # block_spans (at + length l + length (concat body)) bs"

definition flat :: "(string \<times> string list) list \<Rightarrow> string" where
  "flat bs = concat (map (\<lambda>(l, body). l @ concat body) bs)"

lemma flat_simps [simp]: "flat [] = []" "flat ((l, body) # bs) = l @ concat body @ flat bs"
  "flat (as @ bs) = flat as @ flat bs"
  by (simp_all add: flat_def)

lemma concat_cut: "concat (fst (cut_blocks ls)) @ flat (snd (cut_blocks ls)) = concat ls"
  by (induction ls) (auto split: prod.splits)

lemma close_last_snoc [simp]: "close_last at (spans @ [s]) = spans @ [s\<lparr>sp_end := at\<rparr>]"
  by (simp add: close_last_def)

lemma spans_loop_blocks:
  assumes "len = at + length (concat ls)" "spans \<noteq> [] \<longrightarrow> sp_end (last spans) = len"
  shows "spans_loop len at ls spans =
    close_last (at + length (concat (fst (cut_blocks ls)))) spans
      @ block_spans (at + length (concat (fst (cut_blocks ls)))) (snd (cut_blocks ls))"
  using assms
proof (induction ls arbitrary: at spans)
  case Nil
  then show ?case by (cases spans rule: rev_cases) (auto simp: close_last_def)
next
  case (Cons l ls)
  obtain h bs where c: "cut_blocks ls = (h, bs)" by (cases "cut_blocks ls")
  show ?case
  proof (cases "starts_with ''## '' l")
    case False
    then have "strip_prefix ''## '' l = None" by (simp add: strip_prefix_None)
    then show ?thesis using Cons.IH [of "at + length l" spans] Cons.prems c False by (simp add: add.assoc)
  next
    case True
    then have "strip_prefix ''## '' l = Some (drop 3 l)" by (simp add: strip_prefix_def numeral_3_eq_3)
    then show ?thesis using Cons.IH [of "at + length l"] Cons.prems c True by (simp add: add.assoc)
  qed
qed

lemma thread_spans_blocks:
  "thread_spans t = (case cut_blocks (split_inclusive LF t) of (h, bs) \<Rightarrow> block_spans (length (concat h)) bs)"
  unfolding thread_spans_def using spans_loop_blocks [of "length t" 0 "split_inclusive LF t" "[]"]
  by (simp add: close_last_def split: prod.splits)

lemma slice_all [simp]: "slice s 0 (length s) = s"
  by (simp add: slice_def)

definition read_block :: "yaml_lib \<Rightarrow> string \<times> string \<Rightarrow> (thread \<times> meta) option" where
  "read_block Y b =
     read_thread Y (snd b) \<lparr>sp_id = fst b, sp_start = 0, sp_body = 0, sp_end = length (snd b)\<rparr>"

lemma read_thread_block: "read_thread Y t span = read_block Y (sp_id span, slice t (sp_body span) (sp_end span))"
  by (simp only: read_thread_def read_block_def fst_conv snd_conv span.simps slice_all)

definition block_of :: "string \<times> string list \<Rightarrow> string \<times> string" where
  "block_of b = (trim (drop 3 (fst b)), concat (snd b))"

definition blocks :: "string \<Rightarrow> (string \<times> string) list" where
  "blocks t = map block_of (snd (cut_blocks (split_inclusive LF t)))"

lemma slice_mid: "slice (a @ b @ c) (length a) (length a + length b) = b"
  by (simp add: slice_def)

lemma block_spans_read:
  "t = pre @ flat bs @ post \<Longrightarrow>
     map (\<lambda>s. (sp_id s, slice t (sp_body s) (sp_end s))) (block_spans (length pre) bs) = map block_of bs"
proof (induction bs arbitrary: pre)
  case (Cons b bs)
  obtain l body where b: "b = (l, body)" by (cases b)
  from Cons.IH [of "pre @ l @ concat body"] Cons.prems b show ?case
    using slice_mid [of "pre @ l" "concat body" "flat bs @ post"]
    by (simp add: block_of_def add.assoc)
qed simp

lemma spans_blocks: "map (\<lambda>s. (sp_id s, slice t (sp_body s) (sp_end s))) (thread_spans t) = blocks t"
  using block_spans_read [of t "concat (fst (cut_blocks (split_inclusive LF t)))" "snd (cut_blocks (split_inclusive LF t))" "[]"]
    concat_cut [of "split_inclusive LF t"]
  by (simp add: thread_spans_blocks blocks_def case_prod_unfold)

lemma map_filter_map: "List.map_filter f (map g xs) = List.map_filter (\<lambda>x. f (g x)) xs"
  by (induction xs) (auto simp: List.map_filter_simps split: option.splits)

lemma parse_threads_blocks:
  "parse_threads Y t = List.map_filter (\<lambda>b. map_option fst (read_block Y b)) (blocks (to_lf t))"
proof -
  have "map fst (List.map_filter (\<lambda>b. f b) xs) = List.map_filter (\<lambda>b. map_option fst (f b)) xs"
    for f :: "'x \<Rightarrow> ('y \<times> 'z) option" and xs
    by (induction xs) (auto simp: List.map_filter_simps split: option.splits)
  then show ?thesis
    unfolding parse_threads_def Let_def spans_blocks [symmetric] read_thread_block by (simp add: map_filter_map)
qed

lemma cut_blocks_append:
  "starts_with ''## '' m \<Longrightarrow>
     cut_blocks (ls @ m # ms) = (fst (cut_blocks ls), snd (cut_blocks ls) @ snd (cut_blocks (m # ms)))"
  by (induction ls) (auto split: prod.splits)

lemma first_line_header: "starts_with ''## '' b \<Longrightarrow> \<exists>m ms. split_inclusive LF b = m # ms \<and> starts_with ''## '' m"
  by (auto simp: starts_with_iff [of _ b] split: list.splits)

lemma blocks_append:
  assumes "ends_line LF a" "starts_with ''## '' b"
  shows "blocks (a @ b) = blocks a @ blocks b"
proof -
  obtain m ms where m: "split_inclusive LF b = m # ms" "starts_with ''## '' m"
    using first_line_header [OF assms(2)] by blast
  show ?thesis
    by (simp add: blocks_def split_inclusive_append assms(1) m(1) cut_blocks_append [OF m(2)])
qed

lemma cut_blocks_none: "list_all (\<lambda>l. \<not> starts_with ''## '' l) ls \<Longrightarrow> cut_blocks ls = (ls, [])"
  by (induction ls) auto

lemma blocks_one:
  assumes "starts_with ''## '' l" "line_ok LF l" "list_all (\<lambda>l. \<not> starts_with ''## '' l) (split_inclusive LF body)"
  shows "blocks (l @ body) = [(trim (drop 3 l), body)]"
  by (simp add: blocks_def split_inclusive_line_ok assms(1,2) cut_blocks_none [OF assms(3)] block_of_def)

section \<open>Reading one block, line by line\<close>

definition yaml_shape :: "string list \<Rightarrow> string list \<Rightarrow> string \<Rightarrow> bool" where
  "yaml_shape ol yl cl \<longleftrightarrow>
     ol \<noteq> [] \<and> opens_yaml (last ol) \<and> list_all (\<lambda>l. \<not> opens_yaml l) (butlast ol)
     \<and> list_all (\<lambda>l. trim_end l \<noteq> ''```'') yl \<and> trim_end cl = ''```''"

lemma yaml_loop_inside:
  "yaml_loop at (Some s) ls = Some r \<longleftrightarrow>
     (\<exists>yl cl el. ls = yl @ cl # el \<and> list_all (\<lambda>l. trim_end l \<noteq> ''```'') yl \<and> trim_end cl = ''```''
        \<and> r = (s, at + length (concat yl), at + length (concat yl) + length cl))"
proof (induction ls arbitrary: at)
  case (Cons l ls)
  show ?case
  proof (cases "trim_end l = ''```''")
    case True
    let ?I = "\<exists>yl cl el. l # ls = yl @ cl # el \<and> list_all (\<lambda>l. trim_end l \<noteq> ''```'') yl \<and> trim_end cl = ''```''
        \<and> r = (s, at + length (concat yl), at + length (concat yl) + length cl)"
    have "?I \<longleftrightarrow> r = (s, at, at + length l)"
    proof
      assume ?I
      then obtain yl cl el where I: "l # ls = yl @ cl # el" "list_all (\<lambda>l. trim_end l \<noteq> ''```'') yl"
        "r = (s, at + length (concat yl), at + length (concat yl) + length cl)" by blast
      then have "yl = []" using True by (cases yl) auto
      then show "r = (s, at, at + length l)" using I by simp
    next
      assume "r = (s, at, at + length l)"
      then show ?I using True by (intro exI [of _ "[]"] exI [of _ l] exI [of _ ls]) simp
    qed
    then show ?thesis using True by auto
  next
    case False
    have "(\<exists>yl cl el. ls = yl @ cl # el \<and> list_all (\<lambda>l. trim_end l \<noteq> ''```'') yl \<and> trim_end cl = ''```''
        \<and> r = (s, at + length l + length (concat yl), at + length l + length (concat yl) + length cl)) \<longleftrightarrow>
      (\<exists>yl cl el. l # ls = yl @ cl # el \<and> list_all (\<lambda>l. trim_end l \<noteq> ''```'') yl \<and> trim_end cl = ''```''
        \<and> r = (s, at + length (concat yl), at + length (concat yl) + length cl))" (is "?A \<longleftrightarrow> ?B")
    proof
      assume ?A
      then obtain yl cl el where "ls = yl @ cl # el" "list_all (\<lambda>l. trim_end l \<noteq> ''```'') yl" "trim_end cl = ''```''"
        "r = (s, at + length l + length (concat yl), at + length l + length (concat yl) + length cl)" by blast
      then show ?B using False by (intro exI [of _ "l # yl"] exI [of _ cl] exI [of _ el]) (simp add: add.assoc)
    next
      assume ?B
      then obtain yl cl el where B: "l # ls = yl @ cl # el" "list_all (\<lambda>l. trim_end l \<noteq> ''```'') yl" "trim_end cl = ''```''"
        "r = (s, at + length (concat yl), at + length (concat yl) + length cl)" by blast
      then obtain yl' where "yl = l # yl'" using False by (cases yl) auto
      then show ?A using B by (intro exI [of _ yl'] exI [of _ cl] exI [of _ el]) (simp add: add.assoc)
    qed
    then show ?thesis using Cons.IH False by simp
  qed
qed simp

lemma yaml_loop_outside:
  "yaml_loop at None ls = Some r \<longleftrightarrow>
     (\<exists>ol yl cl el. ls = ol @ yl @ cl # el \<and> yaml_shape ol yl cl
        \<and> r = (at + length (concat ol), at + length (concat ol) + length (concat yl),
               at + length (concat ol) + length (concat yl) + length cl))" (is "_ \<longleftrightarrow> ?R at ls")
proof (induction ls arbitrary: at)
  case Nil
  then show ?case by (simp add: yaml_shape_def)
next
  case (Cons l ls)
  show ?case
  proof (cases "opens_yaml l")
    case True
    let ?I = "\<exists>yl cl el. ls = yl @ cl # el \<and> list_all (\<lambda>l. trim_end l \<noteq> ''```'') yl \<and> trim_end cl = ''```''
        \<and> r = (at + length l, at + length l + length (concat yl), at + length l + length (concat yl) + length cl)"
    have "?R at (l # ls) \<longleftrightarrow> ?I"
    proof
      assume "?R at (l # ls)"
      then obtain ol yl cl el where R: "l # ls = ol @ yl @ cl # el" "yaml_shape ol yl cl"
        "r = (at + length (concat ol), at + length (concat ol) + length (concat yl),
               at + length (concat ol) + length (concat yl) + length cl)" by blast
      then obtain ol' where ol: "ol = l # ol'" by (cases ol) (auto simp: yaml_shape_def)
      with R(2) True have "ol' = []" by (cases ol') (auto simp: yaml_shape_def)
      with R ol show ?I by (intro exI [of _ yl] exI [of _ cl] exI [of _ el]) (simp add: yaml_shape_def)
    next
      assume ?I
      then obtain yl cl el where R: "ls = yl @ cl # el" "list_all (\<lambda>l. trim_end l \<noteq> ''```'') yl" "trim_end cl = ''```''"
        "r = (at + length l, at + length l + length (concat yl), at + length l + length (concat yl) + length cl)" by blast
      then show "?R at (l # ls)"
        using True by (intro exI [of _ "[l]"] exI [of _ yl] exI [of _ cl] exI [of _ el]) (simp add: yaml_shape_def)
    qed
    then show ?thesis using True by (simp add: yaml_loop_inside)
  next
    case False
    have "?R at (l # ls) \<longleftrightarrow> ?R (at + length l) ls"
    proof
      assume "?R at (l # ls)"
      then obtain ol yl cl el where R: "l # ls = ol @ yl @ cl # el" "yaml_shape ol yl cl"
        "r = (at + length (concat ol), at + length (concat ol) + length (concat yl),
               at + length (concat ol) + length (concat yl) + length cl)" by blast
      then obtain ol' where ol: "ol = l # ol'" by (cases ol) (auto simp: yaml_shape_def)
      with R(2) False have "ol' \<noteq> []" by (auto simp: yaml_shape_def)
      with R ol show "?R (at + length l) ls"
        by (intro exI [of _ ol'] exI [of _ yl] exI [of _ cl] exI [of _ el]) (simp add: yaml_shape_def add.assoc)
    next
      assume "?R (at + length l) ls"
      then obtain ol yl cl el where R: "ls = ol @ yl @ cl # el" "yaml_shape ol yl cl"
        "r = (at + length l + length (concat ol), at + length l + length (concat ol) + length (concat yl),
               at + length l + length (concat ol) + length (concat yl) + length cl)" by blast
      then show "?R at (l # ls)"
        using False by (intro exI [of _ "l # ol"] exI [of _ yl] exI [of _ cl] exI [of _ el]) (simp add: yaml_shape_def add.assoc)
    qed
    then show ?thesis using Cons.IH [of "at + length l"] False by simp
  qed
qed

definition chop :: "string \<Rightarrow> string" where
  "chop line =
     (case strip_suffix [LF] line of
        None \<Rightarrow> line
      | Some l \<Rightarrow> (case strip_suffix [CR] l of Some l' \<Rightarrow> l' | None \<Rightarrow> l))"

lemma str_lines_chop: "str_lines s = map chop (split_inclusive LF s)"
  by (simp add: str_lines_def chop_def [abs_def])

lemma str_lines_concat: "lines_ok LF ls \<Longrightarrow> str_lines (concat ls) = map chop ls"
  by (simp add: str_lines_chop split_concat_lines)

text \<open>What a block reads as, given its YAML text and its entry lines.\<close>

definition thread_of :: "string \<Rightarrow> meta \<Rightarrow> entry list \<Rightarrow> (thread \<times> meta) option" where
  "thread_of ident meta entries =
     map_option (\<lambda>s. (\<lparr>th_id = ident, th_anchor = \<lparr>an_section = s, an_quote = mt_quote meta, an_occurrence = mt_occurrence meta\<rparr>,
        th_status = mt_status meta, th_entries = entries\<rparr>, meta))
       (case (mt_section meta, mt_heading meta) of
          (Some ident, _) \<Rightarrow> Some (SectionId ident)
        | (None, Some path) \<Rightarrow> Some (SectionHeading path)
        | (None, None) \<Rightarrow> None)"

lemma slice_middle: "slice (a @ b @ c) (length a) (length a + length b) = b"
  by (simp add: slice_def)

lemma read_block_shape:
  assumes "yaml_shape ol yl cl" "lines_ok LF (ol @ yl @ cl # el)"
  shows "read_block Y (ident, concat (ol @ yl @ cl # el)) =
    (case yl_from_str Y (concat yl) of
       None \<Rightarrow> None | Some meta \<Rightarrow> thread_of ident meta (entries_loop 0 [] (map chop el)))"
proof -
  let ?b = "concat ol @ concat yl @ cl @ concat el"
  have y: "yaml_block ?b = Some (length (concat ol), length (concat ol) + length (concat yl),
      length (concat ol) + length (concat yl) + length cl)"
  proof -
    have "split_inclusive LF ?b = ol @ yl @ cl # el"
      using split_concat_lines [OF assms(2)] by simp
    then show ?thesis
      unfolding yaml_block_def yaml_loop_outside using assms(1)
      by (intro exI [of _ ol] exI [of _ yl] exI [of _ cl] exI [of _ el]) simp
  qed
  have e: "str_lines (concat el) = map chop el"
    by (rule str_lines_concat) (use assms(2) in \<open>auto simp: lines_ok_append_iff dest: lines_ok_tl\<close>)
  have s: "slice ?b (length (concat ol)) (length (concat ol) + length (concat yl)) = concat yl"
    by (rule slice_middle)
  have d: "drop (length (concat ol) + length (concat yl) + length cl) ?b = concat el"
    by (simp flip: add.assoc)
  have "concat (ol @ yl @ cl # el) = ?b" by simp
  then show ?thesis
    by (simp only: read_block_def read_thread_def snd_conv fst_conv span.simps slice_all Let_def y option.case prod.case s d e)
       (simp add: thread_of_def split: option.splits)
qed

lemma read_block_None:
  assumes "\<nexists>ol yl cl el. split_inclusive LF body = ol @ yl @ cl # el \<and> yaml_shape ol yl cl"
  shows "read_block Y (ident, body) = None"
proof -
  have "yaml_block body = None"
    using assms yaml_loop_outside [of 0 "split_inclusive LF body"] unfolding yaml_block_def
    by (cases "yaml_loop 0 None (split_inclusive LF body)") blast+
  then show ?thesis by (simp add: read_block_def read_thread_def)
qed

section \<open>Reading entries back\<close>

definition entry_step :: "nat \<times> entry list \<Rightarrow> string \<Rightarrow> nat \<times> entry list" where
  "entry_step s line =
     (case s of (blanks, entries) \<Rightarrow>
       if trim line = [] then (Suc blanks, entries)
       else
         (case (strip_prefix ''  '' line, rev entries) of
            (Some cont, e # es) \<Rightarrow>
              (0, rev es @ [e\<lparr>en_text := en_text e @ replicate (Suc blanks) LF @ cont\<rparr>])
          | _ \<Rightarrow> (0, case parse_entry line of Some e \<Rightarrow> entries @ [e] | None \<Rightarrow> entries)))"

lemma entries_loop_fold: "entries_loop blanks entries ls = snd (foldl entry_step (blanks, entries) ls)"
proof (induction blanks entries ls rule: entries_loop.induct)
  case (2 blanks entries line ls)
  then show ?case
    by (cases "trim line = []"; cases "strip_prefix ''  '' line"; cases "rev entries"; cases "parse_entry line")
       (simp_all add: entry_step_def)
qed simp

lemma entries_blank: "list_all (\<lambda>l. trim l = []) ls \<Longrightarrow> snd (foldl entry_step s ls) = snd s"
  by (induction ls arbitrary: s) (auto simp: entry_step_def split: prod.splits)

lemma trim_start_space: "trim_start (CHR '' '' # s) = trim_start s"
proof -
  have "\<exists>w. find (\<lambda>w. starts_with w (CHR '' '' # s)) ws_chars = Some w \<and> length w = 1"
    unfolding ws_chars_code by simp
  then have "ws_prefix ws_chars (CHR '' '' # s) = 1" by (auto simp: ws_prefix_def)
  then show ?thesis unfolding trim_start_def by (subst trim_ws.simps) (simp add: Let_def)
qed

lemma trim_space: "trim (CHR '' '' # s) = trim s"
  by (simp add: trim_def trim_start_space)

text \<open>The text under the first line, as it reads back: blank lines become empty ones.\<close>

fun cont_text :: "nat \<Rightarrow> string list \<Rightarrow> string" where
  "cont_text b [] = []"
| "cont_text b (l # ls) = (if trim l = [] then cont_text (Suc b) ls else replicate (Suc b) LF @ l @ cont_text 0 ls)"

definition indent_line :: "string \<Rightarrow> string" where
  "indent_line l = (if l = [] then [] else ''  '' @ l)"

lemma entries_cont:
  "snd (foldl entry_step (b, es @ [e]) (map indent_line ls)) = es @ [e\<lparr>en_text := en_text e @ cont_text b ls\<rparr>]"
proof (induction ls arbitrary: b e)
  case (Cons l ls)
  show ?case
  proof (cases "trim l = []")
    case True
    then have "trim (indent_line l) = []" by (simp add: indent_line_def trim_space)
    then show ?thesis using Cons True by (simp add: entry_step_def)
  next
    case False
    then have l: "l \<noteq> []" by auto
    then have "trim (indent_line l) \<noteq> []" "strip_prefix ''  '' (indent_line l) = Some l"
      using False by (simp_all add: indent_line_def trim_space strip_prefix_def)
    then have "entry_step (b, es @ [e]) (indent_line l)
        = (0, es @ [e\<lparr>en_text := en_text e @ replicate (Suc b) LF @ l\<rparr>])"
      by (simp add: entry_step_def)
    then show ?thesis using Cons.IH [of 0] False by simp
  qed
qed simp

definition stored_text :: "string \<Rightarrow> string" where
  "stored_text t = (case str_lines t of [] \<Rightarrow> [] | l # ls \<Rightarrow> l @ cont_text 0 ls)"

definition stored_entry :: "entry \<Rightarrow> entry" where
  "stored_entry e =
     e\<lparr>en_author := (en_author e)\<lparr>au_name := sanitize_name (au_name (en_author e))\<rparr>,
       en_text := stored_text (en_text e)\<rparr>"

text \<open>
  What an entry must look like: its moment, an RFC 3339 date, holds no comma with a blank
  after it and no line break, its author's name is UTF-8, and no carriage return is in it.
\<close>

definition entry_ok :: "entry \<Rightarrow> bool" where
  "entry_ok e \<longleftrightarrow>
     \<not> contains_str '', '' (en_at e) \<and> LF \<notin> set (en_at e) \<and> CR \<notin> set (en_at e) \<and> CR \<notin> set (en_text e)
     \<and> str_utf8 (au_name (en_author e))"

definition bad_name_chars :: "char set" where
  "bad_name_chars = {CHR ''('', CHR '')'', CHR '':'', LF, CR, CHR '','' }"

lemma name_char_good:
  assumes "ascii_alone c" "x \<in> set (name_char c)"
  shows "x \<notin> bad_name_chars"
proof (cases "c \<in> {''('', '')'', '':'', [LF], [CR], '',''}")
  case True
  then show ?thesis using assms(2) by (auto simp: name_char_def bad_name_chars_def)
next
  case False
  obtain h t where c: "c = h # t" using assms(1) by (cases c) (auto simp: ascii_alone_def utf8_char_def)
  have low: "(of_char y :: nat) < 128" if "y \<in> bad_name_chars" for y
    using that by (auto simp: bad_name_chars_def)
  have "h \<notin> bad_name_chars"
    using low [of h] assms(1) c False by (auto simp: ascii_alone_def bad_name_chars_def)
  moreover have "y \<notin> bad_name_chars" if "y \<in> set t" for y
    using low [of y] that assms(1) c by (auto simp: ascii_alone_def utf8_char_def list_all_iff is_continuation_def)
  ultimately show ?thesis using assms(2) False c by (auto simp: name_char_def)
qed

lemma sanitize_name_good:
  assumes "str_utf8 name"
  shows "set (sanitize_name name) \<inter> bad_name_chars = {}"
proof -
  let ?c = "concat (map name_char (chars name))"
  have c: "set ?c \<inter> bad_name_chars = {}"
    using assms name_char_good by (auto simp: str_utf8_def list_all_iff)
  have "set w \<subseteq> set ?c" if "w \<in> set (split_whitespace ?c)" for w
    using white_pieces_plain [OF that [unfolded split_whitespace_def]]
    by (simp add: concat_chars)
  then have "\<Union> (set ` set (split_whitespace ?c)) \<subseteq> set ?c" by blast
  then have "set (join_with '' '' (split_whitespace ?c)) \<subseteq> {CHR '' ''} \<union> set ?c"
    by (intro order_trans [OF set_join_with] Un_mono) simp
  then have "set (join_with '' '' (split_whitespace ?c)) \<inter> bad_name_chars = {}"
    using c by (auto simp: bad_name_chars_def)
  then show ?thesis by (auto simp: sanitize_name_def Let_def bad_name_chars_def)
qed

lemma sanitize_name_not_Nil [simp]: "sanitize_name name \<noteq> []"
  by (simp add: sanitize_name_def Let_def)

lemma kind_parse_str [simp]: "entry_kind_parse (entry_kind_as_str k) = Some k"
  by (cases k) (simp_all add: entry_kind_parse_def entry_kind_as_str_def)

text \<open>The header line of an entry, without its line break.\<close>

definition entry_head :: "entry \<Rightarrow> string \<Rightarrow> string" where
  "entry_head e first =
     ''- '' @ en_at e @ '', '' @ entry_kind_as_str (en_kind e) @ '' by ''
       @ sanitize_name (au_name (en_author e)) @ '' ('' @ (if au_agent (en_author e) then ''agent'' else ''person'') @ '')''
       @ (if first = [] then [] else '': '' @ first)"

lemma no_str_at:
  assumes "\<not> contains_str p s" "2 \<le> length p" "last p \<noteq> hd (p @ t)" "s = a @ b" "b \<noteq> []" "length p = 2"
  shows "\<not> starts_with p (b @ p @ t)"
proof
  obtain x y where p: "p = [x, y]" using assms(6) by (cases p; cases "tl p") auto
  assume st: "starts_with p (b @ p @ t)"
  show False
  proof (cases "tl b")
    case Nil
    then obtain c where "b = [c]" using assms(5) by (cases b) auto
    then show False using st p assms(3) by simp
  next
    case (Cons c u)
    then obtain d where b: "b = d # c # u" using assms(5) by (cases b) auto
    then have "s = a @ p @ u" using st p assms(4) by simp
    then show False using assms(1) unfolding contains_str_iff by blast
  qed
qed

lemma split_at: "\<not> contains_str '', '' s \<Longrightarrow> split_str '', '' (s @ CHR '','' # CHR '' '' # t) = Some (s, t)"
  using split_str_first [of s "'', ''" t] no_str_at [of "'', ''" s t] by auto

lemma split_kind: "split_str '' by '' (entry_kind_as_str k @ CHR '' '' # CHR ''b'' # CHR ''y'' # CHR '' '' # t)
    = Some (entry_kind_as_str k, t)"
  by (cases k) (simp_all add: split_str_def entry_kind_as_str_def)

lemma find_paren:
  assumes "CHR ''('' \<notin> set s"
  shows "find_str '' ('' (s @ CHR '' '' # CHR ''('' # t) = Some (length s)"
proof -
  have n: "\<not> starts_with ''('' (s @ CHR '' '' # CHR ''('' # t)" if "CHR ''('' \<notin> set s" for s
    using that by (cases s) auto
  show ?thesis using assms by (induction s) (auto simp: n)
qed

lemma split_who:
  assumes "who = ''agent'' \<or> who = ''person''"
  shows "(case split_str ''): '' (who @ CHR '')'' # (if first = [] then [] else CHR '':'' # CHR '' '' # first)) of
        Some (who, body) \<Rightarrow> Some (who, body)
      | None \<Rightarrow> map_option (\<lambda>who. (who, []))
          (strip_suffix '')'' (who @ CHR '')'' # (if first = [] then [] else CHR '':'' # CHR '' '' # first))))
      = Some (who, first)"
  using assms by (cases "first = []"; elim disjE) (simp_all add: split_str_def strip_suffix_Some)

lemma parse_entry_head:
  assumes "entry_ok e"
  shows "parse_entry (entry_head e first) =
    Some (e\<lparr>en_author := (en_author e)\<lparr>au_name := sanitize_name (au_name (en_author e))\<rparr>, en_text := first\<rparr>)"
proof -
  let ?n = "sanitize_name (au_name (en_author e))"
  let ?who = "if au_agent (en_author e) then ''agent'' else ''person''"
  have at: "\<not> contains_str '', '' (en_at e)" using assms by (simp add: entry_ok_def)
  have n: "CHR ''('' \<notin> set ?n"
    using sanitize_name_good [of "au_name (en_author e)"] assms by (auto simp: entry_ok_def bad_name_chars_def)
  have w: "?who = ''agent'' \<or> ?who = ''person''" by simp
  have k: "(?who = ''agent'') = au_agent (en_author e)" by simp
  show ?thesis
    using k
    by (simp add: parse_entry_def entry_head_def strip_prefix_def split_at [OF at] split_kind find_paren [OF n]
        split_who [OF w] Let_def cong: if_cong)
qed

section \<open>Rendered entries, line by line\<close>

lemma chop_line: "LF \<notin> set w \<Longrightarrow> CR \<notin> set w \<Longrightarrow> chop (w @ [LF]) = w"
  by (auto simp: chop_def strip_suffix_Some strip_suffix_None ends_with_iff split: option.splits)

lemma chop_last: "LF \<notin> set w \<Longrightarrow> chop w = w"
  by (auto simp: chop_def strip_suffix_Some split: option.splits)

lemma str_lines_free:
  assumes "CR \<notin> set t" "l \<in> set (str_lines t)"
  shows "LF \<notin> set l \<and> CR \<notin> set l"
proof -
  obtain x where x: "x \<in> set (split_inclusive LF t)" "l = chop x" using assms(2) by (auto simp: str_lines_chop)
  have "set x \<subseteq> set t" using x(1) concat_split_inclusive [of LF t] by (metis UN_upper set_concat)
  then have cr: "CR \<notin> set x" using assms(1) by blast
  have "line_ok LF x \<or> LF \<notin> set x"
    by (rule lines_ok_mem [OF lines_ok_split x(1)])
  then show ?thesis
    using cr x(2) chop_line chop_last by (auto simp: line_ok_def)
qed

definition first_line :: "entry \<Rightarrow> string" where
  "first_line e = (case str_lines (en_text e) of [] \<Rightarrow> [] | l # _ \<Rightarrow> l)"

definition entry_lines :: "entry \<Rightarrow> string list" where
  "entry_lines e = entry_head e (first_line e) # map indent_line (tl (str_lines (en_text e)))"

lemma render_entry_lines: "render_entry e = concat (map (\<lambda>l. l @ [LF]) (entry_lines e))"
proof -
  have "concat (map render_rest ls) = concat (map (\<lambda>l. l @ [LF]) (map indent_line ls))" for ls
    by (induction ls) (simp_all add: render_rest_def indent_line_def)
  then show ?thesis
    by (simp add: render_entry_def entry_lines_def entry_head_def first_line_def Let_def)
qed

lemma entry_head_free:
  assumes "entry_ok e" "LF \<notin> set f" "CR \<notin> set f"
  shows "LF \<notin> set (entry_head e f)" "CR \<notin> set (entry_head e f)"
proof -
  have "set (sanitize_name (au_name (en_author e))) \<inter> bad_name_chars = {}"
    using assms(1) sanitize_name_good by (simp add: entry_ok_def)
  then have n: "LF \<notin> set (sanitize_name (au_name (en_author e)))" "CR \<notin> set (sanitize_name (au_name (en_author e)))"
    by (auto simp: bad_name_chars_def)
  have k: "LF \<notin> set (entry_kind_as_str k)" "CR \<notin> set (entry_kind_as_str k)" for k
    by (cases k; simp add: entry_kind_as_str_def)+
  show "LF \<notin> set (entry_head e f)" "CR \<notin> set (entry_head e f)"
    using assms n k by (auto simp: entry_head_def entry_ok_def)
qed

lemma entry_lines_free:
  assumes "entry_ok e" "l \<in> set (entry_lines e)"
  shows "LF \<notin> set l \<and> CR \<notin> set l" "\<not> starts_with ''## '' l"
proof -
  have cr: "CR \<notin> set (en_text e)" using assms(1) by (simp add: entry_ok_def)
  note free = str_lines_free [OF cr]
  have f: "LF \<notin> set (first_line e) \<and> CR \<notin> set (first_line e)"
    using free by (cases "str_lines (en_text e)") (simp_all add: first_line_def)
  have t: "LF \<notin> set l \<and> CR \<notin> set l" if "l \<in> set (tl (str_lines (en_text e)))" for l
    using free [of l] list.set_sel(2) [of "str_lines (en_text e)" l] that by (cases "str_lines (en_text e)") auto
  show "LF \<notin> set l \<and> CR \<notin> set l"
    using assms(2) entry_head_free [OF assms(1)] f t by (auto simp: entry_lines_def indent_line_def)
  show "\<not> starts_with ''## '' l"
    using assms(2) by (auto simp: entry_lines_def entry_head_def indent_line_def)
qed

lemma rendered_lines:
  assumes "entry_ok e"
  shows "list_all (line_ok LF) (map (\<lambda>l. l @ [LF]) (entry_lines e))"
    and "map chop (map (\<lambda>l. l @ [LF]) (entry_lines e)) = entry_lines e"
    and "list_all (\<lambda>l. \<not> starts_with ''## '' l) (map (\<lambda>l. l @ [LF]) (entry_lines e))"
    and "CR \<notin> set (render_entry e)"
proof -
  note free = entry_lines_free [OF assms]
  show "list_all (line_ok LF) (map (\<lambda>l. l @ [LF]) (entry_lines e))"
    using free(1) by (auto simp: list_all_iff line_ok_def)
  show "map chop (map (\<lambda>l. l @ [LF]) (entry_lines e)) = entry_lines e"
    using free(1) chop_line by (auto intro!: map_idI)
  have "\<not> starts_with ''## '' (l @ [LF])" if "\<not> starts_with ''## '' l" for l
    using that by (cases l; cases "tl l"; cases "tl (tl l)") (auto simp: neq_Nil_conv)
  then show "list_all (\<lambda>l. \<not> starts_with ''## '' l) (map (\<lambda>l. l @ [LF]) (entry_lines e))"
    using free(2) by (auto simp: list_all_iff)
  show "CR \<notin> set (render_entry e)" using free(1) by (auto simp: render_entry_lines)
qed

lemma entry_head_kept: "trim (entry_head e f) \<noteq> []" "strip_prefix ''  '' (entry_head e f) = None"
proof -
  have "CHR ''-'' \<in> set (trim (entry_head e f))"
    by (rule trim_keeps) (auto simp: entry_head_def ws_byte_code ws_bytes_def upt_rec)
  then show "trim (entry_head e f) \<noteq> []" by auto
  show "strip_prefix ''  '' (entry_head e f) = None" by (simp add: entry_head_def strip_prefix_def)
qed

text \<open>Reading the lines of a rendered entry after any others adds exactly that entry.\<close>

lemma entry_read_back:
  assumes "entry_ok e"
  shows "snd (foldl entry_step s (entry_lines e)) = snd s @ [stored_entry e]"
proof -
  obtain b es where s: "s = (b, es)" by (cases s)
  let ?h = "e\<lparr>en_author := (en_author e)\<lparr>au_name := sanitize_name (au_name (en_author e))\<rparr>, en_text := first_line e\<rparr>"
  have "entry_step s (entry_head e (first_line e)) = (0, es @ [?h])"
    using entry_head_kept parse_entry_head [OF assms] by (simp add: entry_step_def s)
  then have "snd (foldl entry_step s (entry_lines e)) = es @ [?h\<lparr>en_text := en_text ?h @ cont_text 0 (tl (str_lines (en_text e)))\<rparr>]"
    by (simp add: entry_lines_def entries_cont del: append.append_Cons)
  then show ?thesis
    by (auto simp: s stored_entry_def stored_text_def first_line_def split: list.splits)
qed

lemma entries_read_back:
  "list_all entry_ok es \<Longrightarrow>
     snd (foldl entry_step s (concat (map entry_lines es))) = snd s @ map stored_entry es"
  by (induction es arbitrary: s) (simp_all add: entry_read_back)

section \<open>Line breaks at the end of a block\<close>

lemma trim_end_LF [simp]: "trim_end (w @ [LF]) = trim_end w"
proof -
  have "\<exists>v. find (\<lambda>v. starts_with v (LF # rev w)) (map rev ws_chars) = Some v \<and> length v = 1"
    unfolding ws_chars_code by simp
  then have "ws_prefix (map rev ws_chars) (LF # rev w) = 1" by (auto simp: ws_prefix_def)
  then have "trim_ws (map rev ws_chars) (LF # rev w) = trim_ws (map rev ws_chars) (rev w)"
    by (subst trim_ws.simps) (simp add: Let_def)
  then show ?thesis by (simp add: trim_end_def)
qed

lemma ws_LF: "w \<in> set ws_chars \<Longrightarrow> LF \<in> set w \<Longrightarrow> w = [LF]"
  unfolding ws_chars_code by auto

lemma ws_start_LF: "v \<noteq> [] \<Longrightarrow> w \<in> set ws_chars \<Longrightarrow> starts_with w (v @ [LF]) \<longleftrightarrow> starts_with w v"
  using ws_LF [of w] by (cases w rule: rev_cases) (auto simp: starts_with_iff append_eq_append_conv2 append_eq_Cons_conv Cons_eq_append_conv)

lemma trim_start_LF: "trim_start (v @ [LF]) = (if trim_start v = [] then [] else trim_start v @ [LF])"
proof -
  have "ws = ws_chars \<Longrightarrow> trim_ws ws (v @ [LF]) = (if trim_ws ws v = [] then [] else trim_ws ws v @ [LF])" for ws
  proof (induction ws v rule: trim_ws.induct)
    case (1 ws v)
    show ?case
    proof (cases "v = []")
      case True
      have "trim_ws ws_chars [LF] = []" "trim_ws ws_chars [] = []" by code_simp+
      then show ?thesis using True 1(2) by simp
    next
      case False
      have "find (\<lambda>w. starts_with w (v @ [LF])) ws_chars = find (\<lambda>w. starts_with w v) ws_chars"
        using ws_start_LF [OF False] by (intro find_cong) auto
      then have p: "ws_prefix ws (v @ [LF]) = ws_prefix ws v" by (simp add: ws_prefix_def 1(2))
      show ?thesis
      proof (cases "ws_prefix ws v = 0")
        case True
        then have "trim_ws ws (v @ [LF]) = v @ [LF]" "trim_ws ws v = v"
          using p by (subst trim_ws.simps; simp add: Let_def)+
        then show ?thesis using False by simp
      next
        case n: False
        have len: "ws_prefix ws v \<le> length v"
          by (auto simp: ws_prefix_def find_Some_iff starts_with_iff split: option.splits)
        have "trim_ws ws (v @ [LF]) = trim_ws ws (drop (ws_prefix ws v) v @ [LF])"
          using p n False len by (subst trim_ws.simps) (simp add: Let_def)
        moreover have "trim_ws ws v = trim_ws ws (drop (ws_prefix ws v) v)"
          using n False by (subst trim_ws.simps) (simp add: Let_def)
        ultimately show ?thesis using 1 n False by simp
      qed
    qed
  qed
  then show ?thesis by (simp add: trim_start_def)
qed

lemma trim_LF [simp]: "trim (w @ [LF]) = trim w"
proof (cases "trim_start w = []")
  case True
  then show ?thesis by (simp add: trim_def trim_start_LF)
next
  case False
  then show ?thesis by (simp add: trim_def trim_start_LF)
qed

lemma header_LF: "starts_with ''## '' (w @ [LF]) \<longleftrightarrow> starts_with ''## '' w"
proof -
  consider "w = []" | a where "w = [a]" | a b where "w = [a, b]" | a b c r where "w = a # b # c # r"
    by (metis neq_Nil_conv)
  then show ?thesis by cases auto
qed

lemma line_okI: "LF \<notin> set w \<Longrightarrow> line_ok LF (w @ [LF])"
  by (auto simp: line_ok_def)

lemma snoc_shape:
  assumes "L @ [v] = ol @ yl @ cl # el"
  shows "el = [] \<and> cl = v \<and> L = ol @ yl \<or> (\<exists>el'. el = el' @ [v] \<and> L = ol @ yl @ cl # el')"
  using assms by (cases el rule: rev_cases) auto

text \<open>A block reads the same with and without the line break at its end.\<close>

lemma read_last_line:
  assumes L: "list_all (line_ok LF) L" and w: "w \<noteq> []" "LF \<notin> set w" "CR \<notin> set w"
  shows "read_block Y (i, concat (L @ [w @ [LF]])) = read_block Y (i, concat (L @ [w]))"
proof -
  have ok: "lines_ok LF (L @ [w])" "lines_ok LF (L @ [w @ [LF]])"
    using L w by (auto simp: lines_ok_append_iff line_okI)
  have ch: "chop (w @ [LF]) = chop w" using w by (simp add: chop_line chop_last)
  have sh: "yaml_shape ol yl (w @ [LF]) = yaml_shape ol yl w" for ol yl by (simp add: yaml_shape_def)
  show ?thesis
  proof (cases "\<exists>ol yl cl el. L @ [w] = ol @ yl @ cl # el \<and> yaml_shape ol yl cl")
    case True
    then obtain ol yl cl el where s: "L @ [w] = ol @ yl @ cl # el" "yaml_shape ol yl cl" by blast
    from snoc_shape [OF s(1)] show ?thesis
    proof
      assume e: "el = [] \<and> cl = w \<and> L = ol @ yl"
      then have n: "L @ [w @ [LF]] = ol @ yl @ (w @ [LF]) # []" "L @ [w] = ol @ yl @ w # []" "yaml_shape ol yl w"
        using s by auto
      show ?thesis
        using read_block_shape [of ol yl "w @ [LF]" "[]" Y i] read_block_shape [of ol yl w "[]" Y i] n ok sh
        by (simp del: concat_append)
    next
      assume "\<exists>el'. el = el' @ [w] \<and> L = ol @ yl @ cl # el'"
      then obtain el' where n: "L @ [w @ [LF]] = ol @ yl @ cl # el' @ [w @ [LF]]" "L @ [w] = ol @ yl @ cl # el' @ [w]" by auto
      show ?thesis
        using read_block_shape [of ol yl cl "el' @ [w @ [LF]]" Y i] read_block_shape [of ol yl cl "el' @ [w]" Y i] n ok s(2) ch
        by (simp del: concat_append cong: option.case_cong)
    qed
  next
    case False
    have F: "\<not> (\<exists>ol yl cl el. L @ [w @ [LF]] = ol @ yl @ cl # el \<and> yaml_shape ol yl cl)"
    proof
      assume "\<exists>ol yl cl el. L @ [w @ [LF]] = ol @ yl @ cl # el \<and> yaml_shape ol yl cl"
      then obtain ol yl cl el where s: "L @ [w @ [LF]] = ol @ yl @ cl # el" "yaml_shape ol yl cl" by blast
      from snoc_shape [OF s(1)] show False
      proof
        assume "el = [] \<and> cl = w @ [LF] \<and> L = ol @ yl"
        then have "L @ [w] = ol @ yl @ w # [] \<and> yaml_shape ol yl w" using s(2) by (simp add: sh)
        then show False using False by blast
      next
        assume "\<exists>el'. el = el' @ [w @ [LF]] \<and> L = ol @ yl @ cl # el'"
        then obtain el' where "L @ [w] = ol @ yl @ cl # (el' @ [w]) \<and> yaml_shape ol yl cl" using s(2) by auto
        then show False using False by blast
      qed
    qed
    show ?thesis
      using read_block_None [of "concat (L @ [w])" Y i] read_block_None [of "concat (L @ [w @ [LF]])" Y i] False F
      by (simp add: split_concat_lines [OF ok(1)] split_concat_lines [OF ok(2)] del: concat_append)
  qed
qed

lemma trim_end_blank [simp]: "trim_end [LF] = []" "chop [LF] = []" "trim [] = []"
  by code_simp+

lemma read_blank_line:
  assumes L: "list_all (line_ok LF) L"
  shows "read_block Y (i, concat (L @ [[LF]])) = read_block Y (i, concat L)"
proof -
  have ok: "lines_ok LF L" "lines_ok LF (L @ [[LF]])"
    using L by (auto simp: lines_ok_append_iff line_ok_def lines_ok_all)
  have nb: "\<not> yaml_shape ol yl [LF]" for ol yl by (simp add: yaml_shape_def)
  show ?thesis
  proof (cases "\<exists>ol yl cl el. L = ol @ yl @ cl # el \<and> yaml_shape ol yl cl")
    case True
    then obtain ol yl cl el where s: "L = ol @ yl @ cl # el" "yaml_shape ol yl cl" by blast
    have "entries_loop 0 [] (map chop (el @ [[LF]])) = entries_loop 0 [] (map chop el)"
      by (simp add: entries_loop_fold entry_step_def split: prod.splits)
    then show ?thesis
      using read_block_shape [OF s(2), of "el @ [[LF]]" Y i] read_block_shape [OF s(2), of el Y i] ok s(1)
      by (simp del: concat_append map_append cong: option.case_cong)
  next
    case False
    have F: "\<not> (\<exists>ol yl cl el. L @ [[LF]] = ol @ yl @ cl # el \<and> yaml_shape ol yl cl)"
    proof
      assume "\<exists>ol yl cl el. L @ [[LF]] = ol @ yl @ cl # el \<and> yaml_shape ol yl cl"
      then obtain ol yl cl el where s: "L @ [[LF]] = ol @ yl @ cl # el" "yaml_shape ol yl cl" by blast
      from snoc_shape [OF s(1)] s(2) False show False by (auto simp: nb)
    qed
    show ?thesis
      using read_block_None [of "concat L" Y i] read_block_None [of "concat (L @ [[LF]])" Y i] False F
      by (simp add: split_concat_lines [OF ok(1)] split_concat_lines [OF ok(2)] del: concat_append)
  qed
qed

section \<open>A file as its head and its blocks\<close>

definition lines_of :: "(string \<times> string list) list \<Rightarrow> string list" where
  "lines_of bs = concat (map (\<lambda>(l, b). l # b) bs)"

lemma lines_of_simps [simp]: "lines_of [] = []" "lines_of ((l, b) # bs) = l # b @ lines_of bs"
  "lines_of (as @ bs) = lines_of as @ lines_of bs"
  by (simp_all add: lines_of_def)

definition wf_cut :: "string list \<Rightarrow> (string \<times> string list) list \<Rightarrow> bool" where
  "wf_cut h bs \<longleftrightarrow> list_all (\<lambda>l. \<not> starts_with ''## '' l) h
     \<and> list_all (\<lambda>(l, b). starts_with ''## '' l \<and> list_all (\<lambda>l. \<not> starts_with ''## '' l) b) bs"

lemma cut_wf: "cut_blocks ls = (h, bs) \<Longrightarrow> ls = h @ lines_of bs \<and> wf_cut h bs"
proof (induction ls arbitrary: h bs)
  case (Cons l ls)
  obtain h' bs' where c: "cut_blocks ls = (h', bs')" by (cases "cut_blocks ls")
  show ?case using Cons.IH [OF c] Cons.prems c by (auto simp: wf_cut_def split: if_splits)
qed (simp add: wf_cut_def)

lemma cut_lines_of: "wf_cut [] bs \<Longrightarrow> cut_blocks (lines_of bs) = ([], bs)"
proof (induction bs)
  case (Cons x bs)
  obtain l b where x: "x = (l, b)" by (cases x)
  have "cut_blocks (lines_of bs) = ([], bs)" using Cons by (simp add: wf_cut_def)
  moreover have "list_all (\<lambda>l. \<not> starts_with ''## '' l) b \<Longrightarrow> cut_blocks ls = ([], as) \<Longrightarrow> cut_blocks (b @ ls) = (b, as)" for ls as
    by (induction b) auto
  ultimately show ?case using Cons.prems x by (simp add: wf_cut_def)
qed simp

lemma wf_cut_blocks: "wf_cut h bs \<Longrightarrow> cut_blocks (h @ lines_of bs) = (h, bs)"
proof (induction h)
  case (Cons l h)
  then show ?case by (simp add: wf_cut_def)
qed (simp add: cut_lines_of)

definition readings :: "yaml_lib \<Rightarrow> (string \<times> string list) list \<Rightarrow> thread list" where
  "readings Y bs = List.map_filter (\<lambda>b. map_option fst (read_block Y (block_of b))) bs"

lemma readings_simps [simp]: "readings Y [] = []"
  "readings Y (b # bs) = (case read_block Y (block_of b) of None \<Rightarrow> [] | Some r \<Rightarrow> [fst r]) @ readings Y bs"
  by (simp_all add: readings_def List.map_filter_simps split: option.splits)

lemma readings_append [simp]: "readings Y (as @ bs) = readings Y as @ readings Y bs"
  by (induction as) simp_all

definition parse_text :: "yaml_lib \<Rightarrow> string \<Rightarrow> thread list" where
  "parse_text Y t = readings Y (snd (cut_blocks (split_inclusive LF t)))"

lemma parse_threads_text: "parse_threads Y t = parse_text Y (to_lf t)"
  by (simp add: parse_threads_blocks parse_text_def readings_def blocks_def map_filter_map)

lemma parse_text_lines:
  assumes "lines_ok LF (h @ lines_of bs)" "wf_cut h bs"
  shows "parse_text Y (concat (h @ lines_of bs)) = readings Y bs"
  by (simp only: parse_text_def split_concat_lines [OF assms(1)] wf_cut_blocks [OF assms(2)] snd_conv)

lemma not_ends_line:
  assumes "\<not> ends_line LF s"
  obtains L w where "split_inclusive LF s = L @ [w]" "list_all (line_ok LF) L" "w \<noteq> []" "LF \<notin> set w"
proof -
  have "split_inclusive LF s \<noteq> []" using assms by (cases s) (auto simp: ends_line_def split: list.splits)
  then obtain L w where s: "split_inclusive LF s = L @ [w]" by (cases "split_inclusive LF s" rule: rev_cases) auto
  then have l: "list_all (line_ok LF) L" "line_ok LF w \<or> w \<noteq> [] \<and> LF \<notin> set w"
    using lines_ok_split [of LF s] by (auto simp: lines_ok_append_iff)
  have "\<not> line_ok LF w"
  proof
    assume "line_ok LF w"
    then obtain v where "w = v @ [LF]" by (auto simp: line_ok_def)
    then have "s = (concat L @ v) @ [LF]" using concat_split_inclusive [of LF s] s by simp
    then show False using assms by (auto simp: ends_line_def)
  qed
  with l s that show ?thesis by blast
qed

text \<open>The line break at the end of a file changes no thread.\<close>

lemma parse_text_LF:
  assumes "CR \<notin> set s"
  shows "parse_text Y (s @ [LF]) = parse_text Y s"
proof -
  obtain h bs where c: "cut_blocks (split_inclusive LF s) = (h, bs)" by (cases "cut_blocks (split_inclusive LF s)")
  note wf = cut_wf [OF c]
  have old: "parse_text Y s = readings Y bs" by (simp add: parse_text_def c)
  have new: "parse_text Y (s @ [LF]) = readings Y bs'"
    if "split_inclusive LF (s @ [LF]) = h' @ lines_of bs'" "wf_cut h' bs'" for h' bs'
    by (simp add: parse_text_def that(1) wf_cut_blocks [OF that(2)])
  show ?thesis
  proof (cases "ends_line LF s")
    case True
    have sp: "split_inclusive LF (s @ [LF]) = h @ lines_of bs @ [[LF]]"
      using wf by (simp add: split_inclusive_append [OF True])
    have all: "list_all (line_ok LF) (h @ lines_of bs)" using ends_line_lines [OF True] wf by simp
    show ?thesis
    proof (cases bs rule: rev_cases)
      case Nil
      then show ?thesis using new [of "h @ [[LF]]" "[]"] sp wf old by (simp add: wf_cut_def)
    next
      case (snoc bs' x)
      obtain l b where x: "x = (l, b)" by (cases x)
      have "parse_text Y (s @ [LF]) = readings Y (bs' @ [(l, b @ [[LF]])])"
        by (rule new [of h]) (use sp wf snoc x in \<open>auto simp: wf_cut_def\<close>)
      moreover have "read_block Y (block_of (l, b @ [[LF]])) = read_block Y (block_of (l, b))"
        using read_blank_line [of b Y] all snoc x by (simp add: block_of_def)
      ultimately show ?thesis using old snoc x by simp
    qed
  next
    case False
    from not_ends_line [OF this] obtain L w where w: "split_inclusive LF s = L @ [w]" "list_all (line_ok LF) L"
      "w \<noteq> []" "LF \<notin> set w" by blast
    have s: "s = concat L @ w" using concat_split_inclusive [of LF s] w(1) by simp
    then have cr: "CR \<notin> set w" using assms by simp
    have sp: "split_inclusive LF (s @ [LF]) = L @ [w @ [LF]]"
      using split_concat_lines [of LF "L @ [w @ [LF]]"] w(2,4) s by (simp add: lines_ok_append_iff line_okI)
    have e: "L @ [w] = h @ lines_of bs" using wf w(1) by simp
    show ?thesis
    proof (cases bs rule: rev_cases)
      case Nil
      then show ?thesis using new [of "L @ [w @ [LF]]" "[]"] sp wf old e by (auto simp: wf_cut_def header_LF)
    next
      case (snoc bs' x)
      obtain l b where x: "x = (l, b)" by (cases x)
      show ?thesis
      proof (cases b rule: rev_cases)
        case Nil
        then have lw: "l = w" "L = h @ lines_of bs'" using e snoc x by auto
        have "starts_with ''## '' w" using wf snoc x lw by (simp add: wf_cut_def)
        then have d: "3 - length w = 0" by (auto simp: starts_with_iff)
        have "parse_text Y (s @ [LF]) = readings Y (bs' @ [(w @ [LF], [])])"
          by (rule new [of h]) (use sp wf snoc x lw Nil in \<open>auto simp: wf_cut_def header_LF\<close>)
        then show ?thesis using old snoc x lw Nil by (simp add: block_of_def d)
      next
        case b: (snoc b' v)
        then have lw: "v = w" "L = h @ lines_of bs' @ l # b'" using e snoc x by auto
        have "parse_text Y (s @ [LF]) = readings Y (bs' @ [(l, b' @ [w @ [LF]])])"
          by (rule new [of h]) (use sp wf snoc x lw b in \<open>auto simp: wf_cut_def header_LF\<close>)
        moreover have "read_block Y (block_of (l, b' @ [w @ [LF]])) = read_block Y (block_of (l, b' @ [w]))"
          using read_last_line [of b' w Y] w lw cr by (simp add: block_of_def)
        ultimately show ?thesis using old snoc x lw b by simp
      qed
    qed
  qed
qed

lemma parse_text_breaks: "CR \<notin> set s \<Longrightarrow> parse_text Y (s @ replicate k LF) = parse_text Y s"
proof (induction k)
  case (Suc k)
  then show ?case using parse_text_LF [of "s @ replicate k LF" Y] by (simp flip: replicate_append_same)
qed simp

section \<open>A new thread reads back\<close>

text \<open>
  What the YAML library is relied on for: the block it writes ends in a line break, holds no
  carriage return, no line that is a bare fence or a \<open>##\<close> heading (a quote is indented or
  on its key's line), and reads back as the block written.
\<close>

definition yaml_ok :: "yaml_lib \<Rightarrow> meta \<Rightarrow> bool" where
  "yaml_ok Y m \<longleftrightarrow>
     (let y = yl_to_string Y m
      in ends_line LF y \<and> CR \<notin> set y
         \<and> list_all (\<lambda>l. trim_end l \<noteq> ''```'' \<and> \<not> starts_with ''## '' l) (split_inclusive LF y)
         \<and> yl_from_str Y y = Some m)"

definition thread_ok :: "yaml_lib \<Rightarrow> thread \<Rightarrow> bool" where
  "thread_ok Y t \<longleftrightarrow>
     trim (th_id t) = th_id t \<and> LF \<notin> set (th_id t) \<and> CR \<notin> set (th_id t)
     \<and> list_all entry_ok (th_entries t) \<and> yaml_ok Y (meta_of t)"

definition stored_thread :: "thread \<Rightarrow> thread" where
  "stored_thread t =
     t\<lparr>th_anchor := (th_anchor t)\<lparr>an_occurrence := max (an_occurrence (th_anchor t)) 1\<rparr>,
       th_entries := map stored_entry (th_entries t)\<rparr>"

definition with_breaks :: "string list \<Rightarrow> string list" where
  "with_breaks ls = map (\<lambda>l. l @ [LF]) ls"

lemma rendered_entries:
  assumes "list_all entry_ok es"
  defines "ls \<equiv> concat (map entry_lines es)"
  shows "concat (map render_entry es) = concat (with_breaks ls)"
    and "list_all (line_ok LF) (with_breaks ls)" "map chop (with_breaks ls) = ls"
    and "list_all (\<lambda>l. \<not> starts_with ''## '' l) (with_breaks ls)" "CR \<notin> set (concat (with_breaks ls))"
proof -
  have ok: "entry_ok e" if "e \<in> set es" for e using assms(1) that by (simp add: list_all_iff)
  have wb: "with_breaks ls = concat (map (\<lambda>e. with_breaks (entry_lines e)) es)"
    by (simp add: ls_def with_breaks_def map_concat comp_def)
  show r: "concat (map render_entry es) = concat (with_breaks ls)"
  proof -
    have "concat (map render_entry xs) = concat (concat (map (\<lambda>e. with_breaks (entry_lines e)) xs))" for xs
      by (induction xs) (simp_all add: render_entry_lines with_breaks_def)
    then show ?thesis by (simp add: wb)
  qed
  show "list_all (line_ok LF) (with_breaks ls)" "list_all (\<lambda>l. \<not> starts_with ''## '' l) (with_breaks ls)"
    using rendered_lines(1,3) [OF ok] by (auto simp: ls_def with_breaks_def list_all_iff)
  show "map chop (with_breaks ls) = ls"
    using rendered_lines(2) [OF ok] by (simp add: wb ls_def with_breaks_def map_concat comp_def cong: map_cong)
  show "CR \<notin> set (concat (with_breaks ls))"
    unfolding r [symmetric] using rendered_lines(4) [OF ok] by auto
qed

lemma rendered_thread:
  assumes "thread_ok Y t"
  shows "\<exists>bl. render_thread Y t = concat ((''## '' @ th_id t @ [LF]) # bl)
      \<and> list_all (line_ok LF) ((''## '' @ th_id t @ [LF]) # bl) \<and> wf_cut [] [(''## '' @ th_id t @ [LF], bl)]
      \<and> read_block Y (block_of (''## '' @ th_id t @ [LF], bl)) = Some (stored_thread t, meta_of t)
      \<and> CR \<notin> set (render_thread Y t)"
proof -
  let ?y = "yl_to_string Y (meta_of t)" and ?es = "concat (map entry_lines (th_entries t))"
  have y: "ends_line LF ?y" "CR \<notin> set ?y" "yl_from_str Y ?y = Some (meta_of t)"
      "list_all (\<lambda>l. trim_end l \<noteq> ''```'' \<and> \<not> starts_with ''## '' l) (split_inclusive LF ?y)"
    and i: "trim (th_id t) = th_id t" "LF \<notin> set (th_id t)" "CR \<notin> set (th_id t)" and e: "list_all entry_ok (th_entries t)"
    using assms by (simp_all add: thread_ok_def yaml_ok_def Let_def)
  note r = rendered_entries [OF e]
  let ?ol = "[[LF], ''```yaml'' @ [LF]]" and ?yl = "split_inclusive LF ?y" and ?cl = "''```'' @ [LF]"
  let ?el = "[LF] # with_breaks ?es"
  let ?bl = "?ol @ ?yl @ ?cl # ?el" and ?h = "''## '' @ th_id t @ [LF]"
  have tx: "render_thread Y t = concat (?h # ?bl)"
    by (simp add: render_thread_def r(1))
  have o: "opens_yaml (''```yaml'' @ [LF])" "\<not> opens_yaml [LF]" "trim_end ?cl = ''```''" by code_simp+
  have sh: "yaml_shape ?ol ?yl ?cl"
    using y(4) o by (simp add: yaml_shape_def list_all_iff)
  have f: "line_ok LF [LF]" "line_ok LF (''```yaml'' @ [LF])" "line_ok LF ?cl" "line_ok LF ?h"
    using i(2) by (auto simp: line_ok_def)
  have ok: "list_all (line_ok LF) (?h # ?bl)"
    using r(2) ends_line_lines [OF y(1)] f by simp
  have "list_all (\<lambda>l. \<not> starts_with ''## '' l) ?bl"
    using y(4) r(4) by (auto simp: list_all_iff)
  then have wf: "wf_cut [] [(?h, ?bl)]" by (simp add: wf_cut_def)
  have en: "entries_loop 0 [] (map chop ?el) = map stored_entry (th_entries t)"
    using entries_read_back [OF e, of "(1, [])"] r(3) by (simp add: entries_loop_fold entry_step_def)
  have "read_block Y (th_id t, concat ?bl) = thread_of (th_id t) (meta_of t) (map stored_entry (th_entries t))"
  proof -
    have "list_all (line_ok LF) ?bl" using ok by (simp only: list.pred_inject(2))
    from read_block_shape [OF sh lines_ok_all [OF this], of Y "th_id t"] y(3) en show ?thesis
      by (simp only: concat_split_inclusive option.case)
  qed
  also have "\<dots> = Some (stored_thread t, meta_of t)"
    by (simp add: thread_of_def meta_of_def stored_thread_def split: section_ref.splits)
  finally have rd: "read_block Y (block_of (?h, ?bl)) = Some (stored_thread t, meta_of t)"
    using i(1) by (simp add: block_of_def)
  have "CR \<notin> set (render_thread Y t)"
    unfolding tx using r(5) y(2) i(3) concat_split_inclusive [of LF ?y] by (auto simp flip: set_concat)
  then show ?thesis using tx ok wf rd by blast
qed

lemma to_lf_plain: "CR \<notin> set s \<Longrightarrow> to_lf s = s"
  by (auto simp: to_lf_def contains_CRLF_iff)

lemma to_lf_set: "c \<in> set (to_lf s) \<Longrightarrow> c = CR \<or> c \<in> set s"
proof -
  have "c \<in> set (to_lf_loop n s) \<Longrightarrow> c = CR \<or> c \<in> set s" for n
    by (induction n s rule: to_lf_loop.induct) (auto split: if_splits)
  then show "c \<in> set (to_lf s) \<Longrightarrow> c = CR \<or> c \<in> set s" by (auto simp: to_lf_def split: if_splits)
qed

lemma parse_blank:
  assumes "trim s = []"
  shows "parse_text Y (to_lf s) = []"
proof -
  have "CHR ''#'' \<notin> set s"
  proof
    assume "CHR ''#'' \<in> set s"
    then have "CHR ''#'' \<in> set (trim s)" by (rule trim_keeps) (simp add: ws_byte_code ws_bytes_def upt_rec)
    then show False using assms by simp
  qed
  then have "CHR ''#'' \<notin> set (to_lf s)" using to_lf_set by fastforce
  then have "\<not> starts_with ''## '' l" if "l \<in> set (split_inclusive LF (to_lf s))" for l
  proof -
    have "set l \<subseteq> set (to_lf s)" using that by (metis UN_upper concat_split_inclusive set_concat)
    then show ?thesis using \<open>CHR ''#'' \<notin> set (to_lf s)\<close> by (cases l) auto
  qed
  then have "cut_blocks (split_inclusive LF (to_lf s)) = (split_inclusive LF (to_lf s), [])"
    by (intro cut_blocks_none) (simp add: list_all_iff)
  then show ?thesis by (simp add: parse_text_def)
qed

lemma parse_text_append:
  assumes "ends_line LF a" "list_all (line_ok LF) (l # bl)" "wf_cut [] [(l, bl)]"
  shows "parse_text Y (a @ concat (l # bl)) = parse_text Y a @ readings Y [(l, bl)]"
proof -
  obtain h bs where c: "cut_blocks (split_inclusive LF a) = (h, bs)" by (cases "cut_blocks (split_inclusive LF a)")
  note wf = cut_wf [OF c]
  have "split_inclusive LF (a @ concat (l # bl)) = h @ lines_of (bs @ [(l, bl)])"
    using split_inclusive_append [OF assms(1)] split_concat_lines [OF lines_ok_all [OF assms(2)]] wf by simp
  moreover have "wf_cut h (bs @ [(l, bl)])" using wf assms(3) by (simp add: wf_cut_def)
  ultimately show ?thesis by (simp only: parse_text_def wf_cut_blocks snd_conv c readings_append)
qed

text \<open>
  C18: a thread written to a thread file reads back. \<open>open_thread\<close> adds to the threads the
  file reads as exactly the new one, as it is stored: the author names made safe, the
  blank lines of the entries empty, the occurrence at least 1. No thread there before
  changes.
\<close>

theorem open_thread_roundtrip:
  assumes "thread_ok Y t" "CR \<notin> set (to_lf file)"
  shows "parse_threads Y (open_thread Y file t) = parse_threads Y file @ [stored_thread t]"
proof -
  obtain bl where r: "render_thread Y t = concat ((''## '' @ th_id t @ [LF]) # bl)"
    and l: "list_all (line_ok LF) ((''## '' @ th_id t @ [LF]) # bl)" "wf_cut [] [(''## '' @ th_id t @ [LF], bl)]"
    and b: "read_block Y (block_of (''## '' @ th_id t @ [LF], bl)) = Some (stored_thread t, meta_of t)"
    and cr: "CR \<notin> set (render_thread Y t)"
    using rendered_thread [OF assms(1)] by blast
  have app: "parse_text Y (a @ render_thread Y t) = parse_text Y a @ [stored_thread t]" if "ends_line LF a" for a
    unfolding r parse_text_append [OF that l] by (simp add: b del: append.append_Cons)
  define base where "base = (if trim file = [] then ''# Threads'' @ [LF, LF] else trim_end_char LF (to_lf file) @ [LF, LF])"
  have e: "ends_line LF base" by (auto simp: base_def ends_line_def)
  have p: "parse_text Y base = parse_text Y (to_lf file) \<and> CR \<notin> set base"
  proof (cases "trim file = []")
    case True
    have "cut_blocks (split_inclusive LF (''# Threads'' @ [LF, LF])) = ([''# Threads'' @ [LF], [LF]], [])" by code_simp
    then have "parse_text Y base = []" using True by (simp add: base_def parse_text_def)
    then show ?thesis using True parse_blank by (simp add: base_def)
  next
    case False
    let ?x = "trim_end_char LF (to_lf file)"
    obtain k where k: "to_lf file = ?x @ replicate k LF"
      using trim_end_char_decomp by metis
    then have "CR \<notin> set ?x" using assms(2) by (metis Un_iff set_append)
    then have "parse_text Y (?x @ replicate 2 LF) = parse_text Y (?x @ replicate k LF)"
      by (metis parse_text_breaks)
    then show ?thesis using False \<open>CR \<notin> set ?x\<close> k by (simp add: base_def numeral_2_eq_2)
  qed
  have "parse_threads Y (open_thread Y file t) = parse_text Y (base @ render_thread Y t)"
    using p cr by (simp add: parse_threads_text open_thread_def base_def [symmetric] to_lf_plain)
  then show ?thesis using app [OF e] p by (simp add: parse_threads_text)
qed

definition demo_yaml :: yaml_lib where
  "demo_yaml =
     \<lparr>yl_to_string = (\<lambda>m. ''section: '' @ (case mt_section m of Some s \<Rightarrow> s | None \<Rightarrow> []) @ [LF]
          @ ''status: '' @ thread_status_as_str (mt_status m) @ [LF]),
      yl_from_str = map_of (concat (map (\<lambda>s. map (\<lambda>st.
          (''section: '' @ s @ [LF] @ ''status: '' @ thread_status_as_str st @ [LF],
           \<lparr>mt_section = Some s, mt_heading = None, mt_quote = None, mt_occurrence = 1, mt_status = st\<rparr>))
          [OpenThread, Resolved]) [''s-1'', ''s-2'']))\<rparr>"

definition demo_entry :: entry where
  "demo_entry = \<lparr>en_at = ''2026-01-05T10:00:00Z'', en_kind = Comment,
     en_author = \<lparr>au_name = ''Ann (dev)'', au_agent = False\<rparr>, en_text = ''Why?'' @ [LF, LF] @ ''See below.''\<rparr>"

definition demo_thread :: thread where
  "demo_thread = \<lparr>th_id = ''t-a1'', th_anchor = \<lparr>an_section = SectionId ''s-1'', an_quote = None, an_occurrence = 0\<rparr>,
     th_status = OpenThread, th_entries = [demo_entry]\<rparr>"

theorem open_thread_roundtrip_witness:
  "parse_threads demo_yaml (open_thread demo_yaml [] demo_thread) = parse_threads demo_yaml [] @ [stored_thread demo_thread]
     \<and> map en_text (th_entries (stored_thread demo_thread)) = [en_text demo_entry]
     \<and> map (au_name \<circ> en_author) (th_entries (stored_thread demo_thread)) = [''Ann dev'']"
proof (intro conjI)
  have "yaml_ok demo_yaml (meta_of demo_thread)" by code_simp
  moreover have "list_all entry_ok (th_entries demo_thread)" by code_simp
  moreover have "trim (th_id demo_thread) = th_id demo_thread \<and> LF \<notin> set (th_id demo_thread) \<and> CR \<notin> set (th_id demo_thread)"
    by code_simp
  ultimately have "thread_ok demo_yaml demo_thread" by (simp add: thread_ok_def)
  from open_thread_roundtrip [OF this, of "[]"]
  show "parse_threads demo_yaml (open_thread demo_yaml [] demo_thread) = parse_threads demo_yaml [] @ [stored_thread demo_thread]"
    by (simp add: to_lf_plain)
  show "map en_text (th_entries (stored_thread demo_thread)) = [en_text demo_entry]" by code_simp
  show "map (au_name \<circ> en_author) (th_entries (stored_thread demo_thread)) = [''Ann dev'']" by code_simp
qed

end
