(* ===== verification/ThreadEdits.thy ===== *)
theory ThreadEdits
  imports Threads
begin

text \<open>
  What \<open>append_entry\<close> and its rewriting of the status line leave of a thread file
  (\<open>core/src/threads.rs\<close>): the edited file, line by line, and the threads it reads as.
\<close>

section \<open>Appending an entry\<close>

lemma flat_lines: "flat bs = concat (lines_of bs)"
  by (induction bs) auto

lemma block_spans_split:
  "block_spans at bs = ss1 @ s # ss2 \<Longrightarrow>
     \<exists>b1 l bl b2. bs = b1 @ (l, bl) # b2 \<and> ss1 = block_spans at b1
       \<and> s = \<lparr>sp_id = trim (drop 3 l), sp_start = at + length (flat b1), sp_body = at + length (flat b1) + length l,
              sp_end = at + length (flat b1) + length l + length (concat bl)\<rparr>"
proof (induction bs arbitrary: at ss1)
  case (Cons x bs)
  obtain l bl where x: "x = (l, bl)" by (cases x)
  show ?case
  proof (cases ss1)
    case Nil
    then show ?thesis using Cons.prems x
      by (intro exI [of _ "[]"] exI [of _ l] exI [of _ bl] exI [of _ bs]) auto
  next
    case (Cons y ys)
    then have "block_spans (at + length l + length (concat bl)) bs = ys @ s # ss2" using Cons.prems x by simp
    from Cons.IH [OF this] obtain b1 l' bl' b2 where "bs = b1 @ (l', bl') # b2"
      "ys = block_spans (at + length l + length (concat bl)) b1"
      "s = \<lparr>sp_id = trim (drop 3 l'), sp_start = at + length l + length (concat bl) + length (flat b1),
         sp_body = at + length l + length (concat bl) + length (flat b1) + length l',
         sp_end = at + length l + length (concat bl) + length (flat b1) + length l' + length (concat bl')\<rparr>" by blast
    then show ?thesis
      using Cons Cons.prems x by (intro exI [of _ "(l, bl) # b1"] exI [of _ l'] exI [of _ bl'] exI [of _ b2]) (auto simp: add.assoc)
  qed
qed simp

lemma first_read_split:
  assumes "first_read Y f ident = Some (s, r)"
  shows "\<exists>ss1 ss2. thread_spans f = ss1 @ s # ss2 \<and> sp_id s = ident \<and> read_thread Y f s = Some r
     \<and> list_all (\<lambda>x. sp_id x = ident \<longrightarrow> read_thread Y f x = None) ss1"
proof -
  have "case List.map_filter (\<lambda>span. map_option (\<lambda>r. (span, r)) (read_thread Y f span)) (filter (\<lambda>span. sp_id span = ident) ss) of
      [] \<Rightarrow> False | hit # _ \<Rightarrow> hit = (s, r) \<Longrightarrow>
    \<exists>ss1 ss2. ss = ss1 @ s # ss2 \<and> sp_id s = ident \<and> read_thread Y f s = Some r
     \<and> list_all (\<lambda>x. sp_id x = ident \<longrightarrow> read_thread Y f x = None) ss1" for ss
  proof (induction ss)
    case (Cons x ss)
    show ?case
    proof (cases "sp_id x = ident \<and> read_thread Y f x \<noteq> None")
      case True
      then show ?thesis using Cons.prems
        by (intro exI [of _ "[]"] exI [of _ ss]) (auto simp: List.map_filter_simps)
    next
      case False
      then have n: "sp_id x = ident \<longrightarrow> read_thread Y f x = None" by blast
      have "\<exists>ss1 ss2. ss = ss1 @ s # ss2 \<and> sp_id s = ident \<and> read_thread Y f s = Some r
          \<and> list_all (\<lambda>x. sp_id x = ident \<longrightarrow> read_thread Y f x = None) ss1"
        by (rule Cons.IH) (use Cons.prems n in \<open>cases "sp_id x = ident"; simp add: List.map_filter_simps\<close>)
      then obtain ss1 ss2 where "ss = ss1 @ s # ss2" "sp_id s = ident" "read_thread Y f s = Some r"
        "list_all (\<lambda>x. sp_id x = ident \<longrightarrow> read_thread Y f x = None) ss1" by blast
      then have "x # ss = (x # ss1) @ s # ss2 \<and> sp_id s = ident \<and> read_thread Y f s = Some r
          \<and> list_all (\<lambda>x. sp_id x = ident \<longrightarrow> read_thread Y f x = None) (x # ss1)"
        using n by simp
      then show ?thesis by blast
    qed
  qed (simp add: List.map_filter_simps)
  from this [of "thread_spans f"] assms show ?thesis by (auto simp: first_read_def split: list.splits)
qed

lemma read_block_id: "read_block Y (i, b) = Some (t, m) \<Longrightarrow> th_id t = i"
  by (auto simp: read_block_def read_thread_def Let_def split: option.splits prod.splits)

lemma readings_ids:
  assumes "list_all (\<lambda>b. fst (block_of b) = ident \<longrightarrow> read_block Y (block_of b) = None) bs" "t \<in> set (readings Y bs)"
  shows "th_id t \<noteq> ident"
proof -
  obtain b where b: "b \<in> set bs" "map_option fst (read_block Y (block_of b)) = Some t"
    using assms(2) by (auto simp: readings_def List.map_filter_def)
  then obtain m where r: "read_block Y (fst (block_of b), snd (block_of b)) = Some (t, m)" by auto
  from read_block_id [OF r] r b(1) assms(1) show ?thesis by (auto simp: list_all_iff)
qed

text \<open>What a span stands for: the lines of the file around the block it names.\<close>

lemma span_lines:
  assumes "thread_spans f = ss1 @ s # ss2"
  shows "\<exists>h b1 l bl b2. split_inclusive LF f = h @ lines_of (b1 @ (l, bl) # b2) \<and> wf_cut h (b1 @ (l, bl) # b2)
     \<and> parse_text Y f = readings Y (b1 @ (l, bl) # b2)
     \<and> s = \<lparr>sp_id = trim (drop 3 l), sp_start = length (concat (h @ lines_of b1)),
            sp_body = length (concat (h @ lines_of b1)) + length l,
            sp_end = length (concat (h @ lines_of b1)) + length l + length (concat bl)\<rparr>
     \<and> list_all2 (\<lambda>x b. (sp_id x, slice f (sp_body x) (sp_end x)) = block_of b) ss1 b1"
proof -
  obtain h bs where c: "cut_blocks (split_inclusive LF f) = (h, bs)" by (cases "cut_blocks (split_inclusive LF f)")
  note wf = cut_wf [OF c]
  have sp: "thread_spans f = block_spans (length (concat h)) bs" by (simp add: thread_spans_blocks c)
  from block_spans_split [OF assms [unfolded sp]] obtain b1 l bl b2 where b: "bs = b1 @ (l, bl) # b2"
    "ss1 = block_spans (length (concat h)) b1"
    "s = \<lparr>sp_id = trim (drop 3 l), sp_start = length (concat h) + length (flat b1),
       sp_body = length (concat h) + length (flat b1) + length l,
       sp_end = length (concat h) + length (flat b1) + length l + length (concat bl)\<rparr>" by blast
  have f: "f = concat h @ flat b1 @ flat ((l, bl) # b2)"
    using concat_split_inclusive [of LF f] wf b(1) by (simp add: flat_lines)
  have "list_all2 (\<lambda>x b. (sp_id x, slice f (sp_body x) (sp_end x)) = block_of b) ss1 b1"
  proof -
    have "list_all2 (=) (map (\<lambda>s. (sp_id s, slice f (sp_body s) (sp_end s))) ss1) (map block_of b1)"
      using block_spans_read [OF f] unfolding b(2) by (simp add: list.rel_eq)
    then show ?thesis by (simp add: list_all2_map1 list_all2_map2)
  qed
  moreover have "parse_text Y f = readings Y bs" by (simp add: parse_text_def c)
  ultimately show ?thesis
    using wf b by (intro exI [of _ h] exI [of _ b1] exI [of _ l] exI [of _ bl] exI [of _ b2]) (simp add: flat_lines)
qed

lemma read_block_LF:
  assumes "CR \<notin> set b"
  shows "read_block Y (i, b @ [LF]) = read_block Y (i, b)"
proof (cases "ends_line LF b")
  case True
  then show ?thesis using read_blank_line [OF ends_line_lines [OF True], of Y i] by simp
next
  case False
  from not_ends_line [OF this] obtain L w where w: "split_inclusive LF b = L @ [w]" "list_all (line_ok LF) L"
    "w \<noteq> []" "LF \<notin> set w" by blast
  have b: "b = concat L @ w" using concat_split_inclusive [of LF b] w(1) by simp
  then show ?thesis using read_last_line [OF w(2-4)] assms by simp
qed

lemma read_block_breaks: "CR \<notin> set b \<Longrightarrow> read_block Y (i, b @ replicate k LF) = read_block Y (i, b)"
proof (induction k)
  case (Suc k)
  then show ?case using read_block_LF [of "b @ replicate k LF" Y i] by (simp flip: replicate_append_same)
qed simp

text \<open>The YAML block stands in the same place when the line breaks at the end are cut to one.\<close>

lemma shape_blank:
  assumes "M @ replicate j [LF] = ol @ yl @ cl # el" "yaml_shape ol yl cl"
  shows "\<exists>el0. M = ol @ yl @ cl # el0"
  using assms(1)
proof (induction j arbitrary: el)
  case (Suc j)
  then have e: "(M @ replicate j [LF]) @ [[LF]] = ol @ yl @ cl # el" by (simp flip: replicate_append_same)
  have "cl \<noteq> [LF]" using assms(2) by (auto simp: yaml_shape_def)
  with snoc_shape [OF e] obtain el' where "M @ replicate j [LF] = ol @ yl @ cl # el'" by blast
  then show ?case by (rule Suc.IH)
qed auto

lemma split_breaks: "split_inclusive LF (x @ replicate (Suc j) LF) = split_inclusive LF (x @ [LF]) @ replicate j [LF]"
proof (induction j)
  case (Suc j)
  have "ends_line LF (x @ replicate (Suc j) LF)" by (simp add: ends_line_def flip: replicate_append_same)
  from split_inclusive_append [OF this, of "[LF]"] Suc
  have "split_inclusive LF ((x @ replicate (Suc j) LF) @ [LF]) = split_inclusive LF (x @ [LF]) @ replicate j [LF] @ [[LF]]"
    by simp
  moreover have "(x @ replicate (Suc j) LF) @ [LF] = x @ replicate (Suc (Suc j)) LF"
    by (simp add: replicate_append_same)
  moreover have "replicate j [LF] @ [[LF]] = replicate (Suc j) [LF]" by (simp add: replicate_append_same)
  ultimately show ?case by simp
qed simp

lemma shape_transfer:
  assumes "split_inclusive LF (x @ replicate k LF) = ol @ yl @ cl # el" "yaml_shape ol yl cl" "x = trim_end_char LF b"
  shows "\<exists>cl0 el0. split_inclusive LF (x @ [LF]) = ol @ yl @ cl0 # el0 \<and> yaml_shape ol yl cl0"
proof (cases k)
  case (Suc j)
  from shape_blank [OF _ assms(2)] assms(1) show ?thesis
    unfolding Suc split_breaks using assms(2) by blast
next
  case 0
  then have x: "split_inclusive LF x = ol @ yl @ cl # el" using assms(1) by simp
  then have "x \<noteq> []" by auto
  then have "\<not> ends_line LF x"
    using last_trim_end_char [of LF b] assms(3) by (auto simp: ends_line_def)
  from not_ends_line [OF this] obtain L w where w: "split_inclusive LF x = L @ [w]" "list_all (line_ok LF) L"
    "w \<noteq> []" "LF \<notin> set w" by blast
  have "x = concat L @ w" using concat_split_inclusive [of LF x] w(1) by simp
  then have n: "split_inclusive LF (x @ [LF]) = L @ [w @ [LF]]"
    using split_concat_lines [of LF "L @ [w @ [LF]]"] w(2,4) by (simp add: lines_ok_append_iff line_okI)
  have sh: "yaml_shape ol yl (w @ [LF]) = yaml_shape ol yl w" by (simp add: yaml_shape_def)
  have "L @ [w] = ol @ yl @ cl # el" using w(1) x by simp
  from snoc_shape [OF this] show ?thesis
  proof
    assume e: "el = [] \<and> cl = w \<and> L = ol @ yl"
    then show ?thesis using n assms(2) sh by (intro exI [of _ "w @ [LF]"] exI [of _ "[]"]) simp
  next
    assume "\<exists>el'. el = el' @ [w] \<and> L = ol @ yl @ cl # el'"
    then obtain el' where "L = ol @ yl @ cl # el'" by blast
    then show ?thesis using n assms(2) by (intro exI [of _ cl] exI [of _ "el' @ [w @ [LF]]"]) simp
  qed
qed

text \<open>
  Reading a block with other YAML lines and one more entry. \<open>ol\<close>, \<open>yl\<close>, \<open>cl\<close> and \<open>el\<close> are the
  lines up to the opening fence, the YAML lines, the closing fence and the entry lines.
\<close>

lemma read_edited:
  assumes m: "list_all (line_ok LF) (ol @ yl @ cl # el)" "yaml_shape ol yl cl" "entry_ok e"
    and r: "read_block Y (i, concat (ol @ yl @ cl # el)) = Some (t, meta)"
    and y: "list_all (line_ok LF) yl'" "yaml_shape ol yl' cl" "yl_from_str Y (concat yl') = Some (meta\<lparr>mt_status := s\<rparr>)"
  shows "read_block Y (i, concat (ol @ yl' @ cl # el @ with_breaks (entry_lines e) @ replicate j [LF]))
    = Some (t\<lparr>th_status := s, th_entries := th_entries t @ [stored_entry e]\<rparr>, meta\<lparr>mt_status := s\<rparr>)"
proof -
  let ?el = "el @ with_breaks (entry_lines e) @ replicate j [LF]"
  note rl = rendered_lines [OF m(3)]
  have ol: "lines_ok LF (ol @ yl @ cl # el)" using m(1) by (rule lines_ok_all)
  have b: "line_ok LF [LF]" by (simp add: line_ok_def)
  have "list_all (line_ok LF) (replicate j [LF])" using b by (induction j) auto
  then have "list_all (line_ok LF) (ol @ yl' @ cl # ?el)"
    using m(1) y(1) rl(1) by (simp add: with_breaks_def)
  then have nl: "lines_ok LF (ol @ yl' @ cl # ?el)" by (rule lines_ok_all)
  have old: "yl_from_str Y (concat yl) = Some meta \<and> thread_of i meta (entries_loop 0 [] (map chop el)) = Some (t, meta)"
    using r unfolding read_block_shape [OF m(2) ol] by (auto simp: thread_of_def split: option.splits)
  have "entries_loop 0 [] (map chop ?el) = entries_loop 0 [] (map chop el) @ [stored_entry e]"
  proof -
    have "map chop ?el = map chop el @ entry_lines e @ replicate j []"
      using rl(2) by (simp add: with_breaks_def)
    moreover have "list_all (\<lambda>l. trim l = []) (replicate j [])" by (simp add: list_all_iff)
    ultimately show ?thesis
      using entry_read_back [OF m(3)] by (simp add: entries_loop_fold entries_blank)
  qed
  then show ?thesis
    unfolding read_block_shape [OF y(2) nl] y(3)
    using old by (auto simp: thread_of_def)
qed

text \<open>What the rewriting of a status line leaves.\<close>

lemma rewrite_loop_Some:
  "rewrite_loop Y wanted f before ls = Some out \<Longrightarrow>
     \<exists>pre line l post. ls = pre @ line # post \<and> f line = Some l \<and> out = concat before @ concat pre @ l @ concat post
       \<and> yl_from_str Y out = Some wanted"
proof (induction Y wanted f before ls rule: rewrite_loop.induct)
  case (2 Y wanted f before line rest)
  show ?case
  proof (cases "\<exists>l. f line = Some l \<and> yl_from_str Y (concat before @ l @ concat rest) = Some wanted")
    case True
    then have "line # rest = [] @ line # rest \<and> (\<exists>l. f line = Some l \<and> out = concat before @ concat [] @ l @ concat rest)
        \<and> yl_from_str Y out = Some wanted"
      using 2(3) by (auto simp: Let_def)
    then show ?thesis by blast
  next
    case False
    then have "rewrite_loop Y wanted f (before @ [line]) rest = Some out"
      using 2(3) by (auto simp: Let_def split: option.splits if_splits)
    then have "\<exists>pre la l post. rest = pre @ la # post \<and> f la = Some l
        \<and> out = concat (before @ [line]) @ concat pre @ l @ concat post \<and> yl_from_str Y out = Some wanted"
      using 2(1,2) False by (cases "f line") (auto simp: Let_def)
    then obtain pre la l post where "rest = pre @ la # post" "f la = Some l"
      "out = concat (before @ [line]) @ concat pre @ l @ concat post" "yl_from_str Y out = Some wanted" by blast
    then have "line # rest = (line # pre) @ la # post \<and> f la = Some l
        \<and> out = concat before @ concat (line # pre) @ l @ concat post \<and> yl_from_str Y out = Some wanted" by simp
    then show ?thesis by blast
  qed
qed simp

lemma status_line_ok:
  assumes "status_line st line = Some l" "line_ok LF line"
  shows "line_ok LF l \<and> trim_end l \<noteq> ''```'' \<and> \<not> starts_with ''## '' l \<and> (CR \<notin> set line \<longrightarrow> CR \<notin> set l)"
proof -
  obtain w where w: "line = w @ [LF]" "LF \<notin> set w" using assms(2) by (auto simp: line_ok_def)
  have "trim_end_char LF line = w" using w by (cases w rule: rev_cases) (auto simp: trim_end_char_def)
  then obtain val where val: "strip_prefix ''status:'' w = Some val"
    and l: "l = ''status: '' @ thread_status_as_str st @ (case find_str '' #'' val of Some at \<Rightarrow> drop at val | None \<Rightarrow> []) @ [LF]"
    using assms(1) w by (auto simp: status_line_def ends_with_iff Let_def split: option.splits)
  let ?c = "case find_str '' #'' val of Some at \<Rightarrow> drop at val | None \<Rightarrow> []"
  have "set val \<subseteq> set w" using val by (auto simp: strip_prefix_Some)
  then have c: "set ?c \<subseteq> set w" by (auto split: option.splits dest: in_set_dropD)
  have s: "set (thread_status_as_str st) \<inter> {LF, CR} = {}" by (cases st) (auto simp: thread_status_as_str_def)
  have "line_ok LF ((''status: '' @ thread_status_as_str st @ ?c) @ [LF])"
    by (rule line_okI) (use c s w in auto)
  moreover have "trim_end l \<noteq> ''```''"
  proof
    assume "trim_end l = ''```''"
    then obtain y where "l = ''```'' @ y" using trim_end_form(1) [of l] by auto
    then show False using l by simp
  qed
  ultimately show ?thesis using l c s w by auto
qed

lemma with_status_lines:
  assumes "with_status Y (concat yl) meta st = Some out" "list_all (line_ok LF) yl"
    and "list_all (\<lambda>l. trim_end l \<noteq> ''```'') yl" "list_all (\<lambda>l. \<not> starts_with ''## '' l) yl" "CR \<notin> set (concat yl)"
  shows "\<exists>yl'. out = concat yl' \<and> list_all (line_ok LF) yl' \<and> list_all (\<lambda>l. trim_end l \<noteq> ''```'') yl'
      \<and> list_all (\<lambda>l. \<not> starts_with ''## '' l) yl' \<and> CR \<notin> set out
      \<and> yl_from_str Y out = Some (meta\<lparr>mt_status := st\<rparr>)"
proof -
  have "split_inclusive LF (concat yl) = yl" by (rule split_concat_lines [OF lines_ok_all [OF assms(2)]])
  then obtain pre line l post where p: "yl = pre @ line # post" "status_line st line = Some l"
    "out = concat (pre @ l # post)" "yl_from_str Y out = Some (meta\<lparr>mt_status := st\<rparr>)"
    using rewrite_loop_Some [OF assms(1) [unfolded with_status_def]] by auto
  have "line_ok LF line" using assms(2) p(1) by simp
  note s = status_line_ok [OF p(2) this]
  show ?thesis using p s assms(2-5) by (intro exI [of _ "pre @ l # post"]) auto
qed

lemma header_split_LF:
  assumes "list_all (\<lambda>l. \<not> starts_with ''## '' l) (split_inclusive LF s)"
  shows "list_all (\<lambda>l. \<not> starts_with ''## '' l) (split_inclusive LF (s @ [LF]))"
proof (cases "ends_line LF s")
  case True
  from split_inclusive_append [OF this, of "[LF]"] assms show ?thesis by simp
next
  case False
  from not_ends_line [OF this] obtain L w where w: "split_inclusive LF s = L @ [w]" "list_all (line_ok LF) L"
    "w \<noteq> []" "LF \<notin> set w" by blast
  have "s = concat L @ w" using concat_split_inclusive [of LF s] w(1) by simp
  then have "split_inclusive LF (s @ [LF]) = L @ [w @ [LF]]"
    using split_concat_lines [of LF "L @ [w @ [LF]]"] w(2,4) by (simp add: lines_ok_append_iff line_okI)
  then show ?thesis using assms w(1) by (simp add: header_LF)
qed

lemma trim_breaks:
  assumes "x = trim_end_char LF b" "x \<noteq> []"
  shows "trim_end_char LF (l @ x @ replicate k LF) = l @ x"
proof -
  have x: "x = butlast x @ [last x]" and d: "last x \<noteq> LF"
    using assms last_trim_end_char [of LF b] by simp_all
  have "trim_end_char LF ((l @ butlast x) @ last x # replicate k LF) = (l @ butlast x) @ last x # trim_end_char LF (replicate k LF)"
    by (rule trim_end_char_append [OF d])
  then show ?thesis using x by (simp add: trim_end_char_replicate) (metis append.assoc append_Cons append_Nil)
qed

text \<open>
  The text \<open>append_entry\<close> answers, cut at the block it edits: \<open>pre\<close> and \<open>post\<close> are the text
  around the block, \<open>x\<close> its body without the line breaks at its end.
\<close>

lemma append_text:
  assumes f: "f = pre @ l @ x @ replicate k LF @ post" "x = trim_end_char LF b" "x \<noteq> []" "k = 0 \<Longrightarrow> post = []"
    and x: "x = q @ y @ z"
  defines "content_end \<equiv> length pre + length (trim_end_char LF (slice f (length pre) (length pre + length l + length (x @ replicate k LF))))"
  defines "brk \<equiv> if starts_with [LF] (drop content_end f) then (content_end + 1, []) else (content_end, [LF])"
  defines "ys \<equiv> length pre + length l + length q" and "ye \<equiv> length pre + length l + (length q + length y)"
  shows "take (fst brk) f @ snd brk @ R @ drop (fst brk) f = pre @ l @ x @ [LF] @ R @ replicate (k - 1) LF @ post"
    and "take ys (take (fst brk) f) @ y' @ drop ye (take (fst brk) f) @ snd brk @ R @ drop (fst brk) f
      = pre @ l @ (q @ y' @ z) @ [LF] @ R @ replicate (k - 1) LF @ post"
    and "slice f ys ye = y"
proof -
  have sl: "slice f (length pre) (length pre + length l + length (x @ replicate k LF)) = l @ x @ replicate k LF"
    by (simp add: slice_def f(1))
  have ce: "content_end = length (pre @ l @ x)"
    unfolding content_end_def sl trim_breaks [OF f(2,3)] by simp
  have dr: "drop content_end f = replicate k LF @ post" by (simp add: ce f(1))
  have "take (fst brk) f @ snd brk = pre @ l @ x @ [LF] \<and> drop (fst brk) f = replicate (k - 1) LF @ post
      \<and> length (pre @ l @ x) \<le> fst brk"
  proof (cases k)
    case 0
    then have p: "post = []" using f(4) by simp
    then have "brk = (content_end, [LF])" using 0 dr by (simp add: brk_def starts_with_def)
    then show ?thesis using 0 p f(1) ce by simp
  next
    case (Suc j)
    then have "brk = (content_end + 1, [])" using dr by (simp add: brk_def)
    then show ?thesis using Suc f(1) ce by simp
  qed
  then have b1: "take (fst brk) f @ snd brk = pre @ l @ x @ [LF]" and b2: "drop (fst brk) f = replicate (k - 1) LF @ post"
    and b3: "length (pre @ l @ x) \<le> fst brk" by blast+
  have "take (fst brk) f @ snd brk @ R @ drop (fst brk) f = (take (fst brk) f @ snd brk) @ R @ drop (fst brk) f" by simp
  then show "take (fst brk) f @ snd brk @ R @ drop (fst brk) f = pre @ l @ x @ [LF] @ R @ replicate (k - 1) LF @ post"
    unfolding b1 b2 by simp
  have "take (length (pre @ l @ x)) (take (fst brk) f) = take (length (pre @ l @ x)) f"
    using b3 by (simp only: take_take min_absorb1)
  also have "\<dots> = pre @ l @ x" by (simp add: f(1))
  finally obtain u where h: "take (fst brk) f = (pre @ l @ x) @ u"
    by (metis append_take_drop_id)
  have u: "u @ snd brk = [LF]" using b1 unfolding h by simp
  have t: "take ys (take (fst brk) f) = pre @ l @ q" "drop ye (take (fst brk) f) = z @ u"
    unfolding h x ys_def ye_def by simp_all
  have "take ys (take (fst brk) f) @ y' @ drop ye (take (fst brk) f) @ snd brk @ R @ drop (fst brk) f
      = pre @ l @ q @ y' @ z @ (u @ snd brk) @ R @ drop (fst brk) f"
    unfolding t by simp
  then show "take ys (take (fst brk) f) @ y' @ drop ye (take (fst brk) f) @ snd brk @ R @ drop (fst brk) f
      = pre @ l @ (q @ y' @ z) @ [LF] @ R @ replicate (k - 1) LF @ post"
    unfolding u b2 by simp
  show "slice f ys ye = y" by (simp add: slice_def ys_def ye_def f(1) x)
qed

lemma shape_with:
  "yaml_shape ol yl cl \<Longrightarrow> list_all (\<lambda>l. trim_end l \<noteq> ''```'') yl' \<Longrightarrow> yaml_shape ol yl' cl"
  by (simp add: yaml_shape_def)


text \<open>The block an entry is appended to, cut into its lines.\<close>

lemma readable_block:
  assumes "lines_ok LF bl" "list_all (\<lambda>l. \<not> starts_with ''## '' l) bl" "CR \<notin> set (concat bl)"
    and "read_block Y (i, concat bl) = Some r"
  shows "\<exists>x k ol yl cl el c. concat bl = x @ replicate k LF \<and> x = trim_end_char LF (concat bl) \<and> x \<noteq> []
      \<and> x @ [LF] = concat (ol @ yl @ cl # el) \<and> list_all (line_ok LF) (ol @ yl @ cl # el) \<and> yaml_shape ol yl cl
      \<and> list_all (\<lambda>l. \<not> starts_with ''## '' l) (ol @ yl @ cl # el)
      \<and> yaml_block (concat bl) = Some (length (concat ol), length (concat ol) + length (concat yl), c)
      \<and> read_block Y (i, concat (ol @ yl @ cl # el)) = Some r"
proof -
  let ?b = "concat bl" and ?x = "trim_end_char LF (concat bl)"
  have sb: "split_inclusive LF ?b = bl" by (rule split_concat_lines [OF assms(1)])
  obtain k where k: "?b = ?x @ replicate k LF" using trim_end_char_decomp [of ?b LF] by blast
  obtain r' where y: "yaml_block ?b = Some r'"
    using assms(4) by (cases "yaml_block ?b") (simp_all add: read_block_def read_thread_def)
  have "yaml_loop 0 None bl = Some r'" using y by (simp add: yaml_block_def sb)
  from yaml_loop_outside [THEN iffD1, OF this] obtain ol yl cl el where s: "bl = ol @ yl @ cl # el" "yaml_shape ol yl cl"
    and "r' = (0 + length (concat ol), 0 + length (concat ol) + length (concat yl),
      0 + length (concat ol) + length (concat yl) + length cl)" by blast
  then have y': "yaml_block ?b = Some (length (concat ol), length (concat ol) + length (concat yl),
      length (concat ol) + length (concat yl) + length cl)" using y by simp
  have "split_inclusive LF (?x @ replicate k LF) = ol @ yl @ cl # el"
    using sb s(1) k by simp
  from shape_transfer [OF this s(2) HOL.refl] obtain cl0 el0 where
    t: "split_inclusive LF (?x @ [LF]) = ol @ yl @ cl0 # el0" "yaml_shape ol yl cl0" by blast
  have e: "ends_line LF (?x @ [LF])" by (simp add: ends_line_def)
  have xne: "?x \<noteq> []"
  proof
    assume "?x = []"
    then have "ol @ yl @ cl0 # el0 = [[LF]]" using t(1) by simp
    then show False using t(2) by (cases ol) (auto simp: yaml_shape_def)
  qed
  have hd: "list_all (\<lambda>l. \<not> starts_with ''## '' l) (split_inclusive LF (?x @ [LF]))"
  proof (cases k)
    case 0
    have "split_inclusive LF ?x = bl" using sb k 0 by simp
    then show ?thesis using header_split_LF [of ?x] assms(2) by simp
  next
    case (Suc j)
    have "bl = split_inclusive LF (?x @ [LF]) @ replicate j [LF]"
      using sb split_breaks [of ?x j] k Suc by simp
    then show ?thesis using assms(2) by (metis list_all_append)
  qed
  have cr: "CR \<notin> set ?x" using assms(3) k by (metis Un_iff set_append)
  have "read_block Y (i, ?x @ [LF]) = read_block Y (i, ?b)"
    using read_block_breaks [OF cr, of Y i k] read_block_LF [OF cr, of Y i] k by simp
  then have rd: "read_block Y (i, concat (ol @ yl @ cl0 # el0)) = Some r"
    using assms(4) concat_split_inclusive [of LF "?x @ [LF]"] unfolding t(1) by simp
  have all: "list_all (line_ok LF) (ol @ yl @ cl0 # el0)" using ends_line_lines [OF e] unfolding t(1) .
  have cc: "?x @ [LF] = concat (ol @ yl @ cl0 # el0)" using concat_split_inclusive [of LF "?x @ [LF]"] unfolding t(1) by simp
  have "concat bl = ?x @ replicate k LF \<and> ?x = trim_end_char LF (concat bl) \<and> ?x \<noteq> []
      \<and> ?x @ [LF] = concat (ol @ yl @ cl0 # el0) \<and> list_all (line_ok LF) (ol @ yl @ cl0 # el0) \<and> yaml_shape ol yl cl0
      \<and> list_all (\<lambda>l. \<not> starts_with ''## '' l) (ol @ yl @ cl0 # el0)
      \<and> yaml_block (concat bl) = Some (length (concat ol), length (concat ol) + length (concat yl),
           length (concat ol) + length (concat yl) + length cl)
      \<and> read_block Y (i, concat (ol @ yl @ cl0 # el0)) = Some r"
    using k xne cc all t(2) hd [unfolded t(1)] y' rd by (intro conjI) (rule HOL.refl | assumption)+
  then show ?thesis by (intro exI)
qed

text \<open>The text the edit leaves, and the YAML lines in it.\<close>

lemma append_entry_edit:
  assumes ap: "append_entry Y file ident e = Inr new" "first_read Y (to_lf file) ident = Some (sp, t, meta)"
    and sp: "sp = \<lparr>sp_id = i, sp_start = length pre, sp_body = length pre + length l, sp_end = length pre + length l + length b\<rparr>"
    and f: "to_lf file = pre @ l @ x @ replicate k LF @ post" "b = x @ replicate k LF" "x = trim_end_char LF b"
      "x \<noteq> []" "k = 0 \<Longrightarrow> post = []" "x = concat ol @ concat yl @ z"
    and y: "yaml_block b = Some (length (concat ol), length (concat ol) + length (concat yl), c)"
      "list_all (line_ok LF) yl" "list_all (\<lambda>l. trim_end l \<noteq> ''```'') yl" "list_all (\<lambda>l. \<not> starts_with ''## '' l) yl"
      "CR \<notin> set (concat yl)" "yl_from_str Y (concat yl) = Some meta" "mt_status meta = th_status t"
  shows "\<exists>s yl'. new_status ident e (th_status t) = Inr s
      \<and> new = pre @ l @ (concat ol @ concat yl' @ z) @ [LF] @ render_entry e @ replicate (k - 1) LF @ post
      \<and> list_all (line_ok LF) yl' \<and> list_all (\<lambda>l. trim_end l \<noteq> ''```'') yl'
      \<and> list_all (\<lambda>l. \<not> starts_with ''## '' l) yl' \<and> CR \<notin> set (concat yl')
      \<and> yl_from_str Y (concat yl') = Some (meta\<lparr>mt_status := (case s of None \<Rightarrow> th_status t | Some st \<Rightarrow> st)\<rparr>)"
proof -
  note tx = append_text [OF f(1,3,4,5,6)]
  have slb: "slice (to_lf file) (length pre + length l) (length pre + (length l + length b)) = b"
    using slice_mid [of "pre @ l" b post] f(1,2) by (simp add: add.assoc)
  obtain s where s: "new_status ident e (th_status t) = Inr s"
    using ap by (cases "new_status ident e (th_status t)") (simp_all add: append_entry_def)
  show ?thesis
  proof (cases s)
    case None
    have "new = pre @ l @ x @ [LF] @ render_entry e @ replicate (k - 1) LF @ post"
      using ap(1) tx(1) [of "render_entry e"] unfolding f(2) [symmetric]
      by (simp add: append_entry_def ap(2) s None sp Let_def split: prod.splits)
    then show ?thesis
      using s y(2-) f(6) by (intro exI [of _ s] exI [of _ yl]) (simp add: None)
  next
    case (Some st)
    have m: "slice (to_lf file) (length pre + (length l + length (concat ol)))
        (length pre + (length l + (length (concat ol) + length (concat yl)))) = concat yl"
      using tx(3) by (simp add: add.assoc)
    obtain out where o: "with_status Y (concat yl) meta st = Some out"
      using ap(1) m by (cases "with_status Y (concat yl) meta st")
        (simp_all add: append_entry_def ap(2) s Some sp slb y(1) Let_def add.assoc split: prod.splits)
    have "new = pre @ l @ (concat ol @ out @ z) @ [LF] @ render_entry e @ replicate (k - 1) LF @ post"
      using ap(1) tx(2) [of out "render_entry e"] m o unfolding f(2) [symmetric]
      by (simp add: append_entry_def ap(2) s Some sp slb y(1) Let_def add.assoc split: prod.splits if_splits)
    moreover obtain yl' where "out = concat yl' \<and> list_all (line_ok LF) yl' \<and> list_all (\<lambda>l. trim_end l \<noteq> ''```'') yl'
      \<and> list_all (\<lambda>l. \<not> starts_with ''## '' l) yl' \<and> CR \<notin> set out
      \<and> yl_from_str Y out = Some (meta\<lparr>mt_status := st\<rparr>)"
      using with_status_lines [OF o y(2-5)] by blast
    ultimately show ?thesis
      using s by (intro exI [of _ s] exI [of _ yl']) (auto simp: Some)
  qed
qed

lemma lines_ok_before: "list_all (line_ok LF) as \<Longrightarrow> lines_ok LF bs \<Longrightarrow> lines_ok LF (as @ bs)"
  by (induction as) (simp_all add: lines_ok_Cons)

lemma read_block_status: "read_block Y b = Some (t, m) \<Longrightarrow> th_status t = mt_status m"
  by (auto simp: read_block_def read_thread_def Let_def split: option.splits prod.splits)

text \<open>The block \<open>append_entry\<close> works on: the first of that id that reads as a thread.\<close>

lemma found_block:
  assumes "first_read Y f ident = Some (sp, t, meta)"
  shows "\<exists>h b1 l bl b2. split_inclusive LF f = h @ lines_of (b1 @ (l, bl) # b2) \<and> wf_cut h (b1 @ (l, bl) # b2)
      \<and> parse_text Y f = readings Y (b1 @ (l, bl) # b2) \<and> trim (drop 3 l) = ident
      \<and> sp = \<lparr>sp_id = ident, sp_start = length (concat (h @ lines_of b1)),
            sp_body = length (concat (h @ lines_of b1)) + length l,
            sp_end = length (concat (h @ lines_of b1)) + length l + length (concat bl)\<rparr>
      \<and> read_block Y (ident, concat bl) = Some (t, meta) \<and> ident \<notin> th_id ` set (readings Y b1)"
proof -
  obtain ss1 ss2 where ss: "thread_spans f = ss1 @ sp # ss2" "sp_id sp = ident" "read_thread Y f sp = Some (t, meta)"
    "list_all (\<lambda>x. sp_id x = ident \<longrightarrow> read_thread Y f x = None) ss1"
    using first_read_split [OF assms] by blast
  obtain h b1 l bl b2 where L: "split_inclusive LF f = h @ lines_of (b1 @ (l, bl) # b2)" "wf_cut h (b1 @ (l, bl) # b2)"
    and old: "parse_text Y f = readings Y (b1 @ (l, bl) # b2)"
    and sp: "sp = \<lparr>sp_id = trim (drop 3 l), sp_start = length (concat (h @ lines_of b1)),
            sp_body = length (concat (h @ lines_of b1)) + length l,
            sp_end = length (concat (h @ lines_of b1)) + length l + length (concat bl)\<rparr>"
    and al: "list_all2 (\<lambda>x b. (sp_id x, slice f (sp_body x) (sp_end x)) = block_of b) ss1 b1"
    using span_lines [OF ss(1)] by blast
  have "f = (concat (h @ lines_of b1) @ l) @ concat bl @ concat (lines_of b2)"
    using concat_split_inclusive [of LF f] L(1) by simp
  then have "slice f (sp_body sp) (sp_end sp) = concat bl"
    using slice_mid [of "concat (h @ lines_of b1) @ l" "concat bl" "concat (lines_of b2)"] by (simp add: sp add.assoc)
  then have rb: "read_block Y (ident, concat bl) = Some (t, meta)" using ss(2,3) by (simp add: read_thread_block)
  have "list_all2 (\<lambda>x b. fst (block_of b) = sp_id x \<and> read_block Y (block_of b) = read_thread Y f x) ss1 b1"
    using al by (rule list_all2_mono) (simp add: read_thread_block, metis fst_conv)
  then have "list_all (\<lambda>b. fst (block_of b) = ident \<longrightarrow> read_block Y (block_of b) = None) b1"
    using ss(4) by (induction ss1 b1 rule: list_all2_induct) auto
  from readings_ids [OF this] have "ident \<notin> th_id ` set (readings Y b1)" by blast
  with L old sp ss(2) rb show ?thesis
    by (intro exI [of _ h] exI [of _ b1] exI [of _ l] exI [of _ bl] exI [of _ b2]) simp
qed

text \<open>A block with anything after it ends in a line break.\<close>

lemma block_ends:
  assumes "lines_ok LF (bl @ ls)" "bl \<noteq> []" "ls \<noteq> []" "concat bl = trim_end_char LF b" "concat bl \<noteq> []"
  shows False
proof -
  have "list_all (line_ok LF) bl" using assms(1,3) by (simp add: lines_ok_append_iff)
  then have "line_ok LF (last bl)" using assms(2) by (simp add: list_all_iff)
  then obtain w where "last bl = w @ [LF]" by (auto simp: line_ok_def)
  moreover have "concat bl = concat (butlast bl @ [last bl])" using assms(2) by simp
  ultimately have "last (concat bl) = LF" by simp
  then show False using last_trim_end_char [of LF b] assms(4,5) by simp
qed

text \<open>The same text line by line, and what it reads as.\<close>

lemma edited_text:
  assumes "lines_ok LF ((h @ lines_of b1) @ l # bl @ lines_of b2)" "bl \<noteq> []" "wf_cut h (b1 @ (l, bl) # b2)"
    and "list_all (line_ok LF) N" "list_all (\<lambda>l. \<not> starts_with ''## '' l) N"
  shows "parse_text Y (concat (h @ lines_of (b1 @ (l, N) # b2))) = readings Y (b1 @ (l, N) # b2)"
proof (rule parse_text_lines)
  have "lines_ok LF (bl @ lines_of b2)" "list_all (line_ok LF) ((h @ lines_of b1) @ l # N)"
    using assms(1,2,4) by (cases bl; simp add: lines_ok_append_iff)+
  then have "lines_ok LF (lines_of b2)" "list_all (line_ok LF) ((h @ lines_of b1) @ l # N)"
    by (simp_all add: lines_ok_append_iff split: if_splits)
  then have "lines_ok LF (((h @ lines_of b1) @ l # N) @ lines_of b2)" by (rule lines_ok_before [rotated])
  then show "lines_ok LF (h @ lines_of (b1 @ (l, N) # b2))" by simp
  show "wf_cut h (b1 @ (l, N) # b2)" using assms(3,5) by (simp add: wf_cut_def)
qed

text \<open>
  C19: appending an entry does that and nothing else. When \<open>append_entry\<close> answers a file, the
  thread it names is the first of that id the old file reads, its status let the entry in,
  and the new file reads as the same threads in the same order: that one with the entry at
  its end and the status the entry calls for, every other as it was.
\<close>

theorem append_entry_appends:
  assumes "append_entry Y file ident e = Inr new" "entry_ok e" "CR \<notin> set (to_lf file)"
  shows "\<exists>before t after s.
      parse_threads Y file = before @ t # after \<and> th_id t = ident \<and> ident \<notin> th_id ` set before
      \<and> new_status ident e (th_status t) = Inr s
      \<and> parse_threads Y new = before @ t\<lparr>th_status := (case s of None \<Rightarrow> th_status t | Some st \<Rightarrow> st),
            th_entries := th_entries t @ [stored_entry e]\<rparr> # after"
proof -
  let ?f = "to_lf file"
  obtain sp t meta where fr: "first_read Y ?f ident = Some (sp, t, meta)"
    using assms(1) by (auto simp: append_entry_def Let_def split: option.splits)
  obtain h b1 l bl b2 where L: "split_inclusive LF ?f = h @ lines_of (b1 @ (l, bl) # b2)" "wf_cut h (b1 @ (l, bl) # b2)"
    and old: "parse_text Y ?f = readings Y (b1 @ (l, bl) # b2)" and idl: "trim (drop 3 l) = ident"
    and sp: "sp = \<lparr>sp_id = ident, sp_start = length (concat (h @ lines_of b1)),
            sp_body = length (concat (h @ lines_of b1)) + length l,
            sp_end = length (concat (h @ lines_of b1)) + length l + length (concat bl)\<rparr>"
    and rb: "read_block Y (ident, concat bl) = Some (t, meta)" and fst: "ident \<notin> th_id ` set (readings Y b1)"
    using found_block [OF fr] by blast
  let ?pre = "concat (h @ lines_of b1)" and ?post = "concat (lines_of b2)"
  have f: "?f = ?pre @ l @ concat bl @ ?post" using concat_split_inclusive [of LF ?f] L(1) by simp
  have ok: "lines_ok LF ((h @ lines_of b1) @ l # bl @ lines_of b2)" using lines_ok_split [of LF ?f] L(1) by simp
  have cr: "CR \<notin> set (concat bl)" "CR \<notin> set ?pre" "CR \<notin> set l" "CR \<notin> set ?post" using assms(3) f by (metis Un_iff set_append)+
  have okb: "lines_ok LF bl"
    using ok by (auto simp: lines_ok_append_iff dest!: lines_ok_tl split: if_splits intro: lines_ok_all)
  have hb: "list_all (\<lambda>l. \<not> starts_with ''## '' l) bl" using L(2) by (simp add: wf_cut_def)
  obtain x k ol yl cl el c where B: "concat bl = x @ replicate k LF" "x = trim_end_char LF (concat bl)" "x \<noteq> []"
      "x @ [LF] = concat (ol @ yl @ cl # el)" "list_all (line_ok LF) (ol @ yl @ cl # el)" "yaml_shape ol yl cl"
      "list_all (\<lambda>l. \<not> starts_with ''## '' l) (ol @ yl @ cl # el)"
      "yaml_block (concat bl) = Some (length (concat ol), length (concat ol) + length (concat yl), c)"
      "read_block Y (ident, concat (ol @ yl @ cl # el)) = Some (t, meta)"
    using readable_block [OF okb hb cr(1) rb] by blast
  have st: "mt_status meta = th_status t" using read_block_status [OF rb] by simp
  have blne: "bl \<noteq> []" using B(1,3) by auto
  have "lines_ok LF (bl @ lines_of b2)" using ok blne by (cases bl; simp add: lines_ok_append_iff)
  then have k0: "?post = []" if "k = 0"
    using block_ends [of bl "lines_of b2" "concat bl"] blne B(1-3) that by fastforce
  have cl: "concat (cl # el) \<noteq> [] \<and> last (concat (cl # el)) = LF"
  proof -
    have "last (x @ [LF]) = last (concat (cl # el))" "cl \<noteq> []"
      using B(4,5) by (auto simp: line_ok_def last_append)
    then show ?thesis by simp
  qed
  define z where "z = butlast (concat (cl # el))"
  have z: "concat (cl # el) = z @ [LF]" using cl unfolding z_def by (metis append_butlast_last_id)
  have xz: "x = concat ol @ concat yl @ z" using B(4) z by simp
  have crx: "CR \<notin> set x" using cr(1) unfolding B(1) by simp
  have crN: "CR \<notin> set (concat (ol @ yl @ cl # el))" using crx unfolding B(4) [symmetric] by simp
  have ally: "list_all (line_ok LF) yl" "list_all (\<lambda>l. trim_end l \<noteq> ''```'') yl" "list_all (\<lambda>l. \<not> starts_with ''## '' l) yl"
    "CR \<notin> set (concat yl)" using B(5-7) crN by (simp_all add: yaml_shape_def)
  have meta: "yl_from_str Y (concat yl) = Some meta"
    using B(9) unfolding read_block_shape [OF B(6) lines_ok_all [OF B(5)]]
    by (auto simp: thread_of_def split: option.splits)
  have f': "to_lf file = ?pre @ l @ x @ replicate k LF @ ?post" using f B(1) by simp
  obtain s yl' where s: "new_status ident e (th_status t) = Inr s"
    and new: "new = ?pre @ l @ (concat ol @ concat yl' @ z) @ [LF] @ render_entry e @ replicate (k - 1) LF @ ?post"
    and yl': "list_all (line_ok LF) yl'" "list_all (\<lambda>l. trim_end l \<noteq> ''```'') yl'"
      "list_all (\<lambda>l. \<not> starts_with ''## '' l) yl'" "CR \<notin> set (concat yl')"
      "yl_from_str Y (concat yl') = Some (meta\<lparr>mt_status := (case s of None \<Rightarrow> th_status t | Some st \<Rightarrow> st)\<rparr>)"
    using append_entry_edit [OF assms(1) fr sp f' B(1-3) k0 xz B(8) ally meta st] by blast
  let ?s = "case s of None \<Rightarrow> th_status t | Some st \<Rightarrow> st"
  let ?N = "ol @ yl' @ cl # el @ with_breaks (entry_lines e) @ replicate (k - 1) [LF]"
  note rl = rendered_lines [OF assms(2), folded with_breaks_def]
  have one: "line_ok LF [LF]" "\<not> starts_with ''## '' [LF]" by (simp_all add: line_ok_def)
  have N: "list_all (line_ok LF) ?N" "list_all (\<lambda>l. \<not> starts_with ''## '' l) ?N"
    using B(5,7) yl'(1,3) rl(1,3) one by (auto simp: list_all_iff set_replicate_conv_if)
  have new': "new = concat (h @ lines_of (b1 @ (l, ?N) # b2))"
    using new z by (simp add: render_entry_lines with_breaks_def concat_replicate_single)
  have "CR \<notin> set (concat ol) \<and> CR \<notin> set z" using crx unfolding xz by simp
  then have nocr: "CR \<notin> set new"
    unfolding new using cr(2-4) yl'(4) rl(4) by (simp add: set_replicate_conv_if)
  have "parse_threads Y new = readings Y (b1 @ (l, ?N) # b2)"
    using edited_text [OF ok blne L(2) N, of Y] to_lf_plain [OF nocr] by (simp only: parse_threads_text new')
  moreover have "read_block Y (block_of (l, ?N))
      = Some (t\<lparr>th_status := ?s, th_entries := th_entries t @ [stored_entry e]\<rparr>, meta\<lparr>mt_status := ?s\<rparr>)"
    using read_edited [OF B(5,6) assms(2) B(9) yl'(1) shape_with [OF B(6) yl'(2)] yl'(5)]
    by (simp only: block_of_def fst_conv snd_conv idl)
  moreover have "read_block Y (block_of (l, bl)) = Some (t, meta)" using rb idl by (simp add: block_of_def)
  ultimately have "parse_threads Y file = readings Y b1 @ t # readings Y b2 \<and> th_id t = ident
      \<and> ident \<notin> th_id ` set (readings Y b1) \<and> new_status ident e (th_status t) = Inr s
      \<and> parse_threads Y new = readings Y b1 @ t\<lparr>th_status := ?s, th_entries := th_entries t @ [stored_entry e]\<rparr> # readings Y b2"
    using old s fst read_block_id [OF rb] by (simp add: parse_threads_text)
  then show ?thesis by blast
qed

definition demo_resolve :: entry where
  "demo_resolve = \<lparr>en_at = ''2026-01-06T09:00:00Z'', en_kind = Resolve,
     en_author = \<lparr>au_name = ''Claude'', au_agent = True\<rparr>, en_text = ''Explained in s-1.''\<rparr>"

theorem append_entry_appends_witness:
  "\<exists>new t. append_entry demo_yaml (open_thread demo_yaml [] demo_thread) ''t-a1'' demo_resolve = Inr new
     \<and> parse_threads demo_yaml new = [t] \<and> th_status t = Resolved
     \<and> th_entries t = [stored_entry demo_entry, stored_entry demo_resolve]"
proof -
  let ?f = "open_thread demo_yaml [] demo_thread"
  have f: "parse_threads demo_yaml ?f = [stored_thread demo_thread]" by code_simp
  have c: "CR \<notin> set (to_lf ?f)" by code_simp
  have e: "entry_ok demo_resolve" by code_simp
  have "case append_entry demo_yaml ?f ''t-a1'' demo_resolve of Inr _ \<Rightarrow> True | Inl _ \<Rightarrow> False" by code_simp
  then obtain new where new: "append_entry demo_yaml ?f ''t-a1'' demo_resolve = Inr new" by (auto split: sum.splits)
  from append_entry_appends [OF new e c] obtain before t after s where r: "parse_threads demo_yaml ?f = before @ t # after"
    "new_status ''t-a1'' demo_resolve (th_status t) = Inr s"
    "parse_threads demo_yaml new = before @ t\<lparr>th_status := (case s of None \<Rightarrow> th_status t | Some st \<Rightarrow> st),
            th_entries := th_entries t @ [stored_entry demo_resolve]\<rparr> # after" by blast
  have b: "before = [] \<and> after = [] \<and> t = stored_thread demo_thread"
    using r(1) unfolding f by (cases before) auto
  have "s = Some Resolved"
    using r(2) b by (simp add: new_status_def demo_resolve_def stored_thread_def demo_thread_def split: if_splits)
  then have "parse_threads demo_yaml new
      = [(stored_thread demo_thread)\<lparr>th_status := Resolved, th_entries := [stored_entry demo_entry, stored_entry demo_resolve]\<rparr>]"
    using r(3) b by (simp add: stored_thread_def demo_thread_def)
  with new show ?thesis by (intro exI conjI) (assumption | simp)+
qed

end
