(* ===== verification/ChangeBus.thy ===== *)
theory ChangeBus
  imports Maps Access Trimming
begin

text \<open>
  The change bus of \<open>engine/src/changes.rs\<close>: one announcement per committed change, the
  ring that lets a listener who stepped away catch up, and the audiences captured while a
  domain is renamed or removed. Every operation that reads the clock takes it as an argument
  (nanoseconds of \<open>Instant\<close>). What \<open>announce\<close> sends on the broadcast channel is the list
  \<open>cb_sent\<close>, oldest first; the channel's receivers, the mutex (one operation at a time) and
  the JSON of an event are not modelled.
\<close>

section \<open>Changes\<close>

definition RING_CAPACITY :: nat where "RING_CAPACITY = 512"

definition COLLAPSE_THRESHOLD :: nat where "COLLAPSE_THRESHOLD = 32"

definition CHANNEL_CAPACITY :: nat where "CHANNEL_CAPACITY = 1024"

definition VISIBILITY_TTL :: nat where "VISIBILITY_TTL = secs 10"

definition DUPLICATE_WINDOW :: nat where "DUPLICATE_WINDOW = secs 2"

datatype path_change_kind = PathAdded | PathModified | PathDeleted | PathMoved

datatype change_kind = Added | Modified | Deleted | Moved | Files

definition change_kind_of :: "path_change_kind \<Rightarrow> change_kind" where
  "change_kind_of k =
     (case k of PathAdded \<Rightarrow> Added | PathModified \<Rightarrow> Modified | PathDeleted \<Rightarrow> Deleted | PathMoved \<Rightarrow> Moved)"

datatype domain_audience = Everyone | Accounts "string set"

record moved_from =
  mv_path :: string
  mv_permalink :: string

record engram_changed =
  ec_domain :: string
  ec_permalink :: string
  ec_path :: string
  ec_kind :: change_kind
  ec_from :: "moved_from option"
  ec_checksum :: "string option"
  ec_actor :: "string option"
  ec_draft_of :: "string option"
  ec_audience :: "domain_audience option"

record domain_changed =
  dc_domain :: string
  dc_actor :: "string option"
  dc_audience :: "domain_audience option"

datatype reflection_path_kind = PathChanged | PageDeleted | PathThreads | PathFiles

datatype reflection_change_kind = PageChanged | PageMoved | PageGone | PageThreads | AssetFiles | Switched

definition reflection_change_kind_of :: "reflection_path_kind \<Rightarrow> reflection_change_kind" where
  "reflection_change_kind_of k =
     (case k of PathChanged \<Rightarrow> PageChanged | PageDeleted \<Rightarrow> PageGone | PathThreads \<Rightarrow> PageThreads | PathFiles \<Rightarrow> AssetFiles)"

record reflection_changed =
  rf_domain :: string
  rf_path :: string
  rf_kind :: reflection_change_kind
  rf_from :: "string option"
  rf_actor :: "string option"
  rf_checksum :: "string option"
  rf_audience :: "domain_audience option"

datatype change = EngramChange engram_changed | DomainChange domain_changed | ReflectionChange reflection_changed

definition change_name :: "change \<Rightarrow> string" where
  "change_name c =
     (case c of EngramChange _ \<Rightarrow> ''engram'' | DomainChange _ \<Rightarrow> ''domain'' | ReflectionChange _ \<Rightarrow> ''reflection'')"

definition change_domain :: "change \<Rightarrow> string" where
  "change_domain c =
     (case c of EngramChange e \<Rightarrow> ec_domain e | DomainChange d \<Rightarrow> dc_domain d | ReflectionChange r \<Rightarrow> rf_domain r)"

definition change_audience :: "change \<Rightarrow> domain_audience option" where
  "change_audience c =
     (case c of EngramChange e \<Rightarrow> ec_audience e | DomainChange d \<Rightarrow> dc_audience d | ReflectionChange r \<Rightarrow> rf_audience r)"

definition draft_of :: "change \<Rightarrow> string option" where
  "draft_of c = (case c of EngramChange e \<Rightarrow> ec_draft_of e | _ \<Rightarrow> None)"

definition stamp :: "domain_audience \<Rightarrow> change \<Rightarrow> change" where
  "stamp a c =
     (if change_audience c \<noteq> None then c
      else
        (case c of
           EngramChange e \<Rightarrow> EngramChange (e\<lparr>ec_audience := Some a\<rparr>)
         | DomainChange d \<Rightarrow> DomainChange (d\<lparr>dc_audience := Some a\<rparr>)
         | ReflectionChange r \<Rightarrow> ReflectionChange (r\<lparr>rf_audience := Some a\<rparr>)))"

section \<open>Event ids\<close>

record event_id =
  ei_epoch :: nat
  ei_seq :: nat

definition u64_max :: nat where "u64_max = 2 ^ 64 - 1"

text \<open>\<open>u64::from_str\<close>: one plus sign may lead, then at least one digit, nothing above the maximum.\<close>

definition parse_u64 :: "string \<Rightarrow> nat option" where
  "parse_u64 s =
     (let d = (case strip_prefix ''+'' s of Some r \<Rightarrow> r | None \<Rightarrow> s)
      in if d \<noteq> [] \<and> list_all is_ascii_digit d \<and> str_nat d \<le> u64_max then Some (str_nat d) else None)"

definition event_id_parse :: "string \<Rightarrow> event_id option" where
  "event_id_parse s =
     (case split_once (CHR '':'') (trim s) of
        None \<Rightarrow> None
      | Some (epoch, seq) \<Rightarrow>
          (case (parse_u64 epoch, parse_u64 seq) of
             (Some e, Some n) \<Rightarrow> Some \<lparr>ei_epoch = e, ei_seq = n\<rparr>
           | _ \<Rightarrow> None))"

definition event_id_display :: "event_id \<Rightarrow> string" where
  "event_id_display i = nat_str (ei_epoch i) @ '':'' @ nat_str (ei_seq i)"

section \<open>The bus\<close>

record envelope =
  en_id :: event_id
  en_change :: change

datatype replay = Reset | Events "envelope list"

record ring =
  rg_entries :: "envelope list"
  rg_last_engram :: "(engram_changed \<times> nat) option"
  rg_recent :: "(reflection_changed \<times> nat) list"
  rg_captured :: "(string \<times> domain_audience) list"

record bus =
  cb_epoch :: nat
  cb_seq :: nat
  cb_sent :: "envelope list"
  cb_ring :: ring

definition new_bus :: "nat \<Rightarrow> bus" where
  "new_bus epoch =
     \<lparr>cb_epoch = epoch, cb_seq = 0, cb_sent = [],
      cb_ring = \<lparr>rg_entries = [], rg_last_engram = None, rg_recent = [], rg_captured = []\<rparr>\<rparr>"

text \<open>The two duplicate checks of \<open>announce\<close>: the ring they leave, and whether the change is one.\<close>

definition engram_gate :: "nat \<Rightarrow> engram_changed \<Rightarrow> ring \<Rightarrow> ring \<times> bool" where
  "engram_gate now e r =
     (if (case rg_last_engram r of
            None \<Rightarrow> False
          | Some (prev, at) \<Rightarrow>
              now - at < DUPLICATE_WINDOW \<and> ec_domain prev = ec_domain e \<and> ec_path prev = ec_path e
              \<and> ec_kind prev = ec_kind e \<and> ec_checksum prev = ec_checksum e \<and> ec_draft_of prev = ec_draft_of e)
      then (r, True)
      else (r\<lparr>rg_last_engram := Some (e, now)\<rparr>, False))"

definition reflection_gate :: "nat \<Rightarrow> reflection_changed \<Rightarrow> ring \<Rightarrow> ring \<times> bool" where
  "reflection_gate now c r =
     (if rf_checksum c = None then (r, False)
      else
        (let recent = dropWhile (\<lambda>(_, at). now - at \<ge> DUPLICATE_WINDOW) (rg_recent r);
             latest = find (\<lambda>(seen, _). rf_domain seen = rf_domain c \<and> rf_path seen = rf_path c \<and> rf_kind seen = rf_kind c)
                        (rev recent)
         in if (case latest of None \<Rightarrow> False | Some (seen, _) \<Rightarrow> rf_checksum seen = rf_checksum c)
            then (r\<lparr>rg_recent := recent\<rparr>, True)
            else (r\<lparr>rg_recent := (if length recent = RING_CAPACITY then tl recent else recent) @ [(c, now)]\<rparr>, False)))"

definition change_gate :: "nat \<Rightarrow> change \<Rightarrow> ring \<Rightarrow> ring \<times> bool" where
  "change_gate now c r =
     (case c of EngramChange e \<Rightarrow> engram_gate now e r | ReflectionChange f \<Rightarrow> reflection_gate now f r | DomainChange _ \<Rightarrow> (r, False))"

definition announce :: "nat \<Rightarrow> change \<Rightarrow> bus \<Rightarrow> bus \<times> event_id option" where
  "announce now c b =
     (let c = (case map_of (rg_captured (cb_ring b)) (change_domain c) of Some a \<Rightarrow> stamp a c | None \<Rightarrow> c);
          (r, repeated) = change_gate now c (cb_ring b)
      in if repeated then (b\<lparr>cb_ring := r\<rparr>, None)
         else
           (let ident = \<lparr>ei_epoch = cb_epoch b, ei_seq = min (cb_seq b + 1) u64_max\<rparr>;
                kept = (if length (rg_entries r) = RING_CAPACITY then tl (rg_entries r) else rg_entries r);
                env = \<lparr>en_id = ident, en_change = c\<rparr>
            in (b\<lparr>cb_seq := (cb_seq b + 1) mod 2 ^ 64, cb_sent := cb_sent b @ [env],
                  cb_ring := r\<lparr>rg_entries := kept @ [env]\<rparr>\<rparr>, Some ident)))"

definition stamp_entry :: "string \<Rightarrow> domain_audience \<Rightarrow> envelope \<Rightarrow> envelope" where
  "stamp_entry d a e =
     (if change_domain (en_change e) = d then e\<lparr>en_change := stamp a (en_change e)\<rparr> else e)"

definition capture :: "string \<Rightarrow> domain_audience \<Rightarrow> bus \<Rightarrow> bus" where
  "capture d a b =
     b\<lparr>cb_ring := (cb_ring b)\<lparr>rg_entries := map (stamp_entry d a) (rg_entries (cb_ring b)),
                              rg_captured := AList.update d a (rg_captured (cb_ring b))\<rparr>\<rparr>"

definition captured_audience :: "string \<Rightarrow> bus \<Rightarrow> domain_audience option" where
  "captured_audience d b = map_of (rg_captured (cb_ring b)) d"

text \<open>
  The audience a frame is checked against when it is delivered (\<open>audience_verdict\<close> of
  \<open>rest/src/events.rs\<close>): its own, else the one captured for its domain at that moment.
\<close>

definition heard_audience :: "envelope \<Rightarrow> bus \<Rightarrow> domain_audience option" where
  "heard_audience e b =
     (case change_audience (en_change e) of
        Some audience \<Rightarrow> Some audience
      | None \<Rightarrow> captured_audience (change_domain (en_change e)) b)"

definition release :: "string \<Rightarrow> bus \<Rightarrow> bus" where
  "release d b = b\<lparr>cb_ring := (cb_ring b)\<lparr>rg_captured := AList.delete d (rg_captured (cb_ring b))\<rparr>\<rparr>"

definition replay_after :: "event_id \<Rightarrow> bus \<Rightarrow> replay" where
  "replay_after seen b =
     (if ei_epoch seen \<noteq> cb_epoch b then Reset
      else if ei_seq seen > cb_seq b then Reset
      else if (case rg_entries (cb_ring b) of
                 [] \<Rightarrow> False
               | oldest # _ \<Rightarrow> ei_seq (en_id oldest) > min (ei_seq seen + 1) u64_max) then Reset
      else Events (filter (\<lambda>e. ei_seq (en_id e) > ei_seq seen) (rg_entries (cb_ring b))))"

definition last_id :: "bus \<Rightarrow> event_id option" where
  "last_id b = (if cb_seq b > 0 then Some \<lparr>ei_epoch = cb_epoch b, ei_seq = cb_seq b\<rparr> else None)"

definition ring_len :: "bus \<Rightarrow> nat" where
  "ring_len b = length (rg_entries (cb_ring b))"

definition change_label :: "scope \<Rightarrow> string option" where
  "change_label s = (case s of User account _ \<Rightarrow> Some account | _ \<Rightarrow> None)"

lemma u64_roundtrip: "n \<le> u64_max \<Longrightarrow> parse_u64 (nat_str n) = Some n"
proof -
  assume n: "n \<le> u64_max"
  have d: "list_all is_ascii_digit (nat_str n)" by (simp add: list_all_iff nat_str_digits)
  have "strip_prefix ''+'' (nat_str n) = None"
  proof (rule ccontr)
    assume "strip_prefix ''+'' (nat_str n) \<noteq> None"
    then have "CHR ''+'' \<in> set (nat_str n)" by (auto simp: strip_prefix_Some)
    then have "is_ascii_digit (CHR ''+'')" by (rule nat_str_digits)
    then show False by (simp add: is_ascii_digit_def less_eq_char_def)
  qed
  then show ?thesis using d n by (simp add: parse_u64_def)
qed

text \<open>The id a listener sends back is the one it was given.\<close>

lemma event_id_roundtrip:
  assumes "ei_epoch i \<le> u64_max" "ei_seq i \<le> u64_max"
  shows "event_id_parse (event_id_display i) = Some i"
proof -
  have d: "\<not> ws_byte c \<and> c \<noteq> CHR '':''" if "c \<in> set (nat_str n)" for c n
    using nat_str_digits [OF that]
    by (auto simp: is_ascii_digit_code ws_byte_code ws_bytes_def upt_rec)
  have "\<not> ws_byte (CHR '':'')" by (simp add: ws_byte_code ws_bytes_def upt_rec)
  then have "trim (event_id_display i) = event_id_display i"
    using d by (intro no_ws_trim) (auto simp: event_id_display_def)
  moreover have "split_once (CHR '':'') (nat_str a @ CHR '':'' # t) = Some (nat_str a, t)" for a t
    using d by (simp add: split_once_Some) blast
  ultimately show ?thesis
    using assms by (simp add: event_id_parse_def event_id_display_def u64_roundtrip)
qed

section \<open>The ring against what was sent\<close>

lemma stamp_keeps [simp]:
  "change_domain (stamp a c) = change_domain c" "change_audience (stamp a c) \<noteq> None"
  "change_audience c \<noteq> None \<Longrightarrow> stamp a c = c"
  by (auto simp: stamp_def change_domain_def change_audience_def split: change.splits)

lemma stamp_audience: "change_audience (stamp a c) = (if change_audience c = None then Some a else change_audience c)"
  by (auto simp: stamp_def change_audience_def split: change.splits)

text \<open>
  A frame of the ring and the frame that was sent: the same id and the same change, but for
  an audience where the sent one had none.
\<close>

definition same_frame :: "envelope \<Rightarrow> envelope \<Rightarrow> bool" where
  "same_frame e s \<longleftrightarrow>
     en_id e = en_id s
     \<and> (en_change e = en_change s \<or> change_audience (en_change s) = None \<and> (\<exists>a. en_change e = stamp a (en_change s)))"

lemma same_frame_refl [simp]: "same_frame e e"
  by (simp add: same_frame_def)

lemma same_frame_stamp: "same_frame e s \<Longrightarrow> same_frame (stamp_entry d a e) s"
  by (auto simp: same_frame_def stamp_entry_def) (metis stamp_keeps(2,3))+

lemma stamp_entry_keeps [simp]:
  "en_id (stamp_entry d a e) = en_id e" "change_domain (en_change (stamp_entry d a e)) = change_domain (en_change e)"
  "change_audience (en_change e) \<noteq> None \<Longrightarrow> stamp_entry d a e = e"
  "change_domain (en_change e) = d \<Longrightarrow> change_audience (en_change (stamp_entry d a e)) \<noteq> None"
  by (simp_all add: stamp_entry_def)

lemma gate_keeps:
  "change_gate now c r = (r', repeated) \<Longrightarrow> rg_entries r' = rg_entries r \<and> rg_captured r' = rg_captured r"
  by (auto simp: change_gate_def engram_gate_def reflection_gate_def Let_def split: change.splits if_splits)

text \<open>What one announcement does: nothing to the ring and the channel, or one more frame on both.\<close>

lemma announce_cases:
  obtains (again) r where "announce now c b = (b\<lparr>cb_ring := r\<rparr>, None)" "rg_entries r = rg_entries (cb_ring b)"
      "rg_captured r = rg_captured (cb_ring b)"
  | (sent) r env where "announce now c b = (b\<lparr>cb_seq := (cb_seq b + 1) mod 2 ^ 64, cb_sent := cb_sent b @ [env], cb_ring := r\<rparr>, Some (en_id env))"
      "en_id env = \<lparr>ei_epoch = cb_epoch b, ei_seq = min (cb_seq b + 1) u64_max\<rparr>"
      "change_domain (en_change env) = change_domain c"
      "map_of (rg_captured (cb_ring b)) (change_domain c) \<noteq> None \<Longrightarrow> change_audience (en_change env) \<noteq> None"
      "rg_entries r = (if length (rg_entries (cb_ring b)) = RING_CAPACITY then tl (rg_entries (cb_ring b)) else rg_entries (cb_ring b)) @ [env]"
      "rg_captured r = rg_captured (cb_ring b)"
      "en_change env = (case map_of (rg_captured (cb_ring b)) (change_domain c) of Some a \<Rightarrow> stamp a c | None \<Rightarrow> c)"
proof -
  let ?c = "case map_of (rg_captured (cb_ring b)) (change_domain c) of Some a \<Rightarrow> stamp a c | None \<Rightarrow> c"
  obtain r rep where g: "change_gate now ?c (cb_ring b) = (r, rep)" by (cases "change_gate now ?c (cb_ring b)")
  note k = gate_keeps [OF g]
  have d: "change_domain ?c = change_domain c"
    "map_of (rg_captured (cb_ring b)) (change_domain c) \<noteq> None \<Longrightarrow> change_audience ?c \<noteq> None"
    by (auto simp del: not_None_eq split: option.splits)
  show thesis
  proof (cases rep)
    case True
    then show thesis using again [of r] g k by (simp add: announce_def Let_def)
  next
    case False
    let ?env = "\<lparr>en_id = \<lparr>ei_epoch = cb_epoch b, ei_seq = min (cb_seq b + 1) u64_max\<rparr>, en_change = ?c\<rparr>"
    let ?kept = "if length (rg_entries r) = RING_CAPACITY then tl (rg_entries r) else rg_entries r"
    show thesis
      by (rule sent [of "r\<lparr>rg_entries := ?kept @ [?env]\<rparr>" ?env])
         (use False g k d in \<open>simp_all add: announce_def Let_def\<close>)
  qed
qed

text \<open>The bus as a transition system: every operation that changes it is one step.\<close>

inductive bus_step :: "bus \<Rightarrow> bus \<Rightarrow> bool" where
  step_announce: "bus_step b (fst (announce now c b))"
| step_capture: "bus_step b (capture d a b)"
| step_release: "bus_step b (release d b)"

inductive_cases bus_stepE: "bus_step b b'"

lemma bus_step_cases:
  assumes "bus_step b b'"
  obtains (announced) now c where "b' = fst (announce now c b)"
  | (captured) d a where "b' = capture d a b"
  | (released) d where "b' = release d b"
  using assms by (rule bus_stepE)

definition bus_reachable :: "nat \<Rightarrow> bus \<Rightarrow> bool" where
  "bus_reachable epoch b \<longleftrightarrow> bus_step\<^sup>*\<^sup>* (new_bus epoch) b"

definition screened :: "ring \<Rightarrow> bool" where
  "screened r \<longleftrightarrow>
     (\<forall>e\<in>set (rg_entries r). change_domain (en_change e) \<in> dom (map_of (rg_captured r)) \<longrightarrow> change_audience (en_change e) \<noteq> None)"

definition bus_ok :: "nat \<Rightarrow> bus \<Rightarrow> bool" where
  "bus_ok epoch b \<longleftrightarrow>
     cb_epoch b = epoch
     \<and> cb_seq b = length (cb_sent b) mod 2 ^ 64
     \<and> (length (cb_sent b) < 2 ^ 64 \<longrightarrow>
          map en_id (cb_sent b) = map (\<lambda>i. \<lparr>ei_epoch = epoch, ei_seq = Suc i\<rparr>) [0..<length (cb_sent b)])
     \<and> list_all2 same_frame (rg_entries (cb_ring b)) (drop (length (cb_sent b) - RING_CAPACITY) (cb_sent b))
     \<and> screened (cb_ring b)"

lemma new_bus_ok: "bus_ok epoch (new_bus epoch)"
  by (simp add: bus_ok_def new_bus_def screened_def)

lemma capture_ok: "bus_ok epoch b \<Longrightarrow> bus_ok epoch (capture d a b)"
proof -
  assume b: "bus_ok epoch b"
  have "list_all2 same_frame (map (stamp_entry d a) (rg_entries (cb_ring b))) (drop (length (cb_sent b) - RING_CAPACITY) (cb_sent b))"
    using b by (auto simp: bus_ok_def list_all2_map1 intro: same_frame_stamp elim!: list_all2_mono)
  moreover have "screened (cb_ring (capture d a b))"
    unfolding screened_def
  proof (intro ballI impI)
    fix e assume e: "e \<in> set (rg_entries (cb_ring (capture d a b)))"
      "change_domain (en_change e) \<in> dom (map_of (rg_captured (cb_ring (capture d a b))))"
    obtain f where f: "f \<in> set (rg_entries (cb_ring b))" "e = stamp_entry d a f" using e(1) by (auto simp: capture_def)
    show "change_audience (en_change e) \<noteq> None"
    proof (cases "change_domain (en_change f) = d")
      case False
      then have "change_domain (en_change f) \<in> dom (map_of (rg_captured (cb_ring b)))"
        using e(2) f(2) by (simp add: capture_def update_conv')
      then have "change_audience (en_change f) \<noteq> None" using b f(1) unfolding bus_ok_def screened_def by blast
      then show ?thesis using f(2) by simp
    next
      case True
      then show ?thesis unfolding f(2) by (rule stamp_entry_keeps(4))
    qed
  qed
  ultimately show ?thesis using b by (simp add: bus_ok_def capture_def)
qed

lemma release_ok: "bus_ok epoch b \<Longrightarrow> bus_ok epoch (release d b)"
  by (auto simp: bus_ok_def screened_def release_def delete_conv' domIff)

lemma announce_ok: "bus_ok epoch b \<Longrightarrow> bus_ok epoch (fst (announce now c b))"
proof -
  assume b: "bus_ok epoch b"
  show ?thesis
  proof (cases rule: announce_cases [of now c b])
    case (again r)
    then show ?thesis using b by (simp add: bus_ok_def screened_def)
  next
    case (sent r env)
    let ?n = "length (cb_sent b)"
    have len: "length (rg_entries (cb_ring b)) = ?n - (?n - RING_CAPACITY)"
      using b by (auto simp: bus_ok_def dest: list_all2_lengthD)
    have old: "list_all2 same_frame (rg_entries (cb_ring b)) (drop (?n - RING_CAPACITY) (cb_sent b))"
      using b by (simp add: bus_ok_def)
    have "list_all2 same_frame (rg_entries r) (drop (Suc ?n - RING_CAPACITY) (cb_sent b @ [env]))"
    proof (cases "?n < RING_CAPACITY")
      case True
      then show ?thesis using old len sent(5) by (simp add: list_all2_appendI)
    next
      case False
      then have "length (rg_entries (cb_ring b)) = RING_CAPACITY" "Suc ?n - RING_CAPACITY = Suc (?n - RING_CAPACITY)"
        using len by simp_all
      moreover have "list_all2 same_frame (tl (rg_entries (cb_ring b))) (tl (drop (?n - RING_CAPACITY) (cb_sent b)))"
        using old by (cases "rg_entries (cb_ring b)") (auto simp: list_all2_Cons1)
      ultimately show ?thesis
        using sent(5) False by (simp add: list_all2_appendI drop_Suc tl_drop RING_CAPACITY_def)
    qed
    moreover have "map en_id (cb_sent b @ [env]) = map (\<lambda>i. \<lparr>ei_epoch = epoch, ei_seq = Suc i\<rparr>) [0..<length (cb_sent b @ [env])]"
      if "Suc ?n < 2 ^ 64"
      using b that sent(2) by (simp add: bus_ok_def u64_max_def)
    moreover have "cb_seq (fst (announce now c b)) = Suc ?n mod 2 ^ 64"
      using b sent(1) by (simp add: bus_ok_def mod_Suc_eq)
    moreover have "screened r"
      unfolding screened_def
    proof (intro ballI impI)
      fix e assume e: "e \<in> set (rg_entries r)" "change_domain (en_change e) \<in> dom (map_of (rg_captured r))"
      have "set (tl xs) \<subseteq> set xs" for xs :: "envelope list" by (cases xs) auto
      then have "e = env \<or> e \<in> set (rg_entries (cb_ring b))" using e(1) sent(5) by (auto split: if_splits)
      then show "change_audience (en_change e) \<noteq> None"
      proof
        assume "e = env"
        then show ?thesis using e(2) sent(3,4,6) by (simp add: domIff)
      next
        assume "e \<in> set (rg_entries (cb_ring b))"
        then show ?thesis using b e(2) sent(6) by (simp add: bus_ok_def screened_def)
      qed
    qed
    ultimately show ?thesis using b sent(1) by (simp add: bus_ok_def)
  qed
qed

lemma reachable_ok: "bus_reachable epoch b \<Longrightarrow> bus_ok epoch b"
  unfolding bus_reachable_def
proof (induction rule: rtranclp_induct)
  case base
  show ?case by (rule new_bus_ok)
next
  case (step b b')
  from step(2,3) show ?case by (elim bus_stepE) (simp_all add: announce_ok capture_ok release_ok)
qed

text \<open>The ids of the ring: the last ones sent, one after the other.\<close>

lemma entries_ids:
  assumes "bus_ok epoch b" "length (cb_sent b) < 2 ^ 64"
  shows "map en_id (rg_entries (cb_ring b))
    = map (\<lambda>i. \<lparr>ei_epoch = epoch, ei_seq = Suc i\<rparr>) [length (cb_sent b) - RING_CAPACITY..<length (cb_sent b)]"
proof -
  let ?n = "length (cb_sent b)"
  have "list_all2 (\<lambda>e s. en_id e = en_id s) (rg_entries (cb_ring b)) (drop (?n - RING_CAPACITY) (cb_sent b))"
    using assms(1) by (auto simp: bus_ok_def same_frame_def elim!: list_all2_mono)
  then have "list_all2 (=) (map en_id (rg_entries (cb_ring b))) (map en_id (drop (?n - RING_CAPACITY) (cb_sent b)))"
    by (simp add: list_all2_map1 list_all2_map2)
  then have "map en_id (rg_entries (cb_ring b)) = drop (?n - RING_CAPACITY) (map en_id (cb_sent b))"
    by (simp add: list.rel_eq drop_map)
  also have "map en_id (cb_sent b) = map (\<lambda>i. \<lparr>ei_epoch = epoch, ei_seq = Suc i\<rparr>) [0..<?n]"
    using assms by (simp add: bus_ok_def)
  finally show ?thesis by (simp only: drop_map drop_upt add_0)
qed

lemma filter_numbered:
  "map f xs = [a..<c] \<Longrightarrow> a \<le> k \<Longrightarrow> k \<le> c \<Longrightarrow> filter (\<lambda>x. k \<le> f x) xs = drop (k - a) xs"
proof (induction xs arbitrary: a)
  case (Cons x xs)
  then have a: "f x = a" "a < c" "map f xs = [Suc a..<c]"
    by (cases "a < c"; simp add: upt_conv_Cons)+
  show ?case
  proof (cases "a = k")
    case True
    have "\<forall>y\<in>set xs. f y \<in> set [Suc a..<c]" using a(3) by (metis image_eqI list.set_map)
    then show ?thesis using True a by (auto simp: filter_id_conv)
  next
    case False
    then have "k - a = Suc (k - Suc a)" "Suc a \<le> k" using Cons.prems by simp_all
    then show ?thesis using Cons.IH [OF a(3)] Cons.prems a(1) False by simp
  qed
qed simp

lemma replay_answer:
  assumes b: "bus_ok epoch b" "length (cb_sent b) < 2 ^ 64"
  shows "replay_after seen b =
    (if ei_epoch seen \<noteq> epoch \<or> length (cb_sent b) < ei_seq seen \<or> ei_seq seen + RING_CAPACITY < length (cb_sent b) then Reset
     else Events (drop (ei_seq seen - (length (cb_sent b) - RING_CAPACITY)) (rg_entries (cb_ring b))))"
proof -
  let ?n = "length (cb_sent b)" and ?es = "rg_entries (cb_ring b)"
  let ?m = "?n - RING_CAPACITY"
  have ep: "cb_epoch b = epoch" and sq: "cb_seq b = ?n" using b by (simp_all add: bus_ok_def)
  have ids: "map en_id ?es = map (\<lambda>i. \<lparr>ei_epoch = epoch, ei_seq = Suc i\<rparr>) [?m..<?n]" by (rule entries_ids [OF b])
  have "map (\<lambda>e. ei_seq (en_id e) - 1) ?es = map (\<lambda>i. ei_seq i - 1) (map en_id ?es)" by simp
  also have "\<dots> = [?m..<?n]" unfolding ids by (simp add: comp_def)
  finally have nums: "map (\<lambda>e. ei_seq (en_id e) - 1) ?es = [?m..<?n]" .
  have pos: "ei_seq (en_id e) \<noteq> 0" if "e \<in> set ?es" for e
  proof -
    have "en_id e \<in> set (map (\<lambda>i. \<lparr>ei_epoch = epoch, ei_seq = Suc i\<rparr>) [?m..<?n])" using that ids by (metis image_eqI list.set_map)
    then show ?thesis by auto
  qed
  have hd: "(case ?es of [] \<Rightarrow> False | e # _ \<Rightarrow> ei_seq (en_id e) > min (ei_seq seen + 1) u64_max) \<longleftrightarrow> ei_seq seen < ?m"
    if "ei_seq seen \<le> ?n"
  proof (cases ?es)
    case Nil
    then have "?n \<le> ?m" using nums [symmetric] by (auto simp: upt_eq_Nil_conv)
    then have "?n = 0" by (cases "?n") (simp_all add: RING_CAPACITY_def)
    then show ?thesis using Nil by simp
  next
    case (Cons e es)
    then have "ei_seq (en_id e) - 1 = ?m" "?m < ?n" using nums by (cases "?m < ?n"; simp add: upt_conv_Cons)+
    then have "ei_seq (en_id e) = Suc ?m" using pos [of e] Cons by simp
    then show ?thesis using Cons that b(2) by (auto simp: u64_max_def RING_CAPACITY_def)
  qed
  have fl: "filter (\<lambda>e. ei_seq (en_id e) > ei_seq seen) ?es = drop (ei_seq seen - ?m) ?es" if "?m \<le> ei_seq seen" "ei_seq seen \<le> ?n"
  proof -
    have "filter (\<lambda>e. ei_seq (en_id e) > ei_seq seen) ?es = filter (\<lambda>e. ei_seq seen \<le> ei_seq (en_id e) - 1) ?es"
    proof (rule filter_cong)
      fix e assume "e \<in> set ?es"
      then have "ei_seq (en_id e) \<noteq> 0" by (rule pos)
      then show "(ei_seq seen < ei_seq (en_id e)) = (ei_seq seen \<le> ei_seq (en_id e) - 1)" by arith
    qed simp
    also have "\<dots> = drop (ei_seq seen - ?m) ?es" by (rule filter_numbered [OF nums that])
    finally show ?thesis .
  qed
  show ?thesis
  proof (cases "ei_epoch seen \<noteq> epoch \<or> ?n < ei_seq seen")
    case True
    then show ?thesis by (auto simp: replay_after_def ep sq)
  next
    case False
    then show ?thesis using hd fl by (auto simp: replay_after_def ep sq)
  qed
qed

text \<open>
  C13: a listener who reconnects loses nothing it is not told about. From any bus the
  operations lead to, \<open>replay_after\<close> answers \<open>Reset\<close> exactly for an id of another process,
  one never issued, or one more than the ring's capacity behind; to every other id it
  answers every frame sent after that id, all of them, in order and once, each as it was
  sent except for an audience captured since.
\<close>

theorem replay_complete:
  assumes "bus_reachable epoch b" "length (cb_sent b) < 2 ^ 64"
  shows "case replay_after seen b of
      Reset \<Rightarrow> ei_epoch seen \<noteq> epoch \<or> length (cb_sent b) < ei_seq seen \<or> ei_seq seen + RING_CAPACITY < length (cb_sent b)
    | Events es \<Rightarrow> ei_epoch seen = epoch \<and> ei_seq seen \<le> length (cb_sent b) \<and> length (cb_sent b) \<le> ei_seq seen + RING_CAPACITY
        \<and> list_all2 same_frame es (drop (ei_seq seen) (cb_sent b))"
proof -
  let ?n = "length (cb_sent b)"
  have b: "bus_ok epoch b" using assms(1) by (rule reachable_ok)
  have "list_all2 same_frame (drop k (rg_entries (cb_ring b))) (drop k (drop (?n - RING_CAPACITY) (cb_sent b)))" for k
    using b unfolding bus_ok_def by (intro list_all2_dropI) blast
  from this [of "ei_seq seen - (?n - RING_CAPACITY)"]
  have "list_all2 same_frame (drop (ei_seq seen - (?n - RING_CAPACITY)) (rg_entries (cb_ring b))) (drop (ei_seq seen) (cb_sent b))"
    if "?n - RING_CAPACITY \<le> ei_seq seen"
    using that by (simp add: add.commute)
  then show ?thesis unfolding replay_answer [OF b assms(2)] by auto
qed

definition demo_page :: "string \<Rightarrow> change" where
  "demo_page kind = ReflectionChange \<lparr>rf_domain = ''team'', rf_path = ''notes.md'', rf_kind = PageChanged, rf_from = None,
     rf_actor = None, rf_checksum = Some kind, rf_audience = None\<rparr>"

definition demo_bus :: bus where
  "demo_bus = fst (announce (secs 3) (demo_page ''b2'') (fst (announce 0 (demo_page ''a1'') (new_bus 7))))"

lemma demo_bus_reachable: "bus_reachable 7 demo_bus"
  unfolding bus_reachable_def demo_bus_def
  by (intro rtranclp.rtrancl_into_rtrancl [of bus_step, OF _ step_announce] rtranclp.rtrancl_refl)

lemma demo_bus_eq:
  "map (\<lambda>e. ei_seq (en_id e)) (cb_sent demo_bus) = [1, 2]" "length (cb_sent demo_bus) = 2"
  by (simp_all add: demo_bus_def announce_def change_gate_def reflection_gate_def new_bus_def demo_page_def change_domain_def
      RING_CAPACITY_def u64_max_def Let_def)

theorem replay_complete_witness:
  "\<exists>es. replay_after \<lparr>ei_epoch = 7, ei_seq = 1\<rparr> demo_bus = Events es \<and> list_all2 same_frame es (drop 1 (cb_sent demo_bus))
     \<and> length es = 1"
proof -
  have n: "length (cb_sent demo_bus) < 2 ^ 64" by (simp add: demo_bus_eq)
  from replay_complete [OF demo_bus_reachable n, of "\<lparr>ei_epoch = 7, ei_seq = 1\<rparr>"]
  show ?thesis
    by (cases "replay_after \<lparr>ei_epoch = 7, ei_seq = 1\<rparr> demo_bus")
       (auto simp: demo_bus_eq RING_CAPACITY_def dest: list_all2_lengthD)
qed

section \<open>Captured audiences\<close>

text \<open>What later operations leave of the frames of a ring.\<close>

definition outlives :: "bus \<Rightarrow> bus \<Rightarrow> bool" where
  "outlives b b' \<longleftrightarrow>
     length (cb_sent b) \<le> length (cb_sent b')
     \<and> (\<forall>e'\<in>set (rg_entries (cb_ring b')). ei_seq (en_id e') \<le> length (cb_sent b) \<longrightarrow>
          (\<exists>e\<in>set (rg_entries (cb_ring b)). en_id e = en_id e' \<and> change_domain (en_change e) = change_domain (en_change e')
             \<and> (change_audience (en_change e) \<noteq> None \<longrightarrow> e' = e)))"

lemma outlives_refl: "outlives b b"
  by (auto simp: outlives_def)

lemma outlives_trans:
  assumes "outlives b c" "outlives c d"
  shows "outlives b d"
proof -
  have "\<exists>e\<in>set (rg_entries (cb_ring b)). en_id e = en_id e' \<and> change_domain (en_change e) = change_domain (en_change e')
      \<and> (change_audience (en_change e) \<noteq> None \<longrightarrow> e' = e)"
    if e': "e' \<in> set (rg_entries (cb_ring d))" "ei_seq (en_id e') \<le> length (cb_sent b)" for e'
  proof -
    have "ei_seq (en_id e') \<le> length (cb_sent c)" using e'(2) assms(1) by (simp add: outlives_def)
    then obtain f where f: "f \<in> set (rg_entries (cb_ring c))" "en_id f = en_id e'"
      "change_domain (en_change f) = change_domain (en_change e')" "change_audience (en_change f) \<noteq> None \<longrightarrow> e' = f"
      using assms(2) e'(1) unfolding outlives_def by blast
    moreover obtain e where "e \<in> set (rg_entries (cb_ring b))" "en_id e = en_id f"
      "change_domain (en_change e) = change_domain (en_change f)" "change_audience (en_change e) \<noteq> None \<longrightarrow> f = e"
      using assms(1) f(1,2) e'(2) unfolding outlives_def by metis
    ultimately show ?thesis by metis
  qed
  then show ?thesis using assms unfolding outlives_def by (meson le_trans)
qed

lemma step_outlives:
  assumes "bus_step b b'" "bus_ok epoch b" "length (cb_sent b') < 2 ^ 64"
  shows "outlives b b'"
  using assms(1)
proof (cases rule: bus_step_cases)
  case (announced now c)
  show ?thesis
  proof (cases rule: announce_cases [of now c b])
    case (again r)
    then show ?thesis using announced by (auto simp: outlives_def)
  next
    case (sent r env)
    then have n: "Suc (length (cb_sent b)) < 2 ^ 64" using announced assms(3) by simp
    then have s: "ei_seq (en_id env) = Suc (length (cb_sent b))" using sent(2) assms(2) by (simp add: bus_ok_def u64_max_def)
    have "set (tl xs) \<subseteq> set xs" for xs :: "envelope list" by (cases xs) auto
    then have "e \<in> set (rg_entries (cb_ring b))" if "e \<in> set (rg_entries r)" "ei_seq (en_id e) \<le> length (cb_sent b)" for e
      using that sent(5) s by (auto split: if_splits)
    then show ?thesis using announced sent(1) by (auto simp: outlives_def)
  qed
next
  case (captured d a)
  then show ?thesis unfolding outlives_def by (auto simp: capture_def)
next
  case (released d)
  then show ?thesis by (auto simp: outlives_def release_def)
qed

lemma steps_outlive:
  assumes "bus_step\<^sup>*\<^sup>* b b'" "bus_ok epoch b" "length (cb_sent b') < 2 ^ 64"
  shows "outlives b b'"
proof -
  have "bus_ok epoch b' \<and> (length (cb_sent b') < 2 ^ 64 \<longrightarrow> outlives b b')"
    using assms(1)
  proof (induction rule: rtranclp_induct)
    case base
    show ?case using assms(2) outlives_refl by simp
  next
    case (step c d)
    have ok: "bus_ok epoch d"
      using step.hyps(2) step.IH by (elim bus_stepE) (simp_all add: announce_ok capture_ok release_ok)
    have "length (cb_sent c) \<le> length (cb_sent d)"
      using step.hyps(2)
    proof (cases rule: bus_step_cases)
      case (announced now e)
      then show ?thesis by (cases rule: announce_cases [of now e c]) simp_all
    qed (simp_all add: capture_def release_def)
    then show ?case
      using ok step.IH step_outlives [OF step.hyps(2)] outlives_trans by fastforce
  qed
  then show ?thesis using assms(3) by blast
qed

text \<open>The operations of the bus other than the release of one domain.\<close>

inductive held_step :: "string \<Rightarrow> bus \<Rightarrow> bus \<Rightarrow> bool" for d where
  held_announce: "held_step d b (fst (announce now c b))"
| held_capture: "held_step d b (capture d' a b)"
| held_release: "d' \<noteq> d \<Longrightarrow> held_step d b (release d' b)"

lemma held_keeps:
  assumes "(held_step d)\<^sup>*\<^sup>* b b'" "captured_audience d b \<noteq> None"
  shows "captured_audience d b' \<noteq> None"
  using assms
proof (induction rule: rtranclp_induct)
  case (step b' b'')
  then have c: "map_of (rg_captured (cb_ring b')) d \<noteq> None" by (simp add: captured_audience_def)
  from step.hyps(2) show ?case
  proof (cases rule: held_step.cases)
    case (held_announce now c)
    then show ?thesis using c by (cases rule: announce_cases [of now c b']) (simp_all add: captured_audience_def)
  qed (use c in \<open>auto simp: captured_audience_def capture_def release_def update_conv' delete_conv'\<close>)
qed

lemma replay_screened:
  assumes b: "bus_ok epoch b" and c: "captured_audience d b \<noteq> None"
    and st: "bus_step\<^sup>*\<^sup>* b b'" "length (cb_sent b') < 2 ^ 64"
    and e: "replay_after seen b' = Events es" "e \<in> set es"
      "change_domain (en_change e) = d" "ei_seq (en_id e) \<le> length (cb_sent b)"
  shows "change_audience (en_change e) \<noteq> None"
proof -
  have "e \<in> set (rg_entries (cb_ring b'))"
    using e(1,2) by (auto simp: replay_after_def split: if_splits)
  then obtain f where f: "f \<in> set (rg_entries (cb_ring b))" "change_domain (en_change f) = d"
    "change_audience (en_change f) \<noteq> None \<longrightarrow> e = f"
    using steps_outlive [OF st(1) b st(2)] e(3,4) unfolding outlives_def by metis
  have "change_domain (en_change f) \<in> dom (map_of (rg_captured (cb_ring b)))"
    using c f(2) by (simp add: captured_audience_def domIff)
  then have "change_audience (en_change f) \<noteq> None"
    using b f(1) by (simp add: bus_ok_def screened_def)
  then show ?thesis using f(3) by simp
qed

text \<open>
  C14: what a captured audience covers. In any bus the operations lead to where an audience
  is captured for a domain: a change announced under that name goes out as one more frame
  that carries its own audience if it has one and the captured audience otherwise; every
  frame of that name sent so far carries an audience in every replay from then on, whatever
  the bus does next, the release included (for fewer than 2 to the 64 frames); and until the
  domain is released, every frame of that name a listener is handed, one that was already
  queued on the channel when the capture began included, is checked against an audience. A
  frame queued before the capture and delivered after the release is not covered: it has no
  audience of its own and meets the ordinary check.
\<close>

theorem captured_stays_screened:
  assumes "bus_reachable epoch b" "captured_audience d b = Some a"
  shows "(\<forall>now c after i. change_domain c = d \<and> announce now c b = (after, Some i) \<longrightarrow>
      (\<exists>frame. cb_sent after = cb_sent b @ [frame] \<and> change_domain (en_change frame) = d
         \<and> change_audience (en_change frame) = (if change_audience c = None then Some a else change_audience c)))
    \<and> (\<forall>b' seen es e. bus_step\<^sup>*\<^sup>* b b' \<and> length (cb_sent b') < 2 ^ 64
         \<and> replay_after seen b' = Events es \<and> e \<in> set es
         \<and> change_domain (en_change e) = d \<and> ei_seq (en_id e) \<le> length (cb_sent b)
         \<longrightarrow> change_audience (en_change e) \<noteq> None)
    \<and> (\<forall>b' e. (held_step d)\<^sup>*\<^sup>* b b' \<and> change_domain (en_change e) = d \<longrightarrow> heard_audience e b' \<noteq> None)"
proof (intro conjI allI impI; (elim conjE)?)
  fix now c after i assume c: "change_domain c = d" "announce now c b = (after, Some i)"
  show "\<exists>frame. cb_sent after = cb_sent b @ [frame] \<and> change_domain (en_change frame) = d
         \<and> change_audience (en_change frame) = (if change_audience c = None then Some a else change_audience c)"
  proof (cases rule: announce_cases [of now c b])
    case (sent r env)
    then show ?thesis using assms(2) c stamp_audience [of a c] by (auto simp: captured_audience_def)
  qed (use c in auto)
next
  fix b' seen es e
  assume "bus_step\<^sup>*\<^sup>* b b'" "length (cb_sent b') < 2 ^ 64" "replay_after seen b' = Events es" "e \<in> set es"
    "change_domain (en_change e) = d" "ei_seq (en_id e) \<le> length (cb_sent b)"
  with replay_screened [OF reachable_ok [OF assms(1)]] assms(2)
  show "change_audience (en_change e) \<noteq> None" by fastforce
next
  fix b' and e :: envelope assume "(held_step d)\<^sup>*\<^sup>* b b'" "change_domain (en_change e) = d"
  with held_keeps [of d b b'] assms(2) show "heard_audience e b' \<noteq> None"
    by (simp add: heard_audience_def split: option.split)
qed

definition demo_captured :: bus where
  "demo_captured = capture ''team'' (Accounts {''ann''}) demo_bus"

text \<open>A frame queued before the capture, replayed after the release and heard during it.\<close>

theorem captured_stays_screened_witness:
  "\<exists>es e. replay_after \<lparr>ei_epoch = 7, ei_seq = 1\<rparr> (release ''team'' demo_captured) = Events es \<and> es = [e]
     \<and> captured_audience ''team'' (release ''team'' demo_captured) = None
     \<and> change_audience (en_change e) \<noteq> None
     \<and> heard_audience (hd (cb_sent demo_bus)) demo_captured \<noteq> None
     \<and> (\<exists>frame. cb_sent (fst (announce 0 (demo_page ''c3'') demo_captured)) = cb_sent demo_captured @ [frame]
          \<and> change_audience (en_change frame) = Some (Accounts {''ann''}))"
proof -
  let ?b' = "release ''team'' demo_captured" and ?c = "demo_page ''c3''"
  have r: "bus_reachable 7 demo_captured"
    using demo_bus_reachable unfolding bus_reachable_def demo_captured_def by (rule rtranclp.rtrancl_into_rtrancl) (rule step_capture)
  have c: "captured_audience ''team'' demo_captured = Some (Accounts {''ann''})"
    by (simp add: captured_audience_def demo_captured_def capture_def update_conv')
  have st: "bus_step\<^sup>*\<^sup>* demo_captured ?b'" by (rule r_into_rtranclp) (rule step_release)
  have n: "length (cb_sent demo_captured) = 2" "length (cb_sent ?b') < 2 ^ 64"
    by (simp_all add: demo_captured_def capture_def release_def demo_bus_eq)
  obtain es where es: "replay_after \<lparr>ei_epoch = 7, ei_seq = 1\<rparr> ?b' = Events es" "length es = 1"
      "map en_id es = [\<lparr>ei_epoch = 7, ei_seq = 2\<rparr>]" "map (change_domain \<circ> en_change) es = [''team'']"
    by (simp add: demo_captured_def demo_bus_def release_def capture_def replay_after_def announce_def change_gate_def
        reflection_gate_def new_bus_def demo_page_def change_domain_def RING_CAPACITY_def u64_max_def Let_def
        stamp_entry_def stamp_def change_audience_def)
  then obtain e where e: "es = [e]" by (cases es) auto
  note th = captured_stays_screened [OF r c]
  have "change_audience (en_change e) \<noteq> None"
    using th [THEN conjunct2, THEN conjunct1] st n es e by fastforce
  moreover have "captured_audience ''team'' ?b' = None"
    by (simp add: captured_audience_def release_def delete_conv')
  moreover have "change_domain (en_change (hd (cb_sent demo_bus))) = ''team''"
    by (simp add: demo_bus_def announce_def change_gate_def reflection_gate_def new_bus_def demo_page_def change_domain_def
      RING_CAPACITY_def u64_max_def Let_def)
  then have "heard_audience (hd (cb_sent demo_bus)) demo_captured \<noteq> None"
    using th [THEN conjunct2, THEN conjunct2] by blast
  moreover have p: "change_domain ?c = ''team''" "change_audience ?c = None"
    by (simp_all add: demo_page_def change_domain_def change_audience_def)
  have "snd (announce 0 ?c demo_captured) \<noteq> None"
    by (simp add: demo_captured_def demo_bus_def capture_def announce_def change_gate_def
        reflection_gate_def new_bus_def demo_page_def change_domain_def RING_CAPACITY_def u64_max_def Let_def
        stamp_entry_def stamp_def change_audience_def secs_def DUPLICATE_WINDOW_def)
  then obtain after i where "announce 0 ?c demo_captured = (after, Some i)"
    by (cases "announce 0 ?c demo_captured") auto
  with th [THEN conjunct1] p have "\<exists>frame. cb_sent (fst (announce 0 ?c demo_captured)) = cb_sent demo_captured @ [frame]
      \<and> change_audience (en_change frame) = Some (Accounts {''ann''})" by fastforce
  ultimately show ?thesis using es(1) e by blast
qed

end
