(* ===== verification/Provisioning.thy ===== *)
theory Provisioning
  imports Maps
begin

text \<open>
  Provisioning of a harness's own folders: the receipt of \<open>core/src/provision/receipt.rs\<close>, the
  desired set of \<open>model.rs\<close> and the reconcile of \<open>reconcile.rs\<close>. A path is the list of its
  components. The file system is explicit state (\<open>fs\<close>); which of its operations fail is an
  argument (\<open>io_env\<close>), as are the digest and the process id a temporary file is named with.
  The runner of MCP commands is a parameter with a state of its own. A notice is a
  constructor with what its sentence names.
\<close>

section \<open>Artifacts, the receipt and the desired set\<close>

datatype artifact_type = Skills | Commands | Agents | Mcps

definition artifact_id :: "artifact_type \<Rightarrow> string" where
  "artifact_id k = (case k of Skills \<Rightarrow> ''skills'' | Commands \<Rightarrow> ''commands'' | Agents \<Rightarrow> ''agents'' | Mcps \<Rightarrow> ''mcps'')"

definition artifact_parse :: "string \<Rightarrow> artifact_type option" where
  "artifact_parse s =
     (if s = ''skills'' then Some Skills else if s = ''commands'' then Some Commands
      else if s = ''agents'' then Some Agents else if s = ''mcps'' then Some Mcps else None)"

datatype harness_kind = ClaudeCode | Codex | Copilot | Cursor | Kiro | Gemini | Qwen

definition harness_supports :: "harness_kind \<Rightarrow> artifact_type \<Rightarrow> bool" where
  "harness_supports h k =
     (case h of
        ClaudeCode \<Rightarrow> True
      | Codex \<Rightarrow> True
      | Copilot \<Rightarrow> k \<noteq> Commands
      | _ \<Rightarrow> k = Skills)"

type_synonym path = "string list"

text \<open>Where a harness keeps a kind; the folders themselves come from the profile table and the home folder.\<close>

record harness_folders =
  hf_skills :: "harness_kind \<Rightarrow> path"
  hf_tilde :: "string \<Rightarrow> path"
  hf_copilot :: path

definition artifact_base :: "harness_folders \<Rightarrow> harness_kind \<Rightarrow> artifact_type \<Rightarrow> path option" where
  "artifact_base F h k =
     (case (h, k) of
        (_, Skills) \<Rightarrow> Some (hf_skills F h)
      | (ClaudeCode, Commands) \<Rightarrow> Some (hf_tilde F ''~/.claude/commands'')
      | (ClaudeCode, Agents) \<Rightarrow> Some (hf_tilde F ''~/.claude/agents'')
      | (Codex, Commands) \<Rightarrow> Some (hf_tilde F ''~/.codex/prompts'')
      | (Codex, Agents) \<Rightarrow> Some (hf_tilde F ''~/.codex/agents'')
      | (Copilot, Agents) \<Rightarrow> Some (hf_copilot F @ [''agents''])
      | _ \<Rightarrow> None)"

definition is_plain_component :: "string \<Rightarrow> bool" where
  "is_plain_component c \<longleftrightarrow>
     c \<noteq> [] \<and> \<not> starts_with ''.'' c \<and> CHR ''/'' \<notin> set c \<and> CHR 0x5C \<notin> set c \<and> CHR '':'' \<notin> set c"

definition plain_rel_key :: "string \<Rightarrow> bool" where
  "plain_rel_key key \<longleftrightarrow> key \<noteq> [] \<and> list_all is_plain_component (split_on (CHR ''/'') key)"

record installed =
  in_domain :: string
  in_sha256 :: string

record harness_state =
  hs_files :: "(string \<times> installed) list"
  hs_mcps :: "(string \<times> installed) list"

record source_stamp =
  ss_mtime :: int
  ss_size :: nat
  ss_sha256 :: string

record provision_receipt =
  pr_format :: nat
  pr_sources :: "(string \<times> (string \<times> source_stamp) list) list"
  pr_harnesses :: "(string \<times> harness_state) list"

definition default_receipt :: provision_receipt where
  "default_receipt = \<lparr>pr_format = 1, pr_sources = [], pr_harnesses = []\<rparr>"

text \<open>Renaming a domain in the receipt: its stamps join those of the new name, every origin moves.\<close>

definition move_origin :: "string \<Rightarrow> string \<Rightarrow> installed \<Rightarrow> installed" where
  "move_origin old new i = (if in_domain i = old then i\<lparr>in_domain := new\<rparr> else i)"

definition rename_domain :: "string \<Rightarrow> string \<Rightarrow> provision_receipt \<Rightarrow> provision_receipt \<times> bool" where
  "rename_domain old new r =
     (if old = new then (r, False)
      else
        (let (sources, moved) =
               (case map_of (pr_sources r) old of
                  None \<Rightarrow> (pr_sources r, False)
                | Some stamps \<Rightarrow>
                    (let rest = bt_remove old (pr_sources r);
                         there = (case map_of rest new of Some s \<Rightarrow> s | None \<Rightarrow> [])
                     in (bt_insert new
                           (fold (\<lambda>(k, s) t. if map_of t k = None then bt_insert k s t else t) stamps there) rest, True)));
             held = list_ex (\<lambda>(_, h). list_ex (\<lambda>(_, i). in_domain i = old) (hs_files h @ hs_mcps h)) (pr_harnesses r)
         in (r\<lparr>pr_sources := sources,
               pr_harnesses := map (\<lambda>(k, h). (k, h\<lparr>hs_files := map (\<lambda>(k, i). (k, move_origin old new i)) (hs_files h),
                                                    hs_mcps := map (\<lambda>(k, i). (k, move_origin old new i)) (hs_mcps h)\<rparr>))
                                 (pr_harnesses r)\<rparr>, moved \<or> held)))"

datatype payload = PayloadFile path | Rendered string

record desired_file =
  df_domain :: string
  df_payload :: payload
  df_sha256 :: string

record desired_mcp =
  dm_domain :: string
  dm_server_json :: string
  dm_sha256 :: string

record desired_set =
  ds_files :: "(string \<times> desired_file) list"
  ds_mcps :: "(string \<times> desired_mcp) list"

section \<open>The file system\<close>

record fs =
  fs_files :: "(path \<times> string) list"
  fs_dirs :: "path list"

record io_env =
  io_sha :: "string \<Rightarrow> string"
  io_pid :: nat
  io_read :: "path \<Rightarrow> bool"
  io_fenced :: "path \<Rightarrow> bool"
  io_mkdir :: "path \<Rightarrow> bool"
  io_write :: "path \<Rightarrow> bool"
  io_rename :: "path \<Rightarrow> path \<Rightarrow> bool"
  io_remove :: "path \<Rightarrow> bool"
  io_rmdir :: "path \<Rightarrow> bool"

datatype read_result = NotFound | ReadError | ReadOk string

definition read_file :: "io_env \<Rightarrow> path \<Rightarrow> fs \<Rightarrow> read_result" where
  "read_file io p s =
     (if \<not> io_read io p then ReadError
      else case map_of (fs_files s) p of None \<Rightarrow> NotFound | Some c \<Rightarrow> ReadOk c)"

definition remove_file :: "io_env \<Rightarrow> path \<Rightarrow> fs \<Rightarrow> fs \<times> bool" where
  "remove_file io p s =
     (if io_remove io p then (s\<lparr>fs_files := AList.delete p (fs_files s)\<rparr>, True) else (s, False))"

definition rename_file :: "io_env \<Rightarrow> path \<Rightarrow> path \<Rightarrow> fs \<Rightarrow> fs \<times> bool" where
  "rename_file io p q s =
     (case map_of (fs_files s) p of
        None \<Rightarrow> (s, False)
      | Some c \<Rightarrow>
          if io_rename io p q
          then (s\<lparr>fs_files := AList.update q c (AList.delete p (fs_files s))\<rparr>, True)
          else (s, False))"

definition ancestors :: "path \<Rightarrow> path list" where
  "ancestors p = map (\<lambda>n. take n p) [1..<Suc (length p)]"

definition create_dir_all :: "path \<Rightarrow> fs \<Rightarrow> fs" where
  "create_dir_all p s = s\<lparr>fs_dirs := fs_dirs s @ filter (\<lambda>d. d \<notin> set (fs_dirs s)) (ancestors p)\<rparr>"

definition sibling :: "string \<Rightarrow> path \<Rightarrow> path" where
  "sibling suffix p = (if p = [] then [suffix] else butlast p @ [last p @ suffix])"

definition temp_sibling :: "io_env \<Rightarrow> path \<Rightarrow> path" where
  "temp_sibling io p = sibling (''.tmp.'' @ nat_str (io_pid io)) p"

text \<open>
  \<open>save_bytes\<close>: the fence, the folder, then a temporary file renamed into place. A failure
  leaves what the steps before it did.
\<close>

definition save_bytes :: "io_env \<Rightarrow> path \<Rightarrow> string \<Rightarrow> fs \<Rightarrow> fs \<times> bool" where
  "save_bytes io p bytes s =
     (if io_fenced io p then (s, False)
      else if \<not> io_mkdir io (butlast p) then (s, False)
      else
        (let s = create_dir_all (butlast p) s; tmp = temp_sibling io p
         in if \<not> io_write io tmp then (s, False)
            else rename_file io tmp p (s\<lparr>fs_files := AList.update tmp bytes (fs_files s)\<rparr>)))"

definition dir_empty :: "path \<Rightarrow> fs \<Rightarrow> bool" where
  "dir_empty d s \<longleftrightarrow>
     \<not> list_ex (\<lambda>(p, _). p \<noteq> [] \<and> butlast p = d) (fs_files s) \<and> \<not> list_ex (\<lambda>q. q \<noteq> [] \<and> butlast q = d) (fs_dirs s)"

lemma starts_with_longer: "starts_with b d \<Longrightarrow> d \<noteq> b \<Longrightarrow> 0 < length d"
  by (cases d) (auto simp: starts_with_iff)

function prune_empty_dirs :: "io_env \<Rightarrow> path \<Rightarrow> path \<Rightarrow> fs \<Rightarrow> fs" where
  "prune_empty_dirs io base d s =
     (if d = base \<or> \<not> starts_with base d then s
      else if d \<notin> set (fs_dirs s) \<or> \<not> dir_empty d s \<or> \<not> io_rmdir io d then s
      else prune_empty_dirs io base (butlast d) (s\<lparr>fs_dirs := removeAll d (fs_dirs s)\<rparr>))"
  by pat_completeness auto
termination
  by (relation "measure (\<lambda>(_, _, d, _). length d)") (auto dest: starts_with_longer)

declare prune_empty_dirs.simps [simp del]

section \<open>Reconciling files\<close>

datatype action_status =
    Installed | Adopted | ForeignKept | Updated | UpdatedBackup | Removed | RetiredBackup
  | McpAdded | McpUpdated | McpRemoved | McpSkipped | McpFailed | McpDeferred

datatype action_target = FileTarget path | ServerTarget string

record artifact_action =
  aa_target :: action_target
  aa_status :: action_status

datatype notice =
    ReadErrorNotice path
  | SourceErrorNotice path
  | WriteErrorNotice path
  | BackupErrorNotice path
  | MoveErrorNotice path
  | RemoveErrorNotice path
  | ForeignKeptNotice harness_kind path string
  | McpAddFailedNotice harness_kind string string
  | McpAlreadyExistsNotice harness_kind string string
  | McpUnsupportedNotice harness_kind string
  | McpUpdateFailedNotice harness_kind string string
  | McpRemoveFailedNotice harness_kind string string
  | RunnerNotice string

record run =
  ru_fs :: fs
  ru_state :: harness_state
  ru_actions :: "artifact_action list"
  ru_notices :: "notice list"

definition push_action :: "action_target \<Rightarrow> action_status \<Rightarrow> run \<Rightarrow> run" where
  "push_action t st r = r\<lparr>ru_actions := ru_actions r @ [\<lparr>aa_target = t, aa_status = st\<rparr>]\<rparr>"

definition push_notice :: "notice \<Rightarrow> run \<Rightarrow> run" where
  "push_notice n r = r\<lparr>ru_notices := ru_notices r @ [n]\<rparr>"

definition record_file :: "string \<Rightarrow> desired_file \<Rightarrow> string \<Rightarrow> run \<Rightarrow> run" where
  "record_file key want sha r =
     r\<lparr>ru_state := (ru_state r)\<lparr>hs_files := bt_insert key \<lparr>in_domain = df_domain want, in_sha256 = sha\<rparr> (hs_files (ru_state r))\<rparr>\<rparr>"

definition forget_file :: "string \<Rightarrow> run \<Rightarrow> run" where
  "forget_file key r = r\<lparr>ru_state := (ru_state r)\<lparr>hs_files := bt_remove key (hs_files (ru_state r))\<rparr>\<rparr>"

definition kind_from_id :: "string \<Rightarrow> artifact_type option" where
  "kind_from_id s = find (\<lambda>k. artifact_id k = s) [Skills, Commands, Agents, Mcps]"

definition resolve_key :: "string \<Rightarrow> (artifact_type \<times> string) option" where
  "resolve_key key =
     (case split_once (CHR ''/'') key of
        None \<Rightarrow> None
      | Some (prefix, rel) \<Rightarrow>
          (case kind_from_id prefix of
             None \<Rightarrow> None
           | Some kind \<Rightarrow> if plain_rel_key rel then Some (kind, rel) else None))"

definition join_rel :: "path \<Rightarrow> string \<Rightarrow> path" where
  "join_rel base rel = base @ split_on (CHR ''/'') rel"

definition backup_path :: "path \<Rightarrow> path option" where
  "backup_path target = (if target = [] then None else Some (sibling ''.bak'' target))"

definition payload_bytes :: "io_env \<Rightarrow> payload \<Rightarrow> fs \<Rightarrow> string option" where
  "payload_bytes io p s =
     (case p of
        Rendered bytes \<Rightarrow> Some bytes
      | PayloadFile source \<Rightarrow> (case read_file io source s of ReadOk bytes \<Rightarrow> Some bytes | _ \<Rightarrow> None))"

definition write_payload :: "io_env \<Rightarrow> path \<Rightarrow> payload \<Rightarrow> fs \<Rightarrow> fs \<times> (notice + string)" where
  "write_payload io target p s =
     (case payload_bytes io p s of
        None \<Rightarrow> (s, Inl (SourceErrorNotice target))
      | Some bytes \<Rightarrow>
          (let (s, saved) = save_bytes io target bytes s
           in (s, if saved then Inr (io_sha io bytes) else Inl (WriteErrorNotice target))))"

definition copy_to_backup :: "io_env \<Rightarrow> path \<Rightarrow> string \<Rightarrow> fs \<Rightarrow> fs \<times> bool" where
  "copy_to_backup io target local s =
     (case backup_path target of None \<Rightarrow> (s, True) | Some bak \<Rightarrow> save_bytes io bak local s)"

definition rename_to_backup :: "io_env \<Rightarrow> path \<Rightarrow> fs \<Rightarrow> fs \<times> bool" where
  "rename_to_backup io target s =
     (case backup_path target of
        None \<Rightarrow> (s, True)
      | Some bak \<Rightarrow> rename_file io target bak (fst (remove_file io bak s)))"

text \<open>What follows a write: the receipt row and the action, or the notice.\<close>

definition write_and_record :: "io_env \<Rightarrow> string \<Rightarrow> path \<Rightarrow> desired_file \<Rightarrow> action_status \<Rightarrow> run \<Rightarrow> run" where
  "write_and_record io key target want st r =
     (case write_payload io target (df_payload want) (ru_fs r) of
        (s, Inr sha) \<Rightarrow> push_action (FileTarget target) st (record_file key want sha (r\<lparr>ru_fs := s\<rparr>))
      | (s, Inl n) \<Rightarrow> push_notice n (r\<lparr>ru_fs := s\<rparr>))"

definition apply_desired_file :: "io_env \<Rightarrow> harness_kind \<Rightarrow> string \<Rightarrow> path \<Rightarrow> desired_file \<Rightarrow> run \<Rightarrow> run" where
  "apply_desired_file io h key target want r =
     (case read_file io target (ru_fs r) of
        NotFound \<Rightarrow> write_and_record io key target want Installed r
      | ReadError \<Rightarrow> push_notice (ReadErrorNotice target) r
      | ReadOk local \<Rightarrow>
          (let local_sha = io_sha io local
           in case map_of (hs_files (ru_state r)) key of
                Some i \<Rightarrow>
                  if in_sha256 i = local_sha then
                    (if local_sha = df_sha256 want then record_file key want (df_sha256 want) r
                     else write_and_record io key target want Updated r)
                  else
                    (let (s, saved) = copy_to_backup io target local (ru_fs r); r = r\<lparr>ru_fs := s\<rparr>
                     in if saved then write_and_record io key target want UpdatedBackup r
                        else push_notice (BackupErrorNotice target) r)
              | None \<Rightarrow>
                  if local_sha = df_sha256 want
                  then push_action (FileTarget target) Adopted (record_file key want (df_sha256 want) r)
                  else push_action (FileTarget target) ForeignKept (push_notice (ForeignKeptNotice h target (df_domain want)) r)))"

definition retire_file :: "io_env \<Rightarrow> string \<Rightarrow> path \<Rightarrow> path \<Rightarrow> run \<Rightarrow> run" where
  "retire_file io key base target r =
     (case map_of (hs_files (ru_state r)) key of
        None \<Rightarrow> r
      | Some i \<Rightarrow>
          (case read_file io target (ru_fs r) of
             NotFound \<Rightarrow> forget_file key r
           | ReadError \<Rightarrow> push_notice (ReadErrorNotice target) r
           | ReadOk local \<Rightarrow>
               if io_sha io local = in_sha256 i then
                 (case remove_file io target (ru_fs r) of
                    (s, True) \<Rightarrow>
                      push_action (FileTarget target) Removed
                        (forget_file key (r\<lparr>ru_fs := (if target = [] then s else prune_empty_dirs io base (butlast target) s)\<rparr>))
                  | (_, False) \<Rightarrow> push_notice (RemoveErrorNotice target) r)
               else
                 (case rename_to_backup io target (ru_fs r) of
                    (s, True) \<Rightarrow> push_action (FileTarget target) RetiredBackup (forget_file key (r\<lparr>ru_fs := s\<rparr>))
                  | (s, False) \<Rightarrow> push_notice (MoveErrorNotice target) (r\<lparr>ru_fs := s\<rparr>))))"

text \<open>The path a key names, when it may be followed at all.\<close>

definition key_target :: "(artifact_type \<Rightarrow> path option) \<Rightarrow> string \<Rightarrow> (path \<times> path) option" where
  "key_target resolve key =
     (case resolve_key key of
        None \<Rightarrow> None
      | Some (kind, rel) \<Rightarrow> map_option (\<lambda>base. (base, join_rel base rel)) (resolve kind))"

definition desired_step :: "io_env \<Rightarrow> harness_kind \<Rightarrow> (artifact_type \<Rightarrow> path option) \<Rightarrow> string \<times> desired_file \<Rightarrow> run \<Rightarrow> run" where
  "desired_step io h resolve kw r =
     (case key_target resolve (fst kw) of
        None \<Rightarrow> r
      | Some (_, target) \<Rightarrow> apply_desired_file io h (fst kw) target (snd kw) r)"

definition retire_step :: "io_env \<Rightarrow> (artifact_type \<Rightarrow> path option) \<Rightarrow> string \<Rightarrow> run \<Rightarrow> run" where
  "retire_step io resolve key r =
     (case key_target resolve key of
        None \<Rightarrow> r
      | Some (base, target) \<Rightarrow> retire_file io key base target r)"

definition reconcile_files :: "io_env \<Rightarrow> harness_kind \<Rightarrow> (artifact_type \<Rightarrow> path option) \<Rightarrow> desired_set \<Rightarrow> run \<Rightarrow> run" where
  "reconcile_files io h resolve desired r =
     (let r = fold (desired_step io h resolve) (ds_files desired) r;
          undesired = filter (\<lambda>k. map_of (ds_files desired) k = None) (map fst (hs_files (ru_state r)))
      in fold (retire_step io resolve) undesired r)"

section \<open>Reconciling MCP servers\<close>

datatype mcp_outcome = Applied "string list" | AlreadyExists | Unsupported | Deferred | Failed string

record 'm mcp_runner =
  mr_add :: "harness_kind \<Rightarrow> string \<Rightarrow> string \<Rightarrow> 'm \<Rightarrow> 'm \<times> mcp_outcome"
  mr_remove :: "harness_kind \<Rightarrow> string \<Rightarrow> 'm \<Rightarrow> 'm \<times> mcp_outcome"

definition deferring_runner :: "'m mcp_runner" where
  "deferring_runner = \<lparr>mr_add = (\<lambda>_ _ _ m. (m, Deferred)), mr_remove = (\<lambda>_ _ m. (m, Deferred))\<rparr>"

definition outcome_manual :: "mcp_outcome \<Rightarrow> string" where
  "outcome_manual o' = (case o' of Failed manual \<Rightarrow> manual | _ \<Rightarrow> [])"

definition record_mcp :: "string \<Rightarrow> desired_mcp \<Rightarrow> run \<Rightarrow> run" where
  "record_mcp name want r =
     r\<lparr>ru_state := (ru_state r)\<lparr>hs_mcps := bt_insert name \<lparr>in_domain = dm_domain want, in_sha256 = dm_sha256 want\<rparr> (hs_mcps (ru_state r))\<rparr>\<rparr>"

definition forget_mcp :: "string \<Rightarrow> run \<Rightarrow> run" where
  "forget_mcp name r = r\<lparr>ru_state := (ru_state r)\<lparr>hs_mcps := bt_remove name (hs_mcps (ru_state r))\<rparr>\<rparr>"

definition runner_notices :: "string list \<Rightarrow> run \<Rightarrow> run" where
  "runner_notices ns r = fold (\<lambda>n. push_notice (RunnerNotice n)) ns r"

definition add_mcp :: "'m mcp_runner \<Rightarrow> harness_kind \<Rightarrow> string \<Rightarrow> desired_mcp \<Rightarrow> 'm \<times> run \<Rightarrow> 'm \<times> run" where
  "add_mcp M h name want mr =
     (let (m, r) = mr; (m, outcome) = mr_add M h name (dm_server_json want) m
      in (m,
          (case outcome of
             Applied ns \<Rightarrow> push_action (ServerTarget name) McpAdded (record_mcp name want (runner_notices ns r))
           | AlreadyExists \<Rightarrow>
               push_action (ServerTarget name) McpSkipped (push_notice (McpAlreadyExistsNotice h name (dm_domain want)) r)
           | Failed manual \<Rightarrow> push_action (ServerTarget name) McpFailed (push_notice (McpAddFailedNotice h name manual) r)
           | Unsupported \<Rightarrow> push_action (ServerTarget name) McpSkipped (push_notice (McpUnsupportedNotice h name) r)
           | Deferred \<Rightarrow> push_action (ServerTarget name) McpDeferred r)))"

definition update_mcp :: "'m mcp_runner \<Rightarrow> harness_kind \<Rightarrow> string \<Rightarrow> desired_mcp \<Rightarrow> 'm \<times> run \<Rightarrow> 'm \<times> run" where
  "update_mcp M h name want mr =
     (let (m, r) = mr; (m, removed) = mr_remove M h name m
      in case removed of
           Deferred \<Rightarrow> (m, push_action (ServerTarget name) McpDeferred r)
         | Applied ns \<Rightarrow>
             (let r = runner_notices ns r; (m, outcome) = mr_add M h name (dm_server_json want) m
              in (m,
                  (case outcome of
                     Applied ns \<Rightarrow> push_action (ServerTarget name) McpUpdated (record_mcp name want (runner_notices ns r))
                   | Deferred \<Rightarrow> push_action (ServerTarget name) McpDeferred r
                   | other \<Rightarrow> push_action (ServerTarget name) McpFailed
                                (push_notice (McpUpdateFailedNotice h name (outcome_manual other)) r))))
         | other \<Rightarrow>
             (m, push_action (ServerTarget name) McpFailed
                   (push_notice (McpUpdateFailedNotice h name (outcome_manual other)) r)))"

definition desired_mcp_step :: "'m mcp_runner \<Rightarrow> harness_kind \<Rightarrow> string \<times> desired_mcp \<Rightarrow> 'm \<times> run \<Rightarrow> 'm \<times> run" where
  "desired_mcp_step M h nw mr =
     (case map_of (hs_mcps (ru_state (snd mr))) (fst nw) of
        None \<Rightarrow> add_mcp M h (fst nw) (snd nw) mr
      | Some i \<Rightarrow> if in_sha256 i = dm_sha256 (snd nw) then mr else update_mcp M h (fst nw) (snd nw) mr)"

definition retire_mcp :: "'m mcp_runner \<Rightarrow> harness_kind \<Rightarrow> string \<Rightarrow> 'm \<times> run \<Rightarrow> 'm \<times> run" where
  "retire_mcp M h name mr =
     (let (m, r) = mr; (m, outcome) = mr_remove M h name m
      in (m,
          (case outcome of
             Applied ns \<Rightarrow> push_action (ServerTarget name) McpRemoved (forget_mcp name (runner_notices ns r))
           | Deferred \<Rightarrow> push_action (ServerTarget name) McpDeferred r
           | Failed manual \<Rightarrow> push_action (ServerTarget name) McpFailed (push_notice (McpRemoveFailedNotice h name manual) r)
           | _ \<Rightarrow> push_action (ServerTarget name) McpFailed (push_notice (McpRemoveFailedNotice h name []) r))))"

definition reconcile_mcps :: "'m mcp_runner \<Rightarrow> harness_kind \<Rightarrow> desired_set \<Rightarrow> 'm \<times> run \<Rightarrow> 'm \<times> run" where
  "reconcile_mcps M h desired mr =
     (let (m, r) = fold (desired_mcp_step M h) (ds_mcps desired) mr;
          undesired = filter (\<lambda>n. map_of (ds_mcps desired) n = None) (map fst (hs_mcps (ru_state r)))
      in fold (retire_mcp M h) undesired (m, r))"

definition reconcile_resolved ::
    "io_env \<Rightarrow> 'm mcp_runner \<Rightarrow> harness_kind \<Rightarrow> (artifact_type \<Rightarrow> path option) \<Rightarrow> desired_set \<Rightarrow> 'm \<Rightarrow> fs \<Rightarrow> harness_state \<Rightarrow> 'm \<times> run" where
  "reconcile_resolved io M h resolve desired m s state =
     reconcile_mcps M h desired
       (m, reconcile_files io h resolve desired \<lparr>ru_fs = s, ru_state = state, ru_actions = [], ru_notices = []\<rparr>)"

definition reconcile_harness ::
    "io_env \<Rightarrow> 'm mcp_runner \<Rightarrow> harness_folders \<Rightarrow> harness_kind \<Rightarrow> desired_set \<Rightarrow> 'm \<Rightarrow> fs \<Rightarrow> harness_state \<Rightarrow> 'm \<times> run" where
  "reconcile_harness io M F h desired m s state = reconcile_resolved io M h (artifact_base F h) desired m s state"

abbreviation files_after ::
    "io_env \<Rightarrow> 'm mcp_runner \<Rightarrow> harness_kind \<Rightarrow> (artifact_type \<Rightarrow> path option) \<Rightarrow> desired_set \<Rightarrow> 'm \<Rightarrow> fs \<Rightarrow> harness_state \<Rightarrow> fs" where
  "files_after io M h resolve desired m s state \<equiv> ru_fs (snd (reconcile_resolved io M h resolve desired m s state))"

abbreviation rows_after ::
    "io_env \<Rightarrow> 'm mcp_runner \<Rightarrow> harness_kind \<Rightarrow> (artifact_type \<Rightarrow> path option) \<Rightarrow> desired_set \<Rightarrow> 'm \<Rightarrow> fs \<Rightarrow> harness_state
      \<Rightarrow> (string \<times> installed) list" where
  "rows_after io M h resolve desired m s state \<equiv> hs_files (ru_state (snd (reconcile_resolved io M h resolve desired m s state)))"

section \<open>What a step may touch\<close>

definition file_at :: "fs \<Rightarrow> path \<Rightarrow> string option" where
  "file_at s p = map_of (fs_files s) p"

lemma file_at_simps [simp]:
  "file_at (s\<lparr>fs_files := AList.update p c (fs_files s')\<rparr>) q = (if q = p then Some c else map_of (fs_files s') q)"
  "file_at (s\<lparr>fs_files := AList.delete p (fs_files s')\<rparr>) q = (if q = p then None else map_of (fs_files s') q)"
  "file_at (create_dir_all d s) q = file_at s q"
  by (simp_all add: file_at_def update_conv' delete_conv' create_dir_all_def)

lemma file_at_prune [simp]: "file_at (prune_empty_dirs io base d s) q = file_at s q"
proof (induction io base d s rule: prune_empty_dirs.induct)
  case (1 io base d s)
  then show ?case by (subst prune_empty_dirs.simps) (simp add: file_at_def)
qed

lemma remove_file_at:
  "remove_file io p s = (s', done) \<Longrightarrow> file_at s' q = (if done \<and> q = p then None else file_at s q)"
  by (auto simp: remove_file_def file_at_def delete_conv' split: if_splits)

lemma rename_file_at:
  "rename_file io p q s = (s', done) \<Longrightarrow>
     (done \<longrightarrow> file_at s p \<noteq> None)
     \<and> file_at s' x = (if done then if x = q then file_at s p else if x = p then None else file_at s x else file_at s x)"
  by (auto simp: rename_file_def file_at_def update_conv' delete_conv' split: option.splits if_splits)

lemma save_bytes_at:
  assumes "save_bytes io p bytes s = (s', done)"
  shows "done \<Longrightarrow> file_at s' p = Some bytes"
    and "x \<noteq> p \<Longrightarrow> x \<noteq> temp_sibling io p \<Longrightarrow> file_at s' x = file_at s x"
  using assms by (auto simp: save_bytes_def rename_file_def file_at_def update_conv' delete_conv' create_dir_all_def Let_def
      split: option.splits if_splits)

text \<open>The four paths an artifact's file can come to: itself, its backup and their temporary files.\<close>

definition own_paths :: "io_env \<Rightarrow> path \<Rightarrow> path set" where
  "own_paths io t = {t, temp_sibling io t, sibling ''.bak'' t, temp_sibling io (sibling ''.bak'' t)}"

lemma write_and_record_at:
  "x \<notin> {t, temp_sibling io t} \<Longrightarrow> file_at (ru_fs (write_and_record io key t want st r)) x = file_at (ru_fs r) x"
  by (auto simp: write_and_record_def write_payload_def push_action_def push_notice_def record_file_def Let_def save_bytes_at(2)
      split: option.splits prod.splits sum.splits if_splits)

lemma copy_to_backup_at:
  "copy_to_backup io t local s = (s', done) \<Longrightarrow> x \<notin> {sibling ''.bak'' t, temp_sibling io (sibling ''.bak'' t)} \<Longrightarrow>
     file_at s' x = file_at s x"
  by (auto simp: copy_to_backup_def backup_path_def save_bytes_at(2) split: if_splits)

lemma rename_to_backup_at:
  "rename_to_backup io t s = (s', done) \<Longrightarrow> x \<notin> {t, sibling ''.bak'' t} \<Longrightarrow> file_at s' x = file_at s x"
proof -
  assume a: "rename_to_backup io t s = (s', done)" "x \<notin> {t, sibling ''.bak'' t}"
  obtain s1 d1 where d: "remove_file io (sibling ''.bak'' t) s = (s1, d1)" by (cases "remove_file io (sibling ''.bak'' t) s")
  show ?thesis
  proof (cases "t = []")
    case False
    then have "rename_file io t (sibling ''.bak'' t) s1 = (s', done)"
      using a(1) d by (simp add: rename_to_backup_def backup_path_def)
    from rename_file_at [OF this, of x] show ?thesis using remove_file_at [OF d, of x] a(2) by simp
  qed (use a(1) in \<open>simp add: rename_to_backup_def backup_path_def\<close>)
qed

lemma own_paths_apart:
  assumes "t \<noteq> []"
  shows "sibling ''.bak'' t \<noteq> t" "temp_sibling io t \<noteq> t" "temp_sibling io (sibling ''.bak'' t) \<noteq> t"
    "temp_sibling io t \<noteq> sibling ''.bak'' t" "temp_sibling io (sibling ''.bak'' t) \<noteq> sibling ''.bak'' t"
proof -
  obtain b l where t: "t = b @ [l]" using assms by (cases t rule: rev_cases) auto
  show "sibling ''.bak'' t \<noteq> t" "temp_sibling io t \<noteq> t" "temp_sibling io (sibling ''.bak'' t) \<noteq> t"
    "temp_sibling io t \<noteq> sibling ''.bak'' t" "temp_sibling io (sibling ''.bak'' t) \<noteq> sibling ''.bak'' t"
    by (simp_all add: t sibling_def temp_sibling_def)
qed

lemma key_target_not_Nil: "key_target resolve key = Some (base, t) \<Longrightarrow> t \<noteq> []"
  by (auto simp: key_target_def join_rel_def split: option.splits)

definition owned :: "run \<Rightarrow> string \<Rightarrow> installed option" where
  "owned r key = map_of (hs_files (ru_state r)) key"

lemma run_parts [simp]:
  "ru_fs (push_action t st r) = ru_fs r" "ru_fs (push_notice n r) = ru_fs r"
  "ru_fs (record_file key want sha r) = ru_fs r" "ru_fs (forget_file key r) = ru_fs r"
  "owned (push_action t st r) k = owned r k" "owned (push_notice n r) k = owned r k"
  "owned (record_file key want sha r) k = (if k = key then Some \<lparr>in_domain = df_domain want, in_sha256 = sha\<rparr> else owned r k)"
  "owned (forget_file key r) k = (if k = key then None else owned r k)"
  "owned (r\<lparr>ru_fs := s\<rparr>) k = owned r k"
  by (simp_all add: push_action_def push_notice_def record_file_def forget_file_def owned_def map_of_bt_insert map_of_bt_remove)

text \<open>Every step keeps to its own paths and its own receipt row.\<close>

lemma write_elsewhere:
  "x \<notin> own_paths io t \<Longrightarrow> file_at (ru_fs (write_and_record io key t want st r)) x = file_at (ru_fs r) x"
  "k \<noteq> key \<Longrightarrow> owned (write_and_record io key t want st r) k = owned r k"
  by (simp add: write_and_record_at own_paths_def)
     (auto simp: write_and_record_def split: prod.splits sum.splits)

lemma apply_elsewhere:
  assumes "t \<noteq> []"
  shows "x \<notin> own_paths io t \<Longrightarrow> file_at (ru_fs (apply_desired_file io h key t want r)) x = file_at (ru_fs r) x"
    and "k \<noteq> key \<Longrightarrow> owned (apply_desired_file io h key t want r) k = owned r k"
  by (auto simp: apply_desired_file_def Let_def write_elsewhere own_paths_def
      split: read_result.splits option.splits prod.splits intro: copy_to_backup_at)

lemma retire_elsewhere:
  assumes "t \<noteq> []"
  shows "x \<notin> own_paths io t \<Longrightarrow> file_at (ru_fs (retire_file io key base t r)) x = file_at (ru_fs r) x"
    and "k \<noteq> key \<Longrightarrow> owned (retire_file io key base t r) k = owned r k"
  by (auto simp: retire_file_def own_paths_def remove_file_at
      split: read_result.splits option.splits prod.splits bool.splits intro: rename_to_backup_at)

text \<open>A file no row of the receipt owns is read, never written.\<close>

lemma unowned_stays:
  assumes "owned r key = None" "file_at (ru_fs r) t \<noteq> None"
  shows "ru_fs (apply_desired_file io h key t want r) = ru_fs r"
  using assms by (auto simp: apply_desired_file_def read_file_def file_at_def owned_def Let_def split: if_splits)

lemma unowned_elsewhere:
  assumes "owned r key = None" "x \<noteq> t" "x \<noteq> temp_sibling io t"
  shows "file_at (ru_fs (apply_desired_file io h key t want r)) x = file_at (ru_fs r) x"
  using assms by (auto simp: apply_desired_file_def write_and_record_at owned_def Let_def split: read_result.splits)

section \<open>What is not Crystalline's stays\<close>

definition off_limits :: "io_env \<Rightarrow> (artifact_type \<Rightarrow> path option) \<Rightarrow> run \<Rightarrow> path \<Rightarrow> bool" where
  "off_limits io resolve r x \<longleftrightarrow>
     (\<forall>key base t. key_target resolve key = Some (base, t) \<longrightarrow> x \<noteq> temp_sibling io t \<and> (owned r key \<noteq> None \<longrightarrow> x \<notin> own_paths io t))"

lemma desired_step_stays:
  assumes "\<And>base t. key_target resolve key = Some (base, t) \<Longrightarrow> x \<noteq> temp_sibling io t \<and> (owned r key \<noteq> None \<longrightarrow> x \<notin> own_paths io t)"
    and "file_at (ru_fs r) x = Some c"
  shows "file_at (ru_fs (desired_step io h resolve (key, want) r)) x = Some c"
proof (cases "key_target resolve key")
  case (Some bt)
  obtain base t where t: "bt = (base, t)" by (cases bt)
  have x: "x \<noteq> temp_sibling io t" "owned r key \<noteq> None \<longrightarrow> x \<notin> own_paths io t"
    using assms(1) Some t by blast+
  have ne: "t \<noteq> []" using Some t key_target_not_Nil by blast
  have "file_at (ru_fs (apply_desired_file io h key t want r)) x = file_at (ru_fs r) x"
  proof (cases "owned r key")
    case None
    show ?thesis
    proof (cases "x = t")
      case True
      then show ?thesis using unowned_stays [OF None, of t] assms(2) by simp
    qed (use unowned_elsewhere [OF None] x in simp)
  next
    case (Some i)
    then show ?thesis using apply_elsewhere(1) [OF ne] x by simp
  qed
  then show ?thesis using Some t assms(2) by (simp add: desired_step_def)
qed (use assms in \<open>simp add: desired_step_def\<close>)

lemma desired_step_owned: "k \<noteq> key \<Longrightarrow> owned (desired_step io h resolve (key, want) r) k = owned r k"
  using apply_elsewhere(2) key_target_not_Nil by (auto simp: desired_step_def split: option.splits)

lemma desired_steps_stay:
  assumes "off_limits io resolve r x" "distinct (map fst kws)"
    and "\<And>k. k \<in> fst ` set kws \<Longrightarrow> owned r' k = owned r k" "file_at (ru_fs r') x = Some c"
  shows "file_at (ru_fs (fold (desired_step io h resolve) kws r')) x = Some c"
  using assms(2-4)
proof (induction kws arbitrary: r')
  case (Cons kw kws)
  obtain key want where kw: "kw = (key, want)" by (cases kw)
  let ?r = "desired_step io h resolve (key, want) r'"
  have "file_at (ru_fs ?r) x = Some c"
  proof (rule desired_step_stays)
    fix base t assume t: "key_target resolve key = Some (base, t)"
    have "owned r' key = owned r key" using Cons.prems(2) kw by simp
    then show "x \<noteq> temp_sibling io t \<and> (owned r' key \<noteq> None \<longrightarrow> x \<notin> own_paths io t)"
      using assms(1) t unfolding off_limits_def by simp
  qed (rule Cons.prems(3))
  moreover have "owned ?r k = owned r k" if k: "k \<in> fst ` set kws" for k
  proof -
    have "k \<noteq> key" using Cons.prems(1) kw k by auto
    then show ?thesis using desired_step_owned Cons.prems(2) kw k by simp
  qed
  ultimately have "file_at (ru_fs (fold (desired_step io h resolve) kws ?r)) x = Some c"
    using Cons.IH [of ?r] Cons.prems(1) by simp
  then show ?case using kw by simp
qed simp

lemma owned_key: "owned r key \<noteq> None \<longleftrightarrow> key \<in> set (map fst (hs_files (ru_state r)))"
  by (simp add: owned_def map_of_eq_None_iff)

lemma retire_step_stays:
  assumes "\<And>base t. key_target resolve key = Some (base, t) \<Longrightarrow> x \<notin> own_paths io t"
  shows "file_at (ru_fs (retire_step io resolve key r)) x = file_at (ru_fs r) x"
  using assms retire_elsewhere(1) key_target_not_Nil by (auto simp: retire_step_def split: option.splits)

lemma retire_steps_stay:
  assumes "\<And>key base t. key \<in> set keys \<Longrightarrow> key_target resolve key = Some (base, t) \<Longrightarrow> x \<notin> own_paths io t"
  shows "file_at (ru_fs (fold (retire_step io resolve) keys r)) x = file_at (ru_fs r) x"
  using assms
proof (induction keys arbitrary: r)
  case (Cons key keys)
  have "file_at (ru_fs (retire_step io resolve key r)) x = file_at (ru_fs r) x"
    by (rule retire_step_stays) (use Cons.prems in auto)
  moreover have "file_at (ru_fs (fold (retire_step io resolve) keys (retire_step io resolve key r))) x
      = file_at (ru_fs (retire_step io resolve key r)) x"
    by (rule Cons.IH) (use Cons.prems in auto)
  ultimately show ?case by simp
qed simp

text \<open>The desired pass adds rows for desired keys only.\<close>

lemma desired_steps_owned:
  "k \<notin> fst ` set kws \<Longrightarrow> owned (fold (desired_step io h resolve) kws r) k = owned r k"
proof (induction kws arbitrary: r)
  case (Cons kw kws)
  then show ?case using desired_step_owned [of k "fst kw" io h resolve "snd kw" r] by (cases kw) simp
qed simp

lemma mcp_fs [simp]: "ru_fs (snd (reconcile_mcps M h desired mr)) = ru_fs (snd mr)"
proof -
  have n: "ru_fs (runner_notices ns r) = ru_fs r" for ns r
    unfolding runner_notices_def by (induction ns arbitrary: r) simp_all
  have d: "ru_fs (snd (desired_mcp_step M h nw mr)) = ru_fs (snd mr)" for nw mr
    by (auto simp: desired_mcp_step_def add_mcp_def update_mcp_def record_mcp_def n Let_def
        split: prod.splits mcp_outcome.splits option.splits)
  have t: "ru_fs (snd (retire_mcp M h name mr)) = ru_fs (snd mr)" for name mr
    by (auto simp: retire_mcp_def forget_mcp_def n Let_def split: prod.splits mcp_outcome.splits)
  have ds: "ru_fs (snd (fold (desired_mcp_step M h) nws mr)) = ru_fs (snd mr)" for nws mr
    by (induction nws arbitrary: mr) (simp_all add: d)
  have ts: "ru_fs (snd (fold (retire_mcp M h) names mr)) = ru_fs (snd mr)" for names mr
    by (induction names arbitrary: mr) (simp_all add: t)
  obtain m r where f: "fold (desired_mcp_step M h) (ds_mcps desired) mr = (m, r)" by (cases "fold (desired_mcp_step M h) (ds_mcps desired) mr")
  show ?thesis using ds [of "ds_mcps desired" mr] by (simp add: reconcile_mcps_def Let_def f ts)
qed

text \<open>
  C9: what Crystalline did not install stays. Whatever the receipt, the desired set, the
  runner and the failures of the file system, a file that is there before a reconcile is
  there after it with the same content, unless a row of the receipt names it or the copy it
  is the \<open>.bak\<close> of, or its name is the one of a temporary file of this process.
\<close>

theorem foreign_files_stay:
  assumes "bt_ok (ds_files desired)" "file_at s x = Some c"
    and "\<And>key base t. key_target resolve key = Some (base, t) \<Longrightarrow>
      x \<noteq> temp_sibling io t \<and> (key \<in> dom (map_of (hs_files state)) \<longrightarrow> x \<notin> own_paths io t)"
  shows "file_at (files_after io M h resolve desired m s state) x = Some c"
proof -
  let ?r = "\<lparr>ru_fs = s, ru_state = state, ru_actions = [], ru_notices = []\<rparr>"
  let ?d = "fold (desired_step io h resolve) (ds_files desired) ?r"
  let ?u = "filter (\<lambda>k. map_of (ds_files desired) k = None) (map fst (hs_files (ru_state ?d)))"
  have off: "off_limits io resolve ?r x"
    using assms(3) by (simp add: off_limits_def owned_def domIff)
  have "distinct (map fst (ds_files desired))" using bt_ok_hm_ok [OF assms(1)] by (simp add: hm_ok_def)
  then have "file_at (ru_fs ?d) x = Some c"
    using desired_steps_stay [OF off, of "ds_files desired" ?r c] assms(2) by simp
  moreover have "file_at (ru_fs (fold (retire_step io resolve) ?u ?d)) x = file_at (ru_fs ?d) x"
  proof (rule retire_steps_stay)
    fix key base t assume k: "key \<in> set ?u" "key_target resolve key = Some (base, t)"
    then have "key \<notin> fst ` set (ds_files desired)" "owned ?d key \<noteq> None"
      unfolding owned_key by (simp_all add: map_of_eq_None_iff)
    then have "owned ?r key \<noteq> None" using desired_steps_owned by simp
    then show "x \<notin> own_paths io t" using off k(2) by (simp add: off_limits_def)
  qed
  ultimately show ?thesis by (simp add: reconcile_resolved_def reconcile_files_def Let_def)
qed

section \<open>One key at a time\<close>

text \<open>
  \<open>clear_of\<close>: no other key of the receipt or the desired set comes to a path of \<open>X\<close>, as its
  file, its backup or a temporary file of these. Other keys come to a key's own paths where
  one key is another one with \<open>.bak\<close> or \<open>.tmp\<close> and a number at its end, or where the folders
  of two kinds lie in each other.
\<close>

definition clear_of :: "io_env \<Rightarrow> (artifact_type \<Rightarrow> path option) \<Rightarrow> string list \<Rightarrow> string \<Rightarrow> path set \<Rightarrow> bool" where
  "clear_of io resolve keys key X \<longleftrightarrow>
     list_all (\<lambda>k. k = key \<or> (case key_target resolve k of Some (_, u) \<Rightarrow> own_paths io u \<inter> X = {} | None \<Rightarrow> True)) keys"

definition all_keys :: "desired_set \<Rightarrow> harness_state \<Rightarrow> string list" where
  "all_keys desired state = map fst (ds_files desired) @ map fst (hs_files state)"

lemma clear_ofD:
  "clear_of io resolve keys key X \<Longrightarrow> k \<in> set keys \<Longrightarrow> k \<noteq> key \<Longrightarrow> key_target resolve k = Some (b, u) \<Longrightarrow>
     x \<in> X \<Longrightarrow> x \<notin> own_paths io u"
  by (fastforce simp: clear_of_def list_all_iff)

definition same_at :: "path set \<Rightarrow> string \<Rightarrow> run \<Rightarrow> run \<Rightarrow> bool" where
  "same_at X key r r' \<longleftrightarrow> (\<forall>x\<in>X. file_at (ru_fs r') x = file_at (ru_fs r) x) \<and> owned r' key = owned r key"

lemma same_at_refl: "same_at X key r r"
  by (simp add: same_at_def)

lemma same_at_trans: "same_at X key r r' \<Longrightarrow> same_at X key r' r'' \<Longrightarrow> same_at X key r r''"
  by (simp add: same_at_def)

lemma desired_step_here:
  assumes "clear_of io resolve keys key X" "k \<in> set keys" "k \<noteq> key"
  shows "same_at X key r (desired_step io h resolve (k, want) r)"
proof (cases "key_target resolve k")
  case (Some bt)
  obtain b u where u: "bt = (b, u)" by (cases bt)
  have "x \<notin> own_paths io u" if "x \<in> X" for x using clear_ofD [OF assms] Some u that by blast
  moreover have "u \<noteq> []" using Some u key_target_not_Nil by blast
  ultimately show ?thesis
    using Some u assms(3) apply_elsewhere [of u] by (simp add: same_at_def desired_step_def)
qed (simp add: desired_step_def same_at_refl)

lemma retire_step_here:
  assumes "clear_of io resolve keys key X" "k \<in> set keys" "k \<noteq> key"
  shows "same_at X key r (retire_step io resolve k r)"
proof (cases "key_target resolve k")
  case (Some bt)
  obtain b u where u: "bt = (b, u)" by (cases bt)
  have "x \<notin> own_paths io u" if "x \<in> X" for x using clear_ofD [OF assms] Some u that by blast
  moreover have "u \<noteq> []" using Some u key_target_not_Nil by blast
  ultimately show ?thesis
    using Some u assms(3) retire_elsewhere [of u] by (simp add: same_at_def retire_step_def)
qed (simp add: retire_step_def same_at_refl)

lemma desired_steps_here:
  assumes "clear_of io resolve keys key X" "fst ` set kws \<subseteq> set keys" "key \<notin> fst ` set kws"
  shows "same_at X key r (fold (desired_step io h resolve) kws r)"
  using assms(2,3)
proof (induction kws arbitrary: r)
  case (Cons kw kws)
  obtain k want where kw: "kw = (k, want)" by (cases kw)
  have "same_at X key r (desired_step io h resolve (k, want) r)"
    by (rule desired_step_here [OF assms(1)]) (use Cons.prems kw in auto)
  moreover have "same_at X key (desired_step io h resolve (k, want) r)
      (fold (desired_step io h resolve) kws (desired_step io h resolve (k, want) r))"
    by (rule Cons.IH) (use Cons.prems in auto)
  ultimately show ?case using kw same_at_trans by simp
qed (simp add: same_at_refl)

lemma retire_steps_here:
  assumes "clear_of io resolve keys key X" "set ks \<subseteq> set keys" "key \<notin> set ks"
  shows "same_at X key r (fold (retire_step io resolve) ks r)"
  using assms(2,3)
proof (induction ks arbitrary: r)
  case (Cons k ks)
  have "same_at X key r (retire_step io resolve k r)"
    by (rule retire_step_here [OF assms(1)]) (use Cons.prems in auto)
  moreover have "same_at X key (retire_step io resolve k r) (fold (retire_step io resolve) ks (retire_step io resolve k r))"
    by (rule Cons.IH) (use Cons.prems in auto)
  ultimately show ?case using same_at_trans by simp
qed (simp add: same_at_refl)

text \<open>A row whose key names no path here is left as it is.\<close>

lemma unresolved_stays:
  assumes "key_target resolve key = None"
  shows "owned (reconcile_files io h resolve desired r) key = owned r key"
proof -
  have d: "owned (desired_step io h resolve kw r) key = owned r key" for kw r
    using assms desired_step_owned [of key "fst kw" io h resolve "snd kw" r] by (cases "key = fst kw") (auto simp: desired_step_def)
  have t: "owned (retire_step io resolve k r) key = owned r key" for k r
    using assms retire_elsewhere(2) key_target_not_Nil
    by (cases "key = k") (auto simp: retire_step_def split: option.splits)
  have "owned (fold (desired_step io h resolve) kws r) key = owned r key" for kws r
    by (induction kws arbitrary: r) (simp_all add: d)
  moreover have "owned (fold (retire_step io resolve) ks r) key = owned r key" for ks r
    by (induction ks arbitrary: r) (simp_all add: t)
  ultimately show ?thesis by (simp add: reconcile_files_def Let_def)
qed

lemma bt_ok_remove: "bt_ok m \<Longrightarrow> bt_ok (bt_remove k m)"
  by (simp add: bt_remove_def bt_ok_filter)

definition rows_ok :: "run \<Rightarrow> bool" where
  "rows_ok r \<longleftrightarrow> bt_ok (hs_files (ru_state r))"

lemma rows_ok_parts [simp]:
  "rows_ok (push_action t st r) = rows_ok r" "rows_ok (push_notice n r) = rows_ok r" "rows_ok (r\<lparr>ru_fs := s\<rparr>) = rows_ok r"
  "rows_ok r \<Longrightarrow> rows_ok (record_file key want sha r)"
  by (simp_all add: rows_ok_def push_action_def push_notice_def record_file_def bt_ok_insert)

lemma apply_rows_ok: "rows_ok r \<Longrightarrow> rows_ok (apply_desired_file io h key t want r)"
proof -
  have w: "rows_ok q \<Longrightarrow> rows_ok (write_and_record io key t want st q)" for st q
    by (simp add: write_and_record_def split: prod.splits sum.splits)
  show "rows_ok r \<Longrightarrow> rows_ok (apply_desired_file io h key t want r)"
    by (simp add: apply_desired_file_def Let_def w split: read_result.splits option.splits prod.splits)
qed

lemma desired_steps_rows_ok: "rows_ok r \<Longrightarrow> rows_ok (fold (desired_step io h resolve) kws r)"
  by (induction kws arbitrary: r) (simp_all add: desired_step_def apply_rows_ok split: option.splits prod.splits)

text \<open>The whole pass, seen from one key: one step of its own, and nothing before or after it.\<close>

lemma reconcile_desired_key:
  assumes "clear_of io resolve (all_keys desired (ru_state r)) key X" "bt_ok (ds_files desired)"
    and "(key, want) \<in> set (ds_files desired)" "key_target resolve key = Some (base, t)"
  obtains kws where "set kws \<subseteq> set (ds_files desired)"
    "same_at X key r (fold (desired_step io h resolve) kws r)"
    "same_at X key (apply_desired_file io h key t want (fold (desired_step io h resolve) kws r)) (reconcile_files io h resolve desired r)"
proof -
  obtain pre post where sp: "ds_files desired = pre @ (key, want) # post" using assms(3) by (auto dest: split_list)
  let ?keys = "all_keys desired (ru_state r)"
  have d: "key \<notin> fst ` set pre" "key \<notin> fst ` set post"
    using bt_ok_hm_ok [OF assms(2)] by (auto simp: sp hm_ok_def)
  let ?r1 = "fold (desired_step io h resolve) pre r"
  let ?r2 = "desired_step io h resolve (key, want) ?r1"
  let ?r3 = "fold (desired_step io h resolve) post ?r2"
  have s1: "same_at X key r ?r1"
    by (rule desired_steps_here [OF assms(1) _ d(1)]) (auto simp: sp all_keys_def)
  have s3: "same_at X key ?r2 ?r3"
    by (rule desired_steps_here [OF assms(1) _ d(2)]) (auto simp: sp all_keys_def)
  let ?u = "filter (\<lambda>k. map_of (ds_files desired) k = None) (map fst (hs_files (ru_state ?r3)))"
  have f: "fold (desired_step io h resolve) (ds_files desired) r = ?r3" by (simp add: sp)
  have u: "set ?u \<subseteq> set ?keys"
  proof
    fix x assume x: "x \<in> set ?u"
    then have n: "x \<notin> fst ` set (ds_files desired)" by (simp add: map_of_eq_None_iff)
    have "owned ?r3 x \<noteq> None" unfolding owned_key using x by simp
    then have "owned r x \<noteq> None" using desired_steps_owned [OF n, of io h resolve r] f by simp
    then show "x \<in> set ?keys" unfolding owned_key by (simp add: all_keys_def)
  qed
  have "key \<notin> set ?u" by (simp add: sp map_of_eq_None_iff)
  then have "same_at X key ?r3 (fold (retire_step io resolve) ?u ?r3)"
    by (rule retire_steps_here [OF assms(1) u])
  from same_at_trans [OF s3 this] have "same_at X key ?r2 (reconcile_files io h resolve desired r)"
    by (simp only: reconcile_files_def Let_def f)
  moreover have "?r2 = apply_desired_file io h key t want ?r1" by (simp add: desired_step_def assms(4))
  ultimately have "same_at X key (apply_desired_file io h key t want ?r1) (reconcile_files io h resolve desired r)"
    by (simp only:)
  moreover have "set pre \<subseteq> set (ds_files desired)" unfolding sp by auto
  ultimately show thesis using s1 by (intro that [of pre])
qed

lemma reconcile_undesired_key:
  assumes "clear_of io resolve (all_keys desired (ru_state r)) key X" "bt_ok (hs_files (ru_state r))"
    and "map_of (ds_files desired) key = None" "owned r key = Some i" "key_target resolve key = Some (base, t)"
  obtains r1 where "same_at X key r r1"
    "same_at X key (retire_file io key base t r1) (reconcile_files io h resolve desired r)"
proof -
  let ?keys = "all_keys desired (ru_state r)"
  let ?d = "fold (desired_step io h resolve) (ds_files desired) r"
  let ?u = "filter (\<lambda>k. map_of (ds_files desired) k = None) (map fst (hs_files (ru_state ?d)))"
  have n: "key \<notin> fst ` set (ds_files desired)" using assms(3) by (simp add: map_of_eq_None_iff)
  have d: "same_at X key r ?d"
    by (rule desired_steps_here [OF assms(1) _ n]) (auto simp: all_keys_def)
  then have "owned ?d key \<noteq> None" using assms(4) by (simp add: same_at_def)
  then have "key \<in> set ?u" unfolding owned_key using assms(3) by simp
  then obtain pre post where sp: "?u = pre @ key # post" by (auto dest: split_list)
  have "rows_ok ?d" using assms(2) by (simp add: rows_ok_def [of r] desired_steps_rows_ok)
  then have "distinct (map fst (hs_files (ru_state ?d)))" using bt_ok_hm_ok unfolding rows_ok_def hm_ok_def by blast
  then have "distinct ?u" by (rule distinct_filter)
  then have ds: "key \<notin> set pre" "key \<notin> set post" unfolding sp by simp_all
  have u: "set ?u \<subseteq> set ?keys"
  proof
    fix x assume x: "x \<in> set ?u"
    then have n: "x \<notin> fst ` set (ds_files desired)" by (simp add: map_of_eq_None_iff)
    have "owned ?d x \<noteq> None" unfolding owned_key using x by simp
    then have "owned r x \<noteq> None" using desired_steps_owned [OF n, of io h resolve r] by simp
    then show "x \<in> set ?keys" unfolding owned_key by (simp add: all_keys_def)
  qed
  let ?r1 = "fold (retire_step io resolve) pre ?d"
  let ?r2 = "retire_step io resolve key ?r1"
  have "same_at X key ?d ?r1"
    by (rule retire_steps_here [OF assms(1) _ ds(1)]) (use u sp in auto)
  moreover have "same_at X key ?r2 (fold (retire_step io resolve) post ?r2)"
    by (rule retire_steps_here [OF assms(1) _ ds(2)]) (use u sp in auto)
  moreover have "reconcile_files io h resolve desired r = fold (retire_step io resolve) post ?r2"
    by (simp add: reconcile_files_def Let_def sp)
  moreover have "?r2 = retire_file io key base t ?r1" by (simp add: retire_step_def assms(5))
  ultimately show thesis using that [of ?r1] d same_at_trans by metis
qed

lemma hs_files_mcps: "hs_files (ru_state (snd (reconcile_mcps M h desired mr))) = hs_files (ru_state (snd mr))"
proof -
  have n: "hs_files (ru_state (runner_notices ns r)) = hs_files (ru_state r)" for ns r
    unfolding runner_notices_def by (induction ns arbitrary: r) (simp_all add: push_notice_def)
  have d: "hs_files (ru_state (snd (desired_mcp_step M h nw mr))) = hs_files (ru_state (snd mr))" for nw mr
    by (auto simp: desired_mcp_step_def add_mcp_def update_mcp_def record_mcp_def push_notice_def push_action_def n Let_def
        split: prod.splits mcp_outcome.splits option.splits)
  have t: "hs_files (ru_state (snd (retire_mcp M h name mr))) = hs_files (ru_state (snd mr))" for name mr
    by (auto simp: retire_mcp_def forget_mcp_def push_notice_def push_action_def n Let_def split: prod.splits mcp_outcome.splits)
  have ds: "hs_files (ru_state (snd (fold (desired_mcp_step M h) nws mr))) = hs_files (ru_state (snd mr))" for nws mr
    by (induction nws arbitrary: mr) (simp_all add: d)
  have ts: "hs_files (ru_state (snd (fold (retire_mcp M h) names mr))) = hs_files (ru_state (snd mr))" for names mr
    by (induction names arbitrary: mr) (simp_all add: t)
  obtain m r where f: "fold (desired_mcp_step M h) (ds_mcps desired) mr = (m, r)" by (cases "fold (desired_mcp_step M h) (ds_mcps desired) mr")
  show ?thesis using ds [of "ds_mcps desired" mr] by (simp add: reconcile_mcps_def Let_def f ts)
qed

section \<open>Edits survive\<close>

lemma write_keeps_backup:
  assumes "t \<noteq> []"
  shows "file_at (ru_fs (write_and_record io key t want st r)) (sibling ''.bak'' t) = file_at (ru_fs r) (sibling ''.bak'' t)"
  using own_paths_apart(1,4) [OF assms] own_paths_apart(1,4) [OF assms, THEN not_sym] by (intro write_and_record_at) simp

lemma edit_kept_by_apply:
  assumes "t \<noteq> []" "owned r key = Some i" "file_at (ru_fs r) t = Some c" "io_sha io c \<noteq> in_sha256 i"
  shows "file_at (ru_fs (apply_desired_file io h key t want r)) t = Some c
    \<or> file_at (ru_fs (apply_desired_file io h key t want r)) (sibling ''.bak'' t) = Some c"
proof (cases "io_read io t")
  case False
  then show ?thesis using assms(3) by (simp add: apply_desired_file_def read_file_def)
next
  case True
  note ap = own_paths_apart [OF assms(1)] own_paths_apart [OF assms(1), THEN not_sym]
  have rd: "read_file io t (ru_fs r) = ReadOk c" using True assms(3) by (simp add: read_file_def file_at_def)
  obtain s saved where b: "copy_to_backup io t c (ru_fs r) = (s, saved)" by (cases "copy_to_backup io t c (ru_fs r)")
  have e: "apply_desired_file io h key t want r
      = (if saved then write_and_record io key t want UpdatedBackup (r\<lparr>ru_fs := s\<rparr>) else push_notice (BackupErrorNotice t) (r\<lparr>ru_fs := s\<rparr>))"
    using rd assms(2,4) b by (simp add: apply_desired_file_def owned_def)
  show ?thesis
  proof (cases saved)
    case True
    have "file_at s (sibling ''.bak'' t) = Some c"
      using b True assms(1) save_bytes_at(1) by (simp add: copy_to_backup_def backup_path_def)
    then show ?thesis using True e write_keeps_backup [OF assms(1)] by simp
  next
    case False
    then show ?thesis using e copy_to_backup_at [OF b, of t] ap assms(3) by simp
  qed
qed

lemma edit_kept_by_retire:
  assumes "t \<noteq> []" "owned r key = Some i" "file_at (ru_fs r) t = Some c" "io_sha io c \<noteq> in_sha256 i"
  shows "file_at (ru_fs (retire_file io key base t r)) t = Some c
    \<or> file_at (ru_fs (retire_file io key base t r)) (sibling ''.bak'' t) = Some c"
proof (cases "io_read io t")
  case False
  then show ?thesis using assms(2,3) by (simp add: retire_file_def read_file_def owned_def)
next
  case True
  note ap = own_paths_apart [OF assms(1)] own_paths_apart [OF assms(1), THEN not_sym]
  have rd: "read_file io t (ru_fs r) = ReadOk c" using True assms(3) by (simp add: read_file_def file_at_def)
  obtain s1 d1 where d: "remove_file io (sibling ''.bak'' t) (ru_fs r) = (s1, d1)" by (cases "remove_file io (sibling ''.bak'' t) (ru_fs r)")
  obtain s moved where m: "rename_file io t (sibling ''.bak'' t) s1 = (s, moved)" by (cases "rename_file io t (sibling ''.bak'' t) s1")
  have s1: "file_at s1 t = Some c" using remove_file_at [OF d, of t] ap(1) assms(3) by simp
  have "rename_to_backup io t (ru_fs r) = (s, moved)"
    using assms(1) d m by (simp add: rename_to_backup_def backup_path_def)
  then have e: "ru_fs (retire_file io key base t r) = s"
    using rd assms(2,4) by (simp add: retire_file_def owned_def split: bool.splits)
  show ?thesis using rename_file_at [OF m, of t] rename_file_at [OF m, of "sibling ''.bak'' t"] s1 ap(1) unfolding e by (cases moved) simp_all
qed

text \<open>
  C10: an edit is not destroyed. Take a file a row of the receipt names, whose content is no
  longer the one the row recorded. Unless another key of the receipt or the desired set comes
  to this file or its \<open>.bak\<close> (where one does, an edit can be lost: \<open>edit_lost_between_keys\<close>),
  the content is after any reconcile still in its place or in the \<open>.bak\<close> beside it, whatever
  the domains now want of that key or of any other and whichever operations of the file
  system fail.
\<close>

theorem edits_survive:
  assumes "bt_ok (ds_files desired)" "bt_ok (hs_files state)"
    and "map_of (hs_files state) key = Some i" "key_target resolve key = Some (base, t)"
    and "clear_of io resolve (all_keys desired state) key {t, sibling ''.bak'' t}"
    and "file_at s t = Some c" "io_sha io c \<noteq> in_sha256 i"
  shows "file_at (files_after io M h resolve desired m s state) t = Some c
    \<or> file_at (files_after io M h resolve desired m s state) (sibling ''.bak'' t) = Some c"
proof -
  let ?r = "\<lparr>ru_fs = s, ru_state = state, ru_actions = [], ru_notices = []\<rparr>"
  have s': "files_after io M h resolve desired m s state = ru_fs (reconcile_files io h resolve desired ?r)"
    by (simp add: reconcile_resolved_def)
  have ne: "t \<noteq> []" using assms(4) by (rule key_target_not_Nil)
  let ?X = "{t, sibling ''.bak'' t}"
  have ap: "clear_of io resolve (all_keys desired (ru_state ?r)) key ?X"
    and ok: "bt_ok (hs_files (ru_state ?r))" and ow: "owned ?r key = Some i"
    using assms(2,3,5) by (simp_all add: owned_def)
  show ?thesis
  proof (cases "map_of (ds_files desired) key")
    case (Some want)
    then have "(key, want) \<in> set (ds_files desired)" by (rule map_of_SomeD)
    from reconcile_desired_key [OF ap assms(1) this assms(4)] obtain kws where
      h: "same_at ?X key ?r (fold (desired_step io h resolve) kws ?r)"
        "same_at ?X key (apply_desired_file io h key t want (fold (desired_step io h resolve) kws ?r)) (reconcile_files io h resolve desired ?r)" .
    have "owned (fold (desired_step io h resolve) kws ?r) key = Some i" "file_at (ru_fs (fold (desired_step io h resolve) kws ?r)) t = Some c"
      using h(1) ow assms(6) by (simp_all add: same_at_def)
    from edit_kept_by_apply [OF ne this assms(7)] show ?thesis
      using h(2) unfolding same_at_def s' by simp
  next
    case None
    from reconcile_undesired_key [OF ap ok None ow assms(4)] obtain r1 where
      h: "same_at ?X key ?r r1" "same_at ?X key (retire_file io key base t r1) (reconcile_files io h resolve desired ?r)" .
    have "owned r1 key = Some i" "file_at (ru_fs r1) t = Some c"
      using h(1) ow assms(6) by (simp_all add: same_at_def)
    from edit_kept_by_retire [OF ne this assms(7)] show ?thesis
      using h(2) unfolding same_at_def s' by simp
  qed
qed

section \<open>What a reconcile that works leaves\<close>

definition io_works :: "io_env \<Rightarrow> bool" where
  "io_works io \<longleftrightarrow>
     (\<forall>p q. io_read io p \<and> \<not> io_fenced io p \<and> io_mkdir io p \<and> io_write io p \<and> io_rename io p q \<and> io_remove io p)"

lemma save_works: "io_works io \<Longrightarrow> snd (save_bytes io p bytes s)"
  by (simp add: save_bytes_def rename_file_def io_works_def Let_def update_conv' create_dir_all_def)

text \<open>The bytes of a desired file: what its payload reads as, on which the digest of the set agrees.\<close>

definition payload_ready :: "io_env \<Rightarrow> fs \<Rightarrow> path set \<Rightarrow> desired_file \<Rightarrow> string \<Rightarrow> bool" where
  "payload_ready io s taken want bytes \<longleftrightarrow>
     payload_bytes io (df_payload want) s = Some bytes \<and> io_sha io bytes = df_sha256 want
     \<and> (case df_payload want of PayloadFile source \<Rightarrow> source \<notin> taken | Rendered _ \<Rightarrow> True)"

definition row_of :: "desired_file \<Rightarrow> installed" where
  "row_of want = \<lparr>in_domain = df_domain want, in_sha256 = df_sha256 want\<rparr>"

lemma write_works:
  assumes "io_works io" "payload_bytes io (df_payload want) (ru_fs r) = Some bytes" "io_sha io bytes = df_sha256 want"
  shows "file_at (ru_fs (write_and_record io key t want st r)) t = Some bytes"
    and "owned (write_and_record io key t want st r) key = Some (row_of want)"
proof -
  obtain s where sv: "save_bytes io t bytes (ru_fs r) = (s, True)"
    using save_works [OF assms(1), of t bytes "ru_fs r"] by (cases "save_bytes io t bytes (ru_fs r)") auto
  then have w: "write_payload io t (df_payload want) (ru_fs r) = (s, Inr (df_sha256 want))"
    using assms(2,3) by (simp add: write_payload_def)
  show "file_at (ru_fs (write_and_record io key t want st r)) t = Some bytes"
    using save_bytes_at(1) [OF sv] w by (simp add: write_and_record_def)
  show "owned (write_and_record io key t want st r) key = Some (row_of want)"
    using w by (simp add: write_and_record_def row_of_def)
qed

lemma payload_unmoved:
  assumes "case p of PayloadFile source \<Rightarrow> file_at s' source = file_at s source | Rendered _ \<Rightarrow> True"
  shows "payload_bytes io p s' = payload_bytes io p s"
  using assms by (auto simp: payload_bytes_def read_file_def file_at_def split: payload.splits)

text \<open>One desired key: installed with the wanted bytes, or somebody else's and left alone.\<close>

lemma apply_works:
  fixes h :: harness_kind and key :: string
  assumes io: "io_works io" and t: "t \<noteq> []"
    and p: "payload_bytes io (df_payload want) (ru_fs r) = Some bytes" "io_sha io bytes = df_sha256 want"
    and src: "case df_payload want of PayloadFile source \<Rightarrow> source \<notin> own_paths io t | Rendered _ \<Rightarrow> True"
  defines "r' \<equiv> apply_desired_file io h key t want r"
  shows "(\<exists>c. file_at (ru_fs r') t = Some c \<and> io_sha io c = df_sha256 want \<and> owned r' key = Some (row_of want))
    \<or> (\<exists>c. file_at (ru_fs r) t = Some c \<and> file_at (ru_fs r') t = Some c \<and> io_sha io c \<noteq> df_sha256 want
          \<and> owned r key = None \<and> owned r' key = None)"
proof (cases "file_at (ru_fs r) t")
  case None
  then have "r' = write_and_record io key t want Installed r"
    using io by (simp add: r'_def apply_desired_file_def read_file_def file_at_def io_works_def)
  then show ?thesis using write_works [OF io p] p(2) by blast
next
  case (Some c)
  then have rd: "read_file io t (ru_fs r) = ReadOk c" using io by (simp add: read_file_def file_at_def io_works_def)
  show ?thesis
  proof (cases "owned r key")
    case None
    then show ?thesis using rd Some by (auto simp: r'_def apply_desired_file_def owned_def [of r] row_of_def)
  next
    case own: (Some i)
    show ?thesis
    proof (cases "in_sha256 i = io_sha io c")
      case True
      then have "r' = (if io_sha io c = df_sha256 want then record_file key want (df_sha256 want) r
          else write_and_record io key t want Updated r)"
        using rd own by (simp add: r'_def apply_desired_file_def owned_def)
      then show ?thesis using write_works [OF io p] p(2) Some by (auto simp: row_of_def)
    next
      case False
      obtain s where b: "copy_to_backup io t c (ru_fs r) = (s, True)"
        using save_works [OF io] t by (cases "copy_to_backup io t c (ru_fs r)") (auto simp: copy_to_backup_def backup_path_def, metis snd_conv)
      then have e: "r' = write_and_record io key t want UpdatedBackup (r\<lparr>ru_fs := s\<rparr>)"
        using rd own False by (simp add: r'_def apply_desired_file_def owned_def)
      have "payload_bytes io (df_payload want) s = Some bytes"
      proof -
        have "case df_payload want of PayloadFile source \<Rightarrow> file_at s source = file_at (ru_fs r) source | Rendered _ \<Rightarrow> True"
          using src copy_to_backup_at [OF b] by (simp add: own_paths_def split: payload.splits)
        from payload_unmoved [OF this] show ?thesis using p(1) by simp
      qed
      then have "payload_bytes io (df_payload want) (ru_fs (r\<lparr>ru_fs := s\<rparr>)) = Some bytes" by simp
      from write_works [OF io this p(2)] show ?thesis using e p(2) by blast
    qed
  qed
qed

lemma retire_works:
  fixes base :: path
  assumes io: "io_works io" and t: "t \<noteq> []" and own: "owned r key = Some i"
  defines "r' \<equiv> retire_file io key base t r"
  shows "file_at (ru_fs r') t = None \<and> owned r' key = None"
proof (cases "file_at (ru_fs r) t")
  case None
  then show ?thesis
    using io own by (simp add: r'_def retire_file_def read_file_def file_at_def io_works_def owned_def [of r])
next
  case (Some c)
  then have rd: "read_file io t (ru_fs r) = ReadOk c" using io by (simp add: read_file_def file_at_def io_works_def)
  note ap = own_paths_apart [OF t]
  obtain s1 where d: "remove_file io (sibling ''.bak'' t) (ru_fs r) = (s1, True)"
    using io by (simp add: remove_file_def io_works_def)
  have s1: "file_at s1 t = Some c" using remove_file_at [OF d, of t] ap(1) Some by simp
  then obtain s where m: "rename_file io t (sibling ''.bak'' t) s1 = (s, True)"
    using io by (simp add: rename_file_def file_at_def io_works_def)
  have bk: "rename_to_backup io t (ru_fs r) = (s, True)"
    using t d m by (simp add: rename_to_backup_def backup_path_def)
  obtain s2 where rm: "remove_file io t (ru_fs r) = (s2, True)" using io by (simp add: remove_file_def io_works_def)
  show ?thesis
    using rd own bk rm remove_file_at [OF rm, of t] rename_file_at [OF m, of t] ap(1) t
    by (auto simp: r'_def retire_file_def owned_def [of r])
qed

definition taken :: "io_env \<Rightarrow> (artifact_type \<Rightarrow> path option) \<Rightarrow> string list \<Rightarrow> path set" where
  "taken io resolve keys = (\<Union>k\<in>set keys. case key_target resolve k of Some (_, t) \<Rightarrow> own_paths io t | None \<Rightarrow> {})"

lemma desired_steps_untaken:
  assumes "x \<notin> taken io resolve keys" "fst ` set kws \<subseteq> set keys"
  shows "file_at (ru_fs (fold (desired_step io h resolve) kws r)) x = file_at (ru_fs r) x"
  using assms(2)
proof (induction kws arbitrary: r)
  case (Cons kw kws)
  obtain k want where kw: "kw = (k, want)" by (cases kw)
  have "file_at (ru_fs (desired_step io h resolve (k, want) r)) x = file_at (ru_fs r) x"
  proof (cases "key_target resolve k")
    case (Some bt)
    obtain b t where t: "bt = (b, t)" by (cases bt)
    have "x \<notin> own_paths io t" using assms(1) Cons.prems kw Some t by (force simp: taken_def)
    moreover have "t \<noteq> []" using Some t key_target_not_Nil by blast
    ultimately show ?thesis using Some t apply_elsewhere(1) by (simp add: desired_step_def)
  qed (simp add: desired_step_def)
  then show ?case using Cons.IH [of "desired_step io h resolve (k, want) r"] Cons.prems kw by simp
qed simp

text \<open>A key neither side has gets no row.\<close>

lemma undesired_unowned:
  assumes "map_of (ds_files desired) key = None" "owned r key = None"
  shows "owned (reconcile_files io h resolve desired r) key = None"
proof -
  let ?d = "fold (desired_step io h resolve) (ds_files desired) r"
  have d: "owned ?d key = None"
    using assms desired_steps_owned [of key "ds_files desired"] by (simp add: map_of_eq_None_iff)
  have "owned (retire_step io resolve k r) key = None" if "owned r key = None" for k r
    using that retire_elsewhere(2) key_target_not_Nil
    by (cases "key = k") (auto simp: retire_step_def retire_file_def owned_def split: option.splits)
  then have "owned (fold (retire_step io resolve) ks r) key = None" if "owned r key = None" for ks r
    using that by (induction ks arbitrary: r) simp_all
  with d show ?thesis by (simp add: reconcile_files_def Let_def)
qed

text \<open>
  C20: a reconcile makes the folders match the desired set. When no operation of the file
  system fails, then for every key of which the payload is what the set says it is and whose
  paths no other key comes to: a desired key that names a path is after a reconcile installed
  with the wanted bytes and recorded so, or its file was there before without a row and with
  other bytes and is left as it is, without a row; a row the set no longer has is gone, its
  file with it (an edited one went to its \<open>.bak\<close>, as C10 says). A key that names no path, for
  its shape or for a kind this harness has no folder for, installs nothing, and a row under
  it stays as it is.
\<close>

theorem reconcile_makes_match:
  assumes "io_works io" "bt_ok (ds_files desired)" "bt_ok (hs_files state)"
    and "\<And>base t. key_target resolve key = Some (base, t) \<Longrightarrow> clear_of io resolve (all_keys desired state) key (own_paths io t)"
    and "\<And>want. map_of (ds_files desired) key = Some want \<Longrightarrow>
      \<exists>bytes. payload_ready io s (taken io resolve (map fst (ds_files desired))) want bytes"
  shows "case key_target resolve key of
      None \<Rightarrow> map_of (rows_after io M h resolve desired m s state) key = map_of (hs_files state) key
    | Some (base, t) \<Rightarrow>
        (case (map_of (ds_files desired) key, map_of (hs_files state) key) of
           (Some want, _) \<Rightarrow>
             (\<exists>c. file_at (files_after io M h resolve desired m s state) t = Some c \<and> io_sha io c = df_sha256 want
                \<and> map_of (rows_after io M h resolve desired m s state) key = Some (row_of want))
             \<or> (\<exists>c. file_at s t = Some c \<and> file_at (files_after io M h resolve desired m s state) t = Some c
                \<and> io_sha io c \<noteq> df_sha256 want \<and> map_of (hs_files state) key = None
                \<and> map_of (rows_after io M h resolve desired m s state) key = None)
         | (None, Some _) \<Rightarrow>
             file_at (files_after io M h resolve desired m s state) t = None
             \<and> map_of (rows_after io M h resolve desired m s state) key = None
         | (None, None) \<Rightarrow> map_of (rows_after io M h resolve desired m s state) key = None)"
proof -
  let ?r = "\<lparr>ru_fs = s, ru_state = state, ru_actions = [], ru_notices = []\<rparr>"
  let ?e = "reconcile_files io h resolve desired ?r"
  have fin: "files_after io M h resolve desired m s state = ru_fs ?e"
    "map_of (rows_after io M h resolve desired m s state) k = owned ?e k" for k
    by (simp_all add: reconcile_resolved_def hs_files_mcps owned_def)
  have ok: "bt_ok (hs_files (ru_state ?r))" and ow: "owned ?r k = map_of (hs_files state) k" for k
    using assms(3) by (simp_all add: owned_def)
  show ?thesis
  proof (cases "key_target resolve key")
    case None
    then show ?thesis using unresolved_stays [OF None] ow by (simp add: fin)
  next
    case (Some bt)
    obtain base t where bt: "bt = (base, t)" by (cases bt)
    have kt: "key_target resolve key = Some (base, t)" using Some bt by simp
    have ne: "t \<noteq> []" using kt by (rule key_target_not_Nil)
    have own: "t \<in> own_paths io t" by (simp add: own_paths_def)
    have ap: "clear_of io resolve (all_keys desired (ru_state ?r)) key (own_paths io t)" using assms(4) [OF kt] by simp
    show ?thesis
    proof (cases "map_of (ds_files desired) key")
      case w: (Some want)
      then have kw: "(key, want) \<in> set (ds_files desired)" by (rule map_of_SomeD)
      from reconcile_desired_key [OF ap assms(2) kw kt] obtain kws where
        k: "set kws \<subseteq> set (ds_files desired)" and
        h: "same_at (own_paths io t) key ?r (fold (desired_step io h resolve) kws ?r)"
          "same_at (own_paths io t) key (apply_desired_file io h key t want (fold (desired_step io h resolve) kws ?r)) ?e" .
      let ?q = "fold (desired_step io h resolve) kws ?r"
      obtain bytes where b: "payload_ready io s (taken io resolve (map fst (ds_files desired))) want bytes"
        using assms(5) [OF w] by blast
      have "fst ` set kws \<subseteq> set (map fst (ds_files desired))" using k by auto
      note un = desired_steps_untaken [OF _ this]
      have "case df_payload want of PayloadFile source \<Rightarrow> file_at (ru_fs ?q) source = file_at s source | Rendered _ \<Rightarrow> True"
        using b un by (simp add: payload_ready_def split: payload.splits)
      then have p: "payload_bytes io (df_payload want) (ru_fs ?q) = Some bytes" "io_sha io bytes = df_sha256 want"
        using payload_unmoved b by (simp_all add: payload_ready_def)
      have "own_paths io t \<subseteq> taken io resolve (map fst (ds_files desired))"
        using kw kt by (force simp: taken_def)
      then have src: "case df_payload want of PayloadFile source \<Rightarrow> source \<notin> own_paths io t | Rendered _ \<Rightarrow> True"
        using b by (auto simp: payload_ready_def split: payload.splits)
      from apply_works [OF assms(1) ne p src, of h key] show ?thesis
        using h own ow unfolding same_at_def fin w kt by simp
    next
      case None
      show ?thesis
      proof (cases "map_of (hs_files state) key")
        case i: (Some i)
        then have o: "owned ?r key = Some i" by (simp add: ow)
        from reconcile_undesired_key [OF ap ok None o kt] obtain r1 where
          h: "same_at (own_paths io t) key ?r r1" "same_at (own_paths io t) key (retire_file io key base t r1) ?e" .
        have "owned r1 key = Some i" using h(1) o by (simp add: same_at_def)
        from retire_works [OF assms(1) ne this, of base] show ?thesis
          using h(2) own unfolding same_at_def fin None i kt by simp
      next
        case i: None
        then have "owned ?e key = None" using undesired_unowned [OF None] ow by simp
        then show ?thesis unfolding fin None i kt by simp
      qed
    qed
  qed
qed

section \<open>An example\<close>

definition demo_io :: io_env where
  "demo_io = \<lparr>io_sha = (\<lambda>b. b), io_pid = 7, io_read = (\<lambda>_. True), io_fenced = (\<lambda>_. False), io_mkdir = (\<lambda>_. True),
     io_write = (\<lambda>_. True), io_rename = (\<lambda>_ _. True), io_remove = (\<lambda>_. True), io_rmdir = (\<lambda>_. True)\<rparr>"

definition demo_resolve_kind :: "artifact_type \<Rightarrow> path option" where
  "demo_resolve_kind k = (case k of Skills \<Rightarrow> Some [''home'', ''skills''] | _ \<Rightarrow> None)"

definition demo_desired :: desired_set where
  "demo_desired = \<lparr>ds_files = [(''skills/tide/SKILL.md'', \<lparr>df_domain = ''team'', df_payload = Rendered ''new'', df_sha256 = ''new''\<rparr>)],
     ds_mcps = []\<rparr>"

definition demo_state :: harness_state where
  "demo_state = \<lparr>hs_files = [(''skills/old.md'', \<lparr>in_domain = ''team'', in_sha256 = ''old''\<rparr>),
     (''skills/tide/SKILL.md'', \<lparr>in_domain = ''team'', in_sha256 = ''v1''\<rparr>)], hs_mcps = []\<rparr>"

definition demo_fs :: fs where
  "demo_fs = \<lparr>fs_files = [([''home'', ''skills'', ''notes.md''], ''own''), ([''home'', ''skills'', ''old.md''], ''old''),
       ([''home'', ''skills'', ''tide'', ''SKILL.md''], ''mine'')],
     fs_dirs = [[''home''], [''home'', ''skills''], [''home'', ''skills'', ''tide'']]\<rparr>"

lemma demo_ok:
  "bt_ok (ds_files demo_desired)" "bt_ok (hs_files demo_state)" "io_works demo_io"
  "clear_of demo_io demo_resolve_kind (all_keys demo_desired demo_state) ''skills/tide/SKILL.md''
     (own_paths demo_io [''home'', ''skills'', ''tide'', ''SKILL.md''])"
  "key_target demo_resolve_kind ''skills/tide/SKILL.md'' = Some ([''home'', ''skills''], [''home'', ''skills'', ''tide'', ''SKILL.md''])"
  "key_target demo_resolve_kind ''skills/old.md'' = Some ([''home'', ''skills''], [''home'', ''skills'', ''old.md''])"
proof -
  show "bt_ok (ds_files demo_desired)" by (simp add: bt_ok_def demo_desired_def)
  show "bt_ok (hs_files demo_state)" by (simp add: bt_ok_def demo_state_def less_char_def)
  show "io_works demo_io" by (simp add: io_works_def demo_io_def)
  show "clear_of demo_io demo_resolve_kind (all_keys demo_desired demo_state) ''skills/tide/SKILL.md''
     (own_paths demo_io [''home'', ''skills'', ''tide'', ''SKILL.md''])" by code_simp
  show "key_target demo_resolve_kind ''skills/tide/SKILL.md'' = Some ([''home'', ''skills''], [''home'', ''skills'', ''tide'', ''SKILL.md''])"
    by code_simp
  show "key_target demo_resolve_kind ''skills/old.md'' = Some ([''home'', ''skills''], [''home'', ''skills'', ''old.md''])" by code_simp
qed

lemma not_temp:
  assumes "\<not> ends_with ''.7'' l"
  shows "b @ [l] \<noteq> temp_sibling demo_io t"
proof
  assume "b @ [l] = temp_sibling demo_io t"
  then have "last (b @ [l]) = last (temp_sibling demo_io t)" by simp
  moreover have "\<exists>w. last (temp_sibling demo_io t) = w @ ''.tmp.7''"
  proof -
    have "nat_str 7 = ''7''" by code_simp
    then show ?thesis by (auto simp: temp_sibling_def sibling_def demo_io_def)
  qed
  ultimately have "\<exists>w. l = (w @ ''.tmp'') @ ''.7''" by simp
  then show False using assms by (metis ends_with_iff)
qed

theorem foreign_files_stay_witness:
  "file_at (files_after demo_io deferring_runner Codex demo_resolve_kind demo_desired () demo_fs demo_state)
     [''home'', ''skills'', ''notes.md''] = Some ''own''"
proof (rule foreign_files_stay [OF demo_ok(1)])
  show "file_at demo_fs [''home'', ''skills'', ''notes.md''] = Some ''own''" by (simp add: file_at_def demo_fs_def)
  fix key base t assume k: "key_target demo_resolve_kind key = Some (base, t)"
  have n: "[''home'', ''skills'', ''notes.md''] \<noteq> temp_sibling demo_io u" for u
    using not_temp [of "''notes.md''" "[''home'', ''skills'']" u] by (simp add: ends_with_def starts_with_def)
  have "key \<in> dom (map_of (hs_files demo_state)) \<Longrightarrow> key = ''skills/old.md'' \<or> key = ''skills/tide/SKILL.md''"
    by (simp add: demo_state_def dom_map_of_conv_image_fst)
  then have "key \<in> dom (map_of (hs_files demo_state)) \<Longrightarrow>
      t = [''home'', ''skills'', ''old.md''] \<or> t = [''home'', ''skills'', ''tide'', ''SKILL.md'']"
    using k demo_ok(5,6) by auto
  then show "[''home'', ''skills'', ''notes.md''] \<noteq> temp_sibling demo_io t \<and>
      (key \<in> dom (map_of (hs_files demo_state)) \<longrightarrow> [''home'', ''skills'', ''notes.md''] \<notin> own_paths demo_io t)"
    using n by (auto simp: own_paths_def sibling_def)
qed

theorem edits_survive_witness:
  "file_at (files_after demo_io deferring_runner Codex demo_resolve_kind demo_desired () demo_fs demo_state)
       [''home'', ''skills'', ''tide'', ''SKILL.md''] = Some ''mine''
   \<or> file_at (files_after demo_io deferring_runner Codex demo_resolve_kind demo_desired () demo_fs demo_state)
       [''home'', ''skills'', ''tide'', ''SKILL.md.bak''] = Some ''mine''"
proof -
  have r: "map_of (hs_files demo_state) ''skills/tide/SKILL.md'' = Some \<lparr>in_domain = ''team'', in_sha256 = ''v1''\<rparr>"
    by (simp add: demo_state_def)
  have f: "file_at demo_fs [''home'', ''skills'', ''tide'', ''SKILL.md''] = Some ''mine''" by (simp add: file_at_def demo_fs_def)
  have sh: "io_sha demo_io ''mine'' \<noteq> in_sha256 \<lparr>in_domain = ''team'', in_sha256 = ''v1''\<rparr>" by (simp add: demo_io_def)
  have cl: "clear_of demo_io demo_resolve_kind (all_keys demo_desired demo_state) ''skills/tide/SKILL.md''
      {[''home'', ''skills'', ''tide'', ''SKILL.md''], sibling ''.bak'' [''home'', ''skills'', ''tide'', ''SKILL.md'']}" by code_simp
  from edits_survive [OF demo_ok(1,2) r demo_ok(5) cl f sh, of deferring_runner Codex "()"]
  show ?thesis by (simp add: sibling_def)
qed

text \<open>One key is installed over an edit, and another one names no folder here.\<close>

theorem reconcile_makes_match_witness:
  "file_at (files_after demo_io deferring_runner Codex demo_resolve_kind demo_desired () demo_fs demo_state)
       [''home'', ''skills'', ''tide'', ''SKILL.md''] = Some ''new''
   \<and> map_of (rows_after demo_io deferring_runner Codex demo_resolve_kind demo_desired () demo_fs demo_state) ''skills/tide/SKILL.md''
       = Some \<lparr>in_domain = ''team'', in_sha256 = ''new''\<rparr>
   \<and> map_of (rows_after demo_io deferring_runner Codex demo_resolve_kind demo_desired () demo_fs demo_state) ''agents/a.md'' = None"
proof -
  let ?w = "\<lparr>df_domain = ''team'', df_payload = Rendered ''new'', df_sha256 = ''new''\<rparr>"
  have d: "map_of (ds_files demo_desired) ''skills/tide/SKILL.md'' = Some ?w" "map_of (ds_files demo_desired) ''agents/a.md'' = None"
    by (simp_all add: demo_desired_def)
  have p: "\<exists>bytes. payload_ready demo_io demo_fs (taken demo_io demo_resolve_kind (map fst (ds_files demo_desired))) want bytes"
    if "map_of (ds_files demo_desired) ''skills/tide/SKILL.md'' = Some want" for want
    using that d by (auto simp: payload_ready_def payload_bytes_def demo_io_def)
  have s: "map_of (hs_files demo_state) ''skills/tide/SKILL.md'' \<noteq> None" "map_of (hs_files demo_state) ''agents/a.md'' = None"
    by (simp_all add: demo_state_def)
  have c: "clear_of demo_io demo_resolve_kind (all_keys demo_desired demo_state) ''skills/tide/SKILL.md'' (own_paths demo_io t)"
    if "key_target demo_resolve_kind ''skills/tide/SKILL.md'' = Some (base, t)" for base t
    using that demo_ok(4,5) by simp
  have u: "key_target demo_resolve_kind ''agents/a.md'' = None" by code_simp
  have v: "clear_of demo_io demo_resolve_kind (all_keys demo_desired demo_state) ''agents/a.md'' (own_paths demo_io t)"
    if "key_target demo_resolve_kind ''agents/a.md'' = Some (base, t)" for base t
    using that u by simp
  have q: "\<exists>bytes. payload_ready demo_io demo_fs (taken demo_io demo_resolve_kind (map fst (ds_files demo_desired))) want bytes"
    if "map_of (ds_files demo_desired) ''agents/a.md'' = Some want" for want
    using that d(2) by simp
  have a: "map_of (rows_after demo_io deferring_runner Codex demo_resolve_kind demo_desired () demo_fs demo_state) ''agents/a.md'' = None"
    using reconcile_makes_match [where M = deferring_runner and h = Codex and m = "()", OF demo_ok(3,1,2) v q] u s(2) by simp
  from reconcile_makes_match [where M = deferring_runner and h = Codex and m = "()", OF demo_ok(3,1,2) c p]
  show ?thesis using s(1) a by (auto simp: demo_ok(5) d(1) demo_io_def row_of_def)
qed

section \<open>Where the code departs from what it says\<close>

text \<open>
  A \<open>.bak\<close> somebody else put beside an installed file is overwritten, though nothing records
  it as Crystalline's.
\<close>

lemma foreign_backup_overwritten:
  "file_at (files_after demo_io deferring_runner Codex demo_resolve_kind demo_desired ()
       (demo_fs\<lparr>fs_files := ([''home'', ''skills'', ''tide'', ''SKILL.md.bak''], ''theirs'') # fs_files demo_fs\<rparr>) demo_state)
     [''home'', ''skills'', ''tide'', ''SKILL.md.bak''] = Some ''mine''"
  by code_simp

text \<open>
  Where the receipt owns a key and the same key with \<open>.bak\<close> at its end and both files were
  edited, retiring the first takes the place of the second, whose edit is in no file
  afterwards, although an edited file is to be retired and never destroyed.
\<close>

definition twin_state :: harness_state where
  "twin_state = \<lparr>hs_files = [(''skills/a.md'', \<lparr>in_domain = ''team'', in_sha256 = ''one''\<rparr>),
     (''skills/a.md.bak'', \<lparr>in_domain = ''team'', in_sha256 = ''two''\<rparr>)], hs_mcps = []\<rparr>"

definition twin_fs :: fs where
  "twin_fs = \<lparr>fs_files = [([''home'', ''skills'', ''a.md''], ''mine''), ([''home'', ''skills'', ''a.md.bak''], ''also mine'')],
     fs_dirs = [[''home''], [''home'', ''skills'']]\<rparr>"

lemma edit_lost_between_keys:
  "''also mine'' \<notin> snd ` set (fs_files (files_after demo_io deferring_runner Codex demo_resolve_kind
     \<lparr>ds_files = [], ds_mcps = []\<rparr> () twin_fs twin_state))"
  by code_simp

text \<open>
  A server whose new registration fails after the old one was removed is gone, while the
  receipt keeps its row and the notice says it was left as it was.
\<close>

definition demo_runner :: "string list mcp_runner" where
  "demo_runner = \<lparr>mr_add = (\<lambda>_ _ _ m. (m, Failed [])), mr_remove = (\<lambda>_ name m. (removeAll name m, Applied []))\<rparr>"

lemma failed_update_loses_server:
  "update_mcp demo_runner Codex ''maps'' \<lparr>dm_domain = ''team'', dm_server_json = ''{}'', dm_sha256 = ''b''\<rparr>
     ([''maps''], \<lparr>ru_fs = demo_fs, ru_state = \<lparr>hs_files = [], hs_mcps = [(''maps'', \<lparr>in_domain = ''team'', in_sha256 = ''a''\<rparr>)]\<rparr>,
        ru_actions = [], ru_notices = []\<rparr>)
   = ([], \<lparr>ru_fs = demo_fs, ru_state = \<lparr>hs_files = [], hs_mcps = [(''maps'', \<lparr>in_domain = ''team'', in_sha256 = ''a''\<rparr>)]\<rparr>,
        ru_actions = [\<lparr>aa_target = ServerTarget ''maps'', aa_status = McpFailed\<rparr>],
        ru_notices = [McpUpdateFailedNotice Codex ''maps'' []]\<rparr>)"
  by (simp add: update_mcp_def demo_runner_def runner_notices_def push_action_def push_notice_def outcome_manual_def)

end
