(* ===== verification/BasePath.thy ===== *)
theory BasePath
  imports Prelude Searching Trimming
begin

text \<open>
  The address a server is reached at, \<open>core/src/base.rs\<close>: the path it is served under
  (\<open>BasePath\<close>), how a request under it is stripped, and the public address (\<open>PublicBase\<close>). The
  URL parser is a parameter that answers what the code asks of it. Text is UTF-8 bytes.
\<close>

definition RESERVED_FIRST_SEGMENTS :: "string list" where
  "RESERVED_FIRST_SEGMENTS =
     [''api'', ''assets'', ''health'', ''.well-known'', ''robots.txt'', ''humans.txt'', ''login'', [CHR 0xCF, CHR 0x80],
      ''d'', ''draft'', ''search'', ''graph'', ''authorize'', ''maintenance'', ''users'', ''settings'', ''profile'']"

datatype path_problem =
    EmptySegment
  | DotSegment string
  | Character string
  | Reserved string
  | QueryOrFragment
  | Backslash

type_synonym base_path = string

definition segment_char :: "char \<Rightarrow> bool" where
  "segment_char c \<longleftrightarrow> is_ascii_lower c \<or> is_ascii_digit c \<or> c \<in> {CHR ''.'', CHR ''_'', CHR ''-''}"

text \<open>The loop over the segments; \<open>first\<close> says whether the next one is the first.\<close>

fun check_segments :: "bool \<Rightarrow> string list \<Rightarrow> path_problem option" where
  "check_segments first [] = None"
| "check_segments first (segment # rest) =
     (if segment = [] then Some EmptySegment
      else if segment = ''.'' \<or> segment = ''..'' then Some (DotSegment segment)
      else if \<not> list_all segment_char segment then Some (Character segment)
      else if first \<and> list_ex (\<lambda>r. ascii_lowercase r = ascii_lowercase segment) RESERVED_FIRST_SEGMENTS
        then Some (Reserved segment)
      else check_segments False rest)"

definition parse :: "string \<Rightarrow> path_problem + base_path" where
  "parse path =
     (if path = [] \<or> path = ''/'' then Inr []
      else
        (let trimmed = (case strip_suffix ''/'' path of Some t \<Rightarrow> t | None \<Rightarrow> path)
         in case strip_prefix ''/'' trimmed of
              None \<Rightarrow> Inl (Character trimmed)
            | Some rest \<Rightarrow>
                (case check_segments True (split_on (CHR ''/'') rest) of
                   Some problem \<Rightarrow> Inl problem
                 | None \<Rightarrow> Inr trimmed)))"

definition after_scheme :: "string \<Rightarrow> string" where
  "after_scheme url = (case find_str ''://'' url of Some i \<Rightarrow> drop (i + 3) url | None \<Rightarrow> url)"

definition of_url :: "string \<Rightarrow> path_problem + base_path" where
  "of_url given =
     (let url = trim given
      in if CHR 0x5C \<in> set url then Inl Backslash
         else
           (let tail = dropWhile (\<lambda>c. c \<notin> {CHR ''/'', CHR ''?'', CHR ''#''}) (after_scheme url);
                path = takeWhile (\<lambda>c. c \<notin> {CHR ''?'', CHR ''#''}) tail
            in if path \<noteq> tail then Inl QueryOrFragment else parse path))"

definition is_root :: "base_path \<Rightarrow> bool" where
  "is_root b \<longleftrightarrow> b = []"

definition strip :: "base_path \<Rightarrow> string \<Rightarrow> string option" where
  "strip b request_path =
     (if is_root b then None
      else
        (case strip_prefix b request_path of
           None \<Rightarrow> None
         | Some rest \<Rightarrow> if rest = [] then Some ''/'' else if starts_with ''/'' rest then Some rest else None))"

definition contains :: "base_path \<Rightarrow> string \<Rightarrow> bool" where
  "contains b path \<longleftrightarrow>
     is_root b
     \<or> (case strip_prefix b path of
          None \<Rightarrow> False
        | Some rest \<Rightarrow> rest = [] \<or> hd rest \<in> {CHR ''/'', CHR ''?'', CHR ''#''})"

definition cookie_path :: "base_path \<Rightarrow> string" where
  "cookie_path b = (if is_root b then ''/'' else b)"

definition href :: "base_path \<Rightarrow> string" where
  "href b = b @ ''/''"

section \<open>The public address\<close>

datatype base_problem = NotAbsolute | Scheme | NoHost | Userinfo | PathProblem path_problem

record public_base =
  pb_origin :: string
  pb_path :: base_path

text \<open>What the URL parser answers of an absolute URL.\<close>

record parsed_url =
  pu_scheme :: string
  pu_host :: "string option"
  pu_username :: string
  pu_password :: "string option"
  pu_origin :: string

definition parse_public :: "(string \<Rightarrow> parsed_url option) \<Rightarrow> string \<Rightarrow> base_problem + public_base" where
  "parse_public url_parse given =
     (let value = trim given
      in case url_parse value of
           None \<Rightarrow> Inl NotAbsolute
         | Some url \<Rightarrow>
             if pu_scheme url \<noteq> ''http'' \<and> pu_scheme url \<noteq> ''https'' then Inl Scheme
             else if pu_host url = None then Inl NoHost
             else if pu_username url \<noteq> [] \<or> pu_password url \<noteq> None then Inl Userinfo
             else (case of_url value of
                     Inl problem \<Rightarrow> Inl (PathProblem problem)
                   | Inr path \<Rightarrow> Inr \<lparr>pb_origin = pu_origin url, pb_path = path\<rparr>))"

definition from_origin :: "string \<Rightarrow> public_base" where
  "from_origin origin = \<lparr>pb_origin = trim_end_matches {CHR ''/''} (trim origin), pb_path = []\<rparr>"

definition public_display :: "public_base \<Rightarrow> string" where
  "public_display p = pb_origin p @ pb_path p"

definition join :: "public_base \<Rightarrow> string \<Rightarrow> string" where
  "join p path = public_display p @ path"

definition well_known :: "public_base \<Rightarrow> string \<Rightarrow> string" where
  "well_known p document = pb_origin p @ document @ pb_path p"

section \<open>What a base path is\<close>

definition reserved :: "string \<Rightarrow> bool" where
  "reserved segment \<longleftrightarrow> list_ex (\<lambda>r. ascii_lowercase r = ascii_lowercase segment) RESERVED_FIRST_SEGMENTS"

text \<open>The first segment of a path that starts with a slash.\<close>

definition first_segment :: "string \<Rightarrow> string" where
  "first_segment path = hd (split_on (CHR ''/'') (tl path))"

definition base_ok :: "base_path \<Rightarrow> bool" where
  "base_ok b \<longleftrightarrow>
     b = []
     \<or> (\<exists>segs. b = CHR ''/'' # join_with ''/'' segs \<and> segs \<noteq> [] \<and> \<not> reserved (hd segs)
          \<and> (\<forall>g\<in>set segs. g \<noteq> [] \<and> g \<noteq> ''.'' \<and> g \<noteq> ''..'' \<and> list_all segment_char g))"

lemma segment_char_not_slash: "list_all segment_char g \<Longrightarrow> CHR ''/'' \<notin> set g"
  by (auto simp: list_all_iff segment_char_def is_ascii_lower_def is_ascii_digit_def less_eq_char_def)

lemma check_segments_None:
  "check_segments first segs = None \<longleftrightarrow>
     (\<forall>g\<in>set segs. g \<noteq> [] \<and> g \<noteq> ''.'' \<and> g \<noteq> ''..'' \<and> list_all segment_char g)
     \<and> (segs \<noteq> [] \<longrightarrow> first \<longrightarrow> \<not> reserved (hd segs))"
  by (induction first segs rule: check_segments.induct) (auto simp: reserved_def)

lemma strip_slash_Some: "strip_prefix ''/'' s = Some r \<longleftrightarrow> s = CHR ''/'' # r"
  by (cases s) (auto simp: strip_prefix_def)

lemma parse_base_ok:
  assumes "parse p = Inr b"
  shows "base_ok b \<and> (p = b \<or> p = b @ ''/'')"
proof (cases "p = [] \<or> p = ''/''")
  case True
  then show ?thesis using assms by (auto simp: parse_def base_ok_def)
next
  case False
  let ?t = "case strip_suffix ''/'' p of Some t \<Rightarrow> t | None \<Rightarrow> p"
  obtain rest where r: "?t = CHR ''/'' # rest" "check_segments True (split_on (CHR ''/'') rest) = None" "b = ?t"
    using assms False by (auto simp: parse_def Let_def strip_slash_Some split: option.splits if_splits)
  have "base_ok b"
    unfolding base_ok_def using r(2) r(1,3)
    by (intro disjI2 exI [of _ "split_on (CHR ''/'') rest"]) (simp add: check_segments_None)
  moreover have "p = b \<or> p = b @ ''/''"
    using r(3) by (auto simp: strip_suffix_def ends_with_iff split: if_splits)
  ultimately show ?thesis by simp
qed

lemma base_ok_last: "base_ok b \<Longrightarrow> b \<noteq> [] \<Longrightarrow> \<not> ends_with ''/'' b \<and> b \<noteq> ''/''"
proof -
  assume "base_ok b" "b \<noteq> []"
  then obtain segs where s: "b = CHR ''/'' # join_with ''/'' segs" "segs \<noteq> []"
    "\<forall>g\<in>set segs. g \<noteq> [] \<and> list_all segment_char g" by (auto simp: base_ok_def)
  have "\<exists>r c. join_with ''/'' segs = r @ [c] \<and> c \<noteq> CHR ''/''"
    using s(2,3)
  proof (induction segs)
    case (Cons g segs)
    show ?case
    proof (cases "segs = []")
      case True
      have "CHR ''/'' \<notin> set g" "g \<noteq> []" using Cons.prems segment_char_not_slash by auto
      then have "g = butlast g @ [last g] \<and> last g \<noteq> CHR ''/''" using last_in_set by force
      then show ?thesis using True by (metis join_with.simps(2))
    next
      case False
      then obtain r c where "join_with ''/'' segs = r @ [c]" "c \<noteq> CHR ''/''" using Cons by auto
      then show ?thesis using False by (intro exI [of _ "g @ ''/'' @ r"] exI [of _ c]) (simp add: join_with_Cons)
    qed
  qed simp
  then show ?thesis using s(1) by (auto simp: ends_with_iff)
qed


text \<open>
  The path a request is routed with (\<open>StripBasePath\<close> of \<open>service/src/daemon.rs\<close>): without the
  prefix when it carries it, unchanged otherwise. The query is carried along and the stripped
  path always parses.
\<close>

definition routed :: "base_path \<Rightarrow> string \<Rightarrow> string" where
  "routed b path = (case strip b path of Some rest \<Rightarrow> rest | None \<Rightarrow> path)"

lemma first_segment_join:
  assumes "segs \<noteq> []" "\<forall>g\<in>set segs. CHR ''/'' \<notin> set g" "rest = [] \<or> starts_with ''/'' rest"
  shows "first_segment (CHR ''/'' # join_with ''/'' segs @ rest) = hd segs"
proof -
  obtain g gs where s: "segs = g # gs" using assms(1) by (cases segs) auto
  have "\<exists>x. join_with ''/'' segs @ rest = g @ x \<and> (x = [] \<or> starts_with ''/'' x)"
    using assms(3) s by (cases gs) auto
  then obtain x where x: "join_with ''/'' segs @ rest = g @ x" "x = [] \<or> (\<exists>y. x = CHR ''/'' # y)"
    by (auto simp: starts_with_iff)
  have "hd (split_on (CHR ''/'') (g @ x)) = g" using x(2) assms(2) s by (auto simp: split_on_append)
  then show ?thesis using x(1) s by (simp add: first_segment_def)
qed

lemma strip_reserved:
  assumes b: "base_ok b" and q: "q = ''/'' \<or> reserved (first_segment q)"
  shows "strip b q = None"
proof (rule ccontr)
  assume "strip b q \<noteq> None"
  then obtain rest where r: "b \<noteq> []" "q = b @ rest" "rest = [] \<or> starts_with ''/'' rest"
    by (auto simp: strip_def is_root_def strip_prefix_def starts_with_iff split: option.splits if_splits)
  then obtain segs where s: "b = CHR ''/'' # join_with ''/'' segs" "segs \<noteq> []" "\<not> reserved (hd segs)"
    "\<forall>g\<in>set segs. g \<noteq> [] \<and> list_all segment_char g"
    using b by (auto simp: base_ok_def)
  then have "first_segment q = hd segs"
    using r(2,3) first_segment_join [OF s(2), of rest] segment_char_not_slash by auto
  moreover have "q \<noteq> ''/''" using base_ok_last [OF b r(1)] r(1,2) by (cases b) auto
  ultimately show False using q s(3) by simp
qed

text \<open>
  C17: a proxy may keep or strip the prefix. Every address the server answers at (the root, and
  every path whose first segment is one of its own) is routed the same with the prefix of any
  base path the parser accepts and without it, so no request is ever stripped twice.
\<close>

theorem prefix_kept_or_stripped:
  assumes "parse p = Inr b" "q = ''/'' \<or> starts_with ''/'' q \<and> reserved (first_segment q)"
  shows "routed b (b @ q) = q \<and> routed b q = q \<and> routed b (routed b (b @ q)) = q \<and> contains b (b @ q)"
proof -
  have b: "base_ok b" using parse_base_ok [OF assms(1)] ..
  have "q = ''/'' \<or> reserved (first_segment q)" using assms(2) by auto
  note q = strip_reserved [OF b this]
  have "starts_with ''/'' q" using assms(2) by auto
  then obtain r where r: "q = CHR ''/'' # r" by (auto simp only: starts_with_iff append_Cons append_Nil)
  have "routed b (b @ q) = q"
  proof (cases "b = []")
    case False
    then show ?thesis using r by (simp add: routed_def strip_def is_root_def strip_prefix_def)
  qed (simp add: routed_def strip_def is_root_def)
  moreover have "contains b (b @ q)" using r by (simp add: contains_def is_root_def strip_prefix_def)
  ultimately show ?thesis using q by (simp add: routed_def)
qed

theorem prefix_kept_or_stripped_witness:
  "routed ''/team/kb'' ''/team/kb/api/v1'' = ''/api/v1'' \<and> routed ''/team/kb'' ''/api/v1'' = ''/api/v1''"
proof -
  have "parse ''/team/kb/'' = Inr ''/team/kb''" by code_simp
  moreover have "reserved (first_segment ''/api/v1'')" by code_simp
  ultimately show ?thesis using prefix_kept_or_stripped [of "''/team/kb/''" "''/team/kb''" "''/api/v1''"] by simp
qed

text \<open>A character of the host of an origin, as the URL parser serializes it.\<close>

definition host_char :: "char \<Rightarrow> bool" where
  "host_char c \<longleftrightarrow> \<not> ws_byte c \<and> c \<notin> {CHR ''/'', CHR ''?'', CHR ''#'', CHR 0x5C}"

lemma segment_char_plain: "segment_char c \<Longrightarrow> host_char c"
  by (auto simp: segment_char_def host_char_def is_ascii_lower_def is_ascii_digit_code less_eq_char_def ws_byte_code ws_bytes_def upt_rec)

lemma base_ok_chars: "base_ok b \<Longrightarrow> c \<in> set b \<Longrightarrow> c = CHR ''/'' \<or> host_char c"
proof -
  assume "base_ok b" "c \<in> set b"
  then obtain segs where "c \<in> insert (CHR ''/'') (\<Union> (set ` set segs))" "\<forall>g\<in>set segs. list_all segment_char g"
    using set_join_with [of "''/''"] by (fastforce simp: base_ok_def)
  then show ?thesis using segment_char_plain by (auto simp: list_all_iff)
qed

lemma base_ok_hd: "base_ok b \<Longrightarrow> b = [] \<or> hd b = CHR ''/''"
  unfolding base_ok_def by (elim disjE exE conjE) simp_all

lemma find_scheme: "CHR '':'' \<notin> set s \<Longrightarrow> find_str ''://'' (s @ ''://'' @ r) = Some (length s)"
  by (induction s) auto

lemma parse_base_ok_iff: "base_ok b \<Longrightarrow> parse b = Inr b \<and> (b \<noteq> [] \<longrightarrow> parse (b @ ''/'') = Inr b)"
proof (cases "b = []")
  case False
  assume b: "base_ok b"
  then obtain segs where s: "b = CHR ''/'' # join_with ''/'' segs" "segs \<noteq> []" "\<not> reserved (hd segs)"
    "\<forall>g\<in>set segs. g \<noteq> [] \<and> g \<noteq> ''.'' \<and> g \<noteq> ''..'' \<and> list_all segment_char g"
    using False by (auto simp: base_ok_def)
  have "split_on (CHR ''/'') (join_with ''/'' segs) = segs"
    using s(2,4) segment_char_not_slash by (intro split_join) auto
  then have c: "check_segments True (split_on (CHR ''/'') (join_with ''/'' segs)) = None"
    using s(2-4) by (simp add: check_segments_None)
  have e: "strip_suffix ''/'' b = None" "strip_suffix ''/'' (b @ ''/'') = Some b" "b \<noteq> ''/''"
    using base_ok_last [OF b False] by (simp_all add: strip_suffix_def ends_with_iff)
  then show ?thesis using False c s(1) by (simp add: parse_def strip_prefix_def Let_def)
qed (simp add: parse_def)

text \<open>
  C37: server and client agree on the base path. What the parser accepts it reads back from its
  own text, with or without a last slash, and the client that is given the public address
  (origin and path, as displayed) reads the same base path from it.
\<close>

theorem base_path_roundtrip:
  assumes "parse p = Inr b"
    and "pb_origin a = scheme @ ''://'' @ host" "pb_path a = b"
    and "CHR '':'' \<notin> set scheme" "list_all host_char (scheme @ host)"
  shows "parse b = Inr b \<and> parse (cookie_path b) = Inr b \<and> parse (href b) = Inr b
    \<and> of_url (public_display a) = Inr b \<and> of_url (join a ''/'') = Inr b"
proof -
  have b: "base_ok b" using parse_base_ok [OF assms(1)] ..
  have self: "parse b = Inr b" "parse (b @ ''/'') = Inr b"
    using parse_base_ok_iff [OF b] by (cases "b = []"; simp add: parse_def)+
  have url: "of_url (scheme @ ''://'' @ host @ t) = parse t"
    if t: "t = b \<or> t = b @ ''/''" for t
  proof -
    have tc: "c = CHR ''/'' \<or> host_char c" if "c \<in> set t" for c using base_ok_chars [OF b, of c] that t by auto
    have hc: "host_char c" if "c \<in> set scheme \<or> c \<in> set host" for c using assms(5) that by (auto simp: list_all_iff)
    have "host_char (CHR '':'')" "\<not> ws_byte (CHR ''/'')" by (simp_all add: host_char_def ws_byte_code ws_bytes_def upt_rec)
    then have ok: "\<not> ws_byte c \<and> c \<noteq> CHR 0x5C \<and> c \<noteq> CHR ''?'' \<and> c \<noteq> CHR ''#''" if "c \<in> set (scheme @ ''://'' @ host @ t)" for c
      using that tc [of c] hc [of c] by (auto simp: host_char_def)
    then have tr: "trim (scheme @ ''://'' @ host @ t) = scheme @ ''://'' @ host @ t" by (intro no_ws_trim) blast
    have as: "after_scheme (scheme @ ''://'' @ host @ t) = host @ t"
      unfolding after_scheme_def find_scheme [OF assms(4)] by simp
    have hd: "t = [] \<or> hd t = CHR ''/''" using t base_ok_hd [OF b] by (cases b) auto
    have "dropWhile (\<lambda>c. c \<notin> {CHR ''/'', CHR ''?'', CHR ''#''}) (host @ t) = t"
      using hd hc by (cases t) (auto simp: dropWhile_append host_char_def)
    moreover have "takeWhile (\<lambda>c. c \<notin> {CHR ''?'', CHR ''#''}) t = t" using ok by (simp add: takeWhile_eq_all_conv)
    moreover have "CHR 0x5C \<notin> set (scheme @ ''://'' @ host @ t)" using ok by blast
    ultimately show ?thesis unfolding of_url_def tr as Let_def by (simp only: if_False if_True simp_thms)
  qed
  have "parse (cookie_path b) = Inr b" using self by (cases "b = []") (simp_all add: cookie_path_def is_root_def)
  then show ?thesis
    using self url [of b] url [of "b @ ''/''"] assms(2,3) by (simp add: href_def public_display_def join_def)
qed

theorem base_path_roundtrip_witness:
  "of_url ''https://kb.example.com:8443/team/kb'' = Inr ''/team/kb'' \<and> parse ''/team/kb'' = Inr ''/team/kb''"
proof -
  have "parse ''/team/kb/'' = Inr ''/team/kb''" by code_simp
  moreover have "list_all host_char (''https'' @ ''kb.example.com:8443'')" by code_simp
  ultimately show ?thesis
    using base_path_roundtrip [of "''/team/kb/''" "''/team/kb''"
        "\<lparr>pb_origin = ''https://kb.example.com:8443'', pb_path = ''/team/kb''\<rparr>" "''https''" "''kb.example.com:8443''"]
    by (simp add: public_display_def)
qed

end
