(* ===== verification/LineLimit.thy ===== *)
theory LineLimit
  imports LineEndings Searching
begin

text \<open>
  The size limit on one message over stdio, \<open>service/src/line_limit.rs\<close>: \<open>BoundedLines\<close>, which
  cuts what is read into lines and drops a line over the limit, \<open>Scan\<close>, which reads the
  top-level keys of a dropped line as it streams past, and \<open>feed\<close>, which hands on the lines
  and queues the refusals. The reader is a list of the results its read calls have, the
  buffer in front of it is explicit, what each write to the service answers is a list, and the
  JSON parser of an id is a parameter with a type of values of its own. The tasks and pipes around \<open>feed\<close> are not modelled.
\<close>

section \<open>Reading the keys of a dropped line\<close>

definition INVALID_REQUEST :: int where "INVALID_REQUEST = -32600"

definition ID_CAPTURE_BYTES :: nat where "ID_CAPTURE_BYTES = 256"

definition KEY_CAPTURE_BYTES :: nat where "KEY_CAPTURE_BYTES = 16"

datatype member = Key | InKey | Colon | Value

record 'v scan =
  sn_depth :: nat
  sn_object :: bool
  sn_in_string :: bool
  sn_escaped :: bool
  sn_member :: member
  sn_key :: string
  sn_capture :: "string option"
  sn_id :: "'v option"
  sn_id_seen :: bool
  sn_method :: bool
  sn_outcome :: bool

definition default_scan :: "'v scan" where
  "default_scan =
     \<lparr>sn_depth = 0, sn_object = False, sn_in_string = False, sn_escaped = False, sn_member = Key, sn_key = [],
      sn_capture = None, sn_id = None, sn_id_seen = False, sn_method = False, sn_outcome = False\<rparr>"

definition at_top_level :: "'v scan \<Rightarrow> bool" where
  "at_top_level s \<longleftrightarrow> sn_object s \<and> sn_depth s = 1"

definition capture :: "char \<Rightarrow> 'v scan \<Rightarrow> 'v scan" where
  "capture b s =
     (case sn_capture s of
        None \<Rightarrow> s
      | Some raw \<Rightarrow> s\<lparr>sn_capture := (if length raw < ID_CAPTURE_BYTES then Some (raw @ [b]) else None)\<rparr>)"

definition end_member :: "(string \<Rightarrow> 'v option) \<Rightarrow> 'v scan \<Rightarrow> 'v scan" where
  "end_member json s =
     (case sn_capture s of None \<Rightarrow> s | Some raw \<Rightarrow> s\<lparr>sn_capture := None, sn_id := json raw\<rparr>)"

text \<open>A byte inside a string, and the colon after a top-level key.\<close>

definition step_in_string :: "char \<Rightarrow> 'v scan \<Rightarrow> 'v scan" where
  "step_in_string b s =
     (let s = (if sn_escaped s then s\<lparr>sn_escaped := False\<rparr>
               else if b = CHR 0x5C then s\<lparr>sn_escaped := True\<rparr>
               else if b = CHR 0x22 then s\<lparr>sn_in_string := False\<rparr> else s)
      in if sn_member s = InKey \<and> at_top_level s then
           (if sn_in_string s then (if length (sn_key s) < KEY_CAPTURE_BYTES then s\<lparr>sn_key := sn_key s @ [b]\<rparr> else s)
            else s\<lparr>sn_member := Colon\<rparr>)
         else capture b s)"

definition begin_value :: "'v scan \<Rightarrow> 'v scan" where
  "begin_value s =
     (let s = s\<lparr>sn_member := Value\<rparr>
      in if sn_key s = ''id'' then s\<lparr>sn_id_seen := True, sn_capture := Some []\<rparr>
         else if sn_key s = ''method'' then s\<lparr>sn_method := True\<rparr>
         else if sn_key s = ''result'' \<or> sn_key s = ''error'' then s\<lparr>sn_outcome := True\<rparr>
         else s)"

definition step :: "(string \<Rightarrow> 'v option) \<Rightarrow> char \<Rightarrow> 'v scan \<Rightarrow> 'v scan" where
  "step json b s =
     (if sn_in_string s then step_in_string b s
      else if b = CHR 0x22 then
        (let s = s\<lparr>sn_in_string := True\<rparr>
         in if at_top_level s \<and> sn_member s = Key then s\<lparr>sn_member := InKey, sn_key := []\<rparr> else capture b s)
      else if b = CHR ''{'' \<or> b = CHR ''['' then
        (let s = (if sn_depth s = 0 then s\<lparr>sn_object := (b = CHR ''{''), sn_member := Key\<rparr> else capture b s)
         in s\<lparr>sn_depth := min (sn_depth s + 1) u32_max\<rparr>)
      else if b = CHR ''}'' \<or> b = CHR '']'' then
        (let s = (if at_top_level s then end_member json s else capture b s)
         in s\<lparr>sn_depth := sn_depth s - 1\<rparr>)
      else if b = CHR '':'' \<and> at_top_level s \<and> sn_member s = Colon then begin_value s
      else if b = CHR '','' \<and> at_top_level s then (end_member json s)\<lparr>sn_member := Key\<rparr>
      else capture b s)"

definition scan_feed :: "(string \<Rightarrow> 'v option) \<Rightarrow> string \<Rightarrow> 'v scan \<Rightarrow> 'v scan" where
  "scan_feed json bytes s = fold (step json) bytes s"

datatype 'v oversized_kind = Request "'v option" | Notification | Response

definition scan_kind :: "(string \<Rightarrow> 'v option) \<Rightarrow> 'v scan \<Rightarrow> 'v oversized_kind" where
  "scan_kind json s =
     (let s = end_member json s
      in if sn_method s \<and> \<not> sn_id_seen s then Notification
         else if \<not> sn_method s \<and> sn_outcome s then Response
         else Request (sn_id s))"

section \<open>Lines bounded by a limit\<close>

record 'v oversized =
  ov_limit :: nat
  ov_kind :: "'v oversized_kind"

datatype 'v incoming = Line string | Oversized "'v oversized"

text \<open>What a read of the input answers: some bytes (none at the end of input), or an error.\<close>

datatype read_answer = Chunk string | ReadFails

record 'v bounded_lines =
  bl_source :: "read_answer list"
  bl_buffer :: string
  bl_limit :: nat
  bl_line :: string
  bl_discarding :: bool
  bl_scan :: "'v scan"
  bl_replay :: "'v incoming option"

definition new_lines :: "read_answer list \<Rightarrow> nat \<Rightarrow> 'v bounded_lines" where
  "new_lines source limit =
     \<lparr>bl_source = source, bl_buffer = [], bl_limit = limit, bl_line = [], bl_discarding = False,
      bl_scan = default_scan, bl_replay = None\<rparr>"

definition replay_item :: "'v incoming \<Rightarrow> 'v bounded_lines \<Rightarrow> 'v bounded_lines" where
  "replay_item i r = r\<lparr>bl_replay := Some i\<rparr>"

text \<open>\<open>fill_buf\<close> of the buffered reader: it reads only when its buffer is empty.\<close>

definition fill_buf :: "'v bounded_lines \<Rightarrow> 'v bounded_lines \<times> bool" where
  "fill_buf r =
     (if bl_buffer r \<noteq> [] then (r, True)
      else
        (case bl_source r of
           [] \<Rightarrow> (r, True)
         | Chunk c # rest \<Rightarrow> (r\<lparr>bl_buffer := c, bl_source := rest\<rparr>, True)
         | ReadFails # rest \<Rightarrow> (r\<lparr>bl_source := rest\<rparr>, False)))"

definition strip_eol :: "string \<Rightarrow> string" where
  "strip_eol l =
     (if l \<noteq> [] \<and> last l = LF
      then (if butlast l \<noteq> [] \<and> last (butlast l) = CR then butlast (butlast l) else butlast l)
      else l)"

definition take_line :: "'v bounded_lines \<Rightarrow> 'v bounded_lines \<times> string" where
  "take_line r = (r\<lparr>bl_line := []\<rparr>, strip_eol (bl_line r))"

definition finish_oversized :: "(string \<Rightarrow> 'v option) \<Rightarrow> 'v bounded_lines \<Rightarrow> 'v bounded_lines \<times> 'v incoming" where
  "finish_oversized json r =
     (r\<lparr>bl_discarding := False, bl_scan := default_scan\<rparr>,
      Oversized \<lparr>ov_limit = bl_limit r, ov_kind = scan_kind json (bl_scan r)\<rparr>)"

definition at_end :: "(string \<Rightarrow> 'v option) \<Rightarrow> 'v bounded_lines \<Rightarrow> 'v bounded_lines \<times> 'v incoming option" where
  "at_end json r =
     (if bl_discarding r then (case finish_oversized json r of (r, i) \<Rightarrow> (r, Some i))
      else if bl_line r = [] then (r, None)
      else if length (bl_line r) + 1 > bl_limit r then
        (case finish_oversized json (r\<lparr>bl_scan := scan_feed json (bl_line r) default_scan, bl_line := []\<rparr>) of
           (r, i) \<Rightarrow> (r, Some i))
      else (case take_line r of (r, l) \<Rightarrow> (r, Some (Line l))))"

text \<open>One round of the loop on a buffer that is not empty: what it takes, and what comes of it.\<close>

definition take_chunk :: "(string \<Rightarrow> 'v option) \<Rightarrow> 'v bounded_lines \<Rightarrow> 'v bounded_lines \<times> 'v incoming option" where
  "take_chunk json r =
     (let newline = LF \<in> set (bl_buffer r);
          chunk = (if newline then takeWhile (\<lambda>b. b \<noteq> LF) (bl_buffer r) @ [LF] else bl_buffer r);
          consumed = r\<lparr>bl_buffer := drop (length chunk) (bl_buffer r)\<rparr>
      in if bl_discarding r then
           (let r = consumed\<lparr>bl_scan := scan_feed json chunk (bl_scan r)\<rparr>
            in if newline then (case finish_oversized json r of (r, i) \<Rightarrow> (r, Some i)) else (r, None))
         else if length (bl_line r) + length chunk > bl_limit r then
           (let r = consumed\<lparr>bl_scan := scan_feed json chunk (scan_feed json (bl_line r) default_scan), bl_line := []\<rparr>
            in if newline then (case finish_oversized json r of (r, i) \<Rightarrow> (r, Some i))
               else (r\<lparr>bl_discarding := True\<rparr>, None))
         else
           (let r = consumed\<lparr>bl_line := bl_line r @ chunk\<rparr>
            in if newline then (case take_line r of (r, l) \<Rightarrow> (r, Some (Line l))) else (r, None)))"

datatype 'v answer = Got "'v incoming option" | IoError

definition answer_size :: "read_answer \<Rightarrow> nat" where
  "answer_size a = (case a of Chunk c \<Rightarrow> Suc (length c) | ReadFails \<Rightarrow> 1)"

definition unread :: "'v bounded_lines \<Rightarrow> nat" where
  "unread r = length (bl_buffer r) + sum_list (map answer_size (bl_source r))"

lemma fill_buf_unread: "fill_buf r = (r', ok) \<Longrightarrow> unread r' \<le> unread r"
  by (auto simp: fill_buf_def unread_def answer_size_def split: if_splits list.splits read_answer.splits)

lemma take_chunk_unread: "take_chunk json r = (r', res) \<Longrightarrow> bl_buffer r \<noteq> [] \<Longrightarrow> unread r' < unread r"
  by (auto simp: take_chunk_def finish_oversized_def take_line_def unread_def Let_def split: if_splits)

function next_loop :: "(string \<Rightarrow> 'v option) \<Rightarrow> 'v bounded_lines \<Rightarrow> 'v bounded_lines \<times> 'v answer" where
  "next_loop json r =
     (case fill_buf r of
        (r, False) \<Rightarrow> (r, IoError)
      | (r, True) \<Rightarrow>
          (if bl_buffer r = [] then (case at_end json r of (r, i) \<Rightarrow> (r, Got i))
           else
             (case take_chunk json r of
                (r, Some i) \<Rightarrow> (r, Got (Some i))
              | (r, None) \<Rightarrow> next_loop json r)))"
  by pat_completeness auto
termination
  by (relation "measure (unread \<circ> snd)")
    (auto dest!: fill_buf_unread [OF sym] take_chunk_unread [OF sym])

declare next_loop.simps [simp del]

definition next_line :: "(string \<Rightarrow> 'v option) \<Rightarrow> 'v bounded_lines \<Rightarrow> 'v bounded_lines \<times> 'v answer" where
  "next_line json r =
     (case bl_replay r of
        Some i \<Rightarrow> (r\<lparr>bl_replay := None\<rparr>, Got (Some i))
      | None \<Rightarrow> next_loop json r)"


section \<open>Refusals and the feeding loop\<close>

record 'v refusal =
  rf_id :: "'v option"
  rf_code :: int
  rf_message :: string

definition MIB :: nat where "MIB = 1024 * 1024"

definition describe_bytes :: "nat \<Rightarrow> string" where
  "describe_bytes bytes =
     (if bytes \<ge> MIB \<and> bytes mod MIB = 0 then nat_str (bytes div MIB) @ '' MiB'' else nat_str bytes @ '' bytes'')"

definition refusal :: "'v oversized \<Rightarrow> 'v refusal option" where
  "refusal o' =
     (case ov_kind o' of
        Request i \<Rightarrow>
          Some \<lparr>rf_id = i, rf_code = INVALID_REQUEST,
                rf_message = ''The message was not processed: one message on Crystalline's stdio transport may be at most ''
                  @ describe_bytes (ov_limit o')
                  @ '', newline included, and this one is larger. Send less in one call, for example split a large write into several.''\<rparr>
      | _ \<Rightarrow> None)"

definition write_line :: "string \<Rightarrow> string" where
  "write_line l = l @ [LF]"

text \<open>What still has to come out of the reader: an item handed back, a line being read, the rest.\<close>

definition open_items :: "'v bounded_lines \<Rightarrow> nat" where
  "open_items r =
     3 * unread r + (if bl_line r \<noteq> [] then 1 else 0) + (if bl_discarding r then 1 else 0) + (if bl_replay r \<noteq> None then 1 else 0)"

lemma fill_buf_keeps:
  "fill_buf r = (r', ok) \<Longrightarrow>
     bl_line r' = bl_line r \<and> bl_discarding r' = bl_discarding r \<and> bl_scan r' = bl_scan r \<and> bl_limit r' = bl_limit r
     \<and> bl_replay r' = bl_replay r"
  by (auto simp: fill_buf_def split: if_splits list.splits read_answer.splits)

lemma take_chunk_replay: "take_chunk json r = (r', res) \<Longrightarrow> bl_replay r' = bl_replay r"
  by (auto simp: take_chunk_def finish_oversized_def take_line_def Let_def split: if_splits)

lemma at_end_open: "at_end json r = (r', Some i) \<Longrightarrow> open_items r' < open_items r"
  by (auto simp: at_end_def finish_oversized_def take_line_def open_items_def unread_def split: if_splits)

lemma take_chunk_open: "take_chunk json r = (r', res) \<Longrightarrow> bl_buffer r \<noteq> [] \<Longrightarrow> open_items r' < open_items r"
  using take_chunk_unread [of json r r' res] take_chunk_replay [of json r r' res] by (simp add: open_items_def)

lemma fill_buf_open: "fill_buf r = (r', ok) \<Longrightarrow> open_items r' \<le> open_items r"
  using fill_buf_unread [of r r' ok] fill_buf_keeps [of r r' ok] by (simp add: open_items_def)

lemma next_loop_open: "next_loop json r = (r', Got (Some i)) \<Longrightarrow> open_items r' < open_items r"
proof (induction json r rule: next_loop.induct)
  case (1 json r)
  obtain r1 ok where f: "fill_buf r = (r1, ok)" by (cases "fill_buf r")
  note le = fill_buf_open [OF f]
  show ?case
  proof (cases "ok \<and> bl_buffer r1 \<noteq> []")
    case True
    obtain r2 res where t: "take_chunk json r1 = (r2, res)" by (cases "take_chunk json r1")
    note lt = take_chunk_open [OF t]
    show ?thesis
    proof (cases res)
      case None
      then have "open_items r' < open_items r2"
        using 1 f t True by (auto simp: next_loop.simps [of json r])
      then show ?thesis using le lt True by simp
    qed (use 1(2) f t True le lt in \<open>simp add: next_loop.simps [of json r]\<close>)
  next
    case False
    then show ?thesis
      using 1(2) f le at_end_open [of json r1 r' i] by (auto simp: next_loop.simps [of json r] split: if_splits prod.splits bool.splits)
  qed
qed

lemma next_line_open: "next_line json r = (r', Got (Some i)) \<Longrightarrow> open_items r' < open_items r"
  by (auto simp: next_line_def open_items_def unread_def dest: next_loop_open split: option.splits)

text \<open>
  What a write of one line to the service answers: all of it was written and flushed, or an
  error after some of its bytes.
\<close>

datatype write_answer = Wrote | WriteFails nat

text \<open>
  \<open>feed\<close>: the bytes written to the service, the refusals queued, and whether the input ended
  without an error. \<open>writes\<close> is what the writes answer in turn; past its end they succeed.
\<close>

function feed ::
  "(string \<Rightarrow> 'v option) \<Rightarrow> write_answer list \<Rightarrow> 'v bounded_lines \<Rightarrow> string \<times> 'v refusal list \<times> bool" where
  "feed json writes r =
     (case next_line json r of
        (_, IoError) \<Rightarrow> ([], [], False)
      | (_, Got None) \<Rightarrow> ([], [], True)
      | (r, Got (Some (Line l))) \<Rightarrow>
          (case writes of
             WriteFails n # _ \<Rightarrow> (take n (write_line l), [], False)
           | _ \<Rightarrow> (case feed json (tl writes) r of (out, rs, ok) \<Rightarrow> (write_line l @ out, rs, ok)))
      | (r, Got (Some (Oversized ov))) \<Rightarrow>
          (case feed json writes r of (out, rs, ok) \<Rightarrow> (out, (case refusal ov of Some reply \<Rightarrow> reply # rs | None \<Rightarrow> rs), ok)))"
  by pat_completeness auto
termination
  by (relation "measure (\<lambda>(json, writes, r). open_items r)") (auto dest!: next_line_open [OF sym])

declare feed.simps [simp del]

section \<open>The lines against the whole input\<close>

definition fits :: "nat \<Rightarrow> string \<Rightarrow> bool" where
  "fits limit l \<longleftrightarrow> (if l \<noteq> [] \<and> last l = LF then length l \<le> limit else length l < limit)"

text \<open>What a line of the input comes to, said of the line alone.\<close>

definition item_of :: "(string \<Rightarrow> 'v option) \<Rightarrow> nat \<Rightarrow> string \<Rightarrow> 'v incoming" where
  "item_of json limit l =
     (if fits limit l then Line (strip_eol l)
      else Oversized \<lparr>ov_limit = limit, ov_kind = scan_kind json (scan_feed json l default_scan)\<rparr>)"

definition sources :: "read_answer list \<Rightarrow> string" where
  "sources as = concat (map (\<lambda>a. case a of Chunk c \<Rightarrow> c | ReadFails \<Rightarrow> []) as)"

definition plain_source :: "read_answer list \<Rightarrow> bool" where
  "plain_source as \<longleftrightarrow> list_all (\<lambda>a. case a of Chunk c \<Rightarrow> c \<noteq> [] | ReadFails \<Rightarrow> False) as"

definition remaining :: "'v bounded_lines \<Rightarrow> string" where
  "remaining r = bl_buffer r @ sources (bl_source r)"

text \<open>The reader stands inside a line of which the bytes \<open>p\<close> have been taken.\<close>

definition inside :: "(string \<Rightarrow> 'v option) \<Rightarrow> string \<Rightarrow> 'v bounded_lines \<Rightarrow> bool" where
  "inside json p r \<longleftrightarrow>
     LF \<notin> set p \<and> plain_source (bl_source r) \<and> bl_replay r = None
     \<and> (if bl_discarding r then bl_line r = [] \<and> bl_scan r = scan_feed json p default_scan \<and> bl_limit r < length p
        else bl_line r = p \<and> length p \<le> bl_limit r)"

lemma scan_feed_append: "scan_feed json (a @ b) s = scan_feed json b (scan_feed json a s)"
  by (simp add: scan_feed_def)

lemma fill_buf_inside:
  assumes "inside json p r" "fill_buf r = (r', ok)"
  shows "ok \<and> inside json p r' \<and> remaining r' = remaining r \<and> bl_limit r' = bl_limit r
    \<and> (bl_buffer r' = [] \<longrightarrow> remaining r' = [])"
  using assms
  by (auto simp: fill_buf_def inside_def remaining_def sources_def plain_source_def
      split: if_splits list.splits read_answer.splits)

lemma take_chunk_open_line:
  assumes "inside json p r" "bl_buffer r \<noteq> []" "LF \<notin> set (bl_buffer r)" "take_chunk json r = (r', res)"
  shows "res = None \<and> inside json (p @ bl_buffer r) r' \<and> remaining r' = sources (bl_source r) \<and> bl_limit r' = bl_limit r"
  using assms by (auto simp: take_chunk_def inside_def remaining_def scan_feed_append Let_def split: if_splits)

lemma take_chunk_whole_line:
  assumes "inside json p r" "bl_buffer r = w @ LF # rest" "LF \<notin> set w" "take_chunk json r = (r', res)"
  shows "res = Some (item_of json (bl_limit r) (p @ w @ [LF])) \<and> inside json [] r'
    \<and> remaining r' = rest @ sources (bl_source r) \<and> bl_limit r' = bl_limit r"
proof -
  have tw: "takeWhile (\<lambda>b. b \<noteq> LF) (bl_buffer r) = w" using assms(2,3) by (simp add: takeWhile_append) 
  have nl: "LF \<in> set (bl_buffer r)" using assms(2) by simp
  have dr: "drop (length (w @ [LF])) (bl_buffer r) = rest" using assms(2) by simp
  show ?thesis
    using assms(1,4) tw nl dr
    by (auto simp: take_chunk_def inside_def remaining_def scan_feed_append finish_oversized_def take_line_def item_of_def fits_def
        Let_def split: if_splits)
qed


lemma at_end_inside:
  assumes "inside json p r" "at_end json r = (r', res)" "remaining r = []"
  shows "res = (if p = [] then None else Some (item_of json (bl_limit r) p)) \<and> inside json [] r' \<and> remaining r' = []
    \<and> bl_limit r' = bl_limit r"
proof -
  have "last p \<noteq> LF" if "p \<noteq> []" using assms(1) last_in_set [OF that] by (auto simp: inside_def)
  then show ?thesis
    using assms
    by (auto simp: at_end_def inside_def finish_oversized_def take_line_def item_of_def fits_def strip_eol_def remaining_def
        split: if_splits)
qed

text \<open>One call answers the next line of what is left, whole, however it arrives.\<close>

lemma next_loop_line:
  "inside json p r \<Longrightarrow> next_loop json r = (r', a) \<Longrightarrow>
     (case split_inclusive LF (p @ remaining r) of
        [] \<Rightarrow> a = Got None
      | l # ls \<Rightarrow> a = Got (Some (item_of json (bl_limit r) l)) \<and> inside json [] r' \<and> remaining r' = concat ls \<and> bl_limit r' = bl_limit r)"
proof (induction json r arbitrary: p rule: next_loop.induct)
  case (1 json r)
  obtain r1 ok where f: "fill_buf r = (r1, ok)" by (cases "fill_buf r")
  note i1 = fill_buf_inside [OF 1(2) f]
  have ok: ok using i1 by simp
  show ?case
  proof (cases "bl_buffer r1 = []")
    case True
    obtain r2 res where e: "at_end json r1 = (r2, res)" by (cases "at_end json r1")
    have r0: "remaining r1 = []" "remaining r = []" using i1 True by auto
    note at_end_inside [OF _ e r0(1), of p]
    moreover have "(r', a) = (r2, Got res)"
      using 1(3) f ok True e by (simp add: next_loop.simps [of json r])
    moreover have "LF \<notin> set p" using 1(2) by (simp add: inside_def)
    ultimately show ?thesis
      using i1 r0(2) by (simp add: split_inclusive_plain)
  next
    case False
    obtain r2 res where t: "take_chunk json r1 = (r2, res)" by (cases "take_chunk json r1")
    have nx: "(r', a) = (case res of Some i \<Rightarrow> (r2, Got (Some i)) | None \<Rightarrow> next_loop json r2)"
      using 1(3) f ok False t by (simp add: next_loop.simps [of json r] split: option.splits)
    have r1: "remaining r = bl_buffer r1 @ sources (bl_source r1)" using i1 by (simp add: remaining_def)
    show ?thesis
    proof (cases "LF \<in> set (bl_buffer r1)")
      case True
      then obtain w rest where w: "bl_buffer r1 = w @ LF # rest" "LF \<notin> set w" by (meson split_list_first)
      note whole = take_chunk_whole_line [OF _ w t, of p]
      have "LF \<notin> set (p @ w)" using 1(2) w by (simp add: inside_def)
      then have "split_inclusive LF (p @ remaining r) = (p @ w @ [LF]) # split_inclusive LF (rest @ sources (bl_source r1))"
        using split_inclusive_line [of LF "p @ w"] r1 w(1) by simp
      then show ?thesis using nx whole i1 by simp
    next
      case no: False
      note part = take_chunk_open_line [OF _ False no t, of p]
      then have res: "res = None" and i2: "inside json (p @ bl_buffer r1) r2" "remaining r2 = sources (bl_source r1)" "bl_limit r2 = bl_limit r"
        using i1 by simp_all
      have "next_loop json r2 = (r', a)" using nx res by simp
      from 1(1) [OF f [symmetric] _ False t [symmetric] res i2(1) this] ok i2 r1 show ?thesis
        by (simp split: list.splits)
    qed
  qed
qed

text \<open>What a run over whole lines comes to.\<close>

fun fed :: "(string \<Rightarrow> 'v option) \<Rightarrow> nat \<Rightarrow> string list \<Rightarrow> write_answer list \<Rightarrow> string \<times> 'v refusal list \<times> bool" where
  "fed json limit [] writes = ([], [], True)"
| "fed json limit (l # ls) writes =
     (case item_of json limit l of
        Line t \<Rightarrow>
          (case writes of
             WriteFails n # _ \<Rightarrow> (take n (write_line t), [], False)
           | _ \<Rightarrow> (case fed json limit ls (tl writes) of (out, rs, ok) \<Rightarrow> (write_line t @ out, rs, ok)))
      | Oversized ov \<Rightarrow>
          (case fed json limit ls writes of (out, rs, ok) \<Rightarrow> (out, (case refusal ov of Some reply \<Rightarrow> reply # rs | None \<Rightarrow> rs), ok)))"

lemma feed_lines:
  "inside json [] r \<Longrightarrow> feed json writes r = fed json (bl_limit r) (split_inclusive LF (remaining r)) writes"
proof (induction json writes r rule: feed.induct)
  case (1 json writes r)
  obtain r' a where n: "next_line json r = (r', a)" by (cases "next_line json r")
  then have nl: "next_loop json r = (r', a)" using 1(4) by (simp add: next_line_def inside_def)
  note spec = next_loop_line [OF 1(4) nl, simplified]
  show ?case
  proof (cases "split_inclusive LF (remaining r)")
    case Nil
    then show ?thesis using spec n by (simp add: feed.simps [of json writes r])
  next
    case (Cons l ls)
    then have a: "a = Got (Some (item_of json (bl_limit r) l))" and i': "inside json [] r'" and
      r': "remaining r' = concat ls" "bl_limit r' = bl_limit r" using spec by simp_all
    have ls: "split_inclusive LF (concat ls) = ls"
      using lines_ok_split [of LF "remaining r"] unfolding Cons
      by (intro split_concat_lines) (auto dest: lines_ok_tl)
    show ?thesis
    proof (cases "item_of json (bl_limit r) l")
      case (Line t)
      then have al: "a = Got (Some (Line t))" using a by simp
      show ?thesis
      proof (cases writes)
        case Nil
        have "feed json (tl writes) r' = fed json (bl_limit r) ls (tl writes)"
          using 1(1) [OF n [symmetric] al refl refl Nil i'] r' ls by simp
        then show ?thesis using n al Nil Cons Line by (simp add: feed.simps [of json "[]" r])
      next
        case w: (Cons w ws)
        show ?thesis
        proof (cases w)
          case Wrote
          have "feed json (tl writes) r' = fed json (bl_limit r) ls (tl writes)"
            using 1(2) [OF n [symmetric] al refl refl w Wrote i'] r' ls by simp
          then show ?thesis using n al w Wrote Cons Line by (simp add: feed.simps [of json "Wrote # ws" r])
        next
          case (WriteFails k)
          then show ?thesis using n al w Cons Line by (simp add: feed.simps [of json "WriteFails k # ws" r])
        qed
      qed
    next
      case (Oversized ov)
      then have ao: "a = Got (Some (Oversized ov))" using a by simp
      have "feed json writes r' = fed json (bl_limit r) ls writes"
        using 1(3) [OF n [symmetric] ao refl refl i'] r' ls by simp
      then show ?thesis using n ao Cons Oversized by (simp add: feed.simps [of json writes r])
    qed
  qed
qed

definition refusal_of :: "(string \<Rightarrow> 'v option) \<Rightarrow> nat \<Rightarrow> string \<Rightarrow> 'v refusal option" where
  "refusal_of json limit l =
     (if fits limit l then None
      else refusal \<lparr>ov_limit = limit, ov_kind = scan_kind json (scan_feed json l default_scan)\<rparr>)"

lemma refusal_of_simps [simp]:
  "fits limit l \<Longrightarrow> refusal_of json limit l = None"
  "\<not> fits limit l \<Longrightarrow> refusal_of json limit l = refusal \<lparr>ov_limit = limit, ov_kind = scan_kind json (scan_feed json l default_scan)\<rparr>"
  by (simp_all add: refusal_of_def)

lemma fed_all:
  "list_all (\<lambda>w. w = Wrote) (take (length (filter (fits limit) ls)) writes) \<Longrightarrow>
     fed json limit ls writes =
       (concat (map (\<lambda>l. write_line (strip_eol l)) (filter (fits limit) ls)), List.map_filter (refusal_of json limit) ls, True)"
proof (induction ls arbitrary: writes)
  case Nil
  then show ?case by (simp add: map_filter_def)
next
  case (Cons l ls)
  show ?case
  proof (cases "fits limit l")
    case True
    have "fed json limit ls (tl writes) =
        (concat (map (\<lambda>l. write_line (strip_eol l)) (filter (fits limit) ls)), List.map_filter (refusal_of json limit) ls, True)"
      by (rule Cons.IH) (use Cons.prems True in \<open>cases writes; simp\<close>)
    then show ?thesis
      using True Cons.prems by (cases writes) (auto simp: item_of_def map_filter_simps)
  next
    case False
    then show ?thesis using Cons by (simp add: item_of_def map_filter_simps split: option.split)
  qed
qed

lemma fed_fails:
  "fits limit l \<Longrightarrow> length (filter (fits limit) before) = k \<Longrightarrow>
     fed json limit (before @ l # after) (replicate k Wrote @ WriteFails n # rest) =
       (concat (map (\<lambda>l. write_line (strip_eol l)) (filter (fits limit) before)) @ take n (write_line (strip_eol l)),
        List.map_filter (refusal_of json limit) before, False)"
proof (induction before arbitrary: k)
  case Nil
  then show ?case by (simp add: item_of_def map_filter_def)
next
  case (Cons b before)
  show ?case
  proof (cases "fits limit b")
    case True
    then obtain k' where k': "k = Suc k'" "length (filter (fits limit) before) = k'" using Cons.prems(2) by auto
    show ?thesis using Cons.IH [OF Cons.prems(1) k'(2)] True k'(1) by (simp add: item_of_def map_filter_simps)
  next
    case False
    then show ?thesis
      using Cons by (simp add: item_of_def map_filter_simps split: option.split)
  qed
qed

lemma strip_eol_shorter: "l \<noteq> [] \<Longrightarrow> last l = LF \<Longrightarrow> length (strip_eol l) < length l"
  by (cases l) (auto simp: strip_eol_def)

lemma fits_write_line: "fits limit l \<Longrightarrow> length (strip_eol l @ [LF]) \<le> limit"
  using strip_eol_shorter [of l] by (cases "l \<noteq> [] \<and> last l = LF") (auto simp: fits_def strip_eol_def)

text \<open>
  C15: every line a client writes is answered for. However the input is cut into chunks, every
  line that fits in the limit (its newline counted, also the one added to a last line without
  one) reaches the service whole and in order, without its line ending and with a newline of
  its own, and never longer than the limit the service itself drops lines at; every other
  line that is a request is refused, once and in order, with the id its keys say. When a
  write to the service fails, the lines before it were delivered and refused the same way,
  the bytes that write took are the start of its line, and the loop ends with the error.
\<close>

theorem feed_answers_every_line:
  assumes "[] \<notin> set chunks"
  defines "ls \<equiv> split_inclusive LF (concat chunks)"
  shows "(list_all (\<lambda>w. w = Wrote) (take (length (filter (fits limit) ls)) writes) \<longrightarrow>
      feed json writes (new_lines (map Chunk chunks) limit) =
        (concat (map (\<lambda>l. strip_eol l @ [LF]) (filter (fits limit) ls)),
         List.map_filter (\<lambda>l. if fits limit l then None
            else refusal \<lparr>ov_limit = limit, ov_kind = scan_kind json (scan_feed json l default_scan)\<rparr>) ls, True))
    \<and> (\<forall>before l after k n rest. ls = before @ l # after \<and> fits limit l \<and> length (filter (fits limit) before) = k
        \<and> writes = replicate k Wrote @ WriteFails n # rest \<longrightarrow>
      feed json writes (new_lines (map Chunk chunks) limit) =
        (concat (map (\<lambda>l. strip_eol l @ [LF]) (filter (fits limit) before)) @ take n (strip_eol l @ [LF]),
         List.map_filter (\<lambda>l. if fits limit l then None
            else refusal \<lparr>ov_limit = limit, ov_kind = scan_kind json (scan_feed json l default_scan)\<rparr>) before, False))
    \<and> list_all (\<lambda>l. length (strip_eol l @ [LF]) \<le> limit) (filter (fits limit) ls)"
proof -
  let ?r = "new_lines (map Chunk chunks) limit"
  have s: "sources (map Chunk chunks) = concat chunks" by (simp add: sources_def comp_def)
  have "inside json [] ?r"
    using assms by (auto simp: inside_def new_lines_def plain_source_def list_all_iff)
  then have f: "feed json writes ?r = fed json limit ls writes"
    using feed_lines [of json ?r writes] by (simp add: new_lines_def remaining_def s ls_def)
  have rf: "refusal_of json limit = (\<lambda>l. if fits limit l then None
      else refusal \<lparr>ov_limit = limit, ov_kind = scan_kind json (scan_feed json l default_scan)\<rparr>)"
    by (simp add: refusal_of_def fun_eq_iff)
  have "list_all (\<lambda>l. length (write_line (strip_eol l)) \<le> limit) (filter (fits limit) ls)"
    using fits_write_line by (auto simp: list_all_iff write_line_def)
  then show ?thesis
    unfolding f rf [symmetric] write_line_def [symmetric]
    using fed_all [of limit ls writes json] fed_fails [of limit] by blast
qed

text \<open>Both endings: the input runs out, and the second write breaks after one byte.\<close>

theorem feed_answers_every_line_witness:
  "feed Some [] (new_lines (map Chunk [''{}'' @ [CR], LF # ''{\"id\"'', '':7}'' @ [LF], ''[]'']) 6) =
     ([CHR ''{'', CHR ''}'', LF, CHR ''['', CHR '']'', LF],
      [the (refusal \<lparr>ov_limit = 6, ov_kind = Request (Some ''7'')\<rparr>)], True)
   \<and> feed Some [Wrote, WriteFails 1] (new_lines (map Chunk [''{}'' @ [CR], LF # ''{\"id\"'', '':7}'' @ [LF], ''[]'']) 6) =
     ([CHR ''{'', CHR ''}'', LF, CHR ''['' ],
      [the (refusal \<lparr>ov_limit = 6, ov_kind = Request (Some ''7'')\<rparr>)], False)"
proof -
  let ?chunks = "[''{}'' @ [CR], LF # ''{\"id\"'', '':7}'' @ [LF], ''[]'']"
  let ?long = "''{\"id\":7}'' @ [LF]"
  let ?ov = "\<lambda>l. \<lparr>ov_limit = 6, ov_kind = scan_kind Some (scan_feed Some l default_scan)\<rparr>"
  have lines: "split_inclusive LF (concat ?chunks) = [''{}'' @ [CR, LF], ?long, ''[]'']" by simp
  have kind: "scan_kind Some (scan_feed Some ?long default_scan) = Request (Some ''7'')"
    by (simp add: scan_kind_def scan_feed_def default_scan_def step_def step_in_string_def begin_value_def end_member_def capture_def
        at_top_level_def u32_max_def ID_CAPTURE_BYTES_def KEY_CAPTURE_BYTES_def)
  obtain a where a: "refusal (?ov ?long) = Some a" unfolding kind by (simp add: refusal_def)
  have f: "fits 6 (''{}'' @ [CR, LF])" "\<not> fits 6 ?long" "fits 6 ''[]''" by (simp_all add: fits_def)
  have e: "strip_eol (''{}'' @ [CR, LF]) = ''{}''" "strip_eol ''[]'' = ''[]''" by (simp_all add: strip_eol_def)
  have r: "List.map_filter (\<lambda>l. if fits 6 l then None else refusal (?ov l)) [''{}'' @ [CR, LF], ?long, ''[]''] = [the (refusal (?ov ?long))]"
    "List.map_filter (\<lambda>l. if fits 6 l then None else refusal (?ov l)) [''{}'' @ [CR, LF], ?long] = [the (refusal (?ov ?long))]"
    unfolding a using a f by (simp_all add: map_filter_simps)
  note th = feed_answers_every_line [of ?chunks 6 _ Some, unfolded lines]
  have "feed Some [] (new_lines (map Chunk ?chunks) 6) =
     ([CHR ''{'', CHR ''}'', LF, CHR ''['', CHR '']'', LF], [the (refusal (?ov ?long))], True)"
    using th [of "[]", THEN conjunct1] r f e by simp
  moreover have "feed Some [Wrote, WriteFails 1] (new_lines (map Chunk ?chunks) 6) =
     ([CHR ''{'', CHR ''}'', LF, CHR ''[''], [the (refusal (?ov ?long))], False)"
    using th [of "[Wrote, WriteFails 1]", THEN conjunct2, THEN conjunct1, rule_format,
      of "[''{}'' @ [CR, LF], ?long]" "''[]''" "[]" 1 1 "[]"] r f e by simp
  ultimately show ?thesis unfolding kind by simp
qed

section \<open>Memory stays bounded\<close>

text \<open>Every state the reader can be left in, mid-line ones included: a read may be given up at each fill.\<close>

inductive reading :: "(string \<Rightarrow> 'v option) \<Rightarrow> nat \<Rightarrow> 'v bounded_lines \<Rightarrow> bool" for json limit where
  start: "reading json limit (new_lines source limit)"
| handed_back: "reading json limit r \<Longrightarrow> reading json limit (replay_item i r)"
| replayed: "reading json limit r \<Longrightarrow> reading json limit (r\<lparr>bl_replay := None\<rparr>)"
| filled: "reading json limit r \<Longrightarrow> fill_buf r = (r', ok) \<Longrightarrow> reading json limit r'"
| took: "reading json limit r \<Longrightarrow> bl_buffer r \<noteq> [] \<Longrightarrow> take_chunk json r = (r', res) \<Longrightarrow> reading json limit r'"
| ended: "reading json limit r \<Longrightarrow> at_end json r = (r', res) \<Longrightarrow> reading json limit r'"

definition scan_small :: "'v scan \<Rightarrow> bool" where
  "scan_small s \<longleftrightarrow>
     length (sn_key s) \<le> KEY_CAPTURE_BYTES \<and> (case sn_capture s of None \<Rightarrow> True | Some raw \<Rightarrow> length raw \<le> ID_CAPTURE_BYTES)
     \<and> sn_depth s \<le> u32_max"

lemma scan_small_parts:
  "scan_small default_scan"
  "scan_small s \<Longrightarrow> scan_small (capture b s)"
  "scan_small s \<Longrightarrow> scan_small (end_member json s)"
  "scan_small s \<Longrightarrow> scan_small (begin_value s)"
  "scan_small s \<Longrightarrow> scan_small (step_in_string b s)"
  by (auto simp: scan_small_def default_scan_def capture_def end_member_def begin_value_def step_in_string_def Let_def
      split: option.splits)

lemma scan_small_updates [simp]:
  "scan_small (s\<lparr>sn_in_string := b\<rparr>) = scan_small s" "scan_small (s\<lparr>sn_member := m\<rparr>) = scan_small s"
  "scan_small (s\<lparr>sn_object := b\<rparr>) = scan_small s"
  by (simp_all add: scan_small_def)

lemma scan_small_step: "scan_small s \<Longrightarrow> scan_small (step json b s)"
proof -
  assume s: "scan_small s"
  have d: "scan_small (t\<lparr>sn_depth := min n u32_max\<rparr>)" "scan_small (t\<lparr>sn_depth := sn_depth t - 1\<rparr>)"
    "scan_small (t\<lparr>sn_key := []\<rparr>)" if "scan_small t" for t :: "'a scan" and n
    using that by (simp_all add: scan_small_def le_diff_conv trans_le_add1)
  show ?thesis
    using s by (simp add: step_def Let_def scan_small_parts d del: One_nat_def)
qed

lemma scan_small_feed: "scan_small s \<Longrightarrow> scan_small (scan_feed json bytes s)"
  unfolding scan_feed_def by (induction bytes arbitrary: s) (simp_all add: scan_small_step)

lemma reading_small: "reading json limit r \<Longrightarrow> length (bl_line r) \<le> limit \<and> bl_limit r = limit \<and> scan_small (bl_scan r)"
proof (induction rule: reading.induct)
  case (filled r r' ok)
  then show ?case using fill_buf_keeps [of r r' ok] by simp
next
  case (took r r' res)
  then show ?case
    by (auto simp: take_chunk_def finish_oversized_def take_line_def Let_def scan_small_parts(1) intro!: scan_small_feed
        split: if_splits)
next
  case (ended r r' res)
  then show ?case
    by (auto simp: at_end_def finish_oversized_def take_line_def scan_small_parts(1) split: if_splits)
qed (simp_all add: new_lines_def replay_item_def scan_small_parts(1))

lemma next_loop_reading: "reading json limit r \<Longrightarrow> reading json limit (fst (next_loop json r))"
proof (induction json r rule: next_loop.induct)
  case (1 json r)
  obtain r1 ok where f: "fill_buf r = (r1, ok)" by (cases "fill_buf r")
  note r1 = reading.filled [OF 1(2) f]
  show ?case
  proof (cases "ok \<and> bl_buffer r1 \<noteq> []")
    case True
    obtain r2 res where t: "take_chunk json r1 = (r2, res)" by (cases "take_chunk json r1")
    then have "reading json limit r2" using reading.took [OF r1 _ t] True by simp
    then show ?thesis using 1(1) f t True by (auto simp: next_loop.simps [of json r] split: option.splits)
  next
    case False
    obtain r2 res where e: "at_end json r1 = (r2, res)" by (cases "at_end json r1")
    then show ?thesis
      using r1 f False reading.ended [OF r1 e] by (auto simp: next_loop.simps [of json r] split: bool.splits)
  qed
qed

lemma next_line_reading: "reading json limit r \<Longrightarrow> reading json limit (fst (next_line json r))"
  by (auto simp: next_line_def intro: next_loop_reading reading.replayed split: option.splits)


text \<open>
  C40: memory stays bounded. Whatever arrives and wherever a read is given up, the line held is
  within the limit, and what the scan of a dropped line holds is a key of sixteen bytes and an
  id of 256 at most; a call that answers leaves such a state behind.
\<close>

theorem reader_memory_bounded:
  assumes "reading json limit r"
  shows "length (bl_line r) \<le> limit \<and> length (sn_key (bl_scan r)) \<le> KEY_CAPTURE_BYTES
    \<and> (case sn_capture (bl_scan r) of None \<Rightarrow> True | Some raw \<Rightarrow> length raw \<le> ID_CAPTURE_BYTES)
    \<and> reading json limit (fst (next_line json r))"
  using reading_small [OF assms] next_line_reading [OF assms] by (simp add: scan_small_def)

theorem reader_memory_bounded_witness:
  "length (bl_line (fst (next_line Some (new_lines [Chunk ''abcdef'', Chunk ''g'', ReadFails] 3)))) \<le> 3"
  using reader_memory_bounded 
    [OF next_line_reading [OF reading.start [where source = "[Chunk ''abcdef'', Chunk ''g'', ReadFails]" and limit = 3 and json = Some]]]
  by simp

section \<open>What the scan reads\<close>

text \<open>
  A JSON value as a client writes it, with the white space it puts around each separator: a
  string is its escaped text, an item has the space before and after it, and a field of an
  object the space before its key, on both sides of its colon and after its value. The first
  argument of an array or an object is the space after its bracket.
\<close>

datatype 'a item = Item (it_before: string) (it_value: 'a) (it_after: string)

datatype 'a field =
  Field (fd_before: string) (fd_key: string) (fd_after_key: string) (fd_after_colon: string) (fd_value: 'a) (fd_after: string)

datatype jv = JAtom string | JString string | JArr string "jv item list" | JObj string "jv field list"

lemma item_smaller [termination_simp]: "x \<in> set xs \<Longrightarrow> size (it_value x) < Suc (size_list (size_item size) xs)"
  by (induction xs) (auto simp: item.size_gen split: item.splits, (case_tac x; simp)+)

lemma field_smaller [termination_simp]: "x \<in> set xs \<Longrightarrow> size (fd_value x) < Suc (size_list (size_field size) xs)"
  by (induction xs) (auto simp: field.size_gen split: field.splits, (case_tac x; simp)+)

abbreviation QUOTE :: char where "QUOTE \<equiv> CHR 0x22"

definition plain_byte :: "char \<Rightarrow> bool" where
  "plain_byte c \<longleftrightarrow> c \<notin> {QUOTE, CHR ''{'', CHR ''['', CHR ''}'', CHR '']'', CHR '':'', CHR '',''}"

fun str_ok :: "string \<Rightarrow> bool" where
  "str_ok [] \<longleftrightarrow> True"
| "str_ok [c] \<longleftrightarrow> c \<noteq> CHR 0x5C \<and> c \<noteq> QUOTE"
| "str_ok (c # d # s) \<longleftrightarrow> (if c = CHR 0x5C then str_ok s else c \<noteq> QUOTE \<and> str_ok (d # s))"

definition quoted :: "string \<Rightarrow> string" where
  "quoted s = QUOTE # s @ [QUOTE]"

fun render :: "jv \<Rightarrow> string" where
  "render (JAtom a) = a"
| "render (JString s) = quoted s"
| "render (JArr gap vs) =
     ''['' @ gap @ join_with '','' (map (\<lambda>x. it_before x @ render (it_value x) @ it_after x) vs) @ '']''"
| "render (JObj gap ms) =
     ''{'' @ gap @ join_with '',''
       (map (\<lambda>x. fd_before x @ quoted (fd_key x) @ fd_after_key x @ '':'' @ fd_after_colon x @ render (fd_value x) @ fd_after x) ms) @ ''}''"

definition spaces_ok :: "'a field \<Rightarrow> bool" where
  "spaces_ok x \<longleftrightarrow>
     list_all plain_byte (fd_before x) \<and> list_all plain_byte (fd_after_key x) \<and> list_all plain_byte (fd_after_colon x)
     \<and> list_all plain_byte (fd_after x)"

fun jv_ok :: "jv \<Rightarrow> bool" where
  "jv_ok (JAtom a) \<longleftrightarrow> list_all plain_byte a"
| "jv_ok (JString s) \<longleftrightarrow> str_ok s"
| "jv_ok (JArr gap vs) \<longleftrightarrow> list_all plain_byte gap
     \<and> list_all (\<lambda>x. list_all plain_byte (it_before x) \<and> list_all plain_byte (it_after x) \<and> jv_ok (it_value x)) vs"
| "jv_ok (JObj gap ms) \<longleftrightarrow> list_all plain_byte gap \<and> list_all (\<lambda>x. spaces_ok x \<and> str_ok (fd_key x) \<and> jv_ok (fd_value x)) ms"

fun depth_ok :: "nat \<Rightarrow> jv \<Rightarrow> bool" where
  "depth_ok n (JAtom a) \<longleftrightarrow> True"
| "depth_ok n (JString s) \<longleftrightarrow> True"
| "depth_ok n (JArr gap vs) \<longleftrightarrow> n < u32_max \<and> list_all (\<lambda>x. depth_ok (Suc n) (it_value x)) vs"
| "depth_ok n (JObj gap ms) \<longleftrightarrow> n < u32_max \<and> list_all (\<lambda>x. depth_ok (Suc n) (fd_value x)) ms"

definition keep :: "string \<Rightarrow> 'v scan \<Rightarrow> 'v scan" where
  "keep bytes s = fold capture bytes s"

definition in_value :: "'v scan \<Rightarrow> bool" where
  "in_value s \<longleftrightarrow> sn_object s \<and> 1 \<le> sn_depth s \<and> sn_member s = Value \<and> \<not> sn_in_string s \<and> \<not> sn_escaped s"

lemma capture_commutes:
  "capture b (s\<lparr>sn_in_string := x\<rparr>) = (capture b s)\<lparr>sn_in_string := x\<rparr>"
  "capture b (s\<lparr>sn_escaped := x\<rparr>) = (capture b s)\<lparr>sn_escaped := x\<rparr>"
  "capture b (s\<lparr>sn_depth := n\<rparr>) = (capture b s)\<lparr>sn_depth := n\<rparr>"
  by (simp_all add: capture_def split: option.splits)

lemma capture_keeps [simp]:
  "sn_in_string (capture b s) = sn_in_string s" "sn_escaped (capture b s) = sn_escaped s" "sn_depth (capture b s) = sn_depth s"
  "sn_object (capture b s) = sn_object s" "sn_member (capture b s) = sn_member s" "sn_key (capture b s) = sn_key s"
  "sn_id (capture b s) = sn_id s" "sn_id_seen (capture b s) = sn_id_seen s" "sn_method (capture b s) = sn_method s"
  "sn_outcome (capture b s) = sn_outcome s"
  by (simp_all add: capture_def split: option.splits)

lemma keep_simps [simp]: "keep [] s = s" "keep (b # bs) s = keep bs (capture b s)" "keep (as @ bs) s = keep bs (keep as s)"
  by (simp_all add: keep_def)

lemma keep_keeps [simp]:
  "sn_in_string (keep bs s) = sn_in_string s" "sn_escaped (keep bs s) = sn_escaped s" "sn_depth (keep bs s) = sn_depth s"
  "sn_object (keep bs s) = sn_object s" "sn_member (keep bs s) = sn_member s" "sn_key (keep bs s) = sn_key s"
  "sn_id (keep bs s) = sn_id s" "sn_id_seen (keep bs s) = sn_id_seen s" "sn_method (keep bs s) = sn_method s"
  "sn_outcome (keep bs s) = sn_outcome s"
  by (induction bs arbitrary: s) simp_all

lemma keep_commutes:
  "keep bs (s\<lparr>sn_in_string := x\<rparr>) = (keep bs s)\<lparr>sn_in_string := x\<rparr>"
  "keep bs (s\<lparr>sn_escaped := x\<rparr>) = (keep bs s)\<lparr>sn_escaped := x\<rparr>"
  "keep bs (s\<lparr>sn_depth := n\<rparr>) = (keep bs s)\<lparr>sn_depth := n\<rparr>"
  by (induction bs arbitrary: s) (simp_all add: capture_commutes)

lemma scan_feed_simps [simp]: "scan_feed json [] s = s" "scan_feed json (b # bs) s = scan_feed json bs (step json b s)"
  by (simp_all add: scan_feed_def)

lemma step_plain: "plain_byte b \<Longrightarrow> \<not> sn_in_string s \<Longrightarrow> step json b s = capture b s"
  by (simp add: step_def plain_byte_def)

lemma feed_plain: "list_all plain_byte bs \<Longrightarrow> \<not> sn_in_string s \<Longrightarrow> scan_feed json bs s = keep bs s"
  by (induction bs arbitrary: s) (simp_all add: step_plain)

lemma feed_string_body:
  "str_ok b \<Longrightarrow> sn_in_string s \<Longrightarrow> \<not> sn_escaped s \<Longrightarrow> sn_member s \<noteq> InKey \<Longrightarrow> scan_feed json b s = keep b s"
proof (induction b arbitrary: s rule: str_ok.induct)
  case (3 c d b)
  have esc: "step json d (step json (CHR 0x5C) s) = capture d (capture (CHR 0x5C) s)"
    using 3(4-6) by (cases "sn_escaped s") (simp_all add: step_def step_in_string_def Let_def capture_commutes)
  show ?case
  proof (cases "c = CHR 0x5C")
    case True
    then show ?thesis using 3(1) [of "capture d (capture c s)"] 3(3-6) esc by simp
  next
    case False
    then have "step json c s = capture c s" using 3(3-6) by (simp add: step_def step_in_string_def Let_def)
    then show ?thesis using 3(2) [of "capture c s"] 3(3-6) False by simp
  qed
qed (simp_all add: step_def step_in_string_def Let_def)

lemma feed_quoted: "str_ok b \<Longrightarrow> in_value s \<Longrightarrow> scan_feed json (quoted b) s = keep (quoted b) s"
proof -
  assume b: "str_ok b" "in_value s"
  let ?s = "(capture QUOTE s)\<lparr>sn_in_string := True\<rparr>"
  have q: "step json QUOTE s = ?s" using b(2) by (simp add: step_def in_value_def at_top_level_def capture_commutes Let_def)
  have "scan_feed json b ?s = (keep b (capture QUOTE s))\<lparr>sn_in_string := True\<rparr>"
    using feed_string_body [OF b(1), of ?s json] b(2) by (simp add: in_value_def keep_commutes)
  then show ?thesis
    using b(2) q
    by (simp add: quoted_def scan_feed_append step_def step_in_string_def in_value_def capture_commutes Let_def)
qed


lemma step_open:
  "in_value s \<Longrightarrow> sn_depth s < u32_max \<Longrightarrow> b \<in> {CHR ''{'', CHR ''[''} \<Longrightarrow>
     step json b s = (capture b s)\<lparr>sn_depth := Suc (sn_depth s)\<rparr>"
  by (auto simp: step_def in_value_def Let_def)

lemma step_close:
  "in_value s \<Longrightarrow> 1 < sn_depth s \<Longrightarrow> b \<in> {CHR ''}'', CHR '']''} \<Longrightarrow>
     step json b s = (capture b s)\<lparr>sn_depth := sn_depth s - 1\<rparr>"
  by (auto simp: step_def in_value_def at_top_level_def Let_def)

lemma step_nested:
  "in_value s \<Longrightarrow> 1 < sn_depth s \<Longrightarrow> b \<in> {CHR '':'', CHR '',''} \<Longrightarrow> step json b s = capture b s"
  by (auto simp: step_def in_value_def at_top_level_def)

lemma in_value_keep [simp]: "in_value (keep bs s) = in_value s" "in_value (capture b s) = in_value s"
  by (simp_all add: in_value_def)

lemma feed_joined:
  assumes "\<And>x t. x \<in> set xs \<Longrightarrow> in_value t \<Longrightarrow> sn_depth t = n \<Longrightarrow> scan_feed json x t = keep x t"
    and "\<And>t. in_value t \<Longrightarrow> sn_depth t = n \<Longrightarrow> scan_feed json sep t = keep sep t"
    and "in_value s" "sn_depth s = n"
  shows "scan_feed json (join_with sep xs) s = keep (join_with sep xs) s"
  using assms
proof (induction sep xs arbitrary: s rule: join_with.induct)
  case (3 sep x y xs)
  have x: "scan_feed json x s = keep x s" using 3(2,4,5) by simp
  have sp: "scan_feed json sep (keep x s) = keep sep (keep x s)" using 3(3-5) by simp
  have "scan_feed json (join_with sep (y # xs)) (keep sep (keep x s)) = keep (join_with sep (y # xs)) (keep sep (keep x s))"
    by (rule 3(1)) (use 3(2-5) in auto)
  then show ?case using x sp by (simp add: scan_feed_append)
qed simp_all

text \<open>Everything of a value goes into the captured bytes, and nothing else changes.\<close>

lemma feed_space: "list_all plain_byte w \<Longrightarrow> in_value x \<Longrightarrow> scan_feed json w x = keep w x"
  by (intro feed_plain) (simp_all add: in_value_def)

lemma feed_bracketed:
  assumes w: "list_all plain_byte w" and s: "in_value s" "sn_depth s < u32_max"
    and b: "b \<in> {CHR ''{'', CHR ''[''}" "e \<in> {CHR ''}'', CHR '']''}"
    and inner: "\<And>t. in_value t \<Longrightarrow> sn_depth t = Suc (sn_depth s) \<Longrightarrow> scan_feed json inner t = keep inner t"
  shows "scan_feed json (b # w @ inner @ [e]) s = keep (b # w @ inner @ [e]) s"
proof -
  let ?t = "(capture b s)\<lparr>sn_depth := Suc (sn_depth s)\<rparr>"
  have t: "in_value ?t" using s(1) by (simp add: in_value_def)
  have i: "scan_feed json inner (keep w ?t) = keep inner (keep w ?t)" using inner t by simp
  let ?u = "keep inner (keep w ?t)"
  have "step json e ?u = (capture e ?u)\<lparr>sn_depth := sn_depth s\<rparr>"
    using step_close [of ?u e json] t b(2) s(1) by (simp add: in_value_def)
  then have "scan_feed json (b # w @ inner @ [e]) s = (capture e ?u)\<lparr>sn_depth := sn_depth s\<rparr>"
    using step_open [OF s b(1)] t i by (simp add: scan_feed_append feed_space [OF w])
  also have "\<dots> = keep (b # w @ inner @ [e]) s" by (simp add: keep_commutes capture_commutes)
  finally show ?thesis .
qed

lemma feed_value:
  "jv_ok v \<Longrightarrow> in_value s \<Longrightarrow> depth_ok (sn_depth s) v \<Longrightarrow> scan_feed json (render v) s = keep (render v) s"
proof (induction v arbitrary: s)
  case (JAtom a)
  then show ?case by (simp add: feed_plain in_value_def)
next
  case (JString b)
  then show ?case by (simp add: feed_quoted)
next
  case (JArr gap vs)
  have one: "1 < Suc (sn_depth s)" using JArr.prems(2) by (simp add: in_value_def)
  let ?m = "\<lambda>x. it_before x @ render (it_value x) @ it_after x"
  have item: "scan_feed json (?m x) t = keep (?m x) t"
    if x: "x \<in> set vs" and t: "in_value t" "sn_depth t = Suc (sn_depth s)" for x and t :: "'a scan"
  proof -
    have ok: "list_all plain_byte (it_before x)" "list_all plain_byte (it_after x)" "jv_ok (it_value x)" "depth_ok (sn_depth t) (it_value x)"
      using JArr.prems x t(2) by (auto simp: list_all_iff)
    have "it_value x \<in> set_item x" by (cases x) simp
    from JArr.IH [OF x this ok(3), of "keep (it_before x) t"] ok t(1) show ?thesis
      by (simp add: scan_feed_append feed_space)
  qed
  have "scan_feed json (CHR ''['' # gap @ join_with '','' (map ?m vs) @ [CHR '']'']) s
      = keep (CHR ''['' # gap @ join_with '','' (map ?m vs) @ [CHR '']'']) s"
  proof (rule feed_bracketed [OF _ JArr.prems(2)])
    fix t :: "'a scan" assume t: "in_value t" "sn_depth t = Suc (sn_depth s)"
    show "scan_feed json (join_with '','' (map ?m vs)) t = keep (join_with '','' (map ?m vs)) t"
      by (rule feed_joined [OF _ _ t]) (use item one in \<open>auto simp: step_nested\<close>)
  qed (use JArr.prems in auto)
  then show ?case by simp
next
  case (JObj gap ms)
  have one: "1 < Suc (sn_depth s)" using JObj.prems(2) by (simp add: in_value_def)
  let ?m = "\<lambda>x. fd_before x @ quoted (fd_key x) @ fd_after_key x @ '':'' @ fd_after_colon x @ render (fd_value x) @ fd_after x"
  have member: "scan_feed json (?m x) t = keep (?m x) t"
    if x: "x \<in> set ms" and t: "in_value t" "sn_depth t = Suc (sn_depth s)" for x and t :: "'a scan"
  proof -
    have ok: "spaces_ok x" "str_ok (fd_key x)" "jv_ok (fd_value x)" "depth_ok (sn_depth t) (fd_value x)"
      using JObj.prems x t(2) by (auto simp: list_all_iff)
    have sp: "list_all plain_byte (fd_before x)" "list_all plain_byte (fd_after_key x)"
      "list_all plain_byte (fd_after_colon x)" "list_all plain_byte (fd_after x)" using ok(1) by (simp_all add: spaces_ok_def)
    have k: "scan_feed json (quoted (fd_key x)) u = keep (quoted (fd_key x)) u" if "in_value u" for u :: "'a scan"
      using feed_quoted [OF ok(2) that] .
    have c: "step json (CHR '':'') u = capture (CHR '':'') u" if "in_value u" "sn_depth u = sn_depth t" for u :: "'a scan"
      using step_nested [OF that(1)] that(2) t(2) one by simp
    have "fd_value x \<in> set_field x" by (cases x) simp
    then have v: "scan_feed json (render (fd_value x)) u = keep (render (fd_value x)) u" if "in_value u" "sn_depth u = sn_depth t" for u :: "'a scan"
      using JObj.IH [OF x _ ok(3) that(1)] ok(4) that(2) by simp
    show ?thesis using t(1) by (simp add: scan_feed_append feed_space sp k c v)
  qed
  have "scan_feed json (CHR ''{'' # gap @ join_with '','' (map ?m ms) @ [CHR ''}'']) s
      = keep (CHR ''{'' # gap @ join_with '','' (map ?m ms) @ [CHR ''}'']) s"
  proof (rule feed_bracketed [OF _ JObj.prems(2)])
    fix t :: "'a scan" assume t: "in_value t" "sn_depth t = Suc (sn_depth s)"
    show "scan_feed json (join_with '','' (map ?m ms)) t = keep (join_with '','' (map ?m ms)) t"
      by (rule feed_joined [OF _ _ t]) (use member one in \<open>auto simp: step_nested\<close>)
  qed (use JObj.prems in auto)
  then show ?case by simp
qed


text \<open>Between two members of the top-level object: a key is awaited and no id is being kept.\<close>

definition at_key :: "'v scan \<Rightarrow> bool" where
  "at_key s \<longleftrightarrow>
     sn_object s \<and> sn_depth s = 1 \<and> sn_member s = Key \<and> \<not> sn_in_string s \<and> \<not> sn_escaped s \<and> sn_capture s = None"

definition member_text :: "jv field \<Rightarrow> string" where
  "member_text x =
     fd_before x @ quoted (fd_key x) @ fd_after_key x @ '':'' @ fd_after_colon x @ render (fd_value x) @ fd_after x"

text \<open>The bytes between a member's colon and the comma or bracket after it.\<close>

definition raw_value :: "jv field \<Rightarrow> string" where
  "raw_value x = fd_after_colon x @ render (fd_value x) @ fd_after x"

definition read_member :: "(string \<Rightarrow> 'v option) \<Rightarrow> jv field \<Rightarrow> 'v scan \<Rightarrow> 'v scan" where
  "read_member json x s =
     s\<lparr>sn_key := take KEY_CAPTURE_BYTES (fd_key x),
       sn_id := (if fd_key x = ''id'' \<and> length (raw_value x) \<le> ID_CAPTURE_BYTES then json (raw_value x) else sn_id s),
       sn_id_seen := (sn_id_seen s \<or> fd_key x = ''id''),
       sn_method := (sn_method s \<or> fd_key x = ''method''),
       sn_outcome := (sn_outcome s \<or> fd_key x = ''result'' \<or> fd_key x = ''error'')\<rparr>"

lemma keep_none: "sn_capture s = None \<Longrightarrow> keep bs s = s"
  by (induction bs) (simp_all add: capture_def)

lemma keep_some:
  "sn_capture s = Some raw \<Longrightarrow> length raw \<le> ID_CAPTURE_BYTES \<Longrightarrow>
     keep bs s = s\<lparr>sn_capture := (if length raw + length bs \<le> ID_CAPTURE_BYTES then Some (raw @ bs) else None)\<rparr>"
proof (induction bs arbitrary: s raw)
  case (Cons b bs)
  show ?case
  proof (cases "length raw < ID_CAPTURE_BYTES")
    case True
    have "keep bs (s\<lparr>sn_capture := Some (raw @ [b])\<rparr>) =
        s\<lparr>sn_capture := (if length (raw @ [b]) + length bs \<le> ID_CAPTURE_BYTES then Some ((raw @ [b]) @ bs) else None)\<rparr>"
      using Cons.IH [of "s\<lparr>sn_capture := Some (raw @ [b])\<rparr>" "raw @ [b]"] True by simp
    then show ?thesis using Cons.prems(1) True by (simp add: capture_def)
  next
    case False
    then show ?thesis using Cons.prems by (simp add: capture_def keep_none)
  qed
qed (cases s, simp)

lemma take_key: "length x < KEY_CAPTURE_BYTES \<Longrightarrow> take KEY_CAPTURE_BYTES k = x \<longleftrightarrow> k = x"
  by (metis length_take min_less_iff_conj nat_less_le not_less take_all)

lemma feed_key_body:
  "str_ok b \<Longrightarrow> sn_object s \<Longrightarrow> sn_depth s = 1 \<Longrightarrow> sn_in_string s \<Longrightarrow> \<not> sn_escaped s \<Longrightarrow> sn_member s = InKey \<Longrightarrow>
     length (sn_key s) \<le> KEY_CAPTURE_BYTES \<Longrightarrow>
     scan_feed json b s = s\<lparr>sn_key := sn_key s @ take (KEY_CAPTURE_BYTES - length (sn_key s)) b\<rparr>"
proof (induction b arbitrary: s rule: str_ok.induct)
  case (1 s)
  then show ?case by (cases s) simp
next
  case (2 c s)
  then show ?case
    by (cases s) (auto simp: step_def step_in_string_def at_top_level_def Let_def take_Suc_conv_app_nth Suc_diff_le take_Cons')
next
  case (3 c d b)
  let ?key = "sn_key s" and ?room = "KEY_CAPTURE_BYTES - length (sn_key s)"
  have one: "step json c s = s\<lparr>sn_key := ?key @ take ?room [c]\<rparr>" if "c \<noteq> CHR 0x5C" "c \<noteq> QUOTE"
    using that 3(4-9) by (cases s) (auto simp: step_def step_in_string_def at_top_level_def Let_def take_Cons')
  have two: "step json d (step json (CHR 0x5C) s) = s\<lparr>sn_key := ?key @ take ?room [CHR 0x5C, d]\<rparr>"
    using 3(4-9) by (cases s) (auto simp: step_def step_in_string_def at_top_level_def Let_def take_Cons')
  show ?case
  proof (cases "c = CHR 0x5C")
    case True
    let ?s = "s\<lparr>sn_key := ?key @ take ?room [CHR 0x5C, d]\<rparr>"
    have "scan_feed json b ?s = ?s\<lparr>sn_key := sn_key ?s @ take (KEY_CAPTURE_BYTES - length (sn_key ?s)) b\<rparr>"
      by (rule 3(1)) (use True 3(3-9) in auto)
    then show ?thesis using True two by (auto simp: take_Cons')
  next
    case False
    let ?s = "s\<lparr>sn_key := ?key @ take ?room [c]\<rparr>"
    have "scan_feed json (d # b) ?s = ?s\<lparr>sn_key := sn_key ?s @ take (KEY_CAPTURE_BYTES - length (sn_key ?s)) (d # b)\<rparr>"
      by (rule 3(2)) (use False 3(3-9) in auto)
    then show ?thesis using False 3(3) one by (auto simp: take_Cons')
  qed
qed

lemma feed_key:
  assumes "str_ok k" "at_key s"
  shows "scan_feed json (quoted k) s = s\<lparr>sn_key := take KEY_CAPTURE_BYTES k, sn_member := Colon\<rparr>"
proof -
  let ?s = "s\<lparr>sn_in_string := True, sn_member := InKey, sn_key := []\<rparr>"
  have "step json QUOTE s = ?s" using assms(2) by (simp add: step_def at_key_def at_top_level_def Let_def)
  moreover have "scan_feed json k ?s = ?s\<lparr>sn_key := take KEY_CAPTURE_BYTES k\<rparr>"
    using feed_key_body [OF assms(1), of ?s json] assms(2) by (simp add: at_key_def)
  ultimately show ?thesis
    using assms(2)
    by (cases s) (simp add: quoted_def scan_feed_append step_def step_in_string_def at_top_level_def at_key_def Let_def)
qed

definition member_ok :: "jv field \<Rightarrow> bool" where
  "member_ok x \<longleftrightarrow> spaces_ok x \<and> str_ok (fd_key x) \<and> jv_ok (fd_value x) \<and> depth_ok 1 (fd_value x)"

text \<open>A member read up to what follows it.\<close>

lemma feed_member:
  fixes json :: "string \<Rightarrow> 'a option"
  assumes x: "member_ok x" and s: "at_key s"
  defines "t \<equiv> scan_feed json (member_text x) s"
  shows "(end_member json t)\<lparr>sn_member := Key\<rparr> = read_member json x s" "in_value t" "sn_depth t = 1"
proof -
  have sp: "list_all plain_byte (fd_before x)" "list_all plain_byte (fd_after_key x)"
    "list_all plain_byte (fd_after_colon x)" "list_all plain_byte (fd_after x)"
    and kv: "str_ok (fd_key x)" "jv_ok (fd_value x)" "depth_ok 1 (fd_value x)"
    using x by (simp_all add: member_ok_def spaces_ok_def)
  let ?k = "s\<lparr>sn_key := take KEY_CAPTURE_BYTES (fd_key x), sn_member := Colon\<rparr>"
  let ?v = "begin_value ?k"
  have b: "scan_feed json (fd_before x) s = s" using s feed_plain [OF sp(1), of s json] by (simp add: at_key_def keep_none)
  have k: "scan_feed json (fd_after_key x) ?k = ?k"
    using s feed_plain [OF sp(2), of ?k json] by (simp add: at_key_def keep_none)
  have c: "step json (CHR '':'') ?k = ?v" using s by (simp add: step_def at_key_def at_top_level_def)
  have v: "in_value ?v" "sn_depth ?v = 1"
    using s by (simp_all add: in_value_def begin_value_def at_key_def Let_def)
  have "scan_feed json (render (fd_value x)) (keep (fd_after_colon x) ?v) = keep (render (fd_value x)) (keep (fd_after_colon x) ?v)"
    using feed_value [OF kv(2), of "keep (fd_after_colon x) ?v"] v kv(3) by simp
  then have t: "t = keep (raw_value x) ?v"
    using v feed_key [OF kv(1) s, of json] k c b
    by (simp add: t_def member_text_def raw_value_def scan_feed_append feed_space sp)
  show "in_value t" "sn_depth t = 1" using t v by simp_all
  show "(end_member json t)\<lparr>sn_member := Key\<rparr> = read_member json x s"
  proof (cases "fd_key x = ''id''")
    case True
    then have "sn_key ?k = ''id''" by (simp add: KEY_CAPTURE_BYTES_def)
    then have b: "?v = ?k\<lparr>sn_member := Value, sn_id_seen := True, sn_capture := Some []\<rparr>" by (simp add: begin_value_def Let_def)
    have "t = ?v\<lparr>sn_capture := (if length (raw_value x) \<le> ID_CAPTURE_BYTES then Some (raw_value x) else None)\<rparr>"
      using keep_some [of ?v "[]"] unfolding t b by simp
    then show ?thesis
      using s True unfolding b by (cases s) (simp add: end_member_def read_member_def at_key_def)
  next
    case False
    have key: "sn_key ?k = y \<longleftrightarrow> fd_key x = y" if "length y < KEY_CAPTURE_BYTES" for y
      using take_key [OF that] by simp
    have n: "sn_capture ?v = None" using s False key [of "''id''"] by (simp add: begin_value_def Let_def at_key_def KEY_CAPTURE_BYTES_def)
    then have "t = ?v" using t by (simp add: keep_none)
    then show ?thesis
      using s False n key [of "''id''"] key [of "''method''"] key [of "''result''"] key [of "''error''"]
      by (cases s) (simp add: end_member_def read_member_def begin_value_def at_key_def KEY_CAPTURE_BYTES_def Let_def)
  qed
qed

lemma read_member_at_key: "at_key s \<Longrightarrow> at_key (read_member json x s)"
  by (simp add: at_key_def read_member_def)

lemma feed_members:
  fixes json :: "string \<Rightarrow> 'a option"
  shows "list_all member_ok ms \<Longrightarrow> at_key s \<Longrightarrow>
     (scan_feed json (join_with '','' (map member_text ms) @ ''}'') s)\<lparr>sn_member := Key\<rparr>
       = (fold (read_member json) ms s)\<lparr>sn_depth := 0\<rparr>"
proof (induction ms arbitrary: s rule: induct_list012)
  case 1
  then show ?case
    by (cases s) (simp add: step_def at_key_def at_top_level_def end_member_def Let_def)
next
  case (2 x)
  let ?t = "scan_feed json (member_text x) s"
  have x: "member_ok x" using 2(1) by simp
  note m = feed_member [OF x 2(2), of json]
  have "step json (CHR ''}'') ?t = (end_member json ?t)\<lparr>sn_depth := 0\<rparr>"
    using m(2,3) by (simp add: step_def in_value_def at_top_level_def Let_def end_member_def split: option.splits)
  then have "(scan_feed json (join_with '','' (map member_text [x]) @ ''}'') s)\<lparr>sn_member := Key\<rparr>
      = ((end_member json ?t)\<lparr>sn_member := Key\<rparr>)\<lparr>sn_depth := 0\<rparr>"
    by (simp add: scan_feed_append)
  then show ?case unfolding m(1) by simp
next
  case (3 x y ms)
  let ?t = "scan_feed json (member_text x) s"
  have x: "member_ok x" using 3(3) by simp
  note m = feed_member [OF x 3(4), of json]
  let ?n = "read_member json x s"
  have n: "at_key ?n" using 3(4) by (rule read_member_at_key)
  have c: "step json (CHR '','') ?t = ?n"
    using m by (simp add: step_def in_value_def at_top_level_def)
  then have "scan_feed json (join_with '','' (map member_text (x # y # ms)) @ ''}'') s
      = scan_feed json (join_with '','' (map member_text (y # ms)) @ ''}'') ?n"
    by (simp add: scan_feed_append)
  then show ?case using 3(2) [OF _ n] 3(3) by simp
qed

text \<open>What the members leave in the scan, key by key.\<close>

lemma read_member_fields [simp]:
  "sn_id_seen (read_member json x s) = (sn_id_seen s \<or> fd_key x = ''id'')"
  "sn_method (read_member json x s) = (sn_method s \<or> fd_key x = ''method'')"
  "sn_outcome (read_member json x s) = (sn_outcome s \<or> fd_key x = ''result'' \<or> fd_key x = ''error'')"
  "sn_capture (read_member json x s) = sn_capture s"
  "sn_in_string (read_member json x s) = sn_in_string s"
  "sn_id (read_member json x s) =
     (if fd_key x = ''id'' \<and> length (raw_value x) \<le> ID_CAPTURE_BYTES then json (raw_value x) else sn_id s)"
  by (simp_all add: read_member_def)

lemma fold_read_flags:
  "sn_id_seen (fold (read_member json) ms s) = (sn_id_seen s \<or> ''id'' \<in> fd_key ` set ms)"
  "sn_method (fold (read_member json) ms s) = (sn_method s \<or> ''method'' \<in> fd_key ` set ms)"
  "sn_outcome (fold (read_member json) ms s) = (sn_outcome s \<or> ''result'' \<in> fd_key ` set ms \<or> ''error'' \<in> fd_key ` set ms)"
  "sn_capture (fold (read_member json) ms s) = sn_capture s"
  "sn_in_string (fold (read_member json) ms s) = sn_in_string s"
  by (induction ms arbitrary: s) (simp_all del: fun_upd_apply, metis+)

lemma fold_read_id_other: "''id'' \<notin> fd_key ` set ms \<Longrightarrow> sn_id (fold (read_member json) ms s) = sn_id s"
  by (induction ms arbitrary: s) auto

lemma fold_read_id:
  "distinct (map fd_key ms) \<Longrightarrow>
     sn_id (fold (read_member json) ms s) =
       (case find (\<lambda>x. fd_key x = ''id'') ms of
          None \<Rightarrow> sn_id s
        | Some x \<Rightarrow> if length (raw_value x) \<le> ID_CAPTURE_BYTES then json (raw_value x) else sn_id s)"
proof (induction ms arbitrary: s)
  case (Cons x ms)
  show ?case
  proof (cases "fd_key x = ''id''")
    case True
    then have "''id'' \<notin> fd_key ` set ms" using Cons.prems by auto
    then show ?thesis using True by (simp add: fold_read_id_other)
  next
    case False
    then show ?thesis using Cons.IH [of "read_member json x s"] Cons.prems by (simp split: option.splits)
  qed
qed simp

text \<open>
  C16: a dropped line is told apart by its own top-level keys. For a JSON object a client may
  write, with distinct keys in any order, any white space at each place that allows it, each
  place its own, and whatever keys and brackets its strings and nested values hold (nested
  less than 2 to the 32 deep): a message with a method and no id is a notification, one
  without a method but with a result or an error is a response, and everything else is a
  request, with the id the member of that name carries, when its text, the white space
  around it included, is at most \<open>ID_CAPTURE_BYTES\<close> long.
\<close>

theorem oversized_kind_reads_members:
  assumes "list_all member_ok ms" "distinct (map fd_key ms)"
    and "list_all plain_byte lead" "list_all plain_byte gap" "list_all plain_byte tail"
  shows "scan_kind json (scan_feed json (lead @ render (JObj gap ms) @ tail) default_scan) =
    (if ''method'' \<in> fd_key ` set ms \<and> ''id'' \<notin> fd_key ` set ms then Notification
     else if ''method'' \<notin> fd_key ` set ms \<and> (''result'' \<in> fd_key ` set ms \<or> ''error'' \<in> fd_key ` set ms) then Response
     else Request
       (case find (\<lambda>x. fd_key x = ''id'') ms of
          None \<Rightarrow> None
        | Some x \<Rightarrow> if length (raw_value x) \<le> ID_CAPTURE_BYTES then json (raw_value x) else None))"
proof -
  let ?d = "default_scan :: 'a scan"
  let ?s = "?d\<lparr>sn_object := True, sn_depth := 1\<rparr>"
  have r: "render (JObj gap ms) = ''{'' @ gap @ (join_with '','' (map member_text ms) @ ''}'')"
    by (simp add: member_text_def [abs_def])
  have l: "scan_feed json lead ?d = ?d" using feed_plain [OF assms(3), of ?d json] by (simp add: keep_none default_scan_def)
  have b: "step json (CHR ''{'') ?d = ?s" by (simp add: step_def default_scan_def u32_max_def Let_def)
  have at: "at_key ?s" by (simp add: at_key_def default_scan_def)
  have sw: "scan_feed json gap ?s = ?s" using feed_plain [OF assms(4), of ?s json] at by (simp add: keep_none at_key_def)
  let ?e = "scan_feed json (join_with '','' (map member_text ms) @ ''}'') ?s"
  let ?f = "fold (read_member json) ms ?s"
  have e: "?e\<lparr>sn_member := Key\<rparr> = ?f\<lparr>sn_depth := 0\<rparr>" using feed_members [OF assms(1) at] .
  note f = fold_read_flags [of json ms ?s] fold_read_id [OF assms(2), of json ?s]
  have same: "sn_id_seen ?e = sn_id_seen ?f" "sn_method ?e = sn_method ?f" "sn_outcome ?e = sn_outcome ?f"
    "sn_capture ?e = sn_capture ?f" "sn_id ?e = sn_id ?f" "sn_in_string ?e = sn_in_string ?f"
    using arg_cong [OF e, of sn_id_seen] arg_cong [OF e, of sn_method] arg_cong [OF e, of sn_outcome]
      arg_cong [OF e, of sn_capture] arg_cong [OF e, of sn_id] arg_cong [OF e, of sn_in_string] by simp_all
  have none: "sn_capture ?e = None" "\<not> sn_in_string ?e" using same f by (simp_all add: default_scan_def)
  then have t: "scan_feed json tail ?e = ?e" using feed_plain [OF assms(5), of ?e json] by (simp add: keep_none)
  have fields: "sn_id_seen ?f = (''id'' \<in> fd_key ` set ms)" "sn_method ?f = (''method'' \<in> fd_key ` set ms)"
    "sn_outcome ?f = (''result'' \<in> fd_key ` set ms \<or> ''error'' \<in> fd_key ` set ms)"
    "sn_id ?f = (case find (\<lambda>x. fd_key x = ''id'') ms of None \<Rightarrow> None
        | Some x \<Rightarrow> if length (raw_value x) \<le> ID_CAPTURE_BYTES then json (raw_value x) else None)"
    unfolding f by (simp_all add: default_scan_def split: option.splits)
  have whole: "scan_feed json (lead @ render (JObj gap ms) @ tail) ?d = ?e"
    unfolding r scan_feed_append l using b sw t by (simp add: scan_feed_append)
  have kind: "scan_kind json ?e = (if sn_method ?e \<and> \<not> sn_id_seen ?e then Notification
      else if \<not> sn_method ?e \<and> sn_outcome ?e then Response else Request (sn_id ?e))"
    using none by (simp add: scan_kind_def end_member_def Let_def)
  show ?thesis unfolding whole kind same fields by (rule refl)
qed

text \<open>A request with a nested id, a bracket in a string and uneven white space.\<close>

theorem oversized_kind_reads_members_witness:
  "scan_kind Some (scan_feed Some
      (''{ \"params\": {\"id\" :[1, \"}\" ]} , \"method\":\"call\",  \"id\" : 7}'' @ [LF]) default_scan)
    = Request (Some '' 7'')"
proof -
  let ?ms = "[Field [] ''params'' [] '' ''
        (JObj [] [Field [] ''id'' '' '' [] (JArr [] [Item [] (JAtom ''1'') [], Item '' '' (JString ''}'') '' '']) []]) '' '',
      Field '' '' ''method'' [] [] (JString ''call'') [], Field ''  '' ''id'' '' '' '' '' (JAtom ''7'') []]"
  have "list_all member_ok ?ms" by (simp add: member_ok_def spaces_ok_def plain_byte_def u32_max_def)
  from oversized_kind_reads_members [OF this, of "[]" "'' ''" "[LF]" Some]
  show ?thesis by (simp add: plain_byte_def quoted_def ID_CAPTURE_BYTES_def raw_value_def)
qed

end
