(* ===== verification/Folders.thy ===== *)
theory Folders
  imports LinkSyntax Maps "HOL-Library.Product_Lexorder"
begin

text \<open>
  Folder names that are close to each other, \<open>core/src/folders.rs\<close>: the matcher behind the
  write receipt's hint, the counts of engrams per folder and the folder a write created.
  Unicode lower-casing is a parameter; a name is cut into characters where the code counts
  characters.
\<close>

definition CLOSE_FOLDER_LIMIT :: nat where "CLOSE_FOLDER_LIMIT = 3"

datatype closeness = Equal | Words | Distance nat

text \<open>The derived order of \<open>Closeness\<close>: closest first.\<close>

definition closeness_rank :: "closeness \<Rightarrow> nat" where
  "closeness_rank c = (case c of Equal \<Rightarrow> 0 | Words \<Rightarrow> 1 | Distance d \<Rightarrow> Suc (Suc d))"

instantiation closeness :: linorder
begin

definition less_eq_closeness :: "closeness \<Rightarrow> closeness \<Rightarrow> bool" where
  "less_eq_closeness a b \<longleftrightarrow> closeness_rank a \<le> closeness_rank b"

definition less_closeness :: "closeness \<Rightarrow> closeness \<Rightarrow> bool" where
  "less_closeness a b \<longleftrightarrow> closeness_rank a < closeness_rank b"

instance
proof
  fix a b :: closeness
  assume "a \<le> b" "b \<le> a"
  then show "a = b"
    by (cases a; cases b) (auto simp: less_eq_closeness_def closeness_rank_def)
qed (auto simp: less_eq_closeness_def less_closeness_def)

end

definition describe :: "closeness \<Rightarrow> string" where
  "describe c =
     (case c of
        Equal \<Rightarrow> ''equal apart from case and separators''
      | Words \<Rightarrow> ''one name is the other plus a word''
      | Distance d \<Rightarrow> nat_str d @ '' '' @ (if d = 1 then ''edit'' else ''edits'') @ '' apart'')"

definition folder_name :: "string \<Rightarrow> string" where
  "folder_name folder = last (split_on (CHR ''/'') folder)"

definition folder_parent :: "string \<Rightarrow> string" where
  "folder_parent folder = (case rsplit_once (CHR ''/'') folder of Some (parent, _) \<Rightarrow> parent | None \<Rightarrow> [])"

definition word_break :: "char \<Rightarrow> bool" where
  "word_break c \<longleftrightarrow> c \<in> {CHR ''-'', CHR ''_'', CHR ''.'', CHR '' ''}"

definition words :: "(string \<Rightarrow> string) \<Rightarrow> string \<Rightarrow> string list" where
  "words lower name =
     filter (\<lambda>w. w \<noteq> []) (split_on (CHR ''-'') (map (\<lambda>c. if word_break c then CHR ''-'' else c) (lower name)))"

definition fold_name :: "(string \<Rightarrow> string) \<Rightarrow> string \<Rightarrow> string" where
  "fold_name lower name = join_with ''-'' (words lower name)"

section \<open>The distance of two names\<close>

text \<open>The matrix is a list of rows, its cells written in the order of the loops.\<close>

definition set_cell :: "nat list list \<Rightarrow> nat \<Rightarrow> nat \<Rightarrow> nat \<Rightarrow> nat list list" where
  "set_cell d i j v = d[i := (d ! i)[j := v]]"

definition osa_cell :: "'a list \<Rightarrow> 'a list \<Rightarrow> nat list list \<Rightarrow> nat \<Rightarrow> nat \<Rightarrow> nat" where
  "osa_cell a b d i j =
     (let cost = (if a ! (i - 1) \<noteq> b ! (j - 1) then 1 else 0);
          best = min (min (d ! (i - 1) ! j + 1) (d ! i ! (j - 1) + 1)) (d ! (i - 1) ! (j - 1) + cost)
      in if i > 1 \<and> j > 1 \<and> a ! (i - 1) = b ! (j - 2) \<and> a ! (i - 2) = b ! (j - 1)
         then min best (d ! (i - 2) ! (j - 2) + 1) else best)"

definition osa_start :: "nat \<Rightarrow> nat \<Rightarrow> nat list list" where
  "osa_start n m =
     (let d = map (\<lambda>i. (replicate (m + 1) 0)[0 := i]) [0..<n + 1]
      in d[0 := [0..<m + 1]])"

definition osa_row :: "'a list \<Rightarrow> 'a list \<Rightarrow> nat \<Rightarrow> nat list list \<Rightarrow> nat list list" where
  "osa_row a b i d = fold (\<lambda>j d. set_cell d i j (osa_cell a b d i j)) [1..<length b + 1] d"

definition osa_distance :: "'a list \<Rightarrow> 'a list \<Rightarrow> nat" where
  "osa_distance a b = fold (osa_row a b) [1..<length a + 1] (osa_start (length a) (length b)) ! length a ! length b"

definition without_digits :: "string \<Rightarrow> string" where
  "without_digits s = filter (\<lambda>c. \<not> is_ascii_digit c) s"

definition closeness_of :: "(string \<Rightarrow> string) \<Rightarrow> string \<Rightarrow> string \<Rightarrow> closeness option" where
  "closeness_of lower a b =
     (let a = folder_name a; b = folder_name b; wa = words lower a; wb = words lower b;
          fa = join_with ''-'' wa; fb = join_with ''-'' wb
      in if a = b then None
         else if fa = [] \<or> fb = [] then None
         else if fa = fb then Some Equal
         else
           (let (short, long, short_folded) = (if length wa \<le> length wb then (wa, wb, fa) else (wb, wa, fb))
            in if length short < length long \<and> length (chars short_folded) \<ge> 3 \<and> (starts_with short long \<or> ends_with short long)
               then Some Words
               else
                 (let shorter = min (length (chars fa)) (length (chars fb))
                  in if shorter < 4 \<or> without_digits fa = without_digits fb then None
                     else
                       (let allowed = (if shorter \<ge> 8 then 2 else 1); distance = osa_distance (chars fa) (chars fb)
                        in if distance \<le> allowed then Some (Distance distance) else None))))"

record close_folder =
  cf_folder :: string
  cf_engrams :: nat

definition close_folders :: "(string \<Rightarrow> string) \<Rightarrow> string \<Rightarrow> (string \<times> nat) list \<Rightarrow> close_folder list" where
  "close_folders lower new_folder existing =
     (let found = List.map_filter
            (\<lambda>(folder, count). map_option (\<lambda>c. (c, folder, count)) (closeness_of lower new_folder folder))
            (filter (\<lambda>(folder, _). folder \<noteq> new_folder) existing)
      in map (\<lambda>(_, folder, engrams). \<lparr>cf_folder = folder, cf_engrams = engrams\<rparr>)
           (take CLOSE_FOLDER_LIMIT (sort_key (\<lambda>(c, folder, count). (c, - int count, folder)) found)))"

section \<open>Counting engrams per folder\<close>

text \<open>The folders a folder path lies in, topmost first: the loop over \<open>end\<close>.\<close>

fun level_ends :: "nat \<Rightarrow> string list \<Rightarrow> nat list" where
  "level_ends e [] = []"
| "level_ends e (segment # rest) = (e + length segment) # level_ends (e + length segment + 1) rest"

definition levels :: "string \<Rightarrow> string list" where
  "levels folder = map (\<lambda>e. take e folder) (level_ends 0 (split_on (CHR ''/'') folder))"

definition count_one :: "string \<Rightarrow> (string \<times> nat) list \<Rightarrow> (string \<times> nat) list" where
  "count_one level counts = bt_insert level ((case map_of counts level of Some n \<Rightarrow> n | None \<Rightarrow> 0) + 1) counts"

definition count_path :: "string \<Rightarrow> (string \<times> nat) list \<Rightarrow> (string \<times> nat) list" where
  "count_path path counts =
     (if is_reserved_path path then counts
      else (case rsplit_once (CHR ''/'') path of
              None \<Rightarrow> counts
            | Some (folder, _) \<Rightarrow> fold count_one (levels folder) counts))"

definition folder_counts :: "string list \<Rightarrow> (string \<times> nat) list" where
  "folder_counts paths = fold count_path paths []"

definition created_folder :: "string \<Rightarrow> (string \<times> nat) list \<Rightarrow> string option" where
  "created_folder path counts =
     (case rsplit_once (CHR ''/'') path of
        None \<Rightarrow> None
      | Some (folder, _) \<Rightarrow> find (\<lambda>level. map_of counts level = Some 1) (levels folder))"

definition sibling_folders :: "string \<Rightarrow> (string \<times> nat) list \<Rightarrow> (string \<times> nat) list" where
  "sibling_folders folder counts =
     filter (\<lambda>(f, _). f \<noteq> folder \<and> folder_parent f = folder_parent folder) counts"

section \<open>The distance is the cheapest series of edits\<close>

text \<open>A series of edits, each at the end of what the ones before it made.\<close>

inductive edits :: "'a list \<Rightarrow> 'a list \<Rightarrow> nat \<Rightarrow> bool" where
  nothing: "edits [] [] 0"
| keep: "edits a b k \<Longrightarrow> edits (a @ [x]) (b @ [x]) k"
| substitute: "edits a b k \<Longrightarrow> edits (a @ [x]) (b @ [y]) (Suc k)"
| insert: "edits a b k \<Longrightarrow> edits a (b @ [y]) (Suc k)"
| delete: "edits a b k \<Longrightarrow> edits (a @ [x]) b (Suc k)"
| swap: "edits a b k \<Longrightarrow> edits (a @ [x, y]) (b @ [y, x]) (Suc k)"

text \<open>The recurrence on reversed prefixes.\<close>

fun osa_rec :: "'a list \<Rightarrow> 'a list \<Rightarrow> nat" where
  "osa_rec [] ys = length ys"
| "osa_rec (x # xs) [] = Suc (length xs)"
| "osa_rec (x # xs) (y # ys) =
     (let best = min (min (osa_rec xs (y # ys) + 1) (osa_rec (x # xs) ys + 1)) (osa_rec xs ys + (if x \<noteq> y then 1 else 0))
      in case (xs, ys) of
           (x' # xs', y' # ys') \<Rightarrow> if x = y' \<and> x' = y then min best (osa_rec xs' ys' + 1) else best
         | _ \<Rightarrow> best)"

lemma osa_rec_Nil [simp]: "osa_rec xs [] = length xs"
  by (cases xs) simp_all

lemma edits_inserts: "edits [] ys (length ys)"
proof (induction ys rule: rev_induct)
  case (snoc y ys)
  then show ?case using edits.insert [of "[]" ys] by simp
qed (simp add: edits.nothing)

lemma edits_deletes: "edits xs [] (length xs)"
proof (induction xs rule: rev_induct)
  case (snoc x xs)
  then show ?case using edits.delete [of xs "[]"] by simp
qed (simp add: edits.nothing)

lemma edits_min: "edits a b j \<Longrightarrow> edits a b k \<Longrightarrow> edits a b (min j k)"
  by (simp add: min_def)

lemma at_most_best:
  "(case (xs, ys) of (x' # xs', y' # ys') \<Rightarrow> if f x' y' then min b (g xs' ys') else b | _ \<Rightarrow> b) \<le> (b :: nat)"
  by (simp split: list.split)

lemma best_of_no_swap:
  "\<nexists>x' xs' y' ys'. xs = x' # xs' \<and> ys = y' # ys' \<and> f x' y' \<Longrightarrow>
     (case (xs, ys) of (x' # xs', y' # ys') \<Rightarrow> if f x' y' then min b (g xs' ys') else b | _ \<Rightarrow> b) = (b :: nat)"
  by (auto split: list.split)

lemma osa_rec_edits: "edits (rev xs) (rev ys) (osa_rec xs ys)"
proof (induction xs ys rule: osa_rec.induct)
  case (1 ys)
  then show ?case using edits_inserts [of "rev ys"] by simp
next
  case (2 x xs)
  then show ?case using edits_deletes [of "rev (x # xs)"] by simp
next
  case (3 x xs y ys)
  let ?best = "min (min (osa_rec xs (y # ys) + 1) (osa_rec (x # xs) ys + 1)) (osa_rec xs ys + (if x \<noteq> y then 1 else 0))"
  have d: "edits (rev (x # xs)) (rev (y # ys)) (osa_rec xs (y # ys) + 1)" using edits.delete [OF 3(1)] by simp
  have i: "edits (rev (x # xs)) (rev (y # ys)) (osa_rec (x # xs) ys + 1)" using edits.insert [OF 3(2)] by simp
  have s: "edits (rev (x # xs)) (rev (y # ys)) (osa_rec xs ys + (if x \<noteq> y then 1 else 0))"
    using edits.substitute [OF 3(3)] edits.keep [OF 3(3)] by simp
  have b: "edits (rev (x # xs)) (rev (y # ys)) ?best" by (intro edits_min d i s)
  show ?case
  proof (cases "\<exists>x' xs' y' ys'. xs = x' # xs' \<and> ys = y' # ys' \<and> x = y' \<and> x' = y")
    case True
    then obtain x' xs' y' ys' where c: "xs = x' # xs'" "ys = y' # ys'" "x = y'" "x' = y" by blast
    have "edits (rev xs') (rev ys') (osa_rec xs' ys')" using 3(4) [OF refl refl c(1,2)] c(3,4) by blast
    then have w: "edits (rev (x # xs)) (rev (y # ys)) (osa_rec xs' ys' + 1)"
      using edits.swap [of "rev xs'" "rev ys'" _ x' x] c by simp
    have "osa_rec (x # xs) (y # ys) = min ?best (osa_rec xs' ys' + 1)" 
      by (subst osa_rec.simps(3)) (simp only: c Let_def prod.case list.case simp_thms if_True)
    then show ?thesis using b w by (simp add: min_def)
  next
    case False
    then have "osa_rec (x # xs) (y # ys) = ?best"
      unfolding osa_rec.simps(3) Let_def by (intro best_of_no_swap) blast
    then show ?thesis using b by simp
  qed
qed

lemma osa_rec_best:
  "osa_rec (x # xs) (y # ys) \<le>
     min (min (osa_rec xs (y # ys) + 1) (osa_rec (x # xs) ys + 1)) (osa_rec xs ys + (if x \<noteq> y then 1 else 0))"
  unfolding osa_rec.simps(3) Let_def by (rule at_most_best)

lemma osa_rec_delete: "osa_rec (x # xs) ys \<le> Suc (osa_rec xs ys)"
proof (cases ys)
  case (Cons y ys')
  then show ?thesis using osa_rec_best [of x xs y ys'] unfolding min.bounded_iff Suc_eq_plus1 by blast
qed simp

lemma osa_rec_insert: "osa_rec xs (y # ys) \<le> Suc (osa_rec xs ys)"
proof (cases xs)
  case (Cons x xs')
  then show ?thesis using osa_rec_best [of x xs' y ys] unfolding min.bounded_iff Suc_eq_plus1 by blast
qed simp

lemma osa_rec_substitute: "osa_rec (x # xs) (y # ys) \<le> Suc (osa_rec xs ys)"
  using osa_rec_best [of x xs y ys] by (simp del: osa_rec.simps(3) split: if_splits)

lemma osa_rec_keep: "osa_rec (x # xs) (x # ys) \<le> osa_rec xs ys"
  using osa_rec_best [of x xs x ys] by (simp del: osa_rec.simps(3))

lemma osa_rec_swap: "osa_rec (y # x # xs) (x # y # ys) \<le> Suc (osa_rec xs ys)"
  by (subst osa_rec.simps) (simp del: osa_rec.simps add: Let_def)

lemmas osa_rec_step = osa_rec_delete osa_rec_insert osa_rec_substitute osa_rec_keep osa_rec_swap

lemma edits_osa_rec: "edits a b k \<Longrightarrow> osa_rec (rev a) (rev b) \<le> k"
proof (induction rule: edits.induct)
  case (keep a b k x)
  then show ?case using osa_rec_step(4) [of x "rev a" "rev b"] by (simp del: osa_rec.simps)
next
  case (substitute a b k x y)
  then show ?case using osa_rec_step(3) [of x "rev a" y "rev b"] by (simp del: osa_rec.simps)
next
  case (insert a b k y)
  then show ?case using osa_rec_step(2) [of "rev a" y "rev b"] by (simp del: osa_rec.simps)
next
  case (delete a b k x)
  then show ?case using osa_rec_step(1) [of x "rev a" "rev b"] by (simp del: osa_rec.simps)
next
  case (swap a b k x y)
  then show ?case using osa_rec_step(5) [of y x "rev a" "rev b"] by (simp del: osa_rec.simps)
qed simp


section \<open>The matrix holds the distances of the prefixes\<close>

definition prefix_distance :: "'a list \<Rightarrow> 'a list \<Rightarrow> nat \<Rightarrow> nat \<Rightarrow> nat" where
  "prefix_distance a b i j = osa_rec (rev (take i a)) (rev (take j b))"

lemma prefix_distance_edge [simp]:
  "i \<le> length a \<Longrightarrow> prefix_distance a b i 0 = i" "j \<le> length b \<Longrightarrow> prefix_distance a b 0 j = j"
  by (simp_all add: prefix_distance_def)

lemma rev_take_Suc: "i < length a \<Longrightarrow> rev (take (Suc i) a) = a ! i # rev (take i a)"
  by (simp add: take_Suc_conv_app_nth)

lemma prefix_distance_step:
  assumes "i < length a" "j < length b"
  shows "prefix_distance a b (Suc i) (Suc j) =
    (let best = min (min (prefix_distance a b i (Suc j) + 1) (prefix_distance a b (Suc i) j + 1))
                  (prefix_distance a b i j + (if a ! i \<noteq> b ! j then 1 else 0))
     in if 0 < i \<and> 0 < j \<and> a ! i = b ! (j - 1) \<and> a ! (i - 1) = b ! j
        then min best (prefix_distance a b (i - 1) (j - 1) + 1) else best)"
proof -
  have r: "prefix_distance a b (Suc i) (Suc j) = osa_rec (a ! i # rev (take i a)) (b ! j # rev (take j b))"
    "prefix_distance a b i (Suc j) = osa_rec (rev (take i a)) (b ! j # rev (take j b))"
    "prefix_distance a b (Suc i) j = osa_rec (a ! i # rev (take i a)) (rev (take j b))"
    "prefix_distance a b i j = osa_rec (rev (take i a)) (rev (take j b))"
    unfolding prefix_distance_def rev_take_Suc [OF assms(1)] rev_take_Suc [OF assms(2)] by (rule refl)+
  show ?thesis
  proof (cases "0 < i \<and> 0 < j")
    case True
    then have t: "rev (take i a) = a ! (i - 1) # rev (take (i - 1) a)" "rev (take j b) = b ! (j - 1) # rev (take (j - 1) b)"
      using rev_take_Suc [of "i - 1" a] rev_take_Suc [of "j - 1" b] assms by simp_all
    show ?thesis
      unfolding r(1) osa_rec.simps(3) Let_def r(2-4) [symmetric]
      using True unfolding t prefix_distance_def by (simp only: prod.case list.case simp_thms)
  next
    case False
    then have t: "rev (take i a) = [] \<or> rev (take j b) = []" by auto
    show ?thesis
      unfolding r(1) osa_rec.simps(3) Let_def r(2-4) [symmetric]
      using False t by (intro trans [OF best_of_no_swap]) auto
  qed
qed

definition filled :: "'a list \<Rightarrow> 'a list \<Rightarrow> (nat \<Rightarrow> nat \<Rightarrow> bool) \<Rightarrow> nat list list \<Rightarrow> bool" where
  "filled a b ready d \<longleftrightarrow>
     length d = Suc (length a) \<and> (\<forall>i\<le>length a. length (d ! i) = Suc (length b))
     \<and> (\<forall>i\<le>length a. \<forall>j\<le>length b. ready i j \<longrightarrow> d ! i ! j = prefix_distance a b i j)"

definition before :: "nat \<Rightarrow> nat \<Rightarrow> nat \<Rightarrow> nat \<Rightarrow> bool" where
  "before i j i' j' \<longleftrightarrow> i' = 0 \<or> j' = 0 \<or> i' < i \<or> i' = i \<and> j' < j"

lemma filledD: "filled a b ready d \<Longrightarrow> i \<le> length a \<Longrightarrow> j \<le> length b \<Longrightarrow> ready i j \<Longrightarrow> d ! i ! j = prefix_distance a b i j"
  by (simp add: filled_def)

lemma cell_filled:
  assumes "filled a b (before (Suc i) (Suc j)) d" "i < length a" "j < length b"
  shows "osa_cell a b d (Suc i) (Suc j) = prefix_distance a b (Suc i) (Suc j)"
proof -
  have g: "d ! i' ! j' = prefix_distance a b i' j'"
    if "i' \<le> Suc i" "j' \<le> Suc j" "i' \<le> i \<or> j' \<le> j" for i' j'
  proof (rule filledD [OF assms(1)])
    show "before (Suc i) (Suc j) i' j'" unfolding before_def using that by linarith
  qed (use that assms(2,3) in linarith)+
  show ?thesis
    unfolding osa_cell_def prefix_distance_step [OF assms(2,3)]
    using g [of i "Suc j"] g [of "Suc i" j] g [of i j] g [of "i - 1" "j - 1"] by (simp add: Let_def)
qed

lemma set_cell_nth:
  "i < length d \<Longrightarrow> j < length (d ! i) \<Longrightarrow> set_cell d i j v ! i' ! j' = (if i' = i \<and> j' = j then v else d ! i' ! j')"
  "length (set_cell d i j v) = length d" "i < length d \<Longrightarrow> length (set_cell d i j v ! i') = length (d ! i')"
  by (auto simp: set_cell_def nth_list_update)

lemma filled_mono:
  "filled a b P d \<Longrightarrow> (\<And>i j. i \<le> length a \<Longrightarrow> j \<le> length b \<Longrightarrow> Q i j \<Longrightarrow> P i j) \<Longrightarrow> filled a b Q d"
  by (simp add: filled_def)

lemma set_filled:
  assumes "filled a b (before (Suc i) (Suc j)) d" "i < length a" "j < length b"
  shows "filled a b (before (Suc i) (Suc (Suc j))) (set_cell d (Suc i) (Suc j) (osa_cell a b d (Suc i) (Suc j)))"
proof -
  have len: "Suc i < length d" "Suc j < length (d ! Suc i)" using assms by (simp_all add: filled_def)
  have "before (Suc i) (Suc j) i' j'" if "before (Suc i) (Suc (Suc j)) i' j'" "\<not> (i' = Suc i \<and> j' = Suc j)" for i' j'
    using that unfolding before_def by linarith
  then show ?thesis
    using assms(1) len cell_filled [OF assms] by (simp add: filled_def set_cell_nth)
qed

lemma row_filled:
  assumes "filled a b (before (Suc i) 1) d" "i < length a"
  shows "filled a b (before (Suc (Suc i)) 1) (osa_row a b (Suc i) d)"
proof -
  have "filled a b (before (Suc i) (Suc k)) (fold (\<lambda>j d. set_cell d (Suc i) j (osa_cell a b d (Suc i) j)) [1..<k + 1] d)"
    if "k \<le> length b" for k
    using that
  proof (induction k)
    case (Suc k)
    then show ?case using set_filled [OF _ assms(2), of b k] by simp
  qed (use assms(1) in simp)
  from this [of "length b"] have "filled a b (before (Suc i) (Suc (length b))) (osa_row a b (Suc i) d)"
    by (simp only: osa_row_def)
  then show ?thesis by (rule filled_mono) (auto simp: before_def)
qed

lemma start_filled: "filled a b (before 1 1) (osa_start (length a) (length b))"
  by (auto simp: filled_def before_def osa_start_def nth_list_update Let_def nth_append Suc_le_eq simp del: upt_Suc)

lemma osa_distance_rec: "osa_distance a b = osa_rec (rev a) (rev b)"
proof -
  have "filled a b (before (Suc k) 1) (fold (osa_row a b) [1..<k + 1] (osa_start (length a) (length b)))"
    if "k \<le> length a" for k
    using that
  proof (induction k)
    case (Suc k)
    then show ?case using row_filled [of a b k] by simp
  qed (use start_filled in simp)
  from filledD [OF this [of "length a"], of "length a" "length b"] show ?thesis
    by (simp add: osa_distance_def before_def prefix_distance_def)
qed

text \<open>
  C38: the matrix finds the cheapest way from one name to the other. The distance it computes is
  the cost of a series of insertions, deletions, substitutions and swaps of neighbours that
  turns one list of characters into the other, touching no character twice, and no such series
  costs less.
\<close>

theorem osa_distance_optimal:
  "edits a b (osa_distance a b) \<and> (edits a b k \<longrightarrow> osa_distance a b \<le> k)"
  using osa_rec_edits [of "rev a" "rev b"] edits_osa_rec [of a b k] by (simp add: osa_distance_rec)

theorem osa_distance_optimal_witness:
  "edits ''recieve'' ''receive'' 1 \<and> osa_distance ''recieve'' ''receive'' = 1"
proof -
  have same: "edits xs xs 0" for xs :: string
    by (induction xs rule: rev_induct) (auto intro: edits.intros)
  have app: "edits (a @ xs) (b @ xs) k" if "edits a b k" for a b xs :: string and k
    using that by (induction xs rule: rev_induct) (auto simp flip: append_assoc intro: edits.keep)
  have one: "edits ''recieve'' ''receive'' 1"
    using app [OF edits.swap [OF same [of "''rec''"]], of "CHR ''i''" "CHR ''e''" "''ve''"] by simp
  have "edits ''recieve'' ''receive'' (osa_distance ''recieve'' ''receive'') \<and> osa_distance ''recieve'' ''receive'' \<le> 1"
    using osa_distance_optimal [of "''recieve''" "''receive''" 1] one by simp
  moreover have "osa_distance ''recieve'' ''receive'' \<noteq> 0" by code_simp
  ultimately show ?thesis using one by auto
qed


section \<open>The folders above a path\<close>

definition lies_under :: "string \<Rightarrow> string \<Rightarrow> bool" where
  "lies_under folder path \<longleftrightarrow> starts_with (folder @ ''/'') path"

lemma level_ends_shift: "level_ends (k + e) segs = map ((+) k) (level_ends e segs)"
proof (induction segs arbitrary: e)
  case (Cons g segs)
  show ?case using Cons.IH [of "e + length g + 1"] by (simp add: add.assoc)
qed simp

lemma levels_single: "CHR ''/'' \<notin> set f \<Longrightarrow> levels f = [f]"
  by (simp add: levels_def)

lemma levels_Cons:
  "CHR ''/'' \<notin> set g \<Longrightarrow> levels (g @ CHR ''/'' # r) = g # map (\<lambda>l. g @ CHR ''/'' # l) (levels r)"
  using level_ends_shift [of "length g + 1" 0 "split_on (CHR ''/'') r"] by (simp add: levels_def split_on_append comp_def)

lemma first_slash: "u @ d # x = g @ d # r \<Longrightarrow> d \<notin> set u \<Longrightarrow> d \<notin> set g \<Longrightarrow> u = g \<and> x = r"
  by (metis option.inject prod.inject split_once_Some)

lemma under_Cons: "CHR ''/'' \<notin> set g \<Longrightarrow> lies_under l (g @ CHR ''/'' # r) \<longleftrightarrow> l = g \<or> (\<exists>l'. l = g @ CHR ''/'' # l' \<and> lies_under l' r)"
proof
  assume g: "CHR ''/'' \<notin> set g" and "lies_under l (g @ CHR ''/'' # r)"
  then obtain t where t: "l @ CHR ''/'' # t = g @ CHR ''/'' # r" by (auto simp: lies_under_def starts_with_iff)
  show "l = g \<or> (\<exists>l'. l = g @ CHR ''/'' # l' \<and> lies_under l' r)"
  proof (cases "CHR ''/'' \<in> set l")
    case True
    then obtain u v where l: "l = u @ CHR ''/'' # v" "CHR ''/'' \<notin> set u" by (metis split_list_first)
    then have "u = g" "v @ CHR ''/'' # t = r" using t g first_slash [of u "CHR ''/''" "v @ CHR ''/'' # t" g r] by auto
    then show ?thesis using l by (auto simp: lies_under_def starts_with_iff)
  next
    case False
    then show ?thesis using t g first_slash [of l "CHR ''/''" t g r] by auto
  qed
qed (auto simp: lies_under_def starts_with_iff)

lemma slash_cases:
  obtains (plain) "CHR ''/'' \<notin> set f" | (cut) g r where "f = g @ CHR ''/'' # r" "CHR ''/'' \<notin> set g"
  by (meson split_list_first)

lemma set_levels: "l \<in> set (levels folder) \<longleftrightarrow> l = folder \<or> lies_under l folder"
proof (induction "length folder" arbitrary: folder l rule: less_induct)
  case less
  show ?case
  proof (cases folder rule: slash_cases)
    case plain
    then have "\<not> lies_under l folder" by (auto simp: lies_under_def starts_with_iff)
    then show ?thesis using plain by (simp add: levels_single)
  next
    case (cut g r)
    have "l' \<in> set (levels r) \<longleftrightarrow> l' = r \<or> lies_under l' r" for l' using less [of r] cut(1) by simp
    then show ?thesis using cut by (auto simp: levels_Cons under_Cons)
  qed
qed

lemma levels_sorted: "sorted_wrt lies_under (levels folder)"
proof (induction "length folder" arbitrary: folder rule: less_induct)
  case less
  show ?case
  proof (cases folder rule: slash_cases)
    case plain
    then show ?thesis by (simp add: levels_single)
  next
    case (cut g r)
    have "sorted_wrt lies_under (levels r)" using less [of r] cut(1) by simp
    then have "sorted_wrt (\<lambda>a b. lies_under (g @ CHR ''/'' # a) (g @ CHR ''/'' # b)) (levels r)"
      by (rule sorted_wrt_mono_rel [rotated]) (auto simp: lies_under_def starts_with_iff)
    then show ?thesis using cut by (auto simp: levels_Cons sorted_wrt_map lies_under_def starts_with_iff)
  qed
qed

lemma under_length: "lies_under a b \<Longrightarrow> length a < length b"
  by (auto simp: lies_under_def starts_with_iff)

lemma levels_distinct: "distinct (levels folder)"
proof -
  have "sorted_wrt (\<noteq>) (levels folder)"
    using levels_sorted by (rule sorted_wrt_mono_rel [rotated]) (auto dest: under_length)
  then show ?thesis by (auto simp: distinct_conv_nth sorted_wrt_iff_nth_less) (metis nat_neq_iff)
qed

lemma under_path:
  "rsplit_once (CHR ''/'') path = Some (folder, name) \<Longrightarrow> lies_under l path \<longleftrightarrow> l \<in> set (levels folder)"
proof -
  assume "rsplit_once (CHR ''/'') path = Some (folder, name)"
  then have p: "path = folder @ CHR ''/'' # name" "CHR ''/'' \<notin> set name" by (simp_all add: rsplit_once_Some)
  show ?thesis
  proof
    assume "lies_under l path"
    then obtain t where t: "l @ CHR ''/'' # t = folder @ CHR ''/'' # name" using p by (auto simp: lies_under_def starts_with_iff)
    then have "l = folder \<or> (\<exists>u. folder = l @ CHR ''/'' # u)"
      using p(2) by (auto simp: append_eq_append_conv2 Cons_eq_append_conv append_eq_Cons_conv)
    then show "l \<in> set (levels folder)" by (auto simp: set_levels lies_under_def starts_with_iff)
  qed (auto simp: set_levels lies_under_def starts_with_iff p(1))
qed

lemma no_folder: "rsplit_once (CHR ''/'') path = None \<Longrightarrow> \<not> lies_under l path"
  by (auto simp: lies_under_def starts_with_iff)

section \<open>What is counted\<close>

definition engrams_under :: "string \<Rightarrow> string list \<Rightarrow> nat" where
  "engrams_under folder paths = length (filter (\<lambda>p. \<not> is_reserved_path p \<and> lies_under folder p) paths)"

definition counted :: "nat \<Rightarrow> nat option" where
  "counted n = (if n = 0 then None else Some n)"

lemma counted_one: "counted n = Some 1 \<longleftrightarrow> n = 1"
  by (auto simp: counted_def)

lemma count_levels:
  "distinct ls \<Longrightarrow> map_of (fold count_one ls m) f =
     (if f \<in> set ls then Some ((case map_of m f of Some n \<Rightarrow> n | None \<Rightarrow> 0) + 1) else map_of m f)"
  by (induction ls arbitrary: m) (auto simp: count_one_def map_of_bt_insert)

lemma folder_counts_at: "map_of (folder_counts paths) f = counted (engrams_under f paths)"
proof (induction paths rule: rev_induct)
  case Nil
  then show ?case by (simp add: folder_counts_def counted_def engrams_under_def)
next
  case (snoc p paths)
  show ?case
  proof (cases "is_reserved_path p \<or> rsplit_once (CHR ''/'') p = None")
    case True
    then show ?thesis
      using snoc no_folder [of p f] by (auto simp: folder_counts_def count_path_def engrams_under_def simp del: rsplit_once_None)
  next
    case False
    then obtain folder name where r: "rsplit_once (CHR ''/'') p = Some (folder, name)"
      by (cases "rsplit_once (CHR ''/'') p") (auto simp del: rsplit_once_None)
    have "folder_counts (paths @ [p]) = fold count_one (levels folder) (folder_counts paths)"
      using False r by (simp add: folder_counts_def count_path_def)
    then show ?thesis
      using snoc count_levels [OF levels_distinct, of folder "folder_counts paths" f] under_path [OF r, of f] False
      by (auto simp: engrams_under_def counted_def)
  qed
qed

lemma alone_iff:
  assumes "path \<in> set paths" "distinct paths" "\<not> is_reserved_path path" "lies_under l path"
  shows "engrams_under l paths = 1 \<longleftrightarrow> (\<forall>q\<in>set paths. q \<noteq> path \<longrightarrow> is_reserved_path q \<or> \<not> lies_under l q)"
proof -
  let ?S = "{q \<in> set paths. \<not> is_reserved_path q \<and> lies_under l q}"
  have "engrams_under l paths = card ?S"
    using assms(2) by (simp add: engrams_under_def flip: distinct_card)
  moreover have "path \<in> ?S" using assms by simp
  then have "card ?S = 1 \<longleftrightarrow> ?S = {path}" by (metis (no_types, lifting) card_1_singletonE is_singletonI is_singleton_altdef singletonD)
  ultimately show ?thesis using assms by auto
qed

text \<open>
  C39: the hint names the folder a write really started. Counted with the new engram among the
  domain's paths, the created folder is above the engram, holds no other engram, and every
  folder above it holds one; and when there is none, every folder above the engram held
  something before.
\<close>

theorem created_folder_is_new:
  assumes "path \<in> set paths" "distinct paths" "\<not> is_reserved_path path"
  shows "case created_folder path (folder_counts paths) of
      Some l \<Rightarrow> lies_under l path \<and> (\<forall>q\<in>set paths. q \<noteq> path \<longrightarrow> is_reserved_path q \<or> \<not> lies_under l q)
        \<and> (\<forall>l'. lies_under l' l \<longrightarrow> (\<exists>q\<in>set paths. q \<noteq> path \<and> \<not> is_reserved_path q \<and> lies_under l' q))
    | None \<Rightarrow> (\<forall>l. lies_under l path \<longrightarrow> (\<exists>q\<in>set paths. q \<noteq> path \<and> \<not> is_reserved_path q \<and> lies_under l q))"
proof (cases "rsplit_once (CHR ''/'') path")
  case None
  show ?thesis using no_folder [OF None] unfolding created_folder_def None by simp
next
  case (Some fn)
  then obtain folder name where r: "rsplit_once (CHR ''/'') path = Some (folder, name)" by (cases fn) simp
  let ?P = "\<lambda>l. engrams_under l paths = 1"
  have c: "created_folder path (folder_counts paths) = find ?P (levels folder)"
    by (simp add: created_folder_def r folder_counts_at counted_one del: One_nat_def)
  note al = alone_iff [OF assms]
  show ?thesis
  proof (cases "find ?P (levels folder)")
    case None
    then have "\<not> ?P l" if "lies_under l path" for l using that under_path [OF r] by (auto simp: find_None_iff)
    then show ?thesis using None c al by fastforce
  next
    case (Some l)
    then obtain i where i: "i < length (levels folder)" "?P (levels folder ! i)" "l = levels folder ! i"
      "\<forall>j<i. \<not> ?P (levels folder ! j)" by (auto simp: find_Some_iff)
    have ul: "lies_under l path" using under_path [OF r] i(1,3) by simp
    have "\<not> ?P l'" and "lies_under l' path" if l': "lies_under l' l" for l'
    proof -
      show u: "lies_under l' path" using l' ul by (auto simp: lies_under_def starts_with_iff)
      then obtain j where j: "j < length (levels folder)" "levels folder ! j = l'"
        using under_path [OF r, of l'] by (auto simp: in_set_conv_nth)
      have "\<not> i \<le> j"
      proof
        assume "i \<le> j"
        then have "l' = l \<or> lies_under l l'"
          using sorted_wrt_nth_less [OF levels_sorted, of i j folder] i(3) j by (cases "i = j") auto
        then show False using under_length [OF l'] under_length [of l l'] by auto
      qed
      then show "\<not> ?P l'" using i(4) j(2) by auto
    qed
    then show ?thesis using c Some al ul i(2,3) by fastforce
  qed
qed

theorem created_folder_is_new_witness:
  "created_folder ''ops/pier/tides.md'' (folder_counts [''ops/log.md'', ''ops/crane.md'', ''ops/pier/tides.md'']) = Some ''ops/pier''
   \<and> lies_under ''ops/pier'' ''ops/pier/tides.md''"
proof -
  let ?paths = "[''ops/log.md'', ''ops/crane.md'', ''ops/pier/tides.md'']"
  have c: "created_folder ''ops/pier/tides.md'' (folder_counts ?paths) = Some ''ops/pier''" by code_simp
  have "\<not> is_reserved_path ''ops/pier/tides.md''" by code_simp
  then show ?thesis using created_folder_is_new [of "''ops/pier/tides.md''" ?paths] unfolding c by simp
qed

end
