(* ===== verification/Spec2Isabelle.thy ===== *)
theory Spec2Isabelle
  imports LoginThrottle PendingStore RegisterDomains RefreshTokens RemoteMerge CollabMerge EngramParse LocalChanges PageCover Joins ThreadEdits ChangeBus Provisioning BasePath LineLimit Folders
begin

text \<open>
  Crystalline keeps a team's knowledge as Markdown files (engrams) in domains, serves them to
  agents and people, and lets several of them edit at once. This development models the parts
  of its Rust code under \<open>src/crates\<close> that decide something and can be read without the
  databases, networks and neural models around them, and proves what makes them correct. A
  definition has the name of the function it models where Isabelle allows it, a \<open>struct\<close> is
  a record, an \<open>enum\<close> a datatype, a \<open>Result\<close> a sum with the error on the left, an \<open>Option\<close> an
  option, text is its UTF-8 bytes, and a clock, a lock's holder or a random token is an argument.

  \<^bold>\<open>How the parts interact.\<close> A domain is registered under a local name (\<open>Registration\<close>,
  by the commands of \<open>RegisterDomains\<close>), and every spelling of it resolves to that name through one table (\<open>Names\<close>). Its files are told
  apart by their path (\<open>Layout\<close>), read with one line ending (\<open>LineEndings\<close>), cut into
  frontmatter and body (\<open>FrontmatterMerge\<close>) and scanned for headings, observations and relations
  (\<open>EngramBody\<close>, \<open>EngramParse\<close>), whose links are written and read by \<open>InlineCode\<close>, \<open>LinkSyntax\<close>
  and \<open>LinkText\<close> and lead to an engram by \<open>Address\<close> and \<open>LinkResolution\<close>. A folder that follows
  a remote is compared with it (\<open>LocalChanges\<close>) and merged file by file (\<open>RemoteMerge\<close>), and an
  outside change is merged into a live session (\<open>CollabMerge\<close>). Comments live in thread files
  beside a document (\<open>Threads\<close>, \<open>ThreadEdits\<close>). A committed change is announced on one bus
  (\<open>ChangeBus\<close>), a write into a new folder is checked for a close name (\<open>Folders\<close>), and what a
  domain ships to agent harnesses is reconciled into their folders (\<open>Provisioning\<close>). Who may do
  any of it is decided over the accounts database: its tables (\<open>AuthTables\<close>, \<open>Folding\<close>), the
  operations on them (\<open>Accounts\<close>, \<open>Identities\<close>, \<open>OauthGrants\<close>, \<open>Membership\<close>), the access policy
  (\<open>Access\<close>) and the joins into drafts (\<open>Joins\<close>). Around the server stand the login throttle
  (\<open>LoginThrottle\<close>), the store of pending sign-ins (\<open>PendingStore\<close>), the path it is served under
  (\<open>BasePath\<close>) and the size limit on a stdio message (\<open>LineLimit\<close>).

  \<^bold>\<open>The theories and the code.\<close>
  \<^item> \<open>Prelude\<close>, \<open>Searching\<close>, \<open>Trimming\<close>, \<open>Maps\<close>: what of Rust's standard library the code uses,
    with its laws: \<open>split\<close>, \<open>trim\<close>, \<open>find\<close>, UTF-8, decimal numbers, \<open>HashMap\<close> as an association
    list with distinct keys and \<open>BTreeMap\<close> as one sorted by key. \<open>keyed_map\<close> is their interface.
  \<^item> \<open>LineEndings\<close> (\<open>core/src/line_endings.rs\<close>), \<open>Address\<close> and \<open>LinkResolution\<close>
    (\<open>core/src/address.rs\<close>), \<open>Registration\<close> (\<open>core/src/config/registration.rs\<close>, entries of
    \<open>config.rs\<close>), \<open>RegisterDomains\<close> (\<open>engine/src/registration.rs\<close>), \<open>Names\<close> (\<open>core/src/names.rs\<close>), \<open>Layout\<close> (\<open>core/src/layout.rs\<close>,
    \<open>reflection/layout.rs\<close>, \<open>attachment.rs\<close>, \<open>kind.rs\<close>), \<open>Folders\<close> (\<open>core/src/folders.rs\<close>),
    \<open>BasePath\<close> (\<open>core/src/base.rs\<close> and the stripping in \<open>service/src/daemon.rs\<close>).
  \<^item> \<open>FrontmatterMerge\<close> (\<open>core/src/frontmatter.rs\<close>), \<open>EngramBody\<close> and \<open>EngramParse\<close>
    (\<open>core/src/parse.rs\<close>), \<open>InlineCode\<close> and \<open>LinkSyntax\<close> (\<open>core/src/reflection/links.rs\<close>,
    \<open>parse.rs\<close>, \<open>index.rs\<close>, \<open>attachment.rs\<close>), \<open>LinkText\<close> (\<open>core/src/engram.rs\<close>), \<open>Threads\<close> and
    \<open>ThreadEdits\<close> (\<open>core/src/threads.rs\<close>).
  \<^item> \<open>LocalChanges\<close> (\<open>remote/src/changes.rs\<close>, \<open>state.rs\<close>), \<open>RemoteMerge\<close> (\<open>remote/src/merge.rs\<close>),
    \<open>CollabMerge\<close> (\<open>engine/src/collab/merge.rs\<close>), \<open>ChangeBus\<close> (\<open>engine/src/changes.rs\<close>
    and the audience a frame is checked against in \<open>rest/src/events.rs\<close>),
    \<open>PendingStore\<close> (\<open>engine/src/pending.rs\<close>), \<open>Provisioning\<close> (\<open>core/src/provision/reconcile.rs\<close>,
    \<open>receipt.rs\<close>, \<open>model.rs\<close>), \<open>LoginThrottle\<close> (\<open>rest/src/login_throttle.rs\<close>), \<open>LineLimit\<close>
    (\<open>service/src/line_limit.rs\<close>).
  \<^item> \<open>AuthTables\<close>, \<open>Accounts\<close>, \<open>Identities\<close>, \<open>OauthGrants\<close> and \<open>Membership\<close>
    (\<open>identity/src/auth_store.rs\<close>): one list of rows per table, a statement read as the list
    operation it asks for. \<open>Access\<close> (\<open>identity/src/scope.rs\<close>), \<open>Joins\<close> (\<open>identity/src/join.rs\<close>).
  \<^item> \<open>Folding\<close>, \<open>AuthWf\<close>, \<open>AuthSteps\<close>, \<open>Credentials\<close>, \<open>RefreshTokens\<close>, \<open>AccessRules\<close>, \<open>PageCover\<close>: no
    code of their own. They hold the invariant of the store, the store as a transition system and what
    follows of it for credentials, rights and pages.

  \<^bold>\<open>What the lemmas show.\<close>
  \<^item> Round trips: what \<open>Address\<close>, \<open>LinkSyntax\<close>, \<open>LinkText\<close>, \<open>FrontmatterMerge\<close>, \<open>Threads\<close>,
    \<open>ChangeBus\<close> (event ids) and \<open>BasePath\<close> write, they read back.
  \<^item> Merges: a change of one side alone is taken, equal changes are taken once, and a conflict
    is reported, for a key, a table row, a file and a live text (the locale \<open>three_way_merge\<close>).
  \<^item> Equivalences: a loop or a batch against a plain definition of what it computes: the state
    machine of \<open>to_lf\<close>, the reader of \<open>LineLimit\<close> against the lines of the whole input however
    it is cut, the matrix of \<open>Folders\<close> against the cheapest series of edits, the batch answers
    of \<open>Access\<close> against the policy for one domain, two orders of building a name table.
  \<^item> Invariants over every reachable state: the accounts store (\<open>store_reachable\<close>), the registry
    of joins, the change bus against what it sent (\<open>bus_reachable\<close>), the pending store and the
    login throttle, the stdio reader at every point a read may be given up (\<open>reading\<close>).
  \<^item> Safety: what a removed or disabled account may still do (nothing), a refresh token works
    once (whatever the store did since), a page is not read by who may not read its source, a
    frame sent under a captured audience keeps one, what Crystalline did not install is not
    touched and an edit is not destroyed unless two keys share its path, a registration never
    repoints a name, a file that is there is not proposed for deletion.
  \<^item> Liveness and termination: a join stands while its holder uses it; stepping a domain name
    returns; every other recursion is a total function with its measure.

  \<^bold>\<open>Interfaces.\<close> \<open>keyed_map\<close> (in \<open>Maps\<close>, interpreted on both map types), \<open>link_resolver\<close> and its
  extension \<open>link_registry\<close> (in \<open>LinkResolution\<close>, on the lookup table), \<open>three_way_merge\<close> (in
  \<open>FrontmatterMerge\<close> on \<open>settle\<close>, in \<open>RemoteMerge\<close> on the pulled file), \<open>owned_table\<close> (in
  \<open>Credentials\<close>, on each table that belongs to accounts) and \<open>join_sweep\<close> (in \<open>Joins\<close>, on expiry and
  each way a holder, a draft or a domain ends).

  \<^bold>\<open>Parameters and hypotheses.\<close> Code the repository only calls is an argument: the YAML, JSON and
  URL libraries, the line differ and the text CRDT, password and content hashes, the Unicode
  lower-casing, the clock, the file system's failures, what GitHub answers. What the code
  relies on of them is a named hypothesis where a theorem needs it: \<open>fold_ok\<close> (a folded
  account name folds to itself), \<open>governor_ok\<close> (the readers GitHub lists of a domain are the
  accounts it answers a reading level for),
  \<open>yaml_ok\<close> and \<open>entry_ok\<close> (YAML of a thread's head reads back; the stored shape of an entry),
  \<open>diff_ok\<close> and \<open>in_blocks\<close> (a diff tiles both sides, with equal runs, none empty, between its changed ones),
  \<open>segmenter_ok\<close> (the rules of cluster breaks the code relies on) and \<open>text_ops_ok\<close> (an insert
  between scalar values and a removal of whole clusters do what they say and do not panic),
  \<open>keys_fresh\<close> (a minted join key is new), \<open>io_works\<close>, \<open>payload_ready\<close> and \<open>clear_of\<close> (no file
  operation fails; a payload holds what its digest says; no other key comes to a path of this
  one). \<open>fresh_step\<close> says that every refresh token minted hashes to a new value, and
  \<open>timely_step\<close> that states of pending sign-ins are fresh and start in the order of the inserts.
  The folders and MANIFESTs of a machine and its saves are the record \<open>machine\<close>. Each
  theorem with a hypothesis has a witness at a concrete input.

  \<^bold>\<open>Bounds and loops.\<close> No definition has fuel. \<open>step_loop\<close> of \<open>Registration\<close> may run forever in the
  code and is a \<open>partial_function\<close>; that it returns is proved. Counters that saturate or wrap do
  so at their width (\<open>u32\<close> and \<open>u64\<close> written out). The change bus is related to what it sent below
  \<open>2 ^ 64\<close> announcements, a position in a live text is a word of 32 bits and its text shorter than
  \<open>2 ^ 32\<close> units, and a JSON value of \<open>LineLimit\<close> nests below the \<open>u32\<close> limit of its depth.

  \<^bold>\<open>Not modelled.\<close> Locks and tasks: an operation that takes a lock is one step. The databases
  (\<open>index/src\<close>, the SQL of \<open>auth_store.rs\<close>), the embedding and entailment models, the HTTP and MCP
  handlers (\<open>rest/src\<close>, \<open>service/src\<close>), the command line (\<open>cli/src\<close>), the GitHub and server clients
  (\<open>remote/src\<close>) are calls into services around the parts above. The engine's operations
  (\<open>engine/src/engine\<close>) compose them with the index and the file system; drafts and overlays,
  sections and provenance of Reflection pages, lint rules, the emitter and importer, the
  translation of artifacts between harnesses and the editing of their JSON files are not
  modelled here. Of the modelled files, the structure globs of the pact, the line rewriters of
  \<open>reflection/links.rs\<close>, the typed frontmatter reader, the scan of a domain's artifacts and the
  stdin thread of \<open>line_limit.rs\<close> are left out.
\<close>

end
